(* ===== verification/Prelude.thy ===== *)
theory Prelude
  imports
    Complex_Main
    "HOL-Library.Char_ord"
    "HOL-Library.List_Lexorder"
    "HOL-Library.Product_Lexorder"
    "HOL-Library.Sublist"
begin

text \<open>
  What the component theories share: the modelling conventions for the Rust standard library
  and the lemmas about them.

  \<^item> A Rust \<open>String\<close> is a \<open>string\<close>, the list of its \<open>char\<close>s. The repertoire of the model is
    U+0000 to U+00FF; the order of \<open>char\<close> by code and the lexicographic order on lists are the
    order of \<open>str\<close> (byte order of UTF-8 and code point order coincide). \<open>str::len\<close> counts the
    UTF-8 bytes (\<open>utf8_len\<close>). The two components whose code works on byte offsets (\<open>Jsonc\<close> and
    \<open>FileSlice\<close>) model the text as its bytes instead.
  \<^item> A \<open>BTreeMap\<close> is the list of its entries in key order (\<open>btree\<close>), so that iterating over it is
    iterating over the list. A \<open>HashMap\<close> or \<open>HashSet\<close> whose iteration order the code never
    observes is a map or a set.
  \<^item> An \<open>f64\<close> is a \<open>real\<close>; rounding is not modelled.
\<close>

section \<open>Named collections\<close>

named_theorems btree_simps \<open>lookups after the operations of an ordered map\<close>
named_theorems btree_wf \<open>the operations of an ordered map keep its keys in order\<close>

section \<open>Characters\<close>

definition ascii_upper :: "char \<Rightarrow> bool" where
  "ascii_upper c \<longleftrightarrow> CHR ''A'' \<le> c \<and> c \<le> CHR ''Z''"

definition ascii_lower :: "char \<Rightarrow> bool" where
  "ascii_lower c \<longleftrightarrow> CHR ''a'' \<le> c \<and> c \<le> CHR ''z''"

definition ascii_digit :: "char \<Rightarrow> bool" where
  "ascii_digit c \<longleftrightarrow> CHR ''0'' \<le> c \<and> c \<le> CHR ''9''"

definition ascii_alnum :: "char \<Rightarrow> bool" where
  "ascii_alnum c \<longleftrightarrow> ascii_upper c \<or> ascii_lower c \<or> ascii_digit c"

text \<open>\<open>u8::is_ascii_whitespace\<close> and \<open>char::is_ascii_whitespace\<close>: space, TAB, LF, FF and CR.\<close>

definition ascii_whitespace :: "char \<Rightarrow> bool" where
  "ascii_whitespace c \<longleftrightarrow>
     c = CHR '' '' \<or> c = CHR 0x09 \<or> c = CHR 0x0A \<or> c = CHR 0x0C \<or> c = CHR 0x0D"

text \<open>\<open>char::is_whitespace\<close> on the repertoire (White_Space up to U+00FF).\<close>

definition is_whitespace :: "char \<Rightarrow> bool" where
  "is_whitespace c \<longleftrightarrow>
     CHR 0x09 \<le> c \<and> c \<le> CHR 0x0D \<or> c = CHR '' '' \<or> c = CHR 0x85 \<or> c = CHR 0xA0"

text \<open>\<open>char::is_alphanumeric\<close> on the repertoire (Alphabetic, or of category N).\<close>

definition is_alphanumeric :: "char \<Rightarrow> bool" where
  "is_alphanumeric c \<longleftrightarrow> ascii_alnum c
     \<or> c = CHR 0xAA \<or> c = CHR 0xB2 \<or> c = CHR 0xB3 \<or> c = CHR 0xB5 \<or> c = CHR 0xB9
     \<or> c = CHR 0xBA \<or> c = CHR 0xBC \<or> c = CHR 0xBD \<or> c = CHR 0xBE
     \<or> CHR 0xC0 \<le> c \<and> c \<noteq> CHR 0xD7 \<and> c \<noteq> CHR 0xF7"

text \<open>\<open>char::to_ascii_lowercase\<close>, and \<open>char::to_lowercase\<close>, which on the repertoire maps a
  character to a single character.\<close>

definition to_ascii_lower :: "char \<Rightarrow> char" where
  "to_ascii_lower c = (if ascii_upper c then char_of (of_char c + 32 :: nat) else c)"

definition to_lower :: "char \<Rightarrow> char" where
  "to_lower c =
     (if ascii_upper c \<or> CHR 0xC0 \<le> c \<and> c \<le> CHR 0xDE \<and> c \<noteq> CHR 0xD7
      then char_of (of_char c + 32 :: nat) else c)"

abbreviation lowercase :: "string \<Rightarrow> string" where
  "lowercase s \<equiv> map to_lower s"

abbreviation ascii_lowercase :: "string \<Rightarrow> string" where
  "ascii_lowercase s \<equiv> map to_ascii_lower s"

definition utf8_len :: "string \<Rightarrow> nat" where
  "utf8_len s = sum_list (map (\<lambda>c. if c < CHR 0x80 then 1 else 2) s)"

lemma utf8_len_append [simp]: "utf8_len (s @ t) = utf8_len s + utf8_len t"
  by (simp add: utf8_len_def)

lemma utf8_len_ge: "length s \<le> utf8_len s"
  by (induction s) (auto simp: utf8_len_def)

lemma takeWhile_stop: "\<forall>c \<in> set xs. P c \<Longrightarrow> \<not> P y \<Longrightarrow> takeWhile P (xs @ y # ys) = xs"
  by (induction xs) simp_all

lemma map_filter_mem: "y \<in> set (List.map_filter f xs) \<longleftrightarrow> (\<exists>x \<in> set xs. f x = Some y)"
  by (force simp: List.map_filter_def)

section \<open>Strings\<close>

text \<open>\<open>str::split(c)\<close>: always at least one piece.\<close>

fun split_on :: "char \<Rightarrow> string \<Rightarrow> string list" where
  "split_on c [] = [[]]"
| "split_on c (x # xs) =
     (if x = c then [] # split_on c xs
      else (case split_on c xs of [] \<Rightarrow> [[x]] | p # ps \<Rightarrow> (x # p) # ps))"

lemma split_on_nonempty [simp]: "split_on c s \<noteq> []"
  by (induction s) (auto split: list.splits)

lemma split_on_pieces: "p \<in> set (split_on c s) \<Longrightarrow> c \<notin> set p"
proof (induction s arbitrary: p)
  case Nil
  then show ?case by simp
next
  case (Cons x s)
  obtain q qs where q: "split_on c s = q # qs"
    by (cases "split_on c s") auto
  show ?case
  proof (cases "x = c")
    case True
    then show ?thesis using Cons q by auto
  next
    case False
    then have "p = x # q \<or> p \<in> set qs" using Cons.prems q by auto
    then show ?thesis using Cons.IH q False by auto
  qed
qed

text \<open>\<open>[_]::join(sep)\<close>.\<close>

fun join_with :: "string \<Rightarrow> string list \<Rightarrow> string" where
  "join_with sep [] = []"
| "join_with sep [p] = p"
| "join_with sep (p # q # ps) = p @ sep @ join_with sep (q # ps)"

lemma join_split: "join_with [c] (split_on c s) = s"
proof (induction s)
  case Nil
  then show ?case by simp
next
  case (Cons x s)
  obtain q qs where q: "split_on c s = q # qs"
    by (cases "split_on c s") auto
  then show ?case using Cons by (cases qs) auto
qed

text \<open>\<open>replace('\', "/")\<close>, the path normalisation used all over the code.\<close>

definition slashes :: "string \<Rightarrow> string" where
  "slashes s = map (\<lambda>c. if c = CHR 0x5C then CHR ''/'' else c) s"

lemma slashes_idem [simp]: "slashes (slashes s) = slashes s"
  by (simp add: slashes_def o_def)

lemma length_slashes [simp]: "length (slashes s) = length s"
  by (simp add: slashes_def)

lemma slashes_eq_Nil [simp]: "slashes s = [] \<longleftrightarrow> s = []"
  by (simp add: slashes_def)

abbreviation starts_with :: "string \<Rightarrow> string \<Rightarrow> bool" where
  "starts_with s p \<equiv> prefix p s"

abbreviation ends_with :: "string \<Rightarrow> string \<Rightarrow> bool" where
  "ends_with s p \<equiv> suffix p s"

abbreviation contains :: "string \<Rightarrow> string \<Rightarrow> bool" where
  "contains s p \<equiv> sublist p s"

definition strip_prefix :: "string \<Rightarrow> string \<Rightarrow> string option" where
  "strip_prefix p s = (if prefix p s then Some (drop (length p) s) else None)"

definition strip_suffix :: "string \<Rightarrow> string \<Rightarrow> string option" where
  "strip_suffix p s = (if suffix p s then Some (take (length s - length p) s) else None)"

definition trim_start_by :: "(char \<Rightarrow> bool) \<Rightarrow> string \<Rightarrow> string" where
  "trim_start_by P s = dropWhile P s"

definition trim_end_by :: "(char \<Rightarrow> bool) \<Rightarrow> string \<Rightarrow> string" where
  "trim_end_by P s = rev (dropWhile P (rev s))"

definition trim_by :: "(char \<Rightarrow> bool) \<Rightarrow> string \<Rightarrow> string" where
  "trim_by P s = trim_end_by P (trim_start_by P s)"

abbreviation trim :: "string \<Rightarrow> string" where
  "trim s \<equiv> trim_by is_whitespace s"

text \<open>\<open>trim_end_matches(p)\<close> and \<open>trim_start_matches(p)\<close> with a string pattern remove it as often
  as it occurs (an empty pattern never occurs in the code).\<close>

function trim_end_matches :: "string \<Rightarrow> string \<Rightarrow> string" where
  "trim_end_matches p s =
     (if p \<noteq> [] \<and> suffix p s then trim_end_matches p (take (length s - length p) s) else s)"
  by pat_completeness auto
termination
  by (relation "measure (\<lambda>(p, s). length s)") (auto simp: suffix_def)

declare trim_end_matches.simps [simp del]

lemma trim_end_matches_prefix: "prefix (trim_end_matches p s) s"
proof (induction p s rule: trim_end_matches.induct)
  case (1 p s)
  show ?case
  proof (cases "p \<noteq> [] \<and> suffix p s")
    case True
    then have "prefix (trim_end_matches p (take (length s - length p) s))
        (take (length s - length p) s)"
      using "1.IH" by blast
    then have "prefix (trim_end_matches p (take (length s - length p) s)) s"
      using take_is_prefix prefix_order.trans by blast
    then show ?thesis using True by (simp add: trim_end_matches.simps [of p s])
  next
    case False
    then show ?thesis by (auto simp: trim_end_matches.simps [of p s])
  qed
qed

function trim_start_matches :: "string \<Rightarrow> string \<Rightarrow> string" where
  "trim_start_matches p s =
     (if p \<noteq> [] \<and> prefix p s then trim_start_matches p (drop (length p) s) else s)"
  by pat_completeness auto
termination
  by (relation "measure (\<lambda>(p, s). length s)") (auto simp: prefix_def)

declare trim_start_matches.simps [simp del]

text \<open>\<open>rsplit_once(c)\<close>: what stands before and after the last \<open>c\<close>.\<close>

definition rsplit_once :: "char \<Rightarrow> string \<Rightarrow> (string \<times> string) option" where
  "rsplit_once c s =
     (let after = rev (takeWhile (\<lambda>x. x \<noteq> c) (rev s))
      in if c \<in> set s then Some (take (length s - length after - 1) s, after) else None)"

section \<open>Paths\<close>

text \<open>
  \<open>std::path\<close> on repository-relative Unix paths, as far as the code uses it: the last component
  (\<open>file_name\<close>, \<open>None\<close> for \<open>..\<close> and for a path without one), \<open>file_stem\<close>, \<open>extension\<close>, \<open>parent\<close>
  and \<open>is_absolute\<close>. Empty components and interior \<open>.\<close> components are skipped, as
  \<open>Path::components\<close> does.
\<close>

definition path_parts :: "string \<Rightarrow> string list" where
  "path_parts p = filter (\<lambda>s. s \<noteq> [] \<and> s \<noteq> ''.'') (split_on (CHR ''/'') p)"

definition path_is_absolute :: "string \<Rightarrow> bool" where
  "path_is_absolute p \<longleftrightarrow> prefix ''/'' p"

definition path_file_name :: "string \<Rightarrow> string option" where
  "path_file_name p =
     (case rev (path_parts p) of [] \<Rightarrow> None
      | n # _ \<Rightarrow> if n = ''..'' then None else Some n)"

text \<open>\<open>rsplit_file_at_dot\<close>: a name whose only dot is its first character has no extension.\<close>

definition name_split :: "string \<Rightarrow> string \<times> string option" where
  "name_split n =
     (case rsplit_once (CHR ''.'') n of
        None \<Rightarrow> (n, None)
      | Some (before, after) \<Rightarrow> if before = [] then (n, None) else (before, Some after))"

definition path_file_stem :: "string \<Rightarrow> string option" where
  "path_file_stem p = map_option (fst \<circ> name_split) (path_file_name p)"

definition path_extension :: "string \<Rightarrow> string option" where
  "path_extension p = Option.bind (path_file_name p) (snd \<circ> name_split)"

text \<open>\<open>path.parent()?.file_name()\<close>.\<close>

definition path_parent_name :: "string \<Rightarrow> string option" where
  "path_parent_name p =
     (case rev (path_parts p) of
        _ # n # _ \<Rightarrow> if n = ''..'' then None else Some n
      | _ \<Rightarrow> None)"

text \<open>
  \<open>path.set_extension("")\<close>: the text up to the end of the stem of the file name; the path itself when
  it has no file name.
\<close>

definition path_skip :: "string \<Rightarrow> bool" where
  "path_skip s \<longleftrightarrow> s = [] \<or> s = ''.''"

definition path_without_extension :: "string \<Rightarrow> string" where
  "path_without_extension p =
     (case dropWhile path_skip (rev (split_on (CHR ''/'') p)) of
        [] \<Rightarrow> p
      | n # before \<Rightarrow> if n = ''..'' then p else join_with ''/'' (rev (fst (name_split n) # before)))"

text \<open>\<open>path.strip_prefix(base)\<close> for an absolute path: component by component.\<close>

fun strip_pieces :: "string list \<Rightarrow> string list \<Rightarrow> string list option" where
  "strip_pieces [] pieces = Some pieces"
| "strip_pieces (b # bs) [] = None"
| "strip_pieces (b # bs) (p # ps) =
     (if path_skip p then strip_pieces (b # bs) ps
      else if p = b then strip_pieces bs ps else None)"

definition path_strip_prefix :: "string \<Rightarrow> string \<Rightarrow> string option" where
  "path_strip_prefix p base =
     (if \<not> path_is_absolute base then None
      else map_option
             (\<lambda>pieces. join_with ''/'' (rev (dropWhile path_skip (rev (dropWhile path_skip pieces)))))
             (strip_pieces (path_parts base) (split_on (CHR ''/'') p)))"

text \<open>A path as its components, ordered as \<open>std::path::Component\<close> is: the root, \<open>.\<close>, \<open>..\<close>, names.\<close>

definition path_components :: "string \<Rightarrow> (nat \<times> string) list" where
  "path_components p =
     (let parts = split_on (CHR ''/'') p
      in (if path_is_absolute p then [(0, [])] else if hd parts = ''.'' then [(1, ''.'')] else [])
         @ map (\<lambda>s. if s = ''..'' then (2, s) else (3, s))
             (filter (\<lambda>s. s \<noteq> [] \<and> s \<noteq> ''.'') parts))"

text \<open>\<open>Path::parent\<close> on the components; the root and the empty path have none.\<close>

definition components_parent :: "(nat \<times> string) list \<Rightarrow> (nat \<times> string) list option" where
  "components_parent cs = (if cs = [] \<or> fst (last cs) = 0 then None else Some (butlast cs))"

end
