(* ===== verification/Btree.thy ===== *)
theory Btree
  imports Prelude
begin

text \<open>
  \<open>BTreeMap\<close> and \<open>BTreeSet\<close> as key-sorted lists: the entries in iteration order. The contract the
  client code relies on is the locale \<open>key_map\<close>; the list operations provide it.
\<close>

section \<open>The contract of a keyed map\<close>

locale key_map =
  fixes empty :: "'m"
    and put :: "'k \<Rightarrow> 'v \<Rightarrow> 'm \<Rightarrow> 'm"
    and del :: "'k \<Rightarrow> 'm \<Rightarrow> 'm"
    and get :: "'m \<Rightarrow> 'k \<Rightarrow> 'v option"
    and wf :: "'m \<Rightarrow> bool"
  assumes get_empty: "get empty = Map.empty"
    and wf_empty: "wf empty"
    and get_put: "wf m \<Longrightarrow> get (put k v m) = (get m)(k \<mapsto> v)"
    and wf_put: "wf m \<Longrightarrow> wf (put k v m)"
    and get_del: "wf m \<Longrightarrow> get (del k m) = (get m)(k := None)"
    and wf_del: "wf m \<Longrightarrow> wf (del k m)"
begin

text \<open>Inserting a list of entries one after the other: the last one for a key wins.\<close>

lemma wf_put_all: "wf m \<Longrightarrow> wf (fold (\<lambda>(k, v). put k v) kvs m)"
  by (induction kvs arbitrary: m) (auto simp: wf_put)

lemma get_put_all: "wf m \<Longrightarrow> get (fold (\<lambda>(k, v). put k v) kvs m) = get m ++ map_of (rev kvs)"
proof (induction kvs arbitrary: m)
  case Nil
  then show ?case by simp
next
  case (Cons kv kvs)
  obtain k v where kv: "kv = (k, v)" by fastforce
  have "get (fold (\<lambda>(k, v). put k v) kvs (put k v m)) = get (put k v m) ++ map_of (rev kvs)"
    using Cons by (simp add: wf_put)
  then show ?case
    using Cons.prems by (simp add: kv get_put map_add_def fun_eq_iff split: option.splits)
qed

lemma dom_put_all: "wf m \<Longrightarrow> dom (get (fold (\<lambda>(k, v). put k v) kvs m)) = dom (get m) \<union> fst ` set kvs"
  by (auto simp: get_put_all dom_map_of_conv_image_fst)

end

section \<open>The operations\<close>

type_synonym ('k, 'v) btree = "('k \<times> 'v) list"

definition bt_wf :: "('k::linorder, 'v) btree \<Rightarrow> bool" where
  "bt_wf m \<longleftrightarrow> sorted_wrt (<) (map fst m)"

fun bt_put :: "'k::linorder \<Rightarrow> 'v \<Rightarrow> ('k, 'v) btree \<Rightarrow> ('k, 'v) btree" where
  "bt_put k v [] = [(k, v)]"
| "bt_put k v ((k', v') # m) =
     (if k < k' then (k, v) # (k', v') # m
      else if k = k' then (k, v) # m
      else (k', v') # bt_put k v m)"

definition bt_del :: "'k \<Rightarrow> ('k, 'v) btree \<Rightarrow> ('k, 'v) btree" where
  "bt_del k m = filter (\<lambda>(k', _). k' \<noteq> k) m"

abbreviation bt_get :: "('k, 'v) btree \<Rightarrow> 'k \<Rightarrow> 'v option" where
  "bt_get \<equiv> map_of"

abbreviation bt_keys :: "('k, 'v) btree \<Rightarrow> 'k list" where
  "bt_keys m \<equiv> map fst m"

definition bt_has :: "('k, 'v) btree \<Rightarrow> 'k \<Rightarrow> bool" where
  "bt_has m k \<longleftrightarrow> bt_get m k \<noteq> None"

text \<open>\<open>entry(k).or_default()\<close> followed by an update of the value.\<close>

definition bt_update :: "'k::linorder \<Rightarrow> 'v \<Rightarrow> ('v \<Rightarrow> 'v) \<Rightarrow> ('k, 'v) btree \<Rightarrow> ('k, 'v) btree" where
  "bt_update k d f m = bt_put k (f (case bt_get m k of None \<Rightarrow> d | Some v \<Rightarrow> v)) m"

text \<open>\<open>entry(k).or_insert(v)\<close>.\<close>

definition bt_or_insert :: "'k::linorder \<Rightarrow> 'v \<Rightarrow> ('k, 'v) btree \<Rightarrow> ('k, 'v) btree" where
  "bt_or_insert k v m = (if bt_has m k then m else bt_put k v m)"

definition bt_of_list :: "('k::linorder \<times> 'v) list \<Rightarrow> ('k, 'v) btree" where
  "bt_of_list kvs = fold (\<lambda>(k, v). bt_put k v) kvs []"

section \<open>They provide the contract\<close>

lemma bt_wf_Nil [simp, btree_wf]: "bt_wf []"
  by (simp add: bt_wf_def)

lemma bt_wf_Cons: "bt_wf ((k, v) # m) \<longleftrightarrow> (\<forall>k' \<in> fst ` set m. k < k') \<and> bt_wf m"
  by (auto simp: bt_wf_def)

lemma bt_wf_distinct: "bt_wf m \<Longrightarrow> distinct (map fst m)"
  by (simp add: bt_wf_def strict_sorted_iff)

lemma bt_wf_sorted: "bt_wf m \<Longrightarrow> sorted (map fst m)"
  by (simp add: bt_wf_def strict_sorted_iff)

lemma bt_get_put [simp, btree_simps]: "bt_get (bt_put k v m) = (bt_get m)(k \<mapsto> v)"
  by (induction m) (auto simp: fun_eq_iff)

lemma keys_bt_put [simp]: "fst ` set (bt_put k v m) = insert k (fst ` set m)"
  by (induction k v m rule: bt_put.induct) (simp_all, blast)

lemma bt_wf_put [simp, btree_wf]: "bt_wf m \<Longrightarrow> bt_wf (bt_put k v m)"
proof (induction m)
  case Nil
  then show ?case by (simp add: bt_wf_def)
next
  case (Cons kv m)
  obtain k' v' where kv: "kv = (k', v')" by fastforce
  show ?case using Cons by (auto simp: kv bt_wf_Cons)
qed

lemma bt_get_del [simp, btree_simps]: "bt_get (bt_del k m) = (bt_get m)(k := None)"
  by (induction m) (auto simp: bt_del_def fun_eq_iff)

lemma bt_wf_filter [simp, btree_wf]: "bt_wf m \<Longrightarrow> bt_wf (filter P m)"
  by (induction m) (auto simp: bt_wf_def)

lemma bt_wf_del [simp, btree_wf]: "bt_wf m \<Longrightarrow> bt_wf (bt_del k m)"
  by (simp add: bt_del_def)

interpretation bt: key_map "[]" bt_put bt_del bt_get bt_wf
  by unfold_locales auto

section \<open>Further facts\<close>

lemma bt_has_put [simp, btree_simps]: "bt_has (bt_put k v m) j \<longleftrightarrow> j = k \<or> bt_has m j"
  by (auto simp: bt_has_def)

lemma bt_has_Nil [simp]: "\<not> bt_has [] k"
  by (simp add: bt_has_def)

lemma bt_has_iff: "bt_has m k \<longleftrightarrow> k \<in> fst ` set m"
  by (metis bt_has_def domIff dom_map_of_conv_image_fst)

lemma bt_has_del [simp, btree_simps]: "bt_has (bt_del k m) j \<longleftrightarrow> j \<noteq> k \<and> bt_has m j"
  by (auto simp: bt_has_def)

lemma bt_get_update [btree_simps]:
  "bt_get (bt_update k d f m) = (bt_get m)(k \<mapsto> f (case bt_get m k of None \<Rightarrow> d | Some v \<Rightarrow> v))"
  by (simp add: bt_update_def)

lemma bt_wf_update [simp, btree_wf]: "bt_wf m \<Longrightarrow> bt_wf (bt_update k d f m)"
  by (simp add: bt_update_def)

lemma bt_has_update [simp, btree_simps]: "bt_has (bt_update k d f m) j \<longleftrightarrow> j = k \<or> bt_has m j"
  by (simp add: bt_update_def)

lemma bt_wf_or_insert [simp, btree_wf]: "bt_wf m \<Longrightarrow> bt_wf (bt_or_insert k v m)"
  by (simp add: bt_or_insert_def)

lemma bt_has_or_insert [simp, btree_simps]: "bt_has (bt_or_insert k v m) j \<longleftrightarrow> j = k \<or> bt_has m j"
  by (auto simp: bt_or_insert_def)

lemma bt_get_mem: "bt_wf m \<Longrightarrow> bt_get m k = Some v \<longleftrightarrow> (k, v) \<in> set m"
  by (simp add: bt_wf_distinct)

lemma bt_get_in_set: "bt_get m k = Some v \<Longrightarrow> (k, v) \<in> set m"
  by (rule map_of_SomeD)

text \<open>The number of entries: one more when the key is new, the same when it is not.\<close>

lemma length_bt_put:
  "bt_wf m \<Longrightarrow> length (bt_put k v m) = (if bt_has m k then length m else Suc (length m))"
proof (induction m)
  case Nil
  then show ?case by (simp add: bt_has_def)
next
  case (Cons kv m)
  obtain k' v' where kv: "kv = (k', v')" by fastforce
  have wf: "bt_wf m" and lt: "\<forall>j \<in> fst ` set m. k' < j"
    using Cons.prems by (auto simp: kv bt_wf_Cons)
  show ?case
  proof (cases "k < k'")
    case True
    then have "\<not> bt_has (kv # m) k" using lt by (auto simp: kv bt_has_iff)
    then show ?thesis using True by (simp add: kv)
  next
    case False
    then show ?thesis using Cons.IH [OF wf] by (auto simp: kv bt_has_def)
  qed
qed

lemma length_bt_del:
  "bt_wf m \<Longrightarrow> length m = length (bt_del k m) + (if bt_has m k then 1 else 0)"
proof (induction m)
  case Nil
  then show ?case by (simp add: bt_del_def)
next
  case (Cons kv m)
  obtain k' v' where kv: "kv = (k', v')" by fastforce
  have wf: "bt_wf m" and lt: "\<forall>j \<in> fst ` set m. k' < j"
    using Cons.prems by (auto simp: kv bt_wf_Cons)
  then have nin: "k' \<notin> fst ` set m" by blast
  show ?case
  proof (cases "k = k'")
    case True
    have "bt_del k m = m"
      unfolding bt_del_def using nin True by (intro filter_True) (auto simp: image_iff)
    then show ?thesis using True by (simp add: kv bt_has_def bt_del_def)
  next
    case False
    then show ?thesis using Cons.IH [OF wf] by (simp add: kv bt_has_def bt_del_def)
  qed
qed

lemma bt_wf_of_list [simp, btree_wf]: "bt_wf (bt_of_list kvs)"
  unfolding bt_of_list_def by (rule bt.wf_put_all) simp

lemma bt_get_of_list: "bt_get (bt_of_list kvs) = map_of (rev kvs)"
  unfolding bt_of_list_def by (subst bt.get_put_all) simp_all

lemma bt_has_of_list: "bt_has (bt_of_list kvs) k \<longleftrightarrow> k \<in> fst ` set kvs"
  by (metis bt_get_of_list bt_has_def domIff dom_map_of_conv_image_fst set_rev)

text \<open>The values below a numeric measure add up to the measure of the whole (reason counters).\<close>

definition bt_total :: "('k, nat) btree \<Rightarrow> nat" where
  "bt_total m = sum_list (map snd m)"

lemma bt_total_Nil [simp]: "bt_total [] = 0"
  by (simp add: bt_total_def)

lemma bt_total_put:
  "bt_wf m \<Longrightarrow>
   bt_total (bt_put k v m) + (case bt_get m k of None \<Rightarrow> 0 | Some w \<Rightarrow> w) = bt_total m + v"
proof (induction m)
  case Nil
  then show ?case by (simp add: bt_total_def)
next
  case (Cons kv m)
  obtain k' v' where kv: "kv = (k', v')" by fastforce
  have wf: "bt_wf m" and lt: "\<forall>j \<in> fst ` set m. k' < j"
    using Cons.prems by (auto simp: kv bt_wf_Cons)
  have "k < k' \<Longrightarrow> bt_get m k = None"
    using lt by (metis dual_order.strict_trans less_irrefl map_of_eq_None_iff)
  then show ?case using Cons.IH [OF wf] by (auto simp: kv bt_total_def)
qed

lemma bt_total_update:
  "bt_wf m \<Longrightarrow> bt_total (bt_update k 0 (\<lambda>v. v + n) m) = bt_total m + n"
  using bt_total_put [of m k "(case bt_get m k of None \<Rightarrow> 0 | Some v \<Rightarrow> v) + n"]
  by (auto simp: bt_update_def split: option.splits)

section \<open>Retaining the first of equal keys\<close>

text \<open>
  \<open>xs.retain(|x| seen.insert(key(x)))\<close> with a set of seen keys: keeps the first element for each key.
\<close>

fun retain_first :: "('a \<Rightarrow> 'k) \<Rightarrow> 'k set \<Rightarrow> 'a list \<Rightarrow> 'a list" where
  "retain_first key seen [] = []"
| "retain_first key seen (x # xs) =
     (if key x \<in> seen then retain_first key seen xs
      else x # retain_first key (insert (key x) seen) xs)"

lemma retain_first_subset: "set (retain_first key seen xs) \<subseteq> set xs"
  by (induction xs arbitrary: seen) (simp_all add: subset_insertI2)

lemma retain_first_keys: "key ` set (retain_first key seen xs) = key ` set xs - seen"
  by (induction xs arbitrary: seen) auto

lemma retain_first_distinct: "distinct (map key (retain_first key seen xs))"
proof (induction xs arbitrary: seen)
  case Nil
  then show ?case by simp
next
  case (Cons x xs)
  have "key x \<notin> key ` set (retain_first key (insert (key x) seen) xs)"
    by (simp only: retain_first_keys) blast
  then show ?case using Cons by auto
qed

lemma length_retain_first_le: "length (retain_first key seen xs) \<le> length xs"
  by (induction xs arbitrary: seen) (auto simp: le_SucI)

lemma retain_first_id:
  "distinct (map key xs) \<Longrightarrow> key ` set xs \<inter> seen = {} \<Longrightarrow> retain_first key seen xs = xs"
  by (induction xs arbitrary: seen) auto

section \<open>The first minimum\<close>

text \<open>\<open>Iterator::min_by_key\<close>: of several minimal elements the first.\<close>

fun min_by_key :: "('a \<Rightarrow> 'k::linorder) \<Rightarrow> 'a list \<Rightarrow> 'a option" where
  "min_by_key f [] = None"
| "min_by_key f (x # xs) =
     (case min_by_key f xs of None \<Rightarrow> Some x
      | Some y \<Rightarrow> if f y < f x then Some y else Some x)"

lemma min_by_key_None [simp]: "min_by_key f xs = None \<longleftrightarrow> xs = []"
  by (cases xs) (auto split: option.splits)

lemma min_by_key_mem: "min_by_key f xs = Some x \<Longrightarrow> x \<in> set xs"
  by (induction xs arbitrary: x) (auto split: option.splits if_splits)

lemma min_by_key_le: "min_by_key f xs = Some x \<Longrightarrow> y \<in> set xs \<Longrightarrow> f x \<le> f y"
proof (induction xs arbitrary: x)
  case Nil
  then show ?case by simp
next
  case (Cons z zs)
  show ?case
  proof (cases "min_by_key f zs")
    case None
    then show ?thesis using Cons.prems by simp
  next
    case (Some m)
    then show ?thesis using Cons by (fastforce split: if_splits)
  qed
qed

section \<open>Grouping\<close>

text \<open>
  The loop that sorts the elements of a list into groups by key, each group in the order of the
  list: \<open>map.entry(key).or_default().push(x)\<close>. Elements without a key are skipped.
\<close>

definition group_on :: "('a \<Rightarrow> 'k::linorder option) \<Rightarrow> 'a list \<Rightarrow> ('k, 'a list) btree" where
  "group_on key xs =
     fold (\<lambda>x m. case key x of None \<Rightarrow> m | Some k \<Rightarrow> bt_update k [] (\<lambda>ys. ys @ [x]) m) xs []"

lemma group_on_fold:
  "bt_wf m \<Longrightarrow>
   bt_wf (fold (\<lambda>x m. case key x of None \<Rightarrow> m | Some k \<Rightarrow> bt_update k [] (\<lambda>ys. ys @ [x]) m) xs m)
   \<and> bt_get (fold (\<lambda>x m. case key x of None \<Rightarrow> m | Some k \<Rightarrow> bt_update k [] (\<lambda>ys. ys @ [x]) m) xs m) k =
      (let g = filter (\<lambda>x. key x = Some k) xs
       in case bt_get m k of None \<Rightarrow> if g = [] then None else Some g | Some ys \<Rightarrow> Some (ys @ g))"
proof (induction xs arbitrary: m)
  case Nil
  then show ?case by (simp split: option.splits)
next
  case (Cons x xs)
  then show ?case
    by (cases "key x") (auto simp: bt_get_update Let_def split: option.splits)
qed

lemma wf_group_on [simp, btree_wf]: "bt_wf (group_on key xs)"
  unfolding group_on_def using group_on_fold [OF bt_wf_Nil] by blast

lemma get_group_on:
  "bt_get (group_on key xs) k =
     (if filter (\<lambda>x. key x = Some k) xs = [] then None else Some (filter (\<lambda>x. key x = Some k) xs))"
  unfolding group_on_def using group_on_fold [OF bt_wf_Nil, of key xs k] by (simp add: Let_def)

lemma group_on_entry:
  "(k, g) \<in> set (group_on key xs) \<longleftrightarrow> g = filter (\<lambda>x. key x = Some k) xs \<and> g \<noteq> []"
proof -
  have "(k, g) \<in> set (group_on key xs) \<longleftrightarrow> bt_get (group_on key xs) k = Some g"
    using bt_get_mem [OF wf_group_on] by metis
  then show ?thesis by (auto simp: get_group_on)
qed

lemma group_on_member: "bt_get (group_on key xs) k = Some g \<Longrightarrow> x \<in> set g \<Longrightarrow> x \<in> set xs \<and> key x = Some k"
  by (auto simp: get_group_on split: if_splits)

lemma group_on_bounds: "(k, g) \<in> set (group_on key xs) \<Longrightarrow> set g \<subseteq> set xs"
  by (auto simp: group_on_entry)

end
