(* ===== verification/Json.thy ===== *)
theory Json
  imports Btree
begin

text \<open>
  \<open>serde_json::Value\<close> as the code reads it, and the decimal text of integers. An object is a finite
  map, kept in key order; nothing modelled here depends on the iteration order of
  \<open>serde_json::Map\<close>. A number is an integer or a floating point value.
\<close>

section \<open>Decimal text\<close>

definition digit_char :: "nat \<Rightarrow> char" where
  "digit_char d = char_of (48 + d)"

fun show_nat :: "nat \<Rightarrow> string" where
  "show_nat n = (if n < 10 then [digit_char n] else show_nat (n div 10) @ [digit_char (n mod 10)])"

declare show_nat.simps [simp del]

definition show_int :: "int \<Rightarrow> string" where
  "show_int i = (if i < 0 then CHR ''-'' # show_nat (nat (- i)) else show_nat (nat i))"

lemma digit_char_inj: "d < 10 \<Longrightarrow> e < 10 \<Longrightarrow> digit_char d = digit_char e \<Longrightarrow> d = e"
  by (auto simp: digit_char_def take_bit_eq_mod dest: arg_cong [where f = "of_char :: char \<Rightarrow> nat"])

lemma show_nat_nonempty [simp]: "show_nat n \<noteq> []"
  by (subst show_nat.simps) simp

lemma show_nat_inj: "show_nat m = show_nat n \<Longrightarrow> m = n"
proof (induction m arbitrary: n rule: show_nat.induct)
  case (1 m)
  show ?case
  proof (cases "m < 10")
    case True
    then have m: "show_nat m = [digit_char m]" by (subst show_nat.simps) simp
    then show ?thesis
      using "1.prems" True
      by (subst (asm) (2) show_nat.simps) (auto split: if_splits dest: digit_char_inj)
  next
    case False
    then have m: "show_nat m = show_nat (m div 10) @ [digit_char (m mod 10)]"
      by (subst show_nat.simps) simp
    then have "\<not> n < 10"
      using "1.prems" by (metis append_eq_Cons_conv append_is_Nil_conv list.discI show_nat.simps show_nat_nonempty)
    then have n: "show_nat n = show_nat (n div 10) @ [digit_char (n mod 10)]"
      by (subst show_nat.simps) simp
    have "show_nat (m div 10) = show_nat (n div 10)" and "digit_char (m mod 10) = digit_char (n mod 10)"
      using "1.prems" m n by auto
    then have "m div 10 = n div 10" and "m mod 10 = n mod 10"
      using "1.IH" False by (auto intro: digit_char_inj)
    then show ?thesis by (metis div_mult_mod_eq)
  qed
qed

text \<open>The value of a run of decimal digits.\<close>

definition digits_value :: "string \<Rightarrow> nat" where
  "digits_value ds = fold (\<lambda>c n. 10 * n + (of_char c - 48)) ds 0"

lemma digits_show_nat: "c \<in> set (show_nat n) \<Longrightarrow> ascii_digit c"
proof (induction n rule: show_nat.induct)
  case (1 n)
  have d: "ascii_digit (digit_char k)" if "k < 10" for k
    using that by (simp add: digit_char_def ascii_digit_def less_eq_char_def take_bit_eq_mod)
  show ?case
  proof (cases "n < 10")
    case True
    then show ?thesis using "1.prems" d by (subst (asm) show_nat.simps) simp
  next
    case False
    then have "c \<in> set (show_nat (n div 10)) \<or> c = digit_char (n mod 10)"
      using "1.prems" by (subst (asm) show_nat.simps) auto
    then show ?thesis using "1.IH" False d by auto
  qed
qed

section \<open>Values\<close>

datatype jnum = JInt int | JFloat real

datatype json =
    JNull
  | JBool bool
  | JNum jnum
  | JStr string
  | JArr "json list"
  | JObj "(string \<times> json) list"

type_synonym jobject = "(string, json) btree"

fun as_str :: "json \<Rightarrow> string option" where
  "as_str (JStr s) = Some s"
| "as_str _ = None"

fun as_array :: "json \<Rightarrow> json list option" where
  "as_array (JArr xs) = Some xs"
| "as_array _ = None"

fun as_object :: "json \<Rightarrow> jobject option" where
  "as_object (JObj m) = Some m"
| "as_object _ = None"

fun as_bool :: "json \<Rightarrow> bool option" where
  "as_bool (JBool b) = Some b"
| "as_bool _ = None"

text \<open>\<open>as_i64\<close>: an integer within the range of the type, nothing else.\<close>

fun as_i64 :: "json \<Rightarrow> int option" where
  "as_i64 (JNum (JInt i)) = (if - (2 ^ 63) \<le> i \<and> i < 2 ^ 63 then Some i else None)"
| "as_i64 _ = None"

fun as_f64 :: "json \<Rightarrow> real option" where
  "as_f64 (JNum (JInt i)) = Some (of_int i)"
| "as_f64 (JNum (JFloat r)) = Some r"
| "as_f64 _ = None"

definition is_null :: "json \<Rightarrow> bool" where
  "is_null v \<longleftrightarrow> v = JNull"

definition is_array :: "json \<Rightarrow> bool" where
  "is_array v \<longleftrightarrow> as_array v \<noteq> None"

definition is_object :: "json \<Rightarrow> bool" where
  "is_object v \<longleftrightarrow> as_object v \<noteq> None"

text \<open>\<open>Value::get(key)\<close>: \<open>None\<close> unless the value is an object with the key.\<close>

definition vget :: "json \<Rightarrow> string \<Rightarrow> json option" where
  "vget v k = Option.bind (as_object v) (\<lambda>m. bt_get m k)"

text \<open>\<open>map.get(k).and_then(Value::as_str)\<close>.\<close>

definition get_str :: "jobject \<Rightarrow> string \<Rightarrow> string option" where
  "get_str m k = Option.bind (bt_get m k) as_str"

lemma as_str_Some [simp]: "as_str v = Some s \<longleftrightarrow> v = JStr s"
  by (cases v) auto

lemma as_array_Some [simp]: "as_array v = Some xs \<longleftrightarrow> v = JArr xs"
  by (cases v) auto

lemma as_object_Some [simp]: "as_object v = Some m \<longleftrightarrow> v = JObj m"
  by (cases v) auto

lemma get_str_Some: "get_str m k = Some s \<longleftrightarrow> bt_get m k = Some (JStr s)"
  by (auto simp: get_str_def bind_eq_Some_conv)

lemma get_str_put [simp]:
  "get_str (bt_put k v m) j = (if j = k then as_str v else get_str m j)"
  by (simp add: get_str_def)

lemma get_str_del [simp]:
  "get_str (bt_del k m) j = (if j = k then None else get_str m j)"
  by (simp add: get_str_def)

text \<open>\<open>map_array\<close> and \<open>map_object\<close>: the in-place traversals \<open>as_array_mut\<close> and \<open>as_object_mut\<close>, which
  leave a value of another kind alone.\<close>

fun map_array :: "(json \<Rightarrow> json) \<Rightarrow> json \<Rightarrow> json" where
  "map_array f (JArr xs) = JArr (map f xs)"
| "map_array f v = v"

fun map_object :: "(jobject \<Rightarrow> jobject) \<Rightarrow> json \<Rightarrow> json" where
  "map_object f (JObj m) = JObj (f m)"
| "map_object f v = v"

text \<open>\<open>if let Some(v) = map.get_mut(k) { f(v) }\<close>.\<close>

definition modify :: "string \<Rightarrow> (json \<Rightarrow> json) \<Rightarrow> jobject \<Rightarrow> jobject" where
  "modify k f m = map (\<lambda>(k', v). (k', if k' = k then f v else v)) m"

lemma keys_modify [simp]: "map fst (modify k f m) = map fst m"
  by (simp add: modify_def split_def)

lemma get_modify [simp]:
  "bt_get (modify k f m) j = (if j = k then map_option f (bt_get m j) else bt_get m j)"
  by (induction m) (auto simp: modify_def)

lemma has_modify [simp]: "bt_has (modify k f m) j \<longleftrightarrow> bt_has m j"
  by (simp add: bt_has_def)

lemma wf_modify [simp, btree_wf]: "bt_wf (modify k f m) \<longleftrightarrow> bt_wf m"
  by (simp add: bt_wf_def)

lemma modify_cong_id: "(\<And>v. bt_get m k = Some v \<Longrightarrow> f v = v) \<Longrightarrow> distinct (map fst m) \<Longrightarrow> modify k f m = m"
  unfolding modify_def by (rule map_idI) (auto simp: map_of_is_SomeI)

lemma modify_modify: "modify k f (modify k g m) = modify k (f \<circ> g) m"
  by (simp add: modify_def split_def)

lemma map_array_idem: "(\<And>v. f (f v) = f v) \<Longrightarrow> map_array f (map_array f v) = map_array f v"
  by (cases v) auto

lemma map_object_idem: "(\<And>m. f (f m) = f m) \<Longrightarrow> map_object f (map_object f v) = map_object f v"
  by (cases v) auto

lemma map_array_comp: "map_array f (map_array g v) = map_array (f \<circ> g) v"
  by (cases v) auto

lemma map_object_comp: "map_object f (map_object g v) = map_object (f \<circ> g) v"
  by (cases v) auto

end
