(* ===== verification/Model.thy ===== *)
theory Model
  imports Json
begin

text \<open>
  The shared data model (\<open>crates/graphoxide-core/src/model.rs\<close>): nodes, edges, extractions and
  graphs, and the canonicalisation of legacy graph documents. The text of a floating point
  identifier is produced by the number formatter of \<open>serde_json\<close>, the parameter \<open>float_text\<close>.
\<close>

section \<open>Records\<close>

datatype confidence = Extracted | Inferred | Ambiguous

fun default_score :: "confidence \<Rightarrow> real" where
  "default_score Extracted = 1"
| "default_score Inferred = 1 / 2"
| "default_score Ambiguous = 1 / 5"

record node =
  n_id :: string
  n_label :: string
  n_file_type :: string
  n_source_file :: string
  n_source_location :: "string option"
  n_community :: "int option"
  n_extra :: jobject

record edge =
  e_source :: string
  e_target :: string
  e_relation :: string
  e_confidence :: confidence
  e_source_file :: string
  e_extra :: jobject

record extraction =
  x_nodes :: "node list"
  x_edges :: "edge list"
  x_hyperedges :: "json list"

record graph =
  g_directed :: bool
  g_multigraph :: bool
  g_nodes :: "node list"
  g_links :: "edge list"
  g_hyperedges :: "json list"
  g_extra :: jobject

definition true_source :: "edge \<Rightarrow> string" where
  "true_source e = (case get_str (e_extra e) ''_src'' of Some s \<Rightarrow> s | None \<Rightarrow> e_source e)"

definition true_target :: "edge \<Rightarrow> string" where
  "true_target e = (case get_str (e_extra e) ''_tgt'' of Some s \<Rightarrow> s | None \<Rightarrow> e_target e)"

section \<open>Numeric identifiers\<close>

fun numeric_id :: "(real \<Rightarrow> string) \<Rightarrow> json \<Rightarrow> string option" where
  "numeric_id float_text (JNum (JInt i)) = Some (show_int i)"
| "numeric_id float_text (JNum (JFloat r)) = Some (float_text r)"
| "numeric_id float_text _ = None"

text \<open>A numeric value under \<open>field\<close> becomes its text; any other value, or none, is left alone.\<close>

definition coerce_field :: "(real \<Rightarrow> string) \<Rightarrow> string \<Rightarrow> jobject \<Rightarrow> jobject" where
  "coerce_field ft field m =
     (case Option.bind (bt_get m field) (numeric_id ft) of
        Some t \<Rightarrow> bt_put field (JStr t) m | None \<Rightarrow> m)"

definition coerce_fields :: "(real \<Rightarrow> string) \<Rightarrow> string list \<Rightarrow> jobject \<Rightarrow> jobject" where
  "coerce_fields ft names m = fold (coerce_field ft) names m"

definition coerce_member :: "(real \<Rightarrow> string) \<Rightarrow> json \<Rightarrow> json" where
  "coerce_member ft v = (case numeric_id ft v of Some t \<Rightarrow> JStr t | None \<Rightarrow> v)"

definition edge_id_fields :: "string list" where
  "edge_id_fields = [''source'', ''target'', ''from'', ''to'']"

definition coerce_hyperedge :: "(real \<Rightarrow> string) \<Rightarrow> jobject \<Rightarrow> jobject" where
  "coerce_hyperedge ft m =
     fold (\<lambda>field. modify field (map_array (coerce_member ft))) [''nodes'', ''members'', ''node_ids''] m"

definition coerce_root :: "(real \<Rightarrow> string) \<Rightarrow> jobject \<Rightarrow> jobject" where
  "coerce_root ft doc =
     modify ''hyperedges'' (map_array (map_object (coerce_hyperedge ft)))
       (fold (\<lambda>bucket. modify bucket (map_array (map_object (coerce_fields ft edge_id_fields))))
          [''edges'', ''links'']
          (modify ''nodes'' (map_array (map_object (coerce_fields ft [''id'']))) doc))"

definition coerce_non_string_ids :: "(real \<Rightarrow> string) \<Rightarrow> json \<Rightarrow> json" where
  "coerce_non_string_ids ft v = map_object (coerce_root ft) v"

section \<open>Legacy aliases\<close>

definition fold_value_alias :: "string \<Rightarrow> string \<Rightarrow> jobject \<Rightarrow> jobject" where
  "fold_value_alias canonical alias m =
     (if bt_has m canonical then m
      else (case bt_get m alias of
              Some v \<Rightarrow> bt_put canonical v (bt_del alias m) | None \<Rightarrow> m))"

definition fold_string_alias :: "string \<Rightarrow> string \<Rightarrow> jobject \<Rightarrow> jobject" where
  "fold_string_alias canonical alias m =
     (let empty = (case get_str m canonical of Some s \<Rightarrow> s = [] | None \<Rightarrow> True)
      in if empty \<and> (case get_str m alias of Some s \<Rightarrow> s \<noteq> [] | None \<Rightarrow> False)
         then fold_value_alias canonical alias m else m)"

definition valid_file_types :: "string list" where
  "valid_file_types = [''code'', ''document'', ''paper'', ''image'', ''rationale'', ''concept'']"

definition null_to_empty :: "string \<Rightarrow> jobject \<Rightarrow> jobject" where
  "null_to_empty field m = (if bt_get m field = Some JNull then bt_put field (JStr []) m else m)"

definition normalize_file_type :: "jobject \<Rightarrow> jobject" where
  "normalize_file_type m =
     (let file_type = (case get_str m ''file_type'' of Some s \<Rightarrow> s | None \<Rightarrow> [])
      in if file_type \<in> set valid_file_types then m
         else bt_put ''file_type''
                (JStr (if file_type \<in> {''markdown'', ''text''} then ''document''
                       else if file_type \<in> {''tool'', ''library''} then ''code''
                       else ''concept'')) m)"

definition normalize_node_object :: "(real \<Rightarrow> string) \<Rightarrow> jobject \<Rightarrow> jobject" where
  "normalize_node_object ft m =
     normalize_file_type
       (fold_string_alias ''source_file'' ''source''
         (fold_string_alias ''source_file'' ''path''
           (fold_string_alias ''label'' ''name''
             (coerce_field ft ''id''
               (null_to_empty ''source_file'' (null_to_empty ''label'' m))))))"

definition default_confidence :: "jobject \<Rightarrow> jobject" where
  "default_confidence m =
     (if \<not> bt_has m ''confidence'' \<and> bt_has m ''confidence_score''
      then bt_put ''confidence'' (JStr ''INFERRED'') m else m)"

definition default_source_file :: "jobject \<Rightarrow> jobject" where
  "default_source_file m =
     (if bt_has m ''source_file'' then m else bt_put ''source_file'' (JStr []) m)"

definition normalize_edge_object :: "(real \<Rightarrow> string) \<Rightarrow> jobject \<Rightarrow> jobject" where
  "normalize_edge_object ft m =
     default_source_file
       (default_confidence
         (fold_string_alias ''relation'' ''type''
           (fold_value_alias ''target'' ''to''
             (fold_value_alias ''source'' ''from''
               (coerce_fields ft edge_id_fields m)))))"

definition has_array :: "jobject \<Rightarrow> string \<Rightarrow> bool" where
  "has_array m k \<longleftrightarrow> (case bt_get m k of Some v \<Rightarrow> is_array v | None \<Rightarrow> False)"

text \<open>The first of the aliases that holds an array becomes \<open>nodes\<close>, unless \<open>nodes\<close> is one already.\<close>

definition take_alias :: "string \<Rightarrow> jobject \<Rightarrow> jobject" where
  "take_alias alias m =
     (case bt_get m alias of Some v \<Rightarrow> bt_put ''nodes'' v (bt_del alias m) | None \<Rightarrow> m)"

definition normalize_hyperedge_object :: "jobject \<Rightarrow> jobject" where
  "normalize_hyperedge_object m =
     bt_del ''node_ids'' (bt_del ''members''
       (if has_array m ''nodes'' then m
        else if has_array m ''members'' then take_alias ''members'' m
        else if has_array m ''node_ids'' then take_alias ''node_ids'' m
        else m))"

definition edges_to_links :: "jobject \<Rightarrow> jobject" where
  "edges_to_links doc =
     (if \<not> bt_has doc ''links''
      then (case bt_get doc ''edges'' of
              Some v \<Rightarrow> bt_put ''links'' v (bt_del ''edges'' doc) | None \<Rightarrow> doc)
      else bt_del ''edges'' doc)"

definition normalize_root :: "(real \<Rightarrow> string) \<Rightarrow> jobject \<Rightarrow> jobject" where
  "normalize_root ft doc =
     modify ''hyperedges'' (map_array (map_object normalize_hyperedge_object))
       (modify ''links'' (map_array (map_object (normalize_edge_object ft)))
         (modify ''nodes'' (map_array (map_object (normalize_node_object ft)))
           (edges_to_links doc)))"

definition normalize_graph_value :: "(real \<Rightarrow> string) \<Rightarrow> json \<Rightarrow> json" where
  "normalize_graph_value ft v = map_object (normalize_root ft) (coerce_non_string_ids ft v)"

section \<open>Canonicalisation lemmas\<close>

lemma numeric_id_None: "numeric_id ft v = None \<longleftrightarrow> (\<forall>n. v \<noteq> JNum n)"
proof (cases v)
  case (JNum n)
  then show ?thesis by (cases n) auto
qed auto

lemma numeric_id_Some_not_str: "numeric_id ft v = Some t \<Longrightarrow> as_str v = None"
  by (cases "(ft, v)" rule: numeric_id.cases) auto

lemma get_coerce_field:
  "bt_get (coerce_field ft field m) j =
     (if j = field then map_option (coerce_member ft) (bt_get m j) else bt_get m j)"
  by (cases "bt_get m field") (auto simp: coerce_field_def coerce_member_def split: option.splits)

lemma coerce_field_stable:
  "(\<And>v. bt_get m field = Some v \<Longrightarrow> numeric_id ft v = None) \<Longrightarrow> coerce_field ft field m = m"
  by (cases "bt_get m field") (auto simp: coerce_field_def)

lemma coerce_member_idem [simp]: "coerce_member ft (coerce_member ft v) = coerce_member ft v"
  by (auto simp: coerce_member_def split: option.splits)

lemma coerce_member_not_numeric [simp]: "numeric_id ft (coerce_member ft v) = None"
  by (auto simp: coerce_member_def split: option.splits)

lemma get_coerce_fields:
  "bt_get (coerce_fields ft names m) j =
     (if j \<in> set names then map_option (coerce_member ft) (bt_get m j) else bt_get m j)"
  unfolding coerce_fields_def
proof (induction names arbitrary: m)
  case Nil
  then show ?case by simp
next
  case (Cons f names)
  then show ?case by (auto simp: get_coerce_field option.map_comp o_def)
qed

lemma coerce_fields_stable:
  "(\<And>f v. f \<in> set names \<Longrightarrow> bt_get m f = Some v \<Longrightarrow> numeric_id ft v = None) \<Longrightarrow>
   coerce_fields ft names m = m"
  unfolding coerce_fields_def
proof (induction names)
  case Nil
  then show ?case by simp
next
  case (Cons f names)
  have "coerce_field ft f m = m"
    by (rule coerce_field_stable) (auto intro: Cons.prems)
  moreover have "fold (coerce_field ft) names m = m"
    by (rule Cons.IH) (auto intro: Cons.prems)
  ultimately show ?case by simp
qed

lemma coerce_fields_idem: "coerce_fields ft names (coerce_fields ft names m) = coerce_fields ft names m"
  by (rule coerce_fields_stable) (auto simp: get_coerce_fields)

lemma modify_commute: "j \<noteq> k \<Longrightarrow> modify j f (modify k g m) = modify k g (modify j f m)"
  by (auto simp: modify_def split_def)

lemma modify_idem: "(\<And>v. f (f v) = f v) \<Longrightarrow> modify k f (modify k f m) = modify k f m"
  by (auto simp: modify_modify modify_def split_def)

lemma coerce_hyperedge_idem: "coerce_hyperedge ft (coerce_hyperedge ft m) = coerce_hyperedge ft m"
proof -
  have i: "map_array (coerce_member ft) (map_array (coerce_member ft) v) = map_array (coerce_member ft) v" for v
    by (rule map_array_idem) simp
  show ?thesis
    by (simp add: coerce_hyperedge_def modify_commute [of "''nodes''" "''members''"]
        modify_commute [of "''nodes''" "''node_ids''"] modify_commute [of "''members''" "''node_ids''"]
        modify_idem [of "map_array (coerce_member ft)", OF i])
qed

lemma coerce_root_idem: "coerce_root ft (coerce_root ft m) = coerce_root ft m"
proof -
  let ?n = "map_array (map_object (coerce_fields ft [''id'']))"
  let ?e = "map_array (map_object (coerce_fields ft edge_id_fields))"
  let ?h = "map_array (map_object (coerce_hyperedge ft))"
  have n: "?n (?n v) = ?n v" and e: "?e (?e v) = ?e v" and h: "?h (?h v) = ?h v" for v
    by (intro map_array_idem map_object_idem coerce_fields_idem coerce_hyperedge_idem)+
  show ?thesis
    by (simp add: coerce_root_def modify_commute [of "''nodes''" "''edges''"]
        modify_commute [of "''nodes''" "''links''"] modify_commute [of "''edges''" "''links''"]
        modify_commute [of "''nodes''" "''hyperedges''"] modify_commute [of "''edges''" "''hyperedges''"]
        modify_commute [of "''links''" "''hyperedges''"]
        modify_idem [of ?n, OF n] modify_idem [of ?e, OF e] modify_idem [of ?h, OF h])
qed

text \<open>What the canonicalisation of a node object establishes; such an object is left alone.\<close>

definition alias_done :: "jobject \<Rightarrow> string \<Rightarrow> string \<Rightarrow> bool" where
  "alias_done m canonical alias \<longleftrightarrow>
     bt_has m canonical \<or> get_str m alias = None \<or> get_str m alias = Some []"

definition node_object_nf :: "jobject \<Rightarrow> bool" where
  "node_object_nf m \<longleftrightarrow>
     bt_get m ''label'' \<noteq> Some JNull \<and> bt_get m ''source_file'' \<noteq> Some JNull
     \<and> (\<forall>n. bt_get m ''id'' \<noteq> Some (JNum n))
     \<and> alias_done m ''label'' ''name''
     \<and> alias_done m ''source_file'' ''path'' \<and> alias_done m ''source_file'' ''source''
     \<and> (\<exists>t \<in> set valid_file_types. get_str m ''file_type'' = Some t)"

lemma get_fold_value_alias:
  "bt_get (fold_value_alias c a m) =
     (if bt_has m c \<or> bt_get m a = None then bt_get m
      else (bt_get m)(a := None, c := bt_get m a))"
  by (auto simp: fold_value_alias_def split: option.splits)

lemma fold_value_alias_stable: "bt_has m c \<or> bt_get m a = None \<Longrightarrow> fold_value_alias c a m = m"
  by (auto simp: fold_value_alias_def split: option.splits)

lemma fold_string_alias_eq:
  "fold_string_alias c a m = (if alias_done m c a then m else fold_value_alias c a m)"
proof (cases "alias_done m c a")
  case True
  then show ?thesis
    by (auto simp: alias_done_def fold_string_alias_def Let_def fold_value_alias_def split: option.splits)
next
  case False
  then have "get_str m c = None"
    by (auto simp: alias_done_def get_str_def bt_has_def)
  then show ?thesis using False
    by (auto simp: alias_done_def fold_string_alias_def split: option.splits)
qed

lemma get_fold_string_alias:
  "bt_get (fold_string_alias c a m) =
     (if alias_done m c a then bt_get m else (bt_get m)(a := None, c := bt_get m a))"
  by (auto simp: fold_string_alias_eq get_fold_value_alias alias_done_def get_str_def)

lemma fold_string_alias_done: "c \<noteq> a \<Longrightarrow> alias_done (fold_string_alias c a m) c a"
  by (cases "alias_done m c a")
     (auto simp: fold_string_alias_eq, auto simp: alias_done_def fold_value_alias_def get_str_def split: option.splits)

lemma fold_string_alias_str:
  "\<not> alias_done m c a \<Longrightarrow> \<exists>s. s \<noteq> [] \<and> bt_get (fold_string_alias c a m) c = Some (JStr s)"
  by (auto simp: get_fold_string_alias alias_done_def get_str_def bind_eq_Some_conv)

lemma get_null_to_empty:
  "bt_get (null_to_empty f m) =
     (if bt_get m f = Some JNull then (bt_get m)(f \<mapsto> JStr []) else bt_get m)"
  by (simp add: null_to_empty_def)

lemma get_normalize_file_type:
  "j \<noteq> ''file_type'' \<Longrightarrow> bt_get (normalize_file_type m) j = bt_get m j"
  by (simp add: normalize_file_type_def Let_def)

lemma normalize_file_type_valid:
  "\<exists>t \<in> set valid_file_types. get_str (normalize_file_type m) ''file_type'' = Some t"
  by (cases "get_str m ''file_type''") (auto simp: normalize_file_type_def Let_def valid_file_types_def)

lemma normalize_file_type_stable:
  "get_str m ''file_type'' = Some t \<Longrightarrow> t \<in> set valid_file_types \<Longrightarrow> normalize_file_type m = m"
  by (simp add: normalize_file_type_def)

lemma node_object_nf_stable: "node_object_nf m \<Longrightarrow> normalize_node_object ft m = m"
proof -
  assume nf: "node_object_nf m"
  have "coerce_field ft ''id'' m = m"
    using nf by (intro coerce_field_stable) (auto simp: node_object_nf_def numeric_id_None)
  then show ?thesis using nf
    by (auto simp: node_object_nf_def normalize_node_object_def null_to_empty_def fold_string_alias_eq
        normalize_file_type_stable)
qed

lemma node_object_nf_normalized: "node_object_nf (normalize_node_object ft m)"
proof -
  define m1 where m1: "m1 = coerce_field ft ''id'' (null_to_empty ''source_file'' (null_to_empty ''label'' m))"
  define m2 where m2: "m2 = fold_string_alias ''label'' ''name'' m1"
  define m3 where m3: "m3 = fold_string_alias ''source_file'' ''path'' m2"
  define m4 where m4: "m4 = fold_string_alias ''source_file'' ''source'' m3"
  define m5 where m5: "m5 = normalize_file_type m4"
  have m: "normalize_node_object ft m = m5"
    by (simp add: normalize_node_object_def m1 m2 m3 m4 m5)
  have g1: "bt_get m1 ''label'' \<noteq> Some JNull" "bt_get m1 ''source_file'' \<noteq> Some JNull"
    by (auto simp: m1 get_coerce_field get_null_to_empty)
  have i1: "bt_get m1 ''id'' \<noteq> Some (JNum n)" for n
    using coerce_member_not_numeric [of ft]
    by (auto simp: m1 get_coerce_field simp del: coerce_member_not_numeric) (metis numeric_id_None)
  have g2: "bt_get m2 ''label'' \<noteq> Some JNull"
    using g1(1) fold_string_alias_str [of m1 "''label''" "''name''"]
    by (cases "alias_done m1 ''label'' ''name''") (auto simp: m2 fold_string_alias_eq)
  have s2: "bt_get m2 ''source_file'' = bt_get m1 ''source_file''"
    and i2: "bt_get m2 ''id'' = bt_get m1 ''id''"
    by (auto simp: m2 get_fold_string_alias)
  have s3: "bt_get m3 ''source_file'' \<noteq> Some JNull"
    using g1(2) s2 fold_string_alias_str [of m2 "''source_file''" "''path''"]
    by (cases "alias_done m2 ''source_file'' ''path''") (auto simp: m3 fold_string_alias_eq)
  have s4: "bt_get m4 ''source_file'' \<noteq> Some JNull"
    using s3 fold_string_alias_str [of m3 "''source_file''" "''source''"]
    by (cases "alias_done m3 ''source_file'' ''source''") (auto simp: m4 fold_string_alias_eq)
  have keep: "bt_get m4 ''label'' = bt_get m2 ''label''" "bt_get m4 ''name'' = bt_get m2 ''name''"
    "bt_get m4 ''id'' = bt_get m2 ''id''"
    by (auto simp: m3 m4 get_fold_string_alias)
  have d2: "alias_done m2 ''label'' ''name''"
    unfolding m2 by (rule fold_string_alias_done) simp
  then have d4: "alias_done m4 ''label'' ''name''"
    by (simp add: alias_done_def bt_has_def get_str_def keep)
  have e3: "alias_done m3 ''source_file'' ''path''"
    unfolding m3 by (rule fold_string_alias_done) simp
  have e4: "alias_done m4 ''source_file'' ''path''"
    using e3 by (auto simp: m4 alias_done_def bt_has_def get_str_def get_fold_string_alias)
  have f4: "alias_done m4 ''source_file'' ''source''"
    unfolding m4 by (rule fold_string_alias_done) simp
  have k5: "bt_get m5 j = bt_get m4 j" if "j \<noteq> ''file_type''" for j
    unfolding m5 using that by (rule get_normalize_file_type)
  have a5: "alias_done m5 c a \<longleftrightarrow> alias_done m4 c a"
    if "c \<noteq> ''file_type''" "a \<noteq> ''file_type''" for c a
    using that by (simp add: alias_done_def bt_has_def get_str_def k5)
  have "\<exists>t \<in> set valid_file_types. get_str m5 ''file_type'' = Some t"
    unfolding m5 by (rule normalize_file_type_valid)
  then show ?thesis
    unfolding node_object_nf_def m
    by (simp add: k5 a5 keep g2 s4 i2 i1 d4 e4 f4)
qed

lemma normalize_node_object_idem:
  "normalize_node_object ft (normalize_node_object ft m) = normalize_node_object ft m"
  by (rule node_object_nf_stable) (rule node_object_nf_normalized)

text \<open>The same for edge objects.\<close>

definition edge_object_nf :: "jobject \<Rightarrow> bool" where
  "edge_object_nf m \<longleftrightarrow>
     (\<forall>f n. f \<in> set edge_id_fields \<longrightarrow> bt_get m f \<noteq> Some (JNum n))
     \<and> (bt_has m ''source'' \<or> \<not> bt_has m ''from'') \<and> (bt_has m ''target'' \<or> \<not> bt_has m ''to'')
     \<and> alias_done m ''relation'' ''type''
     \<and> (bt_has m ''confidence'' \<or> \<not> bt_has m ''confidence_score'') \<and> bt_has m ''source_file''"

lemma edge_object_nf_stable: "edge_object_nf m \<Longrightarrow> normalize_edge_object ft m = m"
proof -
  assume nf: "edge_object_nf m"
  have "coerce_fields ft edge_id_fields m = m"
    using nf by (intro coerce_fields_stable) (auto simp: edge_object_nf_def numeric_id_None)
  then show ?thesis using nf
    by (auto simp: edge_object_nf_def normalize_edge_object_def fold_value_alias_stable
        fold_string_alias_eq default_confidence_def default_source_file_def bt_has_def)
qed

lemma coerced_fields_not_numeric:
  "f \<in> set names \<Longrightarrow> bt_get (coerce_fields ft names m) f \<noteq> Some (JNum n)"
  by (simp add: get_coerce_fields) (metis coerce_member_not_numeric numeric_id_None)

lemma get_default_confidence:
  "j \<noteq> ''confidence'' \<Longrightarrow> bt_get (default_confidence m) j = bt_get m j"
  by (simp add: default_confidence_def)

lemma get_default_source_file:
  "j \<noteq> ''source_file'' \<Longrightarrow> bt_get (default_source_file m) j = bt_get m j"
  by (simp add: default_source_file_def)

lemma edge_object_nf_normalized: "edge_object_nf (normalize_edge_object ft m)"
proof -
  define m1 where m1: "m1 = coerce_fields ft edge_id_fields m"
  define m2 where m2: "m2 = fold_value_alias ''source'' ''from'' m1"
  define m3 where m3: "m3 = fold_value_alias ''target'' ''to'' m2"
  define m4 where m4: "m4 = fold_string_alias ''relation'' ''type'' m3"
  define m5 where m5: "m5 = default_confidence m4"
  define m6 where m6: "m6 = default_source_file m5"
  have m: "normalize_edge_object ft m = m6"
    by (simp add: normalize_edge_object_def m1 m2 m3 m4 m5 m6)
  have n1: "bt_get m1 f \<noteq> Some (JNum n)" if "f \<in> set edge_id_fields" for f n
    using that unfolding m1 by (rule coerced_fields_not_numeric)
  have n2: "bt_get m2 f \<noteq> Some (JNum n)" if "f \<in> set edge_id_fields" for f n
    using n1 [OF that] n1 [of "''from''"] by (auto simp: m2 get_fold_value_alias edge_id_fields_def)
  have n3: "bt_get m3 f \<noteq> Some (JNum n)" if "f \<in> set edge_id_fields" for f n
    using n2 [OF that] n2 [of "''to''"] by (auto simp: m3 get_fold_value_alias edge_id_fields_def)
  have src: "bt_has m3 ''source'' \<or> \<not> bt_has m3 ''from''"
    by (auto simp: m2 m3 bt_has_def get_fold_value_alias)
  have tgt: "bt_has m3 ''target'' \<or> \<not> bt_has m3 ''to''"
    by (auto simp: m3 bt_has_def get_fold_value_alias)
  have k4: "bt_get m4 f = bt_get m3 f" if "f \<noteq> ''relation''" "f \<noteq> ''type''" for f
    using that by (auto simp: m4 get_fold_string_alias)
  have a4: "alias_done m4 ''relation'' ''type''"
    unfolding m4 by (rule fold_string_alias_done) simp
  have k6: "bt_get m6 f = bt_get m4 f" if "f \<noteq> ''confidence''" "f \<noteq> ''source_file''" for f
    using that by (simp add: m6 m5 get_default_confidence get_default_source_file)
  have a6: "alias_done m6 ''relation'' ''type''"
    using a4 by (simp add: alias_done_def bt_has_def get_str_def k6)
  have "bt_has m5 ''confidence'' \<or> \<not> bt_has m5 ''confidence_score''"
    by (auto simp: m5 default_confidence_def)
  then have c6: "bt_has m6 ''confidence'' \<or> \<not> bt_has m6 ''confidence_score''"
    by (simp add: m6 default_source_file_def)
  have s6: "bt_has m6 ''source_file''"
    by (simp add: m6 default_source_file_def)
  have k: "bt_get m6 f = bt_get m3 f" if "f \<in> set edge_id_fields" for f
    using that k6 [of f] k4 [of f] by (auto simp: edge_id_fields_def)
  then have n6: "bt_get m6 f \<noteq> Some (JNum n)" if "f \<in> set edge_id_fields" for f n
    using that n3 by simp
  have "bt_has m6 ''source'' \<or> \<not> bt_has m6 ''from''" "bt_has m6 ''target'' \<or> \<not> bt_has m6 ''to''"
    using src tgt k by (auto simp: bt_has_def edge_id_fields_def)
  then show ?thesis
    using n6 a6 c6 s6 by (simp add: edge_object_nf_def m)
qed

lemma normalize_edge_object_idem:
  "normalize_edge_object ft (normalize_edge_object ft m) = normalize_edge_object ft m"
  by (rule edge_object_nf_stable) (rule edge_object_nf_normalized)

lemma coerce_normalized_node:
  "coerce_fields ft [''id''] (normalize_node_object ft m) = normalize_node_object ft m"
  using node_object_nf_normalized [of ft m]
  by (intro coerce_fields_stable) (auto simp: node_object_nf_def numeric_id_None)

lemma coerce_normalized_edge:
  "coerce_fields ft edge_id_fields (normalize_edge_object ft m) = normalize_edge_object ft m"
  using edge_object_nf_normalized [of ft m]
  by (intro coerce_fields_stable) (auto simp: edge_object_nf_def numeric_id_None)

text \<open>Hyperedges: the entries of the object, so that no assumption on the keys is needed.\<close>

definition entries_ok :: "string \<Rightarrow> (json \<Rightarrow> bool) \<Rightarrow> jobject \<Rightarrow> bool" where
  "entries_ok k P m \<longleftrightarrow> (\<forall>v. (k, v) \<in> set m \<longrightarrow> P v)"

lemma set_bt_put: "set (bt_put k v m) \<subseteq> insert (k, v) (set m)"
  by (induction k v m rule: bt_put.induct) auto

lemma set_bt_del: "set (bt_del k m) \<subseteq> set m"
  by (auto simp: bt_del_def)

lemma entries_ok_put: "entries_ok j P m \<Longrightarrow> j \<noteq> k \<or> P v \<Longrightarrow> entries_ok j P (bt_put k v m)"
  using set_bt_put [of k v m] by (auto simp: entries_ok_def)

lemma entries_ok_del: "entries_ok j P m \<Longrightarrow> entries_ok j P (bt_del k m)"
  using set_bt_del [of k m] by (auto simp: entries_ok_def)

lemma entries_ok_modify_other: "j \<noteq> k \<Longrightarrow> entries_ok j P (modify k f m) \<longleftrightarrow> entries_ok j P m"
  by (force simp: entries_ok_def modify_def)

lemma entries_ok_modify: "entries_ok k P (modify k f m) \<longleftrightarrow> entries_ok k (P \<circ> f) m"
  by (force simp: entries_ok_def modify_def)

lemma entries_ok_True [simp]: "(\<And>v. P v) \<Longrightarrow> entries_ok k P m"
  by (simp add: entries_ok_def)

lemma entries_ok_get: "entries_ok k P m \<Longrightarrow> bt_get m k = Some v \<Longrightarrow> P v"
  by (auto simp: entries_ok_def dest: bt_get_in_set)

lemma entries_ok_not_has: "\<not> bt_has m k \<Longrightarrow> entries_ok k P m"
  by (force simp: entries_ok_def bt_has_iff)

lemma modify_id: "entries_ok k (\<lambda>v. f v = v) m \<Longrightarrow> modify k f m = m"
  unfolding modify_def by (rule map_idI) (auto simp: entries_ok_def)

lemma bt_del_absent: "\<not> bt_has m k \<Longrightarrow> bt_del k m = m"
  unfolding bt_del_def by (rule filter_True) (force simp: bt_has_iff)

lemma entries_ok_take_alias:
  "entries_ok k P m \<Longrightarrow> entries_ok a P m \<Longrightarrow> entries_ok k P (take_alias a m)"
  by (cases "bt_get m a")
     (simp_all add: take_alias_def entries_ok_put entries_ok_del entries_ok_get)

lemma coerce_normalized_hyperedge:
  "coerce_hyperedge ft (normalize_hyperedge_object (coerce_hyperedge ft m)) =
     normalize_hyperedge_object (coerce_hyperedge ft m)"
proof -
  let ?f = "map_array (coerce_member ft)"
  let ?P = "\<lambda>v. ?f v = v"
  have idem: "?f (?f v) = ?f v" for v by (rule map_array_idem) simp
  define c where c: "c = coerce_hyperedge ft m"
  have ok: "entries_ok k ?P c" if "k \<in> {''nodes'', ''members'', ''node_ids''}" for k
    using that by (auto simp: c coerce_hyperedge_def entries_ok_modify entries_ok_modify_other o_def idem)
  have "entries_ok k ?P (take_alias a c)"
    if "k \<in> {''nodes'', ''members'', ''node_ids''}" "a \<in> {''members'', ''node_ids''}" for k a
    by (rule entries_ok_take_alias) (use ok that in auto)
  then have "entries_ok k ?P (normalize_hyperedge_object c)"
    if "k \<in> {''nodes'', ''members'', ''node_ids''}" for k
    using ok [OF that] that by (simp add: normalize_hyperedge_object_def entries_ok_del)
  then show ?thesis
    by (simp add: c [symmetric] coerce_hyperedge_def [of ft "normalize_hyperedge_object c"] modify_id)
qed

lemma normalize_hyperedge_object_idem:
  "normalize_hyperedge_object (normalize_hyperedge_object m) = normalize_hyperedge_object m"
proof -
  define d where d: "d = normalize_hyperedge_object m"
  have "\<not> bt_has d ''members''" and "\<not> bt_has d ''node_ids''"
    by (simp_all add: d normalize_hyperedge_object_def)
  then have "\<not> has_array d ''members''" "\<not> has_array d ''node_ids''"
    and "bt_del ''node_ids'' (bt_del ''members'' d) = d"
    by (auto simp: has_array_def bt_has_def bt_del_absent)
  then show ?thesis by (simp add: d [symmetric]) (simp add: normalize_hyperedge_object_def)
qed

lemma edges_to_links_no_edges: "\<not> bt_has (edges_to_links m) ''edges''"
  by (auto simp: edges_to_links_def bt_has_def split: option.splits)

lemma edges_to_links_stable: "\<not> bt_has m ''edges'' \<Longrightarrow> edges_to_links m = m"
  by (auto simp: edges_to_links_def bt_del_absent bt_has_def split: option.splits)

lemma entries_ok_edges_to_links:
  "entries_ok k P m \<Longrightarrow> k \<noteq> ''links'' \<Longrightarrow> entries_ok k P (edges_to_links m)"
  by (auto simp: edges_to_links_def intro!: entries_ok_put entries_ok_del split: option.splits)

lemma normalize_root_stable:
  assumes "\<not> bt_has m ''edges''"
    and "entries_ok ''nodes'' (\<lambda>v. map_array (map_object (normalize_node_object ft)) v = v) m"
    and "entries_ok ''links'' (\<lambda>v. map_array (map_object (normalize_edge_object ft)) v = v) m"
    and "entries_ok ''hyperedges'' (\<lambda>v. map_array (map_object normalize_hyperedge_object) v = v) m"
  shows "normalize_root ft m = m"
  using assms by (simp add: normalize_root_def edges_to_links_stable modify_id)

lemma coerce_root_stable:
  assumes "\<not> bt_has m ''edges''"
    and "entries_ok ''nodes'' (\<lambda>v. map_array (map_object (coerce_fields ft [''id''])) v = v) m"
    and "entries_ok ''links'' (\<lambda>v. map_array (map_object (coerce_fields ft edge_id_fields)) v = v) m"
    and "entries_ok ''hyperedges'' (\<lambda>v. map_array (map_object (coerce_hyperedge ft)) v = v) m"
  shows "coerce_root ft m = m"
  using assms by (simp add: coerce_root_def modify_id entries_ok_not_has)

lemma map_array_absorb:
  "(\<And>m. f (g m) = g m) \<Longrightarrow>
   map_array (map_object f) (map_array (map_object g) v) = map_array (map_object g) v"
  by (simp add: map_array_comp) (metis (no_types, lifting) comp_apply ext map_object_comp)

lemma normalized_root_facts:
  fixes d :: jobject and ft :: "real \<Rightarrow> string"
  defines "r \<equiv> normalize_root ft (coerce_root ft d)"
  shows "coerce_root ft r = r" and "normalize_root ft r = r"
proof -
  have no: "\<not> bt_has r ''edges''"
    by (simp add: r_def normalize_root_def edges_to_links_no_edges)
  let ?c = "coerce_root ft d"
  have h0: "entries_ok ''hyperedges'' (\<lambda>v. \<exists>w. v = map_array (map_object (coerce_hyperedge ft)) w)
      (edges_to_links ?c)"
    by (rule entries_ok_edges_to_links)
       (simp add: coerce_root_def entries_ok_modify o_def, rule entries_ok_True, blast, simp)
  have hc: "map_array (map_object (coerce_hyperedge ft)) (map_array (map_object normalize_hyperedge_object)
        (map_array (map_object (coerce_hyperedge ft)) w)) =
      map_array (map_object normalize_hyperedge_object) (map_array (map_object (coerce_hyperedge ft)) w)" for w
    using map_array_absorb [of "coerce_hyperedge ft" "normalize_hyperedge_object \<circ> coerce_hyperedge ft" w]
    by (simp add: coerce_normalized_hyperedge map_array_comp map_object_comp [symmetric])
       (simp add: fun_eq_iff o_def map_object_comp)
  show "coerce_root ft r = r"
  proof (rule coerce_root_stable [OF no])
    show "entries_ok ''nodes'' (\<lambda>v. map_array (map_object (coerce_fields ft [''id''])) v = v) r"
      by (simp add: r_def normalize_root_def entries_ok_modify entries_ok_modify_other o_def
          map_array_absorb coerce_normalized_node)
    show "entries_ok ''links'' (\<lambda>v. map_array (map_object (coerce_fields ft edge_id_fields)) v = v) r"
      by (simp add: r_def normalize_root_def entries_ok_modify entries_ok_modify_other o_def
          map_array_absorb coerce_normalized_edge)
    show "entries_ok ''hyperedges'' (\<lambda>v. map_array (map_object (coerce_hyperedge ft)) v = v) r"
      using h0 hc by (auto simp: r_def normalize_root_def entries_ok_modify entries_ok_modify_other)
        (auto simp: entries_ok_def)
  qed
  show "normalize_root ft r = r"
  proof (rule normalize_root_stable [OF no])
    show "entries_ok ''nodes'' (\<lambda>v. map_array (map_object (normalize_node_object ft)) v = v) r"
      by (simp add: r_def normalize_root_def entries_ok_modify entries_ok_modify_other o_def
          map_array_absorb normalize_node_object_idem)
    show "entries_ok ''links'' (\<lambda>v. map_array (map_object (normalize_edge_object ft)) v = v) r"
      by (simp add: r_def normalize_root_def entries_ok_modify entries_ok_modify_other o_def
          map_array_absorb normalize_edge_object_idem)
    show "entries_ok ''hyperedges'' (\<lambda>v. map_array (map_object normalize_hyperedge_object) v = v) r"
      by (simp add: r_def normalize_root_def entries_ok_modify entries_ok_modify_other o_def
          map_array_absorb normalize_hyperedge_object_idem)
  qed
qed

text \<open>
  C13: Canonicalising a graph document is idempotent, whatever the document is, and a canonical
  document is also left alone by the coercion of numeric identifiers: its \<open>edges\<close>, \<open>from\<close>, \<open>to\<close>,
  \<open>members\<close> and \<open>node_ids\<close> aliases are resolved once and for all.
\<close>

theorem normalize_graph_value_idem:
  "normalize_graph_value ft (normalize_graph_value ft v) = normalize_graph_value ft v
   \<and> coerce_non_string_ids ft (normalize_graph_value ft v) = normalize_graph_value ft v"
  by (cases v) (simp_all add: normalize_graph_value_def coerce_non_string_ids_def normalized_root_facts)

text \<open>A small graph, for instances of the theorems: two functions and a call.\<close>

definition plain_node :: "string \<Rightarrow> string \<Rightarrow> string \<Rightarrow> node" where
  "plain_node i label file = \<lparr>n_id = i, n_label = label, n_file_type = ''code'', n_source_file = file,
     n_source_location = None, n_community = None, n_extra = []\<rparr>"

definition plain_edge :: "string \<Rightarrow> string \<Rightarrow> string \<Rightarrow> edge" where
  "plain_edge s t relation = \<lparr>e_source = s, e_target = t, e_relation = relation,
     e_confidence = Extracted, e_source_file = ''m.rs'', e_extra = []\<rparr>"

definition sample_graph :: graph where
  "sample_graph = \<lparr>g_directed = False, g_multigraph = False,
     g_nodes = [plain_node ''a'' ''alpha'' ''m.rs'', plain_node ''b'' ''beta'' ''m.rs''],
     g_links = [plain_edge ''a'' ''b'' ''calls''], g_hyperedges = [], g_extra = []\<rparr>"

end
