(* ===== verification/Ids.thy ===== *)
theory Ids
  imports Model
begin

text \<open>
  Node identifiers (\<open>crates/graphoxide-core/src/ids.rs\<close>). The Unicode tables of the crates
  \<open>unicode-normalization\<close> and \<open>unicode-casefold\<close> are the fields of the parameter \<open>unicode\<close>; what is
  relied on of them is that they do nothing to ASCII text (\<open>ascii_laws\<close>).
\<close>

record unicode =
  u_nfkc :: "string \<Rightarrow> string"
  u_nfkd :: "string \<Rightarrow> string"
  u_nfc :: "string \<Rightarrow> string"
  u_case_fold :: "string \<Rightarrow> string"
  u_combining :: "char \<Rightarrow> bool"

definition is_ascii :: "char \<Rightarrow> bool" where
  "is_ascii c \<longleftrightarrow> c < CHR 0x80"

definition ascii_laws :: "unicode \<Rightarrow> bool" where
  "ascii_laws u \<longleftrightarrow>
     (\<forall>s. (\<forall>c \<in> set s. is_ascii c) \<longrightarrow>
        u_nfkc u s = s \<and> u_nfkd u s = s \<and> u_nfc u s = s
        \<and> ((\<forall>c \<in> set s. \<not> ascii_upper c) \<longrightarrow> u_case_fold u s = s))
     \<and> (\<forall>c. is_ascii c \<longrightarrow> \<not> u_combining u c)"

section \<open>Normalisation\<close>

fun id_loop :: "string \<Rightarrow> bool \<Rightarrow> string \<Rightarrow> string" where
  "id_loop acc pending [] = acc"
| "id_loop acc pending (c # cs) =
     (if is_alphanumeric c
      then id_loop ((if pending \<and> acc \<noteq> [] then acc @ ''_'' else acc) @ [to_lower c]) False cs
      else id_loop acc True cs)"

definition normalize_id :: "unicode \<Rightarrow> string \<Rightarrow> string" where
  "normalize_id u value =
     u_case_fold u (trim_by (\<lambda>c. c = CHR ''_'') (id_loop [] False (u_nfkc u value)))"

definition make_id :: "unicode \<Rightarrow> string list \<Rightarrow> string" where
  "make_id u parts =
     normalize_id u (join_with ''_''
       (map (trim_by (\<lambda>c. c = CHR ''_'' \<or> c = CHR ''.'')) (filter (\<lambda>p. p \<noteq> []) parts)))"

definition node_id :: "unicode \<Rightarrow> string \<Rightarrow> string \<Rightarrow> string" where
  "node_id u source_file symbol = make_id u [source_file, symbol]"

section \<open>The shape of an identifier\<close>

text \<open>A slug: lower-case ASCII letters and digits, in groups separated by single underscores.\<close>

definition slug_char :: "char \<Rightarrow> bool" where
  "slug_char c \<longleftrightarrow> ascii_lower c \<or> ascii_digit c"

fun slug_tail :: "string \<Rightarrow> bool" where
  "slug_tail [] = True"
| "slug_tail (c # cs) =
     (if c = CHR ''_'' then (case cs of [] \<Rightarrow> False | d # _ \<Rightarrow> slug_char d) \<and> slug_tail cs
      else slug_char c \<and> slug_tail cs)"

definition slug :: "string \<Rightarrow> bool" where
  "slug s \<longleftrightarrow> slug_tail s \<and> (s = [] \<or> hd s \<noteq> CHR ''_'')"

lemma slug_char_facts:
  assumes "slug_char c"
  shows "c \<noteq> CHR ''_''" "is_alphanumeric c" "to_lower c = c" "is_ascii c" "\<not> ascii_upper c"
proof -
  have "of_char c < (128 :: nat)" and n: "\<not> ascii_upper c"
    using assms by (auto simp: slug_char_def ascii_lower_def ascii_digit_def ascii_upper_def less_eq_char_def)
  then show "is_ascii c" by (simp add: is_ascii_def less_char_def)
  show "c \<noteq> CHR ''_''"
    using assms by (auto simp: slug_char_def ascii_lower_def ascii_digit_def less_eq_char_def)
  show "is_alphanumeric c"
    using assms by (auto simp: slug_char_def is_alphanumeric_def ascii_alnum_def)
  show "\<not> ascii_upper c" by (rule n)
  show "to_lower c = c"
    using n \<open>of_char c < (128 :: nat)\<close> by (simp add: to_lower_def less_eq_char_def)
qed

lemma to_lower_slug: "is_ascii c \<Longrightarrow> is_alphanumeric c \<Longrightarrow> slug_char (to_lower c)"
proof -
  assume a: "is_ascii c" and b: "is_alphanumeric c"
  have lt: "of_char c < (128 :: nat)" using a by (simp add: is_ascii_def less_char_def)
  have ne: "c \<noteq> d" if "(128 :: nat) \<le> of_char d" for d
    using lt that by auto
  have "ascii_alnum c"
    using b lt by (auto simp: is_alphanumeric_def less_eq_char_def)
  then show ?thesis
    using lt by (auto simp: ascii_alnum_def slug_char_def to_lower_def ascii_upper_def ascii_lower_def
        ascii_digit_def less_eq_char_def take_bit_eq_mod)
qed

lemma underscore_not_alnum [simp]: "\<not> is_alphanumeric (CHR ''_'')"
  by (simp add: is_alphanumeric_def ascii_alnum_def ascii_upper_def ascii_lower_def ascii_digit_def
      less_eq_char_def)

lemma slug_tail_snoc:
  "slug_tail (s @ [c]) \<longleftrightarrow> slug_char c \<and> slug_tail s \<or>
     slug_char c \<and> (\<exists>t. s = t @ ''_'' \<and> slug_tail t)"
proof (induction s rule: slug_tail.induct)
  case 1
  then show ?case by (auto dest: slug_char_facts)
next
  case (2 x s)
  then show ?case
    by (cases s) (auto simp: Cons_eq_append_conv dest: slug_char_facts)
qed

lemma id_loop_slug:
  "\<forall>c \<in> set s. is_ascii c \<Longrightarrow> slug acc \<Longrightarrow> slug (id_loop acc pending s)"
proof (induction acc pending s rule: id_loop.induct)
  case (1 acc pending)
  then show ?case by simp
next
  case (2 acc pending c cs)
  have sub: "\<forall>c \<in> set cs. is_ascii c" and asc: "is_ascii c" using "2.prems" by auto
  let ?acc = "if pending \<and> acc \<noteq> [] then acc @ ''_'' else acc"
  show ?case
  proof (cases "is_alphanumeric c")
    case True
    then have sc: "slug_char (to_lower c)" using asc by (simp add: to_lower_slug)
    have "slug (?acc @ [to_lower c])"
      using "2.prems"(2) sc slug_char_facts(1) [OF sc]
      by (cases acc) (auto simp: slug_def slug_tail_snoc)
    then show ?thesis using "2.IH"(1) True sub by auto
  next
    case False
    then show ?thesis using "2.IH"(2) "2.prems" sub by simp
  qed
qed

lemma id_loop_of_slug:
  "slug_tail s \<Longrightarrow> acc \<noteq> [] \<or> s = [] \<or> hd s \<noteq> CHR ''_'' \<Longrightarrow> id_loop acc False s = acc @ s"
proof (induction "length s" arbitrary: s acc rule: less_induct)
  case less
  show ?case
  proof (cases s)
    case Nil
    then show ?thesis by simp
  next
    case (Cons c cs)
    show ?thesis
    proof (cases "c = CHR ''_''")
      case True
      then obtain d ds where ds: "cs = d # ds" "slug_char d" "slug_tail ds"
        using less.prems(1) Cons by (cases cs) (auto dest: slug_char_facts split: if_splits)
      have "acc \<noteq> []" using less.prems(2) Cons True by simp
      moreover have "id_loop ((acc @ ''_'') @ [d]) False ds = ((acc @ ''_'') @ [d]) @ ds"
        using ds by (intro less.hyps) (auto simp: Cons)
      ultimately show ?thesis
        using True Cons ds by (simp add: slug_char_facts)
    next
      case False
      then have c: "slug_char c" "slug_tail cs" using less.prems(1) Cons by auto
      have "id_loop (acc @ [c]) False cs = (acc @ [c]) @ cs"
        using c by (intro less.hyps) (auto simp: Cons)
      then show ?thesis using Cons c by (simp add: slug_char_facts)
    qed
  qed
qed

lemma slug_tail_chars: "slug_tail s \<Longrightarrow> c \<in> set s \<Longrightarrow> slug_char c \<or> c = CHR ''_''"
  by (induction s) (auto split: if_splits)

lemma slug_last: "slug_tail s \<Longrightarrow> s \<noteq> [] \<Longrightarrow> last s \<noteq> CHR ''_''"
  by (induction s rule: slug_tail.induct) (auto split: if_splits list.splits dest: slug_char_facts)

lemma trim_by_id: "s = [] \<or> \<not> P (hd s) \<and> \<not> P (last s) \<Longrightarrow> trim_by P s = s"
proof -
  assume a: "s = [] \<or> \<not> P (hd s) \<and> \<not> P (last s)"
  then have "dropWhile P s = s" and "dropWhile P (rev s) = rev s"
    by (auto simp: dropWhile_eq_self_iff hd_rev)
  then show ?thesis by (simp add: trim_by_def trim_start_by_def trim_end_by_def)
qed

lemma slug_trim: "slug s \<Longrightarrow> trim_by (\<lambda>c. c = CHR ''_'') s = s"
  by (rule trim_by_id) (auto simp: slug_def slug_last)

lemma slug_fold: "ascii_laws u \<Longrightarrow> slug s \<Longrightarrow> u_case_fold u s = s \<and> u_nfkc u s = s"
proof -
  assume u: "ascii_laws u" and s: "slug s"
  have "is_ascii c \<and> \<not> ascii_upper c" if "c \<in> set s" for c
    using slug_tail_chars [of s c] s that slug_char_facts(4,5) [of c]
    by (auto simp: slug_def is_ascii_def less_char_def ascii_upper_def less_eq_char_def)
  then show ?thesis using u by (simp add: ascii_laws_def)
qed

lemma normalize_id_of_slug: "ascii_laws u \<Longrightarrow> slug s \<Longrightarrow> normalize_id u s = s"
  using slug_fold [of u s] id_loop_of_slug [of s "[]"] slug_trim [of s]
  by (auto simp: normalize_id_def slug_def)

lemma normalize_id_is_slug:
  "ascii_laws u \<Longrightarrow> \<forall>c \<in> set s. is_ascii c \<Longrightarrow> slug (normalize_id u s)"
  using id_loop_slug [of s "[]" False] slug_trim [of "id_loop [] False s"]
    slug_fold [of u "id_loop [] False s"]
  by (simp add: normalize_id_def ascii_laws_def slug_def)

lemma is_ascii_pad: "(\<forall>p \<in> set ps. \<forall>c \<in> set p. is_ascii c) \<Longrightarrow> \<forall>c \<in> set (join_with ''_'' ps). is_ascii c"
  by (induction "''_''" ps rule: join_with.induct) (auto simp: is_ascii_def less_char_def)

lemma trim_by_subset: "set (trim_by P s) \<subseteq> set s"
  unfolding trim_by_def trim_end_by_def trim_start_by_def
  by (metis (no_types, lifting) set_dropWhileD set_rev subsetI)

text \<open>
  The identifier made of ASCII parts is a slug (lower-case letters and digits in groups
  separated by single underscores, none at either end), and normalising it again, or making an
  identifier of it alone, changes nothing.
\<close>

lemma make_id_canonical:
  assumes "ascii_laws u" and "\<forall>p \<in> set parts. \<forall>c \<in> set p. is_ascii c"
  shows "slug (make_id u parts) \<and> normalize_id u (make_id u parts) = make_id u parts
    \<and> make_id u [make_id u parts] = make_id u parts"
proof -
  have "\<forall>p \<in> set (map (trim_by (\<lambda>c. c = CHR ''_'' \<or> c = CHR ''.'')) (filter (\<lambda>p. p \<noteq> []) parts)).
      \<forall>c \<in> set p. is_ascii c"
    using assms(2) trim_by_subset by fastforce
  then have s: "slug (make_id u parts)"
    unfolding make_id_def by (intro normalize_id_is_slug [OF assms(1)] is_ascii_pad)
  have dot: "c \<noteq> CHR ''.''" if "slug_char c" for c
    using that by (auto simp: slug_char_def ascii_lower_def ascii_digit_def less_eq_char_def)
  have "trim_by (\<lambda>c. c = CHR ''_'' \<or> c = CHR ''.'') (make_id u parts) = make_id u parts"
  proof (rule trim_by_id, cases "make_id u parts = []")
    case False
    then have "hd (make_id u parts) \<noteq> CHR ''_''" "last (make_id u parts) \<noteq> CHR ''_''"
      using s slug_last by (auto simp: slug_def)
    moreover have "slug_char c \<or> c = CHR ''_''" if "c \<in> set (make_id u parts)" for c
      using s slug_tail_chars that by (auto simp: slug_def)
    ultimately show "make_id u parts = [] \<or> \<not> (hd (make_id u parts) = CHR ''_'' \<or> hd (make_id u parts) = CHR ''.'')
      \<and> \<not> (last (make_id u parts) = CHR ''_'' \<or> last (make_id u parts) = CHR ''.'')"
      using False dot by (metis hd_in_set last_in_set)
  qed simp
  then have "make_id u [make_id u parts] = make_id u parts"
    using normalize_id_of_slug [OF assms(1) s] normalize_id_of_slug [OF assms(1), of "[]"]
    by (cases "make_id u parts = []")
      (simp_all add: make_id_def [of u "[make_id u parts]"] make_id_def [of u "[[]]"] slug_def)
  then show ?thesis using s normalize_id_of_slug [OF assms(1) s] by simp
qed

definition plain_unicode :: unicode where
  "plain_unicode = \<lparr>u_nfkc = \<lambda>s. s, u_nfkd = \<lambda>s. s, u_nfc = \<lambda>s. s, u_case_fold = \<lambda>s. s, u_combining = \<lambda>c. False\<rparr>"

lemma plain_unicode_laws: "ascii_laws plain_unicode"
  by (simp add: ascii_laws_def plain_unicode_def)

theorem make_id_canonical_witness:
  "slug (make_id plain_unicode [''src/A.rs'', ''Main''])
   \<and> make_id plain_unicode [''src/A.rs'', ''Main''] = ''src_a_rs_main''"
proof -
  have "\<forall>p \<in> set [''src/A.rs'', ''Main'']. \<forall>c \<in> set p. is_ascii c"
    by (simp add: is_ascii_def less_char_def)
  moreover have "make_id plain_unicode [''src/A.rs'', ''Main''] = ''src_a_rs_main''" by code_simp
  ultimately show ?thesis
    using make_id_canonical [OF plain_unicode_laws, of "[''src/A.rs'', ''Main'']"] by blast
qed

end
