(* ===== verification/Validate.thy ===== *)
theory Validate
  imports Model
begin

text \<open>
  Schema validation (\<open>crates/graphoxide-core/src/validate.rs\<close>): the untyped validator, which reports
  every violation, and the typed one, which stops at the first. The message texts are the
  constructors of \<open>schema_error\<close>: \<open>python_repr\<close> only renders the value that is their argument.
\<close>

section \<open>The untyped validator\<close>

datatype schema_error =
    NotAnObject
  | MissingNodes
  | NodesNotList
  | NodeNotObject nat
  | NodeMissingField nat "json option" string
  | NodeIdNotHashable nat json
  | NodeBadFileType nat "json option" json
  | MissingEdges
  | EdgesNotList
  | EdgeNotObject nat
  | EdgeMissingField nat string
  | EdgeBadConfidence nat json
  | EdgeEndpointNotHashable nat string json
  | EdgeEndpointUnknown nat string json

definition valid_confidences :: "string list" where
  "valid_confidences = [''EXTRACTED'', ''INFERRED'', ''AMBIGUOUS'']"

definition required_node_fields :: "string list" where
  "required_node_fields = [''id'', ''label'', ''file_type'', ''source_file'']"

definition required_edge_fields :: "string list" where
  "required_edge_fields = [''source'', ''target'', ''relation'', ''confidence'', ''source_file'']"

definition is_non_hashable :: "json \<Rightarrow> bool" where
  "is_non_hashable v \<longleftrightarrow> is_array v \<or> is_object v"

definition str_in :: "json \<Rightarrow> string list \<Rightarrow> bool" where
  "str_in v allowed \<longleftrightarrow> (case as_str v of Some s \<Rightarrow> s \<in> set allowed | None \<Rightarrow> False)"

definition node_errors :: "nat \<Rightarrow> jobject \<Rightarrow> schema_error list" where
  "node_errors i node =
     map (NodeMissingField i (bt_get node ''id''))
       (filter (\<lambda>f. \<not> bt_has node f) required_node_fields)
     @ (case bt_get node ''id'' of
          Some v \<Rightarrow> if is_non_hashable v then [NodeIdNotHashable i v] else []
        | None \<Rightarrow> [])
     @ (case bt_get node ''file_type'' of
          Some v \<Rightarrow> if str_in v valid_file_types then []
                    else [NodeBadFileType i (bt_get node ''id'') v]
        | None \<Rightarrow> [])"

text \<open>The identifiers later edges may name: those of objects, in order, that are hashable.\<close>

definition node_id_of :: "jobject \<Rightarrow> json list" where
  "node_id_of node =
     (case bt_get node ''id'' of
        Some v \<Rightarrow> if is_non_hashable v then [] else [v] | None \<Rightarrow> [])"

fun scan_nodes :: "nat \<Rightarrow> json list \<Rightarrow> schema_error list \<times> json list" where
  "scan_nodes i [] = ([], [])"
| "scan_nodes i (v # vs) =
     (let (errs, ids) = scan_nodes (Suc i) vs
      in case as_object v of
           None \<Rightarrow> (NodeNotObject i # errs, ids)
         | Some node \<Rightarrow> (node_errors i node @ errs, node_id_of node @ ids))"

definition endpoint_errors :: "json list \<Rightarrow> nat \<Rightarrow> jobject \<Rightarrow> string \<Rightarrow> schema_error list" where
  "endpoint_errors ids i edge endpoint =
     (case bt_get edge endpoint of
        None \<Rightarrow> []
      | Some v \<Rightarrow>
          if is_non_hashable v then [EdgeEndpointNotHashable i endpoint v]
          else if ids \<noteq> [] \<and> v \<notin> set ids then [EdgeEndpointUnknown i endpoint v]
          else [])"

definition edge_errors :: "json list \<Rightarrow> nat \<Rightarrow> jobject \<Rightarrow> schema_error list" where
  "edge_errors ids i edge =
     map (EdgeMissingField i) (filter (\<lambda>f. \<not> bt_has edge f) required_edge_fields)
     @ (case bt_get edge ''confidence'' of
          Some v \<Rightarrow> if str_in v valid_confidences then [] else [EdgeBadConfidence i v]
        | None \<Rightarrow> [])
     @ endpoint_errors ids i edge ''source''
     @ endpoint_errors ids i edge ''target''"

fun scan_edges :: "json list \<Rightarrow> nat \<Rightarrow> json list \<Rightarrow> schema_error list" where
  "scan_edges ids i [] = []"
| "scan_edges ids i (v # vs) =
     (case as_object v of
        None \<Rightarrow> [EdgeNotObject i]
      | Some edge \<Rightarrow> edge_errors ids i edge) @ scan_edges ids (Suc i) vs"

definition edge_list_of :: "jobject \<Rightarrow> json option" where
  "edge_list_of data =
     (case bt_get data ''edges'' of Some v \<Rightarrow> Some v | None \<Rightarrow> bt_get data ''links'')"

definition validate_extraction_json :: "json \<Rightarrow> schema_error list" where
  "validate_extraction_json doc =
     (case as_object doc of
        None \<Rightarrow> [NotAnObject]
      | Some data \<Rightarrow>
          let (node_errs, ids) =
                (case bt_get data ''nodes'' of
                   None \<Rightarrow> ([MissingNodes], [])
                 | Some (JArr nodes) \<Rightarrow> scan_nodes 0 nodes
                 | Some _ \<Rightarrow> ([NodesNotList], []))
          in node_errs
             @ (case edge_list_of data of
                  None \<Rightarrow> [MissingEdges]
                | Some (JArr edges) \<Rightarrow> scan_edges ids 0 edges
                | Some _ \<Rightarrow> [EdgesNotList]))"

section \<open>What it accepts\<close>

text \<open>The schema, stated without reference to the order of the checks.\<close>

definition node_ok :: "json \<Rightarrow> bool" where
  "node_ok v \<longleftrightarrow>
     (\<exists>node. v = JObj node
       \<and> (\<forall>f \<in> set required_node_fields. bt_has node f)
       \<and> (\<exists>i. bt_get node ''id'' = Some i \<and> \<not> is_non_hashable i)
       \<and> (\<exists>t \<in> set valid_file_types. get_str node ''file_type'' = Some t))"

definition endpoint_ok :: "json set \<Rightarrow> jobject \<Rightarrow> string \<Rightarrow> bool" where
  "endpoint_ok ids edge endpoint \<longleftrightarrow>
     (\<exists>v. bt_get edge endpoint = Some v \<and> \<not> is_non_hashable v \<and> (ids = {} \<or> v \<in> ids))"

definition edge_ok :: "json set \<Rightarrow> json \<Rightarrow> bool" where
  "edge_ok ids v \<longleftrightarrow>
     (\<exists>edge. v = JObj edge
       \<and> (\<forall>f \<in> set required_edge_fields. bt_has edge f)
       \<and> (\<exists>c \<in> set valid_confidences. get_str edge ''confidence'' = Some c)
       \<and> endpoint_ok ids edge ''source'' \<and> endpoint_ok ids edge ''target'')"

definition declared_ids :: "json list \<Rightarrow> json set" where
  "declared_ids nodes = {i. \<exists>node. JObj node \<in> set nodes \<and> bt_get node ''id'' = Some i}"

definition schema_ok :: "json \<Rightarrow> bool" where
  "schema_ok doc \<longleftrightarrow>
     (\<exists>data nodes edges. doc = JObj data
       \<and> bt_get data ''nodes'' = Some (JArr nodes) \<and> edge_list_of data = Some (JArr edges)
       \<and> (\<forall>v \<in> set nodes. node_ok v) \<and> (\<forall>v \<in> set edges. edge_ok (declared_ids nodes) v))"

lemma str_in_iff: "str_in v allowed \<longleftrightarrow> (\<exists>s \<in> set allowed. v = JStr s)"
  by (auto simp: str_in_def split: option.splits)

lemma node_errors_ok: "node_errors i node = [] \<longleftrightarrow> node_ok (JObj node)"
  by (auto simp: node_errors_def node_ok_def filter_empty_conv required_node_fields_def bt_has_def
      str_in_iff get_str_Some split: option.splits)

lemma scan_nodes_errs: "fst (scan_nodes i vs) = [] \<longleftrightarrow> (\<forall>v \<in> set vs. node_ok v)"
proof (induction i vs rule: scan_nodes.induct)
  case (1 i)
  then show ?case by simp
next
  case (2 i v vs)
  then show ?case
    by (cases v) (auto simp: node_errors_ok split_def Let_def, auto simp: node_ok_def)
qed

lemma scan_nodes_ids:
  "\<forall>v \<in> set vs. node_ok v \<Longrightarrow> set (snd (scan_nodes i vs)) = declared_ids vs"
proof (induction i vs rule: scan_nodes.induct)
  case (1 i)
  then show ?case by (simp add: declared_ids_def)
next
  case (2 i v vs)
  then obtain node where v: "v = JObj node" by (auto simp: node_ok_def)
  then obtain j where j: "bt_get node ''id'' = Some j" "\<not> is_non_hashable j"
    using "2.prems" by (auto simp: node_ok_def)
  have "set (snd (scan_nodes (Suc i) vs)) = declared_ids vs"
    using "2.IH" "2.prems" by simp
  then show ?case
    using j by (auto simp: v split_def Let_def node_id_of_def declared_ids_def)
qed

lemma endpoint_errors_ok:
  "bt_has edge endpoint \<Longrightarrow>
   endpoint_errors ids i edge endpoint = [] \<longleftrightarrow> endpoint_ok (set ids) edge endpoint"
  by (auto simp: endpoint_errors_def endpoint_ok_def bt_has_def split: option.splits)

lemma edge_errors_ok: "edge_errors ids i edge = [] \<longleftrightarrow> edge_ok (set ids) (JObj edge)"
proof (cases "\<forall>f \<in> set required_edge_fields. bt_has edge f")
  case True
  then have "bt_has edge ''source''" "bt_has edge ''target''" "bt_has edge ''confidence''"
    by (auto simp: required_edge_fields_def)
  then show ?thesis using True
    by (auto simp: edge_errors_def edge_ok_def filter_empty_conv endpoint_errors_ok str_in_iff
        get_str_Some bt_has_def [of _ "''confidence''"] split: option.splits)
next
  case False
  then show ?thesis by (auto simp: edge_errors_def edge_ok_def filter_empty_conv)
qed

lemma scan_edges_ok: "scan_edges ids i vs = [] \<longleftrightarrow> (\<forall>v \<in> set vs. edge_ok (set ids) v)"
proof (induction ids i vs rule: scan_edges.induct)
  case (1 ids i)
  then show ?case by simp
next
  case (2 ids i v vs)
  then show ?case by (cases v) (auto simp: edge_errors_ok edge_ok_def)
qed

text \<open>
  The untyped validator reports no error exactly for the documents of the schema: an object
  with a node list and an edge list (under \<open>edges\<close> or \<open>links\<close>), every node an object with the
  required fields, a hashable identifier and a known file type, every edge an object with the
  required fields, a known confidence and hashable endpoints, which are declared node identifiers when any
  identifier is declared.
\<close>

lemma validate_extraction_json_correct: "validate_extraction_json doc = [] \<longleftrightarrow> schema_ok doc"
proof (cases doc)
  case (JObj data)
  show ?thesis
  proof (cases "\<exists>nodes. bt_get data ''nodes'' = Some (JArr nodes)")
    case True
    then obtain nodes where n: "bt_get data ''nodes'' = Some (JArr nodes)" by blast
    show ?thesis
    proof (cases "\<forall>v \<in> set nodes. node_ok v")
      case True
      then show ?thesis
        using scan_nodes_errs [of 0 nodes] scan_nodes_ids [of nodes 0]
        by (auto simp: JObj n validate_extraction_json_def schema_ok_def split_def Let_def scan_edges_ok
            split: option.splits json.splits)
    next
      case False
      then show ?thesis
        using scan_nodes_errs [of 0 nodes]
        by (auto simp: JObj n validate_extraction_json_def schema_ok_def split_def Let_def)
    qed
  next
    case False
    then show ?thesis
      by (auto simp: JObj validate_extraction_json_def schema_ok_def split_def Let_def
          split: option.splits json.splits)
  qed
qed (auto simp: validate_extraction_json_def schema_ok_def)

section \<open>The typed validator\<close>

datatype validation_error =
    DanglingEdge string
  | DuplicateNode string
  | InvalidFileType string
  | EmptyField string

fun check_nodes :: "string set \<Rightarrow> node list \<Rightarrow> validation_error + string set" where
  "check_nodes ids [] = Inr ids"
| "check_nodes ids (n # ns) =
     (if n_id n = [] then Inl (EmptyField ''node.id'')
      else if n_label n = [] then Inl (EmptyField (''node['' @ n_id n @ ''].label''))
      else if n_file_type n \<notin> set valid_file_types then Inl (InvalidFileType (n_file_type n))
      else if n_id n \<in> ids then Inl (DuplicateNode (n_id n))
      else check_nodes (insert (n_id n) ids) ns)"

fun check_edges :: "string set \<Rightarrow> edge list \<Rightarrow> validation_error + unit" where
  "check_edges ids [] = Inr ()"
| "check_edges ids (e # es) =
     (if e_relation e = [] then Inl (EmptyField ''edge.relation'')
      else if e_source e \<notin> ids then Inl (DanglingEdge (e_source e))
      else if e_target e \<notin> ids then Inl (DanglingEdge (e_target e))
      else check_edges ids es)"

definition validate_extraction :: "extraction \<Rightarrow> validation_error + unit" where
  "validate_extraction x =
     (case check_nodes {} (x_nodes x) of
        Inl e \<Rightarrow> Inl e | Inr ids \<Rightarrow> check_edges ids (x_edges x))"

definition extraction_ok :: "extraction \<Rightarrow> bool" where
  "extraction_ok x \<longleftrightarrow>
     distinct (map n_id (x_nodes x))
     \<and> (\<forall>n \<in> set (x_nodes x). n_id n \<noteq> [] \<and> n_label n \<noteq> [] \<and> n_file_type n \<in> set valid_file_types)
     \<and> (\<forall>e \<in> set (x_edges x). e_relation e \<noteq> []
          \<and> {e_source e, e_target e} \<subseteq> n_id ` set (x_nodes x))"

lemma check_nodes_Inr:
  "check_nodes ids ns = Inr ids' \<longleftrightarrow>
     ids' = ids \<union> n_id ` set ns \<and> distinct (map n_id ns) \<and> ids \<inter> n_id ` set ns = {}
     \<and> (\<forall>n \<in> set ns. n_id n \<noteq> [] \<and> n_label n \<noteq> [] \<and> n_file_type n \<in> set valid_file_types)"
  by (induction ids ns rule: check_nodes.induct) auto

lemma check_edges_Inr:
  "check_edges ids es = Inr () \<longleftrightarrow>
     (\<forall>e \<in> set es. e_relation e \<noteq> [] \<and> {e_source e, e_target e} \<subseteq> ids)"
  by (induction ids es rule: check_edges.induct) auto

text \<open>
  The typed validator accepts exactly the extractions with non-empty, pairwise distinct node
  identifiers, non-empty labels, known file types, and edges with a relation whose two endpoints
  are nodes of the extraction.
\<close>

lemma validate_extraction_correct: "validate_extraction x = Inr () \<longleftrightarrow> extraction_ok x"
proof (cases "check_nodes {} (x_nodes x)")
  case (Inl e)
  have "\<not> extraction_ok x"
  proof
    assume "extraction_ok x"
    then have "check_nodes {} (x_nodes x) = Inr (n_id ` set (x_nodes x))"
      by (simp add: check_nodes_Inr extraction_ok_def)
    with Inl show False by simp
  qed
  then show ?thesis by (simp add: validate_extraction_def Inl)
next
  case (Inr ids)
  then show ?thesis
    by (simp add: validate_extraction_def check_edges_Inr extraction_ok_def)
       (auto simp: check_nodes_Inr)
qed

end
