(* ===== verification/Jsonc.thy ===== *)
theory Jsonc
  imports Btree
begin

text \<open>
  Strict-first parsing of JSON with comments (\<open>crates/graphoxide-core/src/jsonc.rs\<close>). The text is
  the list of its UTF-8 bytes. The two passes of \<open>normalized_jsonc\<close> overwrite bytes of a copy of the
  input with spaces; each is a recursion over the bytes not yet read, which returns the bytes
  written and whether it changed anything. The strict parser \<open>serde_json::from_str\<close> is a parameter.
\<close>

section \<open>First pass: comments\<close>

definition is_newline :: "char \<Rightarrow> bool" where
  "is_newline c \<longleftrightarrow> c = CHR 0x0A \<or> c = CHR 0x0D"

text \<open>The string state after a byte inside a string literal: still inside, and whether the next byte
  is escaped.\<close>

definition string_step :: "bool \<Rightarrow> char \<Rightarrow> bool \<times> bool" where
  "string_step escaped b =
     (if escaped then (True, False)
      else if b = CHR 0x5C then (True, True)
      else if b = CHR 0x22 then (False, False)
      else (True, False))"

text \<open>What follows \<open>/*\<close>: the blanked comment with its closing mark, and the rest.\<close>

fun block_comment :: "string \<Rightarrow> (string \<times> string) option" where
  "block_comment [] = None"
| "block_comment (b # bs) =
     (if b = CHR ''*'' \<and> bs \<noteq> [] \<and> hd bs = CHR ''/'' then Some (''  '', tl bs)
      else map_option (\<lambda>(out, rest). ((if is_newline b then b else CHR '' '') # out, rest))
             (block_comment bs))"

lemma block_comment_length:
  "block_comment bs = Some (out, rest) \<Longrightarrow> length bs = length out + length rest"
proof (induction bs arbitrary: out)
  case (Cons b bs)
  then show ?case by (cases bs) (auto split: if_splits)
qed simp

definition line_blank :: "string \<Rightarrow> string" where
  "line_blank bs = map (\<lambda>_. CHR '' '') (takeWhile (\<lambda>c. \<not> is_newline c) bs)"

function strip_comments :: "bool \<Rightarrow> bool \<Rightarrow> string \<Rightarrow> (string \<times> bool) option" where
  "strip_comments in_string escaped [] = Some ([], False)"
| "strip_comments in_string escaped (b # bs) =
     (if in_string then
        (case string_step escaped b of
           (ins, esc) \<Rightarrow> map_option (\<lambda>(out, ch). (b # out, ch)) (strip_comments ins esc bs))
      else if b = CHR 0x22 then
        map_option (\<lambda>(out, ch). (b # out, ch)) (strip_comments True escaped bs)
      else if b = CHR ''/'' \<and> bs \<noteq> [] \<and> hd bs = CHR ''/'' then
        map_option (\<lambda>(out, ch). (line_blank (b # bs) @ out, True))
          (strip_comments False escaped (dropWhile (\<lambda>c. \<not> is_newline c) (b # bs)))
      else if b = CHR ''/'' \<and> bs \<noteq> [] \<and> hd bs = CHR ''*'' then
        (case block_comment (tl bs) of
           None \<Rightarrow> None
         | Some (blank, rest) \<Rightarrow>
             map_option (\<lambda>(out, ch). (''  '' @ blank @ out, True)) (strip_comments False escaped rest))
      else map_option (\<lambda>(out, ch). (b # out, ch)) (strip_comments False escaped bs))"
  by pat_completeness auto
termination
proof (relation "measure (\<lambda>(_, _, bs). length bs)", goal_cases)
  case (4 ins esc b bs)
  then show ?case
    using length_dropWhile_le [of "\<lambda>c. \<not> is_newline c" bs] by (simp add: is_newline_def)
next
  case (5 ins esc b bs p blank rest)
  then have "length (tl bs) = length blank + length rest"
    by (metis block_comment_length surjective_pairing)
  then show ?case by (cases bs) auto
qed auto

section \<open>Second pass: trailing commas\<close>

definition closes :: "string \<Rightarrow> bool" where
  "closes bs \<longleftrightarrow>
     (case dropWhile ascii_whitespace bs of
        [] \<Rightarrow> False | b # _ \<Rightarrow> b = CHR ''}'' \<or> b = CHR '']'')"

fun strip_commas :: "bool \<Rightarrow> bool \<Rightarrow> string \<Rightarrow> string \<times> bool" where
  "strip_commas in_string escaped [] = ([], False)"
| "strip_commas in_string escaped (b # bs) =
     (if in_string then
        (case string_step escaped b of
           (ins, esc) \<Rightarrow> (case strip_commas ins esc bs of (out, ch) \<Rightarrow> (b # out, ch)))
      else if b = CHR 0x22 then
        (case strip_commas True escaped bs of (out, ch) \<Rightarrow> (b # out, ch))
      else if b = CHR '','' \<and> closes bs then
        (case strip_commas False escaped bs of (out, ch) \<Rightarrow> (CHR '' '' # out, True))
      else (case strip_commas False escaped bs of (out, ch) \<Rightarrow> (b # out, ch)))"

definition normalized_jsonc :: "string \<Rightarrow> string option" where
  "normalized_jsonc text =
     (case strip_comments False False text of
        None \<Rightarrow> None
      | Some (out, changed) \<Rightarrow>
          (case strip_commas False False out of
             (out', changed') \<Rightarrow> if changed \<or> changed' then Some out' else None))"

section \<open>The parser\<close>

definition parse_jsonc :: "(string \<Rightarrow> 'e + 'v) \<Rightarrow> string \<Rightarrow> 'e + 'v" where
  "parse_jsonc from_str text =
     (case from_str text of
        Inr v \<Rightarrow> Inr v
      | Inl strict_error \<Rightarrow>
          (case normalized_jsonc text of
             None \<Rightarrow> Inl strict_error | Some normalized \<Rightarrow> from_str normalized))"

definition parse_jsonc_slice ::
  "(string \<Rightarrow> 'e + 'v) \<Rightarrow> (string \<Rightarrow> 'e + 'v) \<Rightarrow> (string \<Rightarrow> bool) \<Rightarrow> string \<Rightarrow> 'e + 'v" where
  "parse_jsonc_slice from_slice from_str utf8_ok bytes =
     (case from_slice bytes of
        Inr v \<Rightarrow> Inr v
      | Inl strict_error \<Rightarrow>
          if \<not> utf8_ok bytes then Inl strict_error
          else (case normalized_jsonc bytes of
                  None \<Rightarrow> Inl strict_error | Some normalized \<Rightarrow> from_str normalized))"

section \<open>Offsets and line breaks survive\<close>

text \<open>One byte of the output against the byte of the input at the same offset.\<close>

definition blanked :: "char \<Rightarrow> char \<Rightarrow> bool" where
  "blanked a b \<longleftrightarrow> b = a \<or> b = CHR '' '' \<and> \<not> is_newline a"

lemma blanked_refl [simp]: "blanked a a"
  by (simp add: blanked_def)

lemma blanked_space [simp]: "blanked a (CHR '' '') \<longleftrightarrow> \<not> is_newline a"
  by (auto simp: blanked_def is_newline_def)

lemma blanked_trans: "blanked a b \<Longrightarrow> blanked b c \<Longrightarrow> blanked a c"
  by (auto simp: blanked_def is_newline_def)

lemma block_comment_blanked:
  "block_comment bs = Some (out, rest) \<Longrightarrow> \<exists>cs. bs = cs @ rest \<and> list_all2 blanked cs out"
proof (induction bs arbitrary: out)
  case Nil
  then show ?case by simp
next
  case (Cons b bs)
  show ?case
  proof (cases "b = CHR ''*'' \<and> bs \<noteq> [] \<and> hd bs = CHR ''/''")
    case True
    then show ?thesis using Cons.prems
      by (cases bs) (auto simp: is_newline_def intro!: exI [of _ "''*/''"])
  next
    case False
    then obtain o' where o': "block_comment bs = Some (o', rest)"
        "out = (if is_newline b then b else CHR '' '') # o'"
      using Cons.prems by (auto split: if_splits)
    obtain cs where "bs = cs @ rest" "list_all2 blanked cs o'"
      using Cons.IH [OF o'(1)] by blast
    then show ?thesis using o'(2) by (intro exI [of _ "b # cs"]) auto
  qed
qed

lemma line_blank_blanked:
  "list_all2 blanked (takeWhile (\<lambda>c. \<not> is_newline c) bs) (line_blank bs)"
  by (auto simp: line_blank_def list_all2_conv_all_nth dest: nth_mem set_takeWhileD)

lemma strip_comments_blanked:
  "strip_comments ins esc bs = Some (out, ch) \<Longrightarrow> list_all2 blanked bs out"
proof (induction ins esc bs arbitrary: out ch rule: strip_comments.induct)
  case (1 ins esc)
  then show ?case by simp
next
  case (2 ins esc b bs)
  consider (st) "ins" | (quo) "\<not> ins" "b = CHR 0x22"
    | (lin) "\<not> ins" "b \<noteq> CHR 0x22" "b = CHR ''/'' \<and> bs \<noteq> [] \<and> hd bs = CHR ''/''"
    | (blk) "\<not> ins" "b \<noteq> CHR 0x22" "b = CHR ''/'' \<and> bs \<noteq> [] \<and> hd bs = CHR ''*''"
    | (oth) "\<not> ins" "b \<noteq> CHR 0x22" "\<not> (b = CHR ''/'' \<and> bs \<noteq> [] \<and> hd bs = CHR ''/'')"
        "\<not> (b = CHR ''/'' \<and> bs \<noteq> [] \<and> hd bs = CHR ''*'')"
    by blast
  then show ?case
  proof cases
    case st
    obtain i e where ie: "string_step esc b = (i, e)" by fastforce
    show ?thesis using "2.IH"(1) [OF st ie [symmetric]] "2.prems" st ie by auto
  next
    case quo
    then show ?thesis using "2.IH"(2) "2.prems" by auto
  next
    case lin
    let ?d = "dropWhile (\<lambda>c. \<not> is_newline c) (b # bs)"
    obtain o' c' where o': "strip_comments False esc ?d = Some (o', c')" "out = line_blank (b # bs) @ o'"
      using lin "2.prems" by (auto simp del: dropWhile.simps)
    have "list_all2 blanked ?d o'"
      by (rule "2.IH"(3) [OF lin o'(1)])
    then have "list_all2 blanked (takeWhile (\<lambda>c. \<not> is_newline c) (b # bs) @ ?d) out"
      unfolding o'(2) by (intro list_all2_appendI line_blank_blanked)
    then show ?thesis by (simp only: takeWhile_dropWhile_id)
  next
    case blk
    then obtain blank rest o' c' where c: "block_comment (tl bs) = Some (blank, rest)"
        and o': "strip_comments False esc rest = Some (o', c')" "out = ''  '' @ blank @ o'"
      using "2.prems" by (auto split: option.splits prod.splits)
    obtain cs where cs: "tl bs = cs @ rest" "list_all2 blanked cs blank"
      using block_comment_blanked [OF c] by blast
    have nl: "\<not> (b = CHR ''/'' \<and> bs \<noteq> [] \<and> hd bs = CHR ''/'')"
      using blk(3) by simp
    have "list_all2 blanked rest o'"
      by (rule "2.IH"(4) [OF blk(1,2) nl blk(3) c refl o'(1)])
    then have "list_all2 blanked (cs @ rest) (blank @ o')"
      using cs(2) by (intro list_all2_appendI)
    moreover have "bs = CHR ''*'' # cs @ rest" using blk(3) cs(1) by (cases bs) auto
    ultimately show ?thesis using blk(3) o'(2) by (simp add: is_newline_def)
  next
    case oth
    then show ?thesis using "2.IH"(5) "2.prems" by auto
  qed
qed

lemma strip_commas_blanked:
  "strip_commas ins esc bs = (out, ch) \<Longrightarrow> list_all2 blanked bs out"
  by (induction ins esc bs arbitrary: out ch rule: strip_commas.induct)
     (auto simp: is_newline_def split: if_splits prod.splits)

lemma list_all2_blanked_trans:
  "list_all2 blanked xs ys \<Longrightarrow> list_all2 blanked ys zs \<Longrightarrow> list_all2 blanked xs zs"
  by (rule list_all2_trans [OF blanked_trans])

text \<open>
  When the text is rewritten, the result has the same length, and it differs from the text only
  at offsets where it holds a space and the text held no line break: byte offsets and line numbers
  reported by the parser are those of the original file.
\<close>

lemma normalized_jsonc_offsets:
  assumes "normalized_jsonc text = Some out"
  shows "length out = length text
    \<and> (\<forall>i < length text. out ! i \<noteq> text ! i \<longrightarrow> out ! i = CHR '' '' \<and> \<not> is_newline (text ! i))"
proof -
  obtain o1 c1 o2 c2 where "strip_comments False False text = Some (o1, c1)"
      and "strip_commas False False o1 = (o2, c2)" and "out = o2"
    using assms by (auto simp: normalized_jsonc_def split: option.splits prod.splits if_splits)
  then have "list_all2 blanked text out"
    using strip_comments_blanked strip_commas_blanked list_all2_blanked_trans by blast
  then show ?thesis
    by (auto simp: list_all2_conv_all_nth blanked_def)
qed

theorem normalized_jsonc_offsets_witness:
  "normalized_jsonc ''[1,/*a*/]'' = Some ''[1      ]'' \<and> length ''[1      ]'' = length ''[1,/*a*/]''"
proof -
  have h: "normalized_jsonc ''[1,/*a*/]'' = Some ''[1      ]''"
    by (simp add: normalized_jsonc_def is_newline_def closes_def ascii_whitespace_def)
  show ?thesis using h normalized_jsonc_offsets [OF h] by blast
qed

section \<open>No comment is left\<close>

lemma strip_comments_plain:
  "\<forall>c \<in> set p. c \<noteq> CHR 0x22 \<and> c \<noteq> CHR ''/'' \<Longrightarrow>
   strip_comments False esc (p @ bs) = map_option (\<lambda>(out, ch). (p @ out, ch)) (strip_comments False esc bs)"
  by (induction p) (auto simp: option.map_comp o_def split_def option.map_ident)

lemma block_comment_plain:
  "block_comment bs = Some (out, rest) \<Longrightarrow> \<forall>c \<in> set out. c = CHR '' '' \<or> is_newline c"
proof (induction bs arbitrary: out)
  case Nil
  then show ?case by simp
next
  case (Cons b bs)
  show ?case
  proof (cases "b = CHR ''*'' \<and> bs \<noteq> [] \<and> hd bs = CHR ''/''")
    case True
    then show ?thesis using Cons.prems by auto
  next
    case False
    then obtain o' where "block_comment bs = Some (o', rest)"
        "out = (if is_newline b then b else CHR '' '') # o'"
      using Cons.prems by (auto split: if_splits)
    then show ?thesis using Cons.IH by auto
  qed
qed

lemma strip_comments_twice:
  "strip_comments ins esc bs = Some (out, ch) \<Longrightarrow> strip_comments ins esc out = Some (out, False)"
proof (induction ins esc bs arbitrary: out ch rule: strip_comments.induct)
  case (1 ins esc)
  then show ?case by simp
next
  case (2 ins esc b bs)
  consider (st) "ins" | (quo) "\<not> ins" "b = CHR 0x22"
    | (lin) "\<not> ins" "b \<noteq> CHR 0x22" "b = CHR ''/'' \<and> bs \<noteq> [] \<and> hd bs = CHR ''/''"
    | (blk) "\<not> ins" "b \<noteq> CHR 0x22" "b = CHR ''/'' \<and> bs \<noteq> [] \<and> hd bs = CHR ''*''"
    | (oth) "\<not> ins" "b \<noteq> CHR 0x22" "\<not> (b = CHR ''/'' \<and> bs \<noteq> [] \<and> hd bs = CHR ''/'')"
        "\<not> (b = CHR ''/'' \<and> bs \<noteq> [] \<and> hd bs = CHR ''*'')"
    by blast
  then show ?case
  proof cases
    case st
    obtain i e where ie: "string_step esc b = (i, e)" by fastforce
    show ?thesis using "2.IH"(1) [OF st ie [symmetric]] "2.prems" st ie by auto
  next
    case quo
    then show ?thesis using "2.IH"(2) "2.prems" by auto
  next
    case lin
    let ?d = "dropWhile (\<lambda>c. \<not> is_newline c) (b # bs)"
    obtain o' c' where o': "strip_comments False esc ?d = Some (o', c')" "out = line_blank (b # bs) @ o'"
      using lin "2.prems" by (auto simp del: dropWhile.simps)
    have "strip_comments False esc o' = Some (o', False)"
      by (rule "2.IH"(3) [OF lin o'(1)])
    then show ?thesis
      using lin(1) o'(2) strip_comments_plain [of "line_blank (b # bs)" esc o']
      by (auto simp: line_blank_def)
  next
    case blk
    then obtain blank rest o' c' where c: "block_comment (tl bs) = Some (blank, rest)"
        and o': "strip_comments False esc rest = Some (o', c')" "out = ''  '' @ blank @ o'"
      using "2.prems" by (auto split: option.splits prod.splits)
    have nl: "\<not> (b = CHR ''/'' \<and> bs \<noteq> [] \<and> hd bs = CHR ''/'')"
      using blk(3) by simp
    have "strip_comments False esc o' = Some (o', False)"
      by (rule "2.IH"(4) [OF blk(1,2) nl blk(3) c refl o'(1)])
    moreover have "x \<noteq> CHR 0x22 \<and> x \<noteq> CHR ''/''" if "x \<in> set blank" for x
    proof -
      have "x = CHR '' '' \<or> is_newline x" using block_comment_plain [OF c] that by blast
      then show ?thesis by (auto simp: is_newline_def)
    qed
    ultimately have "strip_comments False esc (blank @ o') = Some (blank @ o', False)"
      using strip_comments_plain [of blank esc o'] by simp
    then show ?thesis using blk(1) o'(2) by simp
  next
    case oth
    then obtain o' c' where o': "strip_comments False esc bs = Some (o', c')" "out = b # o'"
      using "2.prems" by auto
    have "strip_comments False esc o' = Some (o', False)"
      using "2.IH"(5) oth o'(1) by blast
    moreover have "b = CHR ''/'' \<and> o' \<noteq> [] \<longrightarrow> hd o' \<noteq> CHR ''/'' \<and> hd o' \<noteq> CHR ''*''"
    proof -
      have "list_all2 blanked bs o'" by (rule strip_comments_blanked [OF o'(1)])
      then show ?thesis using oth(3,4)
        by (cases bs; cases o') (auto simp: blanked_def)
    qed
    ultimately show ?thesis using oth(1,2) o'(2) by auto
  qed
qed

text \<open>
  Removing comments leaves none: reading the rewritten text again, with the same tracking of
  string literals and escapes, finds no comment to remove and fails on no unterminated one.
\<close>

lemma strip_comments_idempotent:
  assumes "strip_comments False False text = Some (out, changed)"
  shows "strip_comments False False out = Some (out, False)"
  using assms by (rule strip_comments_twice)

theorem strip_comments_idempotent_witness:
  "strip_comments False False ''a//b'' = Some (''a   '', True)
   \<and> strip_comments False False ''a   '' = Some (''a   '', False)"
proof -
  have h: "strip_comments False False ''a//b'' = Some (''a   '', True)"
    by (simp add: is_newline_def line_blank_def)
  show ?thesis using h strip_comments_idempotent [OF h] by blast
qed

end
