(* ===== verification/Grouping.thy ===== *)
theory Grouping
  imports Btree "HOL-Library.Multiset"
begin

text \<open>
  Loops that sort elements into the groups of an ordered map, \<open>map.entry(key).or_default().push(x)\<close>: what
  goes in is in the groups, once each, and no group is empty.
\<close>

lemma set_bt_put_subset: "set (bt_put k v m) \<subseteq> insert (k, v) (set m)"
  by (induction k v m rule: bt_put.induct) auto

lemma mset_bt_put:
  "mset (concat (map snd (bt_put k v m))) + mset (case bt_get m k of None \<Rightarrow> [] | Some w \<Rightarrow> w) =
   mset (concat (map snd m)) + mset v" if "bt_wf m"
  using that
proof (induction m)
  case Nil
  then show ?case by simp
next
  case (Cons kv m)
  obtain k' v' where kv: "kv = (k', v')" by fastforce
  have wf: "bt_wf m" and lt: "\<forall>j \<in> fst ` set m. k' < j"
    using Cons.prems by (auto simp: kv bt_wf_Cons)
  have "k < k' \<Longrightarrow> bt_get m k = None"
    using lt by (metis dual_order.strict_trans less_irrefl map_of_eq_None_iff)
  then show ?case using Cons.IH [OF wf] by (auto simp: kv)
qed

abbreviation push_to :: "'k::linorder \<Rightarrow> 'v \<Rightarrow> ('k, 'v list) btree \<Rightarrow> ('k, 'v list) btree" where
  "push_to k x m \<equiv> bt_update k [] (\<lambda>ys. ys @ [x]) m"

lemma push_to_mset:
  "bt_wf m \<Longrightarrow> mset (concat (map snd (push_to k x m))) = add_mset x (mset (concat (map snd m)))"
  using mset_bt_put [of m k "(case bt_get m k of None \<Rightarrow> [] | Some v \<Rightarrow> v) @ [x]"]
  by (auto simp: bt_update_def split: option.splits)

lemma push_to_nonempty: "[] \<notin> snd ` set m \<Longrightarrow> [] \<notin> snd ` set (push_to k x m)"
proof
  assume ok: "[] \<notin> snd ` set m" and "[] \<in> snd ` set (push_to k x m)"
  then obtain j where "(j, []) \<in> set (push_to k x m)" by auto
  then show False using ok set_bt_put_subset [of k "(case bt_get m k of None \<Rightarrow> [] | Some v \<Rightarrow> v) @ [x]" m]
    by (force simp: bt_update_def)
qed

lemma pushed_mset:
  "bt_wf m \<Longrightarrow> mset (concat (map snd (fold (\<lambda>x. push_to (key x) (val x)) xs m)))
     = mset (concat (map snd m)) + mset (map val xs)"
  by (induction xs arbitrary: m) (simp_all add: push_to_mset)

lemma pushed_wf: "bt_wf m \<Longrightarrow> bt_wf (fold (\<lambda>x. push_to (key x) (val x)) xs m)"
  by (induction xs arbitrary: m) simp_all

lemma pushed_nonempty: "[] \<notin> snd ` set m \<Longrightarrow> [] \<notin> snd ` set (fold (\<lambda>x. push_to (key x) (val x)) xs m)"
  by (induction xs arbitrary: m) (simp_all add: push_to_nonempty)

lemma pushed_get:
  "bt_get (fold (\<lambda>x. push_to (key x) (val x)) xs m) k =
     (let g = map val (filter (\<lambda>x. key x = k) xs)
      in case bt_get m k of None \<Rightarrow> if g = [] then None else Some g | Some ys \<Rightarrow> Some (ys @ g))"
  by (induction xs arbitrary: m) (auto simp: bt_get_update Let_def split: option.splits)

end
