(* ===== verification/FileSlice.thy ===== *)
theory FileSlice
  imports Grouping
begin

text \<open>
  Bounded slices of oversized text files and their packing into chunks
  (\<open>crates/graphoxide-core/src/file_slice.rs\<close>). A text is the list of its UTF-8 bytes, offsets are
  byte offsets. The file system is the parameter \<open>fs\<close>: what reading a path gives
  (\<open>read_to_string\<close>, \<open>None\<close> for a failure) and its size. \<open>usize\<close> is 64 bits wide.
\<close>

section \<open>Offsets into a text\<close>

definition continuation :: "char \<Rightarrow> bool" where
  "continuation b \<longleftrightarrow> CHR 0x80 \<le> b \<and> b < CHR 0xC0"

definition char_boundary :: "string \<Rightarrow> nat \<Rightarrow> bool" where
  "char_boundary src i \<longleftrightarrow> i = 0 \<or> i = length src \<or> i < length src \<and> \<not> continuation (src ! i)"

text \<open>What UTF-8 guarantees and the slicing relies on: the text does not begin within a character, and
  the byte after an ASCII byte begins a character.\<close>

definition utf8_text :: "string \<Rightarrow> bool" where
  "utf8_text src \<longleftrightarrow>
     (\<forall>i < length src. continuation (src ! i) \<longrightarrow> i \<noteq> 0 \<and> CHR 0x80 \<le> src ! (i - 1))"

text \<open>\<open>str::rfind\<close> and \<open>str::find\<close>.\<close>

fun rfind :: "string \<Rightarrow> string \<Rightarrow> nat option" where
  "rfind pat [] = (if pat = [] then Some 0 else None)"
| "rfind pat (c # cs) =
     (case rfind pat cs of
        Some i \<Rightarrow> Some (Suc i)
      | None \<Rightarrow> if prefix pat (c # cs) then Some 0 else None)"

fun find_char :: "char \<Rightarrow> string \<Rightarrow> nat option" where
  "find_char x [] = None"
| "find_char x (c # cs) = (if c = x then Some 0 else map_option Suc (find_char x cs))"

definition substring :: "string \<Rightarrow> nat \<Rightarrow> nat \<Rightarrow> string" where
  "substring src i j = take (j - i) (drop i src)"

lemma rfind_Some: "rfind pat s = Some i \<Longrightarrow> i + length pat \<le> length s \<and> prefix pat (drop i s)"
  by (induction s arbitrary: i) (auto split: if_splits option.splits dest: prefix_length_le)

lemma find_char_Some: "find_char x s = Some i \<Longrightarrow> i < length s \<and> s ! i = x"
  by (induction s arbitrary: i) (auto split: if_splits)

section \<open>Slices\<close>

text \<open>\<open>while hard_end > start && !is_char_boundary(hard_end) { hard_end -= 1 }\<close>.\<close>

fun retreat :: "string \<Rightarrow> nat \<Rightarrow> nat \<Rightarrow> nat" where
  "retreat src start 0 = 0"
| "retreat src start (Suc e) =
     (if start < Suc e \<and> \<not> char_boundary src (Suc e) then retreat src start e else Suc e)"

text \<open>\<open>text[start..].char_indices().nth(1)\<close>: the end of the first character of the rest.\<close>

definition first_char_end :: "string \<Rightarrow> nat \<Rightarrow> nat" where
  "first_char_end src start =
     start + 1 + length (takeWhile continuation (drop (start + 1) src))"

text \<open>\<open>start + max_chars\<close> is a sum of \<open>usize\<close> in the code; here it is not bounded. It cannot overflow in
  \<open>expand_file\<close>, which slices only texts longer than \<open>max_chars\<close>.\<close>

definition hard_end :: "string \<Rightarrow> nat \<Rightarrow> nat \<Rightarrow> nat" where
  "hard_end src max_chars start =
     (let e = retreat src start (min (start + max_chars) (length src))
      in if e = start then first_char_end src start else e)"

text \<open>Each candidate split must lie behind \<open>start\<close>; the first that does is taken.\<close>

definition split_after :: "string \<Rightarrow> nat \<Rightarrow> nat \<Rightarrow> string \<Rightarrow> nat option" where
  "split_after window start k pat =
     (case rfind pat window of
        None \<Rightarrow> None
      | Some offset \<Rightarrow> if start < start + offset + k then Some (start + offset + k) else None)"

definition slice_end :: "string \<Rightarrow> nat \<Rightarrow> nat \<Rightarrow> nat" where
  "slice_end src max_chars start =
     (let h = hard_end src max_chars start; window = substring src start h
      in if h = length src then h
         else case split_after window start 1 [CHR 0x0A, CHR ''#''] of
                Some s \<Rightarrow> s
              | None \<Rightarrow>
                  (case split_after window start 2 [CHR 0x0A, CHR 0x0A] of
                     Some s \<Rightarrow> s
                   | None \<Rightarrow>
                       (case split_after window start 1 [CHR 0x0A] of
                          Some s \<Rightarrow> s | None \<Rightarrow> h)))"

lemma retreat_bounds:
  "start \<le> e \<Longrightarrow> start \<le> retreat src start e \<and> retreat src start e \<le> e"
  by (induction e) (auto simp: le_Suc_eq)

lemma retreat_boundary: "start < retreat src start e \<Longrightarrow> char_boundary src (retreat src start e)"
  by (induction e) (auto split: if_splits)

lemma hard_end_bounds:
  assumes "start < length src"
  shows "start < hard_end src m start \<and> hard_end src m start \<le> length src"
proof -
  have "length (takeWhile continuation (drop (start + 1) src)) \<le> length src - (start + 1)"
    by (metis length_drop length_takeWhile_le)
  moreover have "start \<le> retreat src start (min (start + m) (length src))"
    and "retreat src start (min (start + m) (length src)) \<le> length src"
    using retreat_bounds [of start "min (start + m) (length src)" src] assms by auto
  ultimately show ?thesis
    using assms by (auto simp: hard_end_def first_char_end_def Let_def)
qed

lemma length_substring: "j \<le> length src \<Longrightarrow> length (substring src i j) = j - i"
  by (simp add: substring_def)

lemma split_after_bounds:
  assumes "split_after (substring src start h) start k pat = Some s" and "k \<le> length pat"
    and "start \<le> h" "h \<le> length src"
  shows "start < s \<and> s \<le> h"
proof -
  obtain off where off: "rfind pat (substring src start h) = Some off" "s = start + off + k" "start < s"
    using assms(1) by (auto simp: split_after_def split: option.splits if_splits)
  then have "off + length pat \<le> h - start"
    using rfind_Some assms(4) by (metis length_substring)
  then show ?thesis using off assms(2,3) by simp
qed

lemma slice_end_bounds:
  assumes "start < length src"
  shows "start < slice_end src m start \<and> slice_end src m start \<le> hard_end src m start"
proof -
  have h: "start \<le> hard_end src m start" "start < hard_end src m start" "hard_end src m start \<le> length src"
    using hard_end_bounds [OF assms, of m] by auto
  show ?thesis
    using h split_after_bounds [OF _ _ h(1,3)]
    by (auto simp: slice_end_def Let_def split: option.splits)
qed

function slices_from :: "string \<Rightarrow> nat \<Rightarrow> nat \<Rightarrow> (nat \<times> nat) list" where
  "slices_from src max_chars start =
     (if start < length src
      then (start, slice_end src max_chars start)
             # slices_from src max_chars (slice_end src max_chars start)
      else [])"
  by pat_completeness auto
termination
  by (relation "measure (\<lambda>(src, _, start). length src - start)")
     (auto intro: diff_less_mono2 simp: slice_end_bounds)

declare slices_from.simps [simp del]

definition slice_boundaries :: "string \<Rightarrow> nat \<Rightarrow> (nat \<times> nat) list" where
  "slice_boundaries src max_chars =
     (if src = [] then [(0, 0)] else slices_from src (max max_chars 1) 0)"

text \<open>Consecutive ranges from \<open>i\<close> to \<open>j\<close>.\<close>

fun tiles :: "nat \<Rightarrow> nat \<Rightarrow> (nat \<times> nat) list \<Rightarrow> bool" where
  "tiles i j [] \<longleftrightarrow> i = j"
| "tiles i j ((a, b) # r) \<longleftrightarrow> a = i \<and> a < b \<and> tiles b j r"

lemma slices_from_tiles: "start \<le> length src \<Longrightarrow> tiles start (length src) (slices_from src m start)"
proof (induction src m start rule: slices_from.induct)
  case (1 src m start)
  show ?case
  proof (cases "start < length src")
    case True
    have "slice_end src m start \<le> length src" "start < slice_end src m start"
      using slice_end_bounds [OF True, of m] hard_end_bounds [OF True, of m] by auto
    then show ?thesis
      using "1.IH" True by (simp add: slices_from.simps [of src m start])
  next
    case False
    then show ?thesis using "1.prems" by (simp add: slices_from.simps [of src m "length src"])
  qed
qed

lemma tiles_concat:
  "tiles i j r \<Longrightarrow> i \<le> j \<and> concat (map (\<lambda>(a, b). substring src a b) r) = substring src i j"
proof (induction r arbitrary: i)
  case Nil
  then show ?case by (simp add: substring_def)
next
  case (Cons ab r)
  obtain a b where ab: "ab = (a, b)" by fastforce
  have t: "a = i" "a < b" "tiles b j r" using Cons.prems by (auto simp: ab)
  have IH: "b \<le> j" "concat (map (\<lambda>(a, b). substring src a b) r) = substring src b j"
    using Cons.IH [OF t(3)] by auto
  have "take (j - i) (drop i src) = take (b - i) (drop i src) @ take (j - b) (drop b src)"
  proof -
    have "j - i = (b - i) + (j - b)" using t IH by simp
    then show ?thesis using t by (simp only: take_add drop_drop) simp
  qed
  then show ?case using t IH by (simp add: ab substring_def)
qed

lemma tiles_range: "tiles i j r \<Longrightarrow> (a, b) \<in> set r \<Longrightarrow> i \<le> a \<and> a < b \<and> b \<le> j"
proof (induction r arbitrary: i)
  case Nil
  then show ?case by simp
next
  case (Cons ab r)
  obtain c d where cd: "ab = (c, d)" by fastforce
  have "c = i" "c < d" "tiles d j r" using Cons.prems by (auto simp: cd)
  moreover have "d \<le> j" using tiles_concat [OF \<open>tiles d j r\<close>] by blast
  ultimately show ?case using Cons.IH [of d] Cons.prems(2) by (auto simp: cd)
qed

text \<open>The slices of a non-empty text are consecutive ranges whose contents make up the text.\<close>

lemma slice_boundaries_partition:
  assumes "src \<noteq> []"
  shows "tiles 0 (length src) (slice_boundaries src max_chars)
    \<and> concat (map (\<lambda>(a, b). substring src a b) (slice_boundaries src max_chars)) = src"
proof -
  have t: "tiles 0 (length src) (slice_boundaries src max_chars)"
    using assms slices_from_tiles [of 0 src "max max_chars 1"] by (simp add: slice_boundaries_def)
  then show ?thesis
    using tiles_concat [OF t, of src] by (simp add: substring_def)
qed

section \<open>Slices respect characters and the limit\<close>

lemma first_char_end_boundary:
  assumes "start < length src"
  shows "char_boundary src (first_char_end src start)"
proof -
  let ?w = "takeWhile continuation (drop (start + 1) src)"
  show ?thesis
  proof (cases "length ?w = length (drop (start + 1) src)")
    case True
    then have "first_char_end src start = length src"
      using assms by (simp add: first_char_end_def)
    then show ?thesis by (simp add: char_boundary_def)
  next
    case False
    then have lt: "length ?w < length (drop (start + 1) src)"
      using length_takeWhile_le [of continuation "drop (start + 1) src"] by linarith
    then have "\<not> continuation (drop (start + 1) src ! length ?w)"
      by (rule nth_length_takeWhile)
    then show ?thesis using lt by (auto simp: first_char_end_def char_boundary_def add.assoc)
  qed
qed

lemma hard_end_boundary: "start < length src \<Longrightarrow> char_boundary src (hard_end src m start)"
  using retreat_boundary [of start src "min (start + m) (length src)"]
    retreat_bounds [of start "min (start + m) (length src)" src] first_char_end_boundary [of start src]
  by (auto simp: hard_end_def Let_def)

text \<open>A split behind an ASCII byte is a character boundary.\<close>

lemma split_after_boundary:
  assumes u: "utf8_text src" and s: "split_after (substring src start h) start k pat = Some s"
    and k: "0 < k" "k \<le> length pat" and h: "start \<le> h" "h \<le> length src"
    and asc: "pat ! (k - 1) < CHR 0x80"
  shows "char_boundary src s"
proof -
  obtain off where off: "rfind pat (substring src start h) = Some off" "s = start + off + k"
    using s by (auto simp: split_after_def split: option.splits if_splits)
  have b: "off + length pat \<le> h - start" and p: "prefix pat (drop off (substring src start h))"
    using rfind_Some [OF off(1)] h(2) by (auto simp: length_substring)
  obtain r where r: "drop off (substring src start h) = pat @ r"
    using p by (auto simp: prefix_def)
  have "src ! (s - 1) = substring src start h ! (off + (k - 1))"
    using b k h off(2) by (simp add: substring_def add.assoc)
  also have "\<dots> = drop off (substring src start h) ! (k - 1)"
    using b k h by (simp add: length_substring)
  also have "\<dots> = pat ! (k - 1)"
  proof -
    have "k - 1 < length pat" using k by simp
    then show ?thesis by (simp only: r nth_append) simp
  qed
  finally have prev: "src ! (s - 1) < CHR 0x80" using asc by simp
  show ?thesis
  proof (cases "s < length src")
    case True
    have "\<not> continuation (src ! s)"
      using u True prev leD unfolding utf8_text_def by blast
    then show ?thesis using True by (simp add: char_boundary_def)
  next
    case False
    then have "s = length src" using b h off(2) k by linarith
    then show ?thesis by (simp add: char_boundary_def)
  qed
qed

lemma slice_end_boundary:
  assumes u: "utf8_text src" and s: "start < length src"
  shows "char_boundary src (slice_end src m start)"
proof -
  have h: "start \<le> hard_end src m start" "hard_end src m start \<le> length src"
    using hard_end_bounds [OF s, of m] by auto
  note sb = split_after_boundary [OF u _ _ _ h]
  have nl: "CHR 0x0A < CHR 0x80" by (simp add: less_char_def)
  show ?thesis
    using hard_end_boundary [OF s, of m] nl
      sb [of 1 "[CHR 0x0A, CHR ''#'']"] sb [of 2 "[CHR 0x0A, CHR 0x0A]"] sb [of 1 "[CHR 0x0A]"]
    by (auto simp: slice_end_def Let_def split: option.splits)
qed

lemma slice_end_limit:
  assumes s: "start < length src"
  shows "slice_end src m start \<le> start + m \<or> slice_end src m start \<le> first_char_end src start"
proof -
  have "retreat src start (min (start + m) (length src)) \<le> start + m"
    using retreat_bounds [of start "min (start + m) (length src)" src] s by auto
  then show ?thesis
    using slice_end_bounds [OF s, of m] by (auto simp: hard_end_def Let_def split: if_splits)
qed

lemma slices_from_boundaries:
  "utf8_text src \<Longrightarrow> char_boundary src start \<Longrightarrow> (a, b) \<in> set (slices_from src m start) \<Longrightarrow>
   char_boundary src a \<and> char_boundary src b \<and> a < length src
   \<and> (b \<le> a + m \<or> b \<le> first_char_end src a)"
proof (induction src m start rule: slices_from.induct)
  case (1 src m start)
  show ?case
  proof (cases "start < length src")
    case True
    have e: "char_boundary src (slice_end src m start)"
      by (rule slice_end_boundary [OF "1.prems"(1) True])
    show ?thesis
    proof (cases "(a, b) = (start, slice_end src m start)")
      case True
      then show ?thesis
        using e "1.prems"(2) \<open>start < length src\<close> slice_end_limit [of start src m] by simp
    next
      case False
      then have "(a, b) \<in> set (slices_from src m (slice_end src m start))"
        using "1.prems"(3) \<open>start < length src\<close> by (auto simp: slices_from.simps [of src m start])
      then show ?thesis using "1.IH" [OF True "1.prems"(1) e] by blast
    qed
  next
    case False
    then show ?thesis using "1.prems"(3) by (simp add: slices_from.simps [of src m start])
  qed
qed

section \<open>Units\<close>

record file_slice =
  s_path :: string
  s_start :: nat
  s_end :: nat
  s_index :: nat
  s_total :: nat

datatype file_unit = PathUnit string | SliceUnit file_slice

record file_system =
  fs_text :: "string \<Rightarrow> string option"
  fs_len :: "string \<Rightarrow> nat option"

definition file_char_cap :: nat where "file_char_cap = 20000"
definition per_file_overhead_chars :: nat where "per_file_overhead_chars = 160"
definition chars_per_token :: nat where "chars_per_token = 4"
definition image_token_estimate :: nat where "image_token_estimate = 1600"
definition max_images_per_chunk :: nat where "max_images_per_chunk = 20"
definition usize_max :: nat where "usize_max = 2 ^ 64 - 1"

definition saturating_add :: "nat \<Rightarrow> nat \<Rightarrow> nat" where
  "saturating_add a b = min (a + b) usize_max"

definition has_extension :: "string list \<Rightarrow> string \<Rightarrow> bool" where
  "has_extension exts path =
     (case path_extension path of
        None \<Rightarrow> False | Some e \<Rightarrow> ascii_lowercase e \<in> set exts)"

definition is_splittable_text :: "string \<Rightarrow> bool" where
  "is_splittable_text path =
     has_extension [''md'', ''markdown'', ''txt'', ''rst'', ''adoc'', ''asciidoc''] path"

definition is_vision_image :: "string \<Rightarrow> bool" where
  "is_vision_image path = has_extension [''png'', ''jpg'', ''jpeg'', ''gif'', ''webp''] path"

definition slice_units :: "string \<Rightarrow> (nat \<times> nat) list \<Rightarrow> file_unit list" where
  "slice_units path bounds =
     map (\<lambda>(index, (a, b)). SliceUnit \<lparr>s_path = path, s_start = a, s_end = b,
            s_index = index, s_total = length bounds\<rparr>) (enumerate 0 bounds)"

definition expand_file :: "file_system \<Rightarrow> nat \<Rightarrow> string \<Rightarrow> file_unit list" where
  "expand_file fs max_chars path =
     (if \<not> is_splittable_text path then [PathUnit path]
      else case fs_text fs path of
             None \<Rightarrow> [PathUnit path]
           | Some src \<Rightarrow>
               if length src \<le> max_chars then [PathUnit path]
               else slice_units path (slice_boundaries src max_chars))"

definition expand_oversized_files :: "file_system \<Rightarrow> string list \<Rightarrow> nat \<Rightarrow> file_unit list" where
  "expand_oversized_files fs paths max_chars = concat (map (expand_file fs max_chars) paths)"

definition read_slice_text :: "file_system \<Rightarrow> file_slice \<Rightarrow> string option" where
  "read_slice_text fs s =
     (case fs_text fs (s_path s) of
        None \<Rightarrow> None
      | Some src \<Rightarrow>
          if s_start s > s_end s \<or> s_end s > length src
             \<or> \<not> char_boundary src (s_start s) \<or> \<not> char_boundary src (s_end s)
          then None
          else Some (substring src (s_start s) (s_end s)))"

fun unit_path :: "file_unit \<Rightarrow> string" where
  "unit_path (PathUnit path) = path"
| "unit_path (SliceUnit s) = s_path s"

definition is_image_unit :: "file_unit \<Rightarrow> bool" where
  "is_image_unit u = (case u of PathUnit path \<Rightarrow> is_vision_image path | SliceUnit _ \<Rightarrow> False)"

fun unit_chars :: "file_system \<Rightarrow> file_unit \<Rightarrow> nat" where
  "unit_chars fs (SliceUnit s) = min (s_end s - s_start s) file_char_cap"
| "unit_chars fs (PathUnit path) =
     (case fs_len fs path of Some n \<Rightarrow> min n file_char_cap | None \<Rightarrow> 0)"

definition estimate_file_tokens :: "file_system \<Rightarrow> file_unit \<Rightarrow> nat" where
  "estimate_file_tokens fs u =
     (if is_image_unit u then image_token_estimate
      else let chars = unit_chars fs u
           in if chars = 0 then 0 else (chars + per_file_overhead_chars) div chars_per_token)"

definition partition_semantic_files :: "file_unit list \<Rightarrow> file_unit list \<times> string list" where
  "partition_semantic_files units =
     (filter (\<lambda>u. \<not> is_image_unit u) units, map unit_path (filter is_image_unit units))"

definition parent_key :: "string \<Rightarrow> (nat \<times> string) list" where
  "parent_key p =
     (let cs = path_components p in if cs = [] \<or> fst (last cs) = 0 then [] else butlast cs)"

definition group_by_directory ::
  "file_unit list \<Rightarrow> ((nat \<times> string) list, file_unit list) btree" where
  "group_by_directory units =
     fold (\<lambda>u m. bt_update (parent_key (unit_path u)) [] (\<lambda>us. us @ [u]) m) units []"

text \<open>The packing loop: the finished chunks, the current chunk, its tokens and its images.\<close>

fun pack_loop ::
  "file_system \<Rightarrow> nat \<Rightarrow> file_unit list \<Rightarrow> nat \<Rightarrow> nat \<Rightarrow> file_unit list \<Rightarrow> file_unit list list" where
  "pack_loop fs budget current tokens images [] = (if current = [] then [] else [current])"
| "pack_loop fs budget current tokens images (u # us) =
     (let t = estimate_file_tokens fs u; image = is_image_unit u; i = (if image then 1 else 0)
      in if current \<noteq> []
            \<and> (saturating_add tokens t > budget \<or> image \<and> images \<ge> max_images_per_chunk)
         then current # pack_loop fs budget [u] (saturating_add 0 t) i us
         else pack_loop fs budget (current @ [u]) (saturating_add tokens t) (images + i) us)"

definition try_pack_chunks_by_tokens ::
  "file_system \<Rightarrow> file_unit list \<Rightarrow> nat \<Rightarrow> file_unit list list option" where
  "try_pack_chunks_by_tokens fs units token_budget =
     (if token_budget = 0 then None
      else Some (pack_loop fs token_budget [] 0 0 (concat (map snd (group_by_directory units)))))"

definition pack_chunks_by_tokens :: "file_system \<Rightarrow> file_unit list \<Rightarrow> nat \<Rightarrow> file_unit list list" where
  "pack_chunks_by_tokens fs units token_budget =
     (case try_pack_chunks_by_tokens fs units token_budget of None \<Rightarrow> [] | Some cs \<Rightarrow> cs)"

text \<open>
  Indexing a \<open>str\<close> at an offset that is not a character boundary panics. The halves are looked for
  with \<open>text[start..midpoint]\<close> and \<open>text[midpoint..end]\<close>, so the three offsets must be boundaries.
\<close>

datatype panic = NotCharBoundary

definition bisect_split :: "string \<Rightarrow> file_slice \<Rightarrow> nat" where
  "bisect_split src s =
     (let midpoint = s_start s + (s_end s - s_start s) div 2;
          before = map_option (\<lambda>off. s_start s + off + 1)
                     (rfind [CHR 0x0A] (substring src (s_start s) midpoint));
          after = map_option (\<lambda>off. midpoint + off + 1)
                    (find_char (CHR 0x0A) (substring src midpoint (s_end s)));
          fallback = (case after of Some a \<Rightarrow> a | None \<Rightarrow> midpoint)
      in case before of
           Some b \<Rightarrow> if b > s_start s then b else fallback
         | None \<Rightarrow> fallback)"

definition bisect_slice :: "file_system \<Rightarrow> file_slice \<Rightarrow> panic + (file_slice \<times> file_slice) option" where
  "bisect_slice fs s =
     (if s_end s - s_start s \<le> 1 then Inr None
      else case fs_text fs (s_path s) of
             None \<Rightarrow> Inr None
           | Some src \<Rightarrow>
               if s_end s > length src \<or> s_start s \<ge> s_end s then Inr None
               else if \<not> char_boundary src (s_start s)
                       \<or> \<not> char_boundary src (s_start s + (s_end s - s_start s) div 2)
                       \<or> \<not> char_boundary src (s_end s)
               then Inl NotCharBoundary
               else
                 let split = bisect_split src s
                 in if split \<le> s_start s \<or> split \<ge> s_end s then Inr None
                    else Inr (Some (s\<lparr>s_end := split, s_index := 0, s_total := 2\<rparr>,
                                    s\<lparr>s_start := split, s_index := 1, s_total := 2\<rparr>)))"

section \<open>Reading the slices back\<close>

lemma map_slice_units:
  assumes "\<And>a b i n. (a, b) \<in> set bounds \<Longrightarrow>
      f (SliceUnit \<lparr>s_path = path, s_start = a, s_end = b, s_index = i, s_total = n\<rparr>) = h a b"
  shows "map f (slice_units path bounds) = map (\<lambda>(a, b). h a b) bounds"
proof -
  have "map (f \<circ> (\<lambda>(index, (a, b)). SliceUnit \<lparr>s_path = path, s_start = a, s_end = b,
            s_index = index, s_total = n\<rparr>)) (enumerate k bounds) = map (\<lambda>(a, b). h a b) bounds" for n k
    using assms by (induction bounds arbitrary: k) auto
  then show ?thesis by (simp add: slice_units_def)
qed

text \<open>
  C6: Every slice of an oversized splittable file can be read back, which includes that its ends are
  character boundaries; the texts read, one after the other, are the whole file; and every slice
  keeps to the size limit unless it is a single character.
\<close>

theorem expanded_file_reads_back:
  assumes "fs_text fs path = Some src" and "is_splittable_text path" and "max_chars < length src"
    and "utf8_text src"
  shows "concat (map (\<lambda>u. case u of
             SliceUnit s \<Rightarrow> (case read_slice_text fs s of Some t \<Rightarrow> t | None \<Rightarrow> [])
           | PathUnit p \<Rightarrow> []) (expand_file fs max_chars path)) = src
    \<and> list_all (\<lambda>u. case u of
          SliceUnit s \<Rightarrow> read_slice_text fs s \<noteq> None
            \<and> (s_end s \<le> s_start s + max max_chars 1 \<or> s_end s \<le> first_char_end src (s_start s))
        | PathUnit p \<Rightarrow> False)
        (expand_file fs max_chars path)"
    (is "concat (map ?text _) = src \<and> list_all ?fine _")
proof -
  let ?b = "slice_boundaries src max_chars"
  have ne: "src \<noteq> []" using assms(3) by auto
  have e: "expand_file fs max_chars path = slice_units path ?b"
    using assms by (simp add: expand_file_def)
  have bs: "char_boundary src a \<and> char_boundary src b
      \<and> (b \<le> a + max max_chars 1 \<or> b \<le> first_char_end src a)" if "(a, b) \<in> set ?b" for a b
    using that ne slices_from_boundaries [OF assms(4), of 0 a b "max max_chars 1"]
    by (auto simp: slice_boundaries_def char_boundary_def)
  have ok: "read_slice_text fs \<lparr>s_path = path, s_start = a, s_end = b, s_index = i, s_total = n\<rparr> =
      Some (substring src a b)" if ab: "(a, b) \<in> set ?b" for a b i n
  proof -
    have "a < b \<and> b \<le> length src"
      using tiles_range [OF _ ab] slice_boundaries_partition [OF ne] by blast
    then show ?thesis using assms(1) bs [OF ab] by (simp add: read_slice_text_def)
  qed
  have "map ?text (slice_units path ?b) = map (\<lambda>(a, b). substring src a b) ?b"
    by (rule map_slice_units) (simp add: ok)
  moreover have "map ?fine (slice_units path ?b) = map (\<lambda>(a, b). True) ?b"
    by (rule map_slice_units) (use bs in \<open>auto simp: ok\<close>)
  then have "list_all ?fine (slice_units path ?b)"
    unfolding list_all_iff list_eq_iff_nth_eq all_set_conv_all_nth
    by (simp add: slice_units_def case_prod_unfold)
  ultimately show ?thesis
    using slice_boundaries_partition [OF ne, of max_chars] by (simp add: e)
qed

theorem expanded_file_reads_back_witness:
  "concat (map (\<lambda>u. case u of
       SliceUnit s \<Rightarrow> (case read_slice_text \<lparr>fs_text = \<lambda>_. Some ''ab'', fs_len = \<lambda>_. Some 2\<rparr> s of
         Some t \<Rightarrow> t | None \<Rightarrow> [])
     | PathUnit p \<Rightarrow> []) (expand_file \<lparr>fs_text = \<lambda>_. Some ''ab'', fs_len = \<lambda>_. Some 2\<rparr> 1 ''a.md'')) = ''ab''"
proof -
  have "utf8_text ''ab''"
    by (auto simp: utf8_text_def continuation_def less_Suc_eq less_char_def less_eq_char_def)
  moreover have "is_splittable_text ''a.md''" by code_simp
  ultimately show ?thesis
    using expanded_file_reads_back [of "\<lparr>fs_text = \<lambda>_. Some ''ab'', fs_len = \<lambda>_. Some 2\<rparr>" "''a.md''" "''ab''" 1]
    by simp
qed

section \<open>Packing\<close>

lemma mset_group_by_directory:
  "mset (concat (map snd (group_by_directory units))) = mset units"
  using pushed_mset [OF bt_wf_Nil, of "\<lambda>u. parent_key (unit_path u)" "\<lambda>u. u" units] by (simp add: group_by_directory_def)

lemma concat_pack_loop: "concat (pack_loop fs budget current tokens images us) = current @ us"
  by (induction us arbitrary: current tokens images) (simp_all add: Let_def)

lemma pack_loop_nonempty: "[] \<notin> set (pack_loop fs budget current tokens images us)"
  by (induction us arbitrary: current tokens images) (auto simp: Let_def)

definition chunk_tokens :: "file_system \<Rightarrow> file_unit list \<Rightarrow> nat" where
  "chunk_tokens fs c = min (sum_list (map (estimate_file_tokens fs) c)) usize_max"

lemma chunk_tokens_snoc:
  "chunk_tokens fs (c @ [u]) = saturating_add (chunk_tokens fs c) (estimate_file_tokens fs u)"
  by (auto simp: chunk_tokens_def saturating_add_def)

definition chunk_fits :: "file_system \<Rightarrow> nat \<Rightarrow> file_unit list \<Rightarrow> bool" where
  "chunk_fits fs budget c \<longleftrightarrow> (length c \<le> 1 \<or> chunk_tokens fs c \<le> budget)
     \<and> length (filter is_image_unit c) \<le> max_images_per_chunk"

lemma pack_loop_fits:
  "chunk_fits fs budget current \<Longrightarrow> tokens = chunk_tokens fs current \<Longrightarrow>
   images = length (filter is_image_unit current) \<Longrightarrow>
   list_all (chunk_fits fs budget) (pack_loop fs budget current tokens images us)"
proof (induction us arbitrary: current tokens images)
  case Nil
  then show ?case by simp
next
  case (Cons u us)
  have one: "chunk_fits fs budget [u]" by (simp add: chunk_fits_def max_images_per_chunk_def)
  have t1: "saturating_add 0 (estimate_file_tokens fs u) = chunk_tokens fs [u]"
    by (simp add: chunk_tokens_def saturating_add_def)
  show ?case
  proof (cases "current \<noteq> [] \<and> (saturating_add tokens (estimate_file_tokens fs u) > budget
      \<or> is_image_unit u \<and> images \<ge> max_images_per_chunk)")
    case True
    then show ?thesis
      using Cons.IH [OF one t1 refl] Cons.prems(1) by (cases "is_image_unit u") (simp_all add: Let_def)
  next
    case False
    have "chunk_fits fs budget (current @ [u])"
    proof (cases "current = []")
      case True
      then show ?thesis using one by simp
    next
      case False
      with \<open>\<not> (current \<noteq> [] \<and> _)\<close> Cons.prems show ?thesis
        by (auto simp: chunk_fits_def chunk_tokens_snoc)
    qed
    moreover have "saturating_add tokens (estimate_file_tokens fs u) = chunk_tokens fs (current @ [u])"
      using Cons.prems by (simp add: chunk_tokens_snoc)
    ultimately have "list_all (chunk_fits fs budget) (pack_loop fs budget (current @ [u])
        (saturating_add tokens (estimate_file_tokens fs u)) (images + (if is_image_unit u then 1 else 0)) us)"
      using Cons.prems(3) by (intro Cons.IH) auto
    with False show ?thesis by (auto simp: Let_def)
  qed
qed

text \<open>
  C7: Packing refuses a zero budget; otherwise it neither loses nor repeats a unit, makes no empty
  chunk, and never puts more than twenty images in a chunk. A chunk keeps within the token budget unless
  it is a single unit: a unit that exceeds the budget by itself is alone in its chunk.
\<close>

theorem pack_chunks_sound:
  "case try_pack_chunks_by_tokens fs units budget of
     None \<Rightarrow> budget = 0
   | Some chunks \<Rightarrow> budget \<noteq> 0 \<and> mset (concat chunks) = mset units \<and> [] \<notin> set chunks
       \<and> list_all (\<lambda>c. length c = 1 \<or> min (sum_list (map (estimate_file_tokens fs) c)) usize_max \<le> budget) chunks
       \<and> list_all (\<lambda>c. length (filter is_image_unit c) \<le> 20) chunks"
proof -
  define us where us: "us = concat (map snd (group_by_directory units))"
  let ?cs = "pack_loop fs budget [] 0 0 us"
  have "list_all (chunk_fits fs budget) ?cs"
    by (rule pack_loop_fits) (simp_all add: chunk_fits_def chunk_tokens_def max_images_per_chunk_def)
  then have fit: "chunk_fits fs budget c" if "c \<in> set ?cs" for c
    using that by (simp add: list_all_iff)
  have ne: "length c \<noteq> 0" if "c \<in> set ?cs" for c
    using that pack_loop_nonempty [of fs budget "[]" 0 0 us] by auto
  have "list_all (\<lambda>c. length c = 1 \<or> min (sum_list (map (estimate_file_tokens fs) c)) usize_max \<le> budget) ?cs"
    unfolding list_all_iff
    using fit ne by (fastforce simp: chunk_fits_def chunk_tokens_def le_Suc_eq)
  moreover have "list_all (\<lambda>c. length (filter is_image_unit c) \<le> 20) ?cs"
    unfolding list_all_iff using fit by (auto simp: chunk_fits_def max_images_per_chunk_def)
  ultimately show ?thesis
    using mset_group_by_directory [of units] pack_loop_nonempty [of fs budget "[]" 0 0 us]
    by (simp add: try_pack_chunks_by_tokens_def concat_pack_loop us)
qed

section \<open>Bisecting a slice\<close>

lemma boundary_after_newline:
  assumes "utf8_text src" and "0 < i" and "i \<le> length src" and "src ! (i - 1) = CHR 0x0A"
  shows "char_boundary src i"
proof (cases "i < length src")
  case True
  have "\<not> CHR 0x80 \<le> src ! (i - 1)" by (simp only: assms(4)) (simp add: less_eq_char_def)
  then have "\<not> continuation (src ! i)" using assms(1) True unfolding utf8_text_def by blast
  then show ?thesis using True by (simp add: char_boundary_def)
next
  case False
  then show ?thesis using assms(3) by (simp add: char_boundary_def)
qed

lemma nth_substring: "i + k < j \<Longrightarrow> j \<le> length src \<Longrightarrow> substring src i j ! k = src ! (i + k)"
  by (simp add: substring_def)

lemma bisect_split_boundary:
  assumes u: "utf8_text src" and le: "s_start s \<le> s_end s" "s_end s \<le> length src"
    and mid: "char_boundary src (s_start s + (s_end s - s_start s) div 2)"
  shows "char_boundary src (bisect_split src s)"
proof -
  define m where m: "m = s_start s + (s_end s - s_start s) div 2"
  have mle: "s_start s \<le> m" "m \<le> s_end s" using le by (auto simp: m)
  have before: "char_boundary src (s_start s + off + 1)"
    if o: "rfind [CHR 0x0A] (substring src (s_start s) m) = Some off" for off
  proof -
    have b: "off < m - s_start s" "prefix [CHR 0x0A] (drop off (substring src (s_start s) m))"
      using rfind_Some [OF o] mle le by (auto simp: length_substring)
    then have "substring src (s_start s) m ! off = CHR 0x0A"
      using mle le by (auto simp: prefix_def length_substring nth_via_drop)
    then have "src ! (s_start s + off) = CHR 0x0A"
      using b(1) mle le by (simp add: nth_substring)
    then show ?thesis using b(1) mle le by (intro boundary_after_newline [OF u]) auto
  qed
  have after: "char_boundary src (m + off + 1)"
    if o: "find_char (CHR 0x0A) (substring src m (s_end s)) = Some off" for off
  proof -
    have b: "off < s_end s - m" "substring src m (s_end s) ! off = CHR 0x0A"
      using find_char_Some [OF o] le by (auto simp: length_substring)
    then have "src ! (m + off) = CHR 0x0A" using le by (simp add: nth_substring)
    then show ?thesis using b(1) le by (intro boundary_after_newline [OF u]) auto
  qed
  show ?thesis
    using before after mid by (auto simp: bisect_split_def Let_def m [symmetric] split: option.splits)
qed

text \<open>
  When a slice of a UTF-8 text is bisected, the halves are non-empty and adjacent, both can be
  read back, and what they read is what the slice reads.
\<close>

lemma bisect_slice_reads_back:
  assumes "bisect_slice fs s = Inr (Some (l, r))" and "fs_text fs (s_path s) = Some src"
    and "utf8_text src"
  shows "s_start l = s_start s \<and> s_start s < s_end l \<and> s_end l = s_start r \<and> s_start r < s_end s
    \<and> s_end r = s_end s
    \<and> (\<exists>a b. read_slice_text fs l = Some a \<and> read_slice_text fs r = Some b
         \<and> read_slice_text fs s = Some (a @ b))"
proof -
  let ?p = "bisect_split src s"
  have b: "s_end s \<le> length src" "s_start s < s_end s" "char_boundary src (s_start s)"
    "char_boundary src (s_start s + (s_end s - s_start s) div 2)" "char_boundary src (s_end s)"
    "s_start s < ?p" "?p < s_end s"
    "l = s\<lparr>s_end := ?p, s_index := 0, s_total := 2\<rparr>" "r = s\<lparr>s_start := ?p, s_index := 1, s_total := 2\<rparr>"
    using assms(1,2) by (auto simp: bisect_slice_def Let_def split: if_splits)
  have "char_boundary src ?p" by (rule bisect_split_boundary) (use assms(3) b in auto)
  moreover have "substring src (s_start s) (s_end s) =
      substring src (s_start s) ?p @ substring src ?p (s_end s)"
    using tiles_concat [of "s_start s" "s_end s" "[(s_start s, ?p), (?p, s_end s)]" src] b by simp
  ultimately show ?thesis
    using b assms(2) by (simp add: read_slice_text_def)
qed

theorem bisect_slice_reads_back_witness:
  "s_end (fst (the (projr (bisect_slice \<lparr>fs_text = \<lambda>_. Some ''ab'', fs_len = \<lambda>_. None\<rparr>
     \<lparr>s_path = ''a.md'', s_start = 0, s_end = 2, s_index = 0, s_total = 1\<rparr>)))) = 1"
proof -
  let ?fs = "\<lparr>fs_text = \<lambda>_. Some ''ab'', fs_len = \<lambda>_. None\<rparr> :: file_system"
  let ?s = "\<lparr>s_path = ''a.md'', s_start = 0, s_end = 2, s_index = 0, s_total = 1\<rparr>"
  let ?l = "?s\<lparr>s_end := 1, s_index := 0, s_total := 2\<rparr>" and ?r = "?s\<lparr>s_start := 1, s_index := 1, s_total := 2\<rparr>"
  have u: "utf8_text ''ab''"
    by (auto simp: utf8_text_def continuation_def less_Suc_eq less_char_def less_eq_char_def)
  have b: "bisect_slice ?fs ?s = Inr (Some (?l, ?r))" by code_simp
  have "s_end ?l = s_start ?r" using bisect_slice_reads_back [OF b _ u] by simp
  then show ?thesis unfolding b by simp
qed

text \<open>
  Bisecting does not check that the midpoint is a character boundary before it indexes the text
  there: on the only slice of a small file of three two-byte letters it panics, although the slice
  itself can be read.
\<close>

lemma bisect_slice_panics:
  "bisect_slice \<lparr>fs_text = \<lambda>_. Some [CHR 0xC3, CHR 0xA9, CHR 0xC3, CHR 0xA9, CHR 0xC3, CHR 0xA9], fs_len = \<lambda>_. Some 6\<rparr>
     \<lparr>s_path = ''notes.md'', s_start = 0, s_end = 6, s_index = 0, s_total = 1\<rparr> = Inl NotCharBoundary
   \<and> read_slice_text \<lparr>fs_text = \<lambda>_. Some [CHR 0xC3, CHR 0xA9, CHR 0xC3, CHR 0xA9, CHR 0xC3, CHR 0xA9], fs_len = \<lambda>_. Some 6\<rparr>
       \<lparr>s_path = ''notes.md'', s_start = 0, s_end = 6, s_index = 0, s_total = 1\<rparr> =
     Some [CHR 0xC3, CHR 0xA9, CHR 0xC3, CHR 0xA9, CHR 0xC3, CHR 0xA9]"
  by code_simp

end
