(* ===== verification/UnionFind.thy ===== *)
theory UnionFind
  imports Btree
begin

text \<open>
  The disjoint-set forest of \<open>crates/graphoxide-graph/src/dedup.rs\<close> (\<open>UnionFind\<close>): a vector of
  parents with path compression. \<open>find\<close> is recursive; the model bounds the recursion by the length of
  the vector, and \<open>uf_find_unfold\<close> shows that on every forest the bound is never reached: the
  definition satisfies the recursive equation of the code.
\<close>

section \<open>Operations\<close>

type_synonym uf = "nat list"

definition uf_new :: "nat \<Rightarrow> uf" where
  "uf_new n = [0..<n]"

fun find_fuel :: "nat \<Rightarrow> uf \<Rightarrow> nat \<Rightarrow> uf \<times> nat" where
  "find_fuel 0 p v = (p, v)"
| "find_fuel (Suc k) p v =
     (if p ! v \<noteq> v
      then let (p', r) = find_fuel k p (p ! v) in (p'[v := r], r)
      else (p, p ! v))"

definition uf_find :: "uf \<Rightarrow> nat \<Rightarrow> uf \<times> nat" where
  "uf_find p v = find_fuel (length p) p v"

definition uf_union :: "uf \<Rightarrow> nat \<Rightarrow> nat \<Rightarrow> uf \<times> bool" where
  "uf_union p l r =
     (let (p1, lr) = uf_find p l; (p2, rr) = uf_find p1 r
      in if lr = rr then (p2, False) else (p2[rr := lr], True))"

section \<open>Forests and their roots\<close>

inductive root_of :: "uf \<Rightarrow> nat \<Rightarrow> nat \<Rightarrow> bool" for p where
  root_here: "v < length p \<Longrightarrow> p ! v = v \<Longrightarrow> root_of p v v"
| root_up: "v < length p \<Longrightarrow> p ! v \<noteq> v \<Longrightarrow> root_of p (p ! v) r \<Longrightarrow> root_of p v r"

inductive_cases root_ofE: "root_of p v r"

definition uf_forest :: "(nat \<Rightarrow> nat) \<Rightarrow> uf \<Rightarrow> bool" where
  "uf_forest d p \<longleftrightarrow> (\<forall>v < length p. p ! v < length p \<and> (p ! v \<noteq> v \<longrightarrow> d (p ! v) < d v))"

definition uf_ok :: "uf \<Rightarrow> bool" where
  "uf_ok p \<longleftrightarrow> (\<exists>d. uf_forest d p)"

definition uf_roots :: "uf \<Rightarrow> nat set" where
  "uf_roots p = {v. v < length p \<and> p ! v = v}"

lemma root_of_det: "root_of p v r \<Longrightarrow> root_of p v s \<Longrightarrow> r = s"
proof (induction v r arbitrary: s rule: root_of.induct)
  case (root_here v)
  from root_here(3) show ?case by (rule root_ofE) (use root_here in blast)+
next
  case (root_up v r)
  from root_up(5) show ?case by (rule root_ofE) (use root_up in blast)+
qed

lemma root_of_is_root: "root_of p v r \<Longrightarrow> root_of p r r \<and> r < length p \<and> p ! r = r"
  by (induction v r rule: root_of.induct) (auto intro: root_of.intros)

lemma root_of_bound: "root_of p v r \<Longrightarrow> v < length p"
  by (erule root_ofE)

lemma root_of_self: "root_of p v v \<longleftrightarrow> v \<in> uf_roots p"
  using root_of_is_root [of p v v] by (auto simp: uf_roots_def intro: root_here)

lemma forest_bound: "uf_forest d p \<Longrightarrow> v < length p \<Longrightarrow> p ! v < length p"
  by (auto simp: uf_forest_def)

lemma forest_down: "uf_forest d p \<Longrightarrow> v < length p \<Longrightarrow> p ! v \<noteq> v \<Longrightarrow> d (p ! v) < d v"
  by (auto simp: uf_forest_def)

lemma root_of_ex: "uf_forest d p \<Longrightarrow> v < length p \<Longrightarrow> \<exists>r. root_of p v r"
proof (induction "d v" arbitrary: v rule: less_induct)
  case less
  show ?case
  proof (cases "p ! v = v")
    case True
    then show ?thesis using less.prems root_here by blast
  next
    case False
    then obtain r where "root_of p (p ! v) r"
      using less forest_bound forest_down by meson
    then show ?thesis using False less.prems root_up by blast
  qed
qed

lemma root_of_depth: "root_of p v r \<Longrightarrow> uf_forest d p \<Longrightarrow> r \<noteq> v \<Longrightarrow> d r < d v"
proof (induction v r rule: root_of.induct)
  case (root_up v r)
  have "d (p ! v) < d v" using root_up forest_down by blast
  then show ?case using root_up by (cases "r = p ! v") auto
qed simp

text \<open>Two forests with the same roots for some elements: it is enough to follow the paths one way.\<close>

lemma root_of_iffI:
  assumes f: "uf_forest d p" and l: "length q = length p"
    and to: "\<And>x y. root_of p x y \<Longrightarrow> root_of q x (g y)"
  shows "root_of q x y \<longleftrightarrow> (\<exists>z. root_of p x z \<and> y = g z)"
proof
  assume y: "root_of q x y"
  then obtain z where z: "root_of p x z"
    using root_of_ex [OF f, of x] root_of_bound [OF y] l by auto
  then have "y = g z" using to root_of_det [OF y] by blast
  then show "\<exists>z. root_of p x z \<and> y = g z" using z by blast
qed (use to in blast)

lemma compress_forest:
  assumes f: "uf_forest d p" and r: "root_of p v r"
  shows "uf_forest d (p[v := r])"
  unfolding uf_forest_def
proof (intro allI impI)
  fix x
  assume x: "x < length (p[v := r])"
  have v: "r < length p" "r \<noteq> v \<Longrightarrow> d r < d v"
    using root_of_is_root [OF r] root_of_depth [OF r f] by auto
  show "p[v := r] ! x < length (p[v := r]) \<and> (p[v := r] ! x \<noteq> x \<longrightarrow> d (p[v := r] ! x) < d x)"
  proof (cases "x = v")
    case True
    then show ?thesis using x v by simp
  next
    case False
    then show ?thesis using x f by (simp add: uf_forest_def)
  qed
qed

lemma compress_root_of:
  assumes f: "uf_forest d p" and r: "root_of p v r"
  shows "root_of (p[v := r]) x y \<longleftrightarrow> root_of p x y"
proof -
  have rr: "p ! r = r" "r < length p" using root_of_is_root [OF r] by auto
  have to: "root_of (p[v := r]) x y" if "root_of p x y" for x y
    using that
  proof (induction x y rule: root_of.induct)
    case (root_here x)
    have "x = v \<Longrightarrow> r = v" using r root_of_det root_of.root_here [OF root_here] by blast
    then have "p[v := r] ! x = x" using root_here by (cases "x = v") auto
    then show ?case using root_here by (intro root_of.root_here) simp_all
  next
    case (root_up x y)
    show ?case
    proof (cases "x = v")
      case True
      have "y = r" using root_up True r root_of_det root_of.root_up by blast
      moreover have ne: "r \<noteq> v" using rr root_up True by auto
      have "root_of (p[v := r]) r r" using rr ne by (intro root_of.root_here) simp_all
      then have "root_of (p[v := r]) v r"
        using ne root_up(1) True by - (rule root_of.root_up, simp_all)
      ultimately show ?thesis using True by simp
    next
      case False
      then show ?thesis using root_up by - (rule root_of.root_up, simp_all)
    qed
  qed
  show ?thesis
    by (subst root_of_iffI [where g = "\<lambda>z. z", OF f _ to]) simp_all
qed

section \<open>Finding\<close>

definition below :: "(nat \<Rightarrow> nat) \<Rightarrow> uf \<Rightarrow> nat \<Rightarrow> nat" where
  "below d p v = card {x. x < length p \<and> d x < d v}"

lemma below_down:
  assumes "uf_forest d p" "v < length p" "p ! v \<noteq> v"
  shows "below d p (p ! v) < below d p v"
proof -
  have "d (p ! v) < d v" "p ! v < length p" using assms forest_down forest_bound by auto
  then have "{x. x < length p \<and> d x < d (p ! v)} \<subset> {x. x < length p \<and> d x < d v}" by auto
  then show ?thesis unfolding below_def by (intro psubset_card_mono) auto
qed

lemma below_less: "v < length p \<Longrightarrow> below d p v < length p"
proof -
  assume v: "v < length p"
  have "{x. x < length p \<and> d x < d v} \<subset> {x. x < length p}" using v by auto
  then have "below d p v < card {x. x < length p}" unfolding below_def by (intro psubset_card_mono) auto
  then show ?thesis by simp
qed

lemma find_fuel_correct:
  assumes "uf_forest d p" "v < length p" "below d p v < k"
  shows "\<exists>q r. find_fuel k p v = (q, r) \<and> root_of p v r \<and> length q = length p \<and> uf_forest d q
    \<and> (\<forall>x y. root_of q x y \<longleftrightarrow> root_of p x y)"
  using assms(2,3)
proof (induction k arbitrary: v)
  case 0
  then show ?case by simp
next
  case (Suc k)
  show ?case
  proof (cases "p ! v = v")
    case True
    then show ?thesis using Suc.prems assms(1) by (auto intro: root_here)
  next
    case False
    obtain q r where q: "find_fuel k p (p ! v) = (q, r)" "root_of p (p ! v) r" "length q = length p"
      "uf_forest d q" "\<forall>x y. root_of q x y \<longleftrightarrow> root_of p x y"
      using Suc.IH [of "p ! v"] Suc.prems below_down [OF assms(1) Suc.prems(1) False]
        forest_bound [OF assms(1) Suc.prems(1)] by auto
    have r: "root_of p v r" using q(2) False Suc.prems root_up by blast
    then show ?thesis
      using q False compress_forest [OF q(4), of v r] compress_root_of [OF q(4), of v r] by simp
  qed
qed

lemma find_fuel_enough:
  "uf_forest d p \<Longrightarrow> v < length p \<Longrightarrow> below d p v < k \<Longrightarrow> below d p v < j \<Longrightarrow>
   find_fuel k p v = find_fuel j p v"
proof (induction k arbitrary: v j)
  case 0
  then show ?case by simp
next
  case (Suc k)
  then obtain j' where j: "j = Suc j'" by (cases j) auto
  show ?case
  proof (cases "p ! v = v")
    case False
    then have "find_fuel k p (p ! v) = find_fuel j' p (p ! v)"
      using Suc.prems j below_down [OF Suc.prems(1,2) False]
      by (intro Suc.IH) (auto simp: forest_bound)
    then show ?thesis by (simp add: j)
  qed (simp add: j)
qed

lemma uf_find_correct:
  assumes "uf_forest d p" "v < length p"
  shows "\<exists>q r. uf_find p v = (q, r) \<and> root_of p v r \<and> length q = length p \<and> uf_forest d q
    \<and> (\<forall>x y. root_of q x y \<longleftrightarrow> root_of p x y)"
  unfolding uf_find_def by (rule find_fuel_correct [OF assms below_less [OF assms(2)]])

text \<open>
  On a forest the model of \<open>find\<close> satisfies the recursive equation of the code, so the bound on
  the recursion changes nothing: \<open>find\<close> terminates, returns the root of its argument and
  changes no element's root.
\<close>

lemma uf_find_unfold:
  assumes "uf_ok p" and "v < length p"
  shows "uf_find p v =
      (if p ! v \<noteq> v then let (p', r) = uf_find p (p ! v) in (p'[v := r], r) else (p, p ! v))
    \<and> root_of p v (snd (uf_find p v))
    \<and> (\<forall>x y. root_of (fst (uf_find p v)) x y \<longleftrightarrow> root_of p x y)"
proof -
  obtain d where d: "uf_forest d p" using assms(1) by (auto simp: uf_ok_def)
  obtain k where k: "length p = Suc k" using assms(2) by (cases p) auto
  have "find_fuel k p (p ! v) = find_fuel (length p) p (p ! v)" if "p ! v \<noteq> v"
    using below_down [OF d assms(2) that] below_less [OF assms(2), of d] k forest_bound [OF d assms(2)]
    by (intro find_fuel_enough [OF d]) simp_all
  then have "uf_find p v =
      (if p ! v \<noteq> v then let (p', r) = uf_find p (p ! v) in (p'[v := r], r) else (p, p ! v))"
    by (simp add: uf_find_def k)
  moreover have "root_of p v (snd (uf_find p v))
      \<and> (\<forall>x y. root_of (fst (uf_find p v)) x y \<longleftrightarrow> root_of p x y)"
    using uf_find_correct [OF d assms(2)] by (elim exE conjE) simp
  ultimately show ?thesis by blast
qed

lemma uf_ok_new: "uf_ok (uf_new n)"
  by (auto simp: uf_ok_def uf_forest_def uf_new_def)

theorem uf_find_unfold_witness: "root_of (uf_new 3) 1 (snd (uf_find (uf_new 3) 1))"
proof -
  have "1 < length (uf_new 3)" by (simp add: uf_new_def)
  from uf_find_unfold [OF uf_ok_new this] show ?thesis by (elim conjE)
qed

section \<open>Merging\<close>

lemma redirect_same: "(\<exists>z. P z \<and> v = (if z = c then c else z)) \<longleftrightarrow> P v"
proof
  assume "\<exists>z. P z \<and> v = (if z = c then c else z)"
  then obtain z where "P z" "v = z" by (auto split: if_splits)
  then show "P v" by simp
qed (auto intro!: exI [of _ v])

lemma redirect_other: "v \<noteq> a \<Longrightarrow> v \<noteq> c \<Longrightarrow> (\<exists>z. P z \<and> v = (if z = c then a else z)) \<longleftrightarrow> P v"
proof
  assume "v \<noteq> a" "v \<noteq> c" "\<exists>z. P z \<and> v = (if z = c then a else z)"
  then obtain z where "P z" "v = z" by (auto split: if_splits)
  then show "P v" by simp
qed (auto intro!: exI [of _ v])

lemma link_forest:
  assumes f: "uf_forest d p" and l: "root_of p l l" and r: "root_of p r r" and ne: "l \<noteq> r"
  shows "uf_ok (p[r := l])"
    and "root_of (p[r := l]) x y \<longleftrightarrow> (\<exists>z. root_of p x z \<and> y = (if z = r then l else z))"
proof -
  have lr: "p ! l = l" "l < length p" "p ! r = r" "r < length p"
    using root_of_is_root [OF l] root_of_is_root [OF r] by auto
  let ?e = "\<lambda>x. d x + (if root_of p x r then Suc (d l) else 0)"
  have up: "root_of p (p ! x) r \<longleftrightarrow> root_of p x r" if "x < length p" "p ! x \<noteq> x" for x
  proof
    show "root_of p x r" if "root_of p (p ! x) r" using that \<open>x < length p\<close> \<open>p ! x \<noteq> x\<close> by (rule root_up [rotated 2])
    show "root_of p (p ! x) r" if "root_of p x r" using that \<open>p ! x \<noteq> x\<close> by (auto simp: root_of.simps [of p x r])
  qed
  have nl: "\<not> root_of p l r" using l ne root_of_det by blast
  have "uf_forest ?e (p[r := l])"
    unfolding uf_forest_def
  proof (intro allI impI)
    fix x
    assume x: "x < length (p[r := l])"
    show "p[r := l] ! x < length (p[r := l]) \<and> (p[r := l] ! x \<noteq> x \<longrightarrow> ?e (p[r := l] ! x) < ?e x)"
    proof (cases "x = r")
      case True
      then show ?thesis using lr nl r by simp
    next
      case False
      then show ?thesis using x f up by (simp add: uf_forest_def)
    qed
  qed
  then show "uf_ok (p[r := l])" unfolding uf_ok_def by blast
  have to: "root_of (p[r := l]) x (if z = r then l else z)" if "root_of p x z" for x z
    using that
  proof (induction x z rule: root_of.induct)
    case (root_here x)
    show ?case
    proof (cases "x = r")
      case True
      have "root_of (p[r := l]) l l" using lr ne by (intro root_of.root_here) simp_all
      then have "root_of (p[r := l]) r l" using lr ne by - (rule root_of.root_up, simp_all)
      then show ?thesis using True by simp
    next
      case False
      then show ?thesis using root_here by (simp add: root_of.root_here)
    qed
  next
    case (root_up x z)
    then have "x \<noteq> r" using lr by auto
    then show ?case using root_up by - (rule root_of.root_up, simp_all)
  qed
  show "root_of (p[r := l]) x y \<longleftrightarrow> (\<exists>z. root_of p x z \<and> y = (if z = r then l else z))"
    by (rule root_of_iffI [where g = "\<lambda>z. if z = r then l else z", OF f _ to]) simp_all
qed

lemma uf_union_correct:
  assumes ok: "uf_ok p" and l: "l < length p" and r: "r < length p"
  obtains q b lr rr where "uf_union p l r = (q, b)" "uf_ok q" "length q = length p"
    "root_of p l lr" "root_of p r rr" "b \<longleftrightarrow> lr \<noteq> rr"
    "\<And>x y. root_of q x y \<longleftrightarrow> (\<exists>z. root_of p x z \<and> y = (if z = rr then lr else z))"
proof -
  obtain d where d: "uf_forest d p" using ok by (auto simp: uf_ok_def)
  obtain p1 lr where p1: "uf_find p l = (p1, lr)" "root_of p l lr" "length p1 = length p"
    "uf_forest d p1" "\<forall>x y. root_of p1 x y \<longleftrightarrow> root_of p x y"
    using uf_find_correct [OF d l] by auto
  obtain p2 rr where p2: "uf_find p1 r = (p2, rr)" "root_of p1 r rr" "length p2 = length p1"
    "uf_forest d p2" "\<forall>x y. root_of p2 x y \<longleftrightarrow> root_of p1 x y"
    using uf_find_correct [OF p1(4), of r] r p1(3) by auto
  have same: "root_of p2 x y \<longleftrightarrow> root_of p x y" for x y using p1(5) p2(5) by simp
  show ?thesis
  proof (cases "lr = rr")
    case True
    have "uf_union p l r = (p2, False)" using p1(1) p2(1) True by (simp add: uf_union_def)
    moreover have "uf_ok p2" using p2(4) by (auto simp: uf_ok_def)
    moreover have "root_of p2 x y \<longleftrightarrow> (\<exists>z. root_of p x z \<and> y = (if z = rr then lr else z))" for x y
      unfolding same True by (rule redirect_same [symmetric])
    ultimately show ?thesis
      using that [of p2 False lr rr] p1(2,3,5) p2(2,3) True by simp
  next
    case False
    have "root_of p2 lr lr" "root_of p2 rr rr"
      using p1(2) p2(2) p1(5) same root_of_is_root by blast+
    note lk = link_forest [OF p2(4) this False]
    have "uf_union p l r = (p2[rr := lr], True)" using p1(1) p2(1) False by (simp add: uf_union_def)
    then show ?thesis
      using that [of "p2[rr := lr]" True lr rr] lk p1 p2 same False by simp
  qed
qed

lemma uf_roots_alt: "uf_roots p = {v. root_of p v v}"
  using root_of_self by auto

lemma finite_uf_roots [simp]: "finite (uf_roots p)"
  by (simp add: uf_roots_def)

section \<open>Counting merges\<close>

text \<open>
  What a client that merges relies on: the number of classes goes down by one with every merge that
  reports one, and merging within a set \<open>S\<close> leaves the elements outside it alone.
\<close>

definition counted :: "('u \<Rightarrow> nat \<Rightarrow> nat \<Rightarrow> 'u \<times> bool) \<Rightarrow> nat \<Rightarrow> nat \<Rightarrow> 'u \<times> nat \<Rightarrow> 'u \<times> nat" where
  "counted merge l r st =
     (let (u, merged) = merge (fst st) l r in (u, snd st + (if merged then 1 else 0)))"

locale merge_counter =
  fixes merge :: "'u \<Rightarrow> nat \<Rightarrow> nat \<Rightarrow> 'u \<times> bool"
    and classes :: "'u \<Rightarrow> nat"
    and sound :: "nat \<Rightarrow> nat set \<Rightarrow> 'u \<Rightarrow> bool"
  assumes sound_merge: "sound n S u \<Longrightarrow> l \<in> S \<Longrightarrow> r \<in> S \<Longrightarrow> l < n \<Longrightarrow> r < n \<Longrightarrow> sound n S (fst (merge u l r))"
    and classes_merge: "sound n S u \<Longrightarrow> l \<in> S \<Longrightarrow> r \<in> S \<Longrightarrow> l < n \<Longrightarrow> r < n \<Longrightarrow>
      classes u = classes (fst (merge u l r)) + (if snd (merge u l r) then 1 else 0)"
begin

definition merged_ok :: "nat \<Rightarrow> nat set \<Rightarrow> nat \<Rightarrow> 'u \<times> nat \<Rightarrow> bool" where
  "merged_ok n S c st \<longleftrightarrow> sound n S (fst st) \<and> classes (fst st) + snd st = c"

lemma counted_ok:
  "merged_ok n S c st \<Longrightarrow> l \<in> S \<Longrightarrow> r \<in> S \<Longrightarrow> l < n \<Longrightarrow> r < n \<Longrightarrow>
   merged_ok n S c (counted merge l r st)"
  using sound_merge [of n S "fst st" l r] classes_merge [of n S "fst st" l r]
  by (auto simp: merged_ok_def counted_def Let_def split_def)

lemma counted_all_ok:
  "merged_ok n S c st \<Longrightarrow> l \<in> S \<Longrightarrow> l < n \<Longrightarrow> (\<forall>r \<in> set rs. r \<in> S \<and> r < n) \<Longrightarrow>
   merged_ok n S c (fold (counted merge l) rs st)"
  by (induction rs arbitrary: st) (auto simp: counted_ok)

end

text \<open>The forest as the provider.\<close>

definition uf_sound :: "nat \<Rightarrow> nat set \<Rightarrow> uf \<Rightarrow> bool" where
  "uf_sound n S p \<longleftrightarrow> uf_ok p \<and> length p = n \<and> (\<forall>v < n. v \<notin> S \<longrightarrow> (\<forall>x. root_of p x v \<longleftrightarrow> x = v))"

lemma uf_sound_union:
  assumes s: "uf_sound n S p" and lr: "l \<in> S" "r \<in> S" "l < n" "r < n"
  shows "uf_sound n S (fst (uf_union p l r))"
    and "card (uf_roots p) = card (uf_roots (fst (uf_union p l r)))
           + (if snd (uf_union p l r) then 1 else 0)"
proof -
  have ok: "uf_ok p" "length p = n" using s by (auto simp: uf_sound_def)
  obtain q b a c where u: "uf_union p l r = (q, b)" "uf_ok q" "length q = length p"
    "root_of p l a" "root_of p r c" "b \<longleftrightarrow> a \<noteq> c"
    "\<And>x y. root_of q x y \<longleftrightarrow> (\<exists>z. root_of p x z \<and> y = (if z = c then a else z))"
    by (rule uf_union_correct [OF ok(1), of l r]) (use lr ok(2) in auto)
  have aS: "a \<in> S" "c \<in> S" "a < n" "c < n"
    using s lr u(4,5) root_of_is_root ok(2) unfolding uf_sound_def by metis+
  have "root_of q x v \<longleftrightarrow> x = v" if "v < n" "v \<notin> S" for v x
  proof -
    have "v \<noteq> a" "v \<noteq> c" using that aS by auto
    then have "root_of q x v \<longleftrightarrow> root_of p x v" unfolding u(7) by (rule redirect_other)
    then show ?thesis using s that by (simp add: uf_sound_def)
  qed
  then show "uf_sound n S (fst (uf_union p l r))"
    using u ok by (simp add: uf_sound_def)
  show "card (uf_roots p) = card (uf_roots (fst (uf_union p l r)))
      + (if snd (uf_union p l r) then 1 else 0)"
  proof (cases "a = c")
    case True
    have "root_of q v v \<longleftrightarrow> root_of p v v" for v unfolding u(7) True by (rule redirect_same)
    then have "uf_roots q = uf_roots p" unfolding uf_roots_alt by simp
    then show ?thesis using u(1,6) True by simp
  next
    case False
    have ra: "root_of p a a" "root_of p c c" using u(4,5) root_of_is_root by blast+
    have "root_of q v v \<longleftrightarrow> root_of p v v \<and> v \<noteq> c" for v
    proof (cases "v = c \<or> v = a")
      case True
      have "z = v" if "root_of p v z" for z using that ra True root_of_det by blast
      then show ?thesis unfolding u(7) using ra False True by auto
    next
      case False
      then show ?thesis by (simp add: u(7) redirect_other)
    qed
    then have "uf_roots q = uf_roots p - {c}" unfolding uf_roots_alt by auto
    moreover have "c \<in> uf_roots p" using ra unfolding uf_roots_alt by simp
    ultimately show ?thesis
      using u(1,6) False card_Suc_Diff1 [OF finite_uf_roots, of c p] by simp
  qed
qed

interpretation forest: merge_counter uf_union "\<lambda>p. card (uf_roots p)" uf_sound
  by unfold_locales (use uf_sound_union in blast)+

lemma uf_sound_new: "uf_sound n S (uf_new n)"
proof -
  have "root_of (uf_new n) x v \<longleftrightarrow> x = v \<and> v < n" for x v
    by (subst root_of.simps) (auto simp: uf_new_def)
  then show ?thesis by (auto simp: uf_sound_def uf_ok_new) (simp_all add: uf_new_def)
qed

lemma card_roots_new: "card (uf_roots (uf_new n)) = n"
proof -
  have "uf_roots (uf_new n) = {v. v < n}" by (auto simp: uf_roots_def uf_new_def)
  then show ?thesis by simp
qed

end
