(* ===== verification/Dedup.thy ===== *)
theory Dedup
  imports Ids UnionFind "HOL-Library.Multiset"
begin

text \<open>
  Deduplication of semantic nodes (\<open>crates/graphoxide-graph/src/dedup.rs\<close>): collisions of
  identifiers, nodes with equal normalised labels, and fuzzy matches found through shared shingles
  are merged in a union-find forest; the edges and hyperedges are then rewired. The string
  distances of the crate \<open>rapidfuzz\<close> are the fields of the parameter \<open>fuzzy\<close>; nothing is assumed of
  them. The two regular expressions are written out as the predicates they denote.
\<close>

record fuzzy =
  f_jaro :: "string \<Rightarrow> string \<Rightarrow> real"
  f_jaro_winkler :: "string \<Rightarrow> string \<Rightarrow> real"
  f_damerau :: "string \<Rightarrow> string \<Rightarrow> nat"

section \<open>Labels\<close>

definition entropy_threshold :: real where "entropy_threshold = 5 / 2"
definition lsh_threshold :: real where "lsh_threshold = 7 / 10"
definition merge_threshold :: real where "merge_threshold = 92 / 100"
definition community_boost :: real where "community_boost = 5 / 100"

fun label_loop :: "string \<Rightarrow> bool \<Rightarrow> string \<Rightarrow> string" where
  "label_loop acc pending [] = acc"
| "label_loop acc pending (c # cs) =
     (if is_alphanumeric c
      then label_loop ((if pending \<and> acc \<noteq> [] then acc @ '' '' else acc) @ [c]) False cs
      else label_loop acc True cs)"

definition normalized_label :: "unicode \<Rightarrow> string \<Rightarrow> string" where
  "normalized_label u label = label_loop [] False (u_case_fold u (u_nfkc u label))"

definition label_entropy :: "unicode \<Rightarrow> string \<Rightarrow> real" where
  "label_entropy u label =
     (let normalized = normalized_label u label
      in if normalized = [] then 0
         else (\<Sum>c \<leftarrow> remdups normalized.
                 let probability = real (count_list normalized c) / real (length normalized)
                 in - probability * log 2 probability))"

definition shingles :: "string \<Rightarrow> nat \<Rightarrow> string list" where
  "shingles s k =
     (if length s < k then [s]
      else bt_keys (bt_of_list (map (\<lambda>start. (take k (drop start s), ())) [0..<Suc (length s - k)])))"

text \<open>The pattern \<open>^(.*[a-z])([0-9]+[a-z]*|[a-z]{2,})$\<close> with its two groups: the longest first group
  for which the rest matches.\<close>

definition variant_tail :: "string \<Rightarrow> bool" where
  "variant_tail s \<longleftrightarrow>
     (let d = takeWhile ascii_digit s; r = dropWhile ascii_digit s
      in list_all ascii_lower r \<and> (d \<noteq> [] \<or> 2 \<le> length r))"

definition variant_split :: "string \<Rightarrow> (string \<times> string) option" where
  "variant_split s =
     find (\<lambda>(h, t). h \<noteq> [] \<and> ascii_lower (last h) \<and> CHR 0x0A \<notin> set h \<and> variant_tail t)
       (map (\<lambda>i. (take i s, drop i s)) (rev [0..<Suc (length s)]))"

definition is_variant_pair :: "string \<Rightarrow> string \<Rightarrow> bool" where
  "is_variant_pair a b =
     (if a = b \<or> max (length a) (length b) \<ge> 12 then False
      else case variant_split a of
             None \<Rightarrow> False
           | Some (la, ta) \<Rightarrow>
               (case variant_split b of
                  None \<Rightarrow> False
                | Some (lb, tb) \<Rightarrow> la = lb \<and> ta \<noteq> tb))"

definition short_label_blocked :: "fuzzy \<Rightarrow> string \<Rightarrow> string \<Rightarrow> real \<Rightarrow> bool" where
  "short_label_blocked f a b score =
     (if max (length a) (length b) \<ge> 12 then False
      else \<not> (score \<ge> 97 / 100 \<and> length a = length b \<and> f_damerau f a b \<le> 1))"

definition strip_zeros :: "string \<Rightarrow> string" where
  "strip_zeros token = (let s = dropWhile (\<lambda>c. c = CHR ''0'') token in if s = [] then ''0'' else s)"

fun digit_tokens :: "string \<Rightarrow> string \<Rightarrow> string list" where
  "digit_tokens token [] = (if token = [] then [] else [strip_zeros token])"
| "digit_tokens token (c # cs) =
     (if ascii_digit c then digit_tokens (token @ [c]) cs
      else if token \<noteq> [] then strip_zeros token # digit_tokens [] cs
      else digit_tokens [] cs)"

definition numeric_tokens_differ :: "string \<Rightarrow> string \<Rightarrow> bool" where
  "numeric_tokens_differ a b \<longleftrightarrow> a \<noteq> b \<and> sort (digit_tokens [] a) \<noteq> sort (digit_tokens [] b)"

section \<open>Ranking records\<close>

fun slug_loop :: "string \<Rightarrow> bool \<Rightarrow> string \<Rightarrow> string" where
  "slug_loop acc separator [] = acc"
| "slug_loop acc separator (c # cs) =
     (if ascii_alnum c
      then slug_loop ((if separator \<and> acc \<noteq> [] then acc @ ''_'' else acc) @ [c]) False cs
      else slug_loop acc True cs)"

definition id_prefixes :: "string \<Rightarrow> string list" where
  "id_prefixes source_file =
     (let normalized = slashes source_file;
          stem = (case rsplit_once (CHR ''.'') normalized of
                    Some (before, after) \<Rightarrow> if CHR ''/'' \<notin> set after then before else normalized
                  | None \<Rightarrow> normalized);
          segments = filter (\<lambda>s. s \<noteq> [])
                       (map (\<lambda>s. slug_loop [] False (lowercase s)) (split_on (CHR ''/'') stem))
      in map (\<lambda>start. join_with ''_'' (drop start segments)) [0..<length segments])"

definition defines_id :: "node \<Rightarrow> bool" where
  "defines_id n \<longleftrightarrow> n_id n \<noteq> [] \<and> n_source_file n \<noteq> []
     \<and> list_ex (\<lambda>p. n_id n = p \<or> starts_with (n_id n) (p @ ''_'')) (id_prefixes (n_source_file n))"

definition collision_rank :: "node \<Rightarrow> bool \<times> nat \<times> string \<times> string" where
  "collision_rank n = (\<not> defines_id n, length (n_label n), n_label n, n_source_file n)"

definition merge_missing_attributes :: "node \<Rightarrow> node \<Rightarrow> node" where
  "merge_missing_attributes survivor duplicate =
     survivor\<lparr>
       n_source_location := (case n_source_location survivor of
          None \<Rightarrow> n_source_location duplicate | Some l \<Rightarrow> Some l),
       n_community := (case n_community survivor of
          None \<Rightarrow> n_community duplicate | Some c \<Rightarrow> Some c),
       n_extra := fold (\<lambda>(key, value) extra.
            if key = ''_origin'' \<or> is_null value then extra
            else if (case bt_get extra key of None \<Rightarrow> True | Some v \<Rightarrow> is_null v)
            then bt_put key value extra else extra)
          (n_extra duplicate) (n_extra survivor)\<rparr>"

text \<open>The pattern \<open>_c\d+$\<close>.\<close>

definition chunk_suffix :: "string \<Rightarrow> bool" where
  "chunk_suffix s \<longleftrightarrow>
     (let rest = dropWhile ascii_digit (rev s)
      in ascii_digit (hd (rev s @ ''_'')) \<and> take 2 rest = ''c_'')"

text \<open>The winner of a group of indices, which is never empty.\<close>

definition pick_winner :: "nat list \<Rightarrow> node list \<Rightarrow> nat" where
  "pick_winner indices nodes =
     the (min_by_key (\<lambda>i. (chunk_suffix (n_id (nodes ! i)), utf8_len (n_id (nodes ! i)), i)) indices)"

definition strict_prefix_pair :: "string \<Rightarrow> string \<Rightarrow> bool" where
  "strict_prefix_pair l r =
     (if length l < length r then starts_with r l
      else if length r < length l then starts_with l r else False)"

definition file_anchored :: "node \<Rightarrow> bool" where
  "file_anchored n \<longleftrightarrow> n_file_type n = ''rationale'' \<or> n_file_type n = ''document''"

definition crossfile_file_anchored :: "node \<Rightarrow> node \<Rightarrow> bool" where
  "crossfile_file_anchored l r \<longleftrightarrow>
     n_source_file l \<noteq> n_source_file r \<and> (file_anchored l \<or> file_anchored r)"

definition preserves_declared_identity :: "node \<Rightarrow> bool" where
  "preserves_declared_identity n \<longleftrightarrow>
     n_file_type n = ''code''
     \<or> (case get_str (n_extra n) ''type'' of Some kind \<Rightarrow> starts_with kind ''document_'' | None \<Rightarrow> False)
     \<or> (case get_str (n_extra n) ''_origin'' of
          Some origin \<Rightarrow> origin = ''document_package'' \<or> origin = ''enrichment'' | None \<Rightarrow> False)
     \<or> get_str (n_extra n) ''diagram_format'' = Some ''graphviz'' \<and> bt_has (n_extra n) ''dot_id''"

definition shingle_similarity_sets :: "string list \<Rightarrow> string list \<Rightarrow> real" where
  "shingle_similarity_sets l r =
     (let union = card (set l \<union> set r)
      in if union = 0 then 1 else real (card (set l \<inter> set r)) / real union)"

section \<open>Identifier collisions\<close>

datatype diagnostic_level = Note | Warning

record dedup_diagnostic =
  d_level :: diagnostic_level
  d_node_id :: string
  d_kept_label :: string
  d_kept_source_file :: string
  d_dropped_label :: string
  d_dropped_source_file :: string

record entity_report =
  r_exact_merges :: nat
  r_fuzzy_merges :: nat
  r_source_endpoints_remapped :: nat
  r_target_endpoints_remapped :: nat
  r_self_loops_dropped :: nat
  r_diagnostics :: "dedup_diagnostic list"

text \<open>The identifiers in the order of their first record, and the records of one, by position.\<close>

definition id_order :: "node list \<Rightarrow> string list" where
  "id_order nodes = retain_first (\<lambda>i. i) {} (filter (\<lambda>i. i \<noteq> []) (map n_id nodes))"

definition id_group :: "node list \<Rightarrow> string \<Rightarrow> (nat \<times> node) list" where
  "id_group nodes i = filter (\<lambda>(_, n). n_id n = i) (enumerate 0 nodes)"

definition group_winner :: "(nat \<times> node) list \<Rightarrow> nat \<times> node" where
  "group_winner records = the (min_by_key (\<lambda>(_, n). collision_rank n) records)"

definition group_losers :: "(nat \<times> node) list \<Rightarrow> node list" where
  "group_losers records =
     sort_key collision_rank
       (map snd (filter (\<lambda>(position, _). position \<noteq> fst (group_winner records)) records))"

definition group_survivor :: "(nat \<times> node) list \<Rightarrow> node" where
  "group_survivor records =
     fold (\<lambda>loser survivor.
         if n_source_file survivor \<noteq> [] \<and> n_source_file survivor = n_source_file loser
         then merge_missing_attributes survivor loser else survivor)
       (group_losers records) (snd (group_winner records))"

definition collision_level :: "unicode \<Rightarrow> node \<Rightarrow> node \<Rightarrow> diagnostic_level option" where
  "collision_level u survivor loser =
     (if n_source_file loser = n_source_file survivor
      then if normalized_label u (n_label loser) = normalized_label u (n_label survivor)
           then None else Some Note
      else if defines_id survivor \<and> \<not> defines_id loser then None
      else Some Warning)"

definition group_diagnostics :: "unicode \<Rightarrow> string \<Rightarrow> (nat \<times> node) list \<Rightarrow> dedup_diagnostic list" where
  "group_diagnostics u i records =
     concat (map (\<lambda>loser.
        let survivor = group_survivor records
        in case collision_level u survivor loser of
             None \<Rightarrow> []
           | Some level \<Rightarrow>
               [\<lparr>d_level = level, d_node_id = i,
                 d_kept_label = n_label survivor, d_kept_source_file = n_source_file survivor,
                 d_dropped_label = n_label loser, d_dropped_source_file = n_source_file loser\<rparr>])
       (group_losers records))"

definition unique_records :: "node list \<Rightarrow> node list" where
  "unique_records nodes = map (\<lambda>i. group_survivor (id_group nodes i)) (id_order nodes)"

definition collision_diagnostics :: "unicode \<Rightarrow> node list \<Rightarrow> dedup_diagnostic list" where
  "collision_diagnostics u nodes =
     concat (map (\<lambda>i. group_diagnostics u i (id_group nodes i)) (id_order nodes))"

section \<open>The engine\<close>

datatype engine_error = SpansMultipleRepos

record engine_result =
  er_nodes :: "node list"
  er_edges :: "edge list"
  er_remap :: "(string, string) btree"
  er_report :: entity_report

definition repo_of :: "node \<Rightarrow> string option" where
  "repo_of n = (case get_str (n_extra n) ''repo'' of Some r \<Rightarrow> if r = [] then None else Some r | None \<Rightarrow> None)"

text \<open>The indices of the nodes that may be merged by label, grouped by their normalised label.\<close>

definition norm_groups :: "unicode \<Rightarrow> node list \<Rightarrow> (string, nat list) btree" where
  "norm_groups u nodes =
     group_on (\<lambda>i. let normalized = normalized_label u (n_label (nodes ! i))
                 in if preserves_declared_identity (nodes ! i) \<or> normalized = [] then None
                    else Some normalized)
       [0..<length nodes]"

definition group_by_file :: "node list \<Rightarrow> nat list \<Rightarrow> (string, nat list) btree" where
  "group_by_file nodes indices = group_on (\<lambda>i. Some (n_source_file (nodes ! i))) indices"

text \<open>The merges of one group: a winner with every index, counting the unions that join two classes.\<close>

definition merge_group :: "node list \<Rightarrow> nat list \<Rightarrow> uf \<times> nat \<Rightarrow> uf \<times> nat" where
  "merge_group nodes indices st = fold (counted uf_union (pick_winner indices nodes)) indices st"

definition merge_same_file :: "node list \<Rightarrow> nat list \<Rightarrow> uf \<times> nat \<Rightarrow> uf \<times> nat" where
  "merge_same_file nodes indices st =
     fold (\<lambda>(source_file, file_group) st.
         if source_file = [] \<or> length file_group \<le> 1 then st else merge_group nodes file_group st)
       (group_by_file nodes indices) st"

definition mergeable :: "unicode \<Rightarrow> node list \<Rightarrow> nat list \<Rightarrow> nat list" where
  "mergeable u nodes indices =
     sort_key (\<lambda>i. n_id (nodes ! i))
       (filter (\<lambda>i. n_file_type (nodes ! i) = ''concept'' \<and> n_source_file (nodes ! i) \<noteq> []
                  \<and> label_entropy u (n_label (nodes ! i)) \<ge> entropy_threshold) indices)"

definition merge_same_label :: "unicode \<Rightarrow> node list \<Rightarrow> nat list \<Rightarrow> uf \<times> nat \<Rightarrow> uf \<times> nat" where
  "merge_same_label u nodes indices st =
     (if length indices \<le> 1 then st
      else let st' = merge_same_file nodes indices st; ms = mergeable u nodes indices
           in if length ms > 1 then merge_group nodes ms st' else st')"

definition exact_phase :: "unicode \<Rightarrow> node list \<Rightarrow> uf \<times> nat" where
  "exact_phase u nodes =
     fold (\<lambda>(_, indices). merge_same_label u nodes indices) (norm_groups u nodes)
       (uf_new (length nodes), 0)"

text \<open>
  The candidates of the fuzzy phase, the first node of each normalised label; the pairs that share
  a shingle, through an inverted index; and the decision about a pair.
\<close>

fun fuzzy_candidates_from :: "unicode \<Rightarrow> node list \<Rightarrow> string set \<Rightarrow> nat list \<Rightarrow> nat list" where
  "fuzzy_candidates_from u nodes seen [] = []"
| "fuzzy_candidates_from u nodes seen (i # is) =
     (let normalized = normalized_label u (n_label (nodes ! i))
      in if preserves_declared_identity (nodes ! i) \<or> normalized = [] \<or> normalized \<in> seen
         then fuzzy_candidates_from u nodes seen is
         else if label_entropy u (n_label (nodes ! i)) \<ge> entropy_threshold
         then i # fuzzy_candidates_from u nodes (insert normalized seen) is
         else fuzzy_candidates_from u nodes (insert normalized seen) is)"

definition fuzzy_candidates :: "unicode \<Rightarrow> node list \<Rightarrow> nat list" where
  "fuzzy_candidates u nodes = fuzzy_candidates_from u nodes {} [0..<length nodes]"

definition node_shingles :: "unicode \<Rightarrow> node list \<Rightarrow> nat \<Rightarrow> string list" where
  "node_shingles u nodes i =
     shingles (filter (\<lambda>c. c \<noteq> CHR '' '') (normalized_label u (n_label (nodes ! i)))) 3"

definition index_shingle ::
  "nat \<Rightarrow> string \<Rightarrow> (string, nat list) btree \<times> (nat \<times> nat, unit) btree
   \<Rightarrow> (string, nat list) btree \<times> (nat \<times> nat, unit) btree" where
  "index_shingle index shingle st =
     (let (inverted, pairs) = st;
          priors = (case bt_get inverted shingle of None \<Rightarrow> [] | Some is \<Rightarrow> is)
      in (bt_put shingle (priors @ [index]) inverted,
          fold (\<lambda>prior. bt_put (prior, index) ()) priors pairs))"

definition candidate_pairs :: "unicode \<Rightarrow> node list \<Rightarrow> nat list \<Rightarrow> (nat \<times> nat) list" where
  "candidate_pairs u nodes candidates =
     bt_keys (snd (fold (\<lambda>index. fold (index_shingle index) (node_shingles u nodes index)) candidates ([], [])))"

definition pair_score :: "fuzzy \<Rightarrow> node \<Rightarrow> node \<Rightarrow> string \<Rightarrow> string \<Rightarrow> real" where
  "pair_score f l r lnorm rnorm =
     (if n_source_file l \<noteq> n_source_file r \<and> max (length lnorm) (length rnorm) \<ge> 12
      then f_jaro f lnorm rnorm else f_jaro_winkler f lnorm rnorm)"

definition pair_merges ::
  "unicode \<Rightarrow> fuzzy \<Rightarrow> (string, int) btree \<Rightarrow> node \<Rightarrow> node \<Rightarrow> bool" where
  "pair_merges u f communities l r =
     (let lnorm = normalized_label u (n_label l); rnorm = normalized_label u (n_label r);
          score = pair_score f l r lnorm rnorm
      in if is_variant_pair lnorm rnorm \<or> short_label_blocked f lnorm rnorm score \<or> strict_prefix_pair lnorm rnorm
            \<or> numeric_tokens_differ lnorm rnorm \<or> crossfile_file_anchored l r
         then False
         else (if bt_get communities (n_id l) \<noteq> None
                  \<and> bt_get communities (n_id l) = bt_get communities (n_id r)
                  \<and> min (length lnorm) (length rnorm) \<ge> 12
               then score + community_boost else score) \<ge> merge_threshold)"

definition fuzzy_step ::
  "unicode \<Rightarrow> fuzzy \<Rightarrow> (string, int) btree \<Rightarrow> node list \<Rightarrow> nat \<times> nat \<Rightarrow> uf \<times> nat \<Rightarrow> uf \<times> nat" where
  "fuzzy_step u f communities nodes pair st =
     (let (l, r) = pair; (p, merges) = st;
          (p1, rl) = uf_find p l; (p2, rr) = uf_find p1 r
      in if rl = rr then (p2, merges)
         else if shingle_similarity_sets (node_shingles u nodes l) (node_shingles u nodes r) < lsh_threshold
         then (p2, merges)
         else if pair_merges u f communities (nodes ! l) (nodes ! r)
         then let winner = pick_winner [l, r] nodes; loser = (if winner = l then r else l)
              in counted uf_union winner loser (p2, merges)
         else (p2, merges))"

definition fuzzy_phase ::
  "unicode \<Rightarrow> fuzzy \<Rightarrow> (string, int) btree \<Rightarrow> node list \<Rightarrow> uf \<Rightarrow> uf \<times> nat" where
  "fuzzy_phase u f communities nodes p =
     fold (fuzzy_step u f communities nodes)
       (candidate_pairs u nodes (fuzzy_candidates u nodes)) (p, 0)"

definition uf_components :: "uf \<Rightarrow> nat \<Rightarrow> (nat, nat list) btree" where
  "uf_components p n =
     snd (fold (\<lambda>i (p, m). let (p', r) = uf_find p i in (p', bt_update r [] (\<lambda>is. is @ [i]) m)) [0..<n] (p, []))"

definition component_remap :: "node list \<Rightarrow> (nat, nat list) btree \<Rightarrow> (string, string) btree" where
  "component_remap nodes components =
     fold (\<lambda>(_, indices) m.
         if length indices \<le> 1 then m
         else let winner = pick_winner indices nodes
              in fold (\<lambda>i m. if i \<noteq> winner then bt_put (n_id (nodes ! i)) (n_id (nodes ! winner)) m else m)
                   indices m)
       components []"

section \<open>Rewiring\<close>

fun resolve_steps :: "nat \<Rightarrow> (string, string) btree \<Rightarrow> string \<Rightarrow> string" where
  "resolve_steps 0 remap current = current"
| "resolve_steps (Suc k) remap current =
     (case bt_get remap current of
        None \<Rightarrow> current
      | Some next \<Rightarrow> if next = current then current else resolve_steps k remap next)"

definition resolve_endpoint :: "string \<Rightarrow> (string, string) btree \<Rightarrow> string" where
  "resolve_endpoint value remap = resolve_steps (Suc (length remap)) remap value"

definition set_if_present :: "string \<Rightarrow> string \<Rightarrow> jobject \<Rightarrow> jobject" where
  "set_if_present key value m = (if bt_has m key then bt_put key (JStr value) m else m)"

definition rewire_edge :: "(string, string) btree \<Rightarrow> edge \<Rightarrow> edge" where
  "rewire_edge remap e =
     (let s = resolve_endpoint (true_source e) remap; t = resolve_endpoint (true_target e) remap
      in e\<lparr>e_source := s, e_target := t,
           e_extra := set_if_present ''_tgt'' t (set_if_present ''_src'' s (e_extra e))\<rparr>)"

definition declared_self_loop :: "edge \<Rightarrow> bool" where
  "declared_self_loop e \<longleftrightarrow> true_source e = true_target e
     \<and> (get_str (e_extra e) ''diagram_format'' = Some ''graphviz''
        \<or> get_str (e_extra e) ''_origin'' = Some ''document_package'')"

definition drops_self_loop :: "(string, string) btree \<Rightarrow> edge \<Rightarrow> bool" where
  "drops_self_loop remap e \<longleftrightarrow>
     e_source (rewire_edge remap e) = e_target (rewire_edge remap e) \<and> \<not> declared_self_loop e"

definition rewire_edges :: "(string, string) btree \<Rightarrow> edge list \<Rightarrow> edge list" where
  "rewire_edges remap edges = map (rewire_edge remap) (filter (\<lambda>e. \<not> drops_self_loop remap e) edges)"

definition deduplicate_engine ::
  "unicode \<Rightarrow> fuzzy \<Rightarrow> node list \<Rightarrow> edge list \<Rightarrow> (string, int) btree \<Rightarrow> bool
   \<Rightarrow> engine_error + engine_result" where
  "deduplicate_engine u f nodes edges communities enforce_repo_guard =
     (if enforce_repo_guard \<and> length (remdups (List.map_filter repo_of nodes)) > 1
      then Inl SpansMultipleRepos
      else
        let unique_nodes = unique_records nodes;
            diagnostics = collision_diagnostics u nodes;
            n = length unique_nodes
        in if n \<le> 1
           then Inr \<lparr>er_nodes = unique_nodes, er_edges = edges, er_remap = [],
                     er_report = \<lparr>r_exact_merges = 0, r_fuzzy_merges = 0,
                       r_source_endpoints_remapped = 0, r_target_endpoints_remapped = 0,
                       r_self_loops_dropped = 0, r_diagnostics = diagnostics\<rparr>\<rparr>
           else
             let (p, exact) = exact_phase u unique_nodes;
                 (p', fuzzy) = fuzzy_phase u f communities unique_nodes p;
                 remap = component_remap unique_nodes (uf_components p' n)
             in Inr \<lparr>er_nodes = filter (\<lambda>n. \<not> bt_has remap (n_id n)) unique_nodes,
                     er_edges = rewire_edges remap edges,
                     er_remap = remap,
                     er_report = \<lparr>r_exact_merges = exact, r_fuzzy_merges = fuzzy,
                       r_source_endpoints_remapped =
                         length (filter (\<lambda>e. resolve_endpoint (true_source e) remap \<noteq> true_source e) edges),
                       r_target_endpoints_remapped =
                         length (filter (\<lambda>e. resolve_endpoint (true_target e) remap \<noteq> true_target e) edges),
                       r_self_loops_dropped = length (filter (drops_self_loop remap) edges),
                       r_diagnostics = diagnostics\<rparr>\<rparr>)"

section \<open>The graph-build integration\<close>

record dedup_report =
  dr_same_label_nodes_merged :: nat
  dr_fuzzy_label_nodes_merged :: nat
  dr_source_endpoints_remapped :: nat
  dr_target_endpoints_remapped :: nat
  dr_self_loops_dropped :: nat
  dr_duplicate_edges_dropped :: nat
  dr_hyperedge_members_remapped :: nat
  dr_hyperedge_duplicate_members_removed :: nat

definition edge_key :: "edge \<Rightarrow> string \<times> string \<times> string" where
  "edge_key e = (e_source e, e_target e, e_relation e)"

text \<open>The members of a hyperedge: rewired, how many changed, and how many were repeated.\<close>

definition rewire_members ::
  "(string, string) btree \<Rightarrow> json list \<Rightarrow> string list \<times> nat \<times> nat" where
  "rewire_members remap raw =
     (let strings = List.map_filter as_str raw;
          members = map (\<lambda>m. resolve_endpoint m remap) strings;
          kept = retain_first (\<lambda>m. m) {} members
      in (kept, length (filter (\<lambda>m. resolve_endpoint m remap \<noteq> m) strings),
          length members - length kept))"

definition rewire_hyperedge :: "(string, string) btree \<Rightarrow> json \<Rightarrow> json \<times> nat \<times> nat" where
  "rewire_hyperedge remap h =
     (case Option.bind (vget h ''nodes'') as_array of
        None \<Rightarrow> (h, 0, 0)
      | Some raw \<Rightarrow>
          let (members, remapped, removed) = rewire_members remap raw
          in (map_object (bt_put ''nodes'' (JArr (map JStr members))) h, remapped, removed))"

definition community_of :: "node \<Rightarrow> (string \<times> int) option" where
  "community_of n = map_option (\<lambda>c. (n_id n, c)) (n_community n)"

definition empty_engine_result :: engine_result where
  "empty_engine_result = \<lparr>er_nodes = [], er_edges = [], er_remap = [],
     er_report = \<lparr>r_exact_merges = 0, r_fuzzy_merges = 0, r_source_endpoints_remapped = 0,
       r_target_endpoints_remapped = 0, r_self_loops_dropped = 0, r_diagnostics = []\<rparr>\<rparr>"

text \<open>The call without the repository guard never fails (\<open>deduplicate_engine_unguarded\<close>).\<close>

definition deduplicate_with_report :: "unicode \<Rightarrow> fuzzy \<Rightarrow> graph \<Rightarrow> graph \<times> dedup_report" where
  "deduplicate_with_report u f g =
     (let communities = bt_of_list (List.map_filter community_of (g_nodes g));
          result = (case deduplicate_engine u f (g_nodes g) (g_links g) communities False of
                      Inr r \<Rightarrow> r | Inl _ \<Rightarrow> empty_engine_result);
          rewired = map (rewire_hyperedge (er_remap result)) (g_hyperedges g);
          links = retain_first edge_key {} (er_edges result);
          r = er_report result
      in (g\<lparr>g_nodes := er_nodes result, g_links := links, g_hyperedges := map fst rewired\<rparr>,
          \<lparr>dr_same_label_nodes_merged = r_exact_merges r,
           dr_fuzzy_label_nodes_merged = r_fuzzy_merges r,
           dr_source_endpoints_remapped = r_source_endpoints_remapped r,
           dr_target_endpoints_remapped = r_target_endpoints_remapped r,
           dr_self_loops_dropped = r_self_loops_dropped r,
           dr_duplicate_edges_dropped = length (er_edges result) - length links,
           dr_hyperedge_members_remapped = sum_list (map (fst \<circ> snd) rewired),
           dr_hyperedge_duplicate_members_removed = sum_list (map (snd \<circ> snd) rewired)\<rparr>))"

definition deduplicate :: "unicode \<Rightarrow> fuzzy \<Rightarrow> graph \<Rightarrow> graph \<times> nat" where
  "deduplicate u f g =
     (let (g', r) = deduplicate_with_report u f g
      in (g', dr_same_label_nodes_merged r + dr_fuzzy_label_nodes_merged r))"

definition deduplicate_entities ::
  "unicode \<Rightarrow> fuzzy \<Rightarrow> node list \<Rightarrow> edge list \<Rightarrow> (string, int) btree
   \<Rightarrow> engine_error + (node list \<times> edge list \<times> entity_report)" where
  "deduplicate_entities u f nodes edges communities =
     (case deduplicate_engine u f nodes edges communities True of
        Inl err \<Rightarrow> Inl err
      | Inr r \<Rightarrow> Inr (er_nodes r, er_edges r, er_report r))"


section \<open>The records that survive identifier collisions\<close>

lemma merge_missing_keeps [simp]:
  "n_id (merge_missing_attributes s d) = n_id s"
  "n_source_file (merge_missing_attributes s d) = n_source_file s"
  "n_label (merge_missing_attributes s d) = n_label s"
  "n_file_type (merge_missing_attributes s d) = n_file_type s"
  by (simp_all add: merge_missing_attributes_def)

lemma fold_survivor_id:
  "n_id (fold (\<lambda>loser survivor.
         if n_source_file survivor \<noteq> [] \<and> n_source_file survivor = n_source_file loser
         then merge_missing_attributes survivor loser else survivor) ls s) = n_id s"
  by (induction ls arbitrary: s) auto

lemma group_winner_mem: "g \<noteq> [] \<Longrightarrow> group_winner g \<in> set g"
  unfolding group_winner_def by (cases "min_by_key (\<lambda>(_, n). collision_rank n) g") (auto dest: min_by_key_mem)

lemma id_group_member: "(p, n) \<in> set (id_group nodes i) \<Longrightarrow> n_id n = i"
  by (auto simp: id_group_def)

lemma id_group_nonempty: "i \<in> n_id ` set nodes \<Longrightarrow> id_group nodes i \<noteq> []"
proof -
  assume "i \<in> n_id ` set nodes"
  then obtain k where k: "k < length nodes" "n_id (nodes ! k) = i" by (auto simp: in_set_conv_nth)
  then have "(k, nodes ! k) \<in> set (enumerate 0 nodes)" by (simp add: in_set_enumerate_eq)
  then have "(k, nodes ! k) \<in> set (id_group nodes i)" using k by (simp add: id_group_def)
  then show ?thesis by auto
qed

lemma set_id_order: "set (id_order nodes) = {i. i \<noteq> [] \<and> i \<in> n_id ` set nodes}"
  using retain_first_keys [of "\<lambda>i. i" "{}" "filter (\<lambda>i. i \<noteq> []) (map n_id nodes)"]
  by (auto simp: id_order_def)

lemma distinct_id_order: "distinct (id_order nodes)"
  using retain_first_distinct [of "\<lambda>i. i"] by (simp add: id_order_def)

lemma ids_unique_records: "map n_id (unique_records nodes) = id_order nodes"
proof -
  have "n_id (group_survivor (id_group nodes i)) = i" if "i \<in> set (id_order nodes)" for i
  proof -
    have "id_group nodes i \<noteq> []" using that by (simp add: set_id_order id_group_nonempty)
    then have "group_winner (id_group nodes i) \<in> set (id_group nodes i)" by (rule group_winner_mem)
    then have "n_id (snd (group_winner (id_group nodes i))) = i"
      using id_group_member [of "fst (group_winner (id_group nodes i))"] by simp
    then show ?thesis by (simp add: group_survivor_def fold_survivor_id)
  qed
  then show ?thesis by (simp add: unique_records_def map_idI)
qed

section \<open>The forest through the two phases\<close>

abbreviation mergeable_set :: "node list \<Rightarrow> nat set" where
  "mergeable_set nodes \<equiv> {i. i < length nodes \<and> \<not> preserves_declared_identity (nodes ! i)}"

abbreviation merging :: "node list \<Rightarrow> nat \<Rightarrow> uf \<times> nat \<Rightarrow> bool" where
  "merging nodes c st \<equiv> forest.merged_ok (length nodes) (mergeable_set nodes) c st"

lemma pick_winner_mem: "is \<noteq> [] \<Longrightarrow> pick_winner is nodes \<in> set is"
  unfolding pick_winner_def
  by (cases "min_by_key (\<lambda>i. (chunk_suffix (n_id (nodes ! i)), utf8_len (n_id (nodes ! i)), i)) is")
    (auto dest: min_by_key_mem)

lemma merge_group_ok:
  assumes "merging nodes c st" and "is \<noteq> []" and "set is \<subseteq> mergeable_set nodes"
  shows "merging nodes c (merge_group nodes is st)"
proof -
  have "pick_winner is nodes \<in> mergeable_set nodes" using pick_winner_mem assms(2,3) by blast
  then show ?thesis
    unfolding merge_group_def using assms(1,3) by (intro forest.counted_all_ok) auto
qed

lemma merge_same_file_ok:
  assumes "merging nodes c st" and "set is \<subseteq> mergeable_set nodes"
  shows "merging nodes c (merge_same_file nodes is st)"
proof -
  have e: "g \<noteq> [] \<and> set g \<subseteq> mergeable_set nodes" if "(k, g) \<in> set (group_by_file nodes is)" for k g
    using that group_on_bounds [of k g _ "is"] assms(2) unfolding group_by_file_def by (auto simp: group_on_entry)
  show ?thesis
    unfolding merge_same_file_def
  proof (rule fold_invariant [where Q = "\<lambda>kg. kg \<in> set (group_by_file nodes is)" and P = "merging nodes c"])
    fix kg s
    assume kg: "kg \<in> set (group_by_file nodes is)" and s: "merging nodes c s"
    obtain k g where "kg = (k, g)" by fastforce
    then show "merging nodes c ((\<lambda>(source_file, file_group) st.
        if source_file = [] \<or> length file_group \<le> 1 then st else merge_group nodes file_group st) kg s)"
      using e kg s merge_group_ok [of nodes c s g] by simp
  qed (use assms(1) in auto)
qed

lemma mergeable_subset: "set (mergeable u nodes is) \<subseteq> set is"
  by (auto simp: mergeable_def)

lemma merge_same_label_ok:
  assumes "merging nodes c st" and "set is \<subseteq> mergeable_set nodes"
  shows "merging nodes c (merge_same_label u nodes is st)"
proof -
  have "set (mergeable u nodes is) \<subseteq> mergeable_set nodes" using mergeable_subset assms(2) by blast
  then have "merging nodes c (merge_group nodes (mergeable u nodes is) (merge_same_file nodes is st))"
    if "length (mergeable u nodes is) > 1"
    using that by (intro merge_group_ok merge_same_file_ok assms) auto
  then show ?thesis
    using merge_same_file_ok [OF assms] assms(1) by (simp add: merge_same_label_def Let_def)
qed

lemma norm_groups_subset:
  "(k, is) \<in> set (norm_groups u nodes) \<Longrightarrow> set is \<subseteq> mergeable_set nodes"
  unfolding norm_groups_def by (auto simp: group_on_entry Let_def split: if_splits)

lemma exact_phase_ok: "merging nodes (length nodes) (exact_phase u nodes)"
proof -
  have start: "merging nodes (length nodes) (uf_new (length nodes), 0)"
    by (simp add: forest.merged_ok_def uf_sound_new card_roots_new)
  show ?thesis
    unfolding exact_phase_def
  proof (rule fold_invariant [where Q = "\<lambda>kg. kg \<in> set (norm_groups u nodes)" and P = "merging nodes (length nodes)"])
    fix kg s
    assume "kg \<in> set (norm_groups u nodes)" and "merging nodes (length nodes) s"
    then show "merging nodes (length nodes) ((\<lambda>(_, indices). merge_same_label u nodes indices) kg s)"
      using norm_groups_subset [of "fst kg" "snd kg" u nodes]
      by (simp add: split_def merge_same_label_ok)
  qed (use start in auto)
qed

lemma fuzzy_candidates_from_sub:
  "set (fuzzy_candidates_from u nodes seen is) \<subseteq> {i \<in> set is. \<not> preserves_declared_identity (nodes ! i)}"
  by (induction "is" arbitrary: seen) (auto simp: Let_def)

lemma fuzzy_candidates_subset: "set (fuzzy_candidates u nodes) \<subseteq> mergeable_set nodes"
  using fuzzy_candidates_from_sub [of u nodes "{}" "[0..<length nodes]"] by (auto simp: fuzzy_candidates_def)

lemma sorted_candidates_from:
  "sorted_wrt (<) is \<Longrightarrow> sorted_wrt (<) (fuzzy_candidates_from u nodes seen is)"
proof (induction "is" arbitrary: seen)
  case (Cons i "is")
  then show ?case using fuzzy_candidates_from_sub [of u nodes _ "is"] by (fastforce simp: Let_def)
qed simp

lemma sorted_fuzzy_candidates: "sorted_wrt (<) (fuzzy_candidates u nodes)"
  unfolding fuzzy_candidates_def by (rule sorted_candidates_from) simp

section \<open>The inverted index finds every similar pair\<close>

definition priors :: "(string, nat list) btree \<Rightarrow> string \<Rightarrow> nat list" where
  "priors inverted s = (case bt_get inverted s of None \<Rightarrow> [] | Some is \<Rightarrow> is)"

lemma fold_put_keys: "fst ` set (fold (\<lambda>prior. bt_put (prior, index) ()) ps pairs) =
    fst ` set pairs \<union> (\<lambda>p. (p, index)) ` set ps"
  by (induction ps arbitrary: pairs) auto

lemma index_shingles:
  "distinct ss \<Longrightarrow>
   (\<forall>s. priors (fst (fold (index_shingle index) ss (inverted, pairs))) s =
        priors inverted s @ (if s \<in> set ss then [index] else []))
   \<and> fst ` set (snd (fold (index_shingle index) ss (inverted, pairs))) =
       fst ` set pairs \<union> {(p, index) | p s. s \<in> set ss \<and> p \<in> set (priors inverted s)}"
proof (induction ss arbitrary: inverted pairs)
  case Nil
  then show ?case by simp
next
  case (Cons s ss)
  define i1 where i1: "i1 = bt_put s (priors inverted s @ [index]) inverted"
  define p1 where p1: "p1 = fold (\<lambda>prior. bt_put (prior, index) ()) (priors inverted s) pairs"
  have step: "index_shingle index s (inverted, pairs) = (i1, p1)"
    by (simp add: index_shingle_def i1 p1 priors_def Let_def)
  have pr: "priors i1 t = (if t = s then priors inverted s @ [index] else priors inverted t)" for t
    by (simp add: i1 priors_def)
  have IH: "(\<forall>t. priors (fst (fold (index_shingle index) ss (i1, p1))) t =
        priors i1 t @ (if t \<in> set ss then [index] else []))
      \<and> fst ` set (snd (fold (index_shingle index) ss (i1, p1))) =
        fst ` set p1 \<union> {(p, index) | p t. t \<in> set ss \<and> p \<in> set (priors i1 t)}"
    using Cons by simp
  have "{(p, index) | p t. t \<in> set ss \<and> p \<in> set (priors i1 t)} =
      {(p, index) | p t. t \<in> set ss \<and> p \<in> set (priors inverted t)}"
    using Cons.prems by (auto simp: pr)
  then show ?case
    using IH Cons.prems by (auto simp: step pr p1 fold_put_keys)
qed

lemma distinct_shingles: "distinct (shingles s k)"
  by (simp add: shingles_def bt_wf_distinct)

lemma shingles_nonempty: "shingles s k \<noteq> []"
proof -
  have "bt_has (bt_of_list (map (\<lambda>start. (take k (drop start s), ())) [0..<Suc (length s - k)])) (take k (drop 0 s))"
    unfolding bt_has_of_list by (force simp: image_iff)
  then show ?thesis by (auto simp: shingles_def)
qed

definition shares_shingle :: "unicode \<Rightarrow> node list \<Rightarrow> nat \<Rightarrow> nat \<Rightarrow> bool" where
  "shares_shingle u nodes a b \<longleftrightarrow> set (node_shingles u nodes a) \<inter> set (node_shingles u nodes b) \<noteq> {}"

lemma index_candidates:
  defines "F \<equiv> \<lambda>u nodes. fold (\<lambda>index. fold (index_shingle index) (node_shingles u nodes index))"
  shows "(\<forall>s. priors (fst (F u nodes cs ([], []))) s = filter (\<lambda>c. s \<in> set (node_shingles u nodes c)) cs)
    \<and> fst ` set (snd (F u nodes cs ([], []))) =
        {(a, b). \<exists>k < length cs. b = cs ! k \<and> a \<in> set (take k cs) \<and> shares_shingle u nodes a b}"
proof (induction cs rule: rev_induct)
  case Nil
  then show ?case by (simp add: F_def priors_def)
next
  case (snoc c cs)
  obtain inv pairs where f: "F u nodes cs ([], []) = (inv, pairs)" by fastforce
  have IH: "priors inv s = filter (\<lambda>c. s \<in> set (node_shingles u nodes c)) cs"
    "fst ` set pairs = {(a, b). \<exists>k < length cs. b = cs ! k \<and> a \<in> set (take k cs) \<and> shares_shingle u nodes a b}" for s
    using snoc.IH by (simp_all add: f)
  have new: "{(p, c) | p s. s \<in> set (node_shingles u nodes c) \<and> p \<in> set (priors inv s)} =
      {(a, b). b = c \<and> a \<in> set cs \<and> shares_shingle u nodes a b}"
    by (auto simp: IH(1) shares_shingle_def)
  have old: "{(a, b). \<exists>k < length (cs @ [c]). b = (cs @ [c]) ! k \<and> a \<in> set (take k (cs @ [c])) \<and> shares_shingle u nodes a b} =
      {(a, b). \<exists>k < length cs. b = cs ! k \<and> a \<in> set (take k cs) \<and> shares_shingle u nodes a b}
      \<union> {(a, b). b = c \<and> a \<in> set cs \<and> shares_shingle u nodes a b}"
  proof -
    have "(\<exists>k < length (cs @ [c]). b = (cs @ [c]) ! k \<and> a \<in> set (take k (cs @ [c])) \<and> S) \<longleftrightarrow>
        (b = c \<and> a \<in> set cs \<and> S) \<or> (\<exists>k < length cs. b = cs ! k \<and> a \<in> set (take k cs) \<and> S)" for a b S
      by (simp add: Ex_less_Suc nth_append cong: conj_cong)
    then show ?thesis by (simp only:) blast
  qed
  have "distinct (node_shingles u nodes c)" by (simp add: node_shingles_def distinct_shingles)
  note i = index_shingles [OF this, of c inv pairs]
  have F: "F u nodes (cs @ [c]) ([], []) = fold (index_shingle c) (node_shingles u nodes c) (inv, pairs)"
    using f by (simp add: F_def)
  have "priors (fst (F u nodes (cs @ [c]) ([], []))) s =
      filter (\<lambda>c. s \<in> set (node_shingles u nodes c)) (cs @ [c])" for s
    using conjunct1 [OF i, rule_format, of s] by (simp add: F IH(1))
  moreover have "fst ` set (snd (F u nodes (cs @ [c]) ([], []))) =
      {(a, b). \<exists>k < length (cs @ [c]). b = (cs @ [c]) ! k \<and> a \<in> set (take k (cs @ [c])) \<and> shares_shingle u nodes a b}"
    unfolding old F conjunct2 [OF i] new IH(2) ..
  ultimately show ?case by blast
qed

lemma candidate_pairs_set:
  "set (candidate_pairs u nodes cs) =
     {(a, b). \<exists>k < length cs. b = cs ! k \<and> a \<in> set (take k cs) \<and> shares_shingle u nodes a b}"
  using index_candidates [of u nodes cs] by (simp add: candidate_pairs_def)

lemma candidate_pairs_members: "(a, b) \<in> set (candidate_pairs u nodes cs) \<Longrightarrow> a \<in> set cs \<and> b \<in> set cs"
  by (auto simp: candidate_pairs_set dest: in_set_takeD)

lemma similar_shares:
  assumes "shingle_similarity_sets (node_shingles u nodes a) (node_shingles u nodes b) \<ge> lsh_threshold"
  shows "shares_shingle u nodes a b"
proof (rule ccontr)
  assume "\<not> shares_shingle u nodes a b"
  then have "set (node_shingles u nodes a) \<inter> set (node_shingles u nodes b) = {}"
    by (simp add: shares_shingle_def)
  moreover have "set (node_shingles u nodes a) \<noteq> {}" by (simp add: node_shingles_def shingles_nonempty)
  ultimately have "shingle_similarity_sets (node_shingles u nodes a) (node_shingles u nodes b) = 0"
    by (simp add: shingle_similarity_sets_def Let_def card_eq_0_iff)
  then show False using assms by (simp add: lsh_threshold_def)
qed

text \<open>
  C4: Blocking by shared shingles loses no decision: the pairs the fuzzy phase looks at contain every
  pair of candidates whose shingle similarity reaches the threshold, and every pair is of two
  candidates, the earlier first.
\<close>

theorem shingle_blocking_complete:
  "{(a, b). a \<in> set (fuzzy_candidates u nodes) \<and> b \<in> set (fuzzy_candidates u nodes) \<and> a < b
       \<and> shingle_similarity_sets (node_shingles u nodes a) (node_shingles u nodes b) \<ge> lsh_threshold}
   = {(a, b) \<in> set (candidate_pairs u nodes (fuzzy_candidates u nodes)).
        shingle_similarity_sets (node_shingles u nodes a) (node_shingles u nodes b) \<ge> lsh_threshold}"
proof -
  let ?cs = "fuzzy_candidates u nodes"
  have mono: "?cs ! i < ?cs ! j" if "i < j" "j < length ?cs" for i j
    using sorted_fuzzy_candidates [of u nodes] that by (simp add: sorted_wrt_iff_nth_less)
  have less: "(\<exists>k < length ?cs. b = ?cs ! k \<and> a \<in> set (take k ?cs)) \<longleftrightarrow> a \<in> set ?cs \<and> b \<in> set ?cs \<and> a < b" for a b
  proof
    assume "\<exists>k < length ?cs. b = ?cs ! k \<and> a \<in> set (take k ?cs)"
    then obtain k i where "k < length ?cs" "b = ?cs ! k" "i < k" "a = ?cs ! i"
      by (auto simp: in_set_conv_nth)
    then show "a \<in> set ?cs \<and> b \<in> set ?cs \<and> a < b" using mono [of i k] by simp
  next
    assume ab: "a \<in> set ?cs \<and> b \<in> set ?cs \<and> a < b"
    then obtain i k where k: "i < length ?cs" "a = ?cs ! i" "k < length ?cs" "b = ?cs ! k"
      by (auto simp: in_set_conv_nth)
    then have "i < k" using ab mono [of k i] by (cases i k rule: linorder_cases) auto
    then have "a \<in> set (take k ?cs)" using k by (auto simp: in_set_conv_nth)
    then show "\<exists>k < length ?cs. b = ?cs ! k \<and> a \<in> set (take k ?cs)" using k by blast
  qed
  have "(a, b) \<in> set (candidate_pairs u nodes ?cs) \<longleftrightarrow>
      a \<in> set ?cs \<and> b \<in> set ?cs \<and> a < b \<and> shares_shingle u nodes a b" for a b
    using less [of b a] by (simp add: candidate_pairs_set) blast
  then show ?thesis using similar_shares by fast
qed

section \<open>Nodes are conserved\<close>

text \<open>The root of an element, and the winner of its class.\<close>

definition rep :: "uf \<Rightarrow> nat \<Rightarrow> nat" where
  "rep p i = snd (uf_find p i)"

lemma rep_root: "uf_ok p \<Longrightarrow> i < length p \<Longrightarrow> root_of p i (rep p i)"
  unfolding uf_ok_def rep_def by (elim exE) (drule (1) uf_find_correct, auto)

lemma rep_eq: "uf_ok p \<Longrightarrow> i < length p \<Longrightarrow> root_of p i r \<Longrightarrow> rep p i = r"
  using rep_root root_of_det by blast

lemma uf_find_sound:
  assumes "uf_sound n S p" and "v < n"
  shows "uf_sound n S (fst (uf_find p v))" and "uf_roots (fst (uf_find p v)) = uf_roots p"
proof -
  obtain d where "uf_forest d p" "length p = n" using assms(1) by (auto simp: uf_sound_def uf_ok_def)
  then obtain q r where q: "uf_find p v = (q, r)" "length q = n" "uf_forest d q"
    "\<And>x y. root_of q x y \<longleftrightarrow> root_of p x y"
    using uf_find_correct [of d p v] assms(2) by auto
  then show "uf_sound n S (fst (uf_find p v))"
    using assms(1) by (auto simp: uf_sound_def uf_ok_def)
  show "uf_roots (fst (uf_find p v)) = uf_roots p"
    unfolding uf_roots_alt by (simp add: q)
qed

lemma merged_ok_find:
  "forest.merged_ok n S c (p, k) \<Longrightarrow> v < n \<Longrightarrow> forest.merged_ok n S c (fst (uf_find p v), k)"
  using uf_find_sound [of n S p v] by (simp add: forest.merged_ok_def)

lemma fuzzy_step_ok:
  assumes m: "merging nodes c st" and a: "a \<in> mergeable_set nodes" and b: "b \<in> mergeable_set nodes"
  shows "merging nodes c (fuzzy_step u f communities nodes (a, b) st)"
proof -
  obtain p k where st: "st = (p, k)" by fastforce
  define p1 where p1: "p1 = fst (uf_find p a)"
  define p2 where p2: "p2 = fst (uf_find p1 b)"
  have m2: "merging nodes c (p2, k)"
    unfolding p2 p1 using m a b by (intro merged_ok_find) (simp_all add: st)
  have "pick_winner [a, b] nodes \<in> {a, b}" using pick_winner_mem [of "[a, b]" nodes] by simp
  then have "merging nodes c (counted uf_union (pick_winner [a, b] nodes)
      (if pick_winner [a, b] nodes = a then b else a) (p2, k))"
    using a b by (intro forest.counted_ok [OF m2]) auto
  with m2 show ?thesis
    unfolding st fuzzy_step_def p2 p1
    by (cases "pick_winner [a, b] nodes = a") (simp_all add: Let_def split_def)
qed

lemma fuzzy_phase_ok:
  assumes "merging nodes c (p, 0)"
  shows "merging nodes c (fuzzy_phase u f communities nodes p)"
  unfolding fuzzy_phase_def
proof (rule fold_invariant [where P = "merging nodes c"
      and Q = "\<lambda>ab. ab \<in> set (candidate_pairs u nodes (fuzzy_candidates u nodes))"])
  fix ab s
  assume ab: "ab \<in> set (candidate_pairs u nodes (fuzzy_candidates u nodes))" and m: "merging nodes c s"
  obtain a b where e: "ab = (a, b)" by fastforce
  have "a \<in> mergeable_set nodes" "b \<in> mergeable_set nodes"
    using candidate_pairs_members [of a b u nodes "fuzzy_candidates u nodes"] ab
      subsetD [OF fuzzy_candidates_subset] unfolding e by blast+
  then show "merging nodes c (fuzzy_step u f communities nodes ab s)"
    unfolding e by (intro fuzzy_step_ok m)
qed (use assms in auto)

text \<open>The forest after both phases: sound, and one class fewer for every merge counted.\<close>

lemma both_phases:
  assumes "exact_phase u nodes = (p, exact)" and "fuzzy_phase u f communities nodes p = (p', fz)"
  shows "uf_sound (length nodes) (mergeable_set nodes) p'"
    and "card (uf_roots p') + exact + fz = length nodes"
proof -
  have "merging nodes (length nodes) (p, exact)" using exact_phase_ok [of nodes u] assms(1) by simp
  then have e: "card (uf_roots p) + exact = length nodes" and "merging nodes (card (uf_roots p)) (p, 0)"
    by (simp_all add: forest.merged_ok_def)
  then have "merging nodes (card (uf_roots p)) (p', fz)"
    using fuzzy_phase_ok [of nodes "card (uf_roots p)" p u f communities] assms(2) by simp
  then show "uf_sound (length nodes) (mergeable_set nodes) p'"
    and "card (uf_roots p') + exact + fz = length nodes"
    using e by (auto simp: forest.merged_ok_def)
qed

lemma components_fold:
  assumes "uf_ok p" and "length p = n" and "\<forall>i \<in> set is. i < n"
    and "uf_ok q" "length q = n" "\<And>x y. root_of q x y \<longleftrightarrow> root_of p x y"
  shows "snd (fold (\<lambda>i (p, m). let (p', r) = uf_find p i in (p', bt_update r [] (\<lambda>is. is @ [i]) m)) is (q, m)) =
      fold (\<lambda>i. bt_update (rep p i) [] (\<lambda>is. is @ [i])) is m"
  using assms(3-6)
proof (induction "is" arbitrary: q m)
  case Nil
  then show ?case by simp
next
  case (Cons i "is")
  obtain d where d: "uf_forest d q" using Cons.prems(2) by (auto simp: uf_ok_def)
  obtain q' r where q': "uf_find q i = (q', r)" "root_of q i r" "length q' = n" "uf_forest d q'"
    "\<And>x y. root_of q' x y \<longleftrightarrow> root_of q x y"
    using uf_find_correct [OF d, of i] Cons.prems by auto
  have "rep p i = r" using rep_eq [OF assms(1)] q'(2) Cons.prems assms(2) by simp
  moreover have "uf_ok q'" using q'(4) by (auto simp: uf_ok_def)
  ultimately show ?case
    using Cons.IH [of q' "bt_update r [] (\<lambda>is. is @ [i]) m"] Cons.prems q' by simp
qed

lemma components_group:
  assumes "uf_ok p" and "length p = n"
  shows "uf_components p n = group_on (\<lambda>i. Some (rep p i)) [0..<n]"
  unfolding uf_components_def group_on_def
  by (subst components_fold [OF assms]) (use assms in auto)

definition class_winner :: "uf \<Rightarrow> node list \<Rightarrow> nat \<Rightarrow> nat" where
  "class_winner p nodes i = pick_winner (filter (\<lambda>j. rep p j = rep p i) [0..<length nodes]) nodes"

lemma class_winner_facts:
  assumes "i < length nodes"
  shows "class_winner p nodes i < length nodes" and "rep p (class_winner p nodes i) = rep p i"
    and "class_winner p nodes (class_winner p nodes i) = class_winner p nodes i"
proof -
  have "filter (\<lambda>j. rep p j = rep p i) [0..<length nodes] \<noteq> []"
    using assms by (auto simp: filter_empty_conv)
  from pick_winner_mem [OF this, of nodes]
  show a: "class_winner p nodes i < length nodes" and b: "rep p (class_winner p nodes i) = rep p i"
    by (auto simp: class_winner_def)
  then show "class_winner p nodes (class_winner p nodes i) = class_winner p nodes i"
    by (simp add: class_winner_def [of p nodes "class_winner p nodes i"]) (simp add: class_winner_def)
qed

text \<open>The remapping as one list of entries.\<close>

definition group_entries :: "node list \<Rightarrow> nat list \<Rightarrow> (string \<times> string) list" where
  "group_entries nodes indices =
     map (\<lambda>i. (n_id (nodes ! i), n_id (nodes ! pick_winner indices nodes)))
       (filter (\<lambda>i. i \<noteq> pick_winner indices nodes) indices)"

lemma group_entries_short: "length is \<le> 1 \<Longrightarrow> is \<noteq> [] \<Longrightarrow> group_entries nodes is = []"
proof -
  assume "length is \<le> 1" "is \<noteq> []"
  then obtain i where "is = [i]" by (cases "is") auto
  then show ?thesis using pick_winner_mem [of "[i]" nodes] by (simp add: group_entries_def)
qed

lemma fold_group_entries:
  "fold (\<lambda>i m. if i \<noteq> w then bt_put (k i) (v i) m else m) is m =
   fold (\<lambda>(a, b). bt_put a b) (map (\<lambda>i. (k i, v i)) (filter (\<lambda>i. i \<noteq> w) is)) m"
  by (induction "is" arbitrary: m) auto

lemma component_remap_entries:
  assumes "\<forall>(k, is) \<in> set comps. is \<noteq> []"
  shows "component_remap nodes comps =
    fold (\<lambda>(a, b). bt_put a b) (concat (map (\<lambda>(_, is). group_entries nodes is) comps)) []"
proof -
  define F where F: "F = (\<lambda>(_ :: nat, indices) m. if length indices \<le> 1 then m
         else let winner = pick_winner indices nodes
              in fold (\<lambda>i m. if i \<noteq> winner then bt_put (n_id (nodes ! i)) (n_id (nodes ! winner)) m else m)
                   indices m)"
  have step: "F (k, is) m = fold (\<lambda>(a, b). bt_put a b) (group_entries nodes is) m" if "is \<noteq> []" for k "is" m
  proof (cases "length is \<le> 1")
    case True
    then show ?thesis using group_entries_short [OF True that] by (simp add: F)
  next
    case False
    then show ?thesis unfolding F by (simp add: Let_def fold_group_entries group_entries_def)
  qed
  have "fold F comps m = fold (\<lambda>(a, b). bt_put a b) (concat (map (\<lambda>(_, is). group_entries nodes is) comps)) m" for m
    using assms by (induction comps arbitrary: m) (auto simp: step)
  then show ?thesis by (simp add: component_remap_def F)
qed

lemma map_of_single_valued:
  "(\<And>y z. (x, y) \<in> set l \<Longrightarrow> (x, z) \<in> set l \<Longrightarrow> y = z) \<Longrightarrow> map_of l x = Some y \<longleftrightarrow> (x, y) \<in> set l"
  by (metis map_of_SomeD not_None_eq weak_map_of_SomeI)

lemma component_remap_get:
  assumes ok: "uf_ok p" "length p = length nodes" and d: "distinct (map n_id nodes)"
  shows "bt_get (component_remap nodes (uf_components p (length nodes))) x = Some y \<longleftrightarrow>
    (\<exists>i < length nodes. class_winner p nodes i \<noteq> i \<and> x = n_id (nodes ! i)
       \<and> y = n_id (nodes ! class_winner p nodes i))"
proof -
  let ?comps = "uf_components p (length nodes)"
  let ?L = "concat (map (\<lambda>(_, is). group_entries nodes is) ?comps)"
  have comps: "(k, is) \<in> set ?comps \<longleftrightarrow> is = filter (\<lambda>i. rep p i = k) [0..<length nodes] \<and> is \<noteq> []" for k "is"
    unfolding components_group [OF ok] group_on_entry by simp
  have mem: "(x, y) \<in> set ?L \<longleftrightarrow> (\<exists>i < length nodes. class_winner p nodes i \<noteq> i \<and> x = n_id (nodes ! i)
       \<and> y = n_id (nodes ! class_winner p nodes i))" for x y
  proof
    assume "(x, y) \<in> set ?L"
    then obtain k "is" where k: "(k, is) \<in> set ?comps" "(x, y) \<in> set (group_entries nodes is)" by auto
    then obtain i where i: "i \<in> set is" "i \<noteq> pick_winner is nodes" "x = n_id (nodes ! i)"
      "y = n_id (nodes ! pick_winner is nodes)" by (auto simp: group_entries_def)
    have "is = filter (\<lambda>j. rep p j = rep p i) [0..<length nodes]" using k(1) i(1) by (auto simp: comps)
    then have "pick_winner is nodes = class_winner p nodes i" by (simp add: class_winner_def)
    moreover have "i < length nodes" using k(1) i(1) by (auto simp: comps)
    ultimately show "\<exists>i < length nodes. class_winner p nodes i \<noteq> i \<and> x = n_id (nodes ! i)
       \<and> y = n_id (nodes ! class_winner p nodes i)" using i by metis
  next
    assume "\<exists>i < length nodes. class_winner p nodes i \<noteq> i \<and> x = n_id (nodes ! i)
       \<and> y = n_id (nodes ! class_winner p nodes i)"
    then obtain i where i: "i < length nodes" "class_winner p nodes i \<noteq> i" "x = n_id (nodes ! i)"
       "y = n_id (nodes ! class_winner p nodes i)" by blast
    let ?is = "filter (\<lambda>j. rep p j = rep p i) [0..<length nodes]"
    have "i \<in> set ?is" using i(1) by simp
    then have "?is \<noteq> []" by (metis empty_iff empty_set)
    then have "(rep p i, ?is) \<in> set ?comps" using comps by blast
    moreover have "(x, y) \<in> set (group_entries nodes ?is)"
      using i \<open>i \<in> set ?is\<close> by (auto simp: group_entries_def class_winner_def)
    ultimately show "(x, y) \<in> set ?L" by force
  qed
  have "\<forall>(k, is) \<in> set ?comps. is \<noteq> []" using comps by auto
  then have "bt_get (component_remap nodes ?comps) = map_of (rev ?L)"
    by (simp add: component_remap_entries bt.get_put_all)
  moreover have "y = z" if "(x, y) \<in> set ?L" "(x, z) \<in> set ?L" for x y z
    using that d unfolding mem by (auto simp: distinct_conv_nth)
  then have "map_of (rev ?L) x = Some y \<longleftrightarrow> (x, y) \<in> set ?L"
    by (subst map_of_single_valued) auto
  ultimately show ?thesis unfolding mem by simp
qed

lemma card_kept:
  assumes ok: "uf_ok p" "length p = length nodes" and d: "distinct (map n_id nodes)"
  shows "length (filter (\<lambda>n. \<not> bt_has (component_remap nodes (uf_components p (length nodes))) (n_id n)) nodes) =
    card (uf_roots p)"
proof -
  let ?m = "component_remap nodes (uf_components p (length nodes))"
  have has: "bt_has ?m (n_id (nodes ! i)) \<longleftrightarrow> class_winner p nodes i \<noteq> i" if "i < length nodes" for i
  proof -
    have "bt_has ?m (n_id (nodes ! i)) \<longleftrightarrow> (\<exists>y. bt_get ?m (n_id (nodes ! i)) = Some y)"
      by (auto simp: bt_has_def)
    also have "\<dots> \<longleftrightarrow> class_winner p nodes i \<noteq> i"
      unfolding component_remap_get [OF assms] using that d by (auto simp: distinct_conv_nth)
    finally show ?thesis .
  qed
  have "length (filter (\<lambda>n. \<not> bt_has ?m (n_id n)) nodes) =
      card {i. i < length nodes \<and> \<not> bt_has ?m (n_id (nodes ! i))}"
    by (rule length_filter_conv_card)
  also have "{i. i < length nodes \<and> \<not> bt_has ?m (n_id (nodes ! i))} =
      {i. i < length nodes \<and> class_winner p nodes i = i}"
    using has by auto
  also have "card \<dots> = card (uf_roots p)"
  proof (rule bij_betw_same_card [of "rep p"])
    have r: "rep p i = i" if "i \<in> uf_roots p" for i
      using that rep_eq [OF ok(1)] root_of_self by (auto simp: uf_roots_def)
    have inj: "inj_on (rep p) {i. i < length nodes \<and> class_winner p nodes i = i}"
      by (rule inj_onI) (auto simp: class_winner_def)
    have "rep p ` {i. i < length nodes \<and> class_winner p nodes i = i} = uf_roots p"
    proof (intro equalityI subsetI)
      fix r
      assume "r \<in> rep p ` {i. i < length nodes \<and> class_winner p nodes i = i}"
      then obtain i where "i < length nodes" "r = rep p i" by blast
      then have "root_of p i r" using rep_root [OF ok(1)] ok(2) by simp
      then show "r \<in> uf_roots p" using root_of_is_root root_of_self by blast
    next
      fix r
      assume r': "r \<in> uf_roots p"
      then have "r < length nodes" using ok(2) by (simp add: uf_roots_def)
      note w = class_winner_facts [OF this, of p]
      have "r = rep p (class_winner p nodes r)" using w(2) r [OF r'] by simp
      then show "r \<in> rep p ` {i. i < length nodes \<and> class_winner p nodes i = i}" using w by blast
    qed
    then show "bij_betw (rep p) {i. i < length nodes \<and> class_winner p nodes i = i} (uf_roots p)"
      using inj by (simp add: bij_betw_def)
  qed
  finally show ?thesis .
qed

section \<open>What a run of the engine gives\<close>

lemma deduplicate_engine_unguarded:
  "\<exists>r. deduplicate_engine u f nodes edges communities False = Inr r"
  by (simp add: deduplicate_engine_def Let_def split_def)

text \<open>The remapping of a run: empty for at most one record, that of the final forest otherwise.\<close>

lemma engine_result_cases:
  assumes "deduplicate_engine u f nodes edges communities guard = Inr r"
  obtains (short) "length (unique_records nodes) \<le> 1" "er_nodes r = unique_records nodes"
      "er_edges r = edges" "er_remap r = []" "r_exact_merges (er_report r) = 0"
      "r_fuzzy_merges (er_report r) = 0" "r_self_loops_dropped (er_report r) = 0"
    | (merged) p where "uf_sound (length (unique_records nodes)) (mergeable_set (unique_records nodes)) p"
      "card (uf_roots p) + r_exact_merges (er_report r) + r_fuzzy_merges (er_report r) =
         length (unique_records nodes)"
      "er_remap r = component_remap (unique_records nodes) (uf_components p (length (unique_records nodes)))"
      "er_nodes r = filter (\<lambda>n. \<not> bt_has (er_remap r) (n_id n)) (unique_records nodes)"
      "er_edges r = rewire_edges (er_remap r) edges"
      "r_self_loops_dropped (er_report r) = length (filter (drops_self_loop (er_remap r)) edges)"
proof (cases "length (unique_records nodes) \<le> 1")
  case True
  then show ?thesis using assms short
    by (auto simp: deduplicate_engine_def Let_def split: if_splits)
next
  case False
  obtain p0 ex where e: "exact_phase u (unique_records nodes) = (p0, ex)" by fastforce
  obtain p fz where fz: "fuzzy_phase u f communities (unique_records nodes) p0 = (p, fz)" by fastforce
  note b = both_phases [OF e fz]
  show ?thesis
    by (rule merged [of p]) (use assms False b in \<open>auto simp: deduplicate_engine_def Let_def e fz split: if_splits\<close>)
qed

lemma uf_soundD: "uf_sound n S p \<Longrightarrow> uf_ok p \<and> length p = n"
  by (simp add: uf_sound_def)

lemma distinct_unique_ids: "distinct (map n_id (unique_records nodes))"
  by (simp add: ids_unique_records distinct_id_order)

lemma engine_node_count:
  assumes "deduplicate_engine u f nodes edges communities guard = Inr r"
  shows "length (unique_records nodes) =
    length (er_nodes r) + r_exact_merges (er_report r) + r_fuzzy_merges (er_report r)"
  using assms
proof (cases rule: engine_result_cases)
  case (merged p)
  have "length (er_nodes r) = card (uf_roots p)"
    unfolding merged(4,3)
    by (rule card_kept) (use merged(1) uf_soundD distinct_unique_ids in auto)
  then show ?thesis using merged(2) by simp
qed simp

lemma engine_keeps_declared:
  assumes "deduplicate_engine u f nodes edges communities guard = Inr r"
  shows "filter preserves_declared_identity (er_nodes r) =
    filter preserves_declared_identity (unique_records nodes)"
  using assms
proof (cases rule: engine_result_cases)
  case (merged p)
  let ?us = "unique_records nodes"
  have ok: "uf_ok p" "length p = length ?us" using uf_soundD [OF merged(1)] by auto
  have "\<not> bt_has (er_remap r) (n_id n)" if n: "n \<in> set ?us" "preserves_declared_identity n" for n
  proof
    assume "bt_has (er_remap r) (n_id n)"
    then obtain y where "bt_get (er_remap r) (n_id n) = Some y" by (auto simp: bt_has_def)
    then obtain i where i: "i < length ?us" "class_winner p ?us i \<noteq> i" "n_id n = n_id (?us ! i)"
      unfolding merged(3) component_remap_get [OF ok distinct_unique_ids] by blast
    obtain j where "j < length ?us" "n = ?us ! j" using n(1) by (auto simp: in_set_conv_nth)
    then have "n = ?us ! i"
      using i(1,3) distinct_unique_ids [of nodes] by (auto simp: distinct_conv_nth)
    then have lone: "root_of p x i \<longleftrightarrow> x = i" for x
      using merged(1) i(1) n(2) by (auto simp: uf_sound_def)
    have w: "class_winner p ?us i < length ?us" "rep p (class_winner p ?us i) = rep p i"
      using class_winner_facts [OF i(1)] by auto
    have "rep p i = i" using rep_eq [OF ok(1)] lone i(1) ok(2) by auto
    then have "root_of p (class_winner p ?us i) i" using rep_root [OF ok(1)] w ok(2) by metis
    then show False using lone i(2) by blast
  qed
  then show ?thesis
    unfolding merged(4) by (auto simp: filter_filter intro!: filter_cong)
qed simp

text \<open>An endpoint is resolved in one step, to a record that is kept.\<close>

lemma resolve_kept:
  assumes r: "deduplicate_engine u f nodes edges communities guard = Inr r"
    and v: "v \<in> n_id ` set (unique_records nodes)"
  shows "resolve_endpoint v (er_remap r) \<in> n_id ` set (er_nodes r)"
  using r
proof (cases rule: engine_result_cases)
  case short
  then show ?thesis using v by (simp add: resolve_endpoint_def)
next
  case (merged p)
  let ?us = "unique_records nodes"
  have ok: "uf_ok p" "length p = length ?us" using uf_soundD [OF merged(1)] by auto
  note get = component_remap_get [OF ok distinct_unique_ids, folded merged(3)]
  have keep: "w \<in> n_id ` set (er_nodes r)" if "w \<in> n_id ` set ?us" "bt_get (er_remap r) w = None" for w
    using that by (subst merged(4)) (auto simp: bt_has_def)
  show ?thesis
  proof (cases "bt_get (er_remap r) v")
    case None
    then show ?thesis using keep [OF v] by (simp add: resolve_endpoint_def)
  next
    case (Some w)
    then obtain i where i: "i < length ?us" "class_winner p ?us i \<noteq> i" "v = n_id (?us ! i)"
      "w = n_id (?us ! class_winner p ?us i)"
      unfolding get by blast
    note cw = class_winner_facts [OF i(1), of p]
    have none: "bt_get (er_remap r) w = None"
    proof (rule ccontr)
      assume "bt_get (er_remap r) w \<noteq> None"
      then obtain j where "j < length ?us" "class_winner p ?us j \<noteq> j" "w = n_id (?us ! j)"
        unfolding not_None_eq get by blast
      then show False using i(4) cw distinct_unique_ids [of nodes] by (auto simp: distinct_conv_nth)
    qed
    have "resolve_endpoint v (er_remap r) = w"
      using Some none by (cases "er_remap r") (auto simp: resolve_endpoint_def)
    moreover have "w \<in> n_id ` set ?us" using i(4) cw(1) by simp
    ultimately show ?thesis using keep [OF _ none] by simp
  qed
qed

lemma set_unique_ids: "n_id ` set (unique_records nodes) = {i. i \<noteq> [] \<and> i \<in> n_id ` set nodes}"
  using arg_cong [OF ids_unique_records [of nodes], of set] by (simp add: set_id_order)

definition report_of :: "unicode \<Rightarrow> fuzzy \<Rightarrow> graph \<Rightarrow> engine_result" where
  "report_of u f g =
     (case deduplicate_engine u f (g_nodes g) (g_links g)
             (bt_of_list (List.map_filter community_of (g_nodes g))) False of
        Inr r \<Rightarrow> r | Inl _ \<Rightarrow> empty_engine_result)"

lemma report_of_engine:
  "deduplicate_engine u f (g_nodes g) (g_links g)
     (bt_of_list (List.map_filter community_of (g_nodes g))) False = Inr (report_of u f g)"
  using deduplicate_engine_unguarded [of u f "g_nodes g" "g_links g"
      "bt_of_list (List.map_filter community_of (g_nodes g))"]
  by (auto simp: report_of_def)

lemma deduplicate_graph:
  "g_nodes (fst (deduplicate_with_report u f g)) = er_nodes (report_of u f g)"
  "g_links (fst (deduplicate_with_report u f g)) = retain_first edge_key {} (er_edges (report_of u f g))"
  "g_hyperedges (fst (deduplicate_with_report u f g)) =
     map (fst \<circ> rewire_hyperedge (er_remap (report_of u f g))) (g_hyperedges g)"
  "dr_same_label_nodes_merged (snd (deduplicate_with_report u f g)) = r_exact_merges (er_report (report_of u f g))"
  "dr_fuzzy_label_nodes_merged (snd (deduplicate_with_report u f g)) = r_fuzzy_merges (er_report (report_of u f g))"
  "dr_self_loops_dropped (snd (deduplicate_with_report u f g)) = r_self_loops_dropped (er_report (report_of u f g))"
  "dr_duplicate_edges_dropped (snd (deduplicate_with_report u f g)) =
     length (er_edges (report_of u f g)) - length (retain_first edge_key {} (er_edges (report_of u f g)))"
  by (simp_all add: deduplicate_with_report_def Let_def report_of_def [symmetric])

lemma dedup_node_count:
  "card {i. i \<noteq> [] \<and> i \<in> n_id ` set (g_nodes g)} =
     length (g_nodes (fst (deduplicate_with_report u f g)))
     + dr_same_label_nodes_merged (snd (deduplicate_with_report u f g))
     + dr_fuzzy_label_nodes_merged (snd (deduplicate_with_report u f g))"
proof -
  have "card {i. i \<noteq> [] \<and> i \<in> n_id ` set (g_nodes g)} = length (unique_records (g_nodes g))"
    using distinct_card [OF distinct_unique_ids [of "g_nodes g"]]
    by (simp add: set_unique_ids [symmetric])
  then show ?thesis
    using engine_node_count [OF report_of_engine [of u f g]] by (simp add: deduplicate_graph)
qed

lemma dedup_edge_count:
  "length (g_links g) = length (g_links (fst (deduplicate_with_report u f g)))
     + dr_self_loops_dropped (snd (deduplicate_with_report u f g))
     + dr_duplicate_edges_dropped (snd (deduplicate_with_report u f g))"
proof -
  let ?r = "report_of u f g"
  have "length (g_links g) = length (er_edges ?r) + r_self_loops_dropped (er_report ?r)"
    using report_of_engine [of u f g]
  proof (cases rule: engine_result_cases)
    case (merged p)
    then show ?thesis
      using sum_length_filter_compl [of "drops_self_loop (er_remap ?r)" "g_links g"]
      by (simp add: rewire_edges_def)
  qed simp
  then show ?thesis
    using length_retain_first_le [of edge_key "{}" "er_edges ?r"] by (simp add: deduplicate_graph)
qed

lemma dedup_ids:
  "distinct (map n_id (g_nodes (fst (deduplicate_with_report u f g))))"
  "set (g_nodes (fst (deduplicate_with_report u f g))) \<subseteq> set (unique_records (g_nodes g))"
proof -
  have "\<exists>P. er_nodes (report_of u f g) = filter P (unique_records (g_nodes g))"
    using report_of_engine [of u f g]
  proof (cases rule: engine_result_cases)
    case short
    then show ?thesis by (intro exI [of _ "\<lambda>_. True"]) simp
  qed blast
  then show "distinct (map n_id (g_nodes (fst (deduplicate_with_report u f g))))"
    "set (g_nodes (fst (deduplicate_with_report u f g))) \<subseteq> set (unique_records (g_nodes g))"
    using distinct_unique_ids [of "g_nodes g"] by (auto simp: deduplicate_graph distinct_map_filter)
qed

definition endpoints_in :: "node list \<Rightarrow> edge \<Rightarrow> bool" where
  "endpoints_in nodes e \<longleftrightarrow> e_source e \<in> n_id ` set nodes \<and> e_target e \<in> n_id ` set nodes"

definition true_endpoints_in :: "node list \<Rightarrow> edge \<Rightarrow> bool" where
  "true_endpoints_in nodes e \<longleftrightarrow> true_source e \<in> n_id ` set nodes \<and> true_target e \<in> n_id ` set nodes"

lemma dedup_edges_resolved:
  assumes "\<forall>e \<in> set (g_links g). endpoints_in (g_nodes g) e \<and> true_endpoints_in (g_nodes g) e"
    and "\<forall>n \<in> set (g_nodes g). n_id n \<noteq> []"
  shows "\<forall>e \<in> set (g_links (fst (deduplicate_with_report u f g))).
    endpoints_in (g_nodes (fst (deduplicate_with_report u f g))) e"
proof
  fix e
  assume "e \<in> set (g_links (fst (deduplicate_with_report u f g)))"
  then have e: "e \<in> set (er_edges (report_of u f g))"
    using retain_first_subset by (force simp: deduplicate_graph)
  have ids: "n_id ` set (unique_records (g_nodes g)) = n_id ` set (g_nodes g)"
    using assms(2) by (auto simp: set_unique_ids)
  from report_of_engine [of u f g]
  show "endpoints_in (g_nodes (fst (deduplicate_with_report u f g))) e"
  proof (cases rule: engine_result_cases)
    case short
    then show ?thesis using e assms(1) ids by (simp add: deduplicate_graph endpoints_in_def)
  next
    case (merged p)
    then obtain e0 where "e0 \<in> set (g_links g)" "e = rewire_edge (er_remap (report_of u f g)) e0"
      using e by (auto simp: rewire_edges_def)
    then show ?thesis
      using assms(1) ids resolve_kept [OF report_of_engine [of u f g]]
      by (simp add: endpoints_in_def true_endpoints_in_def rewire_edge_def Let_def deduplicate_graph)
  qed
qed

text \<open>
  C5: Deduplication conserves nodes: the identifiers of the graph that goes in (the empty one
  aside) are as many as the nodes that come out and the merges that are counted, exact and fuzzy;
  the identifiers that come out are distinct, and every code symbol, document unit, enrichment fact
  and DOT entity is kept as it was.
\<close>

theorem dedup_conserves_nodes:
  "card {i. i \<noteq> [] \<and> i \<in> n_id ` set (g_nodes g)} =
     length (g_nodes (fst (deduplicate_with_report u f g))) + snd (deduplicate u f g)
   \<and> distinct (map n_id (g_nodes (fst (deduplicate_with_report u f g))))
   \<and> filter preserves_declared_identity (g_nodes (fst (deduplicate_with_report u f g))) =
     filter preserves_declared_identity (unique_records (g_nodes g))"
  using dedup_node_count [of g u f] dedup_ids(1) [of u f g]
    engine_keeps_declared [OF report_of_engine [of u f g]]
  by (simp add: deduplicate_def split_def Let_def deduplicate_graph(1))

text \<open>
  C3: Deduplication leaves no dangling edge: when every edge that goes in names nodes of the graph,
  so does every edge that comes out. No two edges that come out have the same ends and relation,
  and every edge that went in comes out or is counted as a dropped self-loop or duplicate.
\<close>

theorem dedup_conserves_edges:
  assumes "\<forall>e \<in> set (g_links g). endpoints_in (g_nodes g) e \<and> true_endpoints_in (g_nodes g) e"
    and "\<forall>n \<in> set (g_nodes g). n_id n \<noteq> []"
  shows "(\<forall>e \<in> set (g_links (fst (deduplicate_with_report u f g))).
        endpoints_in (g_nodes (fst (deduplicate_with_report u f g))) e)
    \<and> distinct (map edge_key (g_links (fst (deduplicate_with_report u f g))))
    \<and> length (g_links g) = length (g_links (fst (deduplicate_with_report u f g)))
        + dr_self_loops_dropped (snd (deduplicate_with_report u f g))
        + dr_duplicate_edges_dropped (snd (deduplicate_with_report u f g))"
  using dedup_edges_resolved [OF assms] dedup_edge_count
  by (simp add: deduplicate_graph(2) retain_first_distinct)

theorem dedup_conserves_edges_witness:
  "distinct (map edge_key (g_links (fst (deduplicate_with_report plain_unicode
     \<lparr>f_jaro = \<lambda>_ _. 0, f_jaro_winkler = \<lambda>_ _. 0, f_damerau = \<lambda>_ _. 0\<rparr> sample_graph))))"
proof -
  have "\<forall>e \<in> set (g_links sample_graph).
      endpoints_in (g_nodes sample_graph) e \<and> true_endpoints_in (g_nodes sample_graph) e"
    and "\<forall>n \<in> set (g_nodes sample_graph). n_id n \<noteq> []"
    by (simp_all add: sample_graph_def plain_node_def plain_edge_def endpoints_in_def
        true_endpoints_in_def true_source_def true_target_def get_str_def)
  from dedup_conserves_edges [OF this] show ?thesis by blast
qed

end
