(* ===== verification/Build_Report.thy ===== *)
theory Build_Report
  imports Btree
begin

text \<open>
  Conservation accounting for a graph build (the first part of
  \<open>crates/graphoxide-graph/src/build.rs\<close>): the reasons for dropping, merging and repairing, the
  counters per reason and the three conservation equations. The reasons are the keys of ordered
  maps, in the order of their declaration.
\<close>

section \<open>Reasons\<close>

datatype node_drop_reason = EmptyId

datatype node_merge_reason =
  DuplicateId | SemanticToAst | DocumentTwin | SemanticSameLabel | SemanticFuzzyLabel

datatype edge_drop_reason =
  UnresolvedSource | UnresolvedTarget | UnresolvedSourceAndTarget | ImportSelfLoop
| CrossLanguageInferredCall | CrossLanguageImportOrReference | ExactDuplicate
| UndirectedReverseDuplicate | SelfLoopAfterNodeMerge | ExactDuplicateAfterNodeMerge

datatype edge_repair_reason =
  SourceSemanticRemap | TargetSemanticRemap | SourceNormalizedId | TargetNormalizedId
| SourceLegacyId | TargetLegacyId | DirectionalSourceRestored | DirectionalTargetRestored
| SourceAfterNodeMerge | TargetAfterNodeMerge | WeightNormalized | ConfidenceScoreNormalized
| SourceFileBackfilled | ConfidenceScoreBackfilled | TargetFileMetadataRemoved
| LocalAliasMetadataRemoved

datatype hyperedge_drop_reason = NonObject | MissingOrInvalidMembers | NoResolvedMembers

datatype hyperedge_repair_reason =
  MembersAliasNormalized | MemberSemanticRemap | MemberNormalizedId | MemberLegacyId
| MemberAfterNodeMerge | NonStringMemberRemoved | UnresolvedMemberRemoved
| DuplicateMemberRemoved | DuplicateMemberAfterNodeMerge | MissingIdBackfilled
| DuplicateIdRemapped

text \<open>The derived \<open>Ord\<close>: by the position of the constructor.\<close>

fun node_drop_rank :: "node_drop_reason \<Rightarrow> nat" where
  "node_drop_rank EmptyId = 0"

lemma node_drop_rank_inj: "node_drop_rank a = node_drop_rank b \<Longrightarrow> a = b"
  by (cases a; cases b) simp_all

instantiation node_drop_reason :: linorder
begin

definition less_eq_node_drop_reason :: "node_drop_reason \<Rightarrow> node_drop_reason \<Rightarrow> bool" where
  "a \<le> b \<longleftrightarrow> node_drop_rank a \<le> node_drop_rank b"

definition less_node_drop_reason :: "node_drop_reason \<Rightarrow> node_drop_reason \<Rightarrow> bool" where
  "a < b \<longleftrightarrow> node_drop_rank a < node_drop_rank b"

instance
  by standard (auto simp: less_eq_node_drop_reason_def less_node_drop_reason_def dest: node_drop_rank_inj)

end

fun node_merge_rank :: "node_merge_reason \<Rightarrow> nat" where
  "node_merge_rank DuplicateId = 0"
| "node_merge_rank SemanticToAst = 1"
| "node_merge_rank DocumentTwin = 2"
| "node_merge_rank SemanticSameLabel = 3"
| "node_merge_rank SemanticFuzzyLabel = 4"

lemma node_merge_rank_inj: "node_merge_rank a = node_merge_rank b \<Longrightarrow> a = b"
  by (cases a; cases b) simp_all

instantiation node_merge_reason :: linorder
begin

definition less_eq_node_merge_reason :: "node_merge_reason \<Rightarrow> node_merge_reason \<Rightarrow> bool" where
  "a \<le> b \<longleftrightarrow> node_merge_rank a \<le> node_merge_rank b"

definition less_node_merge_reason :: "node_merge_reason \<Rightarrow> node_merge_reason \<Rightarrow> bool" where
  "a < b \<longleftrightarrow> node_merge_rank a < node_merge_rank b"

instance
  by standard (auto simp: less_eq_node_merge_reason_def less_node_merge_reason_def dest: node_merge_rank_inj)

end

fun edge_drop_rank :: "edge_drop_reason \<Rightarrow> nat" where
  "edge_drop_rank UnresolvedSource = 0"
| "edge_drop_rank UnresolvedTarget = 1"
| "edge_drop_rank UnresolvedSourceAndTarget = 2"
| "edge_drop_rank ImportSelfLoop = 3"
| "edge_drop_rank CrossLanguageInferredCall = 4"
| "edge_drop_rank CrossLanguageImportOrReference = 5"
| "edge_drop_rank ExactDuplicate = 6"
| "edge_drop_rank UndirectedReverseDuplicate = 7"
| "edge_drop_rank SelfLoopAfterNodeMerge = 8"
| "edge_drop_rank ExactDuplicateAfterNodeMerge = 9"

lemma edge_drop_rank_inj: "edge_drop_rank a = edge_drop_rank b \<Longrightarrow> a = b"
  by (cases a; cases b) simp_all

instantiation edge_drop_reason :: linorder
begin

definition less_eq_edge_drop_reason :: "edge_drop_reason \<Rightarrow> edge_drop_reason \<Rightarrow> bool" where
  "a \<le> b \<longleftrightarrow> edge_drop_rank a \<le> edge_drop_rank b"

definition less_edge_drop_reason :: "edge_drop_reason \<Rightarrow> edge_drop_reason \<Rightarrow> bool" where
  "a < b \<longleftrightarrow> edge_drop_rank a < edge_drop_rank b"

instance
  by standard (auto simp: less_eq_edge_drop_reason_def less_edge_drop_reason_def dest: edge_drop_rank_inj)

end

fun edge_repair_rank :: "edge_repair_reason \<Rightarrow> nat" where
  "edge_repair_rank SourceSemanticRemap = 0"
| "edge_repair_rank TargetSemanticRemap = 1"
| "edge_repair_rank SourceNormalizedId = 2"
| "edge_repair_rank TargetNormalizedId = 3"
| "edge_repair_rank SourceLegacyId = 4"
| "edge_repair_rank TargetLegacyId = 5"
| "edge_repair_rank DirectionalSourceRestored = 6"
| "edge_repair_rank DirectionalTargetRestored = 7"
| "edge_repair_rank SourceAfterNodeMerge = 8"
| "edge_repair_rank TargetAfterNodeMerge = 9"
| "edge_repair_rank WeightNormalized = 10"
| "edge_repair_rank ConfidenceScoreNormalized = 11"
| "edge_repair_rank SourceFileBackfilled = 12"
| "edge_repair_rank ConfidenceScoreBackfilled = 13"
| "edge_repair_rank TargetFileMetadataRemoved = 14"
| "edge_repair_rank LocalAliasMetadataRemoved = 15"

lemma edge_repair_rank_inj: "edge_repair_rank a = edge_repair_rank b \<Longrightarrow> a = b"
  by (cases a; cases b) simp_all

instantiation edge_repair_reason :: linorder
begin

definition less_eq_edge_repair_reason :: "edge_repair_reason \<Rightarrow> edge_repair_reason \<Rightarrow> bool" where
  "a \<le> b \<longleftrightarrow> edge_repair_rank a \<le> edge_repair_rank b"

definition less_edge_repair_reason :: "edge_repair_reason \<Rightarrow> edge_repair_reason \<Rightarrow> bool" where
  "a < b \<longleftrightarrow> edge_repair_rank a < edge_repair_rank b"

instance
  by standard (auto simp: less_eq_edge_repair_reason_def less_edge_repair_reason_def dest: edge_repair_rank_inj)

end

fun hyperedge_drop_rank :: "hyperedge_drop_reason \<Rightarrow> nat" where
  "hyperedge_drop_rank NonObject = 0"
| "hyperedge_drop_rank MissingOrInvalidMembers = 1"
| "hyperedge_drop_rank NoResolvedMembers = 2"

lemma hyperedge_drop_rank_inj: "hyperedge_drop_rank a = hyperedge_drop_rank b \<Longrightarrow> a = b"
  by (cases a; cases b) simp_all

instantiation hyperedge_drop_reason :: linorder
begin

definition less_eq_hyperedge_drop_reason :: "hyperedge_drop_reason \<Rightarrow> hyperedge_drop_reason \<Rightarrow> bool" where
  "a \<le> b \<longleftrightarrow> hyperedge_drop_rank a \<le> hyperedge_drop_rank b"

definition less_hyperedge_drop_reason :: "hyperedge_drop_reason \<Rightarrow> hyperedge_drop_reason \<Rightarrow> bool" where
  "a < b \<longleftrightarrow> hyperedge_drop_rank a < hyperedge_drop_rank b"

instance
  by standard (auto simp: less_eq_hyperedge_drop_reason_def less_hyperedge_drop_reason_def dest: hyperedge_drop_rank_inj)

end

fun hyperedge_repair_rank :: "hyperedge_repair_reason \<Rightarrow> nat" where
  "hyperedge_repair_rank MembersAliasNormalized = 0"
| "hyperedge_repair_rank MemberSemanticRemap = 1"
| "hyperedge_repair_rank MemberNormalizedId = 2"
| "hyperedge_repair_rank MemberLegacyId = 3"
| "hyperedge_repair_rank MemberAfterNodeMerge = 4"
| "hyperedge_repair_rank NonStringMemberRemoved = 5"
| "hyperedge_repair_rank UnresolvedMemberRemoved = 6"
| "hyperedge_repair_rank DuplicateMemberRemoved = 7"
| "hyperedge_repair_rank DuplicateMemberAfterNodeMerge = 8"
| "hyperedge_repair_rank MissingIdBackfilled = 9"
| "hyperedge_repair_rank DuplicateIdRemapped = 10"

lemma hyperedge_repair_rank_inj: "hyperedge_repair_rank a = hyperedge_repair_rank b \<Longrightarrow> a = b"
  by (cases a; cases b) simp_all

instantiation hyperedge_repair_reason :: linorder
begin

definition less_eq_hyperedge_repair_reason :: "hyperedge_repair_reason \<Rightarrow> hyperedge_repair_reason \<Rightarrow> bool" where
  "a \<le> b \<longleftrightarrow> hyperedge_repair_rank a \<le> hyperedge_repair_rank b"

definition less_hyperedge_repair_reason :: "hyperedge_repair_reason \<Rightarrow> hyperedge_repair_reason \<Rightarrow> bool" where
  "a < b \<longleftrightarrow> hyperedge_repair_rank a < hyperedge_repair_rank b"

instance
  by standard (auto simp: less_eq_hyperedge_repair_reason_def less_hyperedge_repair_reason_def dest: hyperedge_repair_rank_inj)

end

section \<open>Counters\<close>

definition increment_by :: "('k::linorder, nat) btree \<Rightarrow> 'k \<Rightarrow> nat \<Rightarrow> ('k, nat) btree" where
  "increment_by counts reason count =
     (if count > 0 then bt_update reason 0 (\<lambda>n. n + count) counts else counts)"

definition increment :: "('k::linorder, nat) btree \<Rightarrow> 'k \<Rightarrow> ('k, nat) btree" where
  "increment counts reason = increment_by counts reason 1"

record build_report =
  b_input_extractions :: nat
  b_input_nodes :: nat
  b_input_edges :: nat
  b_input_hyperedges :: nat
  b_output_nodes :: nat
  b_output_edges :: nat
  b_output_hyperedges :: nat
  b_node_drops :: "(node_drop_reason, nat) btree"
  b_node_merges :: "(node_merge_reason, nat) btree"
  b_edge_drops :: "(edge_drop_reason, nat) btree"
  b_edge_repairs :: "(edge_repair_reason, nat) btree"
  b_hyperedge_drops :: "(hyperedge_drop_reason, nat) btree"
  b_hyperedge_repairs :: "(hyperedge_repair_reason, nat) btree"

definition dropped_node_count :: "build_report \<Rightarrow> nat" where
  "dropped_node_count r = bt_total (b_node_drops r)"

definition merged_node_count :: "build_report \<Rightarrow> nat" where
  "merged_node_count r = bt_total (b_node_merges r)"

definition dropped_edge_count :: "build_report \<Rightarrow> nat" where
  "dropped_edge_count r = bt_total (b_edge_drops r)"

definition dropped_hyperedge_count :: "build_report \<Rightarrow> nat" where
  "dropped_hyperedge_count r = bt_total (b_hyperedge_drops r)"

definition nodes_accounted_for :: "build_report \<Rightarrow> bool" where
  "nodes_accounted_for r \<longleftrightarrow>
     b_input_nodes r = b_output_nodes r + merged_node_count r + dropped_node_count r"

definition edges_accounted_for :: "build_report \<Rightarrow> bool" where
  "edges_accounted_for r \<longleftrightarrow> b_input_edges r = b_output_edges r + dropped_edge_count r"

definition hyperedges_accounted_for :: "build_report \<Rightarrow> bool" where
  "hyperedges_accounted_for r \<longleftrightarrow>
     b_input_hyperedges r = b_output_hyperedges r + dropped_hyperedge_count r"

definition drop_node :: "node_drop_reason \<Rightarrow> build_report \<Rightarrow> build_report" where
  "drop_node reason r = r\<lparr>b_node_drops := increment (b_node_drops r) reason\<rparr>"

definition count_merge :: "node_merge_reason \<Rightarrow> build_report \<Rightarrow> build_report" where
  "count_merge reason r = r\<lparr>b_node_merges := increment (b_node_merges r) reason\<rparr>"

definition count_merges :: "node_merge_reason \<Rightarrow> nat \<Rightarrow> build_report \<Rightarrow> build_report" where
  "count_merges reason count r = r\<lparr>b_node_merges := increment_by (b_node_merges r) reason count\<rparr>"

definition drop_edge :: "edge_drop_reason \<Rightarrow> build_report \<Rightarrow> build_report" where
  "drop_edge reason r = r\<lparr>b_edge_drops := increment (b_edge_drops r) reason\<rparr>"

definition drop_edges :: "edge_drop_reason \<Rightarrow> nat \<Rightarrow> build_report \<Rightarrow> build_report" where
  "drop_edges reason count r = r\<lparr>b_edge_drops := increment_by (b_edge_drops r) reason count\<rparr>"

definition repair_edge :: "edge_repair_reason \<Rightarrow> build_report \<Rightarrow> build_report" where
  "repair_edge reason r = r\<lparr>b_edge_repairs := increment (b_edge_repairs r) reason\<rparr>"

definition repair_edges :: "edge_repair_reason \<Rightarrow> nat \<Rightarrow> build_report \<Rightarrow> build_report" where
  "repair_edges reason count r = r\<lparr>b_edge_repairs := increment_by (b_edge_repairs r) reason count\<rparr>"

definition drop_hyperedge :: "hyperedge_drop_reason \<Rightarrow> build_report \<Rightarrow> build_report" where
  "drop_hyperedge reason r = r\<lparr>b_hyperedge_drops := increment (b_hyperedge_drops r) reason\<rparr>"

definition repair_hyperedge :: "hyperedge_repair_reason \<Rightarrow> build_report \<Rightarrow> build_report" where
  "repair_hyperedge reason r =
     r\<lparr>b_hyperedge_repairs := increment (b_hyperedge_repairs r) reason\<rparr>"

definition repair_hyperedges :: "hyperedge_repair_reason \<Rightarrow> nat \<Rightarrow> build_report \<Rightarrow> build_report" where
  "repair_hyperedges reason count r =
     r\<lparr>b_hyperedge_repairs := increment_by (b_hyperedge_repairs r) reason count\<rparr>"

section \<open>What the counters count\<close>

lemma wf_increment_by [simp, btree_wf]: "bt_wf c \<Longrightarrow> bt_wf (increment_by c reason n)"
  by (simp add: increment_by_def)

lemma total_increment_by: "bt_wf c \<Longrightarrow> bt_total (increment_by c reason n) = bt_total c + n"
  by (simp add: increment_by_def bt_total_update)

definition report_wf :: "build_report \<Rightarrow> bool" where
  "report_wf r \<longleftrightarrow> bt_wf (b_node_drops r) \<and> bt_wf (b_node_merges r) \<and> bt_wf (b_edge_drops r)
     \<and> bt_wf (b_hyperedge_drops r)"

named_theorems report_simps \<open>what the operations of the report do to its counts\<close>

lemma report_wf_ops [simp, report_simps]:
  "report_wf r \<Longrightarrow> report_wf (drop_node a r)"
  "report_wf r \<Longrightarrow> report_wf (count_merge b r)"
  "report_wf r \<Longrightarrow> report_wf (count_merges b n r)"
  "report_wf r \<Longrightarrow> report_wf (drop_edge c r)"
  "report_wf r \<Longrightarrow> report_wf (drop_edges c n r)"
  "report_wf r \<Longrightarrow> report_wf (repair_edge d r)"
  "report_wf r \<Longrightarrow> report_wf (repair_edges d n r)"
  "report_wf r \<Longrightarrow> report_wf (drop_hyperedge e r)"
  "report_wf r \<Longrightarrow> report_wf (repair_hyperedge f r)"
  "report_wf r \<Longrightarrow> report_wf (repair_hyperedges f n r)"
  by (simp_all add: report_wf_def drop_node_def count_merge_def count_merges_def drop_edge_def drop_edges_def
      repair_edge_def repair_edges_def drop_hyperedge_def repair_hyperedge_def repair_hyperedges_def increment_def)

lemma dropped_node_count_ops [simp, report_simps]:
  "report_wf r \<Longrightarrow> dropped_node_count (drop_node a r) = Suc (dropped_node_count r)"
  "dropped_node_count (count_merge b r) = dropped_node_count r"
  "dropped_node_count (count_merges b n r) = dropped_node_count r"
  "dropped_node_count (drop_edge c r) = dropped_node_count r"
  "dropped_node_count (drop_edges c n r) = dropped_node_count r"
  "dropped_node_count (repair_edge d r) = dropped_node_count r"
  "dropped_node_count (repair_edges d n r) = dropped_node_count r"
  "dropped_node_count (drop_hyperedge e r) = dropped_node_count r"
  "dropped_node_count (repair_hyperedge f r) = dropped_node_count r"
  "dropped_node_count (repair_hyperedges f n r) = dropped_node_count r"
  by (simp_all add: report_wf_def dropped_node_count_def drop_node_def count_merge_def count_merges_def drop_edge_def
      drop_edges_def repair_edge_def repair_edges_def drop_hyperedge_def repair_hyperedge_def repair_hyperedges_def
      increment_def total_increment_by)

lemma merged_node_count_ops [simp, report_simps]:
  "merged_node_count (drop_node a r) = merged_node_count r"
  "report_wf r \<Longrightarrow> merged_node_count (count_merge b r) = Suc (merged_node_count r)"
  "report_wf r \<Longrightarrow> merged_node_count (count_merges b n r) = merged_node_count r + n"
  "merged_node_count (drop_edge c r) = merged_node_count r"
  "merged_node_count (drop_edges c n r) = merged_node_count r"
  "merged_node_count (repair_edge d r) = merged_node_count r"
  "merged_node_count (repair_edges d n r) = merged_node_count r"
  "merged_node_count (drop_hyperedge e r) = merged_node_count r"
  "merged_node_count (repair_hyperedge f r) = merged_node_count r"
  "merged_node_count (repair_hyperedges f n r) = merged_node_count r"
  by (simp_all add: report_wf_def merged_node_count_def drop_node_def count_merge_def count_merges_def drop_edge_def
      drop_edges_def repair_edge_def repair_edges_def drop_hyperedge_def repair_hyperedge_def repair_hyperedges_def
      increment_def total_increment_by)

lemma dropped_edge_count_ops [simp, report_simps]:
  "dropped_edge_count (drop_node a r) = dropped_edge_count r"
  "dropped_edge_count (count_merge b r) = dropped_edge_count r"
  "dropped_edge_count (count_merges b n r) = dropped_edge_count r"
  "report_wf r \<Longrightarrow> dropped_edge_count (drop_edge c r) = Suc (dropped_edge_count r)"
  "report_wf r \<Longrightarrow> dropped_edge_count (drop_edges c n r) = dropped_edge_count r + n"
  "dropped_edge_count (repair_edge d r) = dropped_edge_count r"
  "dropped_edge_count (repair_edges d n r) = dropped_edge_count r"
  "dropped_edge_count (drop_hyperedge e r) = dropped_edge_count r"
  "dropped_edge_count (repair_hyperedge f r) = dropped_edge_count r"
  "dropped_edge_count (repair_hyperedges f n r) = dropped_edge_count r"
  by (simp_all add: report_wf_def dropped_edge_count_def drop_node_def count_merge_def count_merges_def drop_edge_def
      drop_edges_def repair_edge_def repair_edges_def drop_hyperedge_def repair_hyperedge_def repair_hyperedges_def
      increment_def total_increment_by)

lemma dropped_hyperedge_count_ops [simp, report_simps]:
  "dropped_hyperedge_count (drop_node a r) = dropped_hyperedge_count r"
  "dropped_hyperedge_count (count_merge b r) = dropped_hyperedge_count r"
  "dropped_hyperedge_count (count_merges b n r) = dropped_hyperedge_count r"
  "dropped_hyperedge_count (drop_edge c r) = dropped_hyperedge_count r"
  "dropped_hyperedge_count (drop_edges c n r) = dropped_hyperedge_count r"
  "dropped_hyperedge_count (repair_edge d r) = dropped_hyperedge_count r"
  "dropped_hyperedge_count (repair_edges d n r) = dropped_hyperedge_count r"
  "report_wf r \<Longrightarrow> dropped_hyperedge_count (drop_hyperedge e r) = Suc (dropped_hyperedge_count r)"
  "dropped_hyperedge_count (repair_hyperedge f r) = dropped_hyperedge_count r"
  "dropped_hyperedge_count (repair_hyperedges f n r) = dropped_hyperedge_count r"
  by (simp_all add: report_wf_def dropped_hyperedge_count_def drop_node_def count_merge_def count_merges_def drop_edge_def
      drop_edges_def repair_edge_def repair_edges_def drop_hyperedge_def repair_hyperedge_def repair_hyperedges_def
      increment_def total_increment_by)

definition inputs :: "build_report \<Rightarrow> nat \<times> nat \<times> nat" where
  "inputs r = (b_input_nodes r, b_input_edges r, b_input_hyperedges r)"

lemma inputs_ops [simp, report_simps]:
  "inputs (drop_node a r) = inputs r"
  "inputs (count_merge b r) = inputs r"
  "inputs (count_merges b n r) = inputs r"
  "inputs (drop_edge c r) = inputs r"
  "inputs (drop_edges c n r) = inputs r"
  "inputs (repair_edge d r) = inputs r"
  "inputs (repair_edges d n r) = inputs r"
  "inputs (drop_hyperedge e r) = inputs r"
  "inputs (repair_hyperedge f r) = inputs r"
  "inputs (repair_hyperedges f n r) = inputs r"
  by (simp_all add: inputs_def drop_node_def count_merge_def count_merges_def drop_edge_def drop_edges_def
      repair_edge_def repair_edges_def drop_hyperedge_def repair_hyperedge_def repair_hyperedges_def)

end
