(* ===== verification/Labels.thy ===== *)
theory Labels
  imports Model
begin

text \<open>
  Labels of file nodes (\<open>crates/graphoxide-graph/src/build.rs\<close>, the label functions): colliding
  basenames are qualified with directories until they differ.
\<close>

section \<open>Kinds of nodes\<close>

definition origin_is_structural :: "string \<Rightarrow> bool option" where
  "origin_is_structural origin =
     (if origin \<in> {''semantic'', ''enrichment''} then Some False
      else if origin \<in> {''ast'', ''fallback'', ''terraform'', ''sql'', ''dotnet'', ''scip'',
                        ''diagram'', ''pdf'', ''document_package''} then Some True
      else None)"

definition is_structural_node :: "node \<Rightarrow> bool" where
  "is_structural_node n \<longleftrightarrow>
     Option.bind (get_str (n_extra n) ''_origin'') origin_is_structural = Some True"

definition is_declared_graphviz_entity :: "node \<Rightarrow> bool" where
  "is_declared_graphviz_entity n \<longleftrightarrow>
     get_str (n_extra n) ''diagram_format'' = Some ''graphviz'' \<and> get_str (n_extra n) ''dot_id'' \<noteq> None"

definition is_document_package_entity :: "node \<Rightarrow> bool" where
  "is_document_package_entity n \<longleftrightarrow> get_str (n_extra n) ''_origin'' = Some ''document_package''"

definition is_enrichment_entity :: "node \<Rightarrow> bool" where
  "is_enrichment_entity n \<longleftrightarrow> get_str (n_extra n) ''_origin'' = Some ''enrichment''"

definition is_document_package_child :: "node \<Rightarrow> bool" where
  "is_document_package_child n \<longleftrightarrow> is_document_package_entity n
     \<and> (bt_has (n_extra n) ''unit_ordinal'' \<or> bt_has (n_extra n) ''internal_part'')"

section \<open>File labels\<close>

text \<open>\<open>rsplit('/').next()\<close>: what stands behind the last slash.\<close>

definition basename :: "string \<Rightarrow> string" where
  "basename p = last (split_on (CHR ''/'') p)"

definition is_file_node_label :: "string \<Rightarrow> string \<Rightarrow> bool" where
  "is_file_node_label label source_file =
     (if label = [] \<or> source_file = [] then False
      else let source = slashes source_file
           in if label = basename source then True
              else CHR ''/'' \<in> set label \<and> (source = label \<or> ends_with source (''/'' @ label)))"

definition label_parts :: "string \<Rightarrow> string list" where
  "label_parts p = filter (\<lambda>s. s \<noteq> []) (split_on (CHR ''/'') (slashes p))"

definition last_parts :: "nat \<Rightarrow> string list \<Rightarrow> string list" where
  "last_parts count parts = drop (length parts - count) parts"

definition suffix_unique :: "nat \<Rightarrow> string list \<Rightarrow> string list list \<Rightarrow> bool" where
  "suffix_unique count parts others \<longleftrightarrow>
     list_all (\<lambda>other. length other < count \<or> last_parts count other \<noteq> last_parts count parts) others"

definition shortest_unique_suffix :: "string \<Rightarrow> string list \<Rightarrow> string" where
  "shortest_unique_suffix source_file all =
     (let parts = label_parts source_file;
          others = map label_parts (filter (\<lambda>other. other \<noteq> source_file) all)
      in case find (\<lambda>count. suffix_unique count parts others) [1..<Suc (length parts)] of
           Some count \<Rightarrow> join_with ''/'' (last_parts count parts)
         | None \<Rightarrow> join_with ''/'' parts)"

definition has_file_label :: "node \<Rightarrow> bool" where
  "has_file_label n \<longleftrightarrow> \<not> (is_declared_graphviz_entity n \<or> is_document_package_child n
     \<or> is_enrichment_entity n \<or> \<not> is_file_node_label (n_label n) (n_source_file n))"

definition label_groups :: "node list \<Rightarrow> (string, nat list) btree" where
  "label_groups nodes =
     group_on (\<lambda>i. if has_file_label (nodes ! i) then Some (basename (slashes (n_source_file (nodes ! i)))) else None)
       [0..<length nodes]"

definition relabel_group :: "nat list \<Rightarrow> node list \<Rightarrow> node list" where
  "relabel_group members nodes =
     (let distinct_files = bt_keys (bt_of_list (map (\<lambda>i. (n_source_file (nodes ! i), ())) members))
      in if length distinct_files < 2 then nodes
         else fold (\<lambda>i ns. ns[i := (ns ! i)\<lparr>n_label := shortest_unique_suffix (n_source_file (ns ! i)) distinct_files\<rparr>])
                members nodes)"

definition disambiguate_file_labels_in_nodes :: "node list \<Rightarrow> node list" where
  "disambiguate_file_labels_in_nodes nodes =
     fold (\<lambda>(_, members). relabel_group members) (label_groups nodes) nodes"

definition take_labels :: "nat \<Rightarrow> node list \<Rightarrow> node list \<Rightarrow> node list" where
  "take_labels start flattened nodes =
     map2 (\<lambda>n l. n\<lparr>n_label := n_label l\<rparr>) nodes (take (length nodes) (drop start flattened))"

fun relabel_extractions :: "nat \<Rightarrow> node list \<Rightarrow> extraction list \<Rightarrow> extraction list" where
  "relabel_extractions start flattened [] = []"
| "relabel_extractions start flattened (x # xs) =
     x\<lparr>x_nodes := take_labels start flattened (x_nodes x)\<rparr>
     # relabel_extractions (start + length (x_nodes x)) flattened xs"

definition disambiguate_file_labels_in_extractions :: "extraction list \<Rightarrow> extraction list" where
  "disambiguate_file_labels_in_extractions xs =
     relabel_extractions 0 (disambiguate_file_labels_in_nodes (concat (map x_nodes xs))) xs"

section \<open>Only labels change\<close>

definition unlabelled :: "node \<Rightarrow> node" where
  "unlabelled n = n\<lparr>n_label := []\<rparr>"

lemma relabel_group_unlabelled: "map unlabelled (relabel_group members nodes) = map unlabelled nodes"
proof -
  have keep: "map unlabelled (fold (\<lambda>i ns. ns[i := (ns ! i)\<lparr>n_label := f (ns ! i)\<rparr>]) members ns) = map unlabelled ns"
    for f :: "node \<Rightarrow> string" and ns
  proof (induction members arbitrary: ns)
    case Nil
    then show ?case by simp
  next
    case (Cons i members)
    have "map unlabelled (ns[i := (ns ! i)\<lparr>n_label := f (ns ! i)\<rparr>]) = map unlabelled ns"
      by (cases "i < length ns") (auto simp: map_update unlabelled_def list_update_same_conv list_update_beyond)
    then show ?case using Cons.IH [of "ns[i := (ns ! i)\<lparr>n_label := f (ns ! i)\<rparr>]"] by simp
  qed
  show ?thesis
    using keep [of "\<lambda>n. shortest_unique_suffix (n_source_file n)
        (bt_keys (bt_of_list (map (\<lambda>i. (n_source_file (nodes ! i), ())) members)))" nodes]
    by (simp add: relabel_group_def Let_def)
qed

lemma disambiguate_unlabelled:
  "map unlabelled (disambiguate_file_labels_in_nodes nodes) = map unlabelled nodes"
proof -
  have "map unlabelled (fold (\<lambda>(_, members). relabel_group members) gs ns) = map unlabelled ns"
    for gs :: "(string \<times> nat list) list" and ns
    by (induction gs arbitrary: ns) (auto simp: relabel_group_unlabelled)
  then show ?thesis by (simp add: disambiguate_file_labels_in_nodes_def)
qed

lemma disambiguate_ids:
  "map n_id (disambiguate_file_labels_in_nodes nodes) = map n_id nodes"
  "length (disambiguate_file_labels_in_nodes nodes) = length nodes"
proof -
  have "map (n_id \<circ> unlabelled) (disambiguate_file_labels_in_nodes nodes) = map (n_id \<circ> unlabelled) nodes"
    using disambiguate_unlabelled [of nodes] by (metis map_map)
  moreover have "n_id \<circ> unlabelled = n_id" by (simp add: fun_eq_iff unlabelled_def)
  ultimately show "map n_id (disambiguate_file_labels_in_nodes nodes) = map n_id nodes" by simp
  show "length (disambiguate_file_labels_in_nodes nodes) = length nodes"
    using disambiguate_unlabelled [of nodes] by (metis length_map)
qed

section \<open>The suffixes tell the files apart\<close>

lemma length_last_parts: "count \<le> length parts \<Longrightarrow> length (last_parts count parts) = count"
  by (simp add: last_parts_def)

lemma last_parts_all: "last_parts (length parts) parts = parts"
  by (simp add: last_parts_def)

lemma label_parts_plain: "p \<in> set (label_parts s) \<Longrightarrow> p \<noteq> [] \<and> CHR ''/'' \<notin> set p"
  using split_on_pieces by (auto simp: label_parts_def)

lemma split_join_plain:
  "(\<And>p. p \<in> set ps \<Longrightarrow> c \<notin> set p) \<Longrightarrow> ps \<noteq> [] \<Longrightarrow> split_on c (join_with [c] ps) = ps"
proof (induction "[c]" ps rule: join_with.induct)
  case (2 p)
  then have "c \<notin> set p" by simp
  then show ?case by (induction p) auto
next
  case (3 p q ps)
  have IH: "split_on c (join_with [c] (q # ps)) = q # ps" using 3 by auto
  have "c \<notin> set p" using 3 by simp
  then have "split_on c (p @ c # join_with [c] (q # ps)) = p # q # ps"
    by (induction p) (auto simp: IH)
  then show ?case by simp
qed simp

lemma join_parts_inj:
  assumes "join_with ''/'' ps = join_with ''/'' qs"
    and "\<And>p. p \<in> set ps \<Longrightarrow> p \<noteq> [] \<and> CHR ''/'' \<notin> set p" and "\<And>p. p \<in> set qs \<Longrightarrow> p \<noteq> [] \<and> CHR ''/'' \<notin> set p"
  shows "ps = qs"
proof (cases "ps = [] \<or> qs = []")
  case True
  have e: "rs = []" if "join_with ''/'' rs = []" "\<And>p. p \<in> set rs \<Longrightarrow> p \<noteq> []" for rs
    using that by (induction "''/''" rs rule: join_with.induct) auto
  show ?thesis using True assms e [of ps] e [of qs] by auto
next
  case False
  then show ?thesis
    using assms split_join_plain [of ps "CHR ''/''"] split_join_plain [of qs "CHR ''/''"] by metis
qed

text \<open>The suffix that is taken: its length, and that no other file ends with it unless it is the whole path.\<close>

lemma suffix_taken:
  obtains count where "count \<le> length (label_parts f)"
    "shortest_unique_suffix f all = join_with ''/'' (last_parts count (label_parts f))"
    "suffix_unique count (label_parts f) (map label_parts (filter (\<lambda>other. other \<noteq> f) all))
     \<or> count = length (label_parts f)"
proof (cases "find (\<lambda>count. suffix_unique count (label_parts f)
      (map label_parts (filter (\<lambda>other. other \<noteq> f) all))) [1..<Suc (length (label_parts f))]")
  case None
  then show ?thesis
    using that [of "length (label_parts f)"] by (simp add: shortest_unique_suffix_def last_parts_all)
next
  case (Some count)
  then have "suffix_unique count (label_parts f) (map label_parts (filter (\<lambda>other. other \<noteq> f) all))"
    and "count \<in> set [1..<Suc (length (label_parts f))]"
    by (auto simp: find_Some_iff simp del: upt_Suc)
  then show ?thesis
    using that [of count] Some by (simp add: shortest_unique_suffix_def Let_def del: upt_Suc)
qed

text \<open>
  The qualified labels of two files of a collision group differ whenever the files differ as
  paths, even when one path is a suffix of the other.
\<close>

lemma unique_suffixes_differ:
  assumes "f \<in> set all" and "g \<in> set all" and "label_parts f \<noteq> label_parts g"
  shows "shortest_unique_suffix f all \<noteq> shortest_unique_suffix g all"
proof
  assume eq: "shortest_unique_suffix f all = shortest_unique_suffix g all"
  obtain cf where cf: "cf \<le> length (label_parts f)"
    "shortest_unique_suffix f all = join_with ''/'' (last_parts cf (label_parts f))"
    "suffix_unique cf (label_parts f) (map label_parts (filter (\<lambda>other. other \<noteq> f) all))
     \<or> cf = length (label_parts f)"
    by (rule suffix_taken)
  obtain cg where cg: "cg \<le> length (label_parts g)"
    "shortest_unique_suffix g all = join_with ''/'' (last_parts cg (label_parts g))"
    "suffix_unique cg (label_parts g) (map label_parts (filter (\<lambda>other. other \<noteq> g) all))
     \<or> cg = length (label_parts g)"
    by (rule suffix_taken)
  have sub: "set (last_parts c ps) \<subseteq> set ps" for c and ps :: "string list"
    by (simp add: last_parts_def set_drop_subset)
  have same: "last_parts cf (label_parts f) = last_parts cg (label_parts g)"
    by (rule join_parts_inj) (use eq cf(2) cg(2) sub label_parts_plain in fastforce)+
  then have "cf = cg" using length_last_parts [OF cf(1)] length_last_parts [OF cg(1)] by simp
  have "f \<noteq> g" using assms(3) by auto
  then have "\<not> suffix_unique cf (label_parts f) (map label_parts (filter (\<lambda>other. other \<noteq> f) all))"
    "\<not> suffix_unique cg (label_parts g) (map label_parts (filter (\<lambda>other. other \<noteq> g) all))"
    using assms(1,2) same \<open>cf = cg\<close> cf(1) cg(1) by (auto simp: suffix_unique_def list_all_iff)
  then have "cf = length (label_parts f)" "cg = length (label_parts g)" using cf(3) cg(3) by auto
  then show False using same assms(3) by (simp add: last_parts_all)
qed

theorem unique_suffixes_differ_witness:
  "shortest_unique_suffix ''util.rs'' [''a/util.rs'', ''util.rs'']
   \<noteq> shortest_unique_suffix ''a/util.rs'' [''a/util.rs'', ''util.rs'']"
proof -
  have "label_parts ''util.rs'' \<noteq> label_parts ''a/util.rs''" by code_simp
  then show ?thesis by (intro unique_suffixes_differ) simp_all
qed

end
