(* ===== verification/Build.thy ===== *)
theory Build
  imports Build_Report Labels Dedup
begin

text \<open>
  Building a graph from extractions (\<open>crates/graphoxide-graph/src/build.rs\<close>): paths are normalised,
  stale identifiers remapped, duplicate nodes merged, edge and hyperedge ends repaired or dropped,
  and semantic duplicates merged. Every input is accounted for in the report. The phases of
  \<open>build_graph_with_report_normalized\<close> are one definition each, in the order of the code. The only
  loop without a static bound, the search for an unused hyperedge identifier, has as many steps as
  there are identifiers in use, plus one; running out of them is the error \<open>NoFreshId\<close>.
\<close>

section \<open>Normalising the input\<close>

definition container_source_attribute :: string where
  "container_source_attribute = ''_container_source''"

definition relativize_source_file :: "string \<Rightarrow> string \<Rightarrow> string" where
  "relativize_source_file value base =
     (if value = [] then []
      else let normalized = slashes value
           in slashes (if path_is_absolute normalized
                       then (case path_strip_prefix normalized base of Some r \<Rightarrow> r | None \<Rightarrow> normalized)
                       else normalized))"

definition portable_source :: "string option \<Rightarrow> string \<Rightarrow> string" where
  "portable_source base value =
     (case base of Some b \<Rightarrow> relativize_source_file value b | None \<Rightarrow> slashes value)"

definition normalize_container_source :: "string option \<Rightarrow> jobject \<Rightarrow> jobject" where
  "normalize_container_source base extra =
     (case get_str extra container_source_attribute of
        None \<Rightarrow> extra
      | Some source \<Rightarrow> bt_put container_source_attribute (JStr (portable_source base source)) extra)"

definition canonical_file_type :: "string \<Rightarrow> string" where
  "canonical_file_type value =
     (if value \<in> {''code'', ''document'', ''paper'', ''image'', ''rationale'', ''concept''} then value
      else if value \<in> {''markdown'', ''text''} then ''document''
      else if value \<in> {''tool'', ''library''} then ''code''
      else ''concept'')"

definition normalize_input_node :: "unicode \<Rightarrow> string option \<Rightarrow> node \<Rightarrow> node" where
  "normalize_input_node u base n =
     (let original = slashes (n_source_file n);
          source = portable_source base (n_source_file n);
          extra = (if base \<noteq> None \<and> path_is_absolute original \<and> original \<noteq> source
                   then bt_put ''_absolute_source_stem''
                          (JStr (normalize_id u (path_without_extension original))) (n_extra n)
                   else n_extra n)
      in n\<lparr>n_source_file := source, n_extra := normalize_container_source base extra,
           n_file_type := canonical_file_type (n_file_type n)\<rparr>)"

definition normalize_input_edge :: "string option \<Rightarrow> edge \<Rightarrow> edge" where
  "normalize_input_edge base e =
     e\<lparr>e_source_file := portable_source base (e_source_file e),
       e_extra := normalize_container_source base (e_extra e)\<rparr>"

definition normalize_source_key :: "string option \<Rightarrow> string \<Rightarrow> jobject \<Rightarrow> jobject" where
  "normalize_source_key base key m =
     (case get_str m key of None \<Rightarrow> m | Some s \<Rightarrow> bt_put key (JStr (portable_source base s)) m)"

definition normalize_input_hyperedge :: "string option \<Rightarrow> json \<Rightarrow> json" where
  "normalize_input_hyperedge base h =
     map_object (fold (normalize_source_key base) [''source_file'', container_source_attribute]) h"

definition normalize_extractions :: "unicode \<Rightarrow> string option \<Rightarrow> extraction list \<Rightarrow> extraction list" where
  "normalize_extractions u base xs =
     map (\<lambda>x. \<lparr>x_nodes = map (normalize_input_node u base) (x_nodes x),
               x_edges = map (normalize_input_edge base) (x_edges x),
               x_hyperedges = map (normalize_input_hyperedge base) (x_hyperedges x)\<rparr>) xs"

section \<open>Stale semantic identifiers\<close>

definition source_file_stem :: "string \<Rightarrow> string" where
  "source_file_stem path =
     (if path_file_name path = None then [] else slashes (path_without_extension path))"

text \<open>The first of the old stems that the identifier carries decides the replacement.\<close>

fun replace_stem :: "unicode \<Rightarrow> string \<Rightarrow> string \<Rightarrow> string list \<Rightarrow> string option" where
  "replace_stem u canonical i [] = None"
| "replace_stem u canonical i (old # olds) =
     (if old = [] \<or> old = canonical then replace_stem u canonical i olds
      else if i = old then Some canonical
      else case strip_prefix (old @ ''_'') i of
             Some rest \<Rightarrow> Some (make_id u [canonical, rest])
           | None \<Rightarrow> replace_stem u canonical i olds)"

definition parent_stem :: "unicode \<Rightarrow> string \<Rightarrow> string \<Rightarrow> string" where
  "parent_stem u path file_stem =
     (case path_parent_name path of
        Some parent \<Rightarrow> normalize_id u (parent @ ''_'' @ file_stem) | None \<Rightarrow> [])"

definition file_stem_id :: "unicode \<Rightarrow> string \<Rightarrow> string" where
  "file_stem_id u path = (case path_file_stem path of Some s \<Rightarrow> normalize_id u s | None \<Rightarrow> [])"

definition semantic_replacement :: "unicode \<Rightarrow> node \<Rightarrow> string option" where
  "semantic_replacement u n =
     (if is_structural_node n \<or> is_enrichment_entity n \<or> n_id n = [] \<or> n_source_file n = []
         \<or> path_is_absolute (n_source_file n) then None
      else
        let canonical = normalize_id u (source_file_stem (n_source_file n))
        in if canonical = [] \<or> n_id n = canonical \<or> starts_with (n_id n) (canonical @ ''_'') then None
           else
             let file_stem = file_stem_id u (n_source_file n);
                 absolute = (case get_str (n_extra n) ''_absolute_source_stem'' of Some s \<Rightarrow> s | None \<Rightarrow> [])
             in case replace_stem u canonical (n_id n)
                       [absolute, parent_stem u (n_source_file n) file_stem, file_stem] of
                  None \<Rightarrow> None
                | Some r \<Rightarrow> if r = n_id n then None else Some r)"

definition semantic_id_remap :: "unicode \<Rightarrow> extraction list \<Rightarrow> (string, string) btree" where
  "semantic_id_remap u xs =
     fold (\<lambda>n m. case semantic_replacement u n of None \<Rightarrow> m | Some r \<Rightarrow> bt_put (n_id n) r m)
       (concat (map x_nodes xs)) []"

definition legacy_file_node :: "unicode \<Rightarrow> string option \<Rightarrow> node \<Rightarrow> bool" where
  "legacy_file_node u base n \<longleftrightarrow>
     n_source_location n = Some ''L1'' \<and> n_id n \<noteq> [] \<and> n_source_file n \<noteq> []
     \<and> (let path = portable_source base (n_source_file n)
        in \<not> path_is_absolute path \<and> path_file_name path \<noteq> None
           \<and> (let canonical = normalize_id u (path_without_extension path); i = normalize_id u (n_id n);
                  file_stem = file_stem_id u path
              in canonical \<noteq> [] \<and> \<not> (i = canonical \<or> starts_with i (canonical @ ''_''))
                 \<and> list_ex (\<lambda>legacy. legacy \<noteq> [] \<and> legacy \<noteq> canonical
                             \<and> (i = legacy \<or> starts_with i (legacy @ ''_'')))
                     [parent_stem u path file_stem, file_stem]))"

definition graph_has_legacy_ids :: "unicode \<Rightarrow> node list \<Rightarrow> string option \<Rightarrow> bool" where
  "graph_has_legacy_ids u nodes base = list_ex (legacy_file_node u base) nodes"

section \<open>Merging nodes\<close>

type_synonym node_map = "(string, node) btree"

datatype build_error = DuplicateEnrichment string | NoFreshId

text \<open>\<open>entry(key).or_insert(value)\<close> for every entry of another map.\<close>

definition fill_missing :: "jobject \<Rightarrow> jobject \<Rightarrow> jobject" where
  "fill_missing others extra = fold (\<lambda>(key, value). bt_or_insert key value) others extra"

definition merge_node :: "node \<Rightarrow> node \<Rightarrow> node" where
  "merge_node existing incoming =
     (let es = is_structural_node existing; ins = is_structural_node incoming
      in if ins \<and> \<not> es
         then incoming\<lparr>n_extra := fill_missing (n_extra existing) (n_extra incoming)\<rparr>
         else if es \<and> \<not> ins
         then existing\<lparr>n_extra := fill_missing (n_extra incoming) (n_extra existing),
                n_source_location := (case n_source_location existing of
                   None \<Rightarrow> n_source_location incoming | Some l \<Rightarrow> Some l)\<rparr>
         else incoming\<lparr>n_extra := fill_missing (n_extra existing) (n_extra incoming),
                n_label := (if n_label incoming = [] then n_label existing else n_label incoming),
                n_source_file := (if n_source_file incoming = [] then n_source_file existing
                                  else n_source_file incoming),
                n_source_location := (case n_source_location incoming of
                   None \<Rightarrow> n_source_location existing | Some l \<Rightarrow> Some l)\<rparr>)"

definition remapped_node :: "(string, string) btree \<Rightarrow> node \<Rightarrow> node" where
  "remapped_node remap n =
     n\<lparr>n_extra := bt_del ''_absolute_source_stem'' (n_extra n),
       n_id := (case bt_get remap (n_id n) of Some canonical \<Rightarrow> canonical | None \<Rightarrow> n_id n)\<rparr>"

definition merge_input_node ::
  "(string, string) btree \<Rightarrow> node \<Rightarrow> node_map \<times> build_report \<Rightarrow> build_error + node_map \<times> build_report" where
  "merge_input_node remap n st =
     (let (nodes, report) = st; n' = remapped_node remap n
      in if n_id n = [] then Inr (nodes, drop_node EmptyId report)
         else case bt_get nodes (n_id n') of
                Some existing \<Rightarrow>
                  if is_enrichment_entity existing \<or> is_enrichment_entity n'
                  then Inl (DuplicateEnrichment (n_id n'))
                  else Inr (bt_put (n_id n') (merge_node existing n') nodes, count_merge DuplicateId report)
              | None \<Rightarrow> Inr (bt_put (n_id n') n' nodes, report))"

fun merge_input_nodes ::
  "(string, string) btree \<Rightarrow> node list \<Rightarrow> node_map \<times> build_report \<Rightarrow> build_error + node_map \<times> build_report" where
  "merge_input_nodes remap [] st = Inr st"
| "merge_input_nodes remap (n # ns) st =
     (case merge_input_node remap n st of
        Inl err \<Rightarrow> Inl err | Inr st' \<Rightarrow> merge_input_nodes remap ns st')"

section \<open>Twins and ghosts\<close>

definition is_document_twin :: "node \<Rightarrow> node \<Rightarrow> bool" where
  "is_document_twin canonical bare \<longleftrightarrow>
     \<not> is_declared_graphviz_entity canonical \<and> \<not> is_declared_graphviz_entity bare
     \<and> \<not> is_document_package_entity canonical \<and> \<not> is_document_package_entity bare
     \<and> \<not> is_enrichment_entity canonical \<and> \<not> is_enrichment_entity bare
     \<and> n_file_type canonical = ''document'' \<and> n_file_type bare = ''document''
     \<and> n_source_file canonical \<noteq> [] \<and> n_source_file canonical = n_source_file bare"

definition document_twin_remap :: "node_map \<Rightarrow> (string, string) btree" where
  "document_twin_remap nodes =
     fold (\<lambda>(i, canonical) m.
         case strip_suffix ''_doc'' i of
           None \<Rightarrow> m
         | Some bare_id \<Rightarrow>
             (case bt_get nodes bare_id of
                None \<Rightarrow> m
              | Some bare \<Rightarrow> if is_document_twin canonical bare then bt_put bare_id i m else m))
       nodes []"

definition path_key :: "string \<Rightarrow> string" where
  "path_key value = lowercase (trim_start_matches ''./'' (slashes value))"

definition node_path_key :: "node \<Rightarrow> string" where
  "node_path_key n =
     path_key (if n_source_file n = []
               then (case get_str (n_extra n) ''origin_file'' of Some s \<Rightarrow> s | None \<Rightarrow> [])
               else n_source_file n)"

definition ghost_key :: "node \<Rightarrow> string \<times> string" where
  "ghost_key n = (node_path_key n, lowercase (n_label n))"

definition canonical_by_key :: "node_map \<Rightarrow> (string \<times> string, node list) btree" where
  "canonical_by_key nodes =
     group_on (\<lambda>n. if n_source_file n \<noteq> [] \<and> is_structural_node n then Some (ghost_key n) else None)
       (map snd nodes)"

definition ghost_target :: "(string \<times> string, node list) btree \<Rightarrow> node \<Rightarrow> string option" where
  "ghost_target canonical n =
     (case bt_get canonical (ghost_key n) of
        Some [c] \<Rightarrow> if n_id c \<noteq> n_id n \<and> \<not> is_structural_node n \<and> \<not> is_enrichment_entity n
                    then Some (n_id c) else None
      | _ \<Rightarrow> None)"

definition add_ghosts :: "node_map \<Rightarrow> (string, string) btree \<Rightarrow> (string, string) btree" where
  "add_ghosts nodes remap =
     fold (\<lambda>(_, n) m. case ghost_target (canonical_by_key nodes) n of
             None \<Rightarrow> m | Some c \<Rightarrow> bt_put (n_id n) c m) nodes remap"

definition apply_remap_entry ::
  "(string, string) btree \<Rightarrow> string \<times> string \<Rightarrow> node_map \<times> build_report \<Rightarrow> node_map \<times> build_report" where
  "apply_remap_entry twins entry st =
     (let (old, canonical) = entry; (nodes, report) = st;
          merged = (if bt_has twins old then nodes
                    else case (bt_get nodes old, bt_get nodes canonical) of
                           (Some incoming, Some existing) \<Rightarrow>
                             bt_put canonical (merge_node existing incoming) nodes
                         | _ \<Rightarrow> nodes)
      in if bt_has merged old
         then (bt_del old merged,
               count_merge (if bt_has twins old then DocumentTwin else SemanticToAst) report)
         else (merged, report))"

definition full_remap :: "(string, string) btree \<Rightarrow> node_map \<Rightarrow> (string, string) btree" where
  "full_remap remap nodes =
     add_ghosts nodes (fold (\<lambda>(k, v). bt_put k v) (document_twin_remap nodes) remap)"

definition resolve_twins ::
  "(string, string) btree \<Rightarrow> node_map \<times> build_report \<Rightarrow> node_map \<times> build_report" where
  "resolve_twins remap st =
     fold (apply_remap_entry (document_twin_remap (fst st))) (full_remap remap (fst st)) st"

section \<open>Alias indexes\<close>

type_synonym alias_index = "(string, string list) btree"

definition normalized_index :: "unicode \<Rightarrow> node_map \<Rightarrow> alias_index" where
  "normalized_index u nodes = group_on (\<lambda>i. Some (normalize_id u i)) (bt_keys nodes)"

definition add_legacy_alias :: "string \<Rightarrow> string \<Rightarrow> alias_index \<Rightarrow> alias_index" where
  "add_legacy_alias alias i aliases =
     (if alias = [] then aliases
      else bt_update alias [] (\<lambda>ids. if i \<in> set ids then ids else ids @ [i]) aliases)"

definition node_legacy_aliases :: "unicode \<Rightarrow> node \<Rightarrow> string list" where
  "node_legacy_aliases u n =
     (let stem = (case path_file_stem (n_source_file n) of Some s \<Rightarrow> s | None \<Rightarrow> []);
          name = (case path_file_name (n_source_file n) of Some s \<Rightarrow> s | None \<Rightarrow> []);
          fact = is_document_package_child n \<or> is_enrichment_entity n
      in (if fact then []
          else [normalize_id u (stem @ ''_'' @ trim_end_matches ''()'' (trim_start_matches ''.'' (n_label n)))])
         @ (if \<not> fact \<and> stem \<noteq> [] \<and> (n_label n = name \<or> ends_with (slashes (n_label n)) (''/'' @ name))
            then normalize_id u stem
                 # (case path_parent_name (n_source_file n) of
                      Some parent \<Rightarrow> [normalize_id u (parent @ ''_'' @ stem)] | None \<Rightarrow> [])
            else []))"

definition legacy_index :: "unicode \<Rightarrow> node_map \<Rightarrow> alias_index" where
  "legacy_index u nodes =
     fold (\<lambda>(_, n). fold (\<lambda>alias. add_legacy_alias alias (n_id n)) (node_legacy_aliases u n)) nodes []"

section \<open>Endpoint repair\<close>

datatype endpoint_repair = Exact | SemanticRemap | NormalizedId | LegacyId

record build_index =
  ix_nodes :: node_map
  ix_normalized :: alias_index
  ix_legacy :: alias_index
  ix_remap :: "(string, string) btree"

definition sole :: "alias_index \<Rightarrow> string \<Rightarrow> string option" where
  "sole aliases key = (case bt_get aliases key of Some [i] \<Rightarrow> Some i | _ \<Rightarrow> None)"

definition repair :: "unicode \<Rightarrow> build_index \<Rightarrow> string \<Rightarrow> (string \<times> endpoint_repair) option" where
  "repair u ix value =
     (let i = resolve_endpoint value (ix_remap ix)
      in if bt_has (ix_remap ix) value \<and> bt_has (ix_nodes ix) i then Some (i, SemanticRemap)
         else if bt_has (ix_nodes ix) value then Some (value, Exact)
         else case sole (ix_normalized ix) (normalize_id u value) of
                Some j \<Rightarrow> Some (j, NormalizedId)
              | None \<Rightarrow>
                  (case sole (ix_legacy ix) (normalize_id u value) of
                     Some j \<Rightarrow> Some (j, LegacyId)
                   | None \<Rightarrow> None))"

definition record_endpoint_repair :: "bool \<Rightarrow> (string \<times> endpoint_repair) option \<Rightarrow> build_report \<Rightarrow> build_report" where
  "record_endpoint_repair source endpoint report =
     (case endpoint of
        None \<Rightarrow> report
      | Some (_, Exact) \<Rightarrow> report
      | Some (_, SemanticRemap) \<Rightarrow> repair_edge (if source then SourceSemanticRemap else TargetSemanticRemap) report
      | Some (_, NormalizedId) \<Rightarrow> repair_edge (if source then SourceNormalizedId else TargetNormalizedId) report
      | Some (_, LegacyId) \<Rightarrow> repair_edge (if source then SourceLegacyId else TargetLegacyId) report)"

definition record_hyperedge_member_repair :: "endpoint_repair \<Rightarrow> build_report \<Rightarrow> build_report" where
  "record_hyperedge_member_repair r report =
     (case r of
        Exact \<Rightarrow> report
      | SemanticRemap \<Rightarrow> repair_hyperedge MemberSemanticRemap report
      | NormalizedId \<Rightarrow> repair_hyperedge MemberNormalizedId report
      | LegacyId \<Rightarrow> repair_hyperedge MemberLegacyId report)"

definition language_family :: "string \<Rightarrow> string option" where
  "language_family path =
     (case path_extension path of
        None \<Rightarrow> None
      | Some e \<Rightarrow>
          let ext = ascii_lowercase e
          in if ext \<in> {''js'', ''jsx'', ''mjs'', ''cjs'', ''ts'', ''tsx'', ''mts'', ''cts''} then Some ''js''
             else if ext \<in> {''c'', ''h'', ''cc'', ''cpp'', ''cxx'', ''hpp'', ''hh'', ''hxx'', ''cu'', ''cuh'',
                            ''metal'', ''m'', ''mm''} then Some ''c''
             else if ext \<in> {''cs'', ''razor'', ''cshtml''} then Some ''csharp''
             else if ext \<in> {''py'', ''pyi''} then Some ''python''
             else if ext \<in> {''java'', ''kt'', ''scala'', ''groovy''} then Some ''jvm''
             else if ext = ''go'' then Some ''go''
             else if ext = ''rs'' then Some ''rust''
             else if ext \<in> {''rb'', ''rake''} then Some ''ruby''
             else if ext = ''php'' then Some ''php''
             else if ext = ''swift'' then Some ''swift''
             else if ext = ''lua'' then Some ''lua''
             else None)"

section \<open>Edges\<close>

text \<open>
  \<open>str::parse::<f64>()\<close> for a finite result: an optional sign, digits with an optional point, and
  an optional exponent. \<open>inf\<close>, \<open>nan\<close>, text of another form and values that round to infinity
  give \<open>None\<close>, as the code goes on with finite numbers only.
\<close>

definition split_sign :: "string \<Rightarrow> bool \<times> string" where
  "split_sign s =
     (case s of [] \<Rightarrow> (False, [])
      | c # cs \<Rightarrow> if c = CHR ''-'' then (True, cs) else if c = CHR ''+'' then (False, cs) else (False, s))"

definition parse_exponent :: "string \<Rightarrow> int option" where
  "parse_exponent s =
     (case s of [] \<Rightarrow> Some 0
      | c # cs \<Rightarrow>
          if c \<noteq> CHR ''e'' \<and> c \<noteq> CHR ''E'' then None
          else let (negative, ds) = split_sign cs
               in if ds = [] \<or> \<not> list_all ascii_digit ds then None
                  else Some (if negative then - int (digits_value ds) else int (digits_value ds)))"

definition scaled :: "nat \<Rightarrow> int \<Rightarrow> real" where
  "scaled m e = (if e \<ge> 0 then real m * 10 ^ nat e else real m / 10 ^ nat (- e))"

definition parse_finite :: "string \<Rightarrow> real option" where
  "parse_finite s =
     (let (negative, rest) = split_sign s;
          whole = takeWhile ascii_digit rest; rest = dropWhile ascii_digit rest;
          (frac, rest) = (case rest of
             [] \<Rightarrow> ([], [])
           | c # cs \<Rightarrow> if c = CHR ''.'' then (takeWhile ascii_digit cs, dropWhile ascii_digit cs) else ([], rest))
      in if whole = [] \<and> frac = [] then None
         else case parse_exponent rest of
                None \<Rightarrow> None
              | Some e \<Rightarrow>
                  let v = scaled (digits_value (whole @ frac)) (e - int (length frac))
                  in if v \<ge> 2 ^ 1024 - 2 ^ 970 then None else Some (if negative then - v else v))"

definition normalized_number :: "json \<Rightarrow> json" where
  "normalized_number value =
     (let number = (case as_f64 value of Some r \<Rightarrow> Some r | None \<Rightarrow> Option.bind (as_str value) parse_finite)
      in JNum (JFloat (case number of Some r \<Rightarrow> if r \<ge> 0 then r else 1 | None \<Rightarrow> 1)))"

definition normalize_number_field ::
  "string \<Rightarrow> edge_repair_reason \<Rightarrow> edge \<times> build_report \<Rightarrow> edge \<times> build_report" where
  "normalize_number_field key reason st =
     (let (e, report) = st
      in case bt_get (e_extra e) key of
           None \<Rightarrow> (e, report)
         | Some value \<Rightarrow>
             let normalized = normalized_number value
             in (e\<lparr>e_extra := bt_put key normalized (e_extra e)\<rparr>,
                 if normalized \<noteq> value then repair_edge reason report else report))"

definition remove_field ::
  "string \<Rightarrow> edge_repair_reason \<Rightarrow> edge \<times> build_report \<Rightarrow> edge \<times> build_report" where
  "remove_field key reason st =
     (let (e, report) = st
      in if bt_has (e_extra e) key
         then (e\<lparr>e_extra := bt_del key (e_extra e)\<rparr>, repair_edge reason report) else (e, report))"

definition backfill_source_file :: "node \<Rightarrow> node \<Rightarrow> edge \<times> build_report \<Rightarrow> edge \<times> build_report" where
  "backfill_source_file source_node target_node st =
     (let (e, report) = st;
          source_file = (if n_source_file source_node \<noteq> [] then n_source_file source_node
                         else n_source_file target_node)
      in if e_source_file e = [] \<and> source_file \<noteq> []
         then (e\<lparr>e_source_file := source_file\<rparr>, repair_edge SourceFileBackfilled report)
         else (e, report))"

definition backfill_score :: "edge \<times> build_report \<Rightarrow> edge \<times> build_report" where
  "backfill_score st =
     (let (e, report) = st
      in if bt_has (e_extra e) ''confidence_score'' then (e, report)
         else (e\<lparr>e_extra := bt_put ''confidence_score'' (JNum (JFloat (default_score (e_confidence e)))) (e_extra e)\<rparr>,
               repair_edge ConfidenceScoreBackfilled report))"

definition repaired_edge :: "string \<Rightarrow> string \<Rightarrow> edge \<Rightarrow> edge" where
  "repaired_edge source target e =
     e\<lparr>e_source := source, e_target := target,
       e_extra := bt_put ''_tgt'' (JStr target) (bt_put ''_src'' (JStr source) (e_extra e))\<rparr>"

definition canonical_edge ::
  "node \<Rightarrow> node \<Rightarrow> string \<Rightarrow> string \<Rightarrow> edge \<Rightarrow> build_report \<Rightarrow> edge \<times> build_report" where
  "canonical_edge source_node target_node source target e report =
     backfill_score
       (backfill_source_file source_node target_node
         (normalize_number_field ''confidence_score'' ConfidenceScoreNormalized
           (normalize_number_field ''weight'' WeightNormalized
             (remove_field ''local_alias'' LocalAliasMetadataRemoved
               (remove_field ''target_file'' TargetFileMetadataRemoved
                 (repaired_edge source target e, report))))))"

text \<open>
  The code looks both ends up in the node map by indexing. They come from \<open>repair\<close>, which returns
  keys of that map as long as the map is keyed by identifier (\<open>repair_finds_nodes\<close>).
\<close>

definition edge_drop_of :: "build_index \<Rightarrow> edge \<Rightarrow> string \<Rightarrow> string \<Rightarrow> edge_drop_reason option" where
  "edge_drop_of ix e source target =
     (if source = target \<and> e_relation e \<in> {''imports'', ''imports_from'', ''re_exports''}
      then Some ImportSelfLoop
      else
        let source_family = language_family (n_source_file (the (bt_get (ix_nodes ix) source)));
            target_family = language_family (n_source_file (the (bt_get (ix_nodes ix) target)));
            cross_language = source_family \<noteq> None \<and> target_family \<noteq> None \<and> source_family \<noteq> target_family
        in if cross_language \<and> (e_relation e = ''calls'' \<and> e_confidence e \<noteq> Extracted
                \<or> e_relation e \<in> {''imports'', ''imports_from'', ''references''})
           then Some (if e_relation e = ''calls'' then CrossLanguageInferredCall else CrossLanguageImportOrReference)
           else None)"

record edge_state =
  es_links :: "edge list"
  es_seen :: "(string \<times> string \<times> string, nat) btree"
  es_report :: build_report

definition record_direction :: "edge \<Rightarrow> build_report \<Rightarrow> build_report" where
  "record_direction e report =
     (let r = (if true_source e \<noteq> e_source e then repair_edge DirectionalSourceRestored report else report)
      in if true_target e \<noteq> e_target e then repair_edge DirectionalTargetRestored r else r)"

definition store_edge :: "edge \<Rightarrow> edge_state \<Rightarrow> edge_state" where
  "store_edge e st =
     (case bt_get (es_seen st) (edge_key e) of
        Some position \<Rightarrow>
          st\<lparr>es_links := (es_links st)[position := e], es_report := drop_edge ExactDuplicate (es_report st)\<rparr>
      | None \<Rightarrow>
          st\<lparr>es_seen := bt_put (edge_key e) (length (es_links st)) (es_seen st),
             es_links := es_links st @ [e]\<rparr>)"

definition resolve_edge :: "unicode \<Rightarrow> build_index \<Rightarrow> edge \<Rightarrow> edge_state \<Rightarrow> edge_state" where
  "resolve_edge u ix e st =
     (let source = repair u ix (true_source e); target = repair u ix (true_target e);
          report = record_endpoint_repair False target
                     (record_endpoint_repair True source (record_direction e (es_report st)))
      in case (source, target) of
           (None, None) \<Rightarrow> st\<lparr>es_report := drop_edge UnresolvedSourceAndTarget report\<rparr>
         | (None, Some _) \<Rightarrow> st\<lparr>es_report := drop_edge UnresolvedSource report\<rparr>
         | (Some _, None) \<Rightarrow> st\<lparr>es_report := drop_edge UnresolvedTarget report\<rparr>
         | (Some (s, _), Some (t, _)) \<Rightarrow>
             (case edge_drop_of ix e s t of
                Some reason \<Rightarrow> st\<lparr>es_report := drop_edge reason report\<rparr>
              | None \<Rightarrow>
                  let (e', report') =
                        canonical_edge (the (bt_get (ix_nodes ix) s)) (the (bt_get (ix_nodes ix) t)) s t e report
                  in store_edge e' (st\<lparr>es_report := report'\<rparr>)))"

definition all_edges :: "extraction list \<Rightarrow> edge list" where
  "all_edges xs = sort_key (\<lambda>e. (true_source e, true_target e, e_relation e)) (concat (map x_edges xs))"

definition resolve_edges :: "unicode \<Rightarrow> build_index \<Rightarrow> edge list \<Rightarrow> build_report \<Rightarrow> edge_state" where
  "resolve_edges u ix edges report =
     fold (resolve_edge u ix) edges \<lparr>es_links = [], es_seen = [], es_report = report\<rparr>"

section \<open>Hyperedges\<close>

record hyper_state =
  hs_hyperedges :: "json list"
  hs_ids :: "string list"
  hs_report :: build_report

definition member_alias_used :: "jobject \<Rightarrow> bool" where
  "member_alias_used m \<longleftrightarrow> \<not> has_array m ''nodes'' \<and> (has_array m ''members'' \<or> has_array m ''node_ids'')"

text \<open>The members that can be resolved, in order, with repetitions.\<close>

fun resolve_members ::
  "unicode \<Rightarrow> build_index \<Rightarrow> json list \<Rightarrow> build_report \<Rightarrow> string list \<times> build_report" where
  "resolve_members u ix [] report = ([], report)"
| "resolve_members u ix (raw # raws) report =
     (case as_str raw of
        None \<Rightarrow> resolve_members u ix raws (repair_hyperedge NonStringMemberRemoved report)
      | Some member \<Rightarrow>
          (case repair u ix member of
             None \<Rightarrow> resolve_members u ix raws (repair_hyperedge UnresolvedMemberRemoved report)
           | Some (i, r) \<Rightarrow>
               let report = record_hyperedge_member_repair r report
               in if bt_has (ix_nodes ix) i
                  then let (members, report') = resolve_members u ix raws report in (i # members, report')
                  else resolve_members u ix raws (repair_hyperedge UnresolvedMemberRemoved report)))"

definition id_candidate :: "unicode \<Rightarrow> string \<Rightarrow> string \<Rightarrow> nat \<Rightarrow> string" where
  "id_candidate u base source_file ordinal =
     (if ordinal = 1 then make_id u [base, source_file]
      else make_id u [base, source_file, show_nat ordinal])"

fun fresh_id :: "nat \<Rightarrow> unicode \<Rightarrow> string list \<Rightarrow> string \<Rightarrow> string \<Rightarrow> nat \<Rightarrow> string option" where
  "fresh_id 0 u ids base source_file ordinal = None"
| "fresh_id (Suc k) u ids base source_file ordinal =
     (let candidate = id_candidate u base source_file ordinal
      in if candidate \<notin> set ids then Some candidate
         else fresh_id k u ids base source_file (ordinal + 1))"

definition declared_id :: "jobject \<Rightarrow> string option" where
  "declared_id m = (case get_str m ''id'' of Some i \<Rightarrow> if i = [] then None else Some i | None \<Rightarrow> None)"

definition hyperedge_source :: "jobject \<Rightarrow> string" where
  "hyperedge_source m = (case get_str m ''source_file'' of Some s \<Rightarrow> s | None \<Rightarrow> ''duplicate'')"

definition store_hyperedge ::
  "unicode \<Rightarrow> jobject \<Rightarrow> hyper_state \<Rightarrow> build_error + hyper_state" where
  "store_hyperedge u m st =
     (let base = (case declared_id m of Some i \<Rightarrow> i | None \<Rightarrow> ''hyperedge'');
          report = (if declared_id m = None then repair_hyperedge MissingIdBackfilled (hs_report st)
                    else hs_report st)
      in if base \<notin> set (hs_ids st)
         then Inr \<lparr>hs_hyperedges = hs_hyperedges st @ [JObj (bt_put ''id'' (JStr base) m)],
                   hs_ids = base # hs_ids st, hs_report = report\<rparr>
         else case fresh_id (Suc (length (hs_ids st))) u (hs_ids st) base (hyperedge_source m) 1 of
                None \<Rightarrow> Inl NoFreshId
              | Some i \<Rightarrow>
                  Inr \<lparr>hs_hyperedges = hs_hyperedges st @ [JObj (bt_put ''id'' (JStr i) m)],
                       hs_ids = i # hs_ids st, hs_report = repair_hyperedge DuplicateIdRemapped report\<rparr>)"

definition resolve_hyperedge ::
  "unicode \<Rightarrow> build_index \<Rightarrow> json \<Rightarrow> hyper_state \<Rightarrow> build_error + hyper_state" where
  "resolve_hyperedge u ix raw st =
     (case as_object raw of
        None \<Rightarrow> Inr (st\<lparr>hs_report := drop_hyperedge NonObject (hs_report st)\<rparr>)
      | Some object \<Rightarrow>
          let report = (if member_alias_used object then repair_hyperedge MembersAliasNormalized (hs_report st)
                        else hs_report st);
              object = normalize_hyperedge_object object
          in case Option.bind (bt_get object ''nodes'') as_array of
               None \<Rightarrow> Inr (st\<lparr>hs_report := drop_hyperedge MissingOrInvalidMembers report\<rparr>)
             | Some raw_members \<Rightarrow>
                 let (members, report) = resolve_members u ix raw_members report;
                     kept = retain_first (\<lambda>m. m) {} members;
                     report = (repair_hyperedge DuplicateMemberRemoved ^^ (length members - length kept)) report
                 in if kept = [] then Inr (st\<lparr>hs_report := drop_hyperedge NoResolvedMembers report\<rparr>)
                    else store_hyperedge u (bt_put ''nodes'' (JArr (map JStr kept)) object)
                           (st\<lparr>hs_report := report\<rparr>))"

fun resolve_hyperedges ::
  "unicode \<Rightarrow> build_index \<Rightarrow> json list \<Rightarrow> hyper_state \<Rightarrow> build_error + hyper_state" where
  "resolve_hyperedges u ix [] st = Inr st"
| "resolve_hyperedges u ix (h # hs) st =
     (case resolve_hyperedge u ix h st of
        Inl err \<Rightarrow> Inl err | Inr st' \<Rightarrow> resolve_hyperedges u ix hs st')"

section \<open>The build\<close>

record build_options =
  o_directed :: bool
  o_deduplicate_semantic_nodes :: bool
  o_collapse_undirected_reverse_edges :: bool

definition default_options :: build_options where
  "default_options = \<lparr>o_directed = False, o_deduplicate_semantic_nodes = True,
     o_collapse_undirected_reverse_edges = False\<rparr>"

definition initial_report :: "extraction list \<Rightarrow> build_report" where
  "initial_report xs = \<lparr>b_input_extractions = length xs,
     b_input_nodes = sum_list (map (length \<circ> x_nodes) xs),
     b_input_edges = sum_list (map (length \<circ> x_edges) xs),
     b_input_hyperedges = sum_list (map (length \<circ> x_hyperedges) xs),
     b_output_nodes = 0, b_output_edges = 0, b_output_hyperedges = 0,
     b_node_drops = [], b_node_merges = [], b_edge_drops = [], b_edge_repairs = [],
     b_hyperedge_drops = [], b_hyperedge_repairs = []\<rparr>"

definition empty_dedup_report :: dedup_report where
  "empty_dedup_report = \<lparr>dr_same_label_nodes_merged = 0, dr_fuzzy_label_nodes_merged = 0,
     dr_source_endpoints_remapped = 0, dr_target_endpoints_remapped = 0, dr_self_loops_dropped = 0,
     dr_duplicate_edges_dropped = 0, dr_hyperedge_members_remapped = 0,
     dr_hyperedge_duplicate_members_removed = 0\<rparr>"

definition record_dedup :: "dedup_report \<Rightarrow> build_report \<Rightarrow> build_report" where
  "record_dedup d report =
     repair_hyperedges DuplicateMemberAfterNodeMerge (dr_hyperedge_duplicate_members_removed d)
       (repair_hyperedges MemberAfterNodeMerge (dr_hyperedge_members_remapped d)
         (drop_edges ExactDuplicateAfterNodeMerge (dr_duplicate_edges_dropped d)
           (drop_edges SelfLoopAfterNodeMerge (dr_self_loops_dropped d)
             (repair_edges TargetAfterNodeMerge (dr_target_endpoints_remapped d)
               (repair_edges SourceAfterNodeMerge (dr_source_endpoints_remapped d)
                 (count_merges SemanticFuzzyLabel (dr_fuzzy_label_nodes_merged d)
                   (count_merges SemanticSameLabel (dr_same_label_nodes_merged d) report)))))))"

definition undirected_key :: "edge \<Rightarrow> string \<times> string \<times> string" where
  "undirected_key e =
     (if e_source e \<le> e_target e then (e_source e, e_target e, e_relation e)
      else (e_target e, e_source e, e_relation e))"

definition collapse_reverse_edges :: "graph \<times> build_report \<Rightarrow> graph \<times> build_report" where
  "collapse_reverse_edges st =
     (let (g, report) = st; links = retain_first undirected_key {} (g_links g)
      in (g\<lparr>g_links := links\<rparr>,
          (drop_edge UndirectedReverseDuplicate ^^ (length (g_links g) - length links)) report))"

definition finish_graph :: "graph \<times> build_report \<Rightarrow> graph \<times> build_report" where
  "finish_graph st =
     (let (g, report) = st; g = g\<lparr>g_nodes := disambiguate_file_labels_in_nodes (g_nodes g)\<rparr>
      in (g, report\<lparr>b_output_nodes := length (g_nodes g), b_output_edges := length (g_links g),
               b_output_hyperedges := length (g_hyperedges g)\<rparr>))"

definition after_resolution ::
  "unicode \<Rightarrow> fuzzy \<Rightarrow> build_options \<Rightarrow> graph \<times> build_report \<Rightarrow> graph \<times> build_report" where
  "after_resolution u f opts st =
     (let (g, report) = st;
          (g, d) = (if o_deduplicate_semantic_nodes opts then deduplicate_with_report u f g
                    else (g, empty_dedup_report));
          report = record_dedup d report
      in finish_graph
           (if \<not> o_directed opts \<and> o_collapse_undirected_reverse_edges opts
            then collapse_reverse_edges (g, report) else (g, report)))"

definition build_index_of :: "unicode \<Rightarrow> (string, string) btree \<Rightarrow> node_map \<Rightarrow> node_map \<Rightarrow> build_index" where
  "build_index_of u remap merged nodes =
     \<lparr>ix_nodes = nodes, ix_normalized = normalized_index u nodes, ix_legacy = legacy_index u nodes,
      ix_remap = full_remap remap merged\<rparr>"

text \<open>Everything up to deduplication, and the whole.\<close>

definition resolve_extractions ::
  "unicode \<Rightarrow> extraction list \<Rightarrow> bool \<Rightarrow> build_error + graph \<times> build_report" where
  "resolve_extractions u xs directed =
     (let remap = semantic_id_remap u xs
      in case merge_input_nodes remap (concat (map x_nodes xs)) ([], initial_report xs) of
           Inl err \<Rightarrow> Inl err
         | Inr merged \<Rightarrow>
             let (nodes, report) = resolve_twins remap merged;
                 ix = build_index_of u remap (fst merged) nodes;
                 es = resolve_edges u ix (all_edges xs) report
             in case resolve_hyperedges u ix (concat (map x_hyperedges xs))
                       \<lparr>hs_hyperedges = [], hs_ids = [], hs_report = es_report es\<rparr> of
                  Inl err \<Rightarrow> Inl err
                | Inr hs \<Rightarrow>
                    Inr (\<lparr>g_directed = directed, g_multigraph = False, g_nodes = map snd nodes,
                          g_links = es_links es, g_hyperedges = hs_hyperedges hs,
                          g_extra = [(''graph'', JObj [])]\<rparr>, hs_report hs))"

definition build_normalized ::
  "unicode \<Rightarrow> fuzzy \<Rightarrow> extraction list \<Rightarrow> build_options \<Rightarrow> build_error + graph \<times> build_report" where
  "build_normalized u f xs opts =
     (case resolve_extractions u xs (o_directed opts) of
        Inl err \<Rightarrow> Inl err
      | Inr st \<Rightarrow> Inr (after_resolution u f opts st))"

definition build_graph_with_report_and_options ::
  "unicode \<Rightarrow> fuzzy \<Rightarrow> string option \<Rightarrow> extraction list \<Rightarrow> build_options \<Rightarrow> build_error + graph \<times> build_report" where
  "build_graph_with_report_and_options u f base xs opts =
     build_normalized u f (normalize_extractions u base xs) opts"

definition attach_hyperedges :: "json list \<Rightarrow> graph \<Rightarrow> graph" where
  "attach_hyperedges values g =
     (let ids = List.map_filter (\<lambda>v. Option.bind (vget v ''id'') as_str);
          (added, _) = fold (\<lambda>v (added, seen).
              case Option.bind (vget v ''id'') as_str of
                None \<Rightarrow> (added, seen)
              | Some i \<Rightarrow> if i = [] \<or> i \<in> seen then (added, seen) else (added @ [v], insert i seen))
            values ([], set (ids (g_hyperedges g)))
      in g\<lparr>g_hyperedges := g_hyperedges g @ added\<rparr>)"

end
