(* ===== verification/Build_Facts.thy ===== *)
theory Build_Facts
  imports Build
begin

text \<open>
  What a build guarantees: the phases conserve nodes, edges and hyperedges, the node map stays keyed
  by identifier, and every end that is stored names a node.
\<close>

section \<open>Replacement identifiers\<close>

text \<open>
  What is relied on of NFKC and of case folding: neither deletes all letters and digits of a text. So
  no replacement of a stale identifier is empty (\<open>remap_named\<close>). That none is itself stale
  (\<open>unchained\<close>) depends on the input.
\<close>

definition has_alnum :: "string \<Rightarrow> bool" where
  "has_alnum s \<longleftrightarrow> list_ex is_alphanumeric s"

definition keeps_letters :: "unicode \<Rightarrow> bool" where
  "keeps_letters u \<longleftrightarrow> ascii_laws u
     \<and> (\<forall>s. has_alnum s \<longrightarrow> has_alnum (u_nfkc u s) \<and> has_alnum (u_case_fold u s))"

lemma keeps_letters_plain: "keeps_letters plain_unicode"
  using plain_unicode_laws by (simp add: keeps_letters_def plain_unicode_def)

lemma to_lower_alnum:
  assumes "is_alphanumeric c"
  shows "is_alphanumeric (to_lower c)"
proof (cases "ascii_upper c \<or> CHR 0xC0 \<le> c \<and> c \<le> CHR 0xDE \<and> c \<noteq> CHR 0xD7")
  case True
  define n :: nat where "n = of_char c"
  have "n \<noteq> 215" if "c \<noteq> CHR 0xD7"
  proof
    assume "n = 215"
    then have "of_char c = (of_char (CHR 0xD7) :: nat)" by (simp add: n_def)
    then show False using that by (simp only: of_char_eq_iff)
  qed
  then have range: "65 \<le> n \<and> n \<le> 90 \<or> 192 \<le> n \<and> n \<le> 222 \<and> n \<noteq> 215"
    using True by (auto simp: ascii_upper_def less_eq_char_def n_def)
  then have "(n + 32) mod 256 = n + 32" by auto
  then have code: "of_char (to_lower c) = n + 32"
    using True by (simp add: to_lower_def n_def take_bit_eq_mod)
  have "to_lower c \<noteq> CHR 0xF7"
  proof
    assume "to_lower c = CHR 0xF7"
    then show False using code range by simp
  qed
  then show ?thesis
    using code range by (auto simp: is_alphanumeric_def ascii_alnum_def ascii_lower_def less_eq_char_def)
next
  case False
  then show ?thesis using assms by (simp only: to_lower_def if_False)
qed

lemma id_loop_alnum:
  "has_alnum acc \<or> acc = [] \<Longrightarrow> has_alnum (id_loop acc pending s) \<longleftrightarrow> acc \<noteq> [] \<or> has_alnum s"
  "has_alnum acc \<or> acc = [] \<Longrightarrow> id_loop acc pending s = [] \<longleftrightarrow> acc = [] \<and> \<not> has_alnum s"
  by (induction acc pending s rule: id_loop.induct) (auto simp: has_alnum_def to_lower_alnum)

lemma trim_alnum:
  assumes "\<And>c. P c \<Longrightarrow> \<not> is_alphanumeric c"
  shows "has_alnum (trim_by P s) \<longleftrightarrow> has_alnum s"
proof -
  have drop: "has_alnum (dropWhile P t) \<longleftrightarrow> has_alnum t" for t
    using assms by (induction t) (auto simp: has_alnum_def)
  have rev: "has_alnum (rev t) \<longleftrightarrow> has_alnum t" for t by (simp add: has_alnum_def)
  show ?thesis by (simp add: trim_by_def trim_start_by_def trim_end_by_def drop rev)
qed

lemma normalize_id_alnum:
  assumes "keeps_letters u"
  shows "has_alnum s \<Longrightarrow> has_alnum (normalize_id u s)"
    and "normalize_id u s \<noteq> [] \<Longrightarrow> has_alnum (normalize_id u s)"
proof -
  have fold: "u_case_fold u [] = []" using assms by (simp add: keeps_letters_def ascii_laws_def)
  show pos: "has_alnum (normalize_id u s)" if "has_alnum s" for s
  proof -
    have "has_alnum (id_loop [] False (u_nfkc u s))"
      using assms that by (simp add: keeps_letters_def id_loop_alnum(1))
    then have "has_alnum (trim_by (\<lambda>c. c = CHR ''_'') (id_loop [] False (u_nfkc u s)))"
      by (subst trim_alnum) auto
    then show ?thesis using assms by (simp add: normalize_id_def keeps_letters_def)
  qed
  show "has_alnum (normalize_id u s)" if ne: "normalize_id u s \<noteq> []"
  proof -
    have "id_loop [] False (u_nfkc u s) \<noteq> []"
      using ne fold by (auto simp: normalize_id_def trim_by_def trim_start_by_def trim_end_by_def)
    then have "has_alnum (id_loop [] False (u_nfkc u s))"
      using id_loop_alnum [of "[]"] by blast
    then have "has_alnum (trim_by (\<lambda>c. c = CHR ''_'') (id_loop [] False (u_nfkc u s)))"
      by (subst trim_alnum) auto
    then show ?thesis using assms by (simp add: normalize_id_def keeps_letters_def)
  qed
qed

lemma make_id_named:
  assumes "keeps_letters u" "has_alnum canonical"
  shows "make_id u [canonical, rest] \<noteq> []"
proof -
  let ?t = "trim_by (\<lambda>c. c = CHR ''_'' \<or> c = CHR ''.'')"
  have "\<not> is_alphanumeric (CHR ''.'')" by code_simp
  then have "has_alnum (?t canonical)" using assms(2) by (subst trim_alnum) auto
  then have "has_alnum (join_with ''_'' (map ?t (filter (\<lambda>p. p \<noteq> []) [canonical, rest])))"
    using assms(2) by (auto simp: has_alnum_def)
  then show ?thesis using normalize_id_alnum(1) [OF assms(1)] by (fastforce simp: make_id_def has_alnum_def)
qed

lemma replace_stem_named:
  "keeps_letters u \<Longrightarrow> has_alnum canonical \<Longrightarrow> replace_stem u canonical i olds = Some r \<Longrightarrow> r \<noteq> []"
  by (induction olds) (auto simp: make_id_named has_alnum_def split: if_splits option.splits)

lemma semantic_replacement_named:
  assumes u: "keeps_letters u" and r: "semantic_replacement u n = Some r"
  shows "r \<noteq> []"
proof -
  define canonical where "canonical = normalize_id u (source_file_stem (n_source_file n))"
  obtain olds where "canonical \<noteq> []" and stem: "replace_stem u canonical (n_id n) olds = Some r"
    using r unfolding semantic_replacement_def canonical_def [symmetric] Let_def
    by (auto simp del: replace_stem.simps split: if_split_asm option.split_asm)
  then have "has_alnum canonical" using normalize_id_alnum(2) [OF u] unfolding canonical_def by blast
  then show ?thesis using replace_stem_named [OF u _ stem] by blast
qed

definition remap_named :: "(string, string) btree \<Rightarrow> bool" where
  "remap_named remap \<longleftrightarrow> (\<forall>k v. bt_get remap k = Some v \<longrightarrow> v \<noteq> [])"

definition unchained :: "(string, string) btree \<Rightarrow> bool" where
  "unchained remap \<longleftrightarrow> (\<forall>k v. bt_get remap k = Some v \<longrightarrow> \<not> bt_has remap v)"

lemma remap_named: "keeps_letters u \<Longrightarrow> remap_named (semantic_id_remap u xs)"
proof -
  assume u: "keeps_letters u"
  have put: "remap_named m \<Longrightarrow> semantic_replacement u n = Some r \<Longrightarrow> remap_named (bt_put (n_id n) r m)" for n r m
    using semantic_replacement_named [OF u] by (simp add: remap_named_def)
  have "remap_named m \<Longrightarrow>
      remap_named (fold (\<lambda>n m. case semantic_replacement u n of None \<Rightarrow> m | Some r \<Rightarrow> bt_put (n_id n) r m) ns m)" for ns m
    by (induction ns arbitrary: m) (auto simp: put split: option.split)
  moreover have "remap_named []" by (simp add: remap_named_def)
  ultimately show ?thesis unfolding semantic_id_remap_def by blast
qed

section \<open>Merging input nodes\<close>

definition keyed :: "node_map \<Rightarrow> bool" where
  "keyed nodes \<longleftrightarrow> bt_wf nodes \<and> (\<forall>k n. bt_get nodes k = Some n \<longrightarrow> n_id n = k \<and> k \<noteq> [])"

lemma keyed_Nil [simp]: "keyed []"
  by (simp add: keyed_def)

lemma keyed_put: "keyed nodes \<Longrightarrow> n_id n = k \<Longrightarrow> k \<noteq> [] \<Longrightarrow> keyed (bt_put k n nodes)"
  by (simp add: keyed_def)

lemma keyed_del: "keyed nodes \<Longrightarrow> keyed (bt_del k nodes)"
  by (simp add: keyed_def)

lemma keyedD: "keyed nodes \<Longrightarrow> bt_get nodes k = Some n \<Longrightarrow> n_id n = k \<and> k \<noteq> []"
  by (simp add: keyed_def)

lemma keyed_wf [simp]: "keyed nodes \<Longrightarrow> bt_wf nodes"
  by (simp add: keyed_def)

lemma merge_node_id: "n_id incoming = n_id existing \<Longrightarrow> n_id (merge_node existing incoming) = n_id existing"
  by (simp add: merge_node_def Let_def)

lemma get_fill_missing: "bt_get (fill_missing others extra) k =
    (case bt_get extra k of None \<Rightarrow> bt_get (fill_missing others extra) k | Some v \<Rightarrow> Some v)"
proof -
  have "bt_get extra k = Some v \<Longrightarrow> bt_get (fold (\<lambda>(key, value). bt_or_insert key value) others extra) k = Some v" for v
  proof (induction others arbitrary: extra)
    case (Cons kv others)
    have "bt_get (bt_or_insert (fst kv) (snd kv) extra) k = Some v"
      using Cons.prems by (auto simp: bt_or_insert_def bt_has_def)
    then show ?case using Cons.IH by (simp add: split_def)
  qed simp
  then show ?thesis by (simp add: fill_missing_def split: option.splits)
qed

lemma merge_into_structural:
  assumes "is_structural_node existing" and "\<not> is_structural_node incoming"
  shows "n_id (merge_node existing incoming) = n_id existing"
    and "is_structural_node (merge_node existing incoming)"
proof -
  have m: "merge_node existing incoming = existing\<lparr>n_extra := fill_missing (n_extra incoming) (n_extra existing),
                n_source_location := (case n_source_location existing of
                   None \<Rightarrow> n_source_location incoming | Some l \<Rightarrow> Some l)\<rparr>"
    using assms by (simp add: merge_node_def)
  then show "n_id (merge_node existing incoming) = n_id existing" by simp
  obtain v where "bt_get (n_extra existing) ''_origin'' = Some v"
    using assms(1) by (auto simp: is_structural_node_def get_str_def bind_eq_Some_conv)
  then have "get_str (fill_missing (n_extra incoming) (n_extra existing)) ''_origin'' =
      get_str (n_extra existing) ''_origin''"
    using get_fill_missing [of "n_extra incoming" "n_extra existing" "''_origin''"] by (simp add: get_str_def)
  then show "is_structural_node (merge_node existing incoming)"
    using assms(1) by (simp add: m is_structural_node_def)
qed

text \<open>What a phase leaves alone in the report.\<close>

definition edge_side :: "build_report \<Rightarrow> (nat \<times> nat \<times> nat) \<times> nat \<times> nat" where
  "edge_side r = (inputs r, dropped_edge_count r, dropped_hyperedge_count r)"

definition node_side :: "build_report \<Rightarrow> (nat \<times> nat \<times> nat) \<times> nat \<times> nat" where
  "node_side r = (inputs r, dropped_node_count r, merged_node_count r)"

definition node_mass :: "node_map \<times> build_report \<Rightarrow> nat" where
  "node_mass st = length (fst st) + merged_node_count (snd st) + dropped_node_count (snd st)"

lemma merge_input_node_step:
  assumes "merge_input_node remap n (nodes, report) = Inr (nodes', report')"
    and "bt_wf nodes" and "report_wf report"
  shows "bt_wf nodes' \<and> report_wf report' \<and> edge_side report' = edge_side report
    \<and> node_mass (nodes', report') = Suc (node_mass (nodes, report))"
  using assms
  by (auto simp: merge_input_node_def Let_def edge_side_def node_mass_def length_bt_put bt_has_def
      split: if_splits option.splits)

lemma merge_input_node_keyed:
  assumes m: "merge_input_node remap n (nodes, report) = Inr (nodes', report')"
    and k: "keyed nodes" and s: "remap_named remap"
    and fresh: "unchained remap \<Longrightarrow> bt_has nodes i \<Longrightarrow> \<not> bt_has remap i"
  shows "keyed nodes' \<and> (unchained remap \<longrightarrow> bt_has nodes' i \<longrightarrow> \<not> bt_has remap i)"
proof (cases "n_id n = []")
  case True
  then show ?thesis using assms by (auto simp: merge_input_node_def)
next
  case False
  define n2 where n2: "n2 = remapped_node remap n"
  have id2: "n_id n2 \<noteq> []" "unchained remap \<Longrightarrow> \<not> bt_has remap (n_id n2)"
    using False s by (auto simp: n2 remapped_node_def remap_named_def unchained_def bt_has_def split: option.splits)
  have "nodes' = bt_put (n_id n2) (case bt_get nodes (n_id n2) of None \<Rightarrow> n2 | Some e \<Rightarrow> merge_node e n2) nodes"
    using m False
    by (auto simp: merge_input_node_def Let_def n2 [symmetric] split: option.splits if_splits)
  moreover have "n_id (case bt_get nodes (n_id n2) of None \<Rightarrow> n2 | Some e \<Rightarrow> merge_node e n2) = n_id n2"
  proof (cases "bt_get nodes (n_id n2)")
    case (Some e)
    then have "n_id e = n_id n2" using keyedD [OF k] by blast
    then show ?thesis using Some merge_node_id [of n2 e] by simp
  qed simp
  ultimately show ?thesis using keyed_put [OF k _ id2(1)] id2(2) fresh by simp
qed

lemma merge_input_nodes_mass:
  assumes "merge_input_nodes remap ns (nodes, report) = Inr (nodes', report')"
    and "bt_wf nodes" and "report_wf report"
  shows "bt_wf nodes' \<and> report_wf report' \<and> edge_side report' = edge_side report
    \<and> node_mass (nodes', report') = length ns + node_mass (nodes, report)"
  using assms
proof (induction ns arbitrary: nodes report)
  case Nil
  then show ?case by simp
next
  case (Cons n ns)
  obtain nodes1 report1 where s: "merge_input_node remap n (nodes, report) = Inr (nodes1, report1)"
    using Cons.prems(1) by (auto split: sum.splits)
  then show ?case
    using Cons.IH [of nodes1 report1] Cons.prems merge_input_node_step [OF s] by simp
qed

lemma merge_input_nodes_keyed:
  assumes "merge_input_nodes remap ns (nodes, report) = Inr (nodes', report')"
    and "keyed nodes" and "unchained remap \<Longrightarrow> bt_has nodes i \<Longrightarrow> \<not> bt_has remap i" and "remap_named remap"
  shows "keyed nodes' \<and> (unchained remap \<longrightarrow> bt_has nodes' i \<longrightarrow> \<not> bt_has remap i)"
  using assms
proof (induction ns arbitrary: nodes report)
  case Nil
  then show ?case by simp
next
  case (Cons n ns)
  obtain nodes1 report1 where s: "merge_input_node remap n (nodes, report) = Inr (nodes1, report1)"
    using Cons.prems(1) by (auto split: sum.splits)
  have "keyed nodes1 \<and> (unchained remap \<longrightarrow> bt_has nodes1 i \<longrightarrow> \<not> bt_has remap i)"
    using merge_input_node_keyed [OF s Cons.prems(2,4,3)] by blast
  then show ?case using Cons.IH [of nodes1 report1] Cons.prems s by simp
qed

section \<open>Twins and ghosts\<close>

lemma apply_remap_entry_mass:
  assumes "bt_wf nodes" and "report_wf report"
    and "apply_remap_entry twins entry (nodes, report) = (nodes', report')"
  shows "bt_wf nodes' \<and> report_wf report' \<and> edge_side report' = edge_side report
    \<and> node_mass (nodes', report') = node_mass (nodes, report)"
proof -
  obtain old canonical where e: "entry = (old, canonical)" by fastforce
  define merged where m: "merged = (if bt_has twins old then nodes
                    else case (bt_get nodes old, bt_get nodes canonical) of
                           (Some incoming, Some existing) \<Rightarrow>
                             bt_put canonical (merge_node existing incoming) nodes
                         | _ \<Rightarrow> nodes)"
  have "length merged = length nodes" "bt_wf merged"
    using assms(1) by (auto simp: m length_bt_put bt_has_def split: option.splits)
  then show ?thesis
    using assms length_bt_del [of merged old]
    by (auto simp: apply_remap_entry_def e m [symmetric] Let_def edge_side_def node_mass_def split: if_splits)
qed

lemma resolve_twins_mass:
  assumes "bt_wf nodes" and "report_wf report" and "resolve_twins remap (nodes, report) = (nodes', report')"
  shows "bt_wf nodes' \<and> report_wf report' \<and> edge_side report' = edge_side report
    \<and> node_mass (nodes', report') = node_mass (nodes, report)"
proof -
  have "bt_wf (fst (fold (apply_remap_entry twins) es (nodes, report)))
      \<and> report_wf (snd (fold (apply_remap_entry twins) es (nodes, report)))
      \<and> edge_side (snd (fold (apply_remap_entry twins) es (nodes, report))) = edge_side report
      \<and> node_mass (fold (apply_remap_entry twins) es (nodes, report)) = node_mass (nodes, report)" for twins es
    using assms(1,2)
  proof (induction es arbitrary: nodes report)
    case Nil
    then show ?case by simp
  next
    case (Cons entry es)
    obtain nodes1 report1 where s: "apply_remap_entry twins entry (nodes, report) = (nodes1, report1)"
      by fastforce
    show ?case using Cons.IH [of nodes1 report1] apply_remap_entry_mass [OF Cons.prems s] s by simp
  qed
  then show ?thesis using assms(3) by (simp add: resolve_twins_def) (metis fst_conv snd_conv)
qed

text \<open>
  The remapping entries that make nodes merge are from a non-structural node to a structural one, so
  a merge never changes the identifier of the node it is stored under.
\<close>

definition ghosts_ok :: "(string, string) btree \<Rightarrow> (string \<times> string) set \<Rightarrow> node_map \<Rightarrow> bool" where
  "ghosts_ok twins entries nodes \<longleftrightarrow>
     (\<forall>old c i. (old, c) \<in> entries \<longrightarrow> \<not> bt_has twins old \<longrightarrow> bt_get nodes old = Some i \<longrightarrow>
        \<not> is_structural_node i \<and> (\<forall>e. bt_get nodes c = Some e \<longrightarrow> is_structural_node e))"

lemma apply_remap_entry_keyed:
  assumes k: "keyed nodes" and g: "ghosts_ok twins entries nodes" and mem: "entry \<in> entries"
    and s: "apply_remap_entry twins entry (nodes, report) = (nodes', report')"
  shows "keyed nodes' \<and> ghosts_ok twins entries nodes'"
proof -
  obtain old c where e: "entry = (old, c)" by fastforce
  define merged where m: "merged = (if bt_has twins old then nodes
                    else case (bt_get nodes old, bt_get nodes c) of
                           (Some incoming, Some existing) \<Rightarrow>
                             bt_put c (merge_node existing incoming) nodes
                         | _ \<Rightarrow> nodes)"
  have n': "nodes' = (if bt_has merged old then bt_del old merged else merged)"
    using s by (auto simp: apply_remap_entry_def e m [symmetric] Let_def split: if_splits)
  have "keyed merged \<and> ghosts_ok twins entries merged"
  proof (cases "bt_has twins old \<or> bt_get nodes old = None \<or> bt_get nodes c = None")
    case True
    then have "merged = nodes" by (auto simp: m split: option.splits)
    then show ?thesis using k g by simp
  next
    case False
    then obtain i x where ix: "\<not> bt_has twins old" "bt_get nodes old = Some i" "bt_get nodes c = Some x" by auto
    then have st: "\<not> is_structural_node i" "is_structural_node x"
      using g mem unfolding e ghosts_ok_def by blast+
    have mm: "merged = bt_put c (merge_node x i) nodes" using ix by (simp add: m)
    have "keyed merged"
      unfolding mm using merge_into_structural(1) [OF st(2,1)] keyedD [OF k ix(3)] by (intro keyed_put k) auto
    moreover have "ghosts_ok twins entries merged"
      unfolding mm ghosts_ok_def bt_get_put
      using g st ix merge_into_structural(2) [OF st(2,1)] by (auto simp: ghosts_ok_def split: if_splits)
    ultimately show ?thesis by blast
  qed
  then show ?thesis
    unfolding n' by (auto simp: keyed_del ghosts_ok_def split: if_splits)
qed

lemma get_add_ghosts:
  assumes "(old, c) \<in> set (add_ghosts nodes remap)"
  shows "(old, c) \<in> set remap \<or> (\<exists>n. n \<in> snd ` set nodes \<and> n_id n = old \<and> ghost_target (canonical_by_key nodes) n = Some c)"
proof -
  have "(old, c) \<in> set (fold (\<lambda>(_, n) m. case ghost_target cs n of
             None \<Rightarrow> m | Some c \<Rightarrow> bt_put (n_id n) c m) ns remap) \<Longrightarrow>
      (old, c) \<in> set remap \<or> (\<exists>n. n \<in> snd ` set ns \<and> n_id n = old \<and> ghost_target cs n = Some c)" for cs ns
  proof (induction ns arbitrary: remap)
    case Nil
    then show ?case by simp
  next
    case (Cons kn ns)
    obtain k n where kn: "kn = (k, n)" by fastforce
    show ?case
    proof (cases "ghost_target cs n")
      case None
      then show ?thesis using Cons kn by auto
    next
      case (Some d)
      then have "(old, c) \<in> set (bt_put (n_id n) d remap) \<or> (\<exists>n. n \<in> snd ` set ns \<and> n_id n = old \<and> ghost_target cs n = Some c)"
        using Cons kn by simp
      then show ?thesis using set_bt_put [of "n_id n" d remap] Some kn by auto
    qed
  qed
  then show ?thesis using assms by (simp add: add_ghosts_def)
qed

lemma keyed_entry: "keyed nodes \<Longrightarrow> (k, n) \<in> set nodes \<Longrightarrow> bt_get nodes k = Some n \<and> n_id n = k \<and> k \<noteq> []"
  using bt_get_mem [of nodes k n] keyedD [of nodes k n] by simp

lemma ghost_target_facts:
  assumes "keyed nodes" and "n \<in> snd ` set nodes" and "ghost_target (canonical_by_key nodes) n = Some c"
  shows "bt_get nodes (n_id n) = Some n \<and> \<not> is_structural_node n
    \<and> (\<exists>x. bt_get nodes c = Some x \<and> is_structural_node x)"
proof -
  have at: "bt_get nodes (n_id m) = Some m" if m: "m \<in> snd ` set nodes" for m
  proof -
    obtain km where "km \<in> set nodes" "m = snd km" using m by blast
    then show ?thesis using keyed_entry [OF assms(1), of "fst km" "snd km"] by simp
  qed
  obtain x where x: "bt_get (canonical_by_key nodes) (ghost_key n) = Some [x]" "c = n_id x" "\<not> is_structural_node n"
    using assms(3) by (auto simp: ghost_target_def split: option.splits list.splits if_splits)
  then have "x \<in> set (map snd nodes) \<and> is_structural_node x"
    unfolding canonical_by_key_def by (auto dest!: group_on_member [where x = x] split: if_splits)
  then show ?thesis using at x assms(2) by (metis list.set_map)
qed

lemma resolve_twins_keyed:
  assumes k: "keyed nodes" and fresh: "\<forall>k. bt_has nodes k \<longrightarrow> \<not> bt_has remap k" and w: "bt_wf remap"
    and r: "resolve_twins remap (nodes, report) = (nodes', report')"
  shows "keyed nodes'"
proof -
  let ?T = "document_twin_remap nodes"
  let ?R = "full_remap remap nodes"
  have tw: "(old, c) \<in> set (fold (\<lambda>(k, v). bt_put k v) es m) \<Longrightarrow> old \<notin> fst ` set es \<Longrightarrow> (old, c) \<in> set m"
    for old c es and m :: "(string, string) btree"
  proof (induction es arbitrary: m)
    case (Cons kv es)
    obtain k v where kv: "kv = (k, v)" by fastforce
    then have "(old, c) \<in> set (bt_put k v m)" using Cons by simp
    then show ?case using Cons.prems(2) set_bt_put [of k v m] kv by auto
  qed simp
  have g: "ghosts_ok ?T (set ?R) nodes"
    unfolding ghosts_ok_def
  proof (intro allI impI)
    fix old c i
    assume e: "(old, c) \<in> set ?R" and nt: "\<not> bt_has ?T old" and i: "bt_get nodes old = Some i"
    have "(old, c) \<notin> set (fold (\<lambda>(k, v). bt_put k v) ?T remap)"
    proof
      assume "(old, c) \<in> set (fold (\<lambda>(k, v). bt_put k v) ?T remap)"
      then have "(old, c) \<in> set remap" using tw nt by (auto simp: bt_has_iff)
      then have "bt_has remap old" by (force simp: bt_has_iff)
      then show False using fresh i by (auto simp: bt_has_def)
    qed
    then obtain n where "n \<in> snd ` set nodes" "n_id n = old" "ghost_target (canonical_by_key nodes) n = Some c"
      using get_add_ghosts e unfolding full_remap_def by blast
    then show "\<not> is_structural_node i \<and> (\<forall>e. bt_get nodes c = Some e \<longrightarrow> is_structural_node e)"
      using ghost_target_facts [OF k] i by force
  qed
  have "keyed (fst (fold (apply_remap_entry ?T) es st))"
    if "keyed (fst st)" "ghosts_ok ?T (set ?R) (fst st)" "set es \<subseteq> set ?R" for es st
    using that
  proof (induction es arbitrary: st)
    case (Cons x es)
    obtain n1 r1 where s: "apply_remap_entry ?T x (fst st, snd st) = (n1, r1)" by fastforce
    have "keyed n1 \<and> ghosts_ok ?T (set ?R) n1"
      by (rule apply_remap_entry_keyed [OF Cons.prems(1,2) _ s]) (use Cons.prems(3) in auto)
    then show ?case using Cons.IH [of "(n1, r1)"] Cons.prems(3) s by simp
  qed simp
  from this [of "(nodes, report)" ?R] show ?thesis
    using k g r by (simp add: resolve_twins_def)
qed

text \<open>
  Even when replacements are chained, the nodes left have identifiers of their own: a merge keeps one of the
  two identifiers, and the node stored under the other is taken out.
\<close>

definition own_ids :: "node_map \<Rightarrow> bool" where
  "own_ids nodes \<longleftrightarrow> bt_wf nodes \<and> (\<forall>k n. bt_get nodes k = Some n \<longrightarrow> n_id n \<noteq> [])
     \<and> (\<forall>k k' n n'. bt_get nodes k = Some n \<longrightarrow> bt_get nodes k' = Some n' \<longrightarrow> n_id n = n_id n' \<longrightarrow> k = k')"

lemma keyed_own_ids: "keyed nodes \<Longrightarrow> own_ids nodes"
  unfolding own_ids_def by (metis keyed_wf keyedD)

lemma own_ids_nodes:
  assumes "own_ids nodes"
  shows "distinct (map n_id (map snd nodes))" and "\<forall>n \<in> snd ` set nodes. n_id n \<noteq> []"
proof -
  have at: "bt_get nodes (fst kn) = Some (snd kn)" if "kn \<in> set nodes" for kn
    using assms that bt_get_mem [of nodes "fst kn" "snd kn"] by (simp add: own_ids_def)
  show "\<forall>n \<in> snd ` set nodes. n_id n \<noteq> []" using at assms by (auto simp: own_ids_def)
  have "inj_on (n_id \<circ> snd) (set nodes)"
  proof (rule inj_onI)
    fix x y assume "x \<in> set nodes" "y \<in> set nodes" "(n_id \<circ> snd) x = (n_id \<circ> snd) y"
    then have "fst x = fst y" "bt_get nodes (fst x) = Some (snd x)" "bt_get nodes (fst y) = Some (snd y)"
      using at assms unfolding own_ids_def by (auto simp: o_def)
    then show "x = y" by (simp add: prod_eq_iff)
  qed
  moreover have "distinct nodes"
    using assms bt_wf_distinct [of nodes] by (auto simp: own_ids_def intro: distinct_map [THEN iffD1, THEN conjunct1])
  ultimately show "distinct (map n_id (map snd nodes))" by (simp add: distinct_map)
qed

lemma merge_node_id_cases: "n_id (merge_node existing incoming) \<in> {n_id existing, n_id incoming}"
  by (simp add: merge_node_def Let_def)

lemma apply_remap_entry_own:
  assumes own: "own_ids nodes" and s: "apply_remap_entry twins (old, c) (nodes, report) = (nodes', report')"
  shows "own_ids nodes'"
proof -
  define merged where m: "merged = (if bt_has twins old then nodes
                    else case (bt_get nodes old, bt_get nodes c) of
                           (Some incoming, Some existing) \<Rightarrow>
                             bt_put c (merge_node existing incoming) nodes
                         | _ \<Rightarrow> nodes)"
  have n': "nodes' = (if bt_has merged old then bt_del old merged else merged)"
    using s by (auto simp: apply_remap_entry_def m [symmetric] Let_def split: if_splits)
  have del: "own_ids (bt_del k nodes)" for k
    using own unfolding own_ids_def by (auto simp: btree_simps)
  show ?thesis
  proof (cases "bt_has twins old \<or> bt_get nodes old = None \<or> bt_get nodes c = None")
    case True
    then have "merged = nodes" by (auto simp: m split: option.splits)
    then show ?thesis using own del n' by simp
  next
    case False
    then obtain i x where ix: "\<not> bt_has twins old" "bt_get nodes old = Some i" "bt_get nodes c = Some x" by auto
    then have mm: "merged = bt_put c (merge_node x i) nodes" by (simp add: m)
    then have nodes': "nodes' = bt_del old (bt_put c (merge_node x i) nodes)"
      using ix n' by (simp add: bt_has_def)
    have wf: "bt_wf nodes" and nonempty: "\<And>k n. bt_get nodes k = Some n \<Longrightarrow> n_id n \<noteq> []"
      and inj: "\<And>k k' n n'. bt_get nodes k = Some n \<Longrightarrow> bt_get nodes k' = Some n' \<Longrightarrow> n_id n = n_id n' \<Longrightarrow> k = k'"
      using own unfolding own_ids_def by blast+
    have kept: "\<exists>k' n0. bt_get nodes k' = Some n0 \<and> n_id n0 = n_id n \<and> (k' = k \<or> k' = old \<and> k = c) \<and> k \<noteq> old"
      if "bt_get nodes' k = Some n" for k n
      using that ix merge_node_id_cases [of x i] wf
      by (auto simp: nodes' split: if_splits) metis+
    show ?thesis
      unfolding own_ids_def
    proof (intro conjI allI impI)
      show "bt_wf nodes'" using wf by (simp add: nodes')
      show "n_id n \<noteq> []" if "bt_get nodes' k = Some n" for k n using kept [OF that] nonempty by metis
      show "k = k'" if "bt_get nodes' k = Some n" "bt_get nodes' k' = Some n'" "n_id n = n_id n'" for k k' n n'
        using kept [OF that(1)] kept [OF that(2)] inj that(3) by metis
    qed
  qed
qed

lemma resolve_twins_own:
  assumes "own_ids nodes" and "resolve_twins remap (nodes, report) = (nodes', report')"
  shows "own_ids nodes'"
proof -
  have "own_ids (fst st) \<Longrightarrow> own_ids (fst (fold (apply_remap_entry twins) es st))" for twins es st
  proof (induction es arbitrary: st)
    case (Cons entry es)
    obtain old c where entry: "entry = (old, c)" by fastforce
    have "own_ids (fst (apply_remap_entry twins entry st))"
      using apply_remap_entry_own [of "fst st" twins old c "snd st"] Cons.prems unfolding entry by (metis prod.collapse)
    then show ?case using Cons.IH by simp
  qed simp
  then show ?thesis using assms unfolding resolve_twins_def by (metis fst_conv)
qed

section \<open>Endpoint repair\<close>

definition index_ok :: "build_index \<Rightarrow> bool" where
  "index_ok ix \<longleftrightarrow>
     (\<forall>key i. sole (ix_normalized ix) key = Some i \<longrightarrow> bt_has (ix_nodes ix) i)
     \<and> (\<forall>key i. sole (ix_legacy ix) key = Some i \<longrightarrow> bt_has (ix_nodes ix) i)"

lemma sole_normalized: "sole (normalized_index u nodes) key = Some i \<Longrightarrow> bt_has nodes i"
  unfolding sole_def normalized_index_def
  using group_on_member [of _ "bt_keys nodes" key "[i]" i]
  by (auto simp: bt_has_iff split: option.splits list.splits)

definition aliases_within :: "string set \<Rightarrow> alias_index \<Rightarrow> bool" where
  "aliases_within ids aliases \<longleftrightarrow> (\<forall>key is. bt_get aliases key = Some is \<longrightarrow> set is \<subseteq> ids)"

lemma aliases_within_add:
  "aliases_within ids aliases \<Longrightarrow> i \<in> ids \<Longrightarrow> aliases_within ids (add_legacy_alias alias i aliases)"
  by (cases "bt_get aliases alias")
    (simp_all add: aliases_within_def add_legacy_alias_def bt_get_update)

lemma aliases_within_legacy:
  assumes "keyed nodes"
  shows "aliases_within (fst ` set nodes) (legacy_index u nodes)"
proof -
  have step: "aliases_within ids (fold (\<lambda>alias. add_legacy_alias alias i) as aliases)"
    if "aliases_within ids aliases" "i \<in> ids" for ids i as aliases
    using that by (induction as arbitrary: aliases) (simp_all add: aliases_within_add)
  have ids: "n_id n \<in> fst ` set nodes" if "(k, n) \<in> set nodes" for k n
  proof -
    have "n_id n = k" using that keyed_entry [OF assms] by blast
    moreover have "k \<in> fst ` set nodes" using that by force
    ultimately show ?thesis by simp
  qed
  have "aliases_within (fst ` set nodes)
      (fold (\<lambda>(_, n). fold (\<lambda>alias. add_legacy_alias alias (n_id n)) (node_legacy_aliases u n)) ns aliases)"
    if "aliases_within (fst ` set nodes) aliases" "set ns \<subseteq> set nodes" for ns aliases
    using that
  proof (induction ns arbitrary: aliases)
    case (Cons kn ns)
    obtain k n where kn: "kn = (k, n)" by fastforce
    have "n_id n \<in> fst ` set nodes" using ids Cons.prems(2) kn by auto
    then show ?case using Cons step kn by simp
  qed simp
  from this [of "[]" nodes] show ?thesis by (simp add: legacy_index_def aliases_within_def)
qed

lemma sole_legacy: "keyed nodes \<Longrightarrow> sole (legacy_index u nodes) key = Some i \<Longrightarrow> bt_has nodes i"
proof -
  assume k: "keyed nodes" and s: "sole (legacy_index u nodes) key = Some i"
  have "bt_get (legacy_index u nodes) key = Some [i]"
    using s by (auto simp: sole_def split: option.splits list.splits)
  then show "bt_has nodes i"
    using aliases_within_legacy [OF k, of u] unfolding aliases_within_def bt_has_iff by fastforce
qed

lemma index_ok_build: "keyed nodes \<Longrightarrow> index_ok (build_index_of u remap merged nodes)"
  by (auto simp: index_ok_def build_index_of_def dest: sole_normalized sole_legacy)

lemma repair_exists: "index_ok ix \<Longrightarrow> repair u ix value = Some (i, r) \<Longrightarrow> bt_has (ix_nodes ix) i"
  by (auto simp: repair_def Let_def index_ok_def split: if_splits option.splits)

text \<open>
  Whatever name an edge or a hyperedge uses for a node, exact, stale, differently spelt or
  legacy, the node it is repaired to exists in the index; and an exact name of a node that was not
  remapped is never changed.
\<close>

lemma repair_finds_nodes:
  assumes "keyed nodes"
  shows "(\<forall>i r. repair u (build_index_of u remap merged nodes) v = Some (i, r) \<longrightarrow> bt_has nodes i)
    \<and> (bt_has nodes v \<and> \<not> bt_has (full_remap remap merged) v \<longrightarrow>
         repair u (build_index_of u remap merged nodes) v = Some (v, Exact))"
proof -
  let ?ix = "build_index_of u remap merged nodes"
  have "bt_has nodes i" if "repair u ?ix v = Some (i, r)" for i r
    using repair_exists [OF index_ok_build [OF assms] that] by (simp add: build_index_of_def)
  moreover have "ix_nodes ?ix = nodes" "ix_remap ?ix = full_remap remap merged"
    by (simp_all add: build_index_of_def)
  then have "bt_has nodes v \<and> \<not> bt_has (full_remap remap merged) v \<Longrightarrow> repair u ?ix v = Some (v, Exact)"
    unfolding repair_def Let_def by simp
  ultimately show ?thesis by blast
qed

theorem repair_finds_nodes_witness:
  "repair plain_unicode (build_index_of plain_unicode [] [] [(''a'', plain_node ''a'' ''alpha'' ''m.rs'')]) ''a''
   = Some (''a'', Exact)"
proof -
  have "keyed [(''a'', plain_node ''a'' ''alpha'' ''m.rs'')]"
    by (simp add: keyed_def bt_wf_def plain_node_def)
  moreover have "\<not> bt_has (full_remap [] []) ''a''"
    by (simp add: full_remap_def add_ghosts_def document_twin_remap_def)
  ultimately show ?thesis
    using repair_finds_nodes [of "[(''a'', plain_node ''a'' ''alpha'' ''m.rs'')]" plain_unicode "[]" "[]" "''a''"]
    by (simp add: bt_has_def)
qed

section \<open>Edges\<close>

lemma normalize_number_field_keeps:
  assumes "key \<noteq> ''_src''" and "key \<noteq> ''_tgt''" and "normalize_number_field key reason (e, r) = (e', r')"
  shows "edge_key e' = edge_key e \<and> true_source e' = true_source e \<and> true_target e' = true_target e
    \<and> (report_wf r \<longrightarrow> report_wf r' \<and> node_side r' = node_side r
         \<and> dropped_edge_count r' = dropped_edge_count r \<and> dropped_hyperedge_count r' = dropped_hyperedge_count r)"
  using assms
  by (auto simp: normalize_number_field_def Let_def edge_key_def true_source_def true_target_def node_side_def
      split: option.splits if_splits)

lemma remove_field_keeps:
  assumes "key \<noteq> ''_src''" and "key \<noteq> ''_tgt''" and "remove_field key reason (e, r) = (e', r')"
  shows "edge_key e' = edge_key e \<and> true_source e' = true_source e \<and> true_target e' = true_target e
    \<and> (report_wf r \<longrightarrow> report_wf r' \<and> node_side r' = node_side r
         \<and> dropped_edge_count r' = dropped_edge_count r \<and> dropped_hyperedge_count r' = dropped_hyperedge_count r)"
  using assms
  by (auto simp: remove_field_def Let_def edge_key_def true_source_def true_target_def node_side_def
      split: option.splits if_splits)

lemma backfill_source_file_keeps:
  assumes "backfill_source_file s t (e, r) = (e', r')"
  shows "edge_key e' = edge_key e \<and> true_source e' = true_source e \<and> true_target e' = true_target e
    \<and> (report_wf r \<longrightarrow> report_wf r' \<and> node_side r' = node_side r
         \<and> dropped_edge_count r' = dropped_edge_count r \<and> dropped_hyperedge_count r' = dropped_hyperedge_count r)"
  using assms
  by (auto simp: backfill_source_file_def Let_def edge_key_def true_source_def true_target_def node_side_def
      split: if_splits option.splits)

lemma backfill_score_keeps:
  assumes "backfill_score (e, r) = (e', r')"
  shows "edge_key e' = edge_key e \<and> true_source e' = true_source e \<and> true_target e' = true_target e
    \<and> (report_wf r \<longrightarrow> report_wf r' \<and> node_side r' = node_side r
         \<and> dropped_edge_count r' = dropped_edge_count r \<and> dropped_hyperedge_count r' = dropped_hyperedge_count r)"
  using assms
  by (auto simp: backfill_score_def edge_key_def true_source_def true_target_def node_side_def
      split: if_splits option.splits)

lemma canonical_edge_keeps:
  assumes "canonical_edge sn tn s t e r = (e', r')"
  shows "edge_key e' = (s, t, e_relation e) \<and> true_source e' = s \<and> true_target e' = t
    \<and> (report_wf r \<longrightarrow> report_wf r' \<and> node_side r' = node_side r
         \<and> dropped_edge_count r' = dropped_edge_count r \<and> dropped_hyperedge_count r' = dropped_hyperedge_count r)"
proof -
  let ?e0 = "repaired_edge s t e"
  have e0: "edge_key ?e0 = (s, t, e_relation e)" "true_source ?e0 = s" "true_target ?e0 = t"
    by (simp_all add: repaired_edge_def edge_key_def true_source_def true_target_def)
  obtain e1 r1 where s1: "remove_field ''target_file'' TargetFileMetadataRemoved (?e0, r) = (e1, r1)" by fastforce
  obtain e2 r2 where s2: "remove_field ''local_alias'' LocalAliasMetadataRemoved (e1, r1) = (e2, r2)" by fastforce
  obtain e3 r3 where s3: "normalize_number_field ''weight'' WeightNormalized (e2, r2) = (e3, r3)" by fastforce
  obtain e4 r4 where s4: "normalize_number_field ''confidence_score'' ConfidenceScoreNormalized (e3, r3) = (e4, r4)"
    by fastforce
  obtain e5 r5 where s5: "backfill_source_file sn tn (e4, r4) = (e5, r5)" by fastforce
  have s6: "backfill_score (e5, r5) = (e', r')"
    using assms by (simp add: canonical_edge_def s1 s2 s3 s4 s5)
  show ?thesis
    using remove_field_keeps [OF _ _ s1] remove_field_keeps [OF _ _ s2] normalize_number_field_keeps [OF _ _ s3]
      normalize_number_field_keeps [OF _ _ s4] backfill_source_file_keeps [OF s5] backfill_score_keeps [OF s6] e0
    by simp
qed

text \<open>The invariant of the edge loop.\<close>

definition links_ok :: "node_map \<Rightarrow> edge list \<Rightarrow> bool" where
  "links_ok nodes es \<longleftrightarrow> (\<forall>e \<in> set es. bt_has nodes (e_source e) \<and> bt_has nodes (e_target e)
     \<and> true_source e = e_source e \<and> true_target e = e_target e)"

definition seen_ok :: "(string \<times> string \<times> string, nat) btree \<Rightarrow> edge list \<Rightarrow> bool" where
  "seen_ok seen es \<longleftrightarrow> (\<forall>key i. bt_get seen key = Some i \<longleftrightarrow> i < length es \<and> edge_key (es ! i) = key)"

lemma seen_ok_distinct: "seen_ok seen es \<Longrightarrow> distinct (map edge_key es)"
  unfolding distinct_conv_nth
proof (intro allI impI)
  fix i j
  assume s: "seen_ok seen es" and ij: "i < length (map edge_key es)" "j < length (map edge_key es)" "i \<noteq> j"
  have "bt_get seen (edge_key (es ! i)) = Some i" "bt_get seen (edge_key (es ! j)) = Some j"
    using s ij unfolding seen_ok_def by (metis length_map)+
  then show "map edge_key es ! i \<noteq> map edge_key es ! j" using ij by auto
qed

definition edge_inv :: "nat \<Rightarrow> edge_state \<Rightarrow> bool" where
  "edge_inv k st \<longleftrightarrow> seen_ok (es_seen st) (es_links st)
     \<and> report_wf (es_report st) \<and> length (es_links st) + dropped_edge_count (es_report st) = k"

lemma seen_ok_at: "seen_ok seen es \<Longrightarrow> bt_get seen key = Some i \<longleftrightarrow> i < length es \<and> edge_key (es ! i) = key"
  unfolding seen_ok_def by blast

lemma seen_ok_snoc:
  assumes s: "seen_ok seen es" and n: "bt_get seen (edge_key e) = None"
  shows "seen_ok (bt_put (edge_key e) (length es) seen) (es @ [e])"
  unfolding seen_ok_def
proof (intro allI)
  fix key i
  show "bt_get (bt_put (edge_key e) (length es) seen) key = Some i \<longleftrightarrow>
      i < length (es @ [e]) \<and> edge_key ((es @ [e]) ! i) = key"
    using seen_ok_at [OF s, of "edge_key e" i] n seen_ok_at [OF s, of key i]
    by (cases "key = edge_key e") (auto simp: nth_append less_Suc_eq)
qed

lemma seen_ok_update:
  assumes s: "seen_ok seen es" and i: "i < length es" "edge_key (es ! i) = edge_key e"
  shows "seen_ok seen (es[i := e])"
  unfolding seen_ok_def
proof (intro allI)
  fix key j
  have "edge_key (es[i := e] ! j) = edge_key (es ! j)" if "j < length es"
    using i that by (cases "j = i") auto
  then show "bt_get seen key = Some j \<longleftrightarrow> j < length (es[i := e]) \<and> edge_key (es[i := e] ! j) = key"
    using seen_ok_at [OF s, of key j] by auto
qed

lemma store_edge_inv:
  assumes inv: "edge_inv k st"
  shows "edge_inv (Suc k) (store_edge e st)"
proof -
  have s: "seen_ok (es_seen st) (es_links st)" using inv by (simp add: edge_inv_def)
  show ?thesis
  proof (cases "bt_get (es_seen st) (edge_key e)")
    case None
    then show ?thesis using assms seen_ok_snoc [OF s None] by (simp add: store_edge_def edge_inv_def)
  next
    case (Some i)
    have "seen_ok (es_seen st) ((es_links st)[i := e])"
      using seen_ok_at [OF s] Some by (intro seen_ok_update [OF s]) auto
    then show ?thesis using inv Some by (simp add: store_edge_def edge_inv_def)
  qed
qed

lemma store_edge_links:
  "links_ok nodes (es_links st) \<Longrightarrow> links_ok nodes [e] \<Longrightarrow> links_ok nodes (es_links (store_edge e st))"
  using set_update_subset_insert [of "es_links st" _ e]
  by (fastforce simp: store_edge_def links_ok_def split: option.splits)

lemma record_repair_keeps:
  "report_wf r \<Longrightarrow> report_wf (record_endpoint_repair b p r) \<and> node_side (record_endpoint_repair b p r) = node_side r
     \<and> dropped_edge_count (record_endpoint_repair b p r) = dropped_edge_count r
     \<and> dropped_hyperedge_count (record_endpoint_repair b p r) = dropped_hyperedge_count r"
  by (auto simp: record_endpoint_repair_def node_side_def split: option.splits endpoint_repair.splits)

lemma record_direction_keeps:
  "report_wf r \<Longrightarrow> report_wf (record_direction e r) \<and> node_side (record_direction e r) = node_side r
     \<and> dropped_edge_count (record_direction e r) = dropped_edge_count r
     \<and> dropped_hyperedge_count (record_direction e r) = dropped_hyperedge_count r"
  by (auto simp: record_direction_def Let_def node_side_def)

text \<open>Resolving an edge either drops it or stores it with its ends named as in the index.\<close>

lemma resolve_edge_cases:
  assumes wf: "report_wf (es_report st)"
  obtains (drop) reason r where "resolve_edge u ix e st = st\<lparr>es_report := drop_edge reason r\<rparr>"
      "report_wf r" "node_side r = node_side (es_report st)" "dropped_edge_count r = dropped_edge_count (es_report st)"
      "dropped_hyperedge_count r = dropped_hyperedge_count (es_report st)"
  | (store) s a t b e' r where "repair u ix (true_source e) = Some (s, a)" "repair u ix (true_target e) = Some (t, b)"
      "resolve_edge u ix e st = store_edge e' (st\<lparr>es_report := r\<rparr>)"
      "edge_key e' = (s, t, e_relation e)" "true_source e' = s" "true_target e' = t"
      "report_wf r" "node_side r = node_side (es_report st)" "dropped_edge_count r = dropped_edge_count (es_report st)"
      "dropped_hyperedge_count r = dropped_hyperedge_count (es_report st)"
proof -
  let ?s = "repair u ix (true_source e)" and ?t = "repair u ix (true_target e)"
  define r where r: "r = record_endpoint_repair False ?t (record_endpoint_repair True ?s (record_direction e (es_report st)))"
  have rr: "report_wf r" "node_side r = node_side (es_report st)" "dropped_edge_count r = dropped_edge_count (es_report st)"
    "dropped_hyperedge_count r = dropped_hyperedge_count (es_report st)"
    using record_direction_keeps [OF wf, of e]
      record_repair_keeps [of "record_direction e (es_report st)" True ?s]
      record_repair_keeps [of "record_endpoint_repair True ?s (record_direction e (es_report st))" False ?t]
    by (simp_all add: r)
  have eq: "resolve_edge u ix e st = (case (?s, ?t) of
           (None, None) \<Rightarrow> st\<lparr>es_report := drop_edge UnresolvedSourceAndTarget r\<rparr>
         | (None, Some _) \<Rightarrow> st\<lparr>es_report := drop_edge UnresolvedSource r\<rparr>
         | (Some _, None) \<Rightarrow> st\<lparr>es_report := drop_edge UnresolvedTarget r\<rparr>
         | (Some (s, _), Some (t, _)) \<Rightarrow>
             (case edge_drop_of ix e s t of
                Some reason \<Rightarrow> st\<lparr>es_report := drop_edge reason r\<rparr>
              | None \<Rightarrow>
                  let (e', report') =
                        canonical_edge (the (bt_get (ix_nodes ix) s)) (the (bt_get (ix_nodes ix) t)) s t e r
                  in store_edge e' (st\<lparr>es_report := report'\<rparr>)))"
    unfolding resolve_edge_def Let_def r ..
  show thesis
  proof (cases "\<exists>s a t b. ?s = Some (s, a) \<and> ?t = Some (t, b) \<and> edge_drop_of ix e s t = None")
    case False
    then have "\<exists>reason. resolve_edge u ix e st = st\<lparr>es_report := drop_edge reason r\<rparr>"
      unfolding eq by (cases ?s; cases ?t) (auto, blast)
    then show ?thesis using drop rr by blast
  next
    case True
    then obtain s a t b where st: "?s = Some (s, a)" "?t = Some (t, b)" "edge_drop_of ix e s t = None" by blast
    obtain e' r' where c: "canonical_edge (the (bt_get (ix_nodes ix) s)) (the (bt_get (ix_nodes ix) t)) s t e r = (e', r')"
      by fastforce
    have "resolve_edge u ix e st = store_edge e' (st\<lparr>es_report := r'\<rparr>)" by (simp add: eq st c)
    then show ?thesis using canonical_edge_keeps [OF c] rr by (intro store [OF st(1,2), of e' r']) auto
  qed
qed

lemma resolve_edge_inv:
  assumes inv: "edge_inv k st"
  shows "edge_inv (Suc k) (resolve_edge u ix e st)
    \<and> node_side (es_report (resolve_edge u ix e st)) = node_side (es_report st)
    \<and> dropped_hyperedge_count (es_report (resolve_edge u ix e st)) = dropped_hyperedge_count (es_report st)"
proof -
  have "report_wf (es_report st)" using inv by (simp add: edge_inv_def)
  then show ?thesis
  proof (cases rule: resolve_edge_cases [where u = u and ix = ix and e = e])
    case (drop reason r)
    then show ?thesis using inv by (simp add: edge_inv_def node_side_def)
  next
    case (store s a t b e' r)
    have "edge_inv (Suc k) (store_edge e' (st\<lparr>es_report := r\<rparr>))"
      using inv store by (intro store_edge_inv) (simp add: edge_inv_def)
    then show ?thesis using store by (auto simp: store_edge_def node_side_def split: option.splits)
  qed
qed

lemma resolve_edge_links:
  assumes ix: "index_ok ix" and wf: "report_wf (es_report st)" and links: "links_ok (ix_nodes ix) (es_links st)"
  shows "links_ok (ix_nodes ix) (es_links (resolve_edge u ix e st))"
  using wf
proof (cases rule: resolve_edge_cases [where u = u and ix = ix and e = e])
  case (store s a t b e' r)
  have "links_ok (ix_nodes ix) [e']"
    using store repair_exists [OF ix store(1)] repair_exists [OF ix store(2)] by (simp add: links_ok_def edge_key_def)
  then show ?thesis using store links by (simp add: store_edge_links)
qed (use links in simp)

lemma resolve_edges_inv:
  assumes "report_wf report" and "dropped_edge_count report = 0"
  shows "edge_inv (length edges) (resolve_edges u ix edges report)
    \<and> node_side (es_report (resolve_edges u ix edges report)) = node_side report
    \<and> dropped_hyperedge_count (es_report (resolve_edges u ix edges report)) = dropped_hyperedge_count report
    \<and> (index_ok ix \<longrightarrow> links_ok (ix_nodes ix) (es_links (resolve_edges u ix edges report)))"
proof -
  have "edge_inv k st \<Longrightarrow> edge_inv (length edges + k) (fold (resolve_edge u ix) edges st)
    \<and> node_side (es_report (fold (resolve_edge u ix) edges st)) = node_side (es_report st)
    \<and> dropped_hyperedge_count (es_report (fold (resolve_edge u ix) edges st)) = dropped_hyperedge_count (es_report st)
    \<and> (index_ok ix \<longrightarrow> links_ok (ix_nodes ix) (es_links st) \<longrightarrow>
         links_ok (ix_nodes ix) (es_links (fold (resolve_edge u ix) edges st)))"
    for k st
  proof (induction edges arbitrary: k st)
    case (Cons e edges)
    have "report_wf (es_report st)" using Cons.prems by (simp add: edge_inv_def)
    then show ?case
      using Cons.IH [of "Suc k" "resolve_edge u ix e st"] resolve_edge_inv [OF Cons.prems, of u ix e]
        resolve_edge_links [of ix st u e] by simp
  qed simp
  from this [of 0 "\<lparr>es_links = [], es_seen = [], es_report = report\<rparr>"] show ?thesis
    using assms by (simp add: resolve_edges_def edge_inv_def links_ok_def seen_ok_def)
qed

section \<open>Hyperedges\<close>

text \<open>Repairing hyperedges changes no count of drops or merges.\<close>

definition quiet :: "build_report \<Rightarrow> build_report \<Rightarrow> bool" where
  "quiet r r' \<longleftrightarrow> (report_wf r \<longrightarrow> report_wf r') \<and> node_side r' = node_side r
     \<and> dropped_edge_count r' = dropped_edge_count r \<and> dropped_hyperedge_count r' = dropped_hyperedge_count r"

lemma quiet_refl [simp]: "quiet r r"
  by (simp add: quiet_def)

lemma quiet_trans: "quiet r r' \<Longrightarrow> quiet r' r'' \<Longrightarrow> quiet r r''"
  by (simp add: quiet_def)

lemma quiet_repair [simp]: "quiet r (repair_hyperedge f r)"
  by (simp add: quiet_def node_side_def)

lemma quiet_repair_pow [simp]: "quiet r ((repair_hyperedge f ^^ n) r)"
  by (induction n) (auto intro: quiet_trans)

lemma quiet_member_repair [simp]: "quiet r (record_hyperedge_member_repair p r)"
  by (simp add: record_hyperedge_member_repair_def split: endpoint_repair.splits)

lemma resolve_members_facts:
  "resolve_members u ix raws r = (members, r') \<Longrightarrow>
   quiet r r' \<and> (\<forall>m \<in> set members. bt_has (ix_nodes ix) m)"
proof (induction raws arbitrary: r members)
  case Nil
  then show ?case by simp
next
  case (Cons raw raws)
  show ?case
  proof (cases "\<exists>m i p. as_str raw = Some m \<and> repair u ix m = Some (i, p) \<and> bt_has (ix_nodes ix) i")
    case True
    then obtain m i p where m: "as_str raw = Some m" "repair u ix m = Some (i, p)" "bt_has (ix_nodes ix) i" by blast
    obtain ms where ms: "resolve_members u ix raws (record_hyperedge_member_repair p r) = (ms, r')" "members = i # ms"
      using Cons.prems m by (auto simp: Let_def split: prod.splits)
    then show ?thesis
      using Cons.IH [OF ms(1)] m(3) quiet_trans [OF quiet_member_repair] by auto
  next
    case False
    then obtain r1 where r1: "resolve_members u ix raws r1 = (members, r')" "quiet r r1"
      using Cons.prems
      by (auto simp: Let_def split: option.splits if_splits prod.splits
          intro: quiet_trans [OF quiet_member_repair quiet_repair])
    then show ?thesis using Cons.IH [OF r1(1)] quiet_trans [OF r1(2)] by blast
  qed
qed

definition hyper_id :: "json \<Rightarrow> string option" where
  "hyper_id h = Option.bind (vget h ''id'') as_str"

definition hyper_members :: "json \<Rightarrow> string list option" where
  "hyper_members h = map_option (List.map_filter as_str) (Option.bind (vget h ''nodes'') as_array)"

definition hyperedge_ok :: "node_map \<Rightarrow> json \<Rightarrow> bool" where
  "hyperedge_ok nodes h \<longleftrightarrow>
     (\<exists>ms. hyper_members h = Some ms \<and> ms \<noteq> [] \<and> distinct ms \<and> (\<forall>m \<in> set ms. bt_has nodes m))"

lemma map_filter_JStr [simp]: "List.map_filter as_str (map JStr ms) = ms"
  by (induction ms) (simp_all add: List.map_filter_simps)

definition hyper_inv :: "node_map \<Rightarrow> nat \<Rightarrow> hyper_state \<Rightarrow> bool" where
  "hyper_inv nodes k st \<longleftrightarrow> (\<forall>h \<in> set (hs_hyperedges st). hyperedge_ok nodes h)
     \<and> map hyper_id (hs_hyperedges st) = map Some (rev (hs_ids st)) \<and> distinct (hs_ids st)
     \<and> report_wf (hs_report st)
     \<and> length (hs_hyperedges st) + dropped_hyperedge_count (hs_report st) = k"

lemma fresh_id_fresh: "fresh_id k u ids base src n = Some i \<Longrightarrow> i \<notin> set ids"
  by (induction k arbitrary: n) (auto simp: Let_def split: if_splits)

lemma store_hyperedge_inv:
  assumes inv: "hyper_inv nodes k st" and m: "bt_get m ''nodes'' = Some (JArr (map JStr ms))"
    and ms: "ms \<noteq> []" "distinct ms" "\<forall>x \<in> set ms. bt_has nodes x"
    and s: "store_hyperedge u m st = Inr st'"
  shows "hyper_inv nodes (Suc k) st' \<and> quiet (hs_report st) (hs_report st')"
proof -
  obtain i r where st': "st' = \<lparr>hs_hyperedges = hs_hyperedges st @ [JObj (bt_put ''id'' (JStr i) m)],
      hs_ids = i # hs_ids st, hs_report = r\<rparr>" "i \<notin> set (hs_ids st)" "quiet (hs_report st) r"
    using s by (auto simp: store_hyperedge_def Let_def split: if_splits option.splits dest: fresh_id_fresh
        intro: quiet_trans [OF quiet_repair quiet_repair])
  have "hyperedge_ok nodes (JObj (bt_put ''id'' (JStr i) m))"
    using m ms by (simp add: hyperedge_ok_def hyper_members_def vget_def)
  moreover have "hyper_id (JObj (bt_put ''id'' (JStr i) m)) = Some i"
    by (simp add: hyper_id_def vget_def)
  ultimately show ?thesis
    using inv st' by (auto simp: hyper_inv_def quiet_def)
qed

lemma resolve_hyperedge_inv:
  assumes inv: "hyper_inv (ix_nodes ix) k st" and s: "resolve_hyperedge u ix raw st = Inr st'"
  shows "hyper_inv (ix_nodes ix) (Suc k) st' \<and> node_side (hs_report st') = node_side (hs_report st)
    \<and> dropped_edge_count (hs_report st') = dropped_edge_count (hs_report st)"
proof -
  have drop: "hyper_inv (ix_nodes ix) (Suc k) (st\<lparr>hs_report := drop_hyperedge reason r\<rparr>)
      \<and> node_side (drop_hyperedge reason r) = node_side (hs_report st)
      \<and> dropped_edge_count (drop_hyperedge reason r) = dropped_edge_count (hs_report st)"
    if "quiet (hs_report st) r" for reason r
    using that inv by (auto simp: hyper_inv_def quiet_def node_side_def)
  show ?thesis
  proof (cases "as_object raw")
    case None
    then show ?thesis using s drop [of "hs_report st"] by (auto simp: resolve_hyperedge_def)
  next
    case (Some object)
    define m where m: "m = normalize_hyperedge_object object"
    define r where r: "r = (if member_alias_used object then repair_hyperedge MembersAliasNormalized (hs_report st)
                        else hs_report st)"
    have qr: "quiet (hs_report st) r" by (simp add: r)
    show ?thesis
    proof (cases "Option.bind (bt_get m ''nodes'') as_array")
      case None
      have "st' = st\<lparr>hs_report := drop_hyperedge MissingOrInvalidMembers r\<rparr>"
        using s None by (simp add: resolve_hyperedge_def Some m r)
      then show ?thesis using drop [OF qr] by simp
    next
      case raws: (Some raws)
      obtain ms r1 where ms: "resolve_members u ix raws r = (ms, r1)" by fastforce
      define kept where kept: "kept = retain_first (\<lambda>m. m) {} ms"
      define r2 where r2: "r2 = (repair_hyperedge DuplicateMemberRemoved ^^ (length ms - length kept)) r1"
      note rm = resolve_members_facts [OF ms]
      have q2: "quiet (hs_report st) r2"
        using qr rm quiet_trans quiet_repair_pow unfolding r2 by meson
      have st': "(if kept = [] then Inr (st\<lparr>hs_report := drop_hyperedge NoResolvedMembers r2\<rparr>)
          else store_hyperedge u (bt_put ''nodes'' (JArr (map JStr kept)) m) (st\<lparr>hs_report := r2\<rparr>)) = Inr st'"
        using s unfolding resolve_hyperedge_def Some option.case Let_def m [symmetric] r [symmetric]
          raws ms prod.case kept [symmetric] r2 [symmetric] .
      show ?thesis
      proof (cases "kept = []")
        case True
        then show ?thesis using st' drop [OF q2] by auto
      next
        case False
        have inv2: "hyper_inv (ix_nodes ix) k (st\<lparr>hs_report := r2\<rparr>)"
          using inv q2 by (simp add: hyper_inv_def quiet_def)
        have "distinct kept" "set kept \<subseteq> set ms"
          using retain_first_distinct [of "\<lambda>m. m" "{}" ms] retain_first_subset [of "\<lambda>m. m" "{}" ms]
          by (simp_all add: kept)
        then have "hyper_inv (ix_nodes ix) (Suc k) st' \<and> quiet r2 (hs_report st')"
          using store_hyperedge_inv [OF inv2, of "bt_put ''nodes'' (JArr (map JStr kept)) m" kept u st'] rm st' False
          by auto
        then show ?thesis using q2 by (simp add: quiet_def)
      qed
    qed
  qed
qed

lemma resolve_hyperedges_inv:
  assumes "hyper_inv (ix_nodes ix) k st" and "resolve_hyperedges u ix hs st = Inr st'"
  shows "hyper_inv (ix_nodes ix) (length hs + k) st' \<and> node_side (hs_report st') = node_side (hs_report st)
    \<and> dropped_edge_count (hs_report st') = dropped_edge_count (hs_report st)"
  using assms
proof (induction hs arbitrary: k st)
  case Nil
  then show ?case by simp
next
  case (Cons h hs)
  obtain st1 where s: "resolve_hyperedge u ix h st = Inr st1" using Cons.prems(2) by (auto split: sum.splits)
  then show ?case
    using Cons.IH [of "Suc k" st1] Cons.prems resolve_hyperedge_inv [OF Cons.prems(1) s] by simp
qed

section \<open>The end of the build\<close>

lemma drop_edge_pow:
  "report_wf r \<Longrightarrow> report_wf ((drop_edge c ^^ n) r) \<and> dropped_edge_count ((drop_edge c ^^ n) r) = dropped_edge_count r + n
    \<and> node_side ((drop_edge c ^^ n) r) = node_side r
    \<and> dropped_hyperedge_count ((drop_edge c ^^ n) r) = dropped_hyperedge_count r"
  by (induction n) (auto simp: node_side_def)

lemma record_dedup_counts:
  assumes "report_wf r"
  shows "report_wf (record_dedup d r)" and "inputs (record_dedup d r) = inputs r"
    and "dropped_node_count (record_dedup d r) = dropped_node_count r"
    and "merged_node_count (record_dedup d r) =
      merged_node_count r + dr_same_label_nodes_merged d + dr_fuzzy_label_nodes_merged d"
    and "dropped_edge_count (record_dedup d r) =
      dropped_edge_count r + dr_self_loops_dropped d + dr_duplicate_edges_dropped d"
    and "dropped_hyperedge_count (record_dedup d r) = dropped_hyperedge_count r"
  using assms by (simp_all add: record_dedup_def)

text \<open>The graph before and after the last steps: how sizes and counts go together.\<close>

definition dedup_phase :: "unicode \<Rightarrow> fuzzy \<Rightarrow> build_options \<Rightarrow> graph \<Rightarrow> graph \<times> dedup_report" where
  "dedup_phase u f opts g =
     (if o_deduplicate_semantic_nodes opts then deduplicate_with_report u f g else (g, empty_dedup_report))"

lemma after_resolution_facts:
  assumes "after_resolution u f opts (g, r) = (g', r')" and "report_wf r"
  shows "map n_id (g_nodes g') = map n_id (g_nodes (fst (dedup_phase u f opts g)))"
    and "set (g_links g') \<subseteq> set (g_links (fst (dedup_phase u f opts g)))"
    and "distinct (map edge_key (g_links (fst (dedup_phase u f opts g)))) \<Longrightarrow> distinct (map edge_key (g_links g'))"
    and "g_hyperedges g' = g_hyperedges (fst (dedup_phase u f opts g))"
    and "inputs r' = inputs r" and "dropped_node_count r' = dropped_node_count r"
    and "b_output_nodes r' = length (g_nodes g')" and "b_output_edges r' = length (g_links g')"
    and "b_output_hyperedges r' = length (g_hyperedges g')"
    and "merged_node_count r' = merged_node_count r
      + dr_same_label_nodes_merged (snd (dedup_phase u f opts g))
      + dr_fuzzy_label_nodes_merged (snd (dedup_phase u f opts g))"
    and "length (g_links g') + dropped_edge_count r' = length (g_links (fst (dedup_phase u f opts g)))
      + dropped_edge_count r
      + dr_self_loops_dropped (snd (dedup_phase u f opts g)) + dr_duplicate_edges_dropped (snd (dedup_phase u f opts g))"
    and "dropped_hyperedge_count r' = dropped_hyperedge_count r"
proof -
  obtain g1 d where d: "dedup_phase u f opts g = (g1, d)" by fastforce
  define r1 where r1: "r1 = record_dedup d r"
  note rd = record_dedup_counts [OF assms(2), of d, folded r1]
  define st2 where st2: "st2 = (if \<not> o_directed opts \<and> o_collapse_undirected_reverse_edges opts
            then collapse_reverse_edges (g1, r1) else (g1, r1))"
  obtain g2 r2 where g2: "st2 = (g2, r2)" by fastforce
  have fin: "finish_graph (g2, r2) = (g', r')"
    using assms(1) d by (simp add: after_resolution_def dedup_phase_def r1 st2 [symmetric] g2 split: prod.splits)
      (metis st2 g2 r1)
  have links: "g_nodes g2 = g_nodes g1 \<and> g_hyperedges g2 = g_hyperedges g1 \<and> set (g_links g2) \<subseteq> set (g_links g1)
      \<and> (distinct (map edge_key (g_links g1)) \<longrightarrow> distinct (map edge_key (g_links g2)))
      \<and> length (g_links g2) + dropped_edge_count r2 = length (g_links g1) + dropped_edge_count r1
      \<and> node_side r2 = node_side r1 \<and> dropped_hyperedge_count r2 = dropped_hyperedge_count r1"
  proof (cases "\<not> o_directed opts \<and> o_collapse_undirected_reverse_edges opts")
    case True
    have sub: "distinct (map edge_key es) \<Longrightarrow> distinct (map edge_key (retain_first undirected_key seen es))" for seen es
      by (induction es arbitrary: seen) (auto dest: subsetD [OF retain_first_subset])
    show ?thesis
      using True g2 drop_edge_pow [OF rd(1), where c = UndirectedReverseDuplicate]
        length_retain_first_le [of undirected_key "{}" "g_links g1"] retain_first_subset [of undirected_key "{}" "g_links g1"] sub
      by (auto simp: st2 collapse_reverse_edges_def Let_def)
  next
    case False
    then have "g2 = g1" "r2 = r1" using g2 by (auto simp: st2)
    then show ?thesis by simp
  qed
  have g': "g' = g2\<lparr>g_nodes := disambiguate_file_labels_in_nodes (g_nodes g2)\<rparr>"
    and r': "r' = r2\<lparr>b_output_nodes := length (g_nodes g'), b_output_edges := length (g_links g'),
               b_output_hyperedges := length (g_hyperedges g')\<rparr>"
    using fin by (auto simp: finish_graph_def Let_def)
  have side: "inputs r' = inputs r2" "dropped_node_count r' = dropped_node_count r2" "merged_node_count r' = merged_node_count r2"
    "dropped_edge_count r' = dropped_edge_count r2" "dropped_hyperedge_count r' = dropped_hyperedge_count r2"
    by (simp_all add: r' inputs_def dropped_node_count_def merged_node_count_def dropped_edge_count_def
        dropped_hyperedge_count_def)
  show "map n_id (g_nodes g') = map n_id (g_nodes (fst (dedup_phase u f opts g)))"
    and "set (g_links g') \<subseteq> set (g_links (fst (dedup_phase u f opts g)))"
    and "distinct (map edge_key (g_links (fst (dedup_phase u f opts g)))) \<Longrightarrow> distinct (map edge_key (g_links g'))"
    and "g_hyperedges g' = g_hyperedges (fst (dedup_phase u f opts g))"
    using links by (simp_all add: g' d disambiguate_ids)
  show "inputs r' = inputs r" "dropped_node_count r' = dropped_node_count r"
    "dropped_hyperedge_count r' = dropped_hyperedge_count r"
    using links rd side by (simp_all add: node_side_def)
  show "b_output_nodes r' = length (g_nodes g')" "b_output_edges r' = length (g_links g')"
    "b_output_hyperedges r' = length (g_hyperedges g')"
    by (simp_all add: r')
  show "merged_node_count r' = merged_node_count r
      + dr_same_label_nodes_merged (snd (dedup_phase u f opts g))
      + dr_fuzzy_label_nodes_merged (snd (dedup_phase u f opts g))"
    using links rd side by (simp add: node_side_def d)
  show "length (g_links g') + dropped_edge_count r' = length (g_links (fst (dedup_phase u f opts g)))
      + dropped_edge_count r
      + dr_self_loops_dropped (snd (dedup_phase u f opts g)) + dr_duplicate_edges_dropped (snd (dedup_phase u f opts g))"
    using links rd side by (simp add: g' d)
qed

section \<open>The whole build\<close>

lemma wf_semantic_id_remap: "bt_wf (semantic_id_remap u xs)"
proof -
  have "bt_wf m \<Longrightarrow> bt_wf (fold (\<lambda>n m. case semantic_replacement u n of None \<Rightarrow> m | Some r \<Rightarrow> bt_put (n_id n) r m) ns m)"
    for m ns by (induction ns arbitrary: m) (auto split: option.splits)
  then show ?thesis by (simp add: semantic_id_remap_def)
qed

lemma initial_report_facts:
  "report_wf (initial_report xs)" "dropped_node_count (initial_report xs) = 0" "merged_node_count (initial_report xs) = 0"
  "dropped_edge_count (initial_report xs) = 0" "dropped_hyperedge_count (initial_report xs) = 0"
  "inputs (initial_report xs) = (length (concat (map x_nodes xs)), length (concat (map x_edges xs)), length (concat (map x_hyperedges xs)))"
  by (simp_all add: initial_report_def report_wf_def dropped_node_count_def merged_node_count_def
      dropped_edge_count_def dropped_hyperedge_count_def inputs_def length_concat o_def)

text \<open>The state between resolution and deduplication.\<close>

lemma build_phases:
  assumes b: "build_normalized u f xs opts = Inr (g', r')" and u: "keeps_letters u"
  obtains nodes g r where
    "after_resolution u f opts (g, r) = (g', r')" and "report_wf r"
    and "inputs r = (length (concat (map x_nodes xs)), length (concat (map x_edges xs)), length (concat (map x_hyperedges xs)))"
    and "g_nodes g = map snd nodes" and "own_ids nodes"
    and "length nodes + merged_node_count r + dropped_node_count r = length (concat (map x_nodes xs))"
    and "unchained (semantic_id_remap u xs) \<Longrightarrow> keyed nodes \<and> links_ok nodes (g_links g)"
    and "distinct (map edge_key (g_links g))"
    and "length (g_links g) + dropped_edge_count r = length (concat (map x_edges xs))"
    and "\<forall>h \<in> set (g_hyperedges g). hyperedge_ok nodes h" and "distinct (map hyper_id (g_hyperedges g))"
    and "length (g_hyperedges g) + dropped_hyperedge_count r = length (concat (map x_hyperedges xs))"
proof -
  let ?remap = "semantic_id_remap u xs"
  obtain merged r0 where m: "merge_input_nodes ?remap (concat (map x_nodes xs)) ([], initial_report xs) = Inr (merged, r0)"
    using b by (auto simp: build_normalized_def resolve_extractions_def Let_def split: sum.splits)
  obtain nodes r1 where t: "resolve_twins ?remap (merged, r0) = (nodes, r1)" by fastforce
  define ix where ix: "ix = build_index_of u ?remap merged nodes"
  define es where es: "es = resolve_edges u ix (all_edges xs) r1"
  obtain hs where hs: "resolve_hyperedges u ix (concat (map x_hyperedges xs))
      \<lparr>hs_hyperedges = [], hs_ids = [], hs_report = es_report es\<rparr> = Inr hs"
    using b by (auto simp: build_normalized_def resolve_extractions_def m t ix es Let_def split: sum.splits)
  define g where g: "g = \<lparr>g_directed = o_directed opts, g_multigraph = False, g_nodes = map snd nodes,
      g_links = es_links es, g_hyperedges = hs_hyperedges hs, g_extra = [(''graph'', JObj [])]\<rparr>"
  have ar: "after_resolution u f opts (g, hs_report hs) = (g', r')"
    using b hs by (simp add: build_normalized_def resolve_extractions_def m t ix [symmetric] es [symmetric] g Let_def)
  note m1 = merge_input_nodes_mass [OF m bt_wf_Nil initial_report_facts(1)]
  have m2: "keyed merged \<and> (unchained ?remap \<longrightarrow> bt_has merged k \<longrightarrow> \<not> bt_has ?remap k)" for k
    by (rule merge_input_nodes_keyed [OF m _ _ remap_named [OF u]]) simp_all
  have t1: "bt_wf nodes \<and> report_wf r1 \<and> edge_side r1 = edge_side r0 \<and> node_mass (nodes, r1) = node_mass (merged, r0)"
    by (rule resolve_twins_mass [OF _ _ t]) (use m1 in auto)
  have k: "keyed nodes" if "unchained ?remap"
    by (rule resolve_twins_keyed [OF _ _ wf_semantic_id_remap t]) (use m2 that in auto)
  have own: "own_ids nodes" by (rule resolve_twins_own [OF keyed_own_ids t]) (use m2 in blast)
  have i: "unchained ?remap \<Longrightarrow> index_ok ix" "ix_nodes ix = nodes"
    using index_ok_build k by (simp_all add: ix build_index_of_def)
  have z: "dropped_edge_count r1 = 0" "dropped_hyperedge_count r1 = 0" "inputs r1 = inputs (initial_report xs)"
    using t1 m1 initial_report_facts(4,5) by (simp_all add: edge_side_def)
  have e1: "edge_inv (length (all_edges xs)) es \<and> node_side (es_report es) = node_side r1
      \<and> dropped_hyperedge_count (es_report es) = dropped_hyperedge_count r1
      \<and> (index_ok ix \<longrightarrow> links_ok nodes (es_links es))"
    unfolding es i(2) [symmetric] by (rule resolve_edges_inv) (use t1 z in auto)
  have "hyper_inv nodes 0 \<lparr>hs_hyperedges = [], hs_ids = [], hs_report = es_report es\<rparr>"
    using e1 z by (simp add: hyper_inv_def edge_inv_def)
  then have h1: "hyper_inv nodes (length (concat (map x_hyperedges xs))) hs
      \<and> node_side (hs_report hs) = node_side (es_report es)
      \<and> dropped_edge_count (hs_report hs) = dropped_edge_count (es_report es)"
    using resolve_hyperedges_inv [OF _ hs, of 0] i(2) by simp
  have ids: "distinct (map hyper_id (hs_hyperedges hs))"
    using h1 by (simp add: hyper_inv_def distinct_map)
  show thesis
  proof (rule that [OF ar, where nodes = nodes])
    show "inputs (hs_report hs) = (length (concat (map x_nodes xs)), length (concat (map x_edges xs)), length (concat (map x_hyperedges xs)))"
      using h1 e1 z initial_report_facts(6) by (simp add: node_side_def)
    show "length nodes + merged_node_count (hs_report hs) + dropped_node_count (hs_report hs) = length (concat (map x_nodes xs))"
      using h1 e1 t1 m1 initial_report_facts(2,3) by (simp add: node_side_def node_mass_def)
    show "length (g_links g) + dropped_edge_count (hs_report hs) = length (concat (map x_edges xs))"
      using h1 e1 by (simp add: g edge_inv_def all_edges_def)
    show "distinct (map edge_key (g_links g))"
      using e1 seen_ok_distinct [of "es_seen es" "es_links es"] by (simp add: g edge_inv_def)
  qed (use k i own h1 e1 ids in \<open>simp_all add: g hyper_inv_def edge_inv_def\<close>)
qed

lemma keyed_ids:
  assumes "keyed nodes"
  shows "n_id ` snd ` set nodes = fst ` set nodes" and "distinct (map n_id (map snd nodes))"
    and "\<forall>n \<in> snd ` set nodes. n_id n \<noteq> []"
proof -
  have e: "n_id (snd kn) = fst kn \<and> fst kn \<noteq> []" if "kn \<in> set nodes" for kn
    using keyed_entry [OF assms, of "fst kn" "snd kn"] that by simp
  then have "map n_id (map snd nodes) = map fst nodes" by simp
  then show "distinct (map n_id (map snd nodes))" using bt_wf_distinct [OF keyed_wf [OF assms]] by metis
  show "n_id ` snd ` set nodes = fst ` set nodes" using e by force
  show "\<forall>n \<in> snd ` set nodes. n_id n \<noteq> []" using e by auto
qed

lemma length_normalize: "length (concat (map x_nodes (normalize_extractions u base xs))) = length (concat (map x_nodes xs))"
  "length (concat (map x_edges (normalize_extractions u base xs))) = length (concat (map x_edges xs))"
  "length (concat (map x_hyperedges (normalize_extractions u base xs))) = length (concat (map x_hyperedges xs))"
  by (simp_all add: normalize_extractions_def length_concat o_def)

text \<open>The hyperedges after deduplication.\<close>

lemma resolve_distinct_members:
  assumes "deduplicate_engine u f nodes edges communities guard = Inr r" and "hyper_members h = Some ms"
    and "ms \<noteq> []" and "set ms \<subseteq> n_id ` set (unique_records nodes)"
  shows "\<exists>ms'. hyper_members (fst (rewire_hyperedge (er_remap r) h)) = Some ms' \<and> ms' \<noteq> [] \<and> distinct ms'
    \<and> set ms' \<subseteq> n_id ` set (er_nodes r)"
proof -
  obtain m raw where m: "h = JObj m" "bt_get m ''nodes'' = Some (JArr raw)" "ms = List.map_filter as_str raw"
    using assms(2) by (auto simp: hyper_members_def vget_def bind_eq_Some_conv)
  let ?ms' = "retain_first (\<lambda>m. m) {} (map (\<lambda>m. resolve_endpoint m (er_remap r)) ms)"
  have "hyper_members (fst (rewire_hyperedge (er_remap r) h)) = Some ?ms'"
    using m by (simp add: rewire_hyperedge_def rewire_members_def hyper_members_def vget_def Let_def)
  moreover have keys: "set ?ms' = (\<lambda>m. resolve_endpoint m (er_remap r)) ` set ms"
    using retain_first_keys [of "\<lambda>m. m" "{}" "map (\<lambda>m. resolve_endpoint m (er_remap r)) ms"] by simp
  moreover have "?ms' \<noteq> []" using keys assms(3) by (metis image_is_empty set_empty)
  moreover have "distinct ?ms'"
    using retain_first_distinct [of "\<lambda>m. m" "{}" "map (\<lambda>m. resolve_endpoint m (er_remap r)) ms"] by simp
  moreover have "set ?ms' \<subseteq> n_id ` set (er_nodes r)"
    unfolding keys using resolve_kept [OF assms(1)] assms(4) by blast
  ultimately show ?thesis by blast
qed

lemma rewire_keeps_id: "hyper_id (fst (rewire_hyperedge remap h)) = hyper_id h"
  by (cases h) (auto simp: rewire_hyperedge_def hyper_id_def vget_def rewire_members_def Let_def split: option.splits)

definition members_in :: "node list \<Rightarrow> json \<Rightarrow> bool" where
  "members_in nodes h \<longleftrightarrow>
     (\<exists>ms. hyper_members h = Some ms \<and> ms \<noteq> [] \<and> distinct ms \<and> set ms \<subseteq> n_id ` set nodes)"

text \<open>What the deduplication phase, run or not, leaves of a resolved graph.\<close>

lemma dedup_phase_counts:
  assumes own: "own_ids nodes" and n: "g_nodes g = map snd nodes" and d: "distinct (map edge_key (g_links g))"
    and p: "dedup_phase u f opts g = (g1, dr)"
  shows "length nodes = length (g_nodes g1) + dr_same_label_nodes_merged dr + dr_fuzzy_label_nodes_merged dr"
    and "distinct (map n_id (g_nodes g1))" and "[] \<notin> n_id ` set (g_nodes g1)"
    and "distinct (map edge_key (g_links g1))"
    and "length (g_links g) = length (g_links g1) + dr_self_loops_dropped dr + dr_duplicate_edges_dropped dr"
    and "map hyper_id (g_hyperedges g1) = map hyper_id (g_hyperedges g)"
proof -
  note on = own_ids_nodes [OF own]
  have "length nodes = length (g_nodes g1) + dr_same_label_nodes_merged dr + dr_fuzzy_label_nodes_merged dr
    \<and> distinct (map n_id (g_nodes g1)) \<and> [] \<notin> n_id ` set (g_nodes g1) \<and> distinct (map edge_key (g_links g1))
    \<and> length (g_links g) = length (g_links g1) + dr_self_loops_dropped dr + dr_duplicate_edges_dropped dr
    \<and> map hyper_id (g_hyperedges g1) = map hyper_id (g_hyperedges g)"
  proof (cases "o_deduplicate_semantic_nodes opts")
    case False
    then have "g1 = g" "dr = empty_dedup_report" using p by (auto simp: dedup_phase_def)
    then show ?thesis using d on n by (auto simp: empty_dedup_report_def)
  next
    case True
    then have g1: "g1 = fst (deduplicate_with_report u f g)" "dr = snd (deduplicate_with_report u f g)"
      using p by (auto simp: dedup_phase_def)
    have "{i. i \<noteq> [] \<and> i \<in> n_id ` set (g_nodes g)} = set (map n_id (map snd nodes))" using on(2) n by auto
    then have "card {i. i \<noteq> [] \<and> i \<in> n_id ` set (g_nodes g)} = length nodes"
      using distinct_card [OF on(1)] by simp
    moreover have "[] \<notin> n_id ` set (g_nodes g1)"
      using dedup_ids(2) [of u f g] set_unique_ids [of "g_nodes g"] unfolding g1 by blast
    moreover have "map hyper_id (g_hyperedges g1) = map hyper_id (g_hyperedges g)"
      by (simp add: g1 deduplicate_graph rewire_keeps_id)
    ultimately show ?thesis
      using dedup_node_count [of g u f] dedup_ids(1) [of u f g]
        dedup_edge_count [of g u f] retain_first_distinct [of edge_key]
      by (simp add: g1 deduplicate_graph(2))
  qed
  then show "length nodes = length (g_nodes g1) + dr_same_label_nodes_merged dr + dr_fuzzy_label_nodes_merged dr"
    and "distinct (map n_id (g_nodes g1))" and "[] \<notin> n_id ` set (g_nodes g1)"
    and "distinct (map edge_key (g_links g1))"
    and "length (g_links g) = length (g_links g1) + dr_self_loops_dropped dr + dr_duplicate_edges_dropped dr"
    and "map hyper_id (g_hyperedges g1) = map hyper_id (g_hyperedges g)" by blast+
qed

lemma dedup_phase_ends:
  assumes k: "keyed nodes" and n: "g_nodes g = map snd nodes" and l: "links_ok nodes (g_links g)"
    and h: "\<forall>h \<in> set (g_hyperedges g). hyperedge_ok nodes h" and p: "dedup_phase u f opts g = (g1, dr)"
  shows "(\<forall>e \<in> set (g_links g1). endpoints_in (g_nodes g1) e) \<and> (\<forall>h \<in> set (g_hyperedges g1). members_in (g_nodes g1) h)"
proof -
  note ki = keyed_ids [OF k]
  have ids: "n_id ` set (g_nodes g) = fst ` set nodes" using ki(1) n by simp
  have ends: "\<forall>e \<in> set (g_links g). endpoints_in (g_nodes g) e \<and> true_endpoints_in (g_nodes g) e"
    using l by (auto simp: links_ok_def endpoints_in_def true_endpoints_in_def ids bt_has_iff)
  have ne: "\<forall>n \<in> set (g_nodes g). n_id n \<noteq> []" using ki(3) n by simp
  have hm: "\<exists>ms. hyper_members h = Some ms \<and> ms \<noteq> [] \<and> distinct ms \<and> set ms \<subseteq> n_id ` set (g_nodes g)"
    if "h \<in> set (g_hyperedges g)" for h
    using h that unfolding ids hyperedge_ok_def bt_has_iff by (metis subsetI)
  show ?thesis
  proof (cases "o_deduplicate_semantic_nodes opts")
    case False
    then have "g1 = g" "dr = empty_dedup_report" using p by (auto simp: dedup_phase_def)
    then show ?thesis using ends hm by (auto simp: members_in_def)
  next
    case True
    then have g1: "g1 = fst (deduplicate_with_report u f g)" "dr = snd (deduplicate_with_report u f g)"
      using p by (auto simp: dedup_phase_def)
    have "members_in (g_nodes g1) h'" if mem: "h' \<in> set (g_hyperedges g1)" for h'
    proof -
      obtain h0 where h0: "h0 \<in> set (g_hyperedges g)" "h' = fst (rewire_hyperedge (er_remap (report_of u f g)) h0)"
        using mem by (auto simp: g1 deduplicate_graph)
      have "n_id ` set (unique_records (g_nodes g)) = n_id ` set (g_nodes g)"
        using ne by (auto simp: set_unique_ids)
      then obtain ms where "hyper_members h0 = Some ms" "ms \<noteq> []" "set ms \<subseteq> n_id ` set (unique_records (g_nodes g))"
        using hm [OF h0(1)] by metis
      from resolve_distinct_members [OF report_of_engine this] show ?thesis
        by (simp add: members_in_def h0(2) g1 deduplicate_graph)
    qed
    then show ?thesis using dedup_edges_resolved [OF ends ne, of u f] by (simp add: g1)
  qed
qed

lemma build_facts:
  assumes b: "build_graph_with_report_and_options u f base xs opts = Inr (g, report)" and u: "keeps_letters u"
  shows "nodes_accounted_for report \<and> edges_accounted_for report \<and> hyperedges_accounted_for report
    \<and> inputs report = (length (concat (map x_nodes xs)), length (concat (map x_edges xs)), length (concat (map x_hyperedges xs)))
    \<and> b_output_nodes report = length (g_nodes g) \<and> b_output_edges report = length (g_links g)
    \<and> b_output_hyperedges report = length (g_hyperedges g)"
    and "distinct (map n_id (g_nodes g)) \<and> [] \<notin> n_id ` set (g_nodes g)
    \<and> distinct (map edge_key (g_links g)) \<and> distinct (map hyper_id (g_hyperedges g))"
    and "unchained (semantic_id_remap u (normalize_extractions u base xs)) \<Longrightarrow>
      (\<forall>e \<in> set (g_links g). endpoints_in (g_nodes g) e) \<and> (\<forall>h \<in> set (g_hyperedges g). members_in (g_nodes g) h)"
proof -
  let ?xs = "normalize_extractions u base xs"
  note b' = b [unfolded build_graph_with_report_and_options_def]
  obtain nodes g0 r where ph:
    "after_resolution u f opts (g0, r) = (g, report)" "report_wf r"
    "inputs r = (length (concat (map x_nodes ?xs)), length (concat (map x_edges ?xs)), length (concat (map x_hyperedges ?xs)))"
    "g_nodes g0 = map snd nodes" "own_ids nodes"
    "length nodes + merged_node_count r + dropped_node_count r = length (concat (map x_nodes ?xs))"
    "unchained (semantic_id_remap u ?xs) \<Longrightarrow> keyed nodes \<and> links_ok nodes (g_links g0)"
    "distinct (map edge_key (g_links g0))"
    "length (g_links g0) + dropped_edge_count r = length (concat (map x_edges ?xs))"
    "\<forall>h \<in> set (g_hyperedges g0). hyperedge_ok nodes h" "distinct (map hyper_id (g_hyperedges g0))"
    "length (g_hyperedges g0) + dropped_hyperedge_count r = length (concat (map x_hyperedges ?xs))"
    by (rule build_phases [OF b' u]) blast
  obtain g1 dr where p: "dedup_phase u f opts g0 = (g1, dr)" by fastforce
  note df = dedup_phase_counts [OF ph(5,4,8) p]
  note af = after_resolution_facts [OF ph(1,2), unfolded p fst_conv snd_conv]
  have nn: "length (g_nodes g) = length (g_nodes g1)" and hh: "length (g_hyperedges g1) = length (g_hyperedges g0)"
    using af(1) df(6) by (metis length_map)+
  have ids: "n_id ` set (g_nodes g) = n_id ` set (g_nodes g1)"
    using af(1) by (metis list.set_map)
  show "nodes_accounted_for report \<and> edges_accounted_for report \<and> hyperedges_accounted_for report
    \<and> inputs report = (length (concat (map x_nodes xs)), length (concat (map x_edges xs)), length (concat (map x_hyperedges xs)))
    \<and> b_output_nodes report = length (g_nodes g) \<and> b_output_edges report = length (g_links g)
    \<and> b_output_hyperedges report = length (g_hyperedges g)"
    using af(4-12) df(1,5) ph(3,6,9,12) nn hh
    by (simp add: nodes_accounted_for_def edges_accounted_for_def hyperedges_accounted_for_def inputs_def
        length_normalize)
  show "distinct (map n_id (g_nodes g)) \<and> [] \<notin> n_id ` set (g_nodes g)
    \<and> distinct (map edge_key (g_links g)) \<and> distinct (map hyper_id (g_hyperedges g))"
    using af(1,3,4) df(2,3,4,6) ids ph(11) by metis
  show "(\<forall>e \<in> set (g_links g). endpoints_in (g_nodes g) e) \<and> (\<forall>h \<in> set (g_hyperedges g). members_in (g_nodes g) h)"
    if "unchained (semantic_id_remap u ?xs)"
  proof -
    have "keyed nodes" "links_ok nodes (g_links g0)" using ph(7) [OF that] by blast+
    from dedup_phase_ends [OF this(1) ph(4) this(2) ph(10) p] show ?thesis
      using af(2,4) ids by (auto simp: endpoints_in_def members_in_def)
  qed
qed


text \<open>
  C2: The graph that a build returns is well formed: the identifiers of its nodes are distinct and not
  empty, no two edges agree in ends and relation, and the identifiers of hyperedges are distinct; and,
  when no replacement of a stale semantic identifier is itself a stale identifier, both ends of every
  edge and every member of every hyperedge name a node of the graph, and hyperedges have members, none
  twice. The condition is needed: without it an edge can dangle (\<open>chained_stale_ids_dangle\<close>).
\<close>

theorem build_is_well_formed:
  assumes "build_graph_with_report_and_options u f base xs opts = Inr (g, report)" and "keeps_letters u"
  shows "distinct (map n_id (g_nodes g)) \<and> [] \<notin> n_id ` set (g_nodes g)
    \<and> distinct (map edge_key (g_links g)) \<and> distinct (map hyper_id (g_hyperedges g))
    \<and> (unchained (semantic_id_remap u (normalize_extractions u base xs)) \<longrightarrow>
        (\<forall>e \<in> set (g_links g). endpoints_in (g_nodes g) e) \<and> (\<forall>h \<in> set (g_hyperedges g). members_in (g_nodes g) h))"
  using build_facts(2,3) [OF assms] by blast

definition no_fuzzy :: fuzzy where
  "no_fuzzy = \<lparr>f_jaro = \<lambda>_ _. 0, f_jaro_winkler = \<lambda>_ _. 0, f_damerau = \<lambda>_ _. 0\<rparr>"

definition sample_extraction :: extraction where
  "sample_extraction = \<lparr>x_nodes = [plain_node ''a'' ''alpha'' ''m.rs'', plain_node ''b'' ''beta'' ''m.rs''],
     x_edges = [plain_edge ''a'' ''b'' ''calls''], x_hyperedges = []\<rparr>"

definition undeduplicated :: build_options where
  "undeduplicated = \<lparr>o_directed = False, o_deduplicate_semantic_nodes = False,
     o_collapse_undirected_reverse_edges = False\<rparr>"

lemma build_undeduplicated:
  "build_graph_with_report_and_options u f base xs undeduplicated =
     map_sum (\<lambda>err. err) (\<lambda>st. finish_graph (fst st, record_dedup empty_dedup_report (snd st)))
       (resolve_extractions u (normalize_extractions u base xs) False)"
  by (simp add: build_graph_with_report_and_options_def build_normalized_def after_resolution_def
      undeduplicated_def split_def split: sum.splits)

lemma sample_build: "\<exists>g report. build_graph_with_report_and_options plain_unicode no_fuzzy None [sample_extraction] undeduplicated
    = Inr (g, report)"
proof -
  have "\<not> isl (build_graph_with_report_and_options plain_unicode no_fuzzy None [sample_extraction] undeduplicated)"
    unfolding build_undeduplicated by code_simp
  then show ?thesis by (cases "build_graph_with_report_and_options plain_unicode no_fuzzy None [sample_extraction] undeduplicated") auto
qed

lemma sample_unchained: "unchained (semantic_id_remap plain_unicode (normalize_extractions plain_unicode None [sample_extraction]))"
proof -
  have "semantic_id_remap plain_unicode (normalize_extractions plain_unicode None [sample_extraction]) = []" by code_simp
  then show ?thesis by (simp add: unchained_def)
qed


theorem build_is_well_formed_witness:
  "\<exists>g report. build_graph_with_report_and_options plain_unicode no_fuzzy None [sample_extraction] undeduplicated
      = Inr (g, report) \<and> list_all (endpoints_in (g_nodes g)) (g_links g)"
  unfolding list_all_iff using sample_build build_is_well_formed [OF _ keeps_letters_plain] sample_unchained by blast

section \<open>The search for an unused hyperedge identifier ends\<close>

lemma ascii_digit_facts:
  assumes "ascii_digit c"
  shows "is_alphanumeric c" "to_lower c = c" "is_ascii c" "c \<noteq> CHR ''_''" "c \<noteq> CHR ''.''"
proof -
  have sc: "slug_char c" using assms by (simp add: slug_char_def)
  show "is_alphanumeric c" "to_lower c = c" "is_ascii c" "c \<noteq> CHR ''_''" using slug_char_facts [OF sc] by auto
  show "c \<noteq> CHR ''.''" using assms by (auto simp: ascii_digit_def less_eq_char_def)
qed

lemma id_loop_digits:
  "(\<And>c. c \<in> set d \<Longrightarrow> ascii_digit c) \<Longrightarrow> id_loop acc False d = acc @ d"
  by (induction d arbitrary: acc) (simp_all add: ascii_digit_facts)

lemma id_loop_pending_digits:
  assumes "\<And>c. c \<in> set d \<Longrightarrow> ascii_digit c" and "d \<noteq> []"
  shows "id_loop acc True d = (if acc \<noteq> [] then acc @ ''_'' else acc) @ d"
  using assms id_loop_digits [of "tl d"] by (cases d) (simp_all add: ascii_digit_facts)

lemma id_loop_append_sep:
  "id_loop acc p (x @ ''_'' @ d) = id_loop (id_loop acc p x) True d"
  by (induction acc p x rule: id_loop.induct) simp_all

lemma make_id_ascii:
  assumes u: "ascii_laws u" and a: "\<forall>p \<in> set parts. \<forall>c \<in> set p. is_ascii c"
  shows "make_id u parts = id_loop [] False (join_with ''_''
       (map (trim_by (\<lambda>c. c = CHR ''_'' \<or> c = CHR ''.'')) (filter (\<lambda>p. p \<noteq> []) parts)))"
proof -
  let ?j = "join_with ''_'' (map (trim_by (\<lambda>c. c = CHR ''_'' \<or> c = CHR ''.'')) (filter (\<lambda>p. p \<noteq> []) parts))"
  have "\<forall>p \<in> set (map (trim_by (\<lambda>c. c = CHR ''_'' \<or> c = CHR ''.'')) (filter (\<lambda>p. p \<noteq> []) parts)). \<forall>c \<in> set p. is_ascii c"
    using a trim_by_subset by fastforce
  then have j: "\<forall>c \<in> set ?j. is_ascii c" by (rule is_ascii_pad)
  then have "slug (id_loop [] False ?j)" by (intro id_loop_slug) (simp_all add: slug_def)
  then show ?thesis
    using slug_trim slug_fold [OF u] u j by (simp add: make_id_def normalize_id_def ascii_laws_def)
qed

lemma join_snoc: "join_with sep (ps @ [p]) = (if ps = [] then p else join_with sep ps @ sep @ p)"
  by (induction sep ps rule: join_with.induct) auto

lemma id_candidate_numbered:
  assumes u: "ascii_laws u" and a: "\<forall>c \<in> set base. is_ascii c" "\<forall>c \<in> set src. is_ascii c" and n: "n \<noteq> 1"
  shows "id_candidate u base src n =
    (if make_id u [base, src] = [] then [] else make_id u [base, src] @ ''_'') @ show_nat n"
proof -
  let ?t = "trim_by (\<lambda>c. c = CHR ''_'' \<or> c = CHR ''.'')"
  define ps where ps: "ps = map ?t (filter (\<lambda>p. p \<noteq> []) [base, src])"
  let ?d = "show_nat n"
  have dig: "\<And>c. c \<in> set ?d \<Longrightarrow> ascii_digit c" by (rule digits_show_nat)
  have "?t ?d = ?d"
    by (rule trim_by_id) (metis ascii_digit_facts(4,5) dig hd_in_set last_in_set)
  moreover have "\<forall>p \<in> set [base, src, ?d]. \<forall>c \<in> set p. is_ascii c"
    using a dig ascii_digit_facts(3) by auto
  ultimately have c: "make_id u [base, src, ?d] = id_loop [] False (join_with ''_'' (ps @ [?d]))"
    by (subst make_id_ascii [OF u]) (simp_all add: ps)
  have m: "make_id u [base, src] = id_loop [] False (join_with ''_'' ps)"
    using a by (subst make_id_ascii [OF u]) (simp_all add: ps)
  have "make_id u [base, src, ?d] = (if make_id u [base, src] = [] then [] else make_id u [base, src] @ ''_'') @ ?d"
  proof (cases "ps = []")
    case True
    then show ?thesis using id_loop_digits [OF dig] by (simp add: c m)
  next
    case False
    then show ?thesis
      unfolding c m join_snoc using id_loop_append_sep [of "[]" False "join_with ''_'' ps" ?d]
        id_loop_pending_digits [of ?d "id_loop [] False (join_with ''_'' ps)"] dig by simp
  qed
  then show ?thesis using n by (simp add: id_candidate_def)
qed

lemma id_candidate_inj:
  assumes "ascii_laws u" and "\<forall>c \<in> set base. is_ascii c" "\<forall>c \<in> set src. is_ascii c"
  shows "inj (id_candidate u base src)"
proof (rule injI)
  fix n m
  assume e: "id_candidate u base src n = id_candidate u base src m"
  note num = id_candidate_numbered [OF assms]
  have one: "id_candidate u base src 1 = make_id u [base, src]" by (simp add: id_candidate_def)
  have ne: "k \<noteq> 1 \<Longrightarrow> id_candidate u base src k \<noteq> make_id u [base, src]" for k
    by (auto simp: num)
  show "n = m"
  proof (cases "n = 1 \<or> m = 1")
    case True
    then show ?thesis using e one ne by metis
  next
    case False
    then have "show_nat n = show_nat m" using e num [of n] num [of m] by simp
    then show ?thesis by (rule show_nat_inj)
  qed
qed

lemma fresh_id_None: "fresh_id k u ids base src n = None \<Longrightarrow> j < k \<Longrightarrow> id_candidate u base src (n + j) \<in> set ids"
proof (induction k arbitrary: n j)
  case (Suc k)
  then have c: "id_candidate u base src n \<in> set ids" and f: "fresh_id k u ids base src (n + 1) = None"
    by (auto simp: Let_def split: if_splits)
  show ?case
  proof (cases j)
    case 0
    then show ?thesis using c by simp
  next
    case (Suc i)
    then show ?thesis using Suc.IH [OF f, of i] Suc.prems(2) by simp
  qed
qed simp

text \<open>
  The search for an unused identifier of a repeated hyperedge ends, whatever identifiers are in
  use, when its name and file are ASCII: one more attempt than there are identifiers is enough, and
  what is found is unused.
\<close>

lemma fresh_id_found:
  assumes "ascii_laws u" and "\<forall>c \<in> set base. is_ascii c" and "\<forall>c \<in> set src. is_ascii c"
  shows "\<exists>i. fresh_id (Suc (length ids)) u ids base src 1 = Some i \<and> i \<notin> set ids"
proof (cases "fresh_id (Suc (length ids)) u ids base src 1")
  case None
  have "(\<lambda>j. id_candidate u base src (1 + j)) ` {..<Suc (length ids)} \<subseteq> set ids"
    using fresh_id_None [OF None] by blast
  then have "card ((\<lambda>j. id_candidate u base src (1 + j)) ` {..<Suc (length ids)}) \<le> length ids"
    using card_mono [of "set ids"] card_length [of ids] by (meson List.finite_set le_trans)
  moreover have "inj_on (\<lambda>j. id_candidate u base src (1 + j)) {..<Suc (length ids)}"
    using id_candidate_inj [OF assms] by (auto simp: inj_on_def inj_def)
  ultimately show ?thesis by (simp add: card_image)
next
  case (Some i)
  then show ?thesis using fresh_id_fresh by blast
qed

theorem fresh_id_found_witness:
  "\<exists>i. fresh_id 2 plain_unicode [''he''] ''he'' ''a.md'' 1 = Some i \<and> i \<noteq> ''he''"
  using fresh_id_found [OF plain_unicode_laws, of "''he''" "''a.md''" "[''he'']"]
  by (simp add: is_ascii_def less_char_def numeral_2_eq_2)

section \<open>Chained stale identifiers\<close>

text \<open>
  Two semantic nodes with stale identifiers, of \<open>p/x/a.md\<close> and \<open>x/a.md\<close>: the replacement of the
  second is the stale identifier of the first. A third node refers to the first.
\<close>

definition semantic_node :: "string \<Rightarrow> string \<Rightarrow> string \<Rightarrow> node" where
  "semantic_node i label file = (plain_node i label file)\<lparr>n_extra := [(''_origin'', JStr ''semantic'')]\<rparr>"

definition chained_extraction :: extraction where
  "chained_extraction = \<lparr>x_nodes = [semantic_node ''x_a_foo'' ''first'' ''p/x/a.md'',
       semantic_node ''a_foo'' ''second'' ''x/a.md'', plain_node ''c'' ''third'' []],
     x_edges = [plain_edge ''c'' ''x_a_foo'' ''references''], x_hyperedges = []\<rparr>"

definition dangling :: "graph \<Rightarrow> edge list" where
  "dangling g = filter (\<lambda>e. e_source e \<notin> set (map n_id (g_nodes g)) \<or> e_target e \<notin> set (map n_id (g_nodes g))) (g_links g)"

text \<open>
  When the replacement of a stale identifier is itself stale, the build merges the nodes of two
  different files and stores the result under one identifier with the other written in it, so the
  graph that is returned has an edge to a node it does not have.
\<close>

lemma chained_stale_ids_dangle:
  "(case build_graph_with_report_and_options plain_unicode no_fuzzy None [chained_extraction] undeduplicated of
      Inl _ \<Rightarrow> False
    | Inr (g, _) \<Rightarrow> map n_id (g_nodes g) = [''c'', ''x_a_foo'']
        \<and> map e_target (dangling g) = [''p_x_a_foo''])"
  unfolding build_undeduplicated by code_simp

end
