(* ===== verification/PathClass.thy ===== *)
theory PathClass
  imports Prelude "HOL-Library.Multiset"
begin

text \<open>
  \<open>graphoxide-query/src/path_classification.rs\<close>: which paths are test files, and the tie break
  between several symbols of one name. The file map is a map from candidate to path; an absent
  entry is the empty path, as \<open>unwrap_or("")\<close> makes it. The candidates are compared by value, and
  the sort is stable.
\<close>

section \<open>Test paths\<close>

definition test_directories :: "string list" where
  "test_directories = [''tests'', ''test'', ''spec'', ''specs'', ''__tests__'']"

definition is_test_path :: "string \<Rightarrow> bool" where
  "is_test_path p =
     (let segments = filter (\<lambda>s. s \<noteq> []) (split_on (CHR ''/'') (slashes p))
      in if p = [] then False
         else if \<exists>s \<in> set segments. ascii_lowercase s \<in> set test_directories then True
         else if segments = [] then False
         else (let filename = last segments; lower = ascii_lowercase filename
               in starts_with lower ''test_''
                  \<or> contains lower ''_test.''
                  \<or> contains lower ''.test.''
                  \<or> contains lower ''.spec.''
                  \<or> contains lower ''_spec.''
                  \<or> ends_with lower ''.tests.ps1''
                  \<or> ends_with filename ''Test.java''
                  \<or> ends_with filename ''Tests.java''
                  \<or> ends_with filename ''Tests.cs''))"

section \<open>Proximity\<close>

definition normalized_parts :: "string \<Rightarrow> string list" where
  "normalized_parts p = filter (\<lambda>s. s \<noteq> []) (split_on (CHR ''/'') (slashes p))"

definition path_of :: "(string \<rightharpoonup> string) \<Rightarrow> string \<Rightarrow> string" where
  "path_of files c = (case files c of None \<Rightarrow> [] | Some p \<Rightarrow> p)"

definition directory_of :: "string \<Rightarrow> string list" where
  "directory_of p = butlast (normalized_parts p)"

fun common_parts :: "string list \<Rightarrow> string list \<Rightarrow> nat" where
  "common_parts (x # xs) (y # ys) = (if x = y then Suc (common_parts xs ys) else 0)"
| "common_parts _ _ = 0"

text \<open>The stable sort by descending score, of which the code reads the first element only.\<close>

definition proximity_winner :: "string \<Rightarrow> string list \<Rightarrow> (string \<rightharpoonup> string) \<Rightarrow> string option" where
  "proximity_winner call_site candidates files =
     (if call_site = [] then None
      else
        let call = slashes call_site;
            same_file = filter (\<lambda>c. slashes (path_of files c) = call) candidates;
            call_dir = directory_of call;
            same_dir = filter (\<lambda>c. directory_of (path_of files c) = call_dir) candidates;
            scored = map (\<lambda>c. (c, common_parts call_dir (directory_of (path_of files c)))) candidates;
            ordered = sort_key (\<lambda>(c, score). - int score) scored
        in if length same_file = 1 then Some (hd same_file)
           else if length same_file > 1 then None
           else if length same_dir = 1 then Some (hd same_dir)
           else if length same_dir > 1 then None
           else (case ordered of
                   [] \<Rightarrow> None
                 | (c, best) # _ \<Rightarrow>
                     if best > 0 \<and> length (filter (\<lambda>(d, score). score = best) ordered) = 1
                     then Some c else None))"

definition disambiguate_ambiguous_candidates ::
  "string list \<Rightarrow> (string \<rightharpoonup> string) \<Rightarrow> string \<Rightarrow> string option" where
  "disambiguate_ambiguous_candidates candidates files call_site =
     (case candidates of
        [] \<Rightarrow> None
      | [only] \<Rightarrow> Some only
      | _ \<Rightarrow>
          let tests = filter (\<lambda>c. is_test_path (path_of files c)) candidates;
              non_test = filter (\<lambda>c. c \<notin> set tests) candidates;
              local = filter (\<lambda>c. slashes (path_of files c) = slashes call_site) tests
          in if is_test_path call_site \<and> length local = 1 then Some (hd local)
             else
               let survivors =
                 (if is_test_path call_site
                  then if tests = [] then if non_test = [] then candidates else non_test
                       else tests
                  else non_test)
               in if length survivors = 1 then Some (hd survivors)
                  else if survivors = [] then None
                  else proximity_winner call_site survivors files)"

section \<open>The tie break\<close>

text \<open>How close a candidate is to the call site: in the same file, in the same directory, or the
  number of leading directories the two share.\<close>

definition closeness :: "string \<Rightarrow> (string \<rightharpoonup> string) \<Rightarrow> string \<Rightarrow> nat" where
  "closeness call_site files c =
     (let dir = directory_of call_site
      in if slashes (path_of files c) = slashes call_site then length dir + 2
         else if directory_of (path_of files c) = dir then length dir + 1
         else common_parts dir (directory_of (path_of files c)))"

definition strictly_closest :: "(string \<Rightarrow> nat) \<Rightarrow> string list \<Rightarrow> string \<Rightarrow> bool" where
  "strictly_closest f xs c \<longleftrightarrow> c \<in> set xs \<and> 0 < f c \<and> (\<forall>d \<in> set xs. d \<noteq> c \<longrightarrow> f d < f c)"

text \<open>The candidates among which the tie break chooses.\<close>

definition eligible :: "string list \<Rightarrow> (string \<rightharpoonup> string) \<Rightarrow> string \<Rightarrow> string list" where
  "eligible candidates files call_site =
     (let test = \<lambda>c. is_test_path (path_of files c)
      in if length candidates \<le> 1 then candidates
         else if \<not> is_test_path call_site then filter (\<lambda>c. \<not> test c) candidates
         else if \<exists>c \<in> set candidates. test c then filter test candidates
         else candidates)"

lemma hd_of_filter:
  assumes "length (filter P xs) = 1"
  shows "hd (filter P xs) \<in> set xs" "P (hd (filter P xs))"
        "x \<in> set xs \<Longrightarrow> P x \<Longrightarrow> x = hd (filter P xs)"
proof -
  obtain y where y: "filter P xs = [y]"
    using assms by (metis One_nat_def length_0_conv length_Suc_conv)
  then have members: "{x \<in> set xs. P x} = {y}" by (metis list.set(1) list.set(2) set_filter)
  then show "hd (filter P xs) \<in> set xs" "P (hd (filter P xs))" using y by auto
  show "x = hd (filter P xs)" if "x \<in> set xs" "P x"
    using members y that by auto
qed

lemma many_in_filter:
  assumes "length (filter P xs) > 1" "distinct xs"
  obtains c d where "c \<in> set xs" "d \<in> set xs" "P c" "P d" "c \<noteq> d"
proof -
  obtain c d rest where "filter P xs = c # d # rest"
    using assms(1) by (cases "filter P xs" rule: list.exhaust; cases "tl (filter P xs)") auto
  then have *: "c \<in> set (filter P xs)" "d \<in> set (filter P xs)" "c \<noteq> d"
    using distinct_filter [OF assms(2), of P] by auto
  then show ?thesis using that by auto
qed

lemma normalized_parts_slashes [simp]: "normalized_parts (slashes p) = normalized_parts p"
  by (simp add: normalized_parts_def)

lemma directory_of_slashes [simp]: "directory_of (slashes p) = directory_of p"
  by (simp add: directory_of_def)

lemma same_file_directory: "slashes p = slashes q \<Longrightarrow> directory_of p = directory_of q"
  by (metis directory_of_slashes)

lemma common_parts_le: "common_parts xs ys \<le> length xs"
  by (induction xs ys rule: common_parts.induct) auto

lemma hd_sort_best:
  assumes "sort_key (\<lambda>(c, score). - int score) (map (\<lambda>c. (c, f c)) xs) = (c, best) # rest"
  shows "c \<in> set xs" "best = f c" "\<And>d. d \<in> set xs \<Longrightarrow> f d \<le> best"
proof -
  define l where "l = map (\<lambda>c. (c, f c)) xs"
  have members: "set (sort_key (\<lambda>(c, score). - int score) l) = set l" by simp
  then have "(c, best) \<in> set l" using assms l_def by (metis list.set_intros(1))
  then show "c \<in> set xs" "best = f c" unfolding l_def by auto
  have "sorted (map (\<lambda>(c, score). - int score) ((c, best) # rest))"
    using sorted_sort_key [of "\<lambda>(c, score). - int score" l] assms l_def by metis
  then have "\<forall>(d, s) \<in> set rest. s \<le> best" by (auto split: prod.splits)
  then have bound: "\<forall>(d, s) \<in> set l. s \<le> best" using members assms l_def by auto
  then show "f d \<le> best" if "d \<in> set xs" for d
    using that unfolding l_def by auto
qed

lemma best_count:
  assumes "sort_key (\<lambda>(c, score). - int score) (map (\<lambda>c. (c, f c)) xs) = ordered"
  shows "length (filter (\<lambda>(d, s). s = best) ordered) = length (filter (\<lambda>d. f d = best) xs)"
proof -
  have "mset ordered = mset (map (\<lambda>c. (c, f c)) xs)" using assms by (metis mset_sort)
  then have "length (filter (\<lambda>(d, s). s = best) ordered)
      = length (filter (\<lambda>(d, s). s = best) (map (\<lambda>c. (c, f c)) xs))"
    by (metis mset_filter size_mset)
  also have "\<dots> = length (filter (\<lambda>d. f d = best) xs)"
    by (simp add: filter_map o_def)
  finally show ?thesis .
qed

lemma best_score_winner:
  assumes "distinct xs"
  shows "(case sort_key (\<lambda>(c, score). - int score) (map (\<lambda>c. (c, f c)) xs) of
            [] \<Rightarrow> None
          | (c, best) # rest \<Rightarrow>
              if best > 0 \<and> length (filter (\<lambda>(d, s). s = best)
                   (sort_key (\<lambda>(c, score). - int score) (map (\<lambda>c. (c, f c)) xs))) = 1
              then Some c else None) = Some w
         \<longleftrightarrow> strictly_closest f xs w"
proof (cases "sort_key (\<lambda>(c, score). - int score) (map (\<lambda>c. (c, f c)) xs)")
  case Nil
  then have "xs = []" by (metis Nil_is_map_conv length_0_conv length_sort)
  then show ?thesis using Nil by (simp add: strictly_closest_def)
next
  case (Cons most rest)
  obtain c best where most: "most = (c, best)" by fastforce
  note sorted = Cons [unfolded most]
  note count = best_count [OF sorted, of best]
  note facts = hd_sort_best [OF sorted]
  show ?thesis
  proof (cases "length (filter (\<lambda>d. f d = best) xs) = 1")
    case True
    have unique: "d = c" if "d \<in> set xs" "f d = best" for d
      using hd_of_filter(3) [OF True] that facts(1,2) by metis
    have lower: "f d < best" if "d \<in> set xs" "d \<noteq> c" for d
      using unique facts(3) that by (metis le_neq_implies_less)
    have "strictly_closest f xs w \<longleftrightarrow> 0 < best \<and> c = w"
      unfolding strictly_closest_def using facts lower by (metis less_asym)
    then show ?thesis using sorted count True by auto
  next
    case False
    have "c \<in> set (filter (\<lambda>d. f d = best) xs)" using facts by auto
    then have "length (filter (\<lambda>d. f d = best) xs) > 1"
      using False by (metis One_nat_def Suc_lessI length_pos_if_in_set)
    then obtain u v where uv: "u \<in> set xs" "v \<in> set xs" "f u = best" "f v = best" "u \<noteq> v"
      using many_in_filter assms by blast
    have "\<not> strictly_closest f xs w"
      unfolding strictly_closest_def using uv facts(3) by (metis not_less)
    then show ?thesis using sorted count False by auto
  qed
qed

lemma level_winner:
  assumes distinct: "distinct xs" and some: "filter P xs \<noteq> []"
    and level: "\<And>c. c \<in> set xs \<Longrightarrow> P c \<longleftrightarrow> f c = most"
    and bound: "\<And>c. c \<in> set xs \<Longrightarrow> f c \<le> most" and pos: "0 < most"
  shows "(if length (filter P xs) = 1 then Some (hd (filter P xs)) else None) = Some w
         \<longleftrightarrow> strictly_closest f xs w"
proof (cases "length (filter P xs) = 1")
  case True
  note hd = hd_of_filter [OF True]
  have "f d < f (hd (filter P xs))" if "d \<in> set xs" "d \<noteq> hd (filter P xs)" for d
    using hd level bound that by (metis le_neq_implies_less)
  then have "strictly_closest f xs w \<longleftrightarrow> hd (filter P xs) = w"
    unfolding strictly_closest_def using hd(1,2) level pos by (metis less_asym)
  then show ?thesis using True by simp
next
  case False
  then have "length (filter P xs) > 1"
    using some by (cases "filter P xs") auto
  then obtain u v where uv: "u \<in> set xs" "v \<in> set xs" "P u" "P v" "u \<noteq> v"
    using many_in_filter distinct by blast
  have "\<not> strictly_closest f xs w"
    unfolding strictly_closest_def using uv level bound by (metis not_less)
  then show ?thesis using False by simp
qed

lemma strictly_closest_cong:
  assumes "\<And>c. c \<in> set xs \<Longrightarrow> f c = g c"
  shows "strictly_closest f xs w \<longleftrightarrow> strictly_closest g xs w"
  unfolding strictly_closest_def using assms by auto

lemma closeness_le: "closeness call_site files c \<le> length (directory_of call_site) + 2"
  using common_parts_le [of "directory_of call_site"]
  by (auto simp: closeness_def Let_def intro: le_SucI)

lemma proximity_winner_iff:
  assumes "distinct candidates"
  shows "proximity_winner call_site candidates files = Some w
         \<longleftrightarrow> call_site \<noteq> [] \<and> strictly_closest (closeness call_site files) candidates w"
proof (cases "call_site = []")
  case True
  then show ?thesis by (simp add: proximity_winner_def)
next
  case False
  define dir where "dir = directory_of call_site"
  define score where "score c = common_parts dir (directory_of (path_of files c))" for c
  define close where "close = closeness call_site files"
  define in_file where "in_file c = (slashes (path_of files c) = slashes call_site)" for c
  define in_dir where "in_dir c = (directory_of (path_of files c) = dir)" for c
  have in_file_dir: "in_dir c" if "in_file c" for c
    using that same_file_directory unfolding in_file_def in_dir_def dir_def by blast
  have close_eq: "close c = (if in_file c then length dir + 2 else if in_dir c then length dir + 1
      else score c)" for c
    unfolding close_def closeness_def in_file_def in_dir_def score_def dir_def Let_def by simp
  have score_le: "score c \<le> length dir" for c
    unfolding score_def by (rule common_parts_le)
  have winner: "proximity_winner call_site candidates files =
     (if length (filter in_file candidates) = 1 then Some (hd (filter in_file candidates))
      else if length (filter in_file candidates) > 1 then None
      else if length (filter in_dir candidates) = 1 then Some (hd (filter in_dir candidates))
      else if length (filter in_dir candidates) > 1 then None
      else (case sort_key (\<lambda>(c, score). - int score) (map (\<lambda>c. (c, score c)) candidates) of
            [] \<Rightarrow> None
          | (c, best) # rest \<Rightarrow>
              if best > 0 \<and> length (filter (\<lambda>(d, s). s = best)
                   (sort_key (\<lambda>(c, score). - int score) (map (\<lambda>c. (c, score c)) candidates))) = 1
              then Some c else None))"
    unfolding proximity_winner_def in_file_def in_dir_def score_def dir_def Let_def
    using False by (simp only: directory_of_slashes if_False)
  consider (same) "filter in_file candidates \<noteq> []"
    | (dir) "filter in_file candidates = []" "filter in_dir candidates \<noteq> []"
    | (score) "filter in_file candidates = []" "filter in_dir candidates = []"
    by blast
  then have "proximity_winner call_site candidates files = Some w
      \<longleftrightarrow> strictly_closest close candidates w"
  proof cases
    case same
    have "(if length (filter in_file candidates) = 1 then Some (hd (filter in_file candidates))
        else None) = Some w \<longleftrightarrow> strictly_closest close candidates w"
      using assms same
    proof (rule level_winner)
      show "in_file c \<longleftrightarrow> close c = length dir + 2" for c
        using close_eq [of c] score_le [of c] by auto
      show "close c \<le> length dir + 2" for c
        using close_eq [of c] score_le [of c] by auto
    qed simp
    then show ?thesis using winner same by (cases "filter in_file candidates") auto
  next
    case dir
    have none: "\<not> in_file c" if "c \<in> set candidates" for c
      using dir(1) that by (metis filter_empty_conv)
    have "(if length (filter in_dir candidates) = 1 then Some (hd (filter in_dir candidates))
        else None) = Some w \<longleftrightarrow> strictly_closest close candidates w"
      using assms dir(2)
    proof (rule level_winner)
      show "in_dir c \<longleftrightarrow> close c = length dir + 1" if "c \<in> set candidates" for c
        using close_eq [of c] score_le [of c] none [OF that] by auto
      show "close c \<le> length dir + 1" if "c \<in> set candidates" for c
        using close_eq [of c] score_le [of c] none [OF that] by auto
    qed simp
    then show ?thesis using winner dir by (cases "filter in_dir candidates") auto
  next
    case score
    have "strictly_closest close candidates w \<longleftrightarrow> strictly_closest score candidates w"
    proof (rule strictly_closest_cong)
      fix c assume "c \<in> set candidates"
      then have "\<not> in_file c" "\<not> in_dir c" using score by (metis filter_empty_conv)+
      then show "close c = score c" using close_eq by simp
    qed
    moreover note best_score_winner [OF assms, of score w]
    ultimately show ?thesis using winner score by simp
  qed
  then show ?thesis using False close_def by simp
qed

text \<open>The choice the function makes among the eligible candidates, and the shape it has with several
  candidates: a single candidate in the file of the call site wins at once, which is what the choice
  would answer too.\<close>

definition choice :: "string list \<Rightarrow> (string \<rightharpoonup> string) \<Rightarrow> string \<Rightarrow> string option" where
  "choice chosen files call_site =
     (if length chosen = 1 then Some (hd chosen) else if chosen = [] then None
      else proximity_winner call_site chosen files)"

lemma choice_iff:
  assumes "distinct chosen"
  shows "choice chosen files call_site = Some c
         \<longleftrightarrow> chosen = [c]
           \<or> call_site \<noteq> [] \<and> length chosen > 1 \<and> strictly_closest (closeness call_site files) chosen c"
  using proximity_winner_iff [OF assms, of call_site files c] unfolding choice_def
  by (cases chosen rule: remdups_adj.cases) auto

lemma eligible_distinct: "distinct candidates \<Longrightarrow> distinct (eligible candidates files call_site)"
  unfolding eligible_def Let_def by auto

lemma eligible_many:
  fixes files candidates
  defines "test \<equiv> \<lambda>c. is_test_path (path_of files c)"
  assumes "length candidates > 1"
  shows "eligible candidates files call_site =
    (if is_test_path call_site
     then if filter test candidates = []
          then if filter (\<lambda>c. \<not> test c) candidates = [] then candidates else filter (\<lambda>c. \<not> test c) candidates
          else filter test candidates
     else filter (\<lambda>c. \<not> test c) candidates)"
  using assms(2) unfolding eligible_def Let_def test_def
  by (auto simp: filter_empty_conv filter_id_conv [THEN iffD2])

definition same_file :: "string list \<Rightarrow> (string \<rightharpoonup> string) \<Rightarrow> string \<Rightarrow> string list" where
  "same_file candidates files call_site =
     filter (\<lambda>c. slashes (path_of files c) = slashes call_site)
       (filter (\<lambda>c. is_test_path (path_of files c)) candidates)"

lemma disambiguate_many:
  assumes many: "length candidates > 1"
  shows "disambiguate_ambiguous_candidates candidates files call_site =
    (if is_test_path call_site \<and> length (same_file candidates files call_site) = 1
     then Some (hd (same_file candidates files call_site))
     else choice (eligible candidates files call_site) files call_site)"
proof -
  from many obtain a b rest where cands: "candidates = a # b # rest"
    by (cases candidates rule: remdups_adj.cases) auto
  have unfold_case: "(case candidates of [] \<Rightarrow> None | [only] \<Rightarrow> Some only | _ \<Rightarrow> X) = X"
    for X :: "string option"
    by (simp add: cands)
  have outside: "filter (\<lambda>c. c \<notin> set (filter (\<lambda>c. is_test_path (path_of files c)) candidates)) candidates
      = filter (\<lambda>c. \<not> is_test_path (path_of files c)) candidates"
    by (rule filter_cong) auto
  show ?thesis
    unfolding disambiguate_ambiguous_candidates_def unfold_case Let_def outside same_file_def
      eligible_many [OF many] choice_def by (rule refl)
qed

lemma same_file_choice:
  assumes many: "length candidates > 1" and "distinct candidates" and test: "is_test_path call_site"
    and sole: "length (same_file candidates files call_site) = 1"
  shows "choice (eligible candidates files call_site) files call_site = Some (hd (same_file candidates files call_site))"
proof -
  let ?chosen = "eligible candidates files call_site"
  have "filter (\<lambda>c. is_test_path (path_of files c)) candidates \<noteq> []"
    using sole unfolding same_file_def by (metis filter.simps(1) list.size(3) zero_neq_one)
  then have chosen: "?chosen = filter (\<lambda>c. is_test_path (path_of files c)) candidates"
    using test by (simp add: eligible_many [OF many])
  have winner: "proximity_winner call_site ?chosen files = Some (hd (same_file candidates files call_site))"
    using sole test chosen by (auto simp: same_file_def proximity_winner_def is_test_path_def Let_def)
  have "hd (same_file candidates files call_site) \<in> set ?chosen"
    using proximity_winner_iff [OF eligible_distinct [OF assms(2)]] winner by (metis strictly_closest_def)
  then have "?chosen \<noteq> [] \<and> (length ?chosen = 1 \<longrightarrow> hd ?chosen = hd (same_file candidates files call_site))"
    by (cases ?chosen) auto
  then show ?thesis using winner by (simp add: choice_def)
qed

lemma disambiguate_choice:
  assumes "distinct candidates"
  shows "disambiguate_ambiguous_candidates candidates files call_site
    = choice (eligible candidates files call_site) files call_site"
proof (cases "length candidates > 1")
  case True
  then show ?thesis using disambiguate_many [OF True] same_file_choice [OF True assms] by simp
next
  case False
  then show ?thesis
    by (cases candidates rule: remdups_adj.cases)
       (auto simp: disambiguate_ambiguous_candidates_def choice_def eligible_def)
qed

text \<open>
  C14: the tie break between several symbols of one name is exact. It answers a candidate if and only
  if that candidate is the only eligible one, or the call site is known and the candidate is strictly
  closer to it than every other eligible candidate; eligible are the candidates outside test files
  for a call site outside them, and for a call site in a test file those in test files if there are
  any. In particular production code is never resolved to a test symbol when there is a choice.
\<close>

theorem disambiguate_exact:
  assumes "distinct candidates"
  shows "disambiguate_ambiguous_candidates candidates files call_site = Some c
         \<longleftrightarrow> eligible candidates files call_site = [c]
           \<or> call_site \<noteq> [] \<and> length (eligible candidates files call_site) > 1
             \<and> strictly_closest (closeness call_site files)
                 (eligible candidates files call_site) c"
  unfolding disambiguate_choice [OF assms] by (rule choice_iff [OF eligible_distinct [OF assms]])

definition sample_files :: "string \<rightharpoonup> string" where
  "sample_files = [''a'' \<mapsto> ''src/app/a.rs'', ''b'' \<mapsto> ''src/lib/b.rs'', ''t'' \<mapsto> ''src/app/tests/a.rs'']"

lemma disambiguate_exact_witness:
  "distinct [''a'', ''b'', ''t'']
   \<and> disambiguate_ambiguous_candidates [''a'', ''b'', ''t''] sample_files ''src/app/main.rs''
       = Some ''a''"
proof -
  have "eligible [''a'', ''b'', ''t''] sample_files ''src/app/main.rs'' = [''a'', ''b'']"
    by code_simp
  moreover have "strictly_closest (closeness ''src/app/main.rs'' sample_files) [''a'', ''b''] ''a''"
    by code_simp
  ultimately show ?thesis
    using disambiguate_exact [of "[''a'', ''b'', ''t'']" sample_files "''src/app/main.rs''" "''a''"]
    by simp
qed

end
