(* ===== verification/QueryIndex.thy ===== *)
theory QueryIndex
  imports Ids
begin

text \<open>
  The graph index of \<open>graphoxide-query/src/query.rs\<close>: \<open>GraphIndex\<close>, the position of each node
  identifier and the edges incident to each position, and its query cache. The cache is interior
  mutable state in the code (\<open>Mutex\<close>, \<open>OnceLock\<close>); here an operation that writes it returns it.
\<close>

type_synonym postings = "string \<rightharpoonup> nat list"

record query_cache =
  qc_idf :: "string \<rightharpoonup> real"
  qc_trigrams :: "postings option"

record graph_index =
  gi_graph :: graph
  gi_positions :: "string \<rightharpoonup> nat"
  gi_adjacent :: "nat list list"
  gi_incoming :: "nat list list"
  gi_outgoing :: "nat list list"
  gi_cache :: query_cache

definition default_cache :: query_cache where
  "default_cache = \<lparr> qc_idf = Map.empty, qc_trigrams = None \<rparr>"

section \<open>Endpoints\<close>

definition validated_edge_endpoints :: "edge \<Rightarrow> string \<times> string" where
  "validated_edge_endpoints e =
     (case (get_str (e_extra e) ''_src'', get_str (e_extra e) ''_tgt'') of
        (Some s, Some t) \<Rightarrow>
          if s = e_source e \<and> t = e_target e \<or> s = e_target e \<and> t = e_source e then (s, t)
          else (e_source e, e_target e)
      | _ \<Rightarrow> (e_source e, e_target e))"

text \<open>Collecting the enumeration into a map: of several nodes with one identifier the last wins.\<close>

definition node_positions :: "node list \<Rightarrow> string \<rightharpoonup> nat" where
  "node_positions ns = map_of (rev (zip (map n_id ns) [0..<length ns]))"

definition edge_positions :: "(string \<rightharpoonup> nat) \<Rightarrow> edge \<Rightarrow> (nat \<times> nat) option" where
  "edge_positions pos e =
     (let (source_id, target_id) = validated_edge_endpoints e
      in case (pos source_id, pos target_id) of
           (Some s, Some t) \<Rightarrow> Some (s, t) | _ \<Rightarrow> None)"

definition push_at :: "nat \<Rightarrow> 'a \<Rightarrow> 'a list list \<Rightarrow> 'a list list" where
  "push_at i x xss = xss[i := xss ! i @ [x]]"

definition index_edge ::
  "(string \<rightharpoonup> nat) \<Rightarrow> nat \<times> edge \<Rightarrow> nat list list \<times> nat list list \<times> nat list list
   \<Rightarrow> nat list list \<times> nat list list \<times> nat list list" where
  "index_edge pos ke st =
     (let (k, e) = ke; (adjacent, incoming, outgoing) = st
      in case edge_positions pos e of
           None \<Rightarrow> st
         | Some (s, t) \<Rightarrow>
             (let a = push_at s k adjacent
              in if s \<noteq> t then push_at t k a else a,
              push_at t k incoming,
              push_at s k outgoing))"

definition new_with_cache :: "graph \<Rightarrow> query_cache \<Rightarrow> graph_index" where
  "new_with_cache g cache =
     (let n = length (g_nodes g);
          pos = node_positions (g_nodes g);
          (adjacent, incoming, outgoing) =
            fold (index_edge pos) (zip [0..<length (g_links g)] (g_links g))
              (replicate n [], replicate n [], replicate n [])
      in \<lparr> gi_graph = g, gi_positions = pos, gi_adjacent = adjacent, gi_incoming = incoming,
           gi_outgoing = outgoing, gi_cache = cache \<rparr>)"

definition new_index :: "graph \<Rightarrow> graph_index" where
  "new_index g = new_with_cache g default_cache"

section \<open>Reading the index\<close>

abbreviation position :: "graph_index \<Rightarrow> string \<Rightarrow> nat option" where
  "position ix i \<equiv> gi_positions ix i"

abbreviation index_node :: "graph_index \<Rightarrow> nat \<Rightarrow> node" where
  "index_node ix p \<equiv> g_nodes (gi_graph ix) ! p"

abbreviation index_edge_at :: "graph_index \<Rightarrow> nat \<Rightarrow> edge" where
  "index_edge_at ix k \<equiv> g_links (gi_graph ix) ! k"

definition adjacent :: "graph_index \<Rightarrow> nat \<Rightarrow> nat list" where
  "adjacent ix p = gi_adjacent ix ! p"

definition incoming :: "graph_index \<Rightarrow> nat \<Rightarrow> nat list" where
  "incoming ix p = gi_incoming ix ! p"

definition outgoing :: "graph_index \<Rightarrow> nat \<Rightarrow> nat list" where
  "outgoing ix p = gi_outgoing ix ! p"

definition degree :: "graph_index \<Rightarrow> nat \<Rightarrow> nat" where
  "degree ix p = length (adjacent ix p)"

definition other :: "graph_index \<Rightarrow> edge \<Rightarrow> nat \<Rightarrow> nat option" where
  "other ix e p =
     Option.bind (edge_positions (gi_positions ix) e) (\<lambda>(s, t).
       if s = p then Some t else if t = p then Some s else None)"

abbreviation node_count :: "graph_index \<Rightarrow> nat" where
  "node_count ix \<equiv> length (g_nodes (gi_graph ix))"

section \<open>The index is the graph\<close>

text \<open>The edges that have both endpoints, with what the index must hold for each.\<close>

definition index_ok :: "graph_index \<Rightarrow> bool" where
  "index_ok ix \<longleftrightarrow>
     gi_positions ix = node_positions (g_nodes (gi_graph ix))
     \<and> length (gi_adjacent ix) = node_count ix
     \<and> length (gi_incoming ix) = node_count ix
     \<and> length (gi_outgoing ix) = node_count ix
     \<and> (\<forall>p < node_count ix.
          gi_adjacent ix ! p = filter (\<lambda>k. \<exists>st. edge_positions (gi_positions ix)
              (index_edge_at ix k) = Some st \<and> (fst st = p \<or> snd st = p))
            [0..<length (g_links (gi_graph ix))]
          \<and> gi_incoming ix ! p = filter (\<lambda>k. \<exists>s. edge_positions (gi_positions ix)
              (index_edge_at ix k) = Some (s, p)) [0..<length (g_links (gi_graph ix))]
          \<and> gi_outgoing ix ! p = filter (\<lambda>k. \<exists>t. edge_positions (gi_positions ix)
              (index_edge_at ix k) = Some (p, t)) [0..<length (g_links (gi_graph ix))])"

lemma node_positions_bound: "node_positions ns i = Some p \<Longrightarrow> p < length ns \<and> n_id (ns ! p) = i"
proof -
  assume "node_positions ns i = Some p"
  then have "(i, p) \<in> set (zip (map n_id ns) [0..<length ns])"
    unfolding node_positions_def using map_of_SomeD by force
  then show ?thesis by (auto simp: set_zip)
qed

lemma node_positions_None: "node_positions ns i = None \<longleftrightarrow> i \<notin> n_id ` set ns"
proof -
  have "fst ` set (zip (map n_id ns) [0..<length ns]) = n_id ` set ns"
    by (metis image_set length_map length_upt map_fst_zip minus_nat.diff_0)
  then show ?thesis by (simp add: node_positions_def map_of_eq_None_iff)
qed

lemma edge_positions_bound:
  "edge_positions (node_positions ns) e = Some (s, t) \<Longrightarrow> s < length ns \<and> t < length ns"
  unfolding edge_positions_def
  by (auto split: prod.splits option.splits dest: node_positions_bound)

lemma push_at_nth: "i < length xss \<Longrightarrow>
    push_at i x xss ! j = (if j = i then xss ! j @ [x] else xss ! j)"
  by (simp add: push_at_def)

lemma length_push_at [simp]: "length (push_at i x xss) = length xss"
  by (simp add: push_at_def)

lemma index_edges_prefix:
  assumes "m \<le> length links"
    and "fold (index_edge (node_positions ns)) (zip [0..<m] (take m links))
           (replicate (length ns) [], replicate (length ns) [], replicate (length ns) []) = (a, i, out)"
  shows "length a = length ns \<and> length i = length ns \<and> length out = length ns
    \<and> (\<forall>p < length ns.
         a ! p = filter (\<lambda>k. \<exists>st. edge_positions (node_positions ns) (links ! k) = Some st
             \<and> (fst st = p \<or> snd st = p)) [0..<m]
       \<and> i ! p = filter (\<lambda>k. \<exists>s. edge_positions (node_positions ns) (links ! k) = Some (s, p)) [0..<m]
       \<and> out ! p = filter (\<lambda>k. \<exists>t. edge_positions (node_positions ns) (links ! k) = Some (p, t)) [0..<m])"
  using assms
proof (induction m arbitrary: a i out)
  case 0
  then show ?case by auto
next
  case (Suc m)
  let ?init = "(replicate (length ns) [], replicate (length ns) [], replicate (length ns) [])"
  obtain a0 i0 out0 where st: "fold (index_edge (node_positions ns)) (zip [0..<m] (take m links)) ?init
      = (a0, i0, out0)"
    by (metis prod_cases3)
  have IH: "length a0 = length ns \<and> length i0 = length ns \<and> length out0 = length ns
    \<and> (\<forall>p < length ns.
         a0 ! p = filter (\<lambda>k. \<exists>st. edge_positions (node_positions ns) (links ! k) = Some st
             \<and> (fst st = p \<or> snd st = p)) [0..<m]
       \<and> i0 ! p = filter (\<lambda>k. \<exists>s. edge_positions (node_positions ns) (links ! k) = Some (s, p)) [0..<m]
       \<and> out0 ! p = filter (\<lambda>k. \<exists>t. edge_positions (node_positions ns) (links ! k) = Some (p, t)) [0..<m])"
    using Suc.IH [OF _ st] Suc.prems(1) by simp
  have "zip [0..<Suc m] (take (Suc m) links) = zip [0..<m] (take m links) @ [(m, links ! m)]"
    using Suc.prems(1) by (simp add: take_Suc_conv_app_nth)
  then have eq: "(a, i, out) = index_edge (node_positions ns) (m, links ! m) (a0, i0, out0)"
    using Suc.prems(2) st by simp
  show ?case
  proof (cases "edge_positions (node_positions ns) (links ! m)")
    case None
    then show ?thesis using eq IH by (simp add: index_edge_def)
  next
    case (Some st)
    obtain s t where st': "st = (s, t)" by fastforce
    have "s < length ns" "t < length ns" using edge_positions_bound Some st' by blast+
    then show ?thesis using eq IH Some st'
      by (auto simp: index_edge_def Let_def push_at_nth)
  qed
qed

lemma new_with_cache_ok: "index_ok (new_with_cache g cache)"
proof -
  obtain a i out where st: "fold (index_edge (node_positions (g_nodes g)))
      (zip [0..<length (g_links g)] (take (length (g_links g)) (g_links g)))
      (replicate (length (g_nodes g)) [], replicate (length (g_nodes g)) [],
       replicate (length (g_nodes g)) []) = (a, i, out)"
    by (metis prod_cases3)
  show ?thesis
    using index_edges_prefix [OF order_refl st] st
    by (simp add: index_ok_def new_with_cache_def Let_def)
qed

lemma new_with_cache_sel [simp]:
  "gi_graph (new_with_cache g cache) = g"
  "gi_positions (new_with_cache g cache) = node_positions (g_nodes g)"
  "gi_cache (new_with_cache g cache) = cache"
  by (simp_all add: new_with_cache_def Let_def split: prod.splits)

text \<open>Two positions are neighbours when some edge of the graph joins them.\<close>

definition neighbours :: "graph_index \<Rightarrow> nat \<Rightarrow> nat \<Rightarrow> bool" where
  "neighbours ix p q \<longleftrightarrow> (\<exists>e \<in> set (g_links (gi_graph ix)). other ix e p = Some q)"

lemma adjacent_others:
  assumes "index_ok ix" "p < node_count ix"
  shows "(\<exists>k \<in> set (adjacent ix p). other ix (index_edge_at ix k) p = Some q) \<longleftrightarrow> neighbours ix p q"
proof -
  have adj: "set (adjacent ix p) = {k. k < length (g_links (gi_graph ix)) \<and>
      (\<exists>st. edge_positions (gi_positions ix) (index_edge_at ix k) = Some st
        \<and> (fst st = p \<or> snd st = p))}"
    using assms unfolding index_ok_def adjacent_def by auto
  show ?thesis
  proof
    assume "\<exists>k \<in> set (adjacent ix p). other ix (index_edge_at ix k) p = Some q"
    then show "neighbours ix p q" unfolding adj neighbours_def by auto
  next
    assume "neighbours ix p q"
    then obtain k where k: "k < length (g_links (gi_graph ix))"
        "other ix (index_edge_at ix k) p = Some q"
      unfolding neighbours_def by (metis in_set_conv_nth)
    then have "k \<in> set (adjacent ix p)"
      unfolding adj other_def by (auto simp: bind_eq_Some_conv split: if_splits)
    then show "\<exists>k \<in> set (adjacent ix p). other ix (index_edge_at ix k) p = Some q"
      using k(2) by blast
  qed
qed

lemma neighbours_bound:
  assumes "index_ok ix" "neighbours ix p q"
  shows "p < node_count ix \<and> q < node_count ix"
  using assms edge_positions_bound [of "g_nodes (gi_graph ix)"]
  unfolding neighbours_def other_def index_ok_def
  by (auto simp: bind_eq_Some_conv split: if_splits)

lemma neighbours_sym: "neighbours ix p q \<Longrightarrow> neighbours ix q p"
  unfolding neighbours_def other_def
  by (auto simp: bind_eq_Some_conv split: if_splits) (metis)+

end
