(* ===== verification/QueryScore.thy ===== *)
theory QueryScore
  imports QueryIndex "HOL-Library.Multiset"
begin

text \<open>
  Search and ranking of \<open>graphoxide-query/src/query.rs\<close>: the terms of a question, the trigram
  prefilter, inverse document frequencies and the scores of nodes, seeds, and the lookup of a node by
  name. The tables of \<open>unicode-normalization\<close> are the parameter \<open>u\<close>. A sort by a comparator that
  compares keys one after the other is a stable sort by the tuple of the keys, negated where the
  comparator is reversed.
\<close>

section \<open>Tokens and terms\<close>

text \<open>The loop that collects runs of characters with a property; the first argument is the run so
  far.\<close>

fun token_loop :: "(char \<Rightarrow> bool) \<Rightarrow> string \<Rightarrow> string \<Rightarrow> string list" where
  "token_loop P token [] = (if token = [] then [] else [token])"
| "token_loop P token (c # cs) =
     (if P c then token_loop P (token @ [c]) cs
      else if token \<noteq> [] then token # token_loop P [] cs
      else token_loop P [] cs)"

definition word_char :: "char \<Rightarrow> bool" where
  "word_char c \<longleftrightarrow> c = CHR ''_'' \<or> is_alphanumeric c"

definition norm_text :: "unicode \<Rightarrow> string \<Rightarrow> string" where
  "norm_text u s = lowercase (filter (\<lambda>c. \<not> u_combining u c) (u_nfkd u s))"

definition search_tokens :: "unicode \<Rightarrow> string \<Rightarrow> string list" where
  "search_tokens u s = token_loop word_char [] (norm_text u s)"

definition has_chinese :: "string \<Rightarrow> bool" where
  "has_chinese s \<longleftrightarrow> (\<exists>c \<in> set s. 0x4E00 \<le> (of_char c :: nat) \<and> (of_char c :: nat) \<le> 0x9FFF)"

definition query_word_tokens :: "string \<Rightarrow> string list" where
  "query_word_tokens s = token_loop word_char [] (lowercase s)"

definition searchable_query_term :: "string \<Rightarrow> bool" where
  "searchable_query_term term \<longleftrightarrow> \<not> list_all ascii_lower term \<or> utf8_len term > 2"

definition stopwords :: "string list" where
  "stopwords =
    [''how'', ''what'', ''why'', ''when'', ''where'', ''which'', ''who'', ''whom'', ''whose'',
     ''does'', ''did'', ''is'', ''are'', ''was'', ''were'', ''be'', ''been'', ''being'', ''can'',
     ''could'', ''should'', ''would'', ''will'', ''shall'', ''may'', ''might'', ''must'', ''has'',
     ''have'', ''had'', ''the'', ''and'', ''but'', ''not'', ''for'', ''from'', ''with'',
     ''without'', ''into'', ''onto'', ''off'', ''that'', ''this'', ''these'', ''those'', ''there'',
     ''here'', ''its'', ''their'', ''them'', ''they'', ''about'', ''any'', ''all'', ''some'',
     ''work'', ''works'', ''working'', ''der'', ''die'', ''das'', ''den'', ''dem'', ''ein'',
     ''eine'', ''und'', ''oder'', ''nicht'', ''wie'', ''wer'', ''wann'', ''wo'', ''warum'',
     ''wieso'', ''welche'', ''welcher'', ''welches'', ''ist'', ''sind'', ''wird'', ''wurde'',
     ''hat'', ''haben'', ''kann'', ''koennen'', ''k'' @ [CHR 0xF6] @ ''nnen'', ''soll'', ''muss'',
     ''sich'', ''bei'', ''mit'', ''von'', ''fuer'', ''f'' @ [CHR 0xFC] @ ''r'', ''ueber'',
     [CHR 0xFC] @ ''ber'', ''nach'', ''aus'', ''gibt'', ''es'', ''funktioniert'', ''geaendert'',
     ''ge'' @ [CHR 0xE4] @ ''ndert'', ''aendert'', [CHR 0xE4] @ ''ndert'', ''pourquoi'', ''quand'',
     ''quel'', ''quelle'', ''quels'', ''quelles'', ''quoi'', ''qui'', ''que'', ''est'', ''sont'',
     ''fonctionne'', ''cette'', ''dans'', ''avec'', ''o'' @ [CHR 0xF9], ''c'' @ [CHR 0xF3] @ ''mo'',
     ''como'', ''qu'' @ [CHR 0xE9], ''cu'' @ [CHR 0xE1] @ ''l'', ''cu'' @ [CHR 0xE1] @ ''les'',
     ''cu'' @ [CHR 0xE1] @ ''ndo'', ''d'' @ [CHR 0xF3] @ ''nde'', ''donde'', ''porque'', ''por'',
     ''para'', ''funciona'', ''est'' @ [CHR 0xE1], ''est'' @ [CHR 0xE1] @ ''n'', ''hay'', ''qual'',
     ''quais'', ''quando'', ''onde'', ''s'' @ [CHR 0xE3] @ ''o'', ''est'' @ [CHR 0xE3] @ ''o'',
     ''tem'', ''uma'', ''n'' @ [CHR 0xE3] @ ''o'', ''perch'' @ [CHR 0xE9], ''cosa'', ''quale'',
     ''quali'', ''dove'', ''funziona'', ''sono'', ''che'', ''della'']"

fun windows :: "nat \<Rightarrow> 'a list \<Rightarrow> 'a list list" where
  "windows n [] = []"
| "windows n (x # xs) = (if n \<le> length (x # xs) then take n (x # xs) # windows n xs else [])"

definition split_whitespace :: "string \<Rightarrow> string list" where
  "split_whitespace s = token_loop (\<lambda>c. \<not> is_whitespace c) [] s"

definition chinese_terms :: "(string \<Rightarrow> string list) option \<Rightarrow> string \<Rightarrow> string list" where
  "chinese_terms segmenter raw =
     (let s = lowercase raw;
          segments = (case segmenter of
              Some seg \<Rightarrow> seg s
            | None \<Rightarrow> (let pairs = windows 2 s in if pairs = [] then [s] else pairs));
          segments = (if length s > 1 \<and> s \<notin> set segments then segments @ [s] else segments)
      in filter (\<lambda>t. t \<noteq> [] \<and> searchable_query_term t) (map trim segments))"

definition query_terms_with_chinese_segmenter ::
  "string \<Rightarrow> (string \<Rightarrow> string list) option \<Rightarrow> string list" where
  "query_terms_with_chinese_segmenter question segmenter =
     (let terms = concat (map (\<lambda>raw.
            if has_chinese raw then chinese_terms segmenter raw
            else filter searchable_query_term (query_word_tokens raw)) (split_whitespace question));
          content = filter (\<lambda>t. t \<notin> set stopwords) terms
      in if content = [] then terms else content)"

definition query_terms :: "string \<Rightarrow> string list" where
  "query_terms question = query_terms_with_chinese_segmenter question None"

section \<open>Trigrams\<close>

definition norm_label :: "unicode \<Rightarrow> node \<Rightarrow> string" where
  "norm_label u n =
     (case get_str (n_extra n) ''norm_label'' of
        Some s \<Rightarrow> s | None \<Rightarrow> norm_text u (n_label n))"

text \<open>A \<open>BTreeSet\<close> of strings is the sorted list of its members.\<close>

definition trigrams :: "string \<Rightarrow> string list" where
  "trigrams s =
     (if s = [] then []
      else if length s < 3 then [s]
      else sorted_list_of_set (set (windows 3 s)))"

definition node_search_text :: "unicode \<Rightarrow> node \<Rightarrow> string \<Rightarrow> string" where
  "node_search_text u n i =
     join_with [CHR 0x00]
       [norm_label u n,
        join_with '' '' (search_tokens u (n_label n)),
        lowercase i,
        lowercase (n_source_file n),
        join_with '' '' (search_tokens u (n_source_file n))]"

definition push_posting :: "nat \<Rightarrow> string \<Rightarrow> postings \<Rightarrow> postings" where
  "push_posting p gram m = m(gram \<mapsto> (case m gram of None \<Rightarrow> [] | Some b \<Rightarrow> b) @ [p])"

definition build_postings :: "unicode \<Rightarrow> node list \<Rightarrow> postings" where
  "build_postings u ns =
     fold (\<lambda>(p, n). fold (push_posting p) (trigrams (node_search_text u n (n_id n))))
       (zip [0..<length ns] ns) Map.empty"

text \<open>\<open>trigram_index\<close>: the postings, and the cache in which they are kept.\<close>

definition trigram_index :: "unicode \<Rightarrow> graph_index \<Rightarrow> postings" where
  "trigram_index u ix =
     (case qc_trigrams (gi_cache ix) of
        Some m \<Rightarrow> m | None \<Rightarrow> build_postings u (g_nodes (gi_graph ix)))"

definition with_trigrams :: "unicode \<Rightarrow> graph_index \<Rightarrow> graph_index" where
  "with_trigrams u ix = ix\<lparr>gi_cache := (gi_cache ix)\<lparr>qc_trigrams := Some (trigram_index u ix)\<rparr>\<rparr>"

definition too_common :: "postings \<Rightarrow> nat \<Rightarrow> string list \<Rightarrow> bool" where
  "too_common m threshold grams =
     (let present = List.map_filter (\<lambda>g. map_option length (m g)) grams
      in present \<noteq> [] \<and> Min (set present) > threshold)"

text \<open>The positions that hold every trigram of a needle; none when a trigram has no posting.\<close>

definition needle_hits :: "postings \<Rightarrow> string \<Rightarrow> nat set" where
  "needle_hits m needle =
     (let buckets = map m (trigrams needle)
      in if None \<in> set buckets \<or> buckets = [] then {}
         else (case sort_key length (map the buckets) of
                 [] \<Rightarrow> {}
               | b # bs \<Rightarrow> fold (\<lambda>bucket hits. {p \<in> hits. p \<in> set bucket}) bs (set b)))"

definition trigram_candidates_with_guard ::
  "unicode \<Rightarrow> graph_index \<Rightarrow> string list \<Rightarrow> real \<Rightarrow> nat list option" where
  "trigram_candidates_with_guard u ix needles guard =
     (let m = trigram_index u ix;
          needles = filter (\<lambda>n. n \<noteq> []) needles;
          threshold = nat \<lfloor>real (node_count ix) * guard\<rfloor>
      in if node_count ix = 0 then Some []
         else if \<exists>needle \<in> set needles.
                (let grams = trigrams needle
                 in grams = [] \<or> (\<exists>g \<in> set grams. length g < 3) \<or> too_common m threshold grams)
         then None
         else Some (sorted_list_of_set (\<Union> (set (map (needle_hits m) needles)))))"

definition trigram_candidates :: "unicode \<Rightarrow> graph_index \<Rightarrow> string list \<Rightarrow> nat list option" where
  "trigram_candidates u ix needles = trigram_candidates_with_guard u ix needles (1 / 10)"

section \<open>Inverse document frequency\<close>

definition idf_weight :: "unicode \<Rightarrow> graph_index \<Rightarrow> string \<Rightarrow> real" where
  "idf_weight u ix term =
     ln (1 + real (max (node_count ix) 1)
           / (1 + real (length (filter (\<lambda>n. contains (norm_label u n) term) (g_nodes (gi_graph ix))))))"

definition cache_idf :: "unicode \<Rightarrow> graph_index \<Rightarrow> string list \<Rightarrow> (string \<rightharpoonup> real) \<Rightarrow> (string \<rightharpoonup> real)" where
  "cache_idf u ix terms cache =
     fold (\<lambda>t c. if t \<in> dom c then c else c(t \<mapsto> idf_weight u ix t)) terms cache"

definition compute_idf ::
  "unicode \<Rightarrow> graph_index \<Rightarrow> string list \<Rightarrow> (string \<rightharpoonup> real) \<times> graph_index" where
  "compute_idf u ix terms =
     (let cache = cache_idf u ix terms (qc_idf (gi_cache ix))
      in (\<lambda>t. if t \<in> set terms
              then Some (case cache t of Some w \<Rightarrow> w | None \<Rightarrow> ln (1 + real (max (node_count ix) 1)))
              else None,
          ix\<lparr>gi_cache := (gi_cache ix)\<lparr>qc_idf := cache\<rparr>\<rparr>))"

section \<open>Scores\<close>

definition exact_match_bonus :: real where "exact_match_bonus = 1000"
definition prefix_match_bonus :: real where "prefix_match_bonus = 100"
definition substring_match_bonus :: real where "substring_match_bonus = 1"
definition source_match_bonus :: real where "source_match_bonus = 1 / 2"

text \<open>What the loop over the candidates reads of a node.\<close>

record node_text =
  t_label :: string
  t_bare :: string
  t_tokens :: string
  t_source :: string
  t_id :: string

definition node_text_of :: "unicode \<Rightarrow> node \<Rightarrow> node_text" where
  "node_text_of u n =
     (let label = norm_label u n
      in \<lparr> t_label = label, t_bare = trim_end_matches ''()'' label,
           t_tokens = join_with '' '' (search_tokens u (n_label n)),
           t_source = lowercase (n_source_file n), t_id = lowercase (n_id n) \<rparr>)"

definition exact_text :: "node_text \<Rightarrow> string \<Rightarrow> bool" where
  "exact_text t s \<longleftrightarrow> s \<in> set [t_label t, t_bare t, t_tokens t, t_id t]"

definition prefix_text :: "node_text \<Rightarrow> string \<Rightarrow> bool" where
  "prefix_text t s \<longleftrightarrow> starts_with (t_label t) s \<or> starts_with (t_bare t) s \<or> starts_with (t_tokens t) s"

definition whole_score :: "node_text \<Rightarrow> string \<Rightarrow> real \<Rightarrow> real" where
  "whole_score t s weight =
     (if exact_text t s then exact_match_bonus * 10 * weight
      else if prefix_text t s then prefix_match_bonus * 10 * weight
      else 0)"

text \<open>The tier of a term, its substring score and its source score.\<close>

definition tier_value :: "node_text \<Rightarrow> string \<Rightarrow> real \<Rightarrow> real" where
  "tier_value t term weight =
     (if term = t_label t \<or> term = t_bare t then exact_match_bonus * weight
      else if starts_with (t_label t) term \<or> starts_with (t_bare t) term then prefix_match_bonus * weight
      else 0)"

definition in_tier :: "node_text \<Rightarrow> string \<Rightarrow> bool" where
  "in_tier t term \<longleftrightarrow> term = t_label t \<or> term = t_bare t
     \<or> starts_with (t_label t) term \<or> starts_with (t_bare t) term"

definition substring_value :: "node_text \<Rightarrow> string \<Rightarrow> real \<Rightarrow> real" where
  "substring_value t term weight =
     (if \<not> in_tier t term \<and> contains (t_label t) term then substring_match_bonus * weight else 0)"

definition source_value :: "node_text \<Rightarrow> string \<Rightarrow> real \<Rightarrow> real" where
  "source_value t term weight =
     (if contains (t_source t) term then source_match_bonus * weight else 0)"

definition singleton_score :: "node_text \<Rightarrow> string \<Rightarrow> real \<Rightarrow> real" where
  "singleton_score t term weight =
     whole_score t term weight
       + (tier_value t term weight + substring_value t term weight + source_value t term weight)"

type_synonym best_seeds = "(string, real \<times> nat) btree"

text \<open>\<open>replace\<close>: a better score, then a higher degree, a shorter label, a smaller identifier.\<close>

definition better_seed :: "graph_index \<Rightarrow> real \<Rightarrow> nat \<Rightarrow> real \<times> nat \<Rightarrow> bool" where
  "better_seed ix score p best =
     (let (best_score, q) = best;
          label = \<lambda>p. length (n_label (index_node ix p)); i = \<lambda>p. n_id (index_node ix p)
      in score > best_score
         \<or> score = best_score
           \<and> (degree ix p > degree ix q
              \<or> degree ix p = degree ix q
                \<and> (label p < label q \<or> label p = label q \<and> i p < i q)))"

definition update_seed :: "graph_index \<Rightarrow> nat \<Rightarrow> string \<Rightarrow> real \<Rightarrow> best_seeds \<Rightarrow> best_seeds" where
  "update_seed ix p term score best =
     (if score > 0 \<and> (case bt_get best term of None \<Rightarrow> True | Some b \<Rightarrow> better_seed ix score p b)
      then bt_put term (score, p) best else best)"

text \<open>The loop over the terms: the score, the number of terms matched and the sum of the tiers.\<close>

record term_state =
  ts_score :: real
  ts_matched :: nat
  ts_tiered :: real
  ts_best :: best_seeds

definition score_term ::
  "graph_index \<Rightarrow> (string \<Rightarrow> real) \<Rightarrow> bool \<Rightarrow> nat \<Rightarrow> node_text \<Rightarrow> string \<Rightarrow> term_state \<Rightarrow> term_state" where
  "score_term ix idf collect p t term st =
     (let w = idf term
      in \<lparr> ts_score = ts_score st + substring_value t term w + source_value t term w,
           ts_matched = ts_matched st
             + (if in_tier t term \<or> contains (t_label t) term then 1 else 0),
           ts_tiered = ts_tiered st + tier_value t term w,
           ts_best = (if collect then update_seed ix p term (singleton_score t term w) (ts_best st)
                      else ts_best st) \<rparr>)"

type_synonym scan_state = "(real \<times> nat) list \<times> best_seeds"

definition score_position ::
  "unicode \<Rightarrow> graph_index \<Rightarrow> (string \<Rightarrow> real) \<Rightarrow> bool \<Rightarrow> string list \<Rightarrow> string \<Rightarrow> real
   \<Rightarrow> nat \<Rightarrow> scan_state \<Rightarrow> scan_state" where
  "score_position u ix idf collect terms joined joined_weight p st =
     (let (scored, best) = st;
          t = node_text_of u (index_node ix p);
          ts = fold (score_term ix idf collect p t) terms
                 \<lparr> ts_score = whole_score t joined joined_weight, ts_matched = 0, ts_tiered = 0,
                   ts_best = best \<rparr>;
          score = ts_score ts
            + (if ts_tiered ts > 0
               then ts_tiered ts * (real (ts_matched ts) / real (length terms))\<^sup>2 else 0)
      in (if score > 0 then scored @ [(score, p)] else scored, ts_best ts))"

record query_scores =
  qs_ranked :: "(real \<times> nat) list"
  qs_best_seed_by_term :: "(string, nat) btree"

definition rank_key :: "graph_index \<Rightarrow> real \<times> nat \<Rightarrow> real \<times> nat \<times> string" where
  "rank_key ix sp = (- fst sp, length (n_label (index_node ix (snd sp))), n_id (index_node ix (snd sp)))"

definition finish_scores :: "graph_index \<Rightarrow> scan_state \<Rightarrow> query_scores" where
  "finish_scores ix st =
     \<lparr> qs_ranked = sort_key (rank_key ix) (fst st),
       qs_best_seed_by_term = map (\<lambda>(term, _, p). (term, p)) (snd st) \<rparr>"

definition normalized_terms :: "unicode \<Rightarrow> string list \<Rightarrow> string list" where
  "normalized_terms u terms = retain_first (\<lambda>t. t) {} (concat (map (search_tokens u) terms))"

definition scan_positions :: "graph_index \<Rightarrow> nat list option \<Rightarrow> nat list" where
  "scan_positions ix candidates =
     (case candidates of Some ps \<Rightarrow> ps | None \<Rightarrow> [0..<node_count ix])"

definition score_query_impl ::
  "unicode \<Rightarrow> graph_index \<Rightarrow> string list \<Rightarrow> bool \<Rightarrow> bool \<Rightarrow> query_scores \<times> graph_index" where
  "score_query_impl u ix terms collect use_prefilter =
     (let normalized = normalized_terms u terms
      in if normalized = [] then (\<lparr> qs_ranked = [], qs_best_seed_by_term = [] \<rparr>, ix)
         else
           let (idf, ix) = compute_idf u ix normalized;
               weight = (\<lambda>t. the (idf t));
               joined = join_with '' '' normalized;
               joined_weight = fold (\<lambda>t m. max m (weight t)) normalized 1;
               needles = normalized @ (if joined \<noteq> [] then [joined] else []);
               candidates = (if use_prefilter then trigram_candidates u ix needles else None);
               ix = (if use_prefilter then with_trigrams u ix else ix);
               st = fold (score_position u ix weight collect normalized joined joined_weight)
                      (scan_positions ix candidates) ([], [])
           in (finish_scores ix st, ix))"

definition score_query :: "unicode \<Rightarrow> graph_index \<Rightarrow> string list \<Rightarrow> bool \<Rightarrow> query_scores \<times> graph_index" where
  "score_query u ix terms collect = score_query_impl u ix terms collect True"

definition score_query_full_scan ::
  "unicode \<Rightarrow> graph_index \<Rightarrow> string list \<Rightarrow> bool \<Rightarrow> query_scores \<times> graph_index" where
  "score_query_full_scan u ix terms collect = score_query_impl u ix terms collect False"

definition score_nodes :: "unicode \<Rightarrow> graph_index \<Rightarrow> string list \<Rightarrow> (real \<times> nat) list" where
  "score_nodes u ix terms = qs_ranked (fst (score_query u ix terms False))"

section \<open>The trigram index\<close>

lemma set_windows: "set (windows n xs) = {take n (drop i xs) | i. n \<le> length xs - i \<and> i < length xs}"
proof (induction n xs rule: windows.induct)
  case (1 n)
  then show ?case by simp
next
  case (2 n x xs)
  show ?case
  proof (cases "n \<le> length (x # xs)")
    case True
    have split: "{take n (drop i (x # xs)) | i. n \<le> length (x # xs) - i \<and> i < length (x # xs)}
        = insert (take n (x # xs)) {take n (drop i xs) | i. n \<le> length xs - i \<and> i < length xs}"
      (is "?l = ?r")
    proof
      show "?l \<subseteq> ?r"
      proof
        fix w assume "w \<in> ?l"
        then obtain i where i: "w = take n (drop i (x # xs))" "n \<le> length (x # xs) - i"
            "i < length (x # xs)" by blast
        show "w \<in> ?r"
        proof (cases i)
          case 0
          then show ?thesis using i by simp
        next
          case (Suc j)
          then show ?thesis using i by auto
        qed
      qed
      show "?r \<subseteq> ?l"
      proof
        fix w assume "w \<in> ?r"
        then consider "w = take n (x # xs)"
          | i where "w = take n (drop i xs)" "n \<le> length xs - i" "i < length xs" by blast
        then show "w \<in> ?l"
        proof cases
          case 1
          then have "w = take n (drop 0 (x # xs)) \<and> n \<le> length (x # xs) - 0 \<and> 0 < length (x # xs)"
            using True by simp
          then show ?thesis by blast
        next
          case (2 i)
          then have "w = take n (drop (Suc i) (x # xs)) \<and> n \<le> length (x # xs) - Suc i
              \<and> Suc i < length (x # xs)" by simp
          then show ?thesis by blast
        qed
      qed
    qed
    have "set (windows n (x # xs)) = insert (take n (x # xs)) (set (windows n xs))"
      using True by simp
    then show ?thesis using "2.IH" [OF True] split by simp
  next
    case False
    then have "\<not> n \<le> length (x # xs) - i" for i by simp
    then show ?thesis using False by auto
  qed
qed

lemma windows_sublist:
  assumes "0 < n" "sublist xs ys"
  shows "set (windows n xs) \<subseteq> set (windows n ys)"
proof
  fix w assume "w \<in> set (windows n xs)"
  then obtain i where i: "w = take n (drop i xs)" "n \<le> length xs - i" "i < length xs"
    unfolding set_windows by blast
  obtain ps ss where ys: "ys = ps @ xs @ ss" using assms(2) unfolding sublist_def by blast
  have "drop (length ps + i) ys = drop i xs @ ss"
    using i(3) unfolding ys by simp
  then have "w = take n (drop (length ps + i) ys) \<and> n \<le> length ys - (length ps + i)
      \<and> length ps + i < length ys"
    using i unfolding ys by simp
  then show "w \<in> set (windows n ys)" unfolding set_windows by blast
qed

lemma trigrams_contained:
  assumes "length needle \<ge> 3" "contains s needle"
  shows "trigrams needle \<noteq> []" "set (trigrams needle) \<subseteq> set (trigrams s)"
proof -
  have len: "length s \<ge> 3" using assms by (meson le_trans sublist_length_le)
  have needle: "needle \<noteq> []" "\<not> length needle < 3" using assms(1) by auto
  have s: "s \<noteq> []" "\<not> length s < 3" using len by auto
  show "set (trigrams needle) \<subseteq> set (trigrams s)"
    using windows_sublist [OF _ assms(2), of 3] needle s by (simp add: trigrams_def)
  have "take 3 (drop 0 needle) \<in> set (windows 3 needle)"
    unfolding set_windows using assms(1) needle by fastforce
  then show "trigrams needle \<noteq> []"
    using needle unfolding trigrams_def by (metis emptyE empty_set finite_set set_sorted_list_of_set)
qed

definition posting_of :: "postings \<Rightarrow> string \<Rightarrow> nat list" where
  "posting_of m g = (case m g of None \<Rightarrow> [] | Some b \<Rightarrow> b)"

text \<open>
  The contract of an inverted index: the posting of a trigram is the list of the positions whose text
  has it. What the clients need of it is that no position whose text contains a needle is missed.
\<close>

locale text_index =
  fixes text_at :: "nat \<Rightarrow> string" and count :: nat and index :: postings
  assumes posting: "p \<in> set (posting_of index g) \<longleftrightarrow> p < count \<and> g \<in> set (trigrams (text_at p))"
begin

lemma fold_retain: "fold (\<lambda>bucket hits. {p \<in> hits. p \<in> set bucket}) bs H
    = {p \<in> H. \<forall>b \<in> set bs. p \<in> set b}"
  by (induction bs arbitrary: H) auto

lemma needle_hits_iff:
  assumes "trigrams needle \<noteq> []"
  shows "p \<in> needle_hits index needle \<longleftrightarrow> (\<forall>g \<in> set (trigrams needle). p \<in> set (posting_of index g))"
proof (cases "None \<in> set (map index (trigrams needle))")
  case True
  then obtain g where g: "g \<in> set (trigrams needle)" "index g = None" by auto
  then have "p \<notin> set (posting_of index g)" by (simp add: posting_of_def)
  then show ?thesis using True g(1) by (auto simp: needle_hits_def Let_def)
next
  case False
  define buckets where "buckets = map the (map index (trigrams needle))"
  have bucket: "posting_of index g = the (index g)" if "g \<in> set (trigrams needle)" for g
    using False that by (cases "index g") (auto simp: posting_of_def image_iff)
  obtain b bs where sorted: "sort_key length buckets = b # bs"
    using assms unfolding buckets_def
    by (metis list.exhaust length_0_conv length_map length_sort)
  then have members: "set buckets = insert b (set bs)" by (metis list.simps(15) set_sort)
  have "needle_hits index needle = {q \<in> set b. \<forall>c \<in> set bs. q \<in> set c}"
    using False assms sorted unfolding needle_hits_def Let_def buckets_def
    by (simp add: fold_retain)
  then have "p \<in> needle_hits index needle \<longleftrightarrow> (\<forall>c \<in> set buckets. p \<in> set c)"
    using members by auto
  then show ?thesis using bucket by (auto simp: buckets_def)
qed

lemma needle_hits_complete:
  assumes "length needle \<ge> 3" "p < count" "contains (text_at p) needle"
  shows "p \<in> needle_hits index needle"
  using trigrams_contained [OF assms(1,3)] assms(2) needle_hits_iff posting by auto

lemma needle_hits_bound: "needle_hits index needle \<subseteq> {..<count}"
proof (cases "trigrams needle = []")
  case True
  then show ?thesis by (simp add: needle_hits_def)
next
  case False
  then obtain g where "g \<in> set (trigrams needle)" by (cases "trigrams needle") auto
  then show ?thesis using needle_hits_iff [OF False] posting by blast
qed

lemma hits_are_filter:
  "sorted_list_of_set (\<Union> (set (map (needle_hits index) needles)))
     = filter (\<lambda>p. p \<in> \<Union> (set (map (needle_hits index) needles))) [0..<count]"
proof -
  have bound: "\<Union> (set (map (needle_hits index) needles)) \<subseteq> {..<count}"
    using needle_hits_bound by auto
  then have members: "set (filter (\<lambda>p. p \<in> \<Union> (set (map (needle_hits index) needles))) [0..<count])
      = \<Union> (set (map (needle_hits index) needles))" by auto
  have "sorted (filter (\<lambda>p. p \<in> \<Union> (set (map (needle_hits index) needles))) [0..<count])"
      "distinct (filter (\<lambda>p. p \<in> \<Union> (set (map (needle_hits index) needles))) [0..<count])"
    by (simp_all add: sorted_wrt_filter)
  then show ?thesis
    using members by (metis sorted_list_of_set.idem_if_sorted_distinct)
qed

end

lemma posting_push: "posting_of (push_posting p gram m) g
    = (if g = gram then posting_of m g @ [p] else posting_of m g)"
  by (simp add: push_posting_def posting_of_def)

lemma posting_push_all:
  "set (posting_of (fold (push_posting p) grams m) g)
     = set (posting_of m g) \<union> (if g \<in> set grams then {p} else {})"
  by (induction grams arbitrary: m) (auto simp: posting_push)

lemma posting_build_prefix:
  assumes "k \<le> length ns"
  shows "p \<in> set (posting_of (fold (\<lambda>(p, n). fold (push_posting p) (trigrams (node_search_text u n (n_id n))))
              (zip [0..<k] (take k ns)) Map.empty) g)
    \<longleftrightarrow> p < k \<and> g \<in> set (trigrams (node_search_text u (ns ! p) (n_id (ns ! p))))"
  using assms
proof (induction k)
  case 0
  then show ?case by (simp add: posting_of_def)
next
  case (Suc k)
  have "zip [0..<Suc k] (take (Suc k) ns) = zip [0..<k] (take k ns) @ [(k, ns ! k)]"
    using Suc.prems by (simp add: take_Suc_conv_app_nth)
  then show ?case using Suc by (auto simp: posting_push_all less_Suc_eq)
qed

interpretation node_index:
  text_index "\<lambda>p. node_search_text u (ns ! p) (n_id (ns ! p))" "length ns" "build_postings u ns" for u ns
proof
  show "p \<in> set (posting_of (build_postings u ns) g)
      \<longleftrightarrow> p < length ns \<and> g \<in> set (trigrams (node_search_text u (ns ! p) (n_id (ns ! p))))" for p g
    using posting_build_prefix [of "length ns" ns p u g] by (simp add: build_postings_def)
qed

text \<open>A cache shared between indexes must have been filled from the same nodes.\<close>

definition trigram_cache_ok :: "unicode \<Rightarrow> graph_index \<Rightarrow> bool" where
  "trigram_cache_ok u ix \<longleftrightarrow>
     (case qc_trigrams (gi_cache ix) of
        None \<Rightarrow> True | Some m \<Rightarrow> m = build_postings u (g_nodes (gi_graph ix)))"

abbreviation search_text_at :: "unicode \<Rightarrow> graph_index \<Rightarrow> nat \<Rightarrow> string" where
  "search_text_at u ix p \<equiv> node_search_text u (index_node ix p) (n_id (index_node ix p))"

lemma trigram_index_eq:
  "trigram_cache_ok u ix \<Longrightarrow> trigram_index u ix = build_postings u (g_nodes (gi_graph ix))"
  by (simp add: trigram_cache_ok_def trigram_index_def split: option.splits)

lemma short_gram: "length needle < 3 \<Longrightarrow> needle \<noteq> [] \<Longrightarrow> \<exists>g \<in> set (trigrams needle). length g < 3"
  by (simp add: trigrams_def)

lemma candidates_filter:
  assumes ok: "trigram_cache_ok u ix"
    and found: "trigram_candidates_with_guard u ix needles guard = Some ps"
  obtains P where "ps = filter P [0..<node_count ix]"
    "\<And>p needle. p < node_count ix \<Longrightarrow> needle \<in> set needles \<Longrightarrow> needle \<noteq> []
       \<Longrightarrow> contains (search_text_at u ix p) needle \<Longrightarrow> P p"
proof (cases "node_count ix = 0")
  case True
  then show ?thesis
    using found that [of "\<lambda>_. True"] by (simp add: trigram_candidates_with_guard_def Let_def)
next
  case False
  define m where "m = build_postings u (g_nodes (gi_graph ix))"
  define ns where "ns = filter (\<lambda>n. n \<noteq> []) needles"
  have ps: "ps = sorted_list_of_set (\<Union> (set (map (needle_hits m) ns)))"
    and long: "\<forall>needle \<in> set ns. \<not> (\<exists>g \<in> set (trigrams needle). length g < 3)"
    using found False unfolding trigram_candidates_with_guard_def Let_def trigram_index_eq [OF ok]
      m_def ns_def
    by (auto split: if_splits)
  define P where "P p \<longleftrightarrow> p \<in> \<Union> (set (map (needle_hits m) ns))" for p
  have "ps = filter P [0..<node_count ix]"
    unfolding ps P_def m_def by (rule node_index.hits_are_filter)
  moreover have "P p" if "p < node_count ix" "needle \<in> set needles" "needle \<noteq> []"
      "contains (search_text_at u ix p) needle" for p needle
  proof -
    have "needle \<in> set ns" using that by (simp add: ns_def)
    moreover then have "length needle \<ge> 3" using long short_gram that(3) by (metis not_less)
    then have "p \<in> needle_hits m needle"
      unfolding m_def using that by (intro node_index.needle_hits_complete)
    ultimately show ?thesis unfolding P_def by auto
  qed
  ultimately show ?thesis using that by blast
qed

section \<open>The prefilter\<close>

lemma fold_filter_idle:
  assumes "\<And>x s. x \<in> set xs \<Longrightarrow> \<not> P x \<Longrightarrow> f x s = s"
  shows "fold f (filter P xs) s = fold f xs s"
  using assms by (induction xs arbitrary: s) auto

lemma join_contains: "p \<in> set parts \<Longrightarrow> contains (join_with sep parts) p"
proof (induction sep parts rule: join_with.induct)
  case (3 sep q r rs)
  show ?case
  proof (cases "p = q")
    case True
    then show ?thesis by (metis join_with.simps(3) sublist_append_rightI)
  next
    case False
    then have "contains (join_with sep (r # rs)) p" using 3 by auto
    then show ?thesis
      by (metis append_assoc join_with.simps(3) sublist_append_leftI sublist_order.order.trans)
  qed
qed auto

lemma token_loop_nonempty: "t \<in> set (token_loop P token s) \<Longrightarrow> t \<noteq> []"
proof (induction P token s rule: token_loop.induct)
  case (1 P token)
  then show ?case by (cases "token = []") simp_all
next
  case (2 P token c cs)
  consider "P c" | "\<not> P c" "token \<noteq> []" | "\<not> P c" "token = []" by blast
  then show ?case using 2 by cases auto
qed

lemma join_contains_five:
  "contains (join_with sep [a, b, c, d, e]) a" "contains (join_with sep [a, b, c, d, e]) b"
  "contains (join_with sep [a, b, c, d, e]) c" "contains (join_with sep [a, b, c, d, e]) d"
  "contains (join_with sep [a, b, c, d, e]) e"
proof -
  have "\<forall>p \<in> set [a, b, c, d, e]. contains (join_with sep [a, b, c, d, e]) p"
    using join_contains by blast
  then show "contains (join_with sep [a, b, c, d, e]) a" "contains (join_with sep [a, b, c, d, e]) b"
    "contains (join_with sep [a, b, c, d, e]) c" "contains (join_with sep [a, b, c, d, e]) d"
    "contains (join_with sep [a, b, c, d, e]) e"
    unfolding list.set by blast+
qed

lemmas search_text_parts = join_contains_five
  [where sep = "[CHR 0x00]" and a = "norm_label u n" and b = "join_with '' '' (search_tokens u (n_label n))"
     and c = "lowercase i" and d = "lowercase (n_source_file n)"
     and e = "join_with '' '' (search_tokens u (n_source_file n))",
   folded node_search_text_def] for u n i

text \<open>A needle that the texts read by the scorer hold is in the search text.\<close>

definition text_match :: "node_text \<Rightarrow> string \<Rightarrow> bool" where
  "text_match t s \<longleftrightarrow> contains (t_label t) s \<or> contains (t_tokens t) s \<or> contains (t_id t) s
     \<or> contains (t_source t) s"

lemma text_match_contained:
  "text_match (node_text_of u n) s \<Longrightarrow> contains (node_search_text u n (n_id n)) s"
  unfolding text_match_def node_text_of_def Let_def
  using search_text_parts [where u = u and n = n and i = "n_id n"] by (auto intro: sublist_order.order.trans)

lemma bare_prefix: "prefix (t_bare (node_text_of u n)) (t_label (node_text_of u n))"
  by (simp add: node_text_of_def Let_def trim_end_matches_prefix)

lemma no_match_scores:
  assumes "\<not> text_match (node_text_of u n) s"
  shows "whole_score (node_text_of u n) s w = 0" "tier_value (node_text_of u n) s w = 0"
    "substring_value (node_text_of u n) s w = 0" "source_value (node_text_of u n) s w = 0"
    "\<not> in_tier (node_text_of u n) s" "\<not> contains (t_label (node_text_of u n)) s"
proof -
  let ?t = "node_text_of u n"
  have label: "\<not> contains (t_label ?t) s" and tokens: "\<not> contains (t_tokens ?t) s"
    and ident: "\<not> contains (t_id ?t) s" and source: "\<not> contains (t_source ?t) s"
    using assms by (auto simp: text_match_def)
  have bare: "\<not> contains (t_bare ?t) s"
    using label bare_prefix [of u n] by (meson prefix_imp_sublist sublist_order.order.trans)
  have distinct_texts: "s \<noteq> t_label ?t" "s \<noteq> t_bare ?t" "s \<noteq> t_tokens ?t" "s \<noteq> t_id ?t"
    using label bare tokens ident by auto
  have prefixes: "\<not> starts_with (t_label ?t) s" "\<not> starts_with (t_bare ?t) s"
    "\<not> starts_with (t_tokens ?t) s"
    using label bare tokens prefix_imp_sublist by blast+
  show "\<not> in_tier ?t s" "\<not> contains (t_label ?t) s"
    using label distinct_texts prefixes by (auto simp: in_tier_def)
  show "whole_score ?t s w = 0" "tier_value ?t s w = 0"
    using distinct_texts prefixes
    by (simp_all add: whole_score_def exact_text_def prefix_text_def tier_value_def)
  show "substring_value ?t s w = 0" "source_value ?t s w = 0"
    using label source by (simp_all add: substring_value_def source_value_def)
qed

lemma idle_terms:
  assumes "\<forall>t \<in> set terms. \<not> text_match (node_text_of u n) t"
  shows "fold (score_term ix idf collect p (node_text_of u n)) terms st = st"
  using assms
proof (induction terms arbitrary: st)
  case (Cons t terms)
  then have "\<not> text_match (node_text_of u n) t" by simp
  then have "score_term ix idf collect p (node_text_of u n) t st = st"
    by (simp add: score_term_def Let_def no_match_scores singleton_score_def update_seed_def)
  then show ?case using Cons by simp
qed simp

lemma idle_position:
  assumes "\<forall>term \<in> set terms. \<not> text_match (node_text_of u (index_node ix p)) term"
    and "\<not> text_match (node_text_of u (index_node ix p)) joined"
  shows "score_position u ix idf collect terms joined w p st = st"
  using assms
  by (cases st) (simp add: score_position_def Let_def idle_terms no_match_scores)

lemma normalized_terms_nonempty: "t \<in> set (normalized_terms u terms) \<Longrightarrow> t \<noteq> []"
  using retain_first_subset [of "\<lambda>t. t" "{}"] token_loop_nonempty
  by (fastforce simp: normalized_terms_def search_tokens_def)

lemma join_nonempty: "ps \<noteq> [] \<Longrightarrow> [] \<notin> set ps \<Longrightarrow> join_with sep ps \<noteq> []"
  by (induction sep ps rule: join_with.induct) auto

lemma scan_prefiltered:
  assumes ok: "trigram_cache_ok u ix"
    and same: "gi_graph jx = gi_graph ix"
    and needles: "[] \<notin> set needles" "set terms \<subseteq> set needles" "joined \<in> set needles"
  shows "fold (score_position u jx idf collect terms joined w)
           (scan_positions ix (trigram_candidates u ix needles)) st
       = fold (score_position u jx idf collect terms joined w) (scan_positions ix None) st"
proof (cases "trigram_candidates u ix needles")
  case (Some ps)
  obtain P where ps: "ps = filter P [0..<node_count ix]"
    and complete: "\<And>p needle. p < node_count ix \<Longrightarrow> needle \<in> set needles \<Longrightarrow> needle \<noteq> []
       \<Longrightarrow> contains (search_text_at u ix p) needle \<Longrightarrow> P p"
    using candidates_filter [OF ok Some [unfolded trigram_candidates_def]] by blast
  have idle: "score_position u jx idf collect terms joined w p st = st"
    if p: "p \<in> set [0..<node_count ix]" "\<not> P p" for p st
  proof (rule idle_position)
    have none: "\<not> text_match (node_text_of u (index_node jx p)) needle" if "needle \<in> set needles" for needle
      using complete [of p needle] text_match_contained p needles(1) that same
      by (metis atLeastLessThan_iff set_upt)
    then show "\<forall>term \<in> set terms. \<not> text_match (node_text_of u (index_node jx p)) term"
      "\<not> text_match (node_text_of u (index_node jx p)) joined"
      using needles by auto
  qed
  have "fold (score_position u jx idf collect terms joined w) (filter P [0..<node_count ix]) st
      = fold (score_position u jx idf collect terms joined w) [0..<node_count ix] st"
    by (rule fold_filter_idle) (rule idle)
  then show ?thesis using Some ps by (simp add: scan_positions_def)
qed simp

lemma degree_cache [simp]: "degree (ix\<lparr>gi_cache := c\<rparr>) = degree ix"
  by (simp add: degree_def adjacent_def fun_eq_iff)

lemma cache_irrelevant [simp]:
  "better_seed (ix\<lparr>gi_cache := c\<rparr>) = better_seed ix"
  "rank_key (ix\<lparr>gi_cache := c\<rparr>) = rank_key ix"
  by (simp_all add: fun_eq_iff better_seed_def rank_key_def)

lemma update_seed_cache [simp]: "update_seed (ix\<lparr>gi_cache := c\<rparr>) = update_seed ix"
  by (simp add: fun_eq_iff update_seed_def cong: option.case_cong)

lemma score_term_cache [simp]: "score_term (ix\<lparr>gi_cache := c\<rparr>) = score_term ix"
  by (simp add: fun_eq_iff score_term_def Let_def)

lemma score_position_cache [simp]:
  "score_position u (ix\<lparr>gi_cache := c\<rparr>) = score_position u ix"
  by (simp add: fun_eq_iff score_position_def Let_def)

lemma finish_scores_cache [simp]: "finish_scores (ix\<lparr>gi_cache := c\<rparr>) = finish_scores ix"
  by (simp add: fun_eq_iff finish_scores_def)

lemma scan_positions_cache [simp]: "scan_positions (ix\<lparr>gi_cache := c\<rparr>) = scan_positions ix"
  by (simp add: fun_eq_iff scan_positions_def split: option.split)

lemma trigram_cache_compute:
  "compute_idf u ix terms = (idf, jx) \<Longrightarrow>
     gi_graph jx = gi_graph ix \<and> degree jx = degree ix
     \<and> trigram_cache_ok u jx = trigram_cache_ok u ix"
  by (auto simp: compute_idf_def Let_def trigram_cache_ok_def split: option.splits)

lemma score_query_prefilter:
  assumes "trigram_cache_ok u ix"
  shows "fst (score_query u ix terms collect) = fst (score_query_full_scan u ix terms collect)"
proof (cases "normalized_terms u terms = []")
  case True
  then show ?thesis by (simp add: score_query_def score_query_full_scan_def score_query_impl_def Let_def)
next
  case False
  define ts where "ts = normalized_terms u terms"
  define joined where "joined = join_with '' '' ts"
  have nonempty: "[] \<notin> set ts" using normalized_terms_nonempty unfolding ts_def by blast
  then have joined: "joined \<noteq> []" using False join_nonempty unfolding joined_def ts_def by blast
  obtain idf jx where idf: "compute_idf u ix ts = (idf, jx)" by fastforce
  note jx = trigram_cache_compute [OF idf]
  have "fold (score_position u jx (\<lambda>t. the (idf t)) collect ts joined w)
           (scan_positions jx (trigram_candidates u jx (ts @ [joined]))) ([], [])
       = fold (score_position u jx (\<lambda>t. the (idf t)) collect ts joined w) (scan_positions jx None) ([], [])"
    for w
    using assms jx nonempty joined by (intro scan_prefiltered) auto
  then show ?thesis
    using False idf joined
    unfolding score_query_def score_query_full_scan_def score_query_impl_def Let_def
      ts_def [symmetric] joined_def [symmetric]
    by (simp add: with_trigrams_def)
qed

text \<open>
  C8: the trigram prefilter changes no answer: ranking with it gives the same ranked nodes, with the
  same scores in the same order, and the same best seed per term as scanning every node, for every
  graph, list of terms and state of the document frequency cache, when a shared trigram cache was
  filled from the same nodes.
\<close>

theorem score_query_is_full_scan:
  assumes "trigram_cache_ok u ix"
  shows "fst (score_query u ix terms collect) = fst (score_query_full_scan u ix terms collect)"
  using assms by (rule score_query_prefilter)

lemma score_query_is_full_scan_witness:
  "trigram_cache_ok plain_unicode (new_index sample_graph)
   \<and> fst (score_query plain_unicode (new_index sample_graph) [''alpha beta''] True)
     = fst (score_query_full_scan plain_unicode (new_index sample_graph) [''alpha beta''] True)"
proof -
  have "trigram_cache_ok plain_unicode (new_index sample_graph)"
    by (simp add: trigram_cache_ok_def new_index_def default_cache_def)
  then show ?thesis using score_query_is_full_scan by blast
qed

section \<open>What is ranked\<close>

text \<open>A node is relevant when the whole query is one of its names or starts its label, or a term
  stands in its label or in its path.\<close>

definition relevant :: "unicode \<Rightarrow> graph_index \<Rightarrow> string list \<Rightarrow> nat \<Rightarrow> bool" where
  "relevant u ix terms p \<longleftrightarrow>
     (let t = node_text_of u (index_node ix p); ts = normalized_terms u terms;
          joined = join_with '' '' ts
      in exact_text t joined \<or> prefix_text t joined
         \<or> (\<exists>term \<in> set ts. contains (t_label t) term \<or> contains (t_source t) term))"

definition relevant_nodes :: "unicode \<Rightarrow> graph_index \<Rightarrow> string list \<Rightarrow> nat set" where
  "relevant_nodes u ix terms =
     {p. p < node_count ix \<and> normalized_terms u terms \<noteq> [] \<and> relevant u ix terms p}"

definition idf_cache_ok :: "graph_index \<Rightarrow> bool" where
  "idf_cache_ok ix \<longleftrightarrow> (\<forall>w \<in> ran (qc_idf (gi_cache ix)). w > 0)"

lemma idf_weight_pos: "idf_weight u ix t > 0"
proof -
  have "real (max (node_count ix) 1)
      / (1 + real (length (filter (\<lambda>n. contains (norm_label u n) t) (g_nodes (gi_graph ix))))) > 0"
    by (intro divide_pos_pos) auto
  then show ?thesis unfolding idf_weight_def by (intro ln_gt_zero) linarith
qed

lemma cache_idf_pos: "\<forall>w \<in> ran cache. w > 0 \<Longrightarrow> \<forall>w \<in> ran (cache_idf u ix terms cache). w > 0"
  unfolding cache_idf_def
proof (induction terms arbitrary: cache)
  case (Cons t terms)
  have "\<forall>w \<in> ran (if t \<in> dom cache then cache else cache(t \<mapsto> idf_weight u ix t)). w > 0"
    using Cons.prems idf_weight_pos by (auto simp: ran_def)
  then show ?case using Cons.IH by simp
qed simp

lemma compute_idf_pos:
  assumes "idf_cache_ok ix" "compute_idf u ix terms = (idf, jx)" "t \<in> set terms"
  shows "the (idf t) > 0"
proof (cases "cache_idf u ix terms (qc_idf (gi_cache ix)) t")
  case None
  then show ?thesis using assms(2,3) by (auto simp: compute_idf_def Let_def)
next
  case (Some w)
  then have "w > 0" using cache_idf_pos assms(1) unfolding idf_cache_ok_def by (metis ranI)
  then show ?thesis using Some assms(2,3) by (auto simp: compute_idf_def Let_def)
qed

lemma value_signs:
  assumes "w > 0"
  shows "tier_value t s w \<ge> 0" "substring_value t s w \<ge> 0" "source_value t s w \<ge> 0"
    "whole_score t s w \<ge> 0"
    "tier_value t s w > 0 \<longleftrightarrow> in_tier t s"
    "source_value t s w > 0 \<longleftrightarrow> contains (t_source t) s"
    "substring_value t s w > 0 \<longleftrightarrow> \<not> in_tier t s \<and> contains (t_label t) s"
    "whole_score t s w > 0 \<longleftrightarrow> exact_text t s \<or> prefix_text t s"
  using assms
  by (auto simp: tier_value_def substring_value_def source_value_def whole_score_def in_tier_def
      exact_match_bonus_def prefix_match_bonus_def substring_match_bonus_def source_match_bonus_def)

lemma fold_terms_score:
  "ts_score (fold (score_term ix idf collect p t) terms st)
     = ts_score st + sum_list (map (\<lambda>s. substring_value t s (idf s) + source_value t s (idf s)) terms)"
  "ts_tiered (fold (score_term ix idf collect p t) terms st)
     = ts_tiered st + sum_list (map (\<lambda>s. tier_value t s (idf s)) terms)"
  "ts_matched (fold (score_term ix idf collect p t) terms st)
     = ts_matched st + length (filter (\<lambda>s. in_tier t s \<or> contains (t_label t) s) terms)"
  by (induction terms arbitrary: st) (auto simp: score_term_def Let_def)

lemma sum_list_pos_iff:
  fixes f :: "'a \<Rightarrow> real"
  assumes "\<forall>x \<in> set xs. f x \<ge> 0"
  shows "sum_list (map f xs) \<ge> 0" "sum_list (map f xs) > 0 \<longleftrightarrow> (\<exists>x \<in> set xs. f x > 0)"
proof -
  have ge: "\<forall>x \<in> set ys. f x \<ge> 0 \<Longrightarrow> sum_list (map f ys) \<ge> 0" for ys
    by (intro sum_list_nonneg) auto
  then show "sum_list (map f xs) \<ge> 0" using assms by blast
  show "sum_list (map f xs) > 0 \<longleftrightarrow> (\<exists>x \<in> set xs. f x > 0)"
    using assms
  proof (induction xs)
    case (Cons x xs)
    then have "f x \<ge> 0" "sum_list (map f xs) \<ge> 0" using ge [of xs] by auto
    then have "f x + sum_list (map f xs) > 0 \<longleftrightarrow> f x > 0 \<or> sum_list (map f xs) > 0" by linarith
    then show ?case using Cons by simp
  qed simp
qed

lemma in_tier_label: "in_tier (node_text_of u n) s \<Longrightarrow> contains (t_label (node_text_of u n)) s"
  using bare_prefix [of u n] unfolding in_tier_def
  by (meson prefix_imp_sublist prefix_order.trans sublist_order.order.refl)

text \<open>The score that the loop body gives a position, and when it is positive.\<close>

definition position_score ::
  "unicode \<Rightarrow> graph_index \<Rightarrow> (string \<Rightarrow> real) \<Rightarrow> string list \<Rightarrow> string \<Rightarrow> real \<Rightarrow> nat \<Rightarrow> real" where
  "position_score u ix idf terms joined jw p =
     (let t = node_text_of u (index_node ix p);
          tiered = sum_list (map (\<lambda>s. tier_value t s (idf s)) terms);
          matched = length (filter (\<lambda>s. in_tier t s \<or> contains (t_label t) s) terms)
      in whole_score t joined jw
         + sum_list (map (\<lambda>s. substring_value t s (idf s) + source_value t s (idf s)) terms)
         + (if tiered > 0 then tiered * (real matched / real (length terms))\<^sup>2 else 0))"

lemma score_position_ranked:
  "fst (score_position u ix idf collect terms joined jw p st)
     = fst st @ (if position_score u ix idf terms joined jw p > 0
                 then [(position_score u ix idf terms joined jw p, p)] else [])"
  by (cases st) (simp add: score_position_def position_score_def Let_def fold_terms_score)

lemma fold_positions_ranked:
  "fst (fold (score_position u ix idf collect terms joined jw) ps st)
     = fst st @ map (\<lambda>p. (position_score u ix idf terms joined jw p, p))
                  (filter (\<lambda>p. position_score u ix idf terms joined jw p > 0) ps)"
  by (induction ps arbitrary: st) (auto simp: score_position_ranked)

lemma position_score_pos:
  fixes u :: unicode and ix :: graph_index
  assumes idf: "\<forall>s \<in> set terms. idf s > 0" and "jw > 0"
  defines "t \<equiv> \<lambda>p. node_text_of u (index_node ix p)"
  shows "position_score u ix idf terms joined jw p > 0
    \<longleftrightarrow> exact_text (t p) joined \<or> prefix_text (t p) joined
      \<or> (\<exists>s \<in> set terms. contains (t_label (t p)) s \<or> contains (t_source (t p)) s)"
proof -
  define tiered where "tiered = sum_list (map (\<lambda>s. tier_value (t p) s (idf s)) terms)"
  define matched where
    "matched = length (filter (\<lambda>s. in_tier (t p) s \<or> contains (t_label (t p)) s) terms)"
  define rest where
    "rest = sum_list (map (\<lambda>s. substring_value (t p) s (idf s) + source_value (t p) s (idf s)) terms)"
  define bonus where "bonus = (if tiered > 0 then tiered * (real matched / real (length terms))\<^sup>2 else 0)"
  have score: "position_score u ix idf terms joined jw p = whole_score (t p) joined jw + rest + bonus"
    unfolding position_score_def bonus_def tiered_def matched_def rest_def t_def Let_def ..
  have sub: "\<forall>s \<in> set terms. substring_value (t p) s (idf s) + source_value (t p) s (idf s) \<ge> 0"
    using idf value_signs(2,3) by (metis add_nonneg_nonneg)
  have tier: "\<forall>s \<in> set terms. tier_value (t p) s (idf s) \<ge> 0"
    using idf value_signs(1) by blast
  have rest_pos: "rest > 0 \<longleftrightarrow> (\<exists>s \<in> set terms. \<not> in_tier (t p) s \<and> contains (t_label (t p)) s
      \<or> contains (t_source (t p)) s)"
    unfolding rest_def sum_list_pos_iff(2) [OF sub]
    using idf value_signs(2,3,6,7) by (metis add_pos_nonneg add_nonneg_pos add_nonneg_eq_0_iff order_le_less)
  have tiered_pos: "tiered > 0 \<longleftrightarrow> (\<exists>s \<in> set terms. in_tier (t p) s)"
    unfolding tiered_def sum_list_pos_iff(2) [OF tier] using idf value_signs(5) by blast
  have bonus_pos: "bonus > 0 \<longleftrightarrow> tiered > 0"
  proof
    assume "tiered > 0"
    then obtain s where s: "s \<in> set terms" "in_tier (t p) s" using tiered_pos by blast
    then have "s \<in> set (filter (\<lambda>s. in_tier (t p) s \<or> contains (t_label (t p)) s) terms)" by simp
    then have "matched > 0" unfolding matched_def by (metis length_pos_if_in_set)
    moreover have "length terms > 0" using s(1) by (metis length_pos_if_in_set)
    ultimately show "bonus > 0" using \<open>tiered > 0\<close> by (simp add: bonus_def)
  qed (auto simp: bonus_def split: if_splits)
  have nonneg: "whole_score (t p) joined jw \<ge> 0" "rest \<ge> 0" "bonus \<ge> 0"
    using value_signs(4) [OF \<open>jw > 0\<close>] sum_list_pos_iff(1) [OF sub] bonus_pos
    by (auto simp: rest_def bonus_def)
  then have "whole_score (t p) joined jw + rest + bonus > 0
      \<longleftrightarrow> whole_score (t p) joined jw > 0 \<or> rest > 0 \<or> bonus > 0" by linarith
  also have "\<dots> \<longleftrightarrow> exact_text (t p) joined \<or> prefix_text (t p) joined
      \<or> (\<exists>s \<in> set terms. contains (t_label (t p)) s \<or> contains (t_source (t p)) s)"
    using rest_pos bonus_pos tiered_pos value_signs(8) [OF \<open>jw > 0\<close>] in_tier_label
    unfolding t_def by blast
  finally show ?thesis unfolding score .
qed

lemma fold_max_ge: "(m :: real) \<le> fold (\<lambda>t m. max m (f t)) ts m"
proof (induction ts arbitrary: m)
  case (Cons t ts)
  have "m \<le> max m (f t)" by simp
  also have "\<dots> \<le> fold (\<lambda>t m. max m (f t)) ts (max m (f t))" by (rule Cons.IH)
  finally show ?case by simp
qed simp

lemma score_query_ranked:
  assumes "trigram_cache_ok u ix" and "idf_cache_ok ix"
  shows "distinct (map snd (qs_ranked (fst (score_query u ix terms collect))))
    \<and> snd ` set (qs_ranked (fst (score_query u ix terms collect)))
        = relevant_nodes u ix terms
    \<and> (\<forall>sp \<in> set (qs_ranked (fst (score_query u ix terms collect))). 0 < fst sp)
    \<and> sorted (map (rank_key ix) (qs_ranked (fst (score_query u ix terms collect))))"
proof (cases "normalized_terms u terms = []")
  case True
  then show ?thesis
    by (simp add: score_query_def score_query_impl_def Let_def relevant_nodes_def)
next
  case False
  define ts where "ts = normalized_terms u terms"
  define joined where "joined = join_with '' '' ts"
  obtain idf jx where idf: "compute_idf u ix ts = (idf, jx)" by fastforce
  define jw where "jw = fold (\<lambda>t m. max m (the (idf t))) ts 1"
  define score where "score = position_score u jx (\<lambda>t. the (idf t)) ts joined jw"
  obtain c where jx: "jx = ix\<lparr>gi_cache := c\<rparr>"
    using idf by (auto simp: compute_idf_def Let_def)
  have positive: "\<forall>s \<in> set ts. the (idf s) > 0" using compute_idf_pos assms(2) idf by blast
  have "jw > 0" using fold_max_ge [of 1] unfolding jw_def by (metis less_le_trans zero_less_one)
  then have relevant: "score p > 0 \<longleftrightarrow> relevant u ix terms p" for p
    using position_score_pos [OF positive, of jw u jx joined p] jx
    by (simp add: score_def relevant_def Let_def ts_def joined_def)
  have ranked: "qs_ranked (fst (score_query u ix terms collect))
      = sort_key (rank_key ix) (map (\<lambda>p. (score p, p)) (filter (\<lambda>p. score p > 0) [0..<node_count ix]))"
    unfolding score_query_prefilter [OF assms(1)] score_query_full_scan_def score_query_impl_def Let_def
      ts_def [symmetric] joined_def [symmetric] idf
    using False jx
    by (simp add: ts_def [symmetric] finish_scores_def scan_positions_def fold_positions_ranked
        score_def jw_def)
  have "mset (map snd (sort_key (rank_key ix) (map (\<lambda>p. (score p, p)) ps))) = mset ps" for ps
    by (simp add: image_mset.compositionality o_def)
  then have "distinct (map snd (sort_key (rank_key ix) (map (\<lambda>p. (score p, p)) ps)))" if "distinct ps" for ps
    using that by (metis mset_eq_imp_distinct_iff)
  then show ?thesis
    unfolding ranked using relevant False by (auto simp: image_iff relevant_nodes_def)
qed

text \<open>
  C9: the ranking is exact. The ranked positions are the relevant nodes and no others, each once, with
  a positive score, ordered by descending score, then by the length of the label, then by identifier.
\<close>

theorem score_query_ranks_relevant:
  assumes "trigram_cache_ok u ix" and "idf_cache_ok ix"
  shows "distinct (map snd (qs_ranked (fst (score_query u ix terms collect))))
    \<and> snd ` set (qs_ranked (fst (score_query u ix terms collect)))
        = relevant_nodes u ix terms
    \<and> (\<forall>sp \<in> set (qs_ranked (fst (score_query u ix terms collect))). 0 < fst sp)
    \<and> sorted (map (rank_key ix) (qs_ranked (fst (score_query u ix terms collect))))"
  using assms by (rule score_query_ranked)

lemma score_query_ranks_relevant_witness:
  "trigram_cache_ok plain_unicode (new_index sample_graph) \<and> idf_cache_ok (new_index sample_graph)
   \<and> list_all (\<lambda>sp. 0 < fst sp) (qs_ranked (fst (score_query plain_unicode (new_index sample_graph) [''alpha''] True)))"
proof -
  have "trigram_cache_ok plain_unicode (new_index sample_graph)"
    "idf_cache_ok (new_index sample_graph)"
    by (simp_all add: trigram_cache_ok_def idf_cache_ok_def new_index_def default_cache_def)
  then show ?thesis unfolding list_all_iff using score_query_ranks_relevant by blast
qed

end
