(* ===== verification/Security.thy ===== *)
theory Security
  imports Json
begin

text \<open>
  The text sanitisers of \<open>graphoxide-core/src/security.rs\<close>: labels for terminal and prompt output, and
  metadata values for export into HTML. On the repertoire a character is its code point. A JSON
  object is kept in key order; of two keys that become equal the later one stays, as inserting does.
\<close>

section \<open>Labels\<close>

definition is_control :: "char \<Rightarrow> bool" where
  "is_control c \<longleftrightarrow> (of_char c :: nat) \<le> 0x1F \<or> (of_char c :: nat) = 0x7F"

definition sanitize_optional_label :: "string option \<Rightarrow> string" where
  "sanitize_optional_label label =
     take 256 (filter (\<lambda>c. \<not> is_control c) (case label of None \<Rightarrow> [] | Some s \<Rightarrow> s))"

definition sanitize_label :: "string \<Rightarrow> string" where
  "sanitize_label label = sanitize_optional_label (Some label)"

section \<open>Metadata\<close>

definition metadata_max_value_len :: nat where "metadata_max_value_len = 512"
definition metadata_max_list_items :: nat where "metadata_max_list_items = 50"

definition escape_char :: "char \<Rightarrow> string" where
  "escape_char c =
     (if c = CHR ''&'' then ''&amp;''
      else if c = CHR ''<'' then ''&lt;''
      else if c = CHR ''>'' then ''&gt;''
      else if c = CHR 0x22 then ''&quot;''
      else if c = CHR 0x27 then ''&#x27;''
      else [c])"

fun html_escape :: "string \<Rightarrow> string" where
  "html_escape [] = []"
| "html_escape (c # cs) = escape_char c @ html_escape cs"

definition sanitize_metadata_string :: "string \<Rightarrow> string" where
  "sanitize_metadata_string s =
     take metadata_max_value_len (html_escape (filter (\<lambda>c. \<not> is_control c) s))"

fun sanitize_metadata_value :: "json \<Rightarrow> json"
  and sanitize_entry :: "string \<times> json \<Rightarrow> string \<times> json" where
  "sanitize_metadata_value (JStr s) = JStr (sanitize_metadata_string s)"
| "sanitize_metadata_value (JObj m) =
     JObj (fold (\<lambda>(k, v) result. if k \<noteq> [] then bt_put k v result else result)
             (map sanitize_entry m) [])"
| "sanitize_metadata_value (JArr xs) =
     JArr (take metadata_max_list_items (map sanitize_metadata_value xs))"
| "sanitize_metadata_value v = v"
| "sanitize_entry (k, v) = (sanitize_metadata_string k, sanitize_metadata_value v)"

definition sanitize_metadata :: "jobject option \<Rightarrow> jobject" where
  "sanitize_metadata metadata =
     fold (\<lambda>(k, v) result.
         let k = sanitize_metadata_string k
         in if k \<noteq> [] then bt_put k (sanitize_metadata_value v) result else result)
       (case metadata of None \<Rightarrow> [] | Some m \<Rightarrow> m) []"

lemma sanitize_object: "sanitize_metadata_value (JObj m) = JObj (sanitize_metadata (Some m))"
proof -
  have "fold (\<lambda>(k, v) result. if k \<noteq> [] then bt_put k v result else result) (map sanitize_entry m) acc
      = fold (\<lambda>(k, v) result.
         let k = sanitize_metadata_string k
         in if k \<noteq> [] then bt_put k (sanitize_metadata_value v) result else result) m acc" for acc
    by (induction m arbitrary: acc) (auto simp: Let_def)
  then show ?thesis by (simp add: sanitize_metadata_def)
qed

section \<open>What survives\<close>

text \<open>A character that stands in HTML text as itself.\<close>

definition plain_char :: "char \<Rightarrow> bool" where
  "plain_char c \<longleftrightarrow> c \<noteq> CHR ''<'' \<and> c \<noteq> CHR ''>'' \<and> c \<noteq> CHR 0x22 \<and> c \<noteq> CHR 0x27 \<and> \<not> is_control c"

text \<open>Text that can stand in HTML: no control character, none of the quotes and brackets, bounded.\<close>

definition html_safe :: "string \<Rightarrow> bool" where
  "html_safe s \<longleftrightarrow>
     (\<forall>c \<in> set s. plain_char c) \<and> length s \<le> metadata_max_value_len"

fun metadata_safe :: "json \<Rightarrow> bool" where
  "metadata_safe (JStr s) = html_safe s"
| "metadata_safe (JObj m) = (\<forall>kv \<in> set m. html_safe (fst kv) \<and> fst kv \<noteq> [] \<and> metadata_safe (snd kv))"
| "metadata_safe (JArr xs) = (length xs \<le> metadata_max_list_items \<and> (\<forall>x \<in> set xs. metadata_safe x))"
| "metadata_safe _ = True"

text \<open>Decoding the entities that \<open>html_escape\<close> writes.\<close>

fun html_unescape :: "string \<Rightarrow> string" where
  "html_unescape [] = []"
| "html_unescape (c # cs) =
     (if prefix ''&amp;'' (c # cs) then CHR ''&'' # html_unescape (drop 4 cs)
      else if prefix ''&lt;'' (c # cs) then CHR ''<'' # html_unescape (drop 3 cs)
      else if prefix ''&gt;'' (c # cs) then CHR ''>'' # html_unescape (drop 3 cs)
      else if prefix ''&quot;'' (c # cs) then CHR 0x22 # html_unescape (drop 5 cs)
      else if prefix ''&#x27;'' (c # cs) then CHR 0x27 # html_unescape (drop 5 cs)
      else c # html_unescape cs)"

lemma html_unescape_escape: "html_unescape (html_escape s) = s"
proof (induction s)
  case Nil
  then show ?case by simp
next
  case (Cons c cs)
  consider "c = CHR ''&''" | "c = CHR ''<''" | "c = CHR ''>''" | "c = CHR 0x22" | "c = CHR 0x27"
    | (other) "c \<noteq> CHR ''&''" "c \<noteq> CHR ''<''" "c \<noteq> CHR ''>''" "c \<noteq> CHR 0x22" "c \<noteq> CHR 0x27"
    by blast
  then show ?case using Cons by cases (simp_all add: escape_char_def numeral_eq_Suc)
qed

definition all_plain :: "string \<Rightarrow> bool" where
  "all_plain s \<longleftrightarrow> (\<forall>c \<in> set s. plain_char c)"

lemma entities_plain:
  "all_plain ''&amp;''" "all_plain ''&lt;''" "all_plain ''&gt;''" "all_plain ''&quot;''"
  "all_plain ''&#x27;''"
  by code_simp+

lemma escape_char_plain: "\<not> is_control c \<Longrightarrow> all_plain (escape_char c)"
  unfolding escape_char_def if_distrib [of all_plain]
  by (simp only: entities_plain if_True split: if_split) (simp add: all_plain_def plain_char_def)

lemma html_escape_plain: "\<forall>c \<in> set s. \<not> is_control c \<Longrightarrow> \<forall>c \<in> set (html_escape s). plain_char c"
proof (induction s)
  case (Cons c cs)
  then have "all_plain (escape_char c)" using escape_char_plain by simp
  then show ?case using Cons by (simp add: all_plain_def ball_Un)
qed simp

lemma html_safe_metadata_string: "html_safe (sanitize_metadata_string s)"
  using html_escape_plain [of "filter (\<lambda>c. \<not> is_control c) s"]
    set_take_subset [of metadata_max_value_len "html_escape (filter (\<lambda>c. \<not> is_control c) s)"]
  unfolding html_safe_def sanitize_metadata_string_def by auto

lemma bt_put_entries: "x \<in> set (bt_put j w acc) \<Longrightarrow> x \<in> set acc \<or> x = (j, w)"
  by (induction j w acc rule: bt_put.induct) (auto split: if_splits)

lemma sanitize_fold_safe:
  assumes "\<And>k v. (k, v) \<in> set m \<Longrightarrow> metadata_safe (sanitize_metadata_value v)"
    and "bt_wf acc" "metadata_safe (JObj acc)"
  defines "result \<equiv> fold (\<lambda>(k, v) result.
         let k = sanitize_metadata_string k
         in if k \<noteq> [] then bt_put k (sanitize_metadata_value v) result else result) m acc"
  shows "bt_wf result \<and> metadata_safe (JObj result)"
  using assms(1-3) unfolding result_def
proof (induction m arbitrary: acc)
  case Nil
  then show ?case by simp
next
  case (Cons kv m)
  obtain k v where kv: "kv = (k, v)" by fastforce
  let ?acc = "let k = sanitize_metadata_string k
              in if k \<noteq> [] then bt_put k (sanitize_metadata_value v) acc else acc"
  have wf: "bt_wf ?acc" using Cons.prems(2) by (simp add: Let_def)
  have safe: "metadata_safe (JObj ?acc)"
    using Cons.prems(1) [of k v] Cons.prems(3) kv html_safe_metadata_string [of k]
    by (auto simp: Let_def dest!: bt_put_entries)
  have rest: "metadata_safe (sanitize_metadata_value w)" if "(j, w) \<in> set m" for j w
    using Cons.prems(1) that by (meson list.set_intros(2))
  show ?case
    using Cons.IH [OF rest wf safe] by (simp add: kv)
qed

lemma sanitize_metadata_safe:
  assumes "\<And>k v. (k, v) \<in> set m \<Longrightarrow> metadata_safe (sanitize_metadata_value v)"
  shows "bt_wf (sanitize_metadata (Some m)) \<and> metadata_safe (JObj (sanitize_metadata (Some m)))"
  using sanitize_fold_safe [of m "[]"] assms by (simp add: sanitize_metadata_def)

lemma sanitized_value_safe: "metadata_safe (sanitize_metadata_value v)"
proof (induction v)
  case (JObj m)
  then have "metadata_safe (sanitize_metadata_value w)" if "(k, w) \<in> set m" for k w
    using that by (metis snds.intros snd_conv)
  then show ?case using sanitize_metadata_safe sanitize_object by metis
next
  case (JArr xs)
  then show ?case using set_take_subset [of metadata_max_list_items "map sanitize_metadata_value xs"]
    by auto
qed (simp_all add: html_safe_metadata_string)

text \<open>
  C26: metadata that has been sanitised is safe to inject into HTML: at every depth each string, and
  each key, has no control character and none of the characters \<open><\<close>, \<open>>\<close>, the double and the single
  quote, is at most 512 characters long, keys are not empty, arrays have at most 50 items; and the
  escaping loses nothing, since decoding the entities recovers every string.
\<close>

theorem sanitize_metadata_html_safe:
  "bt_wf (sanitize_metadata metadata) \<and> metadata_safe (JObj (sanitize_metadata metadata))
   \<and> metadata_safe (sanitize_metadata_value v)
   \<and> html_unescape (html_escape s) = s"
proof -
  have "bt_wf (sanitize_metadata metadata) \<and> metadata_safe (JObj (sanitize_metadata metadata))"
  proof (cases metadata)
    case None
    then show ?thesis by (simp add: sanitize_metadata_def)
  next
    case (Some m)
    then show ?thesis using sanitize_metadata_safe [of m] sanitized_value_safe by simp
  qed
  then show ?thesis by (simp add: sanitized_value_safe html_unescape_escape)
qed

lemma sanitize_label_facts:
  "length (sanitize_label s) \<le> 256" "\<forall>c \<in> set (sanitize_label s). \<not> is_control c"
  using set_take_subset [of 256 "filter (\<lambda>c. \<not> is_control c) s"]
  by (auto simp: sanitize_label_def sanitize_optional_label_def)

lemma sanitize_label_idem [simp]: "sanitize_label (sanitize_label s) = sanitize_label s"
proof -
  have "filter (\<lambda>c. \<not> is_control c) (sanitize_label s) = sanitize_label s"
    using sanitize_label_facts(2) by (simp add: filter_id_conv)
  then show ?thesis
    by (simp add: sanitize_label_def sanitize_optional_label_def)
qed

end
