(* ===== verification/QueryFind.thy ===== *)
theory QueryFind
  imports QueryScore Security
begin

text \<open>
  The lookup of a node by name, the choice of seeds, the context filters and the overview functions of
  \<open>graphoxide-query/src/query.rs\<close>. \<open>find_node_impl\<close> distributes the positions over four lists in one
  loop; here each of the four is the positions of its tier, in the order of the loop.
\<close>

section \<open>Finding a node\<close>

definition find_tier :: "unicode \<Rightarrow> string \<Rightarrow> string \<Rightarrow> node \<Rightarrow> nat option" where
  "find_tier u term norm_query n =
     (let label = norm_label u n;
          bare = trim_end_matches ''()'' label;
          label_tokens = join_with '' '' (search_tokens u (n_label n));
          source_tokens = join_with '' '' (search_tokens u (n_source_file n));
          i = lowercase (n_id n)
      in if term = source_tokens then Some 0
         else if term \<in> set [label, bare, label_tokens, i] \<or> norm_query = label \<or> norm_query = bare
         then Some 1
         else if starts_with label term \<or> starts_with bare term \<or> starts_with label_tokens term
                 \<or> starts_with i term \<or> starts_with label norm_query
         then Some 2
         else if contains label term \<or> contains label_tokens term \<or> contains label norm_query
         then Some 3
         else None)"

definition is_separator :: "char \<Rightarrow> bool" where
  "is_separator c \<longleftrightarrow> c = CHR ''/'' \<or> c = CHR 0x5C"

definition query_basename :: "string \<Rightarrow> string" where
  "query_basename query =
     rev (takeWhile (\<lambda>c. \<not> is_separator c) (rev (trim_end_by is_separator query)))"

definition preferred_file :: "unicode \<Rightarrow> string \<Rightarrow> node \<Rightarrow> bool" where
  "preferred_file u base n \<longleftrightarrow>
     n_source_location n = Some ''L1''
     \<and> (norm_text u (n_label n) = base \<or> ends_with (norm_text u (n_label n)) (''/'' @ base))"

definition promote_preferred :: "unicode \<Rightarrow> graph_index \<Rightarrow> string \<Rightarrow> nat list \<Rightarrow> nat list" where
  "promote_preferred u ix query tier =
     (if tier = [] then []
      else
        let base = norm_text u (query_basename query);
            preferred = filter (\<lambda>p. preferred_file u base (index_node ix p)) tier
        in if length preferred = 1
           then hd preferred # filter (\<lambda>p. p \<noteq> hd preferred) tier
           else tier)"

definition find_node_impl ::
  "unicode \<Rightarrow> graph_index \<Rightarrow> string \<Rightarrow> bool \<Rightarrow> nat list \<times> graph_index" where
  "find_node_impl u ix query use_prefilter =
     (let term = join_with '' '' (search_tokens u query);
          norm_query = norm_text u query
      in if term = [] then ([], ix)
         else
           let candidates = (if use_prefilter then trigram_candidates u ix [term, norm_query] else None);
               ix = (if use_prefilter then with_trigrams u ix else ix);
               positions = scan_positions ix candidates;
               tiers = map (\<lambda>i. filter (\<lambda>p. find_tier u term norm_query (index_node ix p) = Some i)
                                  positions) [0..<4]
           in (promote_preferred u ix query (tiers ! 0) @ tiers ! 1 @ tiers ! 2 @ tiers ! 3, ix))"

definition find_node :: "unicode \<Rightarrow> graph_index \<Rightarrow> string \<Rightarrow> nat list \<times> graph_index" where
  "find_node u ix query = find_node_impl u ix query True"

definition find_node_full_scan :: "unicode \<Rightarrow> graph_index \<Rightarrow> string \<Rightarrow> nat list \<times> graph_index" where
  "find_node_full_scan u ix query = find_node_impl u ix query False"

text \<open>A node of any tier holds the normalised query or its tokens.\<close>

lemma find_tier_contained:
  assumes "find_tier u term norm_query n = Some i"
  shows "contains (node_search_text u n (n_id n)) term \<or> contains (node_search_text u n (n_id n)) norm_query"
proof -
  let ?label = "norm_label u n" and ?tokens = "join_with '' '' (search_tokens u (n_label n))"
    and ?source = "join_with '' '' (search_tokens u (n_source_file n))" and ?id = "lowercase (n_id n)"
  have bare: "prefix (trim_end_matches ''()'' ?label) ?label" by (rule trim_end_matches_prefix)
  have "term = ?source \<or> contains ?label term \<or> contains ?tokens term \<or> contains ?id term
      \<or> contains ?label norm_query"
  proof (rule ccontr)
    assume none: "\<not> ?thesis"
    then have "\<not> prefix term (trim_end_matches ''()'' ?label)"
      "\<not> prefix norm_query (trim_end_matches ''()'' ?label)"
      using bare by (meson prefix_imp_sublist prefix_order.trans)+
    then have "find_tier u term norm_query n = None"
      using none prefix_imp_sublist unfolding find_tier_def Let_def
      by (smt (verit) empty_iff insert_iff list.set prefix_order.refl sublist_order.order.refl)
    then show False using assms by simp
  qed
  then show ?thesis
    using search_text_parts [where u = u and n = n and i = "n_id n"]
    by (meson sublist_order.order.trans)
qed

lemma filter_filter_idle:
  assumes "\<And>x. x \<in> set xs \<Longrightarrow> Q x \<Longrightarrow> P x"
  shows "filter Q (filter P xs) = filter Q xs"
  using assms by (induction xs) auto

lemma promote_preferred_cache [simp]:
  "promote_preferred u (ix\<lparr>gi_cache := c\<rparr>) = promote_preferred u ix"
  by (simp add: fun_eq_iff promote_preferred_def Let_def)

lemma search_tokens_query: "join_with '' '' (search_tokens u query) \<noteq> [] \<Longrightarrow> norm_text u query \<noteq> []"
  by (auto simp: search_tokens_def)

text \<open>
  Looking a node up by name with the trigram prefilter answers the same positions in the same
  order as examining every node, when a shared trigram cache was filled from the same nodes.
\<close>

lemma find_node_is_full_scan:
  assumes "trigram_cache_ok u ix"
  shows "fst (find_node u ix query) = fst (find_node_full_scan u ix query)"
proof -
  define words where "words = join_with '' '' (search_tokens u query)"
  define norm where "norm = norm_text u query"
  have scan: "filter (\<lambda>p. find_tier u words norm (index_node ix p) = Some i)
        (scan_positions ix (trigram_candidates u ix [words, norm]))
      = filter (\<lambda>p. find_tier u words norm (index_node ix p) = Some i) (scan_positions ix None)"
    if "words \<noteq> []" for i
  proof (cases "trigram_candidates u ix [words, norm]")
    case (Some ps)
    obtain P where ps: "ps = filter P [0..<node_count ix]"
      and complete: "\<And>p needle. p < node_count ix \<Longrightarrow> needle \<in> set [words, norm] \<Longrightarrow> needle \<noteq> []
         \<Longrightarrow> contains (search_text_at u ix p) needle \<Longrightarrow> P p"
      using candidates_filter [OF assms Some [unfolded trigram_candidates_def]] by blast
    have "norm \<noteq> []" using that search_tokens_query unfolding words_def norm_def by blast
    then have "P p" if "p \<in> set [0..<node_count ix]" "find_tier u words norm (index_node ix p) = Some i" for p
      using complete [of p] find_tier_contained [OF that(2)] that(1) \<open>words \<noteq> []\<close> by auto
    then show ?thesis
      unfolding Some scan_positions_def ps option.case by (rule filter_filter_idle)
  qed simp
  show ?thesis
  proof (cases "words = []")
    case True
    then show ?thesis
      by (simp add: find_node_def find_node_full_scan_def find_node_impl_def Let_def words_def)
  next
    case False
    show ?thesis
      using False scan
      unfolding find_node_def find_node_full_scan_def find_node_impl_def Let_def
        words_def [symmetric] norm_def [symmetric]
      by (simp add: with_trigrams_def)
  qed
qed

lemma find_node_is_full_scan_witness:
  "trigram_cache_ok plain_unicode (new_index sample_graph)
   \<and> fst (find_node plain_unicode (new_index sample_graph) ''alpha'')
     = fst (find_node_full_scan plain_unicode (new_index sample_graph) ''alpha'')"
proof -
  have "trigram_cache_ok plain_unicode (new_index sample_graph)"
    by (simp add: trigram_cache_ok_def new_index_def default_cache_def)
  then show ?thesis using find_node_is_full_scan by blast
qed

section \<open>Seeds\<close>

text \<open>Labels already taken are a set; without an index the position itself stands for the label.\<close>

fun pick_ranked ::
  "nat \<Rightarrow> real \<Rightarrow> (nat \<Rightarrow> string) \<Rightarrow> (real \<times> nat) list \<Rightarrow> nat list \<times> string set \<Rightarrow> nat list \<times> string set" where
  "pick_ranked max_k bound label [] st = st"
| "pick_ranked max_k bound label ((score, p) # rest) st =
     (let (result, labels) = st
      in if length result \<ge> max_k \<or> result \<noteq> [] \<and> score < bound then st
         else if label p \<in> labels then pick_ranked max_k bound label rest st
         else pick_ranked max_k bound label rest (result @ [p], insert (label p) labels))"

definition add_seed :: "(nat \<Rightarrow> string) \<Rightarrow> nat \<Rightarrow> nat list \<times> string set \<Rightarrow> nat list \<times> string set" where
  "add_seed label p st =
     (let (result, labels) = st
      in if p \<notin> set result \<and> label p \<notin> labels then (result @ [p], insert (label p) labels) else st)"

definition pick_seeds ::
  "unicode \<Rightarrow> (real \<times> nat) list \<Rightarrow> nat \<Rightarrow> real \<Rightarrow> graph_index option \<Rightarrow> (string, nat) btree option \<Rightarrow> nat list" where
  "pick_seeds u scored max_k gap_ratio index best_seed_by_term =
     (case scored of
        [] \<Rightarrow> []
      | (top_score, _) # _ \<Rightarrow>
          let label = (\<lambda>p. case index of Some ix \<Rightarrow> norm_label u (index_node ix p) | None \<Rightarrow> show_nat p);
              picked = pick_ranked max_k (top_score * gap_ratio) label scored ([], {})
          in fst (case (index, best_seed_by_term) of
                    (Some _, Some best) \<Rightarrow> fold (add_seed label) (map snd best) picked
                  | _ \<Rightarrow> picked))"

text \<open>What the loops keep: the labels are those of the positions picked, and no label is picked
  twice.\<close>

definition seeds_ok :: "(nat \<Rightarrow> string) \<Rightarrow> nat list \<times> string set \<Rightarrow> bool" where
  "seeds_ok label st \<longleftrightarrow> snd st = label ` set (fst st) \<and> distinct (map label (fst st))"

lemma pick_ranked_ok: "seeds_ok label st \<Longrightarrow> seeds_ok label (pick_ranked k lo label scored st)"
proof (induction k lo label scored st rule: pick_ranked.induct)
  case (2 k lo label score p rest st)
  obtain result labels where st: "st = (result, labels)" by fastforce
  have "seeds_ok label (result @ [p], insert (label p) labels)" if "label p \<notin> labels"
    using 2(3) that by (auto simp: seeds_ok_def st)
  then show ?case using 2 by (simp add: st)
qed simp

lemma pick_ranked_bounds:
  "set (fst (pick_ranked k lo label scored st)) \<subseteq> set (fst st) \<union> snd ` set scored
   \<and> length (fst (pick_ranked k lo label scored st)) \<le> max k (length (fst st))
   \<and> prefix (fst st) (fst (pick_ranked k lo label scored st))"
proof (induction k lo label scored st rule: pick_ranked.induct)
  case (2 k lo label score p rest st)
  obtain result labels where st: "st = (result, labels)" by fastforce
  consider (stop) "length result \<ge> k \<or> result \<noteq> [] \<and> score < lo"
    | (skip) "\<not> (length result \<ge> k \<or> result \<noteq> [] \<and> score < lo)" "label p \<in> labels"
    | (take) "\<not> (length result \<ge> k \<or> result \<noteq> [] \<and> score < lo)" "label p \<notin> labels" by blast
  then show ?case
  proof cases
    case stop
    then show ?thesis by (auto simp: st)
  next
    case skip
    then show ?thesis using 2 by (auto simp: st)
  next
    case take
    then show ?thesis
      using 2(2) [OF st [symmetric] refl take] unfolding st
      by (auto simp: append_prefixD le_max_iff_disj)
  qed
qed simp

lemma pick_ranked_first:
  assumes "k > 0"
  shows "prefix [p] (fst (pick_ranked k lo label ((score, p) # rest) ([], {})))"
  using assms pick_ranked_bounds [of k lo label rest "([p], {label p})"] by simp

lemma add_seeds:
  assumes "seeds_ok label st"
  shows "seeds_ok label (fold (add_seed label) ps st)
    \<and> prefix (fst st) (fst (fold (add_seed label) ps st))
    \<and> set (fst (fold (add_seed label) ps st)) \<subseteq> set (fst st) \<union> set ps
    \<and> length (fst (fold (add_seed label) ps st)) \<le> length (fst st) + length ps
    \<and> label ` set ps \<subseteq> snd (fold (add_seed label) ps st)"
  using assms
proof (induction ps arbitrary: st)
  case (Cons p ps)
  obtain result labels where st: "st = (result, labels)" by fastforce
  let ?st = "add_seed label p st"
  have ok: "seeds_ok label ?st" using Cons.prems by (auto simp: add_seed_def seeds_ok_def st)
  have step: "prefix (fst st) (fst ?st)" "set (fst ?st) \<subseteq> insert p (set (fst st))"
    "length (fst ?st) \<le> Suc (length (fst st))" "label p \<in> snd ?st"
    using Cons.prems by (auto simp: add_seed_def seeds_ok_def st)
  note rest = Cons.IH [OF ok]
  have "prefix (fst ?st) (fst (fold (add_seed label) ps ?st))" using rest by blast
  then have grows: "set (fst ?st) \<subseteq> set (fst (fold (add_seed label) ps ?st))"
    by (rule set_mono_prefix)
  have "label p \<in> label ` set (fst ?st)" using ok step(4) by (simp add: seeds_ok_def)
  then have "label p \<in> snd (fold (add_seed label) ps ?st)"
    using grows rest by (auto simp: seeds_ok_def)
  then show ?case using rest step by (fastforce intro: prefix_order.trans)
qed simp

text \<open>
  The seeds of a traversal have pairwise different labels, start with the best ranked node, come
  from the ranking and from the best nodes of the single terms, are at most the limit and one per
  term, and for every term the label of its best node is among theirs.
\<close>

lemma pick_seeds_cover_terms:
  assumes "scored = (score, p) # rest" and "max_k > 0"
    and "seeds = pick_seeds u scored max_k gap (Some ix) (Some best)"
  shows "distinct (map (\<lambda>q. norm_label u (index_node ix q)) seeds)
    \<and> prefix [p] seeds
    \<and> set seeds \<subseteq> snd ` set scored \<union> snd ` set best
    \<and> length seeds \<le> max_k + length best
    \<and> (\<forall>q \<in> snd ` set best. norm_label u (index_node ix q) \<in> (\<lambda>q. norm_label u (index_node ix q)) ` set seeds)"
proof -
  define label where "label q = norm_label u (index_node ix q)" for q
  define picked where "picked = pick_ranked max_k (score * gap) label scored ([], {})"
  have seeds: "seeds = fst (fold (add_seed label) (map snd best) picked)"
    by (simp add: assms(3) pick_seeds_def assms(1) picked_def label_def [abs_def] Let_def)
  have ok: "seeds_ok label picked"
    unfolding picked_def by (rule pick_ranked_ok) (simp add: seeds_ok_def)
  have first: "prefix [p] (fst picked)"
    unfolding picked_def assms(1) using assms(2) by (rule pick_ranked_first)
  have bounds: "set (fst picked) \<subseteq> snd ` set scored" "length (fst picked) \<le> max_k"
    using pick_ranked_bounds [of max_k "score * gap" label scored "([], {})"]
    unfolding picked_def by simp_all
  note added = add_seeds [OF ok, of "map snd best"]
  have start: "prefix [p] seeds" using first added unfolding seeds by (meson prefix_order.trans)
  have count: "length seeds \<le> max_k + length best" using added bounds(2) unfolding seeds by simp
  have source: "set seeds \<subseteq> snd ` set scored \<union> snd ` set best"
  proof -
    have "set seeds \<subseteq> set (fst picked) \<union> set (map snd best)" using added unfolding seeds by simp
    then show ?thesis using bounds(1) unfolding set_map by blast
  qed
  have ok': "seeds_ok label (fold (add_seed label) (map snd best) picked)"
    and covered: "label ` set (map snd best) \<subseteq> snd (fold (add_seed label) (map snd best) picked)"
    using added by blast+
  have labels: "distinct (map label seeds)" "\<forall>q \<in> snd ` set best. label q \<in> label ` set seeds"
    using ok' covered unfolding seeds seeds_ok_def set_map by blast+
  show ?thesis
    using start count source labels unfolding label_def [abs_def] by (intro conjI)
qed

lemma pick_seeds_cover_terms_witness:
  "[(2, 0), (1, 1)] = (2::real, 0::nat) # [(1, 1)] \<and> (0::nat) < 3
   \<and> prefix [0] (pick_seeds plain_unicode [(2, 0), (1, 1)] 3 (1 / 5) (Some (new_index sample_graph))
                   (Some [(''build'', 1)]))"
proof -
  have limit: "(0::nat) < 3" by simp
  show ?thesis
    using pick_seeds_cover_terms [OF refl limit refl, where score = 2 and p = 0
        and rest = "[(1, 1)]" and u = plain_unicode and gap = "1 / 5"
        and ix = "new_index sample_graph" and best = "[(''build'', 1)]"] limit
    by blast
qed

section \<open>Context filters\<close>

definition context_hints :: "(string \<times> string list) list" where
  "context_hints =
    [(''call'', [''call'', ''calls'', ''called'', ''invoke'', ''invokes'', ''invoked'']),
     (''import'', [''import'', ''imports'', ''imported'', ''module'', ''modules'']),
     (''field'', [''field'', ''fields'', ''member'', ''members'', ''property'', ''properties'']),
     (''parameter_type'', [''parameter'', ''parameters'', ''param'', ''params'', ''argument'', ''arguments'']),
     (''return_type'', [''return'', ''returns'', ''returned'']),
     (''generic_arg'', [''generic'', ''generics'', ''template'', ''templates''])]"

definition normalize_context :: "unicode \<Rightarrow> string \<Rightarrow> string" where
  "normalize_context u s =
     (let n = trim (norm_text u s)
      in if n \<in> set [''param'', ''params'', ''parameter'', ''parameters'', ''argument'', ''arguments'',
                     ''arg'', ''args''] then ''parameter_type''
         else if n \<in> set [''return'', ''returns'', ''returned''] then ''return_type''
         else if n \<in> set [''generic'', ''generics'', ''template'', ''templates''] then ''generic_arg''
         else if n \<in> set [''annotation'', ''annotations'', ''decorator'', ''decorators''] then ''attribute''
         else if n \<in> set [''calls'', ''called'', ''invoke'', ''invocation''] then ''call''
         else if n \<in> set [''fields'', ''property'', ''properties'', ''member'', ''members''] then ''field''
         else if n \<in> set [''imports'', ''imported'', ''module'', ''modules''] then ''import''
         else if n \<in> set [''exports'', ''exported''] then ''export''
         else n)"

definition normalize_context_filters :: "unicode \<Rightarrow> string list \<Rightarrow> string list" where
  "normalize_context_filters u filters =
     retain_first (\<lambda>f. f) {} (filter (\<lambda>f. f \<noteq> []) (map (normalize_context u) filters))"

definition resolve_context_filters :: "unicode \<Rightarrow> string \<Rightarrow> string list \<Rightarrow> string list \<times> string option" where
  "resolve_context_filters u question explicit =
     (let normalized = normalize_context_filters u explicit
      in if normalized \<noteq> [] then (normalized, Some ''explicit'')
         else
           let words = set (search_tokens u question);
               inferred = map fst (filter (\<lambda>(context, hints). \<exists>h \<in> set hints. h \<in> words) context_hints)
           in (inferred, if inferred \<noteq> [] then Some ''heuristic'' else None))"

definition infer_context_filters :: "unicode \<Rightarrow> string \<Rightarrow> string list" where
  "infer_context_filters u question = fst (resolve_context_filters u question [])"

definition context_matches :: "unicode \<Rightarrow> edge \<Rightarrow> string \<Rightarrow> bool" where
  "context_matches u e raw =
     (let relation = lowercase (e_relation e);
          context = map_option (normalize_context u) (get_str (e_extra e) ''context'');
          f = normalize_context u raw
      in if context = Some f then True
         else if f \<in> set [''call'', ''calls'', ''call_flow'', ''call-flow'']
         then relation \<in> set [''calls'', ''indirect_call'']
         else if f \<in> set [''import'', ''imports'']
         then relation \<in> set [''imports'', ''imports_from'', ''re_exports'']
         else if f \<in> set [''type'', ''types'']
         then relation \<in> set [''references'', ''inherits'', ''implements'', ''type_ref'']
         else if f \<in> set [''structure'', ''contain'', ''contains'']
         then relation \<in> set [''contains'', ''method'', ''case_of'']
         else f \<noteq> [] \<and> contains relation f)"

definition filter_graph_by_context :: "unicode \<Rightarrow> graph \<Rightarrow> string list \<Rightarrow> graph" where
  "filter_graph_by_context u g filters =
     (if filters = [] then g
      else g\<lparr>g_links := filter (\<lambda>e. \<exists>f \<in> set filters. context_matches u e f) (g_links g)\<rparr>)"

section \<open>Communities and hubs\<close>

definition communities_from_graph :: "graph \<Rightarrow> (int, string list) btree" where
  "communities_from_graph g =
     fold (\<lambda>n m. case n_community n of
             None \<Rightarrow> m
           | Some c \<Rightarrow> bt_update c [] (\<lambda>ids. ids @ [n_id n]) m) (g_nodes g) []"

text \<open>The header of a community: its number, and its name when it has one of its own.\<close>

definition community_header :: "int \<Rightarrow> string option \<Rightarrow> string \<times> string option" where
  "community_header c name =
     (let base = ''Community '' @ show_int c
      in case name of
           None \<Rightarrow> (base, None)
         | Some n \<Rightarrow> (let clean = sanitize_label n
                      in if clean \<noteq> [] \<and> clean \<noteq> base then (base, Some clean) else (base, None)))"

definition noise_labels :: "string list" where
  "noise_labels =
    [''str'', ''int'', ''float'', ''bool'', ''object'', ''Path'', ''Any'', ''Optional'', ''List'',
     ''Dict'', ''Set'', ''Tuple'', ''Union'', ''Foundation'', ''SwiftUI'', ''String'', ''Int'', ''Data'']"

definition god_candidate :: "node \<Rightarrow> bool" where
  "god_candidate n \<longleftrightarrow>
     n_file_type n \<noteq> ''concept'' \<and> n_label n \<notin> set noise_labels
     \<and> n_label n \<noteq> last (split_on (CHR ''/'') (n_source_file n))
     \<and> \<not> (starts_with (n_label n) ''.'' \<and> ends_with (n_label n) ''()'')"

definition god_nodes :: "graph \<Rightarrow> nat \<Rightarrow> (string \<times> string \<times> nat) list" where
  "god_nodes g top_n =
     (let ix = new_index g;
          ranked = map (\<lambda>(p, n). (n_id n, n_label n, degree ix p))
                     (filter (\<lambda>(p, n). god_candidate n) (zip [0..<length (g_nodes g)] (g_nodes g)))
      in take top_n (sort_key (\<lambda>(i, label, d). (- int d, i)) ranked))"

end
