(* ===== verification/Search.thy ===== *)
theory Search
  imports Prelude
begin

text \<open>
  Breadth-first search in rounds, as several components run it: the interface of one round, and what
  the iteration of a round computes. A node is within \<open>k\<close> steps when a path of \<open>k\<close> steps leads to it
  from a start; the nodes within \<open>d\<close> steps or fewer are the ball of radius \<open>d\<close>.
\<close>

inductive hops :: "('a \<Rightarrow> 'a \<Rightarrow> bool) \<Rightarrow> 'a set \<Rightarrow> nat \<Rightarrow> 'a \<Rightarrow> bool"
  for step :: "'a \<Rightarrow> 'a \<Rightarrow> bool" and start :: "'a set" where
  hops_start: "p \<in> start \<Longrightarrow> hops step start 0 p"
| hops_step: "hops step start k p \<Longrightarrow> step p q \<Longrightarrow> hops step start (Suc k) q"

inductive_simps hops_0 [simp]: "hops step start 0 p"
inductive_simps hops_Suc: "hops step start (Suc k) q"

definition ball :: "('a \<Rightarrow> 'a \<Rightarrow> bool) \<Rightarrow> 'a set \<Rightarrow> nat \<Rightarrow> 'a set" where
  "ball step start d = {p. \<exists>k \<le> d. hops step start k p}"

lemma ball_0 [simp]: "ball step start 0 = start"
  by (auto simp: ball_def)

lemma ball_Suc: "ball step start (Suc d) = ball step start d \<union> {q. \<exists>p \<in> ball step start d. step p q}"
proof -
  have "q \<in> ball step start (Suc d) \<longleftrightarrow> q \<in> ball step start d \<or> (\<exists>p \<in> ball step start d. step p q)" for q
  proof
    assume "q \<in> ball step start (Suc d)"
    then obtain k where k: "k \<le> Suc d" "hops step start k q" by (auto simp: ball_def)
    show "q \<in> ball step start d \<or> (\<exists>p \<in> ball step start d. step p q)"
    proof (cases k)
      case 0
      then show ?thesis using k by (auto simp: ball_def)
    next
      case (Suc m)
      then obtain p where "hops step start m p" "step p q" using k by (auto simp: hops_Suc)
      then show ?thesis using k Suc by (auto simp: ball_def)
    qed
  next
    assume "q \<in> ball step start d \<or> (\<exists>p \<in> ball step start d. step p q)"
    then show "q \<in> ball step start (Suc d)"
      unfolding ball_def by (auto intro: le_SucI hops_step)
  qed
  then show ?thesis by blast
qed

lemma ball_mono: "d \<le> e \<Longrightarrow> ball step start d \<subseteq> ball step start e"
  by (auto simp: ball_def intro: le_trans)

lemma ball_closed:
  assumes "start \<subseteq> N" "\<And>p q. p \<in> N \<Longrightarrow> step p q \<Longrightarrow> q \<in> N"
  shows "ball step start d \<subseteq> N"
  using assms by (induction d) (auto simp: ball_Suc)

text \<open>
  One round takes the nodes visited and those of the last level, and gives the next level: the
  unvisited successors of the last level.
\<close>

locale search_round =
  fixes round_of :: "'a set \<Rightarrow> 'a set \<Rightarrow> 'a set" and step :: "'a \<Rightarrow> 'a \<Rightarrow> bool" and nodes :: "'a set"
  assumes round_exact: "F \<subseteq> nodes \<Longrightarrow> round_of V F = {q. q \<notin> V \<and> (\<exists>p \<in> F. step p q)}"
    and step_closed: "p \<in> nodes \<Longrightarrow> step p q \<Longrightarrow> q \<in> nodes"
begin

fun search :: "nat \<Rightarrow> 'a set \<Rightarrow> 'a set \<Rightarrow> 'a set \<times> 'a set" where
  "search 0 V F = (V, F)"
| "search (Suc d) V F = (let next = round_of V F in search d (V \<union> next) next)"

text \<open>The last level is what distinguishes the last two balls.\<close>

definition level_ok :: "'a set \<Rightarrow> nat \<Rightarrow> 'a set \<Rightarrow> 'a set \<Rightarrow> bool" where
  "level_ok start k V F \<longleftrightarrow> V = ball step start k \<and> F \<subseteq> V
     \<and> (\<forall>p \<in> V - F. \<forall>q. step p q \<longrightarrow> q \<in> V)"

lemma level_start: "level_ok start 0 start start"
  by (simp add: level_ok_def)

lemma level_round:
  assumes "start \<subseteq> nodes" "level_ok start k V F"
  shows "level_ok start (Suc k) (V \<union> round_of V F) (round_of V F)"
proof -
  have V: "V = ball step start k" "F \<subseteq> V" and old: "\<forall>p \<in> V - F. \<forall>q. step p q \<longrightarrow> q \<in> V"
    using assms(2) by (auto simp: level_ok_def)
  have "V \<subseteq> nodes" unfolding V(1) using assms(1) step_closed by (rule ball_closed)
  then have "F \<subseteq> nodes" using V(2) by (rule order_trans [rotated])
  then have round: "round_of V F = {q. q \<notin> V \<and> (\<exists>p \<in> F. step p q)}" by (rule round_exact)
  have "ball step start (Suc k) = V \<union> {q. \<exists>p \<in> V. step p q}" by (simp add: ball_Suc V(1))
  also have "\<dots> = V \<union> round_of V F" unfolding round using V(2) old by blast
  finally show ?thesis unfolding level_ok_def round using V(2) old by blast
qed

lemma search_ball:
  assumes "start \<subseteq> nodes" "level_ok start k V F"
  shows "fst (search d V F) = ball step start (k + d)"
  using assms(2)
proof (induction d arbitrary: k V F)
  case 0
  then show ?case by (simp add: level_ok_def)
next
  case (Suc d)
  then have "level_ok start (Suc k) (V \<union> round_of V F) (round_of V F)"
    using level_round [OF assms(1)] by blast
  then show ?case using Suc.IH [of "Suc k"] by (simp add: Let_def)
qed

lemma search_from_start: "start \<subseteq> nodes \<Longrightarrow> fst (search d start start) = ball step start d"
  using search_ball [OF _ level_start] by simp

end

section \<open>Search with a queue\<close>

text \<open>
  The other form: a queue of nodes and a map of the distances found. The interface is the list of
  successors of a node. A known node that has left the queue has all its successors known; the queue is
  ordered by distance, and no distance is more than one above the first.
\<close>

definition push_found :: "nat \<Rightarrow> 'a \<Rightarrow> ('a \<rightharpoonup> nat) \<times> 'a list \<Rightarrow> ('a \<rightharpoonup> nat) \<times> 'a list" where
  "push_found d q st = (if fst st q = None then ((fst st)(q \<mapsto> d), snd st @ [q]) else st)"

lemma push_found_all:
  assumes "fold (push_found d) qs (D, Q) = (D', Q')"
  shows "D' p = (case D p of Some j \<Rightarrow> Some j | None \<Rightarrow> if p \<in> set qs then Some d else None)"
    and "\<exists>new. Q' = Q @ new \<and> set new = set qs - dom D \<and> distinct new"
  using assms
proof (induction qs arbitrary: D Q)
  case (Cons q qs)
  {
    case 1
    show ?case
      using Cons.IH(1) 1 by (cases "D q = None") (auto simp: push_found_def split: option.splits if_splits)
  next
    case 2
    show ?case
    proof (cases "D q = None")
      case True
      then have "push_found d q (D, Q) = (D(q \<mapsto> d), Q @ [q])" by (simp add: push_found_def)
      then have "fold (push_found d) qs (D(q \<mapsto> d), Q @ [q]) = (D', Q')" using 2 by simp
      from Cons.IH(2) [OF this] obtain new where
        "Q' = (Q @ [q]) @ new" "set new = set qs - dom (D(q \<mapsto> d))" "distinct new" by blast
      then show ?thesis using True by (intro exI [of _ "q # new"]) auto
    next
      case False
      then obtain new where "Q' = Q @ new" "set new = set qs - dom D" "distinct new"
        using Cons.IH(2) [of D Q] 2 by (auto simp: push_found_def)
      then show ?thesis using False by (intro exI [of _ new]) auto
    qed
  }
qed (auto split: option.splits)

locale queue_search =
  fixes succs :: "'a \<Rightarrow> 'a list" and start :: "'a set"
begin

abbreviation succ :: "'a \<Rightarrow> 'a \<Rightarrow> bool" where
  "succ p q \<equiv> q \<in> set (succs p)"

definition queue_ok :: "('a \<rightharpoonup> nat) \<Rightarrow> 'a list \<Rightarrow> nat \<Rightarrow> bool" where
  "queue_ok D Q k \<longleftrightarrow>
     (\<forall>p j. D p = Some j \<longrightarrow> hops succ start j p \<and> j \<le> Suc k)
     \<and> (\<forall>p \<in> start. D p = Some 0)
     \<and> set Q \<subseteq> dom D \<and> sorted (map (\<lambda>p. the (D p)) Q) \<and> (\<forall>p \<in> set Q. k \<le> the (D p))
     \<and> (\<forall>p j. D p = Some j \<longrightarrow> p \<notin> set Q \<longrightarrow> (\<forall>q. succ p q \<longrightarrow> (\<exists>i \<le> Suc j. D q = Some i)))"

lemma queue_start:
  assumes "set Q = start" "\<And>p. D p = (if p \<in> start then Some 0 else None)"
  shows "queue_ok D Q 0"
  unfolding queue_ok_def using assms by (auto simp: sorted_iff_nth_mono split: if_splits)

lemma queue_succ:
  "queue_ok D Q k \<Longrightarrow> D p = Some j \<Longrightarrow> p \<notin> set Q \<Longrightarrow> succ p q \<Longrightarrow> \<exists>i \<le> Suc j. D q = Some i"
  unfolding queue_ok_def by blast

lemma queue_step:
  assumes ok: "queue_ok D (p # Q) k"
    and push: "fold (push_found (Suc (the (D p)))) (succs p) (D, Q) = (D', Q')"
  shows "queue_ok D' Q' (the (D p))"
proof -
  obtain j where j: "D p = Some j" "k \<le> j" "j \<le> Suc k" using ok by (auto simp: queue_ok_def)
  have D': "D' q = (case D q of Some i \<Rightarrow> Some i | None \<Rightarrow> if succ p q then Some (Suc j) else None)" for q
    using push_found_all(1) [OF push] j(1) by (simp split: option.split)
  obtain new where new: "Q' = Q @ new" "set new = set (succs p) - dom D"
    using push_found_all(2) [OF push] by blast
  have keep: "D' q = Some i" if "D q = Some i" for q i using that D' by simp
  have fresh: "D' q = Some (Suc j)" if "q \<in> set new" for q using that D' new(2) by (auto split: option.split)
  have bound: "i \<le> Suc j" if "D q = Some i" for q i
    using that ok j by (fastforce simp: queue_ok_def)
  have known: "set Q \<subseteq> dom D" using ok by (simp add: queue_ok_def)
  have "hops succ start i q \<and> i \<le> Suc j" if "D' q = Some i" for q i
  proof (cases "D q")
    case None
    then have "succ p q" "i = Suc j" using that D' by (auto split: if_splits)
    moreover have "hops succ start j p" using ok j(1) by (auto simp: queue_ok_def)
    ultimately show ?thesis by (auto intro: hops_step)
  next
    case (Some i')
    then have "D q = Some i" using that D' by simp
    then show ?thesis using ok bound by (auto simp: queue_ok_def)
  qed
  moreover have "\<forall>q \<in> start. D' q = Some 0" using ok keep by (auto simp: queue_ok_def)
  moreover have "set Q' \<subseteq> dom D'" using known new fresh keep by fastforce
  moreover have "sorted (map (\<lambda>q. the (D' q)) Q')" "\<forall>q \<in> set Q'. j \<le> the (D' q)"
  proof -
    have old: "the (D' q) = the (D q)" if "q \<in> set Q" for q using that known keep by fastforce
    have "sorted (map (\<lambda>q. the (D q)) (p # Q))" using ok by (simp add: queue_ok_def)
    then have low: "\<forall>q \<in> set Q. j \<le> the (D q)" and "sorted (map (\<lambda>q. the (D q)) Q)"
      using j(1) by auto
    moreover have "map (\<lambda>q. the (D' q)) Q' = map (\<lambda>q. the (D q)) Q @ map (\<lambda>_. Suc j) new"
      using new(1) old fresh by simp
    moreover have "\<forall>q \<in> set Q. the (D q) \<le> Suc j" using bound known by fastforce
    ultimately show "sorted (map (\<lambda>q. the (D' q)) Q')"
      by (auto simp: sorted_append map_replicate_const)
    show "\<forall>q \<in> set Q'. j \<le> the (D' q)" using new(1) old low fresh by auto
  qed
  moreover have "\<exists>i' \<le> Suc i. D' r = Some i'" if entry: "D' q = Some i" "q \<notin> set Q'" "succ q r" for q i r
  proof (cases "q = p")
    case True
    then have "i = j" using entry(1) keep [OF j(1)] by simp
    then show ?thesis
      using entry(3) True D' bound by (cases "D r") (auto split: if_splits)
  next
    case False
    have "q \<notin> set new" "q \<notin> set Q" using entry(2) new(1) by auto
    then have "D q = Some i" using entry(1) D' new(2) by (cases "D q") (auto split: if_splits)
    then obtain i' where "i' \<le> Suc i" "D r = Some i'"
      using queue_succ [OF ok _ _ entry(3)] False \<open>q \<notin> set Q\<close> by auto
    then show ?thesis using keep by blast
  qed
  ultimately show ?thesis using j(1) unfolding queue_ok_def by auto
qed

lemma queue_head: "queue_ok D (p # Q) k \<Longrightarrow> queue_ok D (p # Q) (the (D p))"
  unfolding queue_ok_def by (auto intro: order_trans)

text \<open>Everything within the distance of the queue is known, and what is known is known exactly.\<close>

lemma queue_known:
  assumes "queue_ok D Q k" "hops succ start j q" "j \<le> k \<or> Q = []"
  shows "\<exists>i \<le> j. D q = Some i"
  using assms(2,3)
proof (induction rule: hops.induct)
  case (hops_start p)
  then show ?case using assms(1) by (auto simp: queue_ok_def)
next
  case (hops_step j p q)
  then obtain i where i: "i \<le> j" "D p = Some i" by auto
  have "p \<notin> set Q"
  proof
    assume p: "p \<in> set Q"
    then have "k \<le> i" using assms(1) i(2) by (auto simp: queue_ok_def)
    then show False using hops_step.prems i(1) p by auto
  qed
  then obtain i' where "i' \<le> Suc i" "D q = Some i'"
    using queue_succ [OF assms(1) i(2)] hops_step.hyps(2) by blast
  then show ?case using i(1) by (auto intro: order_trans)
qed

lemma queue_exact:
  assumes "queue_ok D Q k" "D q = Some i"
  shows "hops succ start i q" "hops succ start j q \<Longrightarrow> i \<le> j"
proof -
  show "hops succ start i q" using assms by (auto simp: queue_ok_def)
  assume hop: "hops succ start j q"
  show "i \<le> j"
  proof (cases "j \<le> k")
    case True
    then show ?thesis using queue_known [OF assms(1) hop] assms(2) by auto
  next
    case False
    moreover have "i \<le> Suc k" using assms by (auto simp: queue_ok_def)
    ultimately show ?thesis by simp
  qed
qed

lemma queue_within:
  assumes "queue_ok D Q k" "d \<le> k \<or> Q = []"
  shows "D q = Some d \<longleftrightarrow> hops succ start d q \<and> (\<forall>j. hops succ start j q \<longrightarrow> d \<le> j)"
proof
  assume "D q = Some d"
  then show "hops succ start d q \<and> (\<forall>j. hops succ start j q \<longrightarrow> d \<le> j)"
    using queue_exact [OF assms(1)] by blast
next
  assume least: "hops succ start d q \<and> (\<forall>j. hops succ start j q \<longrightarrow> d \<le> j)"
  then obtain i where i: "i \<le> d" "D q = Some i" using queue_known [OF assms(1) _ assms(2)] by blast
  then have "d \<le> i" using least queue_exact(1) [OF assms(1)] by blast
  then show "D q = Some d" using i by simp
qed

lemma queue_done:
  "queue_ok D [] k \<Longrightarrow> D q = Some i \<longleftrightarrow> hops succ start i q \<and> (\<forall>j. hops succ start j q \<longrightarrow> i \<le> j)"
  using queue_within by blast

end

end
