(* ===== verification/QueryWalk.thy ===== *)
theory QueryWalk
  imports QueryFind Search
begin

text \<open>
  The bounded traversals of \<open>graphoxide-query/src/query.rs\<close>: breadth-first and depth-first search from
  seeds, not expanded at hubs, and the edges among the nodes visited. A \<open>HashSet\<close> of positions is a
  set; where the code sorts it first, the model iterates over the sorted list. A position outside the
  graph makes the code panic, which is \<open>None\<close> for the depth-first search; the properties start from
  positions of the graph.
\<close>

section \<open>Hubs and induced edges\<close>

definition hub_threshold :: "graph_index \<Rightarrow> nat" where
  "hub_threshold ix =
     (let degrees = sort (map (degree ix) [0..<node_count ix]); k = length degrees * 99 div 100
      in max (if k < length degrees then degrees ! k else 0) 50)"

definition walk_edge_key :: "graph_index \<Rightarrow> nat \<Rightarrow> nat \<Rightarrow> nat \<times> nat" where
  "walk_edge_key ix s t = (if g_directed (gi_graph ix) \<or> s \<le> t then (s, t) else (t, s))"

definition induced_edge ::
  "graph_index \<Rightarrow> nat set \<Rightarrow> edge \<Rightarrow> (nat \<times> nat) list \<times> (nat \<times> nat) set
   \<Rightarrow> (nat \<times> nat) list \<times> (nat \<times> nat) set" where
  "induced_edge ix visited e st =
     (case edge_positions (gi_positions ix) e of
        None \<Rightarrow> st
      | Some (s, t) \<Rightarrow>
          if s = t \<or> s \<notin> visited \<or> t \<notin> visited \<or> walk_edge_key ix s t \<in> snd st then st
          else (fst st @ [(s, t)], insert (walk_edge_key ix s t) (snd st)))"

definition complete_induced_edges ::
  "graph_index \<Rightarrow> nat set \<Rightarrow> (nat \<times> nat) list \<Rightarrow> (nat \<times> nat) list" where
  "complete_induced_edges ix visited edges =
     fst (fold (induced_edge ix visited) (g_links (gi_graph ix))
            (edges, (\<lambda>(s, t). walk_edge_key ix s t) ` set edges))"

section \<open>Breadth first\<close>

definition closed_hub :: "graph_index \<Rightarrow> nat set \<Rightarrow> nat \<Rightarrow> bool" where
  "closed_hub ix seeds p \<longleftrightarrow> p \<notin> seeds \<and> degree ix p \<ge> hub_threshold ix"

definition bfs_edge ::
  "graph_index \<Rightarrow> nat set \<Rightarrow> nat \<Rightarrow> nat \<Rightarrow> nat set \<times> (nat \<times> nat) list \<Rightarrow> nat set \<times> (nat \<times> nat) list" where
  "bfs_edge ix visited current k st =
     (case other ix (index_edge_at ix k) current of
        None \<Rightarrow> st
      | Some q \<Rightarrow> if q \<notin> visited \<and> q \<notin> fst st
                  then (insert q (fst st), snd st @ [(current, q)]) else st)"

definition bfs_node ::
  "graph_index \<Rightarrow> nat set \<Rightarrow> nat set \<Rightarrow> nat \<Rightarrow> nat set \<times> (nat \<times> nat) list
   \<Rightarrow> nat set \<times> (nat \<times> nat) list" where
  "bfs_node ix seeds visited current st =
     (if closed_hub ix seeds current then st
      else fold (bfs_edge ix visited current) (adjacent ix current) st)"

definition bfs_round ::
  "graph_index \<Rightarrow> nat set \<Rightarrow> nat set \<Rightarrow> nat set \<Rightarrow> (nat \<times> nat) list \<Rightarrow> nat set \<times> (nat \<times> nat) list" where
  "bfs_round ix seeds visited frontier edges =
     fold (bfs_node ix seeds visited) (sorted_list_of_set frontier) ({}, edges)"

fun bfs_rounds ::
  "nat \<Rightarrow> graph_index \<Rightarrow> nat set \<Rightarrow> nat set \<Rightarrow> nat set \<Rightarrow> (nat \<times> nat) list \<Rightarrow> nat set \<times> (nat \<times> nat) list" where
  "bfs_rounds 0 ix seeds visited frontier edges = (visited, edges)"
| "bfs_rounds (Suc d) ix seeds visited frontier edges =
     (let (level, edges) = bfs_round ix seeds visited frontier edges
      in bfs_rounds d ix seeds (visited \<union> level) level edges)"

definition bfs :: "graph_index \<Rightarrow> nat list \<Rightarrow> nat \<Rightarrow> nat set \<times> (nat \<times> nat) list" where
  "bfs ix start_nodes depth =
     (let seeds = set start_nodes;
          (visited, edges) = bfs_rounds depth ix seeds seeds seeds []
      in (visited, complete_induced_edges ix visited edges))"

section \<open>Depth first\<close>

lemma unvisited_shrinks:
  assumes "current \<notin> visited" "current < (n :: nat)"
  shows "card ({..<n} - insert current visited) < card ({..<n} - visited)"
proof (rule psubset_card_mono)
  have "current \<in> {..<n} - visited" using assms by simp
  then show "{..<n} - insert current visited \<subset> {..<n} - visited" by blast
qed simp

text \<open>The head of the list is the top of the stack.\<close>

function dfs_loop ::
  "graph_index \<Rightarrow> nat set \<Rightarrow> nat \<Rightarrow> (nat \<times> nat) list \<Rightarrow> nat set \<Rightarrow> (nat \<times> nat) list
   \<Rightarrow> (nat set \<times> (nat \<times> nat) list) option" where
  "dfs_loop ix seeds depth [] visited edges = Some (visited, edges)"
| "dfs_loop ix seeds depth ((current, level) # stack) visited edges =
     (if current \<in> visited \<or> level > depth then dfs_loop ix seeds depth stack visited edges
      else if current \<ge> node_count ix then None
      else if closed_hub ix seeds current
      then dfs_loop ix seeds depth stack (insert current visited) edges
      else
        let next = filter (\<lambda>q. q \<notin> insert current visited)
                     (List.map_filter (\<lambda>k. other ix (index_edge_at ix k) current) (adjacent ix current))
        in dfs_loop ix seeds depth (map (\<lambda>q. (q, level + 1)) next @ stack) (insert current visited)
             (edges @ map (\<lambda>q. (current, q)) next))"
  by pat_completeness auto
termination
proof (relation "measures [\<lambda>(ix, seeds, depth, stack, visited, edges). card ({..<node_count ix} - visited),
    \<lambda>(ix, seeds, depth, stack, visited, edges). length stack]", goal_cases)
  case (3 ix seeds depth current level stack visited edges)
  then have "card ({..<node_count ix} - insert current visited) < card ({..<node_count ix} - visited)"
    by (intro unvisited_shrinks) simp_all
  then show ?case by simp
next
  case (4 ix seeds depth current level stack visited edges x)
  then have "card ({..<node_count ix} - insert current visited) < card ({..<node_count ix} - visited)"
    by (intro unvisited_shrinks) simp_all
  then show ?case by simp
qed simp_all

definition dfs :: "graph_index \<Rightarrow> nat list \<Rightarrow> nat \<Rightarrow> (nat set \<times> (nat \<times> nat) list) option" where
  "dfs ix start_nodes depth =
     map_option (\<lambda>(visited, edges). (visited, complete_induced_edges ix visited edges))
       (dfs_loop ix (set start_nodes) depth (map (\<lambda>p. (p, 0)) start_nodes) {} [])"

section \<open>What the traversals reach\<close>

text \<open>A step of a traversal: along an edge, in either direction, from a node that is not a closed
  hub.\<close>

definition walk_step :: "graph_index \<Rightarrow> nat set \<Rightarrow> nat \<Rightarrow> nat \<Rightarrow> bool" where
  "walk_step ix seeds p q \<longleftrightarrow> \<not> closed_hub ix seeds p \<and> neighbours ix p q"

lemma bfs_edges_found:
  "fst (fold (bfs_edge ix V p) ks st)
     = fst st \<union> {q. q \<notin> V \<and> (\<exists>k \<in> set ks. other ix (index_edge_at ix k) p = Some q)}"
proof (induction ks arbitrary: st)
  case (Cons k ks)
  have "fst (bfs_edge ix V p k st)
      = fst st \<union> {q. q \<notin> V \<and> other ix (index_edge_at ix k) p = Some q}"
    by (auto simp: bfs_edge_def split: option.split)
  then show ?case using Cons.IH [of "bfs_edge ix V p k st"] by auto
qed simp

lemma bfs_node_found:
  assumes "index_ok ix" "p < node_count ix"
  shows "fst (bfs_node ix seeds V p st) = fst st \<union> {q. q \<notin> V \<and> walk_step ix seeds p q}"
  using adjacent_others [OF assms]
  by (auto simp: bfs_node_def bfs_edges_found walk_step_def)

lemma bfs_nodes_found:
  assumes "index_ok ix" "\<forall>p \<in> set ps. p < node_count ix"
  shows "fst (fold (bfs_node ix seeds V) ps st)
    = fst st \<union> {q. q \<notin> V \<and> (\<exists>p \<in> set ps. walk_step ix seeds p q)}"
  using assms(2)
proof (induction ps arbitrary: st)
  case (Cons p ps)
  then have "fst (bfs_node ix seeds V p st) = fst st \<union> {q. q \<notin> V \<and> walk_step ix seeds p q}"
    using bfs_node_found assms(1) by simp
  then show ?case using Cons.IH [of "bfs_node ix seeds V p st"] Cons.prems by auto
qed simp

lemma bfs_round_found:
  assumes "index_ok ix" "F \<subseteq> {..<node_count ix}"
  shows "fst (bfs_round ix seeds V F edges) = {q. q \<notin> V \<and> (\<exists>p \<in> F. walk_step ix seeds p q)}"
proof -
  have "finite F" using assms(2) finite_subset by blast
  then show ?thesis
    using bfs_nodes_found [OF assms(1), of "sorted_list_of_set F" seeds V "({}, edges)"] assms(2)
    by (auto simp: bfs_round_def)
qed

interpretation walk: search_round
  "\<lambda>V F. fst (bfs_round (new_with_cache g c) seeds V F [])" "walk_step (new_with_cache g c) seeds"
  "{..<length (g_nodes g)}" for g c seeds
proof
  show "F \<subseteq> {..<length (g_nodes g)} \<Longrightarrow> fst (bfs_round (new_with_cache g c) seeds V F [])
      = {q. q \<notin> V \<and> (\<exists>p \<in> F. walk_step (new_with_cache g c) seeds p q)}" for F V
    using bfs_round_found [OF new_with_cache_ok [of g c]] by simp
  show "p \<in> {..<length (g_nodes g)} \<Longrightarrow> walk_step (new_with_cache g c) seeds p q
      \<Longrightarrow> q \<in> {..<length (g_nodes g)}" for p q
    using neighbours_bound [OF new_with_cache_ok [of g c]] by (auto simp: walk_step_def)
qed

lemma bfs_rounds_search:
  assumes "F \<subseteq> {..<length (g_nodes g)}"
  shows "fst (bfs_rounds d (new_with_cache g c) seeds V F edges) = fst (walk.search g c seeds d V F)"
  using assms
proof (induction d arbitrary: V F edges)
  case (Suc d)
  let ?ix = "new_with_cache g c"
  have found: "fst (bfs_round ?ix seeds V F e)
      = {q. q \<notin> V \<and> (\<exists>p \<in> F. walk_step ?ix seeds p q)}" for e
    using bfs_round_found [OF new_with_cache_ok [of g c]] Suc.prems by simp
  obtain level edges' where round: "bfs_round ?ix seeds V F edges = (level, edges')" by fastforce
  have level: "level = fst (bfs_round ?ix seeds V F [])" using found [of edges] found [of "[]"] round by simp
  have "level \<subseteq> {..<length (g_nodes g)}"
    using found [of edges] round walk.step_closed Suc.prems by fastforce
  then show ?case using Suc.IH [of level "V \<union> level" edges'] round level by (simp add: Let_def)
qed simp

lemma fold_inv:
  assumes "I s" "\<And>x s. x \<in> set xs \<Longrightarrow> I s \<Longrightarrow> I (f x s)"
  shows "I (fold f xs s)"
  using assms by (induction xs arbitrary: s) auto

text \<open>Every pair recorded by a search joins a node to a neighbour.\<close>

definition pairs_ok :: "graph_index \<Rightarrow> (nat \<times> nat) list \<Rightarrow> bool" where
  "pairs_ok ix edges \<longleftrightarrow> (\<forall>(p, q) \<in> set edges. neighbours ix p q)"

lemma adjacent_other_neighbours:
  assumes "index_ok ix" "p < node_count ix" "k \<in> set (adjacent ix p)"
    "other ix (index_edge_at ix k) p = Some q"
  shows "neighbours ix p q"
  using adjacent_others [OF assms(1,2)] assms(3,4) by blast

lemma edge_neighbours:
  "e \<in> set (g_links (gi_graph ix)) \<Longrightarrow> edge_positions (gi_positions ix) e = Some (s, t) \<Longrightarrow> neighbours ix s t"
  unfolding neighbours_def other_def by force

lemma induced_edge_cases:
  obtains (keep) "induced_edge ix visited e st = st"
      "\<And>s t. edge_positions (gi_positions ix) e = Some (s, t) \<Longrightarrow> s \<noteq> t \<Longrightarrow> s \<in> visited
         \<Longrightarrow> t \<in> visited \<Longrightarrow> walk_edge_key ix s t \<in> snd st"
  | (add) s t where "edge_positions (gi_positions ix) e = Some (s, t)" "s \<noteq> t" "s \<in> visited" "t \<in> visited"
      "induced_edge ix visited e st = (fst st @ [(s, t)], insert (walk_edge_key ix s t) (snd st))"
proof (cases "edge_positions (gi_positions ix) e")
  case None
  then show ?thesis by (intro keep) (simp_all add: induced_edge_def)
next
  case (Some pq)
  obtain a b where pq: "pq = (a, b)" by fastforce
  show ?thesis
  proof (cases "a = b \<or> a \<notin> visited \<or> b \<notin> visited \<or> walk_edge_key ix a b \<in> snd st")
    case True
    then show ?thesis using Some pq by (intro keep) (auto simp: induced_edge_def)
  next
    case False
    then show ?thesis using Some pq by (intro add [of a b]) (simp_all add: induced_edge_def)
  qed
qed

lemma induced_edges_mono:
  "set (fst st) \<subseteq> set (fst (fold (induced_edge ix visited) links st))
   \<and> snd st \<subseteq> snd (fold (induced_edge ix visited) links st)"
proof (induction links arbitrary: st)
  case (Cons e links)
  have "set (fst st) \<subseteq> set (fst (induced_edge ix visited e st)) \<and> snd st \<subseteq> snd (induced_edge ix visited e st)"
    by (cases rule: induced_edge_cases [of ix visited e st]) auto
  then show ?case using Cons.IH [of "induced_edge ix visited e st"] by (auto simp: subset_iff)
qed simp

lemma induced_edges_keys:
  "snd st = (\<lambda>(s, t). walk_edge_key ix s t) ` set (fst st)
   \<Longrightarrow> snd (fold (induced_edge ix visited) links st)
     = (\<lambda>(s, t). walk_edge_key ix s t) ` set (fst (fold (induced_edge ix visited) links st))"
proof (induction links arbitrary: st)
  case (Cons e links)
  have "snd (induced_edge ix visited e st)
      = (\<lambda>(s, t). walk_edge_key ix s t) ` set (fst (induced_edge ix visited e st))"
    using Cons.prems by (cases rule: induced_edge_cases [of ix visited e st]) simp_all
  then show ?case using Cons.IH by simp
qed simp

lemma induced_edges_sound:
  "(s, t) \<in> set (fst (fold (induced_edge ix visited) links st))
   \<Longrightarrow> (s, t) \<in> set (fst st) \<or> s \<noteq> t \<and> s \<in> visited \<and> t \<in> visited
       \<and> (\<exists>e \<in> set links. edge_positions (gi_positions ix) e = Some (s, t))"
proof (induction links arbitrary: st)
  case (Cons e links)
  then consider "(s, t) \<in> set (fst (induced_edge ix visited e st))"
    | "s \<noteq> t \<and> s \<in> visited \<and> t \<in> visited \<and> (\<exists>e \<in> set links. edge_positions (gi_positions ix) e = Some (s, t))"
    by fastforce
  then show ?case
  proof cases
    case 1
    then show ?thesis by (cases rule: induced_edge_cases [of ix visited e st]) auto
  next
    case 2
    then show ?thesis by auto
  qed
qed simp

lemma induced_edges_cover:
  "e \<in> set links \<Longrightarrow> edge_positions (gi_positions ix) e = Some (s, t) \<Longrightarrow> s \<noteq> t \<Longrightarrow> s \<in> visited
   \<Longrightarrow> t \<in> visited \<Longrightarrow> walk_edge_key ix s t \<in> snd (fold (induced_edge ix visited) links st)"
proof (induction links arbitrary: st)
  case (Cons e' links)
  show ?case
  proof (cases "e = e'")
    case True
    have "walk_edge_key ix s t \<in> snd (induced_edge ix visited e' st)"
      using Cons.prems True by (cases rule: induced_edge_cases [of ix visited e' st]) auto
    then show ?thesis using induced_edges_mono [of "induced_edge ix visited e' st" ix visited links] by auto
  next
    case False
    then show ?thesis using Cons by simp
  qed
qed simp

text \<open>The pairs listed with a set of visited nodes: each joins two neighbours, both visited, and
  every edge between two visited nodes is listed, in one direction at least in an undirected graph.\<close>

definition subgraph_edges_ok :: "graph_index \<Rightarrow> nat set \<Rightarrow> (nat \<times> nat) list \<Rightarrow> bool" where
  "subgraph_edges_ok ix visited edges \<longleftrightarrow>
     (\<forall>(p, q) \<in> set edges. p \<in> visited \<and> q \<in> visited \<and> neighbours ix p q)
     \<and> (\<forall>e \<in> set (g_links (gi_graph ix)). case edge_positions (gi_positions ix) e of
          None \<Rightarrow> True
        | Some (s, t) \<Rightarrow> s = t \<or> s \<notin> visited \<or> t \<notin> visited
            \<or> walk_edge_key ix s t \<in> (\<lambda>(s, t). walk_edge_key ix s t) ` set edges)"

text \<open>Of pairs whose second node may be left unvisited, as depth-first search lists them: all the same,
  but for that node.\<close>

definition walk_pairs_ok :: "graph_index \<Rightarrow> nat set \<Rightarrow> (nat \<times> nat) list \<Rightarrow> bool" where
  "walk_pairs_ok ix visited edges \<longleftrightarrow>
     (\<forall>(p, q) \<in> set edges. p \<in> visited \<and> neighbours ix p q)
     \<and> subgraph_edges_ok ix visited (filter (\<lambda>(p, q). q \<in> visited) edges)"

lemma complete_induced_edges_facts:
  shows "(p, q) \<in> set (complete_induced_edges ix visited edges) \<Longrightarrow>
      (p, q) \<in> set edges \<or> p \<in> visited \<and> q \<in> visited \<and> neighbours ix p q"
    and "e \<in> set (g_links (gi_graph ix)) \<Longrightarrow> edge_positions (gi_positions ix) e = Some (s, t) \<Longrightarrow> s \<noteq> t \<Longrightarrow>
      s \<in> visited \<Longrightarrow> t \<in> visited \<Longrightarrow>
      walk_edge_key ix s t \<in> (\<lambda>(s, t). walk_edge_key ix s t) ` set (complete_induced_edges ix visited edges)"
proof -
  define st where "st = fold (induced_edge ix visited) (g_links (gi_graph ix))
      (edges, (\<lambda>(s, t). walk_edge_key ix s t) ` set edges)"
  have pairs: "complete_induced_edges ix visited edges = fst st"
    by (simp add: complete_induced_edges_def st_def)
  have keys: "snd st = (\<lambda>(s, t). walk_edge_key ix s t) ` set (fst st)"
    unfolding st_def by (rule induced_edges_keys) simp
  show "(p, q) \<in> set edges \<or> p \<in> visited \<and> q \<in> visited \<and> neighbours ix p q"
    if "(p, q) \<in> set (complete_induced_edges ix visited edges)"
    using induced_edges_sound [OF that [unfolded pairs st_def]] edge_neighbours by fastforce
  show "walk_edge_key ix s t \<in> (\<lambda>(s, t). walk_edge_key ix s t) ` set (complete_induced_edges ix visited edges)"
    if "e \<in> set (g_links (gi_graph ix))" "edge_positions (gi_positions ix) e = Some (s, t)" "s \<noteq> t"
      "s \<in> visited" "t \<in> visited"
  proof -
    have "walk_edge_key ix s t \<in> snd st" unfolding st_def using that by (rule induced_edges_cover)
    then show ?thesis by (simp only: pairs keys)
  qed
qed


lemma complete_induced_pairs_ok:
  assumes pairs: "\<forall>(p, q) \<in> set edges. p \<in> visited \<and> neighbours ix p q"
  shows "walk_pairs_ok ix visited (complete_induced_edges ix visited edges)"
proof -
  define listed where "listed = complete_induced_edges ix visited edges"
  define kept where "kept = filter (\<lambda>(p, q). q \<in> visited) listed"
  have sound: "p \<in> visited \<and> neighbours ix p q" if "(p, q) \<in> set listed" for p q
    using complete_induced_edges_facts(1) [OF that [unfolded listed_def]] pairs by blast
  have "walk_edge_key ix s t \<in> (\<lambda>(s, t). walk_edge_key ix s t) ` set kept"
    if e: "e \<in> set (g_links (gi_graph ix))" "edge_positions (gi_positions ix) e = Some (s, t)" "s \<noteq> t"
      "s \<in> visited" "t \<in> visited" for e s t
  proof -
    obtain p q where pq: "(p, q) \<in> set listed" "walk_edge_key ix s t = walk_edge_key ix p q"
      using complete_induced_edges_facts(2) [OF e, of edges] by (auto simp: listed_def)
    then have "q = s \<or> q = t" by (auto simp: walk_edge_key_def min_def max_def split: if_splits)
    then have "(p, q) \<in> set kept" using pq(1) e(4,5) by (auto simp: kept_def)
    then show ?thesis using pq(2) by force
  qed
  then have cover: "case edge_positions (gi_positions ix) e of None \<Rightarrow> True
      | Some (s, t) \<Rightarrow> s = t \<or> s \<notin> visited \<or> t \<notin> visited
          \<or> walk_edge_key ix s t \<in> (\<lambda>(s, t). walk_edge_key ix s t) ` set kept"
    if "e \<in> set (g_links (gi_graph ix))" for e
    using that by (auto split: option.split)
  have "\<forall>(p, q) \<in> set kept. p \<in> visited \<and> q \<in> visited \<and> neighbours ix p q"
    using sound by (auto simp: kept_def)
  then have "subgraph_edges_ok ix visited kept" using cover unfolding subgraph_edges_ok_def by blast
  moreover have "\<forall>(p, q) \<in> set listed. p \<in> visited \<and> neighbours ix p q" using sound by blast
  ultimately show ?thesis by (simp add: walk_pairs_ok_def kept_def listed_def)
qed

text \<open>The pairs of the search itself.\<close>

lemma bfs_edge_pairs:
  assumes "index_ok ix" "p < node_count ix" "set ks \<subseteq> set (adjacent ix p)" "p \<in> V"
    and "\<forall>(a, b) \<in> set (snd st). a \<in> V \<and> b \<in> V \<union> fst st \<and> neighbours ix a b"
  shows "\<forall>(a, b) \<in> set (snd (fold (bfs_edge ix V p) ks st)).
      a \<in> V \<and> b \<in> V \<union> fst (fold (bfs_edge ix V p) ks st) \<and> neighbours ix a b"
  using assms(3,5)
proof (induction ks arbitrary: st)
  case (Cons k ks)
  have "\<forall>(a, b) \<in> set (snd (bfs_edge ix V p k st)). a \<in> V \<and> b \<in> V \<union> fst (bfs_edge ix V p k st) \<and> neighbours ix a b"
  proof (cases "other ix (index_edge_at ix k) p")
    case None
    then show ?thesis using Cons.prems by (simp add: bfs_edge_def)
  next
    case (Some q)
    then have "neighbours ix p q"
      using adjacent_other_neighbours [OF assms(1,2), of k q] Cons.prems by simp
    then show ?thesis using Some Cons.prems assms(4) by (auto simp: bfs_edge_def)
  qed
  then show ?case using Cons.IH [of "bfs_edge ix V p k st"] Cons.prems by simp
qed simp

lemma bfs_node_pairs:
  assumes "index_ok ix" "\<forall>p \<in> set ps. p < node_count ix \<and> p \<in> V"
    and "\<forall>(a, b) \<in> set (snd st). a \<in> V \<and> b \<in> V \<union> fst st \<and> neighbours ix a b"
  shows "\<forall>(a, b) \<in> set (snd (fold (bfs_node ix seeds V) ps st)).
      a \<in> V \<and> b \<in> V \<union> fst (fold (bfs_node ix seeds V) ps st) \<and> neighbours ix a b"
  using assms(2,3)
proof (induction ps arbitrary: st)
  case (Cons p ps)
  have "\<forall>(a, b) \<in> set (snd (bfs_node ix seeds V p st)). a \<in> V \<and> b \<in> V \<union> fst (bfs_node ix seeds V p st) \<and> neighbours ix a b"
    using bfs_edge_pairs [OF assms(1), of p "adjacent ix p" V st] Cons.prems by (simp add: bfs_node_def)
  then show ?case using Cons.IH [of "bfs_node ix seeds V p st"] Cons.prems by simp
qed simp

lemma bfs_round_pairs:
  assumes "index_ok ix" "F \<subseteq> V" "F \<subseteq> {..<node_count ix}" "bfs_round ix seeds V F edges = (level, edges')"
    and "\<forall>(a, b) \<in> set edges. a \<in> V \<and> b \<in> V \<and> neighbours ix a b"
  shows "\<forall>(a, b) \<in> set edges'. a \<in> V \<union> level \<and> b \<in> V \<union> level \<and> neighbours ix a b"
proof -
  have "finite F" using assms(3) finite_subset by blast
  then have "\<forall>(a, b) \<in> set (snd (bfs_round ix seeds V F edges)).
      a \<in> V \<and> b \<in> V \<union> fst (bfs_round ix seeds V F edges) \<and> neighbours ix a b"
    unfolding bfs_round_def using assms(2,3,5) by (intro bfs_node_pairs [OF assms(1)]) auto
  then show ?thesis unfolding assms(4) by auto
qed

lemma bfs_rounds_pairs:
  assumes "index_ok ix" "F \<subseteq> V" "V \<subseteq> {..<node_count ix}"
    and "\<forall>(a, b) \<in> set edges. a \<in> V \<and> b \<in> V \<and> neighbours ix a b"
  shows "\<forall>(a, b) \<in> set (snd (bfs_rounds d ix seeds V F edges)).
      a \<in> fst (bfs_rounds d ix seeds V F edges) \<and> b \<in> fst (bfs_rounds d ix seeds V F edges)
      \<and> neighbours ix a b"
  using assms(2-4)
proof (induction d arbitrary: V F edges)
  case (Suc d)
  obtain level edges' where round: "bfs_round ix seeds V F edges = (level, edges')" by fastforce
  have F: "F \<subseteq> {..<node_count ix}" using Suc.prems by auto
  have "level \<subseteq> {..<node_count ix}"
    using bfs_round_found [OF assms(1) F, of seeds V edges] round neighbours_bound [OF assms(1)]
    by (auto simp: walk_step_def)
  then show ?case
    using Suc.IH [of level "V \<union> level" edges'] bfs_round_pairs [OF assms(1) Suc.prems(1) F round] Suc.prems round
    by (simp add: Let_def)
qed simp

lemma bfs_result:
  assumes "set start_nodes \<subseteq> {..<length (g_nodes g)}"
  obtains V E where "bfs (new_with_cache g cache) start_nodes depth
      = (V, complete_induced_edges (new_with_cache g cache) V E)"
    "V = ball (walk_step (new_with_cache g cache) (set start_nodes)) (set start_nodes) depth"
    "\<forall>(a, b) \<in> set E. a \<in> V \<and> b \<in> V \<and> neighbours (new_with_cache g cache) a b"
proof -
  let ?ix = "new_with_cache g cache" and ?seeds = "set start_nodes"
  obtain V E where run: "bfs_rounds depth ?ix ?seeds ?seeds ?seeds [] = (V, E)" by fastforce
  have "V = ball (walk_step ?ix ?seeds) ?seeds depth"
    using bfs_rounds_search [OF assms(1), of depth cache ?seeds ?seeds "[]"]
      walk.search_from_start [OF assms(1)] run by simp
  moreover have "\<forall>(a, b) \<in> set E. a \<in> V \<and> b \<in> V \<and> neighbours ?ix a b"
    using bfs_rounds_pairs [OF new_with_cache_ok order_refl, of ?seeds g cache "[]" depth ?seeds] assms(1) run
    by simp
  moreover have "bfs ?ix start_nodes depth = (V, complete_induced_edges ?ix V E)"
    using run by (simp add: bfs_def Let_def)
  ultimately show ?thesis using that by blast
qed


text \<open>Depth first: what the loop keeps is that every entry of the stack is as many steps from a seed
  as its level says.\<close>

lemma dfs_loop_result:
  assumes "index_ok ix" "seeds \<subseteq> {..<node_count ix}"
    and "\<forall>(p, l) \<in> set stack. hops (walk_step ix seeds) seeds l p"
    and "visited \<subseteq> ball (walk_step ix seeds) seeds depth"
    and "\<forall>(a, b) \<in> set edges. a \<in> visited \<and> neighbours ix a b"
  shows "\<exists>V E. dfs_loop ix seeds depth stack visited edges = Some (V, E)
    \<and> visited \<subseteq> V \<and> V \<subseteq> ball (walk_step ix seeds) seeds depth
    \<and> (\<forall>(p, l) \<in> set stack. l \<le> depth \<longrightarrow> p \<in> V)
    \<and> (\<forall>(a, b) \<in> set E. a \<in> V \<and> neighbours ix a b)"
  using assms
proof (induction ix seeds depth stack visited edges rule: dfs_loop.induct)
  case (1 ix seeds depth visited edges)
  then show ?case by simp
next
  case (2 ix seeds depth current level stack visited edges)
  let ?step = "walk_step ix seeds"
  have here: "hops ?step seeds level current"
    and rest: "\<forall>(p, l) \<in> set stack. hops ?step seeds l p" using "2.prems"(3) by auto
  have "current \<in> ball ?step seeds level" using here by (auto simp: ball_def)
  also have "\<dots> \<subseteq> {..<node_count ix}"
    using "2.prems"(2) by (rule ball_closed) (use "2.prems"(1) neighbours_bound in \<open>auto simp: walk_step_def\<close>)
  finally have inside: "current < node_count ix" by simp
  have near: "current \<in> ball ?step seeds depth" if "\<not> level > depth"
    using here that by (auto simp: ball_def not_less)
  consider (seen) "current \<in> visited \<or> level > depth"
    | (hub) "\<not> (current \<in> visited \<or> level > depth)" "closed_hub ix seeds current"
    | (expand) "\<not> (current \<in> visited \<or> level > depth)" "\<not> closed_hub ix seeds current" by blast
  then show ?case
  proof cases
    case seen
    obtain V E where run: "dfs_loop ix seeds depth stack visited edges = Some (V, E)" "visited \<subseteq> V"
      "V \<subseteq> ball ?step seeds depth" "\<forall>(p, l) \<in> set stack. l \<le> depth \<longrightarrow> p \<in> V"
      "\<forall>(a, b) \<in> set E. a \<in> V \<and> neighbours ix a b"
      using "2.IH"(1) [OF seen "2.prems"(1,2) rest "2.prems"(4,5)] by blast
    then show ?thesis using seen by auto
  next
    case hub
    have ball: "insert current visited \<subseteq> ball ?step seeds depth"
      using "2.prems"(4) near hub by simp
    have pairs: "\<forall>(a, b) \<in> set edges. a \<in> insert current visited \<and> neighbours ix a b"
      using "2.prems"(5) by auto
    have range: "\<not> node_count ix \<le> current" using inside by simp
    obtain V E where run: "dfs_loop ix seeds depth stack (insert current visited) edges = Some (V, E)"
      "insert current visited \<subseteq> V" "V \<subseteq> ball ?step seeds depth"
      "\<forall>(p, l) \<in> set stack. l \<le> depth \<longrightarrow> p \<in> V" "\<forall>(a, b) \<in> set E. a \<in> V \<and> neighbours ix a b"
      using "2.IH"(2) [OF hub(1) range hub(2) "2.prems"(1,2) rest ball pairs] by blast
    then show ?thesis using hub inside by auto
  next
    case expand
    define more where "more = filter (\<lambda>q. q \<notin> insert current visited)
        (List.map_filter (\<lambda>k. other ix (index_edge_at ix k) current) (adjacent ix current))"
    have found: "neighbours ix current q" if q: "q \<in> set more" for q
    proof -
      obtain k where "k \<in> set (adjacent ix current)" "other ix (index_edge_at ix k) current = Some q"
        using q unfolding more_def by (auto simp: map_filter_def)
      then show ?thesis using adjacent_other_neighbours "2.prems"(1) inside by blast
    qed
    have stack: "\<forall>(p, l) \<in> set (map (\<lambda>q. (q, level + 1)) more @ stack). hops ?step seeds l p"
      using rest here found expand by (auto simp: walk_step_def intro: hops_step)
    have ball: "insert current visited \<subseteq> ball ?step seeds depth"
      using "2.prems"(4) near expand by simp
    have pairs: "\<forall>(a, b) \<in> set (edges @ map (\<lambda>q. (current, q)) more).
        a \<in> insert current visited \<and> neighbours ix a b"
      using "2.prems"(5) found by auto
    have range: "\<not> node_count ix \<le> current" using inside by simp
    obtain V E where run: "dfs_loop ix seeds depth (map (\<lambda>q. (q, level + 1)) more @ stack)
        (insert current visited) (edges @ map (\<lambda>q. (current, q)) more) = Some (V, E)"
      "insert current visited \<subseteq> V" "V \<subseteq> ball ?step seeds depth"
      "\<forall>(p, l) \<in> set (map (\<lambda>q. (q, level + 1)) more @ stack). l \<le> depth \<longrightarrow> p \<in> V"
      "\<forall>(a, b) \<in> set E. a \<in> V \<and> neighbours ix a b"
      using "2.IH"(3) [OF expand(1) range expand(2) more_def "2.prems"(1,2) stack ball pairs] by blast
    have "dfs_loop ix seeds depth ((current, level) # stack) visited edges = Some (V, E)"
      using run(1) expand range by (simp add: more_def Let_def)
    then show ?thesis using run(2-5) by auto
  qed
qed

text \<open>
  With a depth of at least the number of nodes the bound never cuts the search off: the level of an entry is
  at most the number of nodes visited, so every neighbour of a node that is expanded gets visited.
\<close>

lemma dfs_loop_closed:
  assumes "index_ok ix" "node_count ix \<le> depth"
    and "dfs_loop ix seeds depth stack visited edges = Some (V, E)"
    and "visited \<subseteq> {..<node_count ix}" and "\<forall>(p, l) \<in> set stack. l \<le> card visited"
    and "\<forall>p \<in> visited. \<forall>q. walk_step ix seeds p q \<longrightarrow> q \<in> visited \<union> fst ` set stack"
  shows "\<forall>p \<in> V. \<forall>q. walk_step ix seeds p q \<longrightarrow> q \<in> V"
  using assms
proof (induction ix seeds depth stack visited edges rule: dfs_loop.induct)
  case (1 ix seeds depth visited edges)
  then show ?case by simp
next
  case (2 ix seeds depth current level stack visited edges)
  have finite: "finite visited" using "2.prems"(4) finite_subset by blast
  have "card visited \<le> node_count ix" using card_mono [OF _ "2.prems"(4)] by simp
  then have deep: "\<not> level > depth" using "2.prems"(2,5) by auto
  have levels: "\<forall>(p, l) \<in> set stack. l \<le> card visited" using "2.prems"(5) by auto
  show ?case
  proof (cases "current \<in> visited")
    case True
    have "\<forall>p \<in> visited. \<forall>q. walk_step ix seeds p q \<longrightarrow> q \<in> visited \<union> fst ` set stack"
      using "2.prems"(6) True by auto
    then show ?thesis using "2.IH"(1) [OF _ "2.prems"(1,2) _ "2.prems"(4) levels] "2.prems"(3) True by simp
  next
    case False
    have inside: "current < node_count ix" using "2.prems"(3) False deep by (simp split: if_splits)
    have range: "\<not> node_count ix \<le> current" using inside by simp
    have here: "\<not> (current \<in> visited \<or> level > depth)" using False deep by simp
    have bound: "insert current visited \<subseteq> {..<node_count ix}" using "2.prems"(4) inside by simp
    have more: "\<forall>(p, l) \<in> set stack. l \<le> card (insert current visited)"
      using levels False finite by auto
    show ?thesis
    proof (cases "closed_hub ix seeds current")
      case True
      have "\<forall>p \<in> insert current visited. \<forall>q. walk_step ix seeds p q \<longrightarrow> q \<in> insert current visited \<union> fst ` set stack"
        using "2.prems"(6) True by (auto simp: walk_step_def)
      then show ?thesis
        using "2.IH"(2) [OF here range True "2.prems"(1,2) _ bound more] "2.prems"(3) here range True by simp
    next
      case open_node: False
      define new where "new = filter (\<lambda>q. q \<notin> insert current visited)
          (List.map_filter (\<lambda>k. other ix (index_edge_at ix k) current) (adjacent ix current))"
      have found: "q \<in> insert current visited \<union> set new" if "neighbours ix current q" for q
        using adjacent_others [OF "2.prems"(1) inside, of q] that
        by (force simp: new_def map_filter_def)
      have loop: "dfs_loop ix seeds depth (map (\<lambda>q. (q, level + 1)) new @ stack) (insert current visited)
          (edges @ map (\<lambda>q. (current, q)) new) = Some (V, E)"
        using "2.prems"(3) here range open_node by (simp add: new_def Let_def)
      have "\<forall>(p, l) \<in> set (map (\<lambda>q. (q, level + 1)) new @ stack). l \<le> card (insert current visited)"
        using more "2.prems"(5) False finite by auto
      moreover have "\<forall>p \<in> insert current visited. \<forall>q. walk_step ix seeds p q
          \<longrightarrow> q \<in> insert current visited \<union> fst ` set (map (\<lambda>q. (q, level + 1)) new @ stack)"
        using "2.prems"(6) found by (auto simp: walk_step_def image_Un image_image)
      ultimately show ?thesis
        using "2.IH"(3) [OF here range open_node new_def "2.prems"(1,2) loop bound] by blast
    qed
  qed
qed

lemma dfs_result:
  assumes "set start_nodes \<subseteq> {..<length (g_nodes g)}"
  shows "\<exists>visited edges. dfs (new_with_cache g cache) start_nodes depth = Some (visited, edges)
    \<and> set start_nodes \<subseteq> visited \<and> visited \<subseteq> fst (bfs (new_with_cache g cache) start_nodes depth)
    \<and> walk_pairs_ok (new_with_cache g cache) visited edges
    \<and> (length (g_nodes g) \<le> depth \<longrightarrow> visited = fst (bfs (new_with_cache g cache) start_nodes depth))"
proof -
  let ?ix = "new_with_cache g cache" and ?seeds = "set start_nodes"
  have "hops (walk_step ?ix ?seeds) ?seeds 0 p" if "p \<in> ?seeds" for p using that by simp
  then have "\<forall>(p, l) \<in> set (map (\<lambda>p. (p, 0)) start_nodes). hops (walk_step ?ix ?seeds) ?seeds l p"
    by auto
  then obtain V E where run: "dfs_loop ?ix ?seeds depth (map (\<lambda>p. (p, 0)) start_nodes) {} [] = Some (V, E)"
      "V \<subseteq> ball (walk_step ?ix ?seeds) ?seeds depth"
      "\<forall>(p, l) \<in> set (map (\<lambda>p. (p, 0 :: nat)) start_nodes). l \<le> depth \<longrightarrow> p \<in> V"
      "\<forall>(a, b) \<in> set E. a \<in> V \<and> neighbours ?ix a b"
    using dfs_loop_result [OF new_with_cache_ok, of ?seeds g cache "map (\<lambda>p. (p, 0)) start_nodes" "{}" depth "[]"]
      assms by auto
  have bfs: "fst (bfs ?ix start_nodes depth) = ball (walk_step ?ix ?seeds) ?seeds depth"
    by (rule bfs_result [OF assms, of cache depth]) simp
  have seeds: "?seeds \<subseteq> V" using run(3) by auto
  have "walk_pairs_ok ?ix V (complete_induced_edges ?ix V E)" using run(4) by (rule complete_induced_pairs_ok)
  moreover have "ball (walk_step ?ix ?seeds) ?seeds depth \<subseteq> V" if "length (g_nodes g) \<le> depth"
    using seeds by (rule ball_closed)
      (use dfs_loop_closed [OF new_with_cache_ok _ run(1)] that in auto)
  ultimately show ?thesis using run(1,2) seeds unfolding bfs by (auto simp: dfs_def)
qed

text \<open>
  Depth-first search from nodes of the graph returns, whatever the depth: it visits the seeds,
  and only nodes that breadth-first search with the same depth visits too.
\<close>

lemma dfs_returns_within_ball:
  assumes "set start_nodes \<subseteq> {..<length (g_nodes g)}"
  shows "\<exists>visited edges. dfs (new_with_cache g cache) start_nodes depth = Some (visited, edges)
    \<and> set start_nodes \<subseteq> visited \<and> visited \<subseteq> fst (bfs (new_with_cache g cache) start_nodes depth)"
  using dfs_result [OF assms] by blast


lemma dfs_returns_within_ball_witness:
  "set [0] \<subseteq> {..<length (g_nodes sample_graph)}
   \<and> (\<exists>visited edges. dfs (new_with_cache sample_graph default_cache) [0] 1 = Some (visited, edges)
      \<and> set [0] \<subseteq> visited)"
proof -
  have start: "set [0] \<subseteq> {..<length (g_nodes sample_graph)}" by (simp add: sample_graph_def)
  show ?thesis using dfs_returns_within_ball [OF start, of default_cache 1] start by blast
qed

text \<open>Four nodes: the search goes down one branch to the depth bound before it comes back to a node
  that it could have expanded.\<close>

definition shortcut_graph :: graph where
  "shortcut_graph =
     \<lparr> g_directed = False, g_multigraph = False,
       g_nodes = [plain_node ''s'' ''s'' ''s.rs'', plain_node ''a'' ''a'' ''a.rs'',
                  plain_node ''b'' ''b'' ''b.rs'', plain_node ''c'' ''c'' ''c.rs''],
       g_links = [plain_edge ''s'' ''a'' ''calls'', plain_edge ''a'' ''b'' ''calls'',
                  plain_edge ''s'' ''b'' ''calls'', plain_edge ''b'' ''c'' ''calls''],
       g_hyperedges = [], g_extra = [] \<rparr>"

text \<open>
  The converse fails: a node two steps from the seed is missed by a depth-first search of depth
  two, because the node before it was first entered at the depth bound, is marked as visited there,
  and is not expanded when the shorter way to it is tried. Breadth-first search visits it.
\<close>

lemma dfs_misses_near_node:
  "dfs (new_index shortcut_graph) [0] 2 = Some ({0, 1, 2}, [(0, 1), (0, 2), (1, 2), (2, 3)])
   \<and> fst (bfs (new_index shortcut_graph) [0] 2) = {0, 1, 2, 3}"
  by code_simp

end
