(* ===== verification/QueryText.thy ===== *)
theory QueryText
  imports QueryWalk
begin

text \<open>
  The text of a query's answer (\<open>graphoxide-query/src/query.rs\<close>): the traversal of \<open>query_graph\<close>, the
  lines of a subgraph, and how they are cut to a token budget. The message of a cut answer holds
  characters outside the repertoire of the model, so it is the record of the numbers and the text it
  shows. Offsets are counted in characters; the code counts bytes, but compares and uses offsets only
  at boundaries of characters of the same text, where the two orders agree. Where the code sorts the
  elements of a \<open>HashSet\<close>, ties of the comparator are taken in ascending order.
\<close>

section \<open>The traversal of a query\<close>

text \<open>All that the edges of a graph can lead to, which bounds the loops below.\<close>

definition edge_ends :: "graph_index \<Rightarrow> nat set" where
  "edge_ends ix = (\<Union>e \<in> set (g_links (gi_graph ix)).
     case edge_positions (gi_positions ix) e of None \<Rightarrow> {} | Some (s, t) \<Rightarrow> {s, t})"

lemma finite_edge_ends [simp]: "finite (edge_ends ix)"
  unfolding edge_ends_def by (auto split: option.split prod.split)

lemma other_edge_ends: "other ix e p = Some q \<Longrightarrow> e \<in> set (g_links (gi_graph ix)) \<Longrightarrow> q \<in> edge_ends ix"
  unfolding edge_ends_def other_def by (fastforce simp: bind_eq_Some_conv split: if_splits)

text \<open>The neighbours of a node by the edges listed at it that exist, first come first.\<close>

definition others :: "graph_index \<Rightarrow> nat \<Rightarrow> nat list" where
  "others ix p =
     List.map_filter (\<lambda>k. if k < length (g_links (gi_graph ix)) then other ix (index_edge_at ix k) p else None)
       (adjacent ix p)"

lemma others_edge_ends: "set (others ix p) \<subseteq> edge_ends ix"
  using other_edge_ends by (auto simp: others_def map_filter_def split: if_splits)

text \<open>\<open>visited.insert(other)\<close> as the condition of the push.\<close>

definition push_new :: "nat \<Rightarrow> nat list \<times> nat set \<Rightarrow> nat list \<times> nat set" where
  "push_new q st = (if q \<in> snd st then st else (fst st @ [q], insert q (snd st)))"

lemma push_new_all:
  "snd (fold push_new qs st) = snd st \<union> set qs"
  "distinct (fst st) \<Longrightarrow> set (fst st) \<subseteq> snd st \<Longrightarrow> distinct (fst (fold push_new qs st))"
  "set (fst (fold push_new qs st)) = set (fst st) \<union> (set qs - snd st)"
proof (induction qs arbitrary: st)
  case (Cons q qs)
  {
    case 1
    show ?case using Cons.IH(1) [of "push_new q st"] by (auto simp: push_new_def)
  next
    case 2
    have "distinct (fst (push_new q st))" "set (fst (push_new q st)) \<subseteq> snd (push_new q st)"
      using 2 by (auto simp: push_new_def)
    then show ?case using Cons.IH(2) [of "push_new q st"] by simp
  next
    case 3
    show ?case using Cons.IH(3) [of "push_new q st"] by (auto simp: push_new_def)
  }
qed simp_all

function traverse_dfs :: "graph_index \<Rightarrow> nat set \<Rightarrow> nat \<Rightarrow> (nat \<times> nat) list \<Rightarrow> nat set \<Rightarrow> nat set" where
  "traverse_dfs ix seeds depth [] visited = visited"
| "traverse_dfs ix seeds depth ((current, level) # stack) visited =
     (if level \<ge> depth \<or> closed_hub ix seeds current then traverse_dfs ix seeds depth stack visited
      else
        let (next, visited') = fold push_new (others ix current) ([], visited)
        in traverse_dfs ix seeds depth (map (\<lambda>p. (p, level + 1)) (sort next) @ stack) visited')"
  by pat_completeness auto
termination
proof (relation "measure (\<lambda>(ix, seeds, depth, stack, visited).
    card (edge_ends ix - visited) + length stack)", goal_cases)
  case (3 ix seeds depth current level stack visited st more visited')
  then have run: "fold push_new (others ix current) ([], visited) = (more, visited')" by simp
  have seen: "visited' = visited \<union> set (others ix current)" and "distinct more"
    and more: "set more = set (others ix current) - visited"
    using push_new_all [where qs = "others ix current" and st = "([], visited)"] run by simp_all
  have "edge_ends ix - visited = (edge_ends ix - visited') \<union> set more"
    "(edge_ends ix - visited') \<inter> set more = {}"
    using seen more others_edge_ends [of ix current] by blast+
  then have "card (edge_ends ix - visited) = card (edge_ends ix - visited') + length more"
    using \<open>distinct more\<close> by (metis List.finite_set card_Un_disjoint distinct_card finite_Diff finite_edge_ends)
  then show ?case by simp
qed simp_all

definition traverse_round :: "graph_index \<Rightarrow> nat set \<Rightarrow> nat set \<Rightarrow> nat set \<Rightarrow> nat set" where
  "traverse_round ix seeds visited frontier =
     fold (\<lambda>current level. if closed_hub ix seeds current then level
             else fold (\<lambda>q level. if q \<notin> visited then insert q level else level) (others ix current) level)
       (sorted_list_of_set frontier) {}"

fun traverse_bfs :: "nat \<Rightarrow> graph_index \<Rightarrow> nat set \<Rightarrow> nat set \<Rightarrow> nat set \<Rightarrow> nat set" where
  "traverse_bfs 0 ix seeds visited frontier = visited"
| "traverse_bfs (Suc d) ix seeds visited frontier =
     (let level = traverse_round ix seeds visited frontier
      in traverse_bfs d ix seeds (visited \<union> level) level)"

definition traverse_visited :: "graph_index \<Rightarrow> nat list \<Rightarrow> nat \<Rightarrow> bool \<Rightarrow> nat set" where
  "traverse_visited ix seeds depth depth_first =
     (if depth_first then traverse_dfs ix (set seeds) depth (map (\<lambda>p. (p, 0)) seeds) (set seeds)
      else traverse_bfs depth ix (set seeds) (set seeds) (set seeds))"

definition render_edges :: "graph_index \<Rightarrow> nat set \<Rightarrow> (nat \<times> nat) list" where
  "render_edges ix visited =
     List.map_filter (\<lambda>e. case edge_positions (gi_positions ix) e of
         None \<Rightarrow> None
       | Some (s, t) \<Rightarrow> if s \<noteq> t \<and> s \<in> visited \<and> t \<in> visited then Some (s, t) else None)
       (g_links (gi_graph ix))"

text \<open>The rounds are a breadth-first search over the same steps as \<open>bfs\<close>.\<close>

lemma others_neighbours:
  assumes "index_ok ix" "p < node_count ix"
  shows "set (others ix p) = {q. neighbours ix p q}"
proof -
  have "\<forall>k \<in> set (adjacent ix p). k < length (g_links (gi_graph ix))"
    using assms by (auto simp: index_ok_def adjacent_def)
  then have "set (others ix p) = {q. \<exists>k \<in> set (adjacent ix p). other ix (index_edge_at ix k) p = Some q}"
    by (force simp: others_def map_filter_def)
  then show ?thesis using adjacent_others [OF assms] by auto
qed

lemma traverse_round_found:
  assumes "index_ok ix" "F \<subseteq> {..<node_count ix}"
  shows "traverse_round ix seeds V F = {q. q \<notin> V \<and> (\<exists>p \<in> F. walk_step ix seeds p q)}"
proof -
  have inner: "fold (\<lambda>q level. if q \<notin> V then insert q level else level) qs L = L \<union> (set qs - V)" for qs L
    by (induction qs arbitrary: L) auto
  have outer: "\<forall>p \<in> set ps. p < node_count ix \<Longrightarrow>
      fold (\<lambda>current level. if closed_hub ix seeds current then level
          else fold (\<lambda>q level. if q \<notin> V then insert q level else level) (others ix current) level) ps L
      = L \<union> {q. q \<notin> V \<and> (\<exists>p \<in> set ps. walk_step ix seeds p q)}" for ps L
    unfolding inner
  proof (induction ps arbitrary: L)
    case (Cons p ps)
    then have "set (others ix p) = {q. neighbours ix p q}" using others_neighbours assms(1) by simp
    then show ?case using Cons by (auto simp: walk_step_def)
  qed simp
  have "finite F" using assms(2) finite_subset by blast
  then show ?thesis using outer [of "sorted_list_of_set F" "{}"] assms(2) by (auto simp: traverse_round_def)
qed

interpretation traverse: search_round
  "traverse_round (new_with_cache g c) seeds" "walk_step (new_with_cache g c) seeds"
  "{..<length (g_nodes g)}" for g c seeds
  by unfold_locales (use traverse_round_found [OF new_with_cache_ok] walk.step_closed in auto)

lemma traverse_bfs_search:
  "traverse_bfs d (new_with_cache g c) seeds V F = fst (traverse.search g c seeds d V F)"
  by (induction d arbitrary: V F) (simp_all add: Let_def)

text \<open>Depth first: every entry of the stack is as many steps from a seed as its level says.\<close>

lemma traverse_dfs_within:
  assumes "index_ok ix" "seeds \<subseteq> {..<node_count ix}"
    and "\<forall>(p, l) \<in> set stack. hops (walk_step ix seeds) seeds l p"
    and "visited \<subseteq> ball (walk_step ix seeds) seeds depth"
  shows "visited \<subseteq> traverse_dfs ix seeds depth stack visited
    \<and> traverse_dfs ix seeds depth stack visited \<subseteq> ball (walk_step ix seeds) seeds depth"
  using assms
proof (induction ix seeds depth stack visited rule: traverse_dfs.induct)
  case (2 ix seeds depth current level stack visited)
  let ?step = "walk_step ix seeds"
  have here: "hops ?step seeds level current"
    and rest: "\<forall>(p, l) \<in> set stack. hops ?step seeds l p" using "2.prems"(3) by auto
  show ?case
  proof (cases "level \<ge> depth \<or> closed_hub ix seeds current")
    case True
    then show ?thesis using "2.IH"(1) [OF True "2.prems"(1,2) rest "2.prems"(4)] by simp
  next
    case False
    obtain more visited' where run: "fold push_new (others ix current) ([], visited) = (more, visited')"
      by fastforce
    have seen: "visited' = visited \<union> set (others ix current)"
      and more: "set more = set (others ix current) - visited"
      using push_new_all(1,3) [where qs = "others ix current" and st = "([], visited)"] run by simp_all
    have "current \<in> ball ?step seeds level" using here by (auto simp: ball_def)
    also have "\<dots> \<subseteq> {..<node_count ix}"
      using "2.prems"(2) by (rule ball_closed) (use "2.prems"(1) neighbours_bound in \<open>auto simp: walk_step_def\<close>)
    finally have "current < node_count ix" by simp
    then have next_hop: "hops ?step seeds (level + 1) q" if "q \<in> set (others ix current)" for q
      using that others_neighbours "2.prems"(1) False here by (auto simp: walk_step_def intro: hops_step)
    have stack: "\<forall>(p, l) \<in> set (map (\<lambda>p. (p, level + 1)) (sort more) @ stack). hops ?step seeds l p"
      using rest next_hop more by auto
    have near: "visited' \<subseteq> ball ?step seeds depth"
    proof -
      have "q \<in> ball ?step seeds depth" if "q \<in> set (others ix current)" for q
        using next_hop [OF that] False unfolding ball_def by (auto intro: exI [of _ "Suc level"])
      then show ?thesis using "2.prems"(4) unfolding seen by blast
    qed
    have "traverse_dfs ix seeds depth ((current, level) # stack) visited
        = traverse_dfs ix seeds depth (map (\<lambda>p. (p, level + 1)) (sort more) @ stack) visited'"
      using False run by simp
    then show ?thesis
      using "2.IH"(2) [OF False run [symmetric] refl "2.prems"(1,2) stack near] seen by auto
  qed
qed simp

lemma traverse_visited_result:
  assumes "set seeds \<subseteq> {..<length (g_nodes g)}"
  shows "traverse_visited (new_with_cache g c) seeds depth False
      = ball (walk_step (new_with_cache g c) (set seeds)) (set seeds) depth"
    and "set seeds \<subseteq> traverse_visited (new_with_cache g c) seeds depth True"
    and "traverse_visited (new_with_cache g c) seeds depth True
      \<subseteq> ball (walk_step (new_with_cache g c) (set seeds)) (set seeds) depth"
proof -
  let ?step = "walk_step (new_with_cache g c) (set seeds)"
  show "traverse_visited (new_with_cache g c) seeds depth False = ball ?step (set seeds) depth"
    using traverse.search_from_start [OF assms] by (simp add: traverse_visited_def traverse_bfs_search)
  have "hops ?step (set seeds) 0 p" if "p \<in> set seeds" for p using that by simp
  then have stack: "\<forall>(p, l) \<in> set (map (\<lambda>p. (p, 0)) seeds). hops ?step (set seeds) l p" by auto
  have "set seeds \<subseteq> ball ?step (set seeds) depth"
    using ball_mono [of 0 depth ?step "set seeds"] by simp
  then show "set seeds \<subseteq> traverse_visited (new_with_cache g c) seeds depth True"
    "traverse_visited (new_with_cache g c) seeds depth True \<subseteq> ball ?step (set seeds) depth"
    using traverse_dfs_within [OF new_with_cache_ok _ stack] assms by (simp_all add: traverse_visited_def)
qed

section \<open>Distances\<close>

definition push_distance :: "nat set \<Rightarrow> nat \<Rightarrow> nat \<Rightarrow> (nat \<rightharpoonup> nat) \<times> nat list \<Rightarrow> (nat \<rightharpoonup> nat) \<times> nat list" where
  "push_distance visited d q st =
     (if q \<in> visited \<and> fst st q = None then ((fst st)(q \<mapsto> d), snd st @ [q]) else st)"

lemma push_distance_all:
  fixes ix :: graph_index
  assumes "set qs \<subseteq> E" "finite E"
  shows "card (E - dom (fst (fold (push_distance V d) qs st))) + length (snd (fold (push_distance V d) qs st))
    \<le> card (E - dom (fst st)) + length (snd st)"
  using assms(1)
proof (induction qs arbitrary: st)
  case (Cons q qs)
  have "card (E - dom (fst (push_distance V d q st))) + length (snd (push_distance V d q st))
      \<le> card (E - dom (fst st)) + length (snd st)"
  proof (cases "q \<in> V \<and> fst st q = None")
    case True
    then have q: "q \<in> E - dom (fst st)" using Cons.prems by auto
    have "card (E - dom (fst st)) = Suc (card (E - dom (fst st) - {q}))"
      using assms(2) q by (intro card.remove) auto
    moreover have "E - dom ((fst st)(q \<mapsto> d)) = E - dom (fst st) - {q}" by auto
    ultimately show ?thesis using True by (simp add: push_distance_def)
  next
    case False
    then have "push_distance V d q st = st" unfolding push_distance_def by (rule if_not_P)
    then show ?thesis by simp
  qed
  then show ?case using Cons.IH [of "push_distance V d q st"] Cons.prems by simp
qed simp

function distance_loop :: "graph_index \<Rightarrow> nat set \<Rightarrow> (nat \<rightharpoonup> nat) \<Rightarrow> nat list \<Rightarrow> (nat \<rightharpoonup> nat)" where
  "distance_loop ix visited distances [] = distances"
| "distance_loop ix visited distances (current # queue) =
     (let (distances', queue') =
        fold (push_distance visited (the (distances current) + 1)) (others ix current) (distances, queue)
      in distance_loop ix visited distances' queue')"
  by pat_completeness auto
termination
proof (relation "measure (\<lambda>(ix, visited, distances, queue).
    card (edge_ends ix - dom distances) + length queue)", goal_cases)
  case (2 ix visited distances current queue st distances' queue')
  then have "fold (push_distance visited (the (distances current) + 1)) (others ix current) (distances, queue)
      = (distances', queue')" by simp
  then show ?case
    using push_distance_all [OF others_edge_ends [of ix current] finite_edge_ends, of visited
        "the (distances current) + 1" "(distances, queue)"] by simp
qed simp

definition seed_distances :: "graph_index \<Rightarrow> nat set \<Rightarrow> nat list \<Rightarrow> (nat \<rightharpoonup> nat)" where
  "seed_distances ix visited seed_hits =
     distance_loop ix visited (\<lambda>p. if p \<in> set seed_hits then Some 0 else None) seed_hits"

text \<open>The distances are those of a search with a queue, along edges between visited nodes.\<close>

interpretation seed_search: queue_search
  "\<lambda>p. filter (\<lambda>q. q \<in> visited) (others ix p)" start for ix visited start .

lemma push_distance_found:
  "fold (push_distance visited d) qs st = fold (push_found d) (filter (\<lambda>q. q \<in> visited) qs) st"
  by (induction qs arbitrary: st) (simp_all add: push_distance_def push_found_def)

lemma distance_loop_done:
  assumes "seed_search.queue_ok visited ix start D Q k"
  shows "\<exists>k. seed_search.queue_ok visited ix start (distance_loop ix visited D Q) [] k"
  using assms
proof (induction ix visited D Q arbitrary: k rule: distance_loop.induct)
  case (2 ix visited D current queue)
  obtain D' Q' where push: "fold (push_distance visited (Suc (the (D current)))) (others ix current) (D, queue) = (D', Q')"
    by fastforce
  then have "seed_search.queue_ok visited ix start D' Q' (the (D current))"
    using seed_search.queue_step [OF "2.prems"] unfolding push_distance_found by blast
  then show ?case using "2.IH" push by (simp add: Let_def)
qed auto

text \<open>
  The distance by which the nodes of an answer are ordered is the length of a shortest path from a
  seed along edges between visited nodes; nodes that no such path reaches have none.
\<close>

lemma seed_distances_exact:
  "seed_distances ix visited seed_hits q = Some d
   \<longleftrightarrow> hops (\<lambda>p q. q \<in> set (others ix p) \<and> q \<in> visited) (set seed_hits) d q
     \<and> (\<forall>j. hops (\<lambda>p q. q \<in> set (others ix p) \<and> q \<in> visited) (set seed_hits) j q \<longrightarrow> d \<le> j)"
proof -
  let ?start = "\<lambda>p. if p \<in> set seed_hits then Some 0 else None"
  have step: "(\<lambda>p q. q \<in> set (filter (\<lambda>q. q \<in> visited) (others ix p)))
      = (\<lambda>p q. q \<in> set (others ix p) \<and> q \<in> visited)" by (auto simp: fun_eq_iff)
  obtain k where "seed_search.queue_ok visited ix (set seed_hits) (seed_distances ix visited seed_hits) [] k"
    using distance_loop_done [OF seed_search.queue_start [OF refl, where D = ?start and Q = seed_hits]]
    unfolding seed_distances_def by auto
  then show ?thesis unfolding step [symmetric] by (rule seed_search.queue_done)
qed

lemma seed_distances_exact_witness:
  "seed_distances (new_index shortcut_graph) {0, 1, 2, 3} [0] 3 = Some 2
   \<and> hops (\<lambda>p q. q \<in> set (others (new_index shortcut_graph) p) \<and> q \<in> {0, 1, 2, 3}) (set [0]) 2 3"
proof -
  have "seed_distances (new_index shortcut_graph) {0, 1, 2, 3} [0] 3 = Some 2" by code_simp
  then show ?thesis
    using seed_distances_exact [of "new_index shortcut_graph" "{0, 1, 2, 3}" "[0]" 3 2] by blast
qed

end
