(* ===== verification/Lines.thy ===== *)
theory Lines
  imports FileSlice
begin

text \<open>
  Cutting a text of lines to a budget of characters, as \<open>graphoxide-query/src/query.rs\<close> and its users
  do it: at the last line break within the budget, or in the middle of the first line when there is
  none.
\<close>

abbreviation newline :: char where
  "newline \<equiv> CHR 0x0A"

abbreviation join_lines :: "string list \<Rightarrow> string" where
  "join_lines \<equiv> join_with [newline]"

text \<open>\<open>str::lines\<close>: a line break ends a line, with the carriage return before it; nothing follows the
  last one.\<close>

definition strip_cr :: "string \<Rightarrow> string" where
  "strip_cr s = (if ends_with s [CHR 0x0D] then butlast s else s)"

definition text_lines :: "string \<Rightarrow> string list" where
  "text_lines s =
     (let ps = split_on newline s
      in map strip_cr (butlast ps) @ (if last ps = [] then [] else [last ps]))"

text \<open>\<open>rfind('\n')\<close>.\<close>

definition last_newline :: "string \<Rightarrow> nat option" where
  "last_newline s =
     (let tail = takeWhile (\<lambda>c. c \<noteq> newline) (rev s)
      in if length tail = length s then None else Some (length s - length tail - 1))"

definition char_budget_end :: "string \<Rightarrow> nat \<Rightarrow> nat" where
  "char_budget_end s budget = (if budget < length s then budget else length s)"

definition character_budget :: "nat \<Rightarrow> nat" where
  "character_budget token_budget = min (token_budget * 3) usize_max"

definition budget_cut :: "string \<Rightarrow> nat \<Rightarrow> nat" where
  "budget_cut output budget =
     (let budget_end = char_budget_end output budget
      in case last_newline (take budget_end output) of
           None \<Rightarrow> budget_end
         | Some i \<Rightarrow> if i > 0 then i else budget_end)"

section \<open>Lines and their text\<close>

text \<open>Lines that stand for themselves: no line break inside and none empty.\<close>

definition clean_lines :: "string list \<Rightarrow> bool" where
  "clean_lines ls \<longleftrightarrow> (\<forall>l \<in> set ls. l \<noteq> [] \<and> newline \<notin> set l \<and> CHR 0x0D \<notin> set l)"

lemma clean_lines_simps [simp]:
  "clean_lines []"
  "clean_lines (l # ls) \<longleftrightarrow> l \<noteq> [] \<and> newline \<notin> set l \<and> CHR 0x0D \<notin> set l \<and> clean_lines ls"
  "clean_lines (ls @ ms) \<longleftrightarrow> clean_lines ls \<and> clean_lines ms"
  by (auto simp: clean_lines_def)

lemma clean_lines_take: "clean_lines ls \<Longrightarrow> clean_lines (take k ls)"
  by (auto simp: clean_lines_def dest: in_set_takeD)

lemma join_with_Cons: "join_with sep (p # ps) = p @ (if ps = [] then [] else sep @ join_with sep ps)"
  by (cases ps) simp_all

lemma length_join_snoc:
  "ps \<noteq> [] \<Longrightarrow> length (join_with sep (ps @ [p])) = length (join_with sep ps) + length sep + length p"
  by (induction ps) (auto simp: join_with_Cons)

lemma split_on_plain: "c \<notin> set p \<Longrightarrow> split_on c p = [p]"
  by (induction p) auto

lemma split_on_first: "c \<notin> set p \<Longrightarrow> split_on c (p @ c # s) = p # split_on c s"
  by (induction p) auto

lemma split_join:
  "ps \<noteq> [] \<Longrightarrow> \<forall>p \<in> set ps. c \<notin> set p \<Longrightarrow> split_on c (join_with [c] ps) = ps"
  by (induction ps) (auto simp: join_with_Cons split_on_plain split_on_first)

lemma text_lines_join:
  assumes "clean_lines ls"
  shows "text_lines (join_lines ls) = ls"
proof (cases ls rule: rev_cases)
  case Nil
  then show ?thesis by (simp add: text_lines_def)
next
  case (snoc ms l)
  have "split_on newline (join_lines ls) = ls"
    using assms by (intro split_join) (auto simp: clean_lines_def snoc)
  moreover have "map strip_cr ms = ms"
    using assms by (intro map_idI) (auto simp: strip_cr_def snoc clean_lines_def suffix_def)
  ultimately show ?thesis
    using assms by (simp add: text_lines_def snoc)
qed

lemma first_occurrence: "x \<notin> set l \<Longrightarrow> x \<notin> set u \<Longrightarrow> l @ x # a = u @ x # b \<Longrightarrow> l = u \<and> a = b"
proof (induction l arbitrary: u)
  case (Cons y l)
  then show ?case by (cases u) auto
qed (auto simp: Cons_eq_append_conv)

lemma before_occurrence: "x \<notin> set t \<Longrightarrow> t @ r = l @ x # s \<Longrightarrow> length t \<le> length l"
proof (induction t arbitrary: l)
  case (Cons y t)
  then show ?case by (cases l) auto
qed simp

text \<open>Every line break of a text of lines stands between two of them.\<close>

lemma join_lines_split:
  assumes "\<forall>l \<in> set ls. newline \<notin> set l" "join_lines ls = u @ newline # v"
  shows "\<exists>k. 0 < k \<and> k < length ls \<and> u = join_lines (take k ls) \<and> v = join_lines (drop k ls)"
  using assms
proof (induction ls arbitrary: u)
  case (Cons l ls)
  have no: "newline \<notin> set l" using Cons.prems(1) by simp
  show ?case
  proof (cases "ls = []")
    case True
    then show ?thesis using no Cons.prems(2) by (metis in_set_conv_decomp join_with.simps(2))
  next
    case False
    then have joined: "l @ newline # join_lines ls = u @ newline # v"
      using Cons.prems(2) by (simp add: join_with_Cons)
    show ?thesis
    proof (cases "newline \<in> set u")
      case False
      then have "u = l \<and> v = join_lines ls"
        using first_occurrence [OF no _ joined] by blast
      then show ?thesis using \<open>ls \<noteq> []\<close> by (intro exI [of _ 1]) simp
    next
      case True
      then obtain us where us: "u = l @ us" "newline # join_lines ls = us @ newline # v"
        using joined no by (auto simp: append_eq_append_conv2)
      then have "us \<noteq> []" using True no by auto
      then obtain u' where u: "u = l @ newline # u'" using us by (auto simp: Cons_eq_append_conv)
      then have "join_lines ls = u' @ newline # v" using joined by simp
      then obtain k where k: "0 < k" "k < length ls" "u' = join_lines (take k ls)" "v = join_lines (drop k ls)"
        using Cons.IH Cons.prems(1) by auto
      moreover have "take k ls \<noteq> []" using k by auto
      ultimately show ?thesis using u by (intro exI [of _ "Suc k"]) (simp add: join_with_Cons)
    qed
  qed
qed simp

text \<open>The line break that \<open>rfind\<close> answers is the last.\<close>

lemma last_newline_None: "last_newline s = None \<longleftrightarrow> newline \<notin> set s"
proof -
  have "length (takeWhile (\<lambda>c. c \<noteq> newline) (rev s)) = length s
      \<longleftrightarrow> takeWhile (\<lambda>c. c \<noteq> newline) (rev s) = rev s"
    by (metis length_rev takeWhile_eq_take take_all_iff order_refl)
  then show ?thesis by (auto simp: last_newline_def Let_def takeWhile_eq_all_conv)
qed

lemma last_newline_append:
  assumes "newline \<notin> set t"
  shows "last_newline (u @ newline # t) = Some (length u)"
proof -
  have "takeWhile (\<lambda>c. c \<noteq> newline) (rev t) = rev t"
    using assms by (auto simp: takeWhile_eq_all_conv)
  then have "takeWhile (\<lambda>c. c \<noteq> newline) (rev (u @ newline # t)) = rev t"
    by (simp add: takeWhile_tail)
  then show ?thesis by (simp add: last_newline_def Let_def)
qed

lemma last_newline_Some:
  assumes "last_newline s = Some i"
  obtains u t where "s = u @ newline # t" "length u = i" "newline \<notin> set t"
proof -
  have "newline \<in> set s" using assms last_newline_None [of s] by (metis option.distinct(1))
  then obtain u t where "s = u @ newline # t" "newline \<notin> set t" by (metis split_list_last)
  then show ?thesis using that assms last_newline_append by auto
qed

section \<open>What is kept\<close>

text \<open>Of a text longer than the budget, the lines before the last break within the budget are kept,
  and no further line fits; without such a break the beginning of the first line is.\<close>

lemma length_join_take_mono:
  assumes "j \<le> k"
  shows "length (join_lines (take j ls)) \<le> length (join_lines (take k ls))"
  using assms
proof (induction ls arbitrary: j k)
  case (Cons l ls)
  show ?case
  proof (cases j)
    case (Suc j')
    then obtain k' where "k = Suc k'" "j' \<le> k'" using Cons.prems by (cases k) auto
    then show ?thesis using Cons.IH [of j' k'] Suc by (auto simp: join_with_Cons)
  qed simp
qed simp

lemma join_take_prefix: "prefix (join_lines (take k ls)) (join_lines ls)"
proof (induction ls arbitrary: k)
  case (Cons l ls)
  then show ?case by (cases k) (auto simp: join_with_Cons)
qed simp

lemma budget_cut_lines:
  assumes "clean_lines ls" "budget < length (join_lines ls)"
  obtains (whole) k where "0 < k" "k < length ls" "budget_cut (join_lines ls) budget = length (join_lines (take k ls))"
      "length (join_lines (take k ls)) < budget" "budget \<le> length (join_lines (take (Suc k) ls))"
  | (part) "budget_cut (join_lines ls) budget = budget" "ls \<noteq> []" "budget \<le> length (hd ls)"
proof (cases "last_newline (take budget (join_lines ls))")
  case None
  have cut: "budget_cut (join_lines ls) budget = budget"
    using assms(2) None by (simp add: budget_cut_def char_budget_end_def)
  obtain l ms where ls: "ls = l # ms" using assms(2) by (cases ls) auto
  have "newline \<notin> set (take budget (join_lines ls))" using None last_newline_None by blast
  then have "budget \<le> length l"
    using assms(2) unfolding ls join_with_Cons by (cases "ms = []") (auto simp: take_Cons' split: if_splits)
  then show ?thesis using part cut ls by simp
next
  case (Some i)
  then obtain u t where ut: "take budget (join_lines ls) = u @ newline # t" "length u = i" "newline \<notin> set t"
    by (rule last_newline_Some)
  obtain r where r: "join_lines ls = u @ newline # t @ r"
    using ut(1) by (metis append.assoc append_Cons append_take_drop_id)
  obtain k where k: "0 < k" "k < length ls" "u = join_lines (take k ls)" "t @ r = join_lines (drop k ls)"
    using join_lines_split [OF _ r] assms(1) by (auto simp: clean_lines_def)
  have budget: "budget = length u + 1 + length t"
    using arg_cong [OF ut(1), of length] assms(2) by simp
  have "take k ls \<noteq> []" using k by auto
  then have "u \<noteq> []" unfolding k(3) using assms(1)
    by (metis clean_lines_simps(2) clean_lines_take join_with_Cons append_is_Nil_conv neq_Nil_conv)
  then have cut: "budget_cut (join_lines ls) budget = length (join_lines (take k ls))"
    using assms(2) Some ut(2) k(3) \<open>u \<noteq> []\<close> by (auto simp: budget_cut_def char_budget_end_def)
  have next_line: "length t \<le> length (ls ! k)"
  proof -
    obtain rest where "drop k ls = ls ! k # rest" using k(2) by (metis Cons_nth_drop_Suc)
    then have line: "t @ r = ls ! k @ (if rest = [] then [] else newline # join_lines rest)"
      using k(4) by (simp add: join_with_Cons)
    show ?thesis
    proof (cases "rest = []")
      case True
      then have "length (t @ r) = length (ls ! k)" using line by simp
      then show ?thesis by simp
    next
      case False
      then show ?thesis using line before_occurrence [OF ut(3)] by simp
    qed
  qed
  have "length (join_lines (take (Suc k) ls)) = length (join_lines (take k ls)) + 1 + length (ls ! k)"
    using \<open>take k ls \<noteq> []\<close> k(2) by (simp add: take_Suc_conv_app_nth length_join_snoc)
  then show ?thesis using whole k(1,2) cut budget next_line k(3) by simp
qed

end
