(* ===== verification/QueryAnswer.thy ===== *)
theory QueryAnswer
  imports QueryText Lines
begin

text \<open>
  The answer of a query (\<open>graphoxide-query/src/query.rs\<close>): the lines of a subgraph, their order, how
  they are cut to a token budget, and the entry points that choose seeds, walk and render. The notes
  around a cut answer hold characters outside the repertoire of the model, so a cut answer is the
  record of the numbers and the text it shows. Offsets are counted in characters: the code takes them
  in bytes, but only at line breaks and at the end of the budget of the same text.
\<close>

section \<open>Lines of a subgraph\<close>

definition order_nodes :: "graph_index \<Rightarrow> nat set \<Rightarrow> nat list \<Rightarrow> nat list" where
  "order_nodes ix visited seeds =
     (let seed_hits = filter (\<lambda>p. p \<in> visited) seeds;
          distances = seed_distances ix visited seed_hits
      in seed_hits
         @ sort_key (\<lambda>p. (case distances p of None \<Rightarrow> usize_max | Some d \<Rightarrow> d,
                           - int (degree ix p), n_id (index_node ix p)))
             (sorted_list_of_set (visited - set seeds)))"

definition edge_for_pair :: "graph_index \<Rightarrow> nat \<Rightarrow> nat \<Rightarrow> (edge \<times> nat \<times> nat) option" where
  "edge_for_pair ix source target =
     (case List.map_filter (\<lambda>e.
          case edge_positions (gi_positions ix) e of
            None \<Rightarrow> None
          | Some (s, t) \<Rightarrow>
              if s = source \<and> t = target
                 \<or> \<not> g_directed (gi_graph ix) \<and> s = target \<and> t = source
              then Some (e, s, t) else None) (g_links (gi_graph ix)) of
        [] \<Rightarrow> None | x # _ \<Rightarrow> Some x)"

fun confidence_text :: "confidence \<Rightarrow> string" where
  "confidence_text Extracted = ''EXTRACTED''"
| "confidence_text Inferred = ''INFERRED''"
| "confidence_text Ambiguous = ''AMBIGUOUS''"

definition community_text :: "node \<Rightarrow> string" where
  "community_text n =
     (case get_str (n_extra n) ''community_name'' of
        Some s \<Rightarrow> s
      | None \<Rightarrow> (case n_community n of Some c \<Rightarrow> show_int c | None \<Rightarrow> []))"

definition learning_note :: "graph \<Rightarrow> node \<Rightarrow> string" where
  "learning_note g n =
     (case Option.bind (Option.bind (bt_get (g_extra g) ''_learning_overlay'') as_object)
             (\<lambda>overlay. Option.bind (bt_get overlay (n_id n)) as_object) of
        None \<Rightarrow> []
      | Some entry \<Rightarrow>
          (let status = (case get_str entry ''status'' of None \<Rightarrow> [] | Some s \<Rightarrow> sanitize_label s)
           in if status = [] then []
              else '' learning='' @ status
                   @ (if Option.bind (bt_get entry ''stale'') as_bool = Some True
                      then '':stale'' else [])))"

definition node_line :: "graph_index \<Rightarrow> nat \<Rightarrow> string" where
  "node_line ix p =
     (let n = index_node ix p
      in ''NODE '' @ sanitize_label (n_label n) @ '' [src='' @ sanitize_label (n_source_file n)
         @ '' loc='' @ sanitize_label (case n_source_location n of None \<Rightarrow> [] | Some l \<Rightarrow> l)
         @ '' community='' @ sanitize_label (community_text n) @ learning_note (gi_graph ix) n @ '']'')"

definition edge_line :: "graph_index \<Rightarrow> edge \<times> nat \<times> nat \<Rightarrow> string" where
  "edge_line ix est =
     (let (e, s, t) = est;
          context = (case get_str (e_extra e) ''context'' of
              None \<Rightarrow> [] | Some c \<Rightarrow> '' context='' @ sanitize_label c);
          place = (case get_str (e_extra e) ''source_location'' of
              None \<Rightarrow> [] | Some l \<Rightarrow> '' at='' @ sanitize_label (e_source_file e) @ '':'' @ sanitize_label l)
      in ''EDGE '' @ sanitize_label (n_label (index_node ix s)) @ '' --'' @ sanitize_label (e_relation e)
         @ '' ['' @ confidence_text (e_confidence e) @ context @ '']--> ''
         @ sanitize_label (n_label (index_node ix t)) @ place)"

definition subgraph_edge_lines :: "graph_index \<Rightarrow> nat set \<Rightarrow> (nat \<times> nat) list \<Rightarrow> string list" where
  "subgraph_edge_lines ix visited edges =
     List.map_filter (\<lambda>(s, t).
         if s \<notin> visited \<or> t \<notin> visited \<or> s = t then None
         else map_option (edge_line ix) (edge_for_pair ix s t)) edges"

definition subgraph_lines :: "graph_index \<Rightarrow> nat set \<Rightarrow> (nat \<times> nat) list \<Rightarrow> nat list \<Rightarrow> string list" where
  "subgraph_lines ix visited edges seeds =
     map (node_line ix) (order_nodes ix visited seeds) @ subgraph_edge_lines ix visited edges"

section \<open>Cutting to the budget\<close>

datatype 'n answer_text = Whole string | Shortened 'n

record subgraph_note =
  sn_shown_nodes :: nat
  sn_nodes :: nat
  sn_shown_edges :: nat
  sn_edges :: nat
  sn_budget :: nat
  sn_omitted :: nat
  sn_cut_nodes :: nat
  sn_kept :: string

definition count_lines :: "string \<Rightarrow> string list \<Rightarrow> nat" where
  "count_lines mark ls = length (filter (\<lambda>l. starts_with l mark) ls)"

definition seed_block_end :: "string list \<Rightarrow> nat" where
  "seed_block_end ls = sum_list (map (\<lambda>l. length l + 1) ls) - 1"

definition cut_subgraph :: "string list \<Rightarrow> nat \<Rightarrow> nat \<Rightarrow> subgraph_note answer_text" where
  "cut_subgraph ls seed_count token_budget =
     (let output = join_lines ls; budget = character_budget token_budget
      in if length output \<le> budget then Whole output
         else
           let i = budget_cut output budget;
               i = (if seed_count \<noteq> 0
                    then max i (min (seed_block_end (take seed_count ls)) (length output)) else i);
               kept = take i output;
               total_nodes = count_lines ''NODE '' ls;
               shown_nodes = count_lines ''NODE '' (text_lines kept);
               total_edges = count_lines ''EDGE '' ls;
               shown_edges = count_lines ''EDGE '' (text_lines kept)
           in Shortened
                \<lparr> sn_shown_nodes = shown_nodes, sn_nodes = total_nodes, sn_shown_edges = shown_edges,
                  sn_edges = total_edges, sn_budget = token_budget,
                  sn_omitted = length ls - length (text_lines kept),
                  sn_cut_nodes = total_nodes - shown_nodes, sn_kept = kept \<rparr>)"

definition subgraph_to_text ::
  "graph_index \<Rightarrow> nat set \<Rightarrow> (nat \<times> nat) list \<Rightarrow> nat \<Rightarrow> nat list \<Rightarrow> subgraph_note answer_text" where
  "subgraph_to_text ix visited edges token_budget seeds =
     cut_subgraph (subgraph_lines ix visited edges seeds)
       (length (filter (\<lambda>p. p \<in> visited) seeds)) token_budget"

record lines_note =
  ln_shown :: nat
  ln_lines :: nat
  ln_budget :: nat
  ln_hint :: string
  ln_kept :: string
  ln_cut :: nat

definition cut_lines_to_budget :: "string list \<Rightarrow> nat \<Rightarrow> string \<Rightarrow> lines_note answer_text" where
  "cut_lines_to_budget ls token_budget narrow_hint =
     (let output = join_lines ls; budget = character_budget token_budget
      in if length output \<le> budget then Whole output
         else
           let kept = take (budget_cut output budget) output;
               shown = length (text_lines kept)
           in Shortened
                \<lparr> ln_shown = shown, ln_lines = length ls, ln_budget = token_budget,
                  ln_hint = narrow_hint, ln_kept = kept, ln_cut = length ls - shown \<rparr>)"

section \<open>No line can be forged\<close>

definition one_line :: "string \<Rightarrow> bool" where
  "one_line s \<longleftrightarrow> newline \<notin> set s \<and> CHR 0x0D \<notin> set s"

lemma one_line_append [simp]: "one_line (s @ t) \<longleftrightarrow> one_line s \<and> one_line t"
  by (auto simp: one_line_def)

lemma one_line_label [simp]: "one_line (sanitize_label s)"
  by (auto simp: one_line_def sanitize_label_def sanitize_optional_label_def is_control_def
      dest!: in_set_takeD)

lemma one_line_simps [simp]:
  "one_line []" "one_line (c # s) \<longleftrightarrow> c \<noteq> newline \<and> c \<noteq> CHR 0x0D \<and> one_line s"
  by (auto simp: one_line_def)

lemma one_line_confidence [simp]: "one_line (confidence_text c)"
  by (cases c) simp_all

lemma one_line_note [simp]: "one_line (learning_note g n)"
  by (simp add: learning_note_def Let_def split: option.split)

lemma one_line_node [simp]: "one_line (node_line ix p)"
  by (simp add: node_line_def Let_def split: option.split)

lemma one_line_edge [simp]: "one_line (edge_line ix est)"
  by (cases est) (simp add: edge_line_def Let_def split: option.split)

lemma lines_nonempty [simp]: "node_line ix p \<noteq> []" "edge_line ix est \<noteq> []"
  by (simp_all add: node_line_def edge_line_def Let_def split: prod.split)

lemma in_map_filter: "y \<in> set (List.map_filter f xs) \<longleftrightarrow> (\<exists>x \<in> set xs. f x = Some y)"
  by (force simp: map_filter_def)

lemma edge_line_mem:
  "l \<in> set (subgraph_edge_lines ix visited edges) \<Longrightarrow> l \<in> range (edge_line ix)"
  by (auto simp: subgraph_edge_lines_def in_map_filter split: if_splits)

lemma clean_subgraph_lines: "clean_lines (subgraph_lines ix visited edges seeds)"
proof -
  have "one_line l \<and> l \<noteq> []" if mem: "l \<in> set (subgraph_lines ix visited edges seeds)" for l
  proof -
    consider p where "l = node_line ix p" | est where "l = edge_line ix est"
      using mem edge_line_mem [of l ix visited edges] by (auto simp: subgraph_lines_def)
    then show ?thesis by cases simp_all
  qed
  then show ?thesis by (auto simp: clean_lines_def one_line_def)
qed

section \<open>What a cut answer keeps\<close>

lemma count_take_le: "count_lines mark (take k ls) \<le> count_lines mark ls"
proof -
  have "count_lines mark ls = count_lines mark (take k ls) + count_lines mark (drop k ls)"
    unfolding count_lines_def by (metis append_take_drop_id filter_append length_append)
  then show ?thesis by simp
qed

lemma seed_block_join:
  "seed_block_end ls = length (join_lines ls)"
proof (induction ls)
  case (Cons l ls)
  then show ?case by (cases ls) (auto simp: seed_block_end_def join_with_Cons)
qed (simp add: seed_block_end_def)

text \<open>The number of lines kept: at least those of the seeds, and otherwise as many as fit.\<close>

lemma cut_subgraph_kept:
  assumes "clean_lines ls" "character_budget b < length (join_lines ls)" "0 < s" "s \<le> length ls"
  obtains k where "s \<le> k" "k \<le> length ls"
    "max (budget_cut (join_lines ls) (character_budget b))
       (min (seed_block_end (take s ls)) (length (join_lines ls))) = length (join_lines (take k ls))"
    "length (join_lines (take k ls)) < character_budget b \<or> k = s"
    "k < length ls \<Longrightarrow> character_budget b \<le> length (join_lines (take (Suc k) ls))"
proof -
  let ?J = "\<lambda>k. length (join_lines (take k ls))"
  have seeds: "min (seed_block_end (take s ls)) (length (join_lines ls)) = ?J s"
    using length_join_take_mono [of s "length ls" ls] assms(4) by (simp add: seed_block_join)
  have mono: "j \<le> k \<Longrightarrow> ?J j \<le> ?J k" for j k by (rule length_join_take_mono)
  show ?thesis
    using assms(1,2)
  proof (cases rule: budget_cut_lines)
    case (whole k)
    show ?thesis
    proof (cases "s \<le> k")
      case True
      then show ?thesis using whole mono [OF True] seeds by (intro that [of k]) (simp_all add: max_def)
    next
      case False
      then have "k \<le> s" "Suc k \<le> s" by simp_all
      then have "max (?J k) (?J s) = ?J s" "?J (Suc k) \<le> ?J (Suc s)"
        using mono [of k s] mono [of "Suc k" "Suc s"] by (simp_all add: max_def)
      then show ?thesis using whole seeds assms(4) by (intro that [of s]) simp_all
    qed
  next
    case part
    have "?J 1 = length (hd ls)" using part(2) by (cases ls) simp_all
    then have "character_budget b \<le> ?J s" "?J s \<le> ?J (Suc s)"
      using part(3) mono [of 1 s] mono [of s "Suc s"] assms(3) by simp_all
    then show ?thesis using part(1) seeds assms(4) by (intro that [of s]) (simp_all add: max_def)
  qed
qed

text \<open>What a cut answer says of itself, when it keeps the first \<open>k\<close> lines.\<close>

definition cut_ok :: "string list \<Rightarrow> nat \<Rightarrow> nat \<Rightarrow> nat \<Rightarrow> subgraph_note \<Rightarrow> bool" where
  "cut_ok ls s b k n \<longleftrightarrow>
     s \<le> k \<and> k \<le> length ls
     \<and> sn_kept n = join_lines (take k ls)
     \<and> text_lines (sn_kept n) = take k ls
     \<and> (length (sn_kept n) < character_budget b \<or> k = s)
     \<and> (k < length ls \<longrightarrow> character_budget b \<le> length (join_lines (take (Suc k) ls)))
     \<and> sn_omitted n = length ls - k
     \<and> sn_shown_nodes n = count_lines ''NODE '' (take k ls)
     \<and> sn_shown_edges n = count_lines ''EDGE '' (take k ls)
     \<and> sn_edges n = count_lines ''EDGE '' ls
     \<and> sn_nodes n = count_lines ''NODE '' ls
     \<and> sn_shown_nodes n + sn_cut_nodes n = sn_nodes n"

lemma cut_subgraph_cases:
  assumes "clean_lines ls" "0 < s" "s \<le> length ls"
  obtains (all) "cut_subgraph ls s b = Whole (join_lines ls)" "length (join_lines ls) \<le> character_budget b"
  | (cut) n k where "cut_subgraph ls s b = Shortened n" "cut_ok ls s b k n"
proof (cases "length (join_lines ls) \<le> character_budget b")
  case True
  then show ?thesis using all by (simp add: cut_subgraph_def Let_def)
next
  case False
  then have "character_budget b < length (join_lines ls)" by simp
  then obtain k where k: "s \<le> k" "k \<le> length ls"
      "max (budget_cut (join_lines ls) (character_budget b))
         (min (seed_block_end (take s ls)) (length (join_lines ls))) = length (join_lines (take k ls))"
      "length (join_lines (take k ls)) < character_budget b \<or> k = s"
      "k < length ls \<Longrightarrow> character_budget b \<le> length (join_lines (take (Suc k) ls))"
    using cut_subgraph_kept [OF assms(1) _ assms(2,3)] by metis
  have kept: "take (length (join_lines (take k ls))) (join_lines ls) = join_lines (take k ls)"
    using join_take_prefix [of k ls] by (auto simp: prefix_def)
  have shown: "text_lines (join_lines (take k ls)) = take k ls"
    using assms(1) by (intro text_lines_join clean_lines_take)
  obtain n where n: "cut_subgraph ls s b = Shortened n"
      "n = \<lparr> sn_shown_nodes = count_lines ''NODE '' (take k ls), sn_nodes = count_lines ''NODE '' ls,
             sn_shown_edges = count_lines ''EDGE '' (take k ls), sn_edges = count_lines ''EDGE '' ls,
             sn_budget = b, sn_omitted = length ls - length (take k ls),
             sn_cut_nodes = count_lines ''NODE '' ls - count_lines ''NODE '' (take k ls),
             sn_kept = join_lines (take k ls) \<rparr>"
    using False assms(2) k(3) kept shown by (simp add: cut_subgraph_def Let_def)
  have "cut_ok ls s b k n"
    using k(1,2,4,5) shown count_take_le [of "''NODE ''" k ls] by (simp add: cut_ok_def n(2))
  then show ?thesis using cut n(1) by blast
qed

lemma node_line_marks [simp]:
  "starts_with (node_line ix p) ''NODE ''" "\<not> starts_with (node_line ix p) ''EDGE ''"
  by (simp_all add: node_line_def Let_def)

lemma edge_line_marks:
  assumes "l \<in> range (edge_line ix)"
  shows "starts_with l ''EDGE '' \<and> \<not> starts_with l ''NODE ''"
  using assms by (auto simp: edge_line_def Let_def)

lemma subgraph_line_counts:
  "count_lines ''NODE '' (subgraph_lines ix visited edges seeds) = length (order_nodes ix visited seeds)"
  "count_lines ''EDGE '' (subgraph_lines ix visited edges seeds) = length (subgraph_edge_lines ix visited edges)"
proof -
  have edges: "\<forall>l \<in> set (subgraph_edge_lines ix visited edges).
      starts_with l ''EDGE '' \<and> \<not> starts_with l ''NODE ''"
    using edge_line_mem edge_line_marks by blast
  then have "filter (\<lambda>l. starts_with l ''NODE '') (subgraph_edge_lines ix visited edges) = []"
    "filter (\<lambda>l. starts_with l ''EDGE '') (subgraph_edge_lines ix visited edges)
       = subgraph_edge_lines ix visited edges"
    by (simp_all add: filter_empty_conv filter_id_conv)
  then show "count_lines ''NODE '' (subgraph_lines ix visited edges seeds) = length (order_nodes ix visited seeds)"
    "count_lines ''EDGE '' (subgraph_lines ix visited edges seeds) = length (subgraph_edge_lines ix visited edges)"
    by (simp_all add: count_lines_def subgraph_lines_def filter_map o_def)
qed

lemma order_nodes_seeds:
  "take (length (filter (\<lambda>p. p \<in> visited) seeds)) (order_nodes ix visited seeds) = filter (\<lambda>p. p \<in> visited) seeds"
  by (simp add: order_nodes_def Let_def)

lemma order_nodes_set: "finite visited \<Longrightarrow> set (order_nodes ix visited seeds) = visited"
  by (auto simp: order_nodes_def Let_def)

lemma subgraph_lines_seeds:
  assumes "s = length (filter (\<lambda>p. p \<in> visited) seeds)"
  shows "s \<le> length (subgraph_lines ix visited edges seeds)"
    and "take s (subgraph_lines ix visited edges seeds) = map (node_line ix) (filter (\<lambda>p. p \<in> visited) seeds)"
  by (simp_all add: assms subgraph_lines_def order_nodes_def Let_def)

text \<open>
  C12: the text of a subgraph that holds a seed. Its lines are one for every visited node, the seeds first,
  and one for every listed edge, and no name in the graph can add, end or hide a line. It is given whole
  exactly when it keeps to the budget. Cut, it keeps the lines of all seeds visited, even when these alone
  exceed the budget, in which case it keeps nothing else (and cuts nothing when there is nothing else);
  otherwise it is shorter than the budget. It ends at the end of a line, leaves out no line that would have
  fitted, and states the numbers of nodes, edges and lines shown and left out correctly.
\<close>

theorem subgraph_text_keeps_seeds:
  fixes ix :: graph_index
  assumes "ls = subgraph_lines ix visited edges seeds" "hits = filter (\<lambda>p. p \<in> visited) seeds" "hits \<noteq> []"
  shows "take (length hits) ls = map (node_line ix) hits
    \<and> count_lines ''NODE '' ls = length (order_nodes ix visited seeds)
    \<and> count_lines ''EDGE '' ls = length (subgraph_edge_lines ix visited edges)
    \<and> text_lines (join_lines ls) = ls
    \<and> (case subgraph_to_text ix visited edges token_budget seeds of
         Whole output \<Rightarrow> output = join_lines ls \<and> length output \<le> character_budget token_budget
       | Shortened n \<Rightarrow> length (join_lines ls) > character_budget token_budget
           \<and> (\<exists>k. cut_ok ls (length hits) token_budget k n))"
proof -
  have clean: "clean_lines ls" unfolding assms(1) by (rule clean_subgraph_lines)
  have hits: "0 < length hits" "length hits \<le> length ls"
    using assms(3) subgraph_lines_seeds(1) [of "length hits"] by (simp_all add: assms(1,2))
  consider (whole) "cut_subgraph ls (length hits) token_budget = Whole (join_lines ls)"
      "length (join_lines ls) \<le> character_budget token_budget"
    | (cut) n k where "cut_subgraph ls (length hits) token_budget = Shortened n"
      "cut_ok ls (length hits) token_budget k n" "length (join_lines ls) > character_budget token_budget"
  proof (rule cut_subgraph_cases [OF clean hits, of token_budget], goal_cases)
    case (2 n k)
    then have "length (join_lines ls) > character_budget token_budget"
      by (simp add: cut_subgraph_def Let_def split: if_splits)
    then show ?case using 2 by blast
  qed blast
  then have "case subgraph_to_text ix visited edges token_budget seeds of
         Whole output \<Rightarrow> output = join_lines ls \<and> length output \<le> character_budget token_budget
       | Shortened n \<Rightarrow> length (join_lines ls) > character_budget token_budget
           \<and> (\<exists>k. cut_ok ls (length hits) token_budget k n)"
    unfolding subgraph_to_text_def assms(1,2) [symmetric] by cases auto
  then show ?thesis
    using subgraph_line_counts subgraph_lines_seeds(2) text_lines_join [OF clean]
    unfolding assms(1,2) by blast
qed

lemma subgraph_text_keeps_seeds_witness:
  "filter (\<lambda>p. p \<in> {0, 1}) [1 :: nat] = [1]
   \<and> text_lines (join_lines (subgraph_lines (new_index sample_graph) {0, 1} [(0, 1)] [1]))
     = subgraph_lines (new_index sample_graph) {0, 1} [(0, 1)] [1]"
  using subgraph_text_keeps_seeds [OF refl refl, of "{0, 1}" "[1]" "new_index sample_graph" "[(0, 1)]" 10]
  by simp

section \<open>The entry points\<close>

text \<open>The result of a query: the seeds, what was visited, and the text. \<open>No_seed\<close> holds the terms that
  matched nothing.\<close>

datatype query_result = No_seed "string list" | Found string "subgraph_note answer_text"

definition choose_seeds ::
  "unicode \<Rightarrow> graph_index \<Rightarrow> string list \<Rightarrow> nat list \<times> graph_index" where
  "choose_seeds u ix terms =
     (let (scores, ix) = score_query u ix terms True
      in (pick_seeds u (qs_ranked scores) 3 (1 / 5) (Some ix) (Some (qs_best_seed_by_term scores)), ix))"

definition quoted :: "string \<Rightarrow> string" where
  "quoted s = [CHR 0x27] @ s @ [CHR 0x27]"

definition escape_quotes :: "string \<Rightarrow> string" where
  "escape_quotes s =
     concat (map (\<lambda>c. if c = CHR 0x5C then [CHR 0x5C, CHR 0x5C]
                      else if c = CHR 0x27 then [CHR 0x5C, CHR 0x27] else [c]) s)"

definition render ::
  "graph_index \<Rightarrow> nat set \<Rightarrow> nat list \<Rightarrow> nat \<Rightarrow> nat \<Rightarrow> bool \<Rightarrow> string \<times> subgraph_note answer_text" where
  "render ix visited seeds budget depth depth_first =
     (''Traversal: '' @ (if depth_first then ''DFS'' else ''BFS'') @ '' depth='' @ show_nat depth
        @ '' | Start: ['' @ join_with '', ''
             (map (\<lambda>p. quoted (escape_quotes (n_label (index_node ix p)))) seeds)
        @ ''] | '' @ show_nat (card visited) @ '' nodes found'' @ [newline, newline],
      subgraph_to_text ix visited (render_edges ix visited) budget seeds)"

definition traverse_graph :: "unicode \<Rightarrow> graph \<Rightarrow> string \<Rightarrow> nat \<Rightarrow> nat \<Rightarrow> bool \<Rightarrow> query_result" where
  "traverse_graph u g question depth token_budget depth_first =
     (let ix = new_index g;
          terms = query_terms question;
          (seeds, ix) = choose_seeds u ix terms
      in if seeds = [] then No_seed (map (\<lambda>t. quoted (sanitize_label t)) terms)
         else
           let visited = traverse_visited ix seeds depth depth_first;
               (header, text) = render ix visited seeds token_budget depth depth_first
           in Found header text)"

definition query_graph :: "unicode \<Rightarrow> graph \<Rightarrow> string \<Rightarrow> nat \<Rightarrow> nat \<Rightarrow> query_result" where
  "query_graph u g question depth token_budget = traverse_graph u g question depth token_budget False"

definition query_graph_dfs :: "unicode \<Rightarrow> graph \<Rightarrow> string \<Rightarrow> nat \<Rightarrow> nat \<Rightarrow> query_result" where
  "query_graph_dfs u g question depth token_budget = traverse_graph u g question depth token_budget True"

definition query_graph_filtered ::
  "unicode \<Rightarrow> graph \<Rightarrow> string \<Rightarrow> nat \<Rightarrow> nat \<Rightarrow> string list \<Rightarrow> query_result" where
  "query_graph_filtered u g question depth token_budget relation_filters =
     traverse_graph u (filter_graph_by_context u g relation_filters) question depth token_budget False"

definition query_graph_dfs_filtered ::
  "unicode \<Rightarrow> graph \<Rightarrow> string \<Rightarrow> nat \<Rightarrow> nat \<Rightarrow> string list \<Rightarrow> query_result" where
  "query_graph_dfs_filtered u g question depth token_budget relation_filters =
     traverse_graph u (filter_graph_by_context u g relation_filters) question depth token_budget True"

text \<open>The other entry point keeps a cache of the caller, resolves the contexts itself and walks the
  filtered graph with \<open>bfs\<close> or \<open>dfs\<close>; \<open>None\<close> is a panic.\<close>

definition query_walk :: "graph_index \<Rightarrow> nat list \<Rightarrow> string \<Rightarrow> nat \<Rightarrow> (nat set \<times> (nat \<times> nat) list) option" where
  "query_walk ix starts mode depth =
     (if ascii_lowercase mode = ''dfs'' then dfs ix starts depth else Some (bfs ix starts depth))"

definition query_header ::
  "graph_index \<Rightarrow> nat list \<Rightarrow> string \<Rightarrow> nat \<Rightarrow> string list \<Rightarrow> string option \<Rightarrow> nat set \<Rightarrow> string" where
  "query_header ix starts mode depth contexts context_source visited =
     ''Traversal: '' @ (if ascii_lowercase mode = ''dfs'' then ''DFS'' else ''BFS'')
       @ '' depth='' @ show_nat depth @ '' | Start: [''
       @ join_with '', '' (map (\<lambda>p. quoted (n_label (index_node ix p))) starts) @ '']''
       @ (if contexts = [] then []
          else '' | Context: '' @ join_with '', '' contexts @ '' (''
               @ (case context_source of None \<Rightarrow> ''explicit'' | Some s \<Rightarrow> s) @ '')'')
       @ '' | '' @ show_nat (card visited) @ '' nodes found'' @ [newline, newline]"

definition query_graph_text_impl ::
  "unicode \<Rightarrow> graph \<Rightarrow> string \<Rightarrow> string \<Rightarrow> nat \<Rightarrow> nat \<Rightarrow> string list \<Rightarrow> query_cache
   \<Rightarrow> query_result option \<times> query_cache" where
  "query_graph_text_impl u g question mode depth token_budget explicit cache =
     (let (starts, score_index) = choose_seeds u (new_with_cache g cache) (query_terms question)
      in (if starts = [] then Some (No_seed [])
          else
            let (contexts, context_source) = resolve_context_filters u question explicit;
                ix = new_index (filter_graph_by_context u g contexts)
            in map_option (\<lambda>(visited, edges).
                 Found (query_header ix starts mode depth contexts context_source visited)
                   (subgraph_to_text ix visited edges token_budget starts))
                 (query_walk ix starts mode depth),
          gi_cache score_index))"

definition query_graph_text ::
  "unicode \<Rightarrow> graph \<Rightarrow> string \<Rightarrow> string \<Rightarrow> nat \<Rightarrow> nat \<Rightarrow> string list \<Rightarrow> query_result option" where
  "query_graph_text u g question mode depth token_budget explicit =
     fst (query_graph_text_impl u g question mode depth token_budget explicit default_cache)"

definition query_graph_text_with_cache ::
  "unicode \<Rightarrow> graph \<Rightarrow> query_cache \<Rightarrow> string \<Rightarrow> string \<Rightarrow> nat \<Rightarrow> nat \<Rightarrow> string list
   \<Rightarrow> query_result option \<times> query_cache" where
  "query_graph_text_with_cache u g cache question mode depth token_budget explicit =
     query_graph_text_impl u g question mode depth token_budget explicit cache"

section \<open>What an answer covers\<close>












lemma bfs_visited:
  assumes "set starts \<subseteq> {..<length (g_nodes g)}"
  shows "fst (bfs (new_with_cache g cache) starts depth)
    = ball (walk_step (new_with_cache g cache) (set starts)) (set starts) depth"
  by (rule bfs_result [OF assms, of cache depth]) simp







text \<open>
  The two implementations of the breadth-first answer agree: \<open>query_graph\<close> visits exactly the
  nodes that \<open>bfs\<close> visits from the same seeds; its depth-first variant visits the seeds and only nodes
  that \<open>bfs\<close> visits.
\<close>

lemma traversals_agree:
  assumes "set seeds \<subseteq> {..<length (g_nodes g)}"
  shows "traverse_visited (new_with_cache g cache) seeds depth False
      = fst (bfs (new_with_cache g cache) seeds depth)
    \<and> set seeds \<subseteq> traverse_visited (new_with_cache g cache) seeds depth True
    \<and> traverse_visited (new_with_cache g cache) seeds depth True
      \<subseteq> fst (bfs (new_with_cache g cache) seeds depth)"
  using traverse_visited_result [OF assms] bfs_visited [OF assms] by simp

lemma traversals_agree_witness:
  "set [0] \<subseteq> {..<length (g_nodes sample_graph)}
   \<and> traverse_visited (new_with_cache sample_graph default_cache) [0] 1 False
     = fst (bfs (new_with_cache sample_graph default_cache) [0] 1)"
proof -
  have "set [0] \<subseteq> {..<length (g_nodes sample_graph)}" by (simp add: sample_graph_def)
  then show ?thesis using traversals_agree by blast
qed

end
