(* ===== verification/Affected.thy ===== *)
theory Affected
  imports QueryText
begin

text \<open>
  Impact analysis (\<open>graphoxide-query/src/affected.rs\<close>): the node a name stands for, and the nodes that
  depend on it within a number of steps. Canonical composition of characters is a parameter
  (\<open>u_nfc\<close> below); a missing node is the message the code answers.
\<close>

section \<open>The seed\<close>

definition default_relations :: "string list" where
  "default_relations =
    [''calls'', ''indirect_call'', ''references'', ''imports'', ''imports_from'', ''re_exports'',
     ''inherits'', ''extends'', ''implements'', ''uses'', ''mixes_in'', ''embeds'', ''requires'']"

definition normalized_name :: "(string \<Rightarrow> string) \<Rightarrow> string \<Rightarrow> string" where
  "normalized_name nfc s = lowercase (nfc s)"

definition bare_name :: "(string \<Rightarrow> string) \<Rightarrow> string \<Rightarrow> string" where
  "bare_name nfc s =
     (let n = normalized_name nfc s
      in case strip_suffix ''()'' n of None \<Rightarrow> n | Some b \<Rightarrow> b)"

text \<open>The positions whose node has a property, and the one there is when there is just one.\<close>

definition positions_where :: "graph \<Rightarrow> (node \<Rightarrow> bool) \<Rightarrow> nat list" where
  "positions_where g P = filter (\<lambda>p. P (g_nodes g ! p)) [0..<length (g_nodes g)]"

definition only_one :: "'a list \<Rightarrow> 'a option" where
  "only_one xs = (case xs of [x] \<Rightarrow> Some x | _ \<Rightarrow> None)"

definition prefer_file_node :: "(string \<Rightarrow> string) \<Rightarrow> graph \<Rightarrow> nat list \<Rightarrow> string \<Rightarrow> nat option" where
  "prefer_file_node nfc g matches query =
     (let basename = normalized_name nfc (query_basename query);
          l1 = (\<lambda>p. n_source_location (g_nodes g ! p) = Some ''L1'');
          named = (\<lambda>p. normalized_name nfc (n_label (g_nodes g ! p)) = basename)
      in case only_one (filter (\<lambda>p. l1 p \<and> named p) matches) of
           Some p \<Rightarrow> Some p
         | None \<Rightarrow>
             (case only_one (filter l1 matches) of
                Some p \<Rightarrow> Some p
              | None \<Rightarrow> only_one (filter named matches)))"

definition resolve_seed :: "(string \<Rightarrow> string) \<Rightarrow> graph \<Rightarrow> string \<Rightarrow> nat option" where
  "resolve_seed nfc g raw =
     (let ix = new_index g;
          query = trim_end_by is_separator raw;
          query = (if query = [] then ''/'' else query)
      in case position ix query of
           Some p \<Rightarrow> Some p
         | None \<Rightarrow>
             let normalized = normalized_name nfc query
             in case only_one (positions_where g (\<lambda>n. normalized_name nfc (n_label n) = normalized)) of
                  Some p \<Rightarrow> Some p
                | None \<Rightarrow>
                    (case only_one (positions_where g (\<lambda>n. bare_name nfc (n_label n) = bare_name nfc query)) of
                       Some p \<Rightarrow> Some p
                     | None \<Rightarrow>
                         let sources = positions_where g (\<lambda>n. normalized_name nfc (n_source_file n) = normalized)
                         in case only_one sources of
                              Some p \<Rightarrow> Some p
                            | None \<Rightarrow>
                                (case (if sources \<noteq> [] then prefer_file_node nfc g sources query else None) of
                                   Some p \<Rightarrow> Some p
                                 | None \<Rightarrow>
                                     only_one (positions_where g
                                       (\<lambda>n. contains (normalized_name nfc (n_label n)) normalized)))))"

section \<open>The reverse search\<close>

text \<open>An entry of the queue is a node with its depth, a hit a node with its depth and the edge that led
  to it.\<close>

type_synonym hit = "nat \<times> nat \<times> nat"

definition member_of :: "graph_index \<Rightarrow> nat \<Rightarrow> edge \<Rightarrow> nat option" where
  "member_of ix seed e =
     (if true_source e = n_id (index_node ix seed) \<and> e_relation e \<in> set [''method'', ''contains'']
      then position ix (true_target e) else None)"

definition add_member ::
  "graph_index \<Rightarrow> nat \<Rightarrow> edge \<Rightarrow> nat set \<times> (nat \<times> nat) list \<Rightarrow> nat set \<times> (nat \<times> nat) list" where
  "add_member ix seed e st =
     (case member_of ix seed e of
        None \<Rightarrow> st
      | Some m \<Rightarrow> if m \<in> fst st then st else (insert m (fst st), snd st @ [(m, 0)]))"

definition impact_source :: "graph_index \<Rightarrow> string set \<Rightarrow> nat \<Rightarrow> edge \<Rightarrow> nat option" where
  "impact_source ix allowed current e =
     (if true_target e \<noteq> n_id (index_node ix current) then None
      else if e_relation e \<notin> allowed then None
      else position ix (true_source e))"

definition affected_edge ::
  "graph_index \<Rightarrow> string set \<Rightarrow> nat \<Rightarrow> nat \<Rightarrow> nat \<times> edge
   \<Rightarrow> nat set \<times> (nat \<times> nat) list \<times> hit list \<Rightarrow> nat set \<times> (nat \<times> nat) list \<times> hit list" where
  "affected_edge ix allowed current d ke st =
     (let (k, e) = ke; (seen, queue, hits) = st
      in case impact_source ix allowed current e of
           None \<Rightarrow> st
         | Some s \<Rightarrow>
             if s \<in> seen then st else (insert s seen, queue @ [(s, d + 1)], hits @ [(s, d + 1, k)]))"

definition numbered_links :: "graph_index \<Rightarrow> (nat \<times> edge) list" where
  "numbered_links ix = zip [0..<length (g_links (gi_graph ix))] (g_links (gi_graph ix))"

text \<open>Every node that can be added is one that the index knows.\<close>

definition indexed :: "graph_index \<Rightarrow> nat set" where
  "indexed ix = (\<lambda>e. the (position ix (true_source e))) ` set (g_links (gi_graph ix))"

lemma affected_edges_measure:
  assumes "snd ` set kes \<subseteq> set (g_links (gi_graph ix))"
    and "fold (affected_edge ix allowed current d) kes (seen, queue, hits) = (seen', queue', hits')"
  shows "card (indexed ix - seen') + length queue' \<le> card (indexed ix - seen) + length queue"
  using assms
proof (induction kes arbitrary: seen queue hits)
  case (Cons ke kes)
  obtain k e where ke: "ke = (k, e)" by fastforce
  show ?case
  proof (cases "\<exists>s. impact_source ix allowed current e = Some s \<and> s \<notin> seen")
    case True
    then obtain s where s: "impact_source ix allowed current e = Some s" "s \<notin> seen" by blast
    then have "s \<in> indexed ix - seen"
      using Cons.prems(1) ke by (force simp: impact_source_def indexed_def split: if_splits)
    then have "card (indexed ix - seen) = Suc (card (indexed ix - insert s seen))"
      by (metis Diff_insert card.remove finite_Diff finite_imageI indexed_def List.finite_set)
    moreover have "card (indexed ix - seen') + length queue'
        \<le> card (indexed ix - insert s seen) + length (queue @ [(s, d + 1)])"
      using Cons.prems s ke
      by (intro Cons.IH [where hits = "hits @ [(s, d + 1, k)]"]) (simp_all add: affected_edge_def)
    ultimately show ?thesis by simp
  next
    case False
    then have "affected_edge ix allowed current d ke (seen, queue, hits) = (seen, queue, hits)"
      by (auto simp: affected_edge_def ke split: option.split)
    then show ?thesis using Cons by simp
  qed
qed simp

function affected_loop ::
  "graph_index \<Rightarrow> string set \<Rightarrow> nat \<Rightarrow> nat set \<Rightarrow> (nat \<times> nat) list \<Rightarrow> hit list \<Rightarrow> hit list" where
  "affected_loop ix allowed depth seen [] hits = hits"
| "affected_loop ix allowed depth seen ((current, d) # queue) hits =
     (if d \<ge> depth then affected_loop ix allowed depth seen queue hits
      else
        let (seen', queue', hits') = fold (affected_edge ix allowed current d) (numbered_links ix) (seen, queue, hits)
        in affected_loop ix allowed depth seen' queue' hits')"
  by pat_completeness auto
termination
proof (relation "measure (\<lambda>(ix, allowed, depth, seen, queue, hits). card (indexed ix - seen) + length queue)", goal_cases)
  case (3 ix allowed depth seen current d queue hits st seen' rest queue' hits')
  then have run: "fold (affected_edge ix allowed current d) (numbered_links ix) (seen, queue, hits)
      = (seen', queue', hits')" by simp
  have "snd ` set (numbered_links ix) \<subseteq> set (g_links (gi_graph ix))"
    by (auto simp: numbered_links_def dest: set_zip_rightD)
  then show ?case using affected_edges_measure [OF _ run] by simp
qed simp_all

definition affected_hits :: "graph_index \<Rightarrow> nat \<Rightarrow> nat \<Rightarrow> string list \<Rightarrow> hit list" where
  "affected_hits ix seed depth relations =
     (let allowed = set (if relations = [] then default_relations else relations);
          (seen, queue) = fold (add_member ix seed) (g_links (gi_graph ix)) ({seed}, [(seed, 0)])
      in affected_loop ix allowed depth seen queue [])"

definition hit_line :: "graph_index \<Rightarrow> hit \<Rightarrow> string" where
  "hit_line ix h =
     (let (p, _, k) = h; n = index_node ix p; e = index_edge_at ix k;
          path = (if e_source_file e = [] then n_source_file n else e_source_file e);
          location = (case get_str (e_extra e) ''source_location'' of
              Some l \<Rightarrow> l | None \<Rightarrow> (case n_source_location n of Some l \<Rightarrow> l | None \<Rightarrow> []));
          place = (if location = [] then sanitize_label path
                   else sanitize_label path @ '':'' @ sanitize_label location)
      in ''- '' @ sanitize_label (n_label n) @ '' ['' @ sanitize_label (e_relation e) @ ''] '' @ place)"

definition affected :: "(string \<Rightarrow> string) \<Rightarrow> graph \<Rightarrow> string \<Rightarrow> nat \<Rightarrow> string list \<Rightarrow> string" where
  "affected nfc g query depth relations =
     (let ix = new_index g
      in case resolve_seed nfc g query of
           None \<Rightarrow> ''No unique node match for '' @ query
         | Some seed \<Rightarrow>
             let hits = affected_hits ix seed depth relations
             in join_with [CHR 0x0A]
                  ([''Affected nodes for '' @ sanitize_label (n_label (index_node ix seed)),
                    ''Relations: '' @ join_with '', '' (if relations = [] then default_relations else relations),
                    ''Depth: '' @ show_nat depth]
                   @ (if hits = [] then [''No affected nodes found.''] else [])
                   @ map (hit_line ix) hits))"

section \<open>What the search finds\<close>

definition impact_sources :: "graph_index \<Rightarrow> string set \<Rightarrow> nat \<Rightarrow> nat list" where
  "impact_sources ix allowed p = List.map_filter (\<lambda>ke. impact_source ix allowed p (snd ke)) (numbered_links ix)"

interpretation impact: queue_search "impact_sources ix allowed" start for ix allowed start .

definition impact_start :: "graph_index \<Rightarrow> nat \<Rightarrow> nat set" where
  "impact_start ix seed = insert seed (set (List.map_filter (member_of ix seed) (g_links (gi_graph ix))))"

lemma add_members:
  assumes "fold (add_member ix seed) es (seen, queue) = (seen', queue')" "set (map fst queue) = seen"
    "\<forall>pd \<in> set queue. snd pd = 0"
  shows "seen' = seen \<union> set (List.map_filter (member_of ix seed) es)
    \<and> set (map fst queue') = seen' \<and> (\<forall>pd \<in> set queue'. snd pd = 0)"
  using assms
proof (induction es arbitrary: seen queue)
  case (Cons e es)
  show ?case
  proof (cases "\<exists>m. member_of ix seed e = Some m \<and> m \<notin> seen")
    case True
    then obtain m where m: "member_of ix seed e = Some m" "m \<notin> seen" by blast
    then have "add_member ix seed e (seen, queue) = (insert m seen, queue @ [(m, 0)])"
      by (simp add: add_member_def)
    then have "fold (add_member ix seed) es (insert m seen, queue @ [(m, 0)]) = (seen', queue')"
      using Cons.prems(1) by simp
    from Cons.IH [OF this] show ?thesis using m Cons.prems(2,3) by (auto simp: map_filter_simps)
  next
    case False
    then have "add_member ix seed e (seen, queue) = (seen, queue)"
      by (auto simp: add_member_def split: option.split)
    then have "fold (add_member ix seed) es (seen, queue) = (seen', queue')" using Cons.prems(1) by simp
    from Cons.IH [OF this] show ?thesis
      using False Cons.prems(2,3) by (cases "member_of ix seed e") (auto simp: map_filter_simps)
  qed
qed (simp add: map_filter_simps)

text \<open>The edges of one node: what they add to the queue and to the hits is what the search with a map
  of distances adds.\<close>

lemma affected_edges_found:
  assumes "fold (affected_edge ix allowed current d) kes (dom D, queue, hits) = (seen', queue', hits')"
  shows "\<exists>new D'. queue' = queue @ map (\<lambda>(q, k). (q, Suc d)) new
    \<and> hits' = hits @ map (\<lambda>(q, k). (q, Suc d, k)) new
    \<and> fold (push_found (Suc d)) (List.map_filter (\<lambda>ke. impact_source ix allowed current (snd ke)) kes)
        (D, map fst queue) = (D', map fst queue')
    \<and> seen' = dom D' \<and> distinct (map fst new)
    \<and> (\<forall>(q, k) \<in> set new. D q = None \<and> D' q = Some (Suc d)
         \<and> (\<exists>e. (k, e) \<in> set kes \<and> impact_source ix allowed current e = Some q))
    \<and> (\<forall>q. D q = None \<longrightarrow> D' q \<noteq> None \<longrightarrow> q \<in> fst ` set new)
    \<and> (\<forall>q j. D q = Some j \<longrightarrow> D' q = Some j)"
  using assms
proof (induction kes arbitrary: D queue hits)
  case Nil
  then show ?case by (intro exI [of _ "[]"] exI [of _ D]) (simp add: map_filter_simps)
next
  case (Cons ke kes)
  obtain k e where ke: "ke = (k, e)" by fastforce
  show ?case
  proof (cases "\<exists>s. impact_source ix allowed current e = Some s \<and> D s = None")
    case True
    then obtain s where s: "impact_source ix allowed current e = Some s" "D s = None" by blast
    then have seen: "s \<notin> dom D" by auto
    have "affected_edge ix allowed current d ke (dom D, queue, hits)
        = (dom (D(s \<mapsto> Suc d)), queue @ [(s, Suc d)], hits @ [(s, Suc d, k)])"
      using s seen by (simp add: affected_edge_def ke)
    then have "fold (affected_edge ix allowed current d) kes
        (dom (D(s \<mapsto> Suc d)), queue @ [(s, Suc d)], hits @ [(s, Suc d, k)]) = (seen', queue', hits')"
      using Cons.prems by simp
    from Cons.IH [OF this] obtain new D' where new:
      "queue' = (queue @ [(s, Suc d)]) @ map (\<lambda>(q, k). (q, Suc d)) new"
      "hits' = (hits @ [(s, Suc d, k)]) @ map (\<lambda>(q, k). (q, Suc d, k)) new"
      "fold (push_found (Suc d)) (List.map_filter (\<lambda>ke. impact_source ix allowed current (snd ke)) kes)
        (D(s \<mapsto> Suc d), map fst (queue @ [(s, Suc d)])) = (D', map fst queue')"
      "seen' = dom D'" "distinct (map fst new)"
      "\<forall>(q, k) \<in> set new. (D(s \<mapsto> Suc d)) q = None \<and> D' q = Some (Suc d)
         \<and> (\<exists>e. (k, e) \<in> set kes \<and> impact_source ix allowed current e = Some q)"
      "\<forall>q. (D(s \<mapsto> Suc d)) q = None \<longrightarrow> D' q \<noteq> None \<longrightarrow> q \<in> fst ` set new"
      "\<forall>q j. (D(s \<mapsto> Suc d)) q = Some j \<longrightarrow> D' q = Some j" by blast
    have push: "push_found (Suc d) s (D, map fst queue) = (D(s \<mapsto> Suc d), map fst (queue @ [(s, Suc d)]))"
      using s(2) by (simp add: push_found_def)
    have found: "fold (push_found (Suc d)) (List.map_filter (\<lambda>ke. impact_source ix allowed current (snd ke)) (ke # kes))
        (D, map fst queue) = (D', map fst queue')"
      using new(3) s(1) push ke by (simp add: map_filter_simps)
    have s': "D' s = Some (Suc d)" using new(8) by simp
    have fresh: "s \<notin> fst ` set new" using new(6) by auto
    have "D q = None \<and> D' q = Some (Suc d)
         \<and> (\<exists>e. (k, e) \<in> set (ke # kes) \<and> impact_source ix allowed current e = Some q)"
      if "(q, k) \<in> set new" for q k
    proof -
      have "(D(s \<mapsto> Suc d)) q = None" "D' q = Some (Suc d)"
        "\<exists>e. (k, e) \<in> set kes \<and> impact_source ix allowed current e = Some q" using new(6) that by auto
      then show ?thesis by (auto split: if_splits)
    qed
    moreover have "q \<in> fst ` set ((s, k) # new)" if "D q = None" "D' q \<noteq> None" for q
      using new(7) that by (cases "q = s") auto
    moreover have "D' q = Some j" if "D q = Some j" for q j
      using new(8) that s(2) by (cases "q = s") auto
    ultimately show ?thesis
      using new(1,2,4,5) found s s' fresh ke
      by (intro exI [of _ "(s, k) # new"] exI [of _ D']) auto
  next
    case False
    then have "affected_edge ix allowed current d ke (dom D, queue, hits) = (dom D, queue, hits)"
      by (auto simp: affected_edge_def ke split: option.split)
    then have "fold (affected_edge ix allowed current d) kes (dom D, queue, hits) = (seen', queue', hits')"
      using Cons.prems by simp
    from Cons.IH [OF this] obtain new D' where new:
      "queue' = queue @ map (\<lambda>(q, k). (q, Suc d)) new"
      "hits' = hits @ map (\<lambda>(q, k). (q, Suc d, k)) new"
      "fold (push_found (Suc d)) (List.map_filter (\<lambda>ke. impact_source ix allowed current (snd ke)) kes)
        (D, map fst queue) = (D', map fst queue')"
      "seen' = dom D'" "distinct (map fst new)"
      "\<forall>(q, k) \<in> set new. D q = None \<and> D' q = Some (Suc d)
         \<and> (\<exists>e. (k, e) \<in> set kes \<and> impact_source ix allowed current e = Some q)"
      "\<forall>q. D q = None \<longrightarrow> D' q \<noteq> None \<longrightarrow> q \<in> fst ` set new"
      "\<forall>q j. D q = Some j \<longrightarrow> D' q = Some j" by blast
    have "fold (push_found (Suc d)) (List.map_filter (\<lambda>ke. impact_source ix allowed current (snd ke)) (ke # kes))
        (D, map fst queue) = (D', map fst queue')"
      using new(3) False ke
      by (cases "impact_source ix allowed current e") (auto simp: map_filter_simps push_found_def)
    then show ?thesis
      using new by (intro exI [of _ new] exI [of _ D']) fastforce
  qed
qed

text \<open>The hits so far: each node once, with its distance and an edge from it to a node one step nearer;
  they are all the known nodes but the start, nearest first.\<close>

definition hits_ok :: "graph_index \<Rightarrow> string set \<Rightarrow> (nat \<rightharpoonup> nat) \<Rightarrow> hit list \<Rightarrow> bool" where
  "hits_ok ix allowed D hits \<longleftrightarrow>
     distinct (map fst hits)
     \<and> fst ` set hits = {p. \<exists>d. D p = Some (Suc d)}
     \<and> (\<forall>(p, d, k) \<in> set hits. D p = Some d \<and> (\<exists>r e. D r = Some (d - 1) \<and> (k, e) \<in> set (numbered_links ix)
          \<and> impact_source ix allowed r e = Some p))
     \<and> sorted (map (\<lambda>h. fst (snd h)) hits)"

lemma hits_ok_entry:
  assumes "hits_ok ix allowed D hits"
  shows "(p, d, k) \<in> set hits \<Longrightarrow> D p = Some d \<and> 0 < d"
    and "D p = Some (Suc d) \<Longrightarrow> \<exists>k. (p, Suc d, k) \<in> set hits"
proof -
  have known: "fst ` set hits = {p. \<exists>d. D p = Some (Suc d)}" using assms by (simp add: hits_ok_def)
  have depth: "D p = Some d" if "(p, d, k) \<in> set hits" for p d k
    using assms that by (auto simp: hits_ok_def)
  show "D p = Some d \<and> 0 < d" if hit: "(p, d, k) \<in> set hits"
  proof -
    have "p \<in> fst ` set hits" using hit by force
    then obtain d' where "D p = Some (Suc d')" unfolding known by blast
    then show ?thesis using depth [OF hit] by simp
  qed
  assume "D p = Some (Suc d)"
  then have "p \<in> fst ` set hits" unfolding known by blast
  then obtain d' k where "(p, d', k) \<in> set hits" by force
  then show "\<exists>k. (p, Suc d, k) \<in> set hits" using depth \<open>D p = Some (Suc d)\<close> by fastforce
qed

lemma hits_ok_step:
  assumes "hits_ok ix allowed D hits" "D current = Some d"
    and low: "\<forall>p j. D p = Some j \<longrightarrow> j \<le> Suc d"
    and new: "distinct (map fst new)"
      "\<forall>(q, k) \<in> set new. D q = None \<and> D' q = Some (Suc d)
         \<and> (\<exists>e. (k, e) \<in> set (numbered_links ix) \<and> impact_source ix allowed current e = Some q)"
      "\<forall>q. D q = None \<longrightarrow> D' q \<noteq> None \<longrightarrow> q \<in> fst ` set new"
      "\<forall>q j. D q = Some j \<longrightarrow> D' q = Some j"
  shows "hits_ok ix allowed D' (hits @ map (\<lambda>(q, k). (q, Suc d, k)) new)"
proof -
  have names: "map fst (map (\<lambda>(q, k). (q, Suc d, k)) new) = map fst new" by auto
  have levels: "map (\<lambda>h. fst (snd h)) (map (\<lambda>(q, k). (q, Suc d, k)) new) = map (\<lambda>_. Suc d) new" by auto
  have old: "fst ` set hits = {p. \<exists>d. D p = Some (Suc d)}" using assms(1) by (simp add: hits_ok_def)
  have fresh: "D q = None" "D' q = Some (Suc d)" if "q \<in> fst ` set new" for q using new(2) that by fastforce+
  have "distinct (map fst (hits @ map (\<lambda>(q, k). (q, Suc d, k)) new))"
    unfolding map_append names distinct_append
    using assms(1) new(1) old fresh(1) by (fastforce simp: hits_ok_def)
  moreover have "fst ` set (hits @ map (\<lambda>(q, k). (q, Suc d, k)) new) = {p. \<exists>d. D' p = Some (Suc d)}"
  proof -
    have "{p. \<exists>d. D' p = Some (Suc d)} = {p. \<exists>d. D p = Some (Suc d)} \<union> fst ` set new"
    proof (intro set_eqI iffI)
      fix p
      assume "p \<in> {p. \<exists>d. D' p = Some (Suc d)}"
      then obtain j where j: "D' p = Some (Suc j)" by blast
      show "p \<in> {p. \<exists>d. D p = Some (Suc d)} \<union> fst ` set new"
      proof (cases "D p")
        case None
        then show ?thesis using j new(3) by auto
      next
        case (Some i)
        then have "D' p = Some i" using new(4) by blast
        then show ?thesis using j Some by auto
      qed
    next
      fix p
      assume "p \<in> {p. \<exists>d. D p = Some (Suc d)} \<union> fst ` set new"
      then show "p \<in> {p. \<exists>d. D' p = Some (Suc d)}" using new(4) fresh(2) by blast
    qed
    then show ?thesis unfolding set_append image_Un old [symmetric] using names by (metis set_map)
  qed
  moreover have "D' p = Some j \<and> (\<exists>r e. D' r = Some (j - 1) \<and> (k, e) \<in> set (numbered_links ix)
      \<and> impact_source ix allowed r e = Some p)"
    if hit: "(p, j, k) \<in> set (hits @ map (\<lambda>(q, k). (q, Suc d, k)) new)" for p j k
  proof (cases "(p, j, k) \<in> set hits")
    case True
    then obtain r e where "D p = Some j" "D r = Some (j - 1)" "(k, e) \<in> set (numbered_links ix)"
      "impact_source ix allowed r e = Some p" using assms(1) by (auto simp: hits_ok_def)
    then show ?thesis using new(4) by blast
  next
    case False
    then have "j = Suc d" "(p, k) \<in> set new" using hit by auto
    then show ?thesis using new(2,4) assms(2) by fastforce
  qed
  moreover have "sorted (map (\<lambda>h. fst (snd h)) (hits @ map (\<lambda>(q, k). (q, Suc d, k)) new))"
  proof -
    have "j \<le> Suc d" if "(p, j, k) \<in> set hits" for p j k
      using that assms(1) low by (fastforce simp: hits_ok_def)
    then show ?thesis
      unfolding map_append levels sorted_append
      using assms(1) by (auto simp: hits_ok_def map_replicate_const)
  qed
  ultimately show ?thesis unfolding hits_ok_def by blast
qed

lemma affected_loop_idle:
  "\<forall>(p, j) \<in> set queue. depth \<le> j \<Longrightarrow> affected_loop ix allowed depth seen queue hits = hits"
  by (induction queue) auto

lemma affected_loop_found:
  assumes "impact.queue_ok ix allowed start D (map fst queue) k" "\<forall>(p, d) \<in> set queue. D p = Some d"
    and "hits_ok ix allowed D hits" "\<forall>p j. D p = Some j \<longrightarrow> j \<le> depth"
  shows "\<exists>D'. hits_ok ix allowed D' (affected_loop ix allowed depth (dom D) queue hits)
    \<and> (\<forall>p d. D' p = Some d \<longleftrightarrow> d \<le> depth \<and> hops (impact.succ ix allowed) start d p
          \<and> (\<forall>j. hops (impact.succ ix allowed) start j p \<longrightarrow> d \<le> j))"
  using assms
proof (induction ix allowed depth "dom D" queue hits arbitrary: D k rule: affected_loop.induct)
  case (1 ix allowed depth hits)
  have "D p = Some d \<longleftrightarrow> d \<le> depth \<and> hops (impact.succ ix allowed) start d p
          \<and> (\<forall>j. hops (impact.succ ix allowed) start j p \<longrightarrow> d \<le> j)" for p d
    using impact.queue_done [of ix allowed start D k p d] 1 by auto
  then show ?case using 1 by auto
next
  case (2 ix allowed depth current d queue hits)
  have head: "D current = Some d" using "2.prems"(2) by simp
  have mono: "\<forall>(p, j) \<in> set ((current, d) # queue). d \<le> j"
    using "2.prems"(1,2) head by (fastforce simp: impact.queue_ok_def)
  show ?case
  proof (cases "d \<ge> depth")
    case True
    then have "\<forall>(p, j) \<in> set ((current, d) # queue). depth \<le> j" using mono by fastforce
    then have loop: "affected_loop ix allowed depth (dom D) ((current, d) # queue) hits = hits"
      by (rule affected_loop_idle)
    have ok: "impact.queue_ok ix allowed start D (map fst ((current, d) # queue)) d"
      using impact.queue_head [of ix allowed start D current "map fst queue" k] "2.prems"(1) head by simp
    have "D p = Some j \<longleftrightarrow> j \<le> depth \<and> hops (impact.succ ix allowed) start j p
          \<and> (\<forall>i. hops (impact.succ ix allowed) start i p \<longrightarrow> j \<le> i)" for p j
    proof (cases "j \<le> depth")
      case below: True
      then show ?thesis using impact.queue_within [OF ok, of j p] True by auto
    next
      case False
      then show ?thesis using "2.prems"(4) by auto
    qed
    then show ?thesis unfolding loop using "2.prems"(3) by (intro exI [of _ D]) blast
  next
    case False
    obtain seen' queue' hits' where
      run: "fold (affected_edge ix allowed current d) (numbered_links ix) (dom D, queue, hits) = (seen', queue', hits')"
      by (metis prod_cases3)
    obtain new D' where new: "queue' = queue @ map (\<lambda>(q, k). (q, Suc d)) new"
      "hits' = hits @ map (\<lambda>(q, k). (q, Suc d, k)) new"
      "fold (push_found (Suc d)) (impact_sources ix allowed current) (D, map fst queue) = (D', map fst queue')"
      "seen' = dom D'" "distinct (map fst new)"
      "\<forall>(q, k) \<in> set new. D q = None \<and> D' q = Some (Suc d)
         \<and> (\<exists>e. (k, e) \<in> set (numbered_links ix) \<and> impact_source ix allowed current e = Some q)"
      "\<forall>q. D q = None \<longrightarrow> D' q \<noteq> None \<longrightarrow> q \<in> fst ` set new"
      "\<forall>q j. D q = Some j \<longrightarrow> D' q = Some j"
      using affected_edges_found [OF run] unfolding impact_sources_def by blast
    have ok: "impact.queue_ok ix allowed start D (current # map fst queue) d"
      using impact.queue_head [of ix allowed start D current "map fst queue" k] "2.prems"(1) head by simp
    have ok': "impact.queue_ok ix allowed start D' (map fst queue') d"
      using impact.queue_step [OF ok] new(3) head by simp
    have depths: "\<forall>(p, d) \<in> set queue'. D' p = Some d"
      using "2.prems"(2) new(1,6,8) by fastforce
    have low: "\<forall>p j. D p = Some j \<longrightarrow> j \<le> Suc d" using ok by (auto simp: impact.queue_ok_def)
    have hits: "hits_ok ix allowed D' hits'"
      unfolding new(2) using "2.prems"(3) head low new(5-8) by (rule hits_ok_step)
    have "j \<le> depth" if "D' p = Some j" for p j
    proof (cases "D p")
      case None
      then have "p \<in> fst ` set new" using new(7) that by simp
      then have "D' p = Some (Suc d)" using new(6) by fastforce
      then show ?thesis using that False by simp
    next
      case (Some i)
      then show ?thesis using "2.prems"(4) new(8) that by fastforce
    qed
    then show ?thesis
      using "2.hyps"(2) [OF False run [symmetric], of D' "(queue', hits')", OF _ refl ok' depths hits] run new(4) False
      by simp
  qed
qed

lemma affected_hits_found:
  assumes "allowed = set (if relations = [] then default_relations else relations)"
  shows "\<exists>D. hits_ok ix allowed D (affected_hits ix seed depth relations)
    \<and> (\<forall>p d. D p = Some d \<longleftrightarrow> d \<le> depth \<and> hops (impact.succ ix allowed) (impact_start ix seed) d p
          \<and> (\<forall>j. hops (impact.succ ix allowed) (impact_start ix seed) j p \<longrightarrow> d \<le> j))"
proof -
  obtain seen queue where members:
    "fold (add_member ix seed) (g_links (gi_graph ix)) ({seed}, [(seed, 0)]) = (seen, queue)" by fastforce
  have start: "seen = impact_start ix seed" "set (map fst queue) = seen" "\<forall>pd \<in> set queue. snd pd = 0"
    using add_members [OF members] by (simp_all add: impact_start_def)
  define D where "D p = (if p \<in> impact_start ix seed then Some (0 :: nat) else None)" for p
  have dom: "seen = dom D" by (auto simp: start(1) D_def split: if_splits)
  have ok: "impact.queue_ok ix allowed (impact_start ix seed) D (map fst queue) 0"
    using start(1,2) by (intro impact.queue_start) (simp_all add: D_def)
  have depths: "\<forall>(p, d) \<in> set queue. D p = Some d"
    using start by (force simp: D_def)
  have hits: "hits_ok ix allowed D []" by (auto simp: hits_ok_def D_def)
  have low: "\<forall>p j. D p = Some j \<longrightarrow> j \<le> depth" by (simp add: D_def)
  have "affected_hits ix seed depth relations = affected_loop ix allowed depth (dom D) queue []"
    by (simp add: affected_hits_def members dom assms)
  then show ?thesis using affected_loop_found [OF ok depths hits low] by simp
qed

text \<open>The nodes that depend on a node directly: those with an edge of an allowed relation to it.\<close>

definition depends_on :: "graph_index \<Rightarrow> string set \<Rightarrow> nat \<Rightarrow> nat \<Rightarrow> bool" where
  "depends_on ix allowed p q \<longleftrightarrow> (\<exists>e \<in> set (g_links (gi_graph ix)). impact_source ix allowed p e = Some q)"

lemma depends_on_succ: "impact.succ ix allowed = depends_on ix allowed"
proof (intro ext iffI)
  fix p q
  assume "impact.succ ix allowed p q"
  then obtain ke where "ke \<in> set (numbered_links ix)" "impact_source ix allowed p (snd ke) = Some q"
    by (auto simp: impact_sources_def map_filter_def)
  then show "depends_on ix allowed p q"
    unfolding depends_on_def numbered_links_def by (metis prod.collapse set_zip_rightD)
next
  fix p q
  assume "depends_on ix allowed p q"
  then obtain e where e: "e \<in> set (g_links (gi_graph ix))" "impact_source ix allowed p e = Some q"
    by (auto simp: depends_on_def)
  then obtain k where "(k, e) \<in> set (numbered_links ix)"
    unfolding numbered_links_def by (metis in_set_impl_in_set_zip2 length_map map_nth length_upt minus_nat.diff_0)
  then show "impact.succ ix allowed p q"
    using e(2) by (force simp: impact_sources_def map_filter_def)
qed

text \<open>
  C33: impact analysis finds exactly the nodes that depend on the seed or on a member of it within the
  depth: a node is a hit with distance \<open>d\<close> just when a shortest chain of \<open>d\<close> dependencies leads from it
  to the seed or to a member. Every node is listed once, nearest first, with an edge that leads one
  step nearer.
\<close>

theorem affected_exact:
  fixes ix :: graph_index
  assumes "allowed = set (if relations = [] then default_relations else relations)"
    and "hits = affected_hits ix seed depth relations"
  shows "distinct (map fst hits) \<and> sorted (map (\<lambda>h. fst (snd h)) hits)
    \<and> (\<forall>p d. (\<exists>k. (p, d, k) \<in> set hits) \<longleftrightarrow> 0 < d \<and> d \<le> depth
          \<and> hops (depends_on ix allowed) (impact_start ix seed) d p
          \<and> (\<forall>j. hops (depends_on ix allowed) (impact_start ix seed) j p \<longrightarrow> d \<le> j))
    \<and> (\<forall>(p, d, k) \<in> set hits. \<exists>r e. hops (depends_on ix allowed) (impact_start ix seed) (d - 1) r
          \<and> (k, e) \<in> set (numbered_links ix) \<and> impact_source ix allowed r e = Some p)"
proof -
  obtain D where D: "hits_ok ix allowed D hits"
    "\<forall>p d. D p = Some d \<longleftrightarrow> d \<le> depth \<and> hops (depends_on ix allowed) (impact_start ix seed) d p
          \<and> (\<forall>j. hops (depends_on ix allowed) (impact_start ix seed) j p \<longrightarrow> d \<le> j)"
    using affected_hits_found [OF assms(1), of ix seed depth] unfolding assms(2) depends_on_succ by blast
  have entries: "(\<exists>k. (p, d, k) \<in> set hits) \<longleftrightarrow> 0 < d \<and> D p = Some d" for p d
    using hits_ok_entry [OF D(1)] by (metis Suc_pred)
  have "\<exists>r e. hops (depends_on ix allowed) (impact_start ix seed) (d - 1) r
          \<and> (k, e) \<in> set (numbered_links ix) \<and> impact_source ix allowed r e = Some p"
    if hit: "(p, d, k) \<in> set hits" for p d k
  proof -
    obtain r e where "D r = Some (d - 1)" "(k, e) \<in> set (numbered_links ix)" "impact_source ix allowed r e = Some p"
      using D(1) hit by (fastforce simp: hits_ok_def)
    then show ?thesis using D(2) by blast
  qed
  moreover have "distinct (map fst hits)" "sorted (map (\<lambda>h. fst (snd h)) hits)"
    using D(1) by (simp_all add: hits_ok_def)
  ultimately show ?thesis using entries D(2) by auto
qed

lemma affected_exact_witness:
  "affected_hits (new_index sample_graph) 1 2 [] = [(0, 1, 0)]
   \<and> hops (depends_on (new_index sample_graph) (set default_relations)) (impact_start (new_index sample_graph) 1) 1 0"
proof -
  have hits: "affected_hits (new_index sample_graph) 1 2 [] = [(0, 1, 0)]" by code_simp
  have "\<exists>k. (0, 1, k) \<in> set (affected_hits (new_index sample_graph) 1 2 [])" unfolding hits by auto
  then show ?thesis
    using affected_exact [OF refl refl, of "new_index sample_graph" 1 2 "[]"] hits by auto
qed

end
