(* ===== verification/Paths.thy ===== *)
theory Paths
  imports QueryAnswer
begin

text \<open>
  Shortest paths (\<open>graphoxide-query/src/paths.rs\<close>): the end points of a path by name, the search with a
  queue, the way back along the map of predecessors, and the text of the hops. The loop of the way back
  follows the map until it ends, so it is a partial function: \<open>None\<close> stands for not returning.
\<close>

section \<open>End points\<close>

definition endpoint :: "unicode \<Rightarrow> graph_index \<Rightarrow> string \<Rightarrow> nat option" where
  "endpoint u ix query =
     (let scored = score_nodes u ix (map lowercase (split_whitespace query));
          wanted = set (search_tokens u query)
      in case filter (\<lambda>(_, p). wanted \<subseteq> set (search_tokens u (n_label (index_node ix p)))) scored of
           (_, p) # _ \<Rightarrow> Some p
         | [] \<Rightarrow> (case scored of [] \<Rightarrow> None | (_, p) # _ \<Rightarrow> Some p))"

section \<open>The search\<close>

text \<open>A neighbour with its identifier and the edge to it; \<open>dedup_by_key\<close> drops an element with the key
  of the one kept before it.\<close>

fun dedup_by_key :: "('a \<Rightarrow> 'k) \<Rightarrow> 'a list \<Rightarrow> 'a list" where
  "dedup_by_key key (x # y # xs) =
     (if key x = key y then dedup_by_key key (x # xs) else x # dedup_by_key key (y # xs))"
| "dedup_by_key key xs = xs"

definition path_neighbours :: "graph_index \<Rightarrow> nat \<Rightarrow> (string \<times> nat \<times> nat) list" where
  "path_neighbours ix current =
     dedup_by_key (\<lambda>(_, q, _). q)
       (sort_key fst
         (List.map_filter (\<lambda>(k, e). map_option (\<lambda>q. (n_id (index_node ix q), q, k)) (other ix e current))
           (zip [0..<length (g_links (gi_graph ix))] (g_links (gi_graph ix)))))"

type_synonym path_map = "nat \<rightharpoonup> (nat \<times> nat) option"

definition path_push :: "nat \<Rightarrow> string \<times> nat \<times> nat \<Rightarrow> path_map \<times> nat list \<Rightarrow> path_map \<times> nat list" where
  "path_push current nb st =
     (let (_, q, k) = nb
      in if fst st q = None then ((fst st)(q \<mapsto> Some (current, k)), snd st @ [q]) else st)"

lemma set_dedup_by_key: "set (dedup_by_key key xs) \<subseteq> set xs" "key ` set (dedup_by_key key xs) = key ` set xs"
  by (induction key xs rule: dedup_by_key.induct) auto

lemma path_neighbour_other:
  assumes "(i, q, k) \<in> set (path_neighbours ix p)"
  shows "k < length (g_links (gi_graph ix)) \<and> other ix (index_edge_at ix k) p = Some q"
proof -
  have "(i, q, k) \<in> set (List.map_filter (\<lambda>(k, e). map_option (\<lambda>q. (n_id (index_node ix q), q, k)) (other ix e p))
           (zip [0..<length (g_links (gi_graph ix))] (g_links (gi_graph ix))))"
    using subsetD [OF set_dedup_by_key(1) assms [unfolded path_neighbours_def]] by simp
  then show ?thesis by (auto simp: in_map_filter set_zip)
qed

lemma path_push_measure:
  assumes "\<forall>(_, q, _) \<in> set nbs. q \<in> E" "finite E" "fold (path_push current) nbs (prev, queue) = (prev', queue')"
  shows "card (E - dom prev') + length queue' \<le> card (E - dom prev) + length queue"
  using assms(1,3)
proof (induction nbs arbitrary: prev queue)
  case (Cons nb nbs)
  obtain i q k where nb: "nb = (i, q, k)" by (metis prod_cases3)
  show ?case
  proof (cases "prev q")
    case None
    then have q: "q \<in> E - dom prev" using Cons.prems(1) by (auto simp: nb)
    have "E - dom (prev(q \<mapsto> Some (current, k))) = E - dom prev - {q}" by auto
    moreover have "card (E - dom prev) = Suc (card (E - dom prev - {q}))"
      using assms(2) q by (intro card.remove) auto
    moreover have "path_push current nb (prev, queue) = (prev(q \<mapsto> Some (current, k)), queue @ [q])"
      using None by (simp add: nb path_push_def)
    moreover from this have "fold (path_push current) nbs (prev(q \<mapsto> Some (current, k)), queue @ [q]) = (prev', queue')"
      using Cons.prems(2) by simp
    ultimately show ?thesis using Cons.IH Cons.prems(1) by fastforce
  next
    case (Some r)
    then have "path_push current nb (prev, queue) = (prev, queue)" by (simp add: nb path_push_def)
    then show ?thesis using Cons by simp
  qed
qed simp

function path_loop :: "graph_index \<Rightarrow> nat \<Rightarrow> path_map \<Rightarrow> nat list \<Rightarrow> path_map" where
  "path_loop ix target prev [] = prev"
| "path_loop ix target prev (current # queue) =
     (if current = target then prev
      else
        let (prev', queue') = fold (path_push current) (path_neighbours ix current) (prev, queue)
        in path_loop ix target prev' queue')"
  by pat_completeness auto
termination
proof (relation "measure (\<lambda>(ix, target, prev, queue). card (edge_ends ix - dom prev) + length queue)", goal_cases)
  case (2 ix target prev current queue st prev' queue')
  then have run: "fold (path_push current) (path_neighbours ix current) (prev, queue) = (prev', queue')" by simp
  have "\<forall>(_, q, _) \<in> set (path_neighbours ix current). q \<in> edge_ends ix"
    using path_neighbour_other other_edge_ends by fastforce
  then have "card (edge_ends ix - dom prev') + length queue' \<le> card (edge_ends ix - dom prev) + length queue"
    by (rule path_push_measure [OF _ finite_edge_ends run])
  then show ?case by simp
qed simp

definition predecessors :: "graph_index \<Rightarrow> nat \<Rightarrow> nat \<Rightarrow> path_map" where
  "predecessors ix source target = path_loop ix target [source \<mapsto> None] [source]"

partial_function (option) walk_back :: "path_map \<Rightarrow> nat \<Rightarrow> (nat \<times> nat \<times> nat) list \<Rightarrow> (nat \<times> nat \<times> nat) list option" where
  [code]: "walk_back prev current steps =
     (case prev current of
        Some (Some (prior, k)) \<Rightarrow> walk_back prev prior (steps @ [(prior, k, current)])
      | _ \<Rightarrow> Some steps)"

text \<open>The steps of a path in order: \<open>Some None\<close> when there is none.\<close>

definition find_path :: "graph_index \<Rightarrow> nat \<Rightarrow> nat \<Rightarrow> (nat \<times> nat \<times> nat) list option option" where
  "find_path ix source target =
     (let prev = predecessors ix source target
      in if prev target = None then Some None
         else map_option (\<lambda>steps. Some (rev steps)) (walk_back prev target []))"

section \<open>The text\<close>

definition hop_edges :: "graph_index \<Rightarrow> nat \<Rightarrow> nat \<Rightarrow> edge list" where
  "hop_edges ix p q =
     filter (\<lambda>e. true_source e = n_id (index_node ix p) \<and> true_target e = n_id (index_node ix q))
       (g_links (gi_graph ix))"

definition hop_label :: "edge list \<Rightarrow> string" where
  "hop_label es =
     (let relations = sorted_list_of_set (set (map (\<lambda>e. if e_relation e = [] then ''related'' else e_relation e) es));
          confidences = (if \<forall>e \<in> set es. e_relation e = [] then {}
                         else set (map (\<lambda>e. confidence_text (e_confidence e)) es))
      in join_with ''/'' relations
         @ (if confidences = {} then []
            else '' ['' @ join_with ''/'' (sorted_list_of_set confidences) @ '']''))"

definition hop_text :: "graph_index \<Rightarrow> nat \<times> nat \<times> nat \<Rightarrow> string" where
  "hop_text ix step =
     (let (p, _, q) = step; forward = hop_edges ix p q;
          backward = filter (\<lambda>e. e \<notin> set forward) (hop_edges ix q p);
          label = sanitize_label (n_label (index_node ix q))
      in if forward = [] then ''<--'' @ hop_label backward @ ''-- '' @ label
         else ''--'' @ hop_label forward @ ''--> '' @ label)"

definition shortest_path :: "unicode \<Rightarrow> graph \<Rightarrow> string \<Rightarrow> string \<Rightarrow> string option" where
  "shortest_path u g from_name to_name =
     (let ix = new_index g
      in case endpoint u ix from_name of
           None \<Rightarrow> Some (''No node matching '' @ quoted from_name @ '' found.'')
         | Some source \<Rightarrow>
             (case endpoint u ix to_name of
                None \<Rightarrow> Some (''No node matching '' @ quoted to_name @ '' found.'')
              | Some target \<Rightarrow>
                  if source = target
                  then Some (quoted from_name @ '' and '' @ quoted to_name @ '' both resolved to the same node ''
                    @ quoted (n_id (index_node ix source))
                    @ ''. Use a more specific label or the exact node ID.'')
                  else
                    map_option (\<lambda>path. case path of
                        None \<Rightarrow> ''No path found between '' @ quoted from_name @ '' and '' @ quoted to_name @ ''.''
                      | Some steps \<Rightarrow>
                          ''Shortest path ('' @ show_nat (length steps) @ '' hops):'' @ [newline] @ ''  ''
                          @ join_with '' '' (sanitize_label (n_label (index_node ix source)) # map (hop_text ix) steps))
                      (find_path ix source target)))"

section \<open>The path found is a shortest one\<close>

interpretation path_search: queue_search "\<lambda>p. map (\<lambda>(_, q, _). q) (path_neighbours ix p)" start for ix start .

lemma path_succ: "path_search.succ ix = neighbours ix"
proof (intro ext)
  fix p q
  have "path_search.succ ix p q \<longleftrightarrow> q \<in> (\<lambda>(_, q, _). q) ` set (sort_key fst
         (List.map_filter (\<lambda>(k, e). map_option (\<lambda>q. (n_id (index_node ix q), q, k)) (other ix e p))
           (zip [0..<length (g_links (gi_graph ix))] (g_links (gi_graph ix)))))"
    unfolding path_neighbours_def set_map set_dedup_by_key(2) ..
  also have "\<dots> \<longleftrightarrow> (\<exists>ke \<in> set (zip [0..<length (g_links (gi_graph ix))] (g_links (gi_graph ix))).
      other ix (snd ke) p = Some q)"
    by (force simp: in_map_filter image_iff)
  also have "\<dots> \<longleftrightarrow> neighbours ix p q"
  proof -
    have "snd ` set (zip [0..<length (g_links (gi_graph ix))] (g_links (gi_graph ix))) = set (g_links (gi_graph ix))"
      by (simp flip: set_map)
    then show ?thesis unfolding neighbours_def by (metis (no_types, lifting) image_iff)
  qed
  finally show "path_search.succ ix p q = neighbours ix p q" .
qed

text \<open>Every predecessor recorded is one step nearer to the source, along an edge of the graph.\<close>

definition path_ok :: "graph_index \<Rightarrow> nat \<Rightarrow> path_map \<Rightarrow> (nat \<rightharpoonup> nat) \<Rightarrow> bool" where
  "path_ok ix source prev D \<longleftrightarrow>
     dom prev = dom D
     \<and> (\<forall>p. prev p = Some None \<longrightarrow> p = source \<and> D p = Some 0)
     \<and> (\<forall>q p k. prev q = Some (Some (p, k)) \<longrightarrow>
          (\<exists>i. D p = Some i \<and> D q = Some (Suc i))
          \<and> k < length (g_links (gi_graph ix)) \<and> other ix (index_edge_at ix k) p = Some q)"

lemma path_pushes:
  assumes "fold (path_push current) nbs (prev, Q) = (prev', Q')" "path_ok ix source prev D"
    and "D current = Some d" "set nbs \<subseteq> set (path_neighbours ix current)"
  shows "\<exists>D'. fold (push_found (Suc d)) (map (\<lambda>(_, q, _). q) nbs) (D, Q) = (D', Q') \<and> path_ok ix source prev' D'"
  using assms
proof (induction nbs arbitrary: prev D Q)
  case (Cons nb nbs)
  obtain i q k where nb: "nb = (i, q, k)" by (metis prod_cases3)
  have same: "prev q = None \<longleftrightarrow> D q = None" using Cons.prems(2) unfolding path_ok_def by blast
  show ?case
  proof (cases "prev q")
    case None
    then have Dq: "D q = None" using same by simp
    have push: "path_push current nb (prev, Q) = (prev(q \<mapsto> Some (current, k)), Q @ [q])"
      "push_found (Suc d) q (D, Q) = (D(q \<mapsto> Suc d), Q @ [q])"
      using None Dq by (simp_all add: nb path_push_def push_found_def)
    have "(i, q, k) \<in> set (path_neighbours ix current)" using Cons.prems(4) nb by simp
    then have edge: "k < length (g_links (gi_graph ix))" "other ix (index_edge_at ix k) current = Some q"
      using path_neighbour_other by blast+
    have ok: "path_ok ix source (prev(q \<mapsto> Some (current, k))) (D(q \<mapsto> Suc d))"
      using Cons.prems(2,3) Dq edge unfolding path_ok_def by (fastforce split: if_splits)
    have d: "(D(q \<mapsto> Suc d)) current = Some d" using Cons.prems(3) Dq by auto
    have run: "fold (path_push current) nbs (prev(q \<mapsto> Some (current, k)), Q @ [q]) = (prev', Q')"
      using Cons.prems(1) push(1) by simp
    show ?thesis using Cons.IH [OF run ok d] Cons.prems(4) push(2) nb by (simp del: fun_upd_apply)
  next
    case (Some r)
    then obtain j where "D q = Some j" using same by (cases "D q") auto
    then have "path_push current nb (prev, Q) = (prev, Q)" "push_found (Suc d) q (D, Q) = (D, Q)"
      using Some by (simp_all add: nb path_push_def push_found_def)
    then show ?thesis using Cons nb by simp
  qed
qed auto

lemma path_loop_found:
  assumes "path_search.queue_ok ix {source} D Q k" "path_ok ix source prev D"
  shows "\<exists>D'. path_ok ix source (path_loop ix target prev Q) D'
    \<and> (\<forall>i. D' target = Some i \<longleftrightarrow> hops (neighbours ix) {source} i target
          \<and> (\<forall>j. hops (neighbours ix) {source} j target \<longrightarrow> i \<le> j))"
  using assms
proof (induction ix target prev Q arbitrary: D k rule: path_loop.induct)
  case (1 ix target prev)
  then show ?case using path_search.queue_done [of ix "{source}" D k target] unfolding path_succ by auto
next
  case (2 ix target prev current Q)
  obtain d where d: "D current = Some d" using "2.prems"(1) by (auto simp: path_search.queue_ok_def)
  show ?case
  proof (cases "current = target")
    case True
    have "path_search.queue_ok ix {source} D (target # Q) d"
      using path_search.queue_head [OF "2.prems"(1)] d True by simp
    then have "D target = Some i \<longleftrightarrow> hops (neighbours ix) {source} i target
          \<and> (\<forall>j. hops (neighbours ix) {source} j target \<longrightarrow> i \<le> j)" for i
      using path_search.queue_exact [where ix = ix and start = "{source}" and D = D and q = target] d True
      unfolding path_succ by (metis le_antisym option.inject)
    then show ?thesis using "2.prems"(2) True by auto
  next
    case False
    obtain prev' Q' where run: "fold (path_push current) (path_neighbours ix current) (prev, Q) = (prev', Q')"
      by fastforce
    obtain D' where D': "fold (push_found (Suc d)) (map (\<lambda>(_, q, _). q) (path_neighbours ix current)) (D, Q) = (D', Q')"
      "path_ok ix source prev' D'"
      using path_pushes [OF run "2.prems"(2) d order_refl] by blast
    have "path_search.queue_ok ix {source} D' Q' (the (D current))"
      using path_search.queue_step [OF "2.prems"(1)] D'(1) d by simp
    then show ?thesis using "2.IH" [OF False run [symmetric] refl _ D'(2)] False run by simp
  qed
qed

fun path_chain :: "graph_index \<Rightarrow> nat \<Rightarrow> (nat \<times> nat \<times> nat) list \<Rightarrow> nat \<Rightarrow> bool" where
  "path_chain ix p [] q \<longleftrightarrow> p = q"
| "path_chain ix p ((a, k, b) # steps) q \<longleftrightarrow>
     a = p \<and> k < length (g_links (gi_graph ix)) \<and> other ix (index_edge_at ix k) a = Some b
     \<and> path_chain ix b steps q"

lemma path_chain_append:
  "path_chain ix p (s @ [(a, k, b)]) q \<longleftrightarrow>
     path_chain ix p s a \<and> k < length (g_links (gi_graph ix))
     \<and> other ix (index_edge_at ix k) a = Some b \<and> b = q"
  by (induction ix p s a rule: path_chain.induct) auto

lemma walk_back_found:
  assumes "path_ok ix source prev D" "D p = Some i"
  shows "\<exists>trail. walk_back prev p steps = Some (steps @ trail) \<and> length trail = i
    \<and> path_chain ix source (rev trail) p"
  using assms(2)
proof (induction i arbitrary: p steps)
  case 0
  then have "prev p \<noteq> None" using assms(1) by (auto simp: path_ok_def)
  moreover have "\<forall>q k. prev p \<noteq> Some (Some (q, k))" using assms(1) 0 by (fastforce simp: path_ok_def)
  ultimately have "prev p = Some None" by (metis not_None_eq prod.collapse)
  then have "walk_back prev p steps = Some steps" "p = source"
    using assms(1) by (simp_all add: walk_back.simps path_ok_def)
  then show ?case by simp
next
  case (Suc i)
  have "prev p \<noteq> None" using assms(1) Suc.prems by (auto simp: path_ok_def)
  moreover have "prev p \<noteq> Some None" using assms(1) Suc.prems by (auto simp: path_ok_def)
  ultimately obtain q k where prev: "prev p = Some (Some (q, k))" by (metis not_None_eq prod.collapse)
  then have q: "D q = Some i" "k < length (g_links (gi_graph ix))" "other ix (index_edge_at ix k) q = Some p"
    using assms(1) Suc.prems by (fastforce simp: path_ok_def)+
  obtain trail where trail: "walk_back prev q (steps @ [(q, k, p)]) = Some ((steps @ [(q, k, p)]) @ trail)"
    "length trail = i" "path_chain ix source (rev trail) q"
    using Suc.IH [OF q(1)] by blast
  then have "walk_back prev p steps = Some (steps @ (q, k, p) # trail)"
    using prev by (simp add: walk_back.simps [of prev p])
  then show ?case using trail q by (intro exI [of _ "(q, k, p) # trail"]) (simp add: path_chain_append)
qed

text \<open>
  C34: the search for a path always returns. It finds a path just when one exists; the steps it answers
  lead from the source to the target along edges of the graph, and no path is shorter.
\<close>

theorem find_path_shortest:
  "case find_path ix source target of
     None \<Rightarrow> False
   | Some None \<Rightarrow> \<not> (\<exists>i. hops (neighbours ix) {source} i target)
   | Some (Some steps) \<Rightarrow> path_chain ix source steps target
       \<and> hops (neighbours ix) {source} (length steps) target
       \<and> (\<forall>i. hops (neighbours ix) {source} i target \<longrightarrow> length steps \<le> i)"
proof -
  define D where "D = [source \<mapsto> 0 :: nat]"
  have ok: "path_search.queue_ok ix {source} D [source] 0"
    by (rule path_search.queue_start) (simp_all add: D_def)
  have "path_ok ix source [source \<mapsto> None] D" by (auto simp: path_ok_def D_def)
  then obtain D' where D': "path_ok ix source (predecessors ix source target) D'"
    "\<forall>i. D' target = Some i \<longleftrightarrow> hops (neighbours ix) {source} i target
       \<and> (\<forall>j. hops (neighbours ix) {source} j target \<longrightarrow> i \<le> j)"
    using path_loop_found [OF ok] unfolding predecessors_def by blast
  have known: "predecessors ix source target target = None \<longleftrightarrow> D' target = None"
    using D'(1) unfolding path_ok_def by blast
  show ?thesis
  proof (cases "D' target")
    case None
    have "\<not> hops (neighbours ix) {source} i target" for i
    proof
      assume "hops (neighbours ix) {source} i target"
      then have "hops (neighbours ix) {source} (LEAST i. hops (neighbours ix) {source} i target) target"
        by (rule LeastI)
      then show False using D'(2) None by (metis Least_le option.distinct(1))
    qed
    then show ?thesis using None known by (simp add: find_path_def Let_def)
  next
    case (Some i)
    obtain trail where trail: "walk_back (predecessors ix source target) target [] = Some trail"
      "length trail = i" "path_chain ix source (rev trail) target"
      using walk_back_found [OF D'(1) Some, of "[]"] by auto
    then have "find_path ix source target = Some (Some (rev trail))"
      using Some known by (simp add: find_path_def Let_def)
    moreover have "hops (neighbours ix) {source} i target
        \<and> (\<forall>j. hops (neighbours ix) {source} j target \<longrightarrow> i \<le> j)"
      using D'(2) Some by blast
    ultimately show ?thesis using trail(2,3) by simp
  qed
qed

lemma find_path_shortest_witness:
  "find_path (new_index sample_graph) 0 1 = Some (Some [(0, 0, 1)])
   \<and> path_chain (new_index sample_graph) 0 [(0, 0, 1)] 1
   \<and> \<not> hops (neighbours (new_index sample_graph)) {0} 0 1"
proof -
  have "predecessors (new_index sample_graph) 0 1 1 = Some (Some (0, 0))
      \<and> predecessors (new_index sample_graph) 0 1 0 = Some None" by code_simp
  then have found: "find_path (new_index sample_graph) 0 1 = Some (Some [(0, 0, 1)])"
    by (simp add: find_path_def walk_back.simps)
  then show ?thesis
    using find_path_shortest [of "new_index sample_graph" 0 1] by simp
qed

text \<open>A single edge with stale markers: they name neither end point.\<close>

definition stale_graph :: graph where
  "stale_graph = sample_graph\<lparr>g_links := [(plain_edge ''a'' ''b'' ''calls'')
     \<lparr>e_extra := [(''_src'', JStr ''old''), (''_tgt'', JStr ''b'')]\<rparr>]\<rparr>"

text \<open>
  The search falls back to the serialized end points of an edge with stale markers, but the text of
  the path does not: it finds the hop and then shows it reversed, with neither relation nor
  confidence.
\<close>

lemma stale_markers_blank_hop:
  "find_path (new_index stale_graph) 0 1 = Some (Some [(0, 0, 1)])
   \<and> map (hop_text (new_index stale_graph)) [(0, 0, 1)] = [''<---- beta'']"
proof -
  have "walk_back [0 \<mapsto> None, 1 \<mapsto> Some (0, 0)] 1 [] = Some [(0, 0, 1)]"
    by (simp add: walk_back.simps)
  moreover have "predecessors (new_index stale_graph) 0 1 1 = Some (Some (0, 0))
      \<and> predecessors (new_index stale_graph) 0 1 0 = Some None" by code_simp
  ultimately have "find_path (new_index stale_graph) 0 1 = Some (Some [(0, 0, 1)])"
    by (simp add: find_path_def walk_back.simps)
  moreover have "map (hop_text (new_index stale_graph)) [(0, 0, 1)] = [''<---- beta'']" by code_simp
  ultimately show ?thesis by blast
qed

end
