(* ===== verification/Explain.thy ===== *)
theory Explain
  imports QueryAnswer
begin

text \<open>
  The explanation of a node (\<open>graphoxide-query/src/paths.rs\<close>): the rivals that make a name ambiguous, the
  facts of the node, the lesson of the overlay, and its connections, of which the first twenty are listed
  and the others counted by direction and file. The printer of \<open>serde_json\<close> is a parameter.
\<close>

section \<open>Connections\<close>

text \<open>A connection: whether it is incoming, the node at the other end, the edge.\<close>

type_synonym connection = "bool \<times> nat \<times> nat"

definition connection_of :: "graph_index \<Rightarrow> node \<Rightarrow> nat \<times> edge \<Rightarrow> connection option" where
  "connection_of ix n ke =
     (let (k, e) = ke
      in if true_source e = n_id n then map_option (\<lambda>q. (False, q, k)) (position ix (true_target e))
         else if true_target e = n_id n then map_option (\<lambda>q. (True, q, k)) (position ix (true_source e))
         else None)"

definition indexed_links :: "graph_index \<Rightarrow> (nat \<times> edge) list" where
  "indexed_links ix = zip [0..<length (g_links (gi_graph ix))] (g_links (gi_graph ix))"

definition connections :: "graph_index \<Rightarrow> nat \<Rightarrow> connection list" where
  "connections ix p =
     sort_key (\<lambda>(_, q, _). - int (degree ix q))
       (List.map_filter (connection_of ix (index_node ix p)) (indexed_links ix))"

definition arrow :: "bool \<Rightarrow> string" where
  "arrow inward = (if inward then ''<--'' else ''-->'')"

definition connection_line :: "graph_index \<Rightarrow> connection \<Rightarrow> string" where
  "connection_line ix c =
     (let (inward, q, k) = c; e = index_edge_at ix k;
          location = (case get_str (e_extra e) ''source_location'' of
              None \<Rightarrow> [] | Some v \<Rightarrow> '' '' @ e_source_file e @ '':'' @ v)
      in ''  '' @ arrow inward @ '' '' @ sanitize_label (n_label (index_node ix q)) @ '' [''
         @ sanitize_label (e_relation e) @ ''] ['' @ confidence_text (e_confidence e) @ '']'' @ location)"

definition connection_key :: "graph_index \<Rightarrow> connection \<Rightarrow> bool \<times> string" where
  "connection_key ix c =
     (let (inward, _, k) = c; file = e_source_file (index_edge_at ix k)
      in (inward, if file = [] then ''(unknown file)'' else file))"

definition grouped_by_file :: "graph_index \<Rightarrow> connection list \<Rightarrow> ((bool \<times> string) \<times> nat) list" where
  "grouped_by_file ix remainder =
     sort_key (\<lambda>((inward, file), n). (- int n, inward, file))
       (fold (\<lambda>c. bt_update (connection_key ix c) 0 (\<lambda>n. n + 1)) remainder [])"

definition group_line :: "(bool \<times> string) \<times> nat \<Rightarrow> string" where
  "group_line g =
     (let ((inward, file), n) = g
      in ''    '' @ arrow inward @ '' '' @ sanitize_label file @ '': '' @ show_nat n @ '' ''
         @ (if n = 1 then ''connection'' else ''connections''))"

definition remainder_lines :: "graph_index \<Rightarrow> connection list \<Rightarrow> string list" where
  "remainder_lines ix remainder =
     (let grouped = grouped_by_file ix remainder
      in [''  ... and '' @ show_nat (length remainder) @ '' more'', ''  Grouped by file:'']
         @ map group_line (take 20 grouped)
         @ (if length grouped > 20 then [''    ... and '' @ show_nat (length grouped - 20) @ '' more files''] else []))"

definition connection_lines :: "graph_index \<Rightarrow> connection list \<Rightarrow> string list" where
  "connection_lines ix cs =
     (if cs = [] then []
      else [[], ''Connections ('' @ show_nat (length cs) @ ''):'']
        @ map (connection_line ix) (take 20 cs)
        @ (if length cs > 20 then remainder_lines ix (drop 20 cs) else []))"

section \<open>The explanation\<close>

text \<open>The lesson of the overlay; its wording is kept apart because of characters outside the repertoire.\<close>

datatype lesson = Contested int int | Preferred int string | Learned string int string

datatype explain_line = TextLine string | LessonLine lesson bool

definition lesson_of :: "(json \<Rightarrow> string) \<Rightarrow> jobject \<Rightarrow> explain_line" where
  "lesson_of print_json entry =
     (let status = (case get_str entry ''status'' of None \<Rightarrow> [] | Some s \<Rightarrow> sanitize_label s);
          int_of = (\<lambda>key. case Option.bind (bt_get entry key) as_i64 of None \<Rightarrow> 0 | Some i \<Rightarrow> i);
          uses = int_of ''uses'';
          score = (case bt_get entry ''score'' of None \<Rightarrow> ''0'' | Some v \<Rightarrow> print_json v);
          lesson = (if status = ''contested'' then Contested uses (int_of ''neg'')
                    else if status = ''preferred'' then Preferred uses score
                    else Learned (if status = [] then ''tentative'' else status) uses score)
      in LessonLine lesson (Option.bind (bt_get entry ''stale'') as_bool = Some True))"

definition node_facts :: "node \<Rightarrow> string list" where
  "node_facts n =
     [''Node: '' @ sanitize_label (n_label n),
      ''  ID:        '' @ sanitize_label (n_id n),
      ''  Source:    '' @ sanitize_label (n_source_file n)
        @ (case n_source_location n of None \<Rightarrow> [] | Some l \<Rightarrow> '' '' @ sanitize_label l),
      ''  Type:      '' @ sanitize_label (n_file_type n),
      ''  Community: '' @ sanitize_label (community_text n)]"

definition lesson_lines :: "(json \<Rightarrow> string) \<Rightarrow> jobject option \<Rightarrow> node \<Rightarrow> explain_line list" where
  "lesson_lines print_json overlay n =
     (case Option.bind (Option.bind overlay (\<lambda>m. bt_get m (n_id n))) as_object of
        None \<Rightarrow> [] | Some entry \<Rightarrow> [lesson_of print_json entry])"

definition node_explanation :: "(json \<Rightarrow> string) \<Rightarrow> jobject option \<Rightarrow> graph_index \<Rightarrow> nat \<Rightarrow> explain_line list" where
  "node_explanation print_json overlay ix p =
     (let n = index_node ix p
      in map TextLine (node_facts n) @ lesson_lines print_json overlay n
         @ TextLine (''  Degree:    '' @ show_nat (degree ix p))
         # map TextLine (connection_lines ix (connections ix p)))"

datatype explanation =
    NoMatch string
  | AmbiguousName string nat "(string \<times> string) list"
  | Explained "explain_line list"

definition rivals :: "graph_index \<Rightarrow> nat \<Rightarrow> nat list \<Rightarrow> nat list" where
  "rivals ix winner positions =
     filter (\<lambda>p. lowercase (n_label (index_node ix p)) = lowercase (n_label (index_node ix winner))
                 \<and> n_source_file (index_node ix p) \<noteq> n_source_file (index_node ix winner)) positions"

definition explain_with_overlay ::
  "unicode \<Rightarrow> (json \<Rightarrow> string) \<Rightarrow> graph \<Rightarrow> string \<Rightarrow> jobject option \<Rightarrow> explanation" where
  "explain_with_overlay u print_json g query overlay =
     (let (positions, ix) = find_node u (new_index g) query
      in case positions of
           [] \<Rightarrow> NoMatch query
         | winner # _ \<Rightarrow>
             let others = rivals ix winner positions
             in if others \<noteq> []
                then AmbiguousName query (length others + 1)
                       (map (\<lambda>p. (n_source_file (index_node ix p), n_id (index_node ix p))) (winner # others))
                else Explained (node_explanation print_json overlay ix winner))"

definition explain :: "unicode \<Rightarrow> (json \<Rightarrow> string) \<Rightarrow> graph \<Rightarrow> string \<Rightarrow> explanation" where
  "explain u print_json g query = explain_with_overlay u print_json g query None"

section \<open>No connection is lost\<close>

definition bump :: "'k::linorder \<Rightarrow> ('k, nat) btree \<Rightarrow> ('k, nat) btree" where
  "bump k = bt_update k 0 (\<lambda>n. n + 1)"

lemma bumps_get:
  "bt_wf m \<Longrightarrow> bt_wf (fold (\<lambda>x. bump (f x)) xs m)
   \<and> (case bt_get (fold (\<lambda>x. bump (f x)) xs m) k of None \<Rightarrow> 0 | Some n \<Rightarrow> n)
       = (case bt_get m k of None \<Rightarrow> 0 | Some n \<Rightarrow> n) + length (filter (\<lambda>x. f x = k) xs)"
proof (induction xs arbitrary: m)
  case (Cons x xs)
  have "bt_wf (bump (f x) m)" using Cons.prems by (simp add: bump_def)
  from Cons.IH [OF this] show ?case by (auto simp: bump_def bt_get_update split: option.splits)
qed simp

lemma bumps_total: "bt_wf m \<Longrightarrow> bt_total (fold (\<lambda>x. bump (f x)) xs m) = bt_total m + length xs"
  by (induction xs arbitrary: m) (auto simp: bump_def bt_total_update [where n = 1, simplified])

lemma bumps_entry:
  assumes "(k, n) \<in> set (fold (\<lambda>x. bump (f x)) xs [])"
  shows "n = length (filter (\<lambda>x. f x = k) xs)"
proof -
  note counts = bumps_get [OF bt_wf_Nil, of f xs k]
  have "bt_get (fold (\<lambda>x. bump (f x)) xs []) k = Some n"
    using assms by (simp add: bt_get_mem [OF conjunct1 [OF counts]])
  then show ?thesis using conjunct2 [OF counts] by simp
qed

lemma bump_keys: "k \<in> fst ` set (fold (\<lambda>x. bump (f x)) xs m) \<Longrightarrow> k \<in> fst ` set m \<union> f ` set xs"
proof (induction xs arbitrary: m)
  case (Cons x xs)
  from Cons.IH [of "bump (f x) m"] Cons.prems show ?case
    by (auto simp: bump_def bt_update_def dest!: subsetD [OF set_bt_put])
qed simp

lemma grouped_by_file_counts:
  "sum_list (map snd (grouped_by_file ix remainder)) = length remainder"
  "distinct (map fst (grouped_by_file ix remainder))"
  "list_all (\<lambda>(k, n). n = length (filter (\<lambda>c. connection_key ix c = k) remainder) \<and> n > 0) (grouped_by_file ix remainder)"
proof -
  define counts where "counts = fold (\<lambda>c. bump (connection_key ix c)) remainder []"
  have grouped: "mset (grouped_by_file ix remainder) = mset counts"
    by (simp add: grouped_by_file_def counts_def bump_def)
  have "sum_list (map snd (grouped_by_file ix remainder)) = sum_list (map snd counts)"
    using grouped by (metis mset_map sum_mset_sum_list)
  then show "sum_list (map snd (grouped_by_file ix remainder)) = length remainder"
    using bumps_total [OF bt_wf_Nil, of "connection_key ix" remainder] by (simp add: counts_def bt_total_def)
  have "distinct (map fst counts)"
    using bumps_get [OF bt_wf_Nil, of "connection_key ix" remainder] by (simp add: counts_def bt_wf_distinct)
  then show "distinct (map fst (grouped_by_file ix remainder))"
    using grouped by (metis mset_eq_imp_distinct_iff mset_map)
  show "list_all (\<lambda>(k, n). n = length (filter (\<lambda>c. connection_key ix c = k) remainder) \<and> n > 0) (grouped_by_file ix remainder)"
  proof (clarsimp simp only: list_all_iff)
    fix inward path n
    assume "((inward, path), n) \<in> set (grouped_by_file ix remainder)"
    then have entry: "((inward, path), n) \<in> set counts" using grouped mset_eq_setD by blast
    then have "(inward, path) \<in> connection_key ix ` set remainder"
      using bump_keys [of "(inward, path)" "connection_key ix" remainder "[]"] by (force simp: counts_def)
    then have "filter (\<lambda>c. connection_key ix c = (inward, path)) remainder \<noteq> []" by (auto simp: filter_empty_conv)
    then show "n = length (filter (\<lambda>c. connection_key ix c = (inward, path)) remainder) \<and> 0 < n"
      using bumps_entry [OF entry [unfolded counts_def]] by simp
  qed
qed

lemma bumps_has: "x \<in> set xs \<Longrightarrow> bt_wf m \<Longrightarrow> f x \<in> fst ` set (fold (\<lambda>x. bump (f x)) xs m)"
proof -
  assume x: "x \<in> set xs" and m: "bt_wf m"
  note counts = bumps_get [OF m, of f xs "f x"]
  have "0 < length (filter (\<lambda>y. f y = f x) xs)" using x by (auto simp: filter_empty_conv)
  then have "bt_get (fold (\<lambda>x. bump (f x)) xs m) (f x) \<noteq> None" using counts by (auto split: option.splits)
  then show ?thesis using counts by (simp add: bt_has_iff [symmetric] bt_has_def)
qed

lemma grouped_by_file_covers: "c \<in> set remainder \<Longrightarrow> connection_key ix c \<in> fst ` set (grouped_by_file ix remainder)"
  using bumps_has [of c remainder "[]" "connection_key ix"] by (simp add: grouped_by_file_def bump_def)

text \<open>An edge connects a node when its markers, or else its ends, name the node and a node at the other end.\<close>

definition connects :: "graph_index \<Rightarrow> node \<Rightarrow> edge \<Rightarrow> bool" where
  "connects ix n e \<longleftrightarrow>
     true_source e = n_id n \<and> position ix (true_target e) \<noteq> None
     \<or> true_source e \<noteq> n_id n \<and> true_target e = n_id n \<and> position ix (true_source e) \<noteq> None"

lemma connection_of_connects: "connection_of ix n (k, e) \<noteq> None \<longleftrightarrow> connects ix n e"
  by (auto simp: connection_of_def connects_def)

lemma connections_edges:
  "map (snd \<circ> snd) (List.map_filter (connection_of ix n) (zip [i..<i + length es] es))
   = filter (\<lambda>k. connects ix n (es ! (k - i))) [i..<i + length es]"
proof (induction es arbitrary: i)
  case (Cons e es)
  have upt: "[i..<i + length (e # es)] = i # [Suc i..<Suc i + length es]" by (simp add: upt_conv_Cons del: upt_Suc)
  have shift: "filter (\<lambda>k. connects ix n ((e # es) ! (k - i))) [Suc i..<Suc i + length es]
      = filter (\<lambda>k. connects ix n (es ! (k - Suc i))) [Suc i..<Suc i + length es]"
    by (rule filter_cong) (auto simp: nth_Cons' Suc_diff_Suc)
  have third: "snd (snd c) = i" if "connection_of ix n (i, e) = Some c" for c
    using that by (auto simp: connection_of_def split: if_splits)
  show ?case
    unfolding upt zip_Cons_Cons
    using Cons.IH [of "Suc i"] shift third connection_of_connects [of ix n i e]
    by (cases "connection_of ix n (i, e)") (auto simp: map_filter_simps simp del: upt_Suc)
qed (simp add: map_filter_simps)

lemma connections_mset:
  "mset (map (snd \<circ> snd) (connections ix p))
   = mset (filter (\<lambda>k. connects ix (index_node ix p) (index_edge_at ix k)) [0..<length (g_links (gi_graph ix))])"
proof -
  have "map (snd \<circ> snd) (List.map_filter (connection_of ix (index_node ix p)) (indexed_links ix))
      = filter (\<lambda>k. connects ix (index_node ix p) (index_edge_at ix k)) [0..<length (g_links (gi_graph ix))]"
    using connections_edges [of ix "index_node ix p" 0 "g_links (gi_graph ix)"]
    unfolding indexed_links_def by simp
  then show ?thesis unfolding connections_def mset_map mset_sort by (metis mset_map)
qed

text \<open>A connection names the node at the other end of its edge and the direction.\<close>

definition connection_ok :: "graph_index \<Rightarrow> node \<Rightarrow> connection \<Rightarrow> bool" where
  "connection_ok ix n c \<longleftrightarrow>
     (case c of (inward, q, k) \<Rightarrow>
        let e = index_edge_at ix k
        in if inward then true_source e \<noteq> n_id n \<and> true_target e = n_id n \<and> position ix (true_source e) = Some q
           else true_source e = n_id n \<and> position ix (true_target e) = Some q)"

lemma connections_ok: "list_all (connection_ok ix (index_node ix p)) (connections ix p)"
proof -
  have "connection_ok ix n c" if "connection_of ix n (k, e) = Some c" "(k, e) \<in> set (indexed_links ix)" for n c k e
  proof -
    have "index_edge_at ix k = e" using that(2) by (auto simp: indexed_links_def in_set_zip)
    then show ?thesis using that(1) by (auto simp: connection_of_def connection_ok_def Let_def split: if_splits)
  qed
  then show ?thesis by (auto simp: connections_def list_all_iff map_filter_def)
qed

text \<open>
  What the lines of an explanation must say of the connections in order: their number; each of the first
  twenty, on a line of its own; how many more there are; and for each direction and file the number of its
  connections among these, the largest first, with the number of groups left out after twenty.
\<close>

definition counts_of :: "graph_index \<Rightarrow> connection list \<Rightarrow> ((bool \<times> string) \<times> nat) list \<Rightarrow> bool" where
  "counts_of ix cs groups \<longleftrightarrow>
     distinct (map fst groups) \<and> sorted_wrt (\<ge>) (map snd groups)
     \<and> (\<forall>key. (case map_of groups key of None \<Rightarrow> 0 | Some n \<Rightarrow> n) = length (filter (\<lambda>c. connection_key ix c = key) cs))
     \<and> 0 \<notin> snd ` set groups \<and> sum_list (map snd groups) = length cs"

definition describes_remainder :: "graph_index \<Rightarrow> connection list \<Rightarrow> string list \<Rightarrow> bool" where
  "describes_remainder ix remainder summary \<longleftrightarrow>
     (\<exists>shown more. counts_of ix remainder (shown @ more) \<and> (length shown = 20 \<or> length shown < 20 \<and> more = [])
        \<and> summary = [''  ... and '' @ show_nat (length remainder) @ '' more'', ''  Grouped by file:''] @ map group_line shown
            @ (if more = [] then [] else [''    ... and '' @ show_nat (length more) @ '' more files'']))"

definition describes :: "graph_index \<Rightarrow> connection list \<Rightarrow> string list \<Rightarrow> bool" where
  "describes ix cs ls \<longleftrightarrow>
     (if cs = [] then ls = []
      else \<exists>listed remainder summary.
        cs = listed @ remainder \<and> (length listed = 20 \<or> length listed < 20 \<and> remainder = [])
        \<and> ls = [[], ''Connections ('' @ show_nat (length cs) @ ''):''] @ map (connection_line ix) listed @ summary
        \<and> (if remainder = [] then summary = [] else describes_remainder ix remainder summary))"

lemma grouped_by_file_ok: "counts_of ix remainder (grouped_by_file ix remainder)"
proof -
  note counts = grouped_by_file_counts [of ix remainder]
  define groups where "groups = grouped_by_file ix remainder"
  have "sorted (map (\<lambda>((inward, path), n). (- int n, inward, path)) groups)"
    unfolding groups_def grouped_by_file_def by (simp add: case_prod_unfold)
  then have "sorted_wrt (\<lambda>g h. snd g \<ge> snd h) groups"
    unfolding sorted_map by (rule sorted_wrt_mono_rel [rotated]) (auto simp: less_eq_prod_def)
  then have sorted: "sorted_wrt (\<ge>) (map snd groups)" by (simp add: sorted_wrt_map)
  have entry: "n = length (filter (\<lambda>c. connection_key ix c = key) remainder) \<and> n > 0" if "(key, n) \<in> set groups" for key n
    using counts(3) that by (auto simp: groups_def list_all_iff)
  have "(case map_of groups key of None \<Rightarrow> 0 | Some n \<Rightarrow> n) = length (filter (\<lambda>c. connection_key ix c = key) remainder)" for key
  proof (cases "map_of groups key")
    case None
    have "connection_key ix c \<in> fst ` set groups" if "c \<in> set remainder" for c
      using that unfolding groups_def by (rule grouped_by_file_covers)
    then have "filter (\<lambda>c. connection_key ix c = key) remainder = []"
      using None by (auto simp: filter_empty_conv map_of_eq_None_iff)
    then show ?thesis using None by simp
  next
    case (Some n)
    then show ?thesis using entry [OF map_of_SomeD [OF Some]] by simp
  qed
  moreover have "0 \<notin> snd ` set groups" using entry by fastforce
  ultimately show ?thesis using counts(1,2) sorted by (simp add: counts_of_def groups_def)
qed

lemma remainder_lines_describe: "describes_remainder ix remainder (remainder_lines ix remainder)"
proof -
  define groups where "groups = grouped_by_file ix remainder"
  have "counts_of ix remainder (take 20 groups @ drop 20 groups)"
    using grouped_by_file_ok [of ix remainder] by (simp add: groups_def)
  moreover have "length (take 20 groups) = 20 \<or> length (take 20 groups) < 20 \<and> drop 20 groups = []" by auto
  moreover have "remainder_lines ix remainder
      = [''  ... and '' @ show_nat (length remainder) @ '' more'', ''  Grouped by file:''] @ map group_line (take 20 groups)
        @ (if drop 20 groups = [] then [] else [''    ... and '' @ show_nat (length (drop 20 groups)) @ '' more files''])"
    by (simp add: remainder_lines_def Let_def groups_def)
  ultimately show ?thesis unfolding describes_remainder_def by blast
qed

lemma connection_lines_describe: "describes ix cs (connection_lines ix cs)"
proof (cases "cs = []")
  case False
  define summary where "summary = (if drop 20 cs = [] then [] else remainder_lines ix (drop 20 cs))"
  have "connection_lines ix cs
      = [[], ''Connections ('' @ show_nat (length cs) @ ''):''] @ map (connection_line ix) (take 20 cs) @ summary"
    using False by (simp add: connection_lines_def summary_def)
  moreover have "cs = take 20 cs @ drop 20 cs"
    "length (take 20 cs) = 20 \<or> length (take 20 cs) < 20 \<and> drop 20 cs = []" by auto
  moreover have "if drop 20 cs = [] then summary = [] else describes_remainder ix (drop 20 cs) summary"
    using remainder_lines_describe by (simp add: summary_def)
  ultimately show ?thesis unfolding describes_def if_not_P [OF False] by blast
qed (simp add: describes_def connection_lines_def)

text \<open>
  C29: an explanation accounts for every connection. Each edge that connects the node is one connection,
  with its direction and its other end, in the order of the degrees at the other ends. The explanation ends
  in the lines that describe them: their number, the first twenty each on its own line in this order, the
  number of the others, and these counted by direction and file, each group with its exact number and the
  largest first, of which at most twenty are printed and the number of the remaining ones is given.
\<close>

theorem explain_accounts_for_connections:
  "mset (map (snd \<circ> snd) (connections ix p))
     = mset (filter (\<lambda>k. connects ix (index_node ix p) (index_edge_at ix k)) [0..<length (g_links (gi_graph ix))])
   \<and> list_all (connection_ok ix (index_node ix p)) (connections ix p)
   \<and> sorted_wrt (\<lambda>(_, q, _) (_, r, _). degree ix q \<ge> degree ix r) (connections ix p)
   \<and> (\<exists>facts ls. node_explanation print_json overlay ix p = facts @ map TextLine ls
        \<and> describes ix (connections ix p) ls)"
proof -
  have "sorted (map (\<lambda>(_, q, _). - int (degree ix q)) (connections ix p))"
    unfolding connections_def by (rule sorted_sort_key)
  then have "sorted_wrt (\<lambda>(_, q, _) (_, r, _). degree ix q \<ge> degree ix r) (connections ix p)"
    unfolding sorted_map by (rule sorted_wrt_mono_rel [rotated]) auto
  moreover have "\<exists>facts. node_explanation print_json overlay ix p
      = facts @ map TextLine (connection_lines ix (connections ix p))"
    by (rule exI [of _ "map TextLine (node_facts (index_node ix p)) @ lesson_lines print_json overlay (index_node ix p)
        @ [TextLine (''  Degree:    '' @ show_nat (degree ix p))]"]) (simp add: node_explanation_def Let_def)
  ultimately show ?thesis using connections_mset connections_ok connection_lines_describe by blast
qed

text \<open>
  The explanation is not safe against its input: every name in it is sanitised except the file of a
  connection, so a file name with a line break forges a line of the answer.
\<close>

definition forged_graph :: graph where
  "forged_graph = sample_graph\<lparr>g_links := [(plain_edge ''a'' ''b'' ''calls'')
     \<lparr>e_source_file := ''a.rs'' @ [newline] @ ''  Community: trusted'',
      e_extra := [(''source_location'', JStr ''L1'')]\<rparr>]\<rparr>"

lemma explain_forges_line:
  "text_lines (join_lines (connection_lines (new_index forged_graph) (connections (new_index forged_graph) 0)))
   = [[], ''Connections (1):'', ''  --> beta [calls] [EXTRACTED] a.rs'', ''  Community: trusted:L1'']"
  by code_simp

end
