(* ===== verification/IpGuard.thy ===== *)
theory IpGuard
  imports Prelude "HOL-Library.Word"
begin

unbundle bit_operations_syntax

text \<open>
  Which addresses may be contacted (\<open>graphoxide-core/src/security.rs\<close>): the textual addresses that
  \<open>std::net\<close> accepts, and the blocklists. An IPv4 address is its four octets, an IPv6 address its eight
  segments.
\<close>

section \<open>Addresses\<close>

datatype ipv4 = Ipv4 "8 word" "8 word" "8 word" "8 word"
datatype ipv6 = Ipv6 "16 word" "16 word" "16 word" "16 word" "16 word" "16 word" "16 word" "16 word"
datatype ip_addr = V4 ipv4 | V6 ipv6

fun ipv4_octets :: "ipv4 \<Rightarrow> 8 word list" where
  "ipv4_octets (Ipv4 a b c d) = [a, b, c, d]"

fun ipv6_segments :: "ipv6 \<Rightarrow> 16 word list" where
  "ipv6_segments (Ipv6 a b c d e f g h) = [a, b, c, d, e, f, g, h]"

definition high_byte :: "16 word \<Rightarrow> 8 word" where
  "high_byte s = ucast (drop_bit 8 s)"

definition low_byte :: "16 word \<Rightarrow> 8 word" where
  "low_byte s = ucast s"

definition ipv6_octets :: "ipv6 \<Rightarrow> 8 word list" where
  "ipv6_octets a = concat (map (\<lambda>s. [high_byte s, low_byte s]) (ipv6_segments a))"

section \<open>Textual addresses\<close>

text \<open>\<open>read_number\<close> of the parser of \<open>std::net\<close>: the longest run of digits, at most \<open>width\<close> of them, within
  the bound, and without a leading zero unless allowed.\<close>

definition digit_value :: "char \<Rightarrow> nat" where
  "digit_value c =
     (if ascii_digit c then of_char c - 48
      else if CHR ''a'' \<le> c \<and> c \<le> CHR ''f'' then of_char c - 87
      else if CHR ''A'' \<le> c \<and> c \<le> CHR ''F'' then of_char c - 55
      else 255)"

definition read_number :: "nat \<Rightarrow> nat \<Rightarrow> bool \<Rightarrow> nat \<Rightarrow> string \<Rightarrow> (nat \<times> string) option" where
  "read_number base width zero_prefix bound s =
     (let digits = takeWhile (\<lambda>c. digit_value c < base) s;
          n = foldl (\<lambda>n c. n * base + digit_value c) 0 digits
      in if digits = [] \<or> length digits > width \<or> n > bound
            \<or> \<not> zero_prefix \<and> hd digits = CHR ''0'' \<and> length digits > 1
         then None else Some (n, drop (length digits) s))"

definition read_char :: "char \<Rightarrow> string \<Rightarrow> string option" where
  "read_char c s = (case s of x # xs \<Rightarrow> if x = c then Some xs else None | [] \<Rightarrow> None)"

definition read_octet :: "string \<Rightarrow> (nat \<times> string) option" where
  "read_octet = read_number 10 3 False 255"

definition read_group :: "string \<Rightarrow> (nat \<times> string) option" where
  "read_group = read_number 16 4 True 65535"

text \<open>\<open>read_separator\<close>: every element but the first comes after the separator.\<close>

definition separated :: "char \<Rightarrow> bool \<Rightarrow> (string \<Rightarrow> ('a \<times> string) option) \<Rightarrow> string \<Rightarrow> ('a \<times> string) option" where
  "separated sep first reader s = (if first then reader s else Option.bind (read_char sep s) reader)"

definition read_ipv4 :: "string \<Rightarrow> ((nat \<times> nat \<times> nat \<times> nat) \<times> string) option" where
  "read_ipv4 s =
     Option.bind (separated CHR ''.'' True read_octet s) (\<lambda>(a, s).
     Option.bind (separated CHR ''.'' False read_octet s) (\<lambda>(b, s).
     Option.bind (separated CHR ''.'' False read_octet s) (\<lambda>(c, s).
     Option.bind (separated CHR ''.'' False read_octet s) (\<lambda>(d, s).
       Some ((a, b, c, d), s)))))"

text \<open>\<open>read_groups\<close>: with at least two groups left, an IPv4 address may end the list.\<close>

fun read_groups :: "nat \<Rightarrow> bool \<Rightarrow> string \<Rightarrow> nat list \<times> bool \<times> string" where
  "read_groups 0 first s = ([], False, s)"
| "read_groups (Suc r) first s =
     (case (if r > 0 then separated CHR '':'' first read_ipv4 s else None) of
        Some ((a, b, c, d), rest) \<Rightarrow> ([a * 256 + b, c * 256 + d], True, rest)
      | None \<Rightarrow>
          (case separated CHR '':'' first read_group s of
             None \<Rightarrow> ([], False, s)
           | Some (g, rest) \<Rightarrow>
               let (gs, embedded, rest) = read_groups r False rest in (g # gs, embedded, rest)))"

definition ipv6_of :: "nat list \<Rightarrow> ipv6" where
  "ipv6_of gs =
     Ipv6 (of_nat (gs ! 0)) (of_nat (gs ! 1)) (of_nat (gs ! 2)) (of_nat (gs ! 3))
          (of_nat (gs ! 4)) (of_nat (gs ! 5)) (of_nat (gs ! 6)) (of_nat (gs ! 7))"

definition read_ipv6 :: "string \<Rightarrow> (ipv6 \<times> string) option" where
  "read_ipv6 s =
     (let (head, embedded, rest) = read_groups 8 True s
      in if length head = 8 then Some (ipv6_of head, rest)
         else if embedded then None
         else Option.bind (read_char CHR '':'' rest) (\<lambda>rest.
              Option.bind (read_char CHR '':'' rest) (\<lambda>rest.
                let (tail, _, rest) = read_groups (8 - (length head + 1)) True rest
                in Some (ipv6_of (head @ replicate (8 - length head - length tail) 0 @ tail), rest))))"

definition parse_ip :: "string \<Rightarrow> ip_addr option" where
  "parse_ip s =
     (case read_ipv4 s of
        Some ((a, b, c, d), rest) \<Rightarrow>
          if rest = [] then Some (V4 (Ipv4 (of_nat a) (of_nat b) (of_nat c) (of_nat d))) else None
      | None \<Rightarrow>
          (case read_ipv6 s of
             Some (addr, rest) \<Rightarrow> if rest = [] then Some (V6 addr) else None
           | None \<Rightarrow> None))"

section \<open>Classes of addresses\<close>

text \<open>The predicates of \<open>std::net\<close>.\<close>

fun v4_private :: "ipv4 \<Rightarrow> bool" where
  "v4_private (Ipv4 a b c d) \<longleftrightarrow>
     a = 10 \<or> a = 172 \<and> 16 \<le> b \<and> b \<le> 31 \<or> a = 192 \<and> b = 168"

fun v4_loopback :: "ipv4 \<Rightarrow> bool" where "v4_loopback (Ipv4 a b c d) \<longleftrightarrow> a = 127"
fun v4_link_local :: "ipv4 \<Rightarrow> bool" where "v4_link_local (Ipv4 a b c d) \<longleftrightarrow> a = 169 \<and> b = 254"
fun v4_unspecified :: "ipv4 \<Rightarrow> bool" where "v4_unspecified (Ipv4 a b c d) \<longleftrightarrow> a = 0 \<and> b = 0 \<and> c = 0 \<and> d = 0"
fun v4_broadcast :: "ipv4 \<Rightarrow> bool" where
  "v4_broadcast (Ipv4 a b c d) \<longleftrightarrow> a = 255 \<and> b = 255 \<and> c = 255 \<and> d = 255"
fun v4_documentation :: "ipv4 \<Rightarrow> bool" where
  "v4_documentation (Ipv4 a b c d) \<longleftrightarrow>
     a = 192 \<and> b = 0 \<and> c = 2 \<or> a = 198 \<and> b = 51 \<and> c = 100 \<or> a = 203 \<and> b = 0 \<and> c = 113"
fun v4_multicast :: "ipv4 \<Rightarrow> bool" where "v4_multicast (Ipv4 a b c d) \<longleftrightarrow> 224 \<le> a \<and> a \<le> 239"

definition v6_mapped :: "ipv6 \<Rightarrow> ipv4 option" where
  "v6_mapped a =
     (let octets = ipv6_octets a
      in if take 12 octets = replicate 10 0 @ [0xff, 0xff]
         then Some (Ipv4 (octets ! 12) (octets ! 13) (octets ! 14) (octets ! 15)) else None)"

definition v6_loopback :: "ipv6 \<Rightarrow> bool" where "v6_loopback a \<longleftrightarrow> a = Ipv6 0 0 0 0 0 0 0 1"
definition v6_unspecified :: "ipv6 \<Rightarrow> bool" where "v6_unspecified a \<longleftrightarrow> a = Ipv6 0 0 0 0 0 0 0 0"
definition v6_multicast :: "ipv6 \<Rightarrow> bool" where "v6_multicast a \<longleftrightarrow> ipv6_octets a ! 0 = 0xff"
definition v6_unique_local :: "ipv6 \<Rightarrow> bool" where
  "v6_unique_local a \<longleftrightarrow> ipv6_segments a ! 0 AND 0xfe00 = 0xfc00"
definition v6_link_local :: "ipv6 \<Rightarrow> bool" where
  "v6_link_local a \<longleftrightarrow> ipv6_segments a ! 0 AND 0xffc0 = 0xfe80"

section \<open>The blocklists\<close>

fun ipv4_is_blocked :: "ipv4 \<Rightarrow> bool" where
  "ipv4_is_blocked (Ipv4 a b c d) \<longleftrightarrow>
     v4_private (Ipv4 a b c d) \<or> v4_loopback (Ipv4 a b c d) \<or> v4_link_local (Ipv4 a b c d)
     \<or> v4_unspecified (Ipv4 a b c d) \<or> v4_broadcast (Ipv4 a b c d) \<or> v4_documentation (Ipv4 a b c d)
     \<or> v4_multicast (Ipv4 a b c d)
     \<or> a = 0
     \<or> a = 100 \<and> 64 \<le> b \<and> b \<le> 127
     \<or> a = 198 \<and> (b = 18 \<or> b = 19)
     \<or> a \<ge> 240"

definition ipv6_is_blocked :: "ipv6 \<Rightarrow> bool" where
  "ipv6_is_blocked ip =
     (case v6_mapped ip of
        Some embedded \<Rightarrow> ipv4_is_blocked embedded
      | None \<Rightarrow>
          let octets = ipv6_octets ip; s = ipv6_segments ip
          in if take 12 octets = [0x00, 0x64, 0xff, 0x9b, 0, 0, 0, 0, 0, 0, 0, 0]
             then ipv4_is_blocked (Ipv4 (octets ! 12) (octets ! 13) (octets ! 14) (octets ! 15))
             else
               v6_loopback ip \<or> v6_unspecified ip \<or> v6_multicast ip \<or> v6_unique_local ip
               \<or> v6_link_local ip
               \<or> take 12 octets = replicate 12 0
               \<or> s ! 0 = 0x2002
               \<or> s ! 0 = 0x2001 \<and> s ! 1 = 0
               \<or> s ! 0 = 0x2001 \<and> s ! 1 = 2 \<and> s ! 2 = 0
               \<or> s ! 0 = 0x2001 \<and> s ! 1 AND 0xfff0 = 0x0010
               \<or> s ! 0 = 0x2001 \<and> s ! 1 = 0x0db8
               \<or> s ! 0 = 0x3fff \<and> s ! 1 AND 0xf000 = 0
               \<or> s ! 0 = 0x5f00
               \<or> s ! 0 AND 0xffc0 = 0xfec0
               \<or> s ! 0 = 0x0100 \<and> take 3 (drop 1 s) = [0, 0, 0])"

definition ip_is_blocked :: "ip_addr \<Rightarrow> bool" where
  "ip_is_blocked ip = (case ip of V4 a \<Rightarrow> ipv4_is_blocked a | V6 a \<Rightarrow> ipv6_is_blocked a)"

section \<open>The IPv4 blocklist is a list of networks\<close>

fun ipv4_number :: "ipv4 \<Rightarrow> nat" where
  "ipv4_number (Ipv4 a b c d) = ((unat a * 256 + unat b) * 256 + unat c) * 256 + unat d"

definition in_network :: "ipv4 \<Rightarrow> ipv4 \<times> nat \<Rightarrow> bool" where
  "in_network ip net \<longleftrightarrow> ipv4_number ip div 2 ^ (32 - snd net) = ipv4_number (fst net) div 2 ^ (32 - snd net)"

text \<open>The special purpose networks: this host, private use, shared address space, loopback, link local,
  documentation, benchmarking, multicast, reserved and limited broadcast.\<close>

definition special_networks :: "(ipv4 \<times> nat) list" where
  "special_networks =
    [(Ipv4 0 0 0 0, 8), (Ipv4 10 0 0 0, 8), (Ipv4 100 64 0 0, 10), (Ipv4 127 0 0 0, 8),
     (Ipv4 169 254 0 0, 16), (Ipv4 172 16 0 0, 12), (Ipv4 192 0 2 0, 24), (Ipv4 192 168 0 0, 16),
     (Ipv4 198 18 0 0, 15), (Ipv4 198 51 100 0, 24), (Ipv4 203 0 113 0, 24), (Ipv4 224 0 0 0, 4),
     (Ipv4 240 0 0 0, 4)]"

lemma octet_bound: "unat (a :: 8 word) < 256"
  by (rule less_le_trans [OF unsigned_less]) simp

lemma octet_eq: "(a :: 8 word) = numeral n \<longleftrightarrow> unat a = unat (numeral n :: 8 word)"
  by (simp add: word_unat_eq_iff)

lemma number_shifts:
  assumes "b < 256" "c < 256" "d < (256 :: nat)"
  shows "(((a * 256 + b) * 256 + c) * 256 + d) div 2 ^ 24 = a"
    "(((a * 256 + b) * 256 + c) * 256 + d) div 2 ^ 28 = a div 16"
    "(((a * 256 + b) * 256 + c) * 256 + d) div 2 ^ 16 = a * 256 + b"
    "(((a * 256 + b) * 256 + c) * 256 + d) div 2 ^ 22 = a * 4 + b div 64"
    "(((a * 256 + b) * 256 + c) * 256 + d) div 2 ^ 20 = a * 16 + b div 16"
    "(((a * 256 + b) * 256 + c) * 256 + d) div 2 ^ 17 = a * 128 + b div 2"
    "(((a * 256 + b) * 256 + c) * 256 + d) div 2 ^ 8 = (a * 256 + b) * 256 + c"
  using assms by simp_all

lemma digits_unique:
  assumes "(y :: nat) < k" "q < k"
  shows "x * k + y = p * k + q \<longleftrightarrow> x = p \<and> y = q"
proof
  assume same: "x * k + y = p * k + q"
  have "x = (x * k + y) div k" "p = (p * k + q) div k" using assms by simp_all
  with same show "x = p \<and> y = q" by simp
qed simp

lemma in_network_octets:
  "in_network (Ipv4 a b c d) (Ipv4 p q r s, 8) \<longleftrightarrow> unat a = unat p"
  "in_network (Ipv4 a b c d) (Ipv4 p q r s, 4) \<longleftrightarrow> unat a div 16 = unat p div 16"
  "in_network (Ipv4 a b c d) (Ipv4 p q r s, 16) \<longleftrightarrow> unat a = unat p \<and> unat b = unat q"
  "in_network (Ipv4 a b c d) (Ipv4 p q r s, 10) \<longleftrightarrow> unat a = unat p \<and> unat b div 64 = unat q div 64"
  "in_network (Ipv4 a b c d) (Ipv4 p q r s, 12) \<longleftrightarrow> unat a = unat p \<and> unat b div 16 = unat q div 16"
  "in_network (Ipv4 a b c d) (Ipv4 p q r s, 15) \<longleftrightarrow> unat a = unat p \<and> unat b div 2 = unat q div 2"
  "in_network (Ipv4 a b c d) (Ipv4 p q r s, 24) \<longleftrightarrow> unat a = unat p \<and> unat b = unat q \<and> unat c = unat r"
proof -
  have powers: "(32 - 8 :: nat) = 24" "(32 - 4 :: nat) = 28" "(32 - 16 :: nat) = 16" "(32 - 10 :: nat) = 22"
    "(32 - 12 :: nat) = 20" "(32 - 15 :: nat) = 17" "(32 - 24 :: nat) = 8"
    by simp_all
  have quarters: "unat (o1 :: 8 word) div 64 < 4" "unat o1 div 16 < 16" "unat o1 div 2 < 128" for o1
    using octet_bound [of o1] by (simp_all add: less_mult_imp_div_less)
  note shift = number_shifts [OF octet_bound [of b] octet_bound [of c] octet_bound [of d]]
    number_shifts [OF octet_bound [of q] octet_bound [of r] octet_bound [of s]]
  note unique = digits_unique [OF octet_bound octet_bound] digits_unique [OF quarters(1) quarters(1)]
    digits_unique [OF quarters(2) quarters(2)] digits_unique [OF quarters(3) quarters(3)]
  note shape = in_network_def ipv4_number.simps fst_conv snd_conv powers shift unique conj_assoc
  show "in_network (Ipv4 a b c d) (Ipv4 p q r s, 8) \<longleftrightarrow> unat a = unat p"
    "in_network (Ipv4 a b c d) (Ipv4 p q r s, 4) \<longleftrightarrow> unat a div 16 = unat p div 16"
    "in_network (Ipv4 a b c d) (Ipv4 p q r s, 16) \<longleftrightarrow> unat a = unat p \<and> unat b = unat q"
    "in_network (Ipv4 a b c d) (Ipv4 p q r s, 10) \<longleftrightarrow> unat a = unat p \<and> unat b div 64 = unat q div 64"
    "in_network (Ipv4 a b c d) (Ipv4 p q r s, 12) \<longleftrightarrow> unat a = unat p \<and> unat b div 16 = unat q div 16"
    "in_network (Ipv4 a b c d) (Ipv4 p q r s, 15) \<longleftrightarrow> unat a = unat p \<and> unat b div 2 = unat q div 2"
    "in_network (Ipv4 a b c d) (Ipv4 p q r s, 24) \<longleftrightarrow> unat a = unat p \<and> unat b = unat q \<and> unat c = unat r"
    by (simp_all only: shape)
qed

text \<open>The parts of octets that the networks compare, as ranges.\<close>

lemma quotient_range:
  assumes "0 < (k :: nat)"
  shows "n div k = q \<longleftrightarrow> q * k \<le> n \<and> n < Suc q * k"
  using assms less_eq_div_iff_mult_less_eq [of k q n] div_less_iff_less_mult [of k n "Suc q"]
  by (metis less_Suc_eq_le nle_le order_refl)

lemma octet_ranges:
  "(n :: nat) div 64 = Suc 0 \<longleftrightarrow> 64 \<le> n \<and> n \<le> 127" "n div 16 = Suc 0 \<longleftrightarrow> 16 \<le> n \<and> n \<le> 31"
  "n div 2 = 9 \<longleftrightarrow> n = 18 \<or> n = 19" "n div 16 = 14 \<longleftrightarrow> 224 \<le> n \<and> n \<le> 239"
  "n div 16 = 15 \<longleftrightarrow> 240 \<le> n \<and> n \<le> 255"
  by (simp add: quotient_range, linarith)+

text \<open>
  An IPv4 address may be contacted just when it lies in none of the special purpose networks.
\<close>

lemma ipv4_blocked_networks:
  "ipv4_is_blocked ip \<longleftrightarrow> (\<exists>net \<in> set special_networks. in_network ip net)"
proof (cases ip)
  case (Ipv4 a b c d)
  define x where "x = unat a" define y where "y = unat b" define z where "z = unat c" define w where "w = unat d"
  have bounds: "x < 256" "y < 256" "z < 256" "w < 256"
    unfolding x_def y_def z_def w_def by (rule octet_bound)+
  then have last: "x \<le> 255" by simp
  have "ipv4_is_blocked ip \<longleftrightarrow>
      x = 10 \<or> x = 172 \<and> 16 \<le> y \<and> y \<le> 31 \<or> x = 192 \<and> y = 168 \<or> x = 127 \<or> x = 169 \<and> y = 254
      \<or> (x = 0 \<and> y = 0 \<and> z = 0 \<and> w = 0) \<or> (x = 255 \<and> y = 255 \<and> z = 255 \<and> w = 255)
      \<or> x = 192 \<and> y = 0 \<and> z = 2 \<or> x = 198 \<and> y = 51 \<and> z = 100 \<or> x = 203 \<and> y = 0 \<and> z = 113
      \<or> 224 \<le> x \<and> x \<le> 239 \<or> x = 0 \<or> x = 100 \<and> 64 \<le> y \<and> y \<le> 127 \<or> x = 198 \<and> (y = 18 \<or> y = 19) \<or> 240 \<le> x"
    by (simp add: Ipv4 x_def y_def z_def w_def word_unat_eq_iff word_le_nat_alt)
  also have "\<dots> \<longleftrightarrow> x = 0 \<or> x = 10 \<or> (x = 100 \<and> 64 \<le> y \<and> y \<le> 127) \<or> x = 127 \<or> (x = 169 \<and> y = 254)
      \<or> (x = 172 \<and> 16 \<le> y \<and> y \<le> 31) \<or> (x = 192 \<and> y = 0 \<and> z = 2) \<or> (x = 192 \<and> y = 168)
      \<or> (x = 198 \<and> (y = 18 \<or> y = 19)) \<or> (x = 198 \<and> y = 51 \<and> z = 100) \<or> (x = 203 \<and> y = 0 \<and> z = 113)
      \<or> (224 \<le> x \<and> x \<le> 239) \<or> 240 \<le> x"
    by (rule iffI; elim disjE; simp)
  also have "\<dots> \<longleftrightarrow> (\<exists>net \<in> set special_networks. in_network ip net)"
    by (simp add: Ipv4 special_networks_def in_network_octets octet_ranges last x_def [symmetric] y_def [symmetric]
        z_def [symmetric])
  finally show ?thesis .
qed

text \<open>Every IPv6 address that stands for an IPv4 address, mapped or by the well-known translation prefix,
  is judged by that address.\<close>

definition mapped_address :: "8 word \<Rightarrow> 8 word \<Rightarrow> 8 word \<Rightarrow> 8 word \<Rightarrow> ipv6" where
  "mapped_address a b c d = Ipv6 0 0 0 0 0 0xffff (word_cat a b) (word_cat c d)"

definition translated_address :: "8 word \<Rightarrow> 8 word \<Rightarrow> 8 word \<Rightarrow> 8 word \<Rightarrow> ipv6" where
  "translated_address a b c d = Ipv6 0x64 0xff9b 0 0 0 0 (word_cat a b) (word_cat c d)"

lemma bytes_of_cat: "high_byte (word_cat (a :: 8 word) (b :: 8 word)) = a" "low_byte (word_cat (a :: 8 word) (b :: 8 word)) = b"
  unfolding high_byte_def low_byte_def
  by (auto intro!: bit_word_eqI simp: bit_ucast_iff bit_word_cat_iff bit_drop_bit_eq)

lemma embedded_judged:
  "ipv6_is_blocked (mapped_address a b c d) \<longleftrightarrow> ipv4_is_blocked (Ipv4 a b c d)"
  "ipv6_is_blocked (translated_address a b c d) \<longleftrightarrow> ipv4_is_blocked (Ipv4 a b c d)"
proof -
  have bytes: "high_byte 0 = 0" "low_byte 0 = 0" "high_byte 0xffff = 0xff" "low_byte 0xffff = 0xff"
    "high_byte 0x64 = 0" "low_byte 0x64 = 0x64" "high_byte 0xff9b = 0xff" "low_byte 0xff9b = 0x9b"
    by code_simp+
  have mapped: "ipv6_octets (mapped_address a b c d) = [0, 0, 0, 0, 0, 0, 0, 0, 0, 0, 0xff, 0xff, a, b, c, d]"
    and translated: "ipv6_octets (translated_address a b c d) = [0, 0x64, 0xff, 0x9b, 0, 0, 0, 0, 0, 0, 0, 0, a, b, c, d]"
    by (simp_all add: ipv6_octets_def mapped_address_def translated_address_def bytes bytes_of_cat)
  have prefix: "replicate 10 (0 :: 8 word) @ [0xff, 0xff] = [0, 0, 0, 0, 0, 0, 0, 0, 0, 0, 0xff, 0xff]"
    by (simp add: numeral_eq_Suc)
  have differ: "(0x64 :: 8 word) \<noteq> 0" by simp
  show "ipv6_is_blocked (mapped_address a b c d) \<longleftrightarrow> ipv4_is_blocked (Ipv4 a b c d)"
    by (simp only: ipv6_is_blocked_def v6_mapped_def mapped prefix Let_def) simp
  have "v6_mapped (translated_address a b c d) = None"
    using differ by (simp only: v6_mapped_def translated prefix Let_def) simp
  then show "ipv6_is_blocked (translated_address a b c d) \<longleftrightarrow> ipv4_is_blocked (Ipv4 a b c d)"
    by (simp only: ipv6_is_blocked_def translated Let_def option.case) simp
qed

end
