(* ===== verification/Fetch.thy ===== *)
theory Fetch
  imports FileSlice Security IpGuard
begin

text \<open>
  The guarded fetch of an external URL (\<open>graphoxide-core/src/security.rs\<close>): the checks of the URL, the
  resolution of its host and the check of every address, the loop over redirects with one pinned
  connection per hop, and the bounded copy of the body. The URL parser, the resolver and the HTTP client
  are the record \<open>network\<close> of parameters: the resolver and the peer may answer differently at every hop,
  so both take its number. A fetch returns the requests it sent beside its result.
\<close>

section \<open>URLs, requests and responses\<close>

type_synonym bytes = "8 word list"

text \<open>A parsed URL: \<open>u_port\<close> is \<open>port_or_known_default\<close>, \<open>u_text\<close> is \<open>as_str\<close>.\<close>

record url =
  u_scheme :: string
  u_username :: string
  u_password :: "string option"
  u_host :: "string option"
  u_port :: "nat option"
  u_text :: string

type_synonym socket = "ip_addr \<times> nat"

text \<open>A request goes to the pinned address, whatever its URL.\<close>

record request =
  rq_url :: url
  rq_host :: string
  rq_address :: socket
  rq_timeout :: nat
  rq_headers :: "(string \<times> string) list"

text \<open>What a reader delivers, one event per chunk; a header is present as text or as opaque bytes.\<close>

datatype read_event = Bytes bytes | ReadFailure

record response =
  rs_status :: nat
  rs_headers :: "string \<rightharpoonup> string option"
  rs_body :: "read_event list"

record network =
  net_parse :: "string \<Rightarrow> url option"
  net_join :: "url \<Rightarrow> string \<Rightarrow> url option"
  net_resolve :: "nat \<Rightarrow> string \<Rightarrow> nat \<Rightarrow> socket list option"
  net_send :: "nat \<Rightarrow> request \<Rightarrow> response option"
  net_header_value :: "string \<Rightarrow> bool"

record fetch_options =
  fo_max_bytes :: nat
  fo_timeout :: nat
  fo_require_https :: bool
  fo_if_none_match :: "string option"
  fo_if_modified_since :: "string option"
  fo_max_redirects :: nat

record fetch_response_metadata =
  fm_final_url :: string
  fm_redirects :: "string list"
  fm_status :: nat
  fm_etag :: "string option"
  fm_last_modified :: "string option"
  fm_content_type :: "string option"

datatype conditional_fetch_result =
    Modified nat fetch_response_metadata
  | NotModified fetch_response_metadata

datatype fetch_error =
    InvalidUrl string
  | BlockedScheme string string
  | UserInfo
  | NoHost string
  | MetadataHost string string
  | BlockedIp ip_addr string
  | NoPort string
  | DnsFailed string string
  | NoAddresses string string
  | BlockedAddress ip_addr string string
  | HttpsRequired
  | InvalidValidator string
  | RequestFailed
  | TooManyRedirects string
  | NoLocation nat string
  | InvalidLocation
  | InvalidTarget string string
  | BadStatus nat string
  | SizeLimit string nat
  | ReadFailed
  | WriteFailed
  | Unreachable

section \<open>Checks of a URL\<close>

definition parse_external_url :: "network \<Rightarrow> string \<Rightarrow> fetch_error + url" where
  "parse_external_url net text =
     (case net_parse net text of
        None \<Rightarrow> Inl (InvalidUrl text)
      | Some parsed \<Rightarrow>
          let scheme = ascii_lowercase (u_scheme parsed)
          in if scheme \<notin> {''http'', ''https''} then Inl (BlockedScheme scheme text)
             else if u_username parsed \<noteq> [] \<or> u_password parsed \<noteq> None then Inl UserInfo
             else case u_host parsed of
                    None \<Rightarrow> Inl (NoHost text)
                  | Some host \<Rightarrow>
                      if ascii_lowercase host \<in> {''metadata.google.internal'', ''metadata.google.com''}
                      then Inl (MetadataHost host text)
                      else case parse_ip host of
                             Some ip \<Rightarrow> if ip_is_blocked ip then Inl (BlockedIp ip text) else Inr parsed
                           | None \<Rightarrow> Inr parsed)"

definition resolve_and_validate :: "network \<Rightarrow> nat \<Rightarrow> url \<Rightarrow> fetch_error + socket" where
  "resolve_and_validate net hop url =
     (case u_host url of
        None \<Rightarrow> Inl (NoHost (u_text url))
      | Some host \<Rightarrow>
          (case u_port url of
             None \<Rightarrow> Inl (NoPort (u_text url))
           | Some port \<Rightarrow>
               (case (case parse_ip host of Some ip \<Rightarrow> Some [(ip, port)] | None \<Rightarrow> net_resolve net hop host port) of
                  None \<Rightarrow> Inl (DnsFailed host (u_text url))
                | Some [] \<Rightarrow> Inl (NoAddresses host (u_text url))
                | Some (address # addresses) \<Rightarrow>
                    (case find (\<lambda>a. ip_is_blocked (fst a)) (address # addresses) of
                       Some bad \<Rightarrow> Inl (BlockedAddress (fst bad) host (u_text url))
                     | None \<Rightarrow> Inr address))))"

definition validate_url :: "network \<Rightarrow> string \<Rightarrow> fetch_error + string" where
  "validate_url net text =
     (case parse_external_url net text of
        Inl e \<Rightarrow> Inl e
      | Inr parsed \<Rightarrow> (case resolve_and_validate net 0 parsed of Inl e \<Rightarrow> Inl e | Inr _ \<Rightarrow> Inr text))"

definition ensure_https :: "url \<Rightarrow> bool \<Rightarrow> fetch_error + unit" where
  "ensure_https url required = (if required \<and> u_scheme url \<noteq> ''https'' then Inl HttpsRequired else Inr ())"

definition is_redirect :: "nat \<Rightarrow> bool" where
  "is_redirect status \<longleftrightarrow> status \<in> {301, 302, 303, 307, 308}"

definition ensure_redirect_allowed :: "nat \<Rightarrow> nat \<Rightarrow> string \<Rightarrow> fetch_error + unit" where
  "ensure_redirect_allowed redirect_count max_redirects url =
     (if redirect_count < max_redirects then Inr () else Inl (TooManyRedirects url))"

definition ensure_success_status :: "nat \<Rightarrow> string \<Rightarrow> fetch_error + unit" where
  "ensure_success_status status url = (if 200 \<le> status \<and> status < 300 then Inr () else Inl (BadStatus status url))"

definition refresh_header :: "network \<Rightarrow> string option \<Rightarrow> string \<Rightarrow> fetch_error + string option" where
  "refresh_header net v name =
     (case v of
        None \<Rightarrow> Inr None
      | Some text \<Rightarrow> if net_header_value net text then Inr (Some text) else Inl (InvalidValidator name))"

definition retained_header :: "response \<Rightarrow> string \<Rightarrow> string option" where
  "retained_header response name =
     (case rs_headers response name of
        Some (Some v) \<Rightarrow> if utf8_len v \<le> metadata_max_value_len then Some v else None
      | _ \<Rightarrow> None)"

definition fetch_response_metadata :: "string \<Rightarrow> string list \<Rightarrow> response \<Rightarrow> fetch_response_metadata" where
  "fetch_response_metadata final_url redirects response =
     \<lparr> fm_final_url = final_url, fm_redirects = redirects, fm_status = rs_status response,
       fm_etag = retained_header response ''etag'', fm_last_modified = retained_header response ''last-modified'',
       fm_content_type = retained_header response ''content-type'' \<rparr>"

section \<open>The bounded copy of a body\<close>

text \<open>A read fills at most the buffer; what does not fit stays with the reader. An empty read is the end.\<close>

definition chunk_size :: nat where "chunk_size = 65536"

fun read_chunk :: "read_event list \<Rightarrow> bytes option \<times> read_event list" where
  "read_chunk [] = (Some [], [])"
| "read_chunk (ReadFailure # rest) = (None, rest)"
| "read_chunk (Bytes bs # rest) =
     (Some (take chunk_size bs), if length bs \<le> chunk_size then rest else Bytes (drop chunk_size bs) # rest)"

fun pending :: "read_event list \<Rightarrow> nat" where
  "pending [] = 0"
| "pending (ReadFailure # rest) = Suc (pending rest)"
| "pending (Bytes bs # rest) = Suc (length bs) + pending rest"

lemma read_chunk_pending:
  "read_chunk events = (Some chunk, rest) \<Longrightarrow> chunk \<noteq> [] \<Longrightarrow> pending rest < pending events"
  by (cases events rule: read_chunk.cases) (auto simp: chunk_size_def split: if_splits)

text \<open>The writer is a state with an operation that may fail; the sum of lengths is a \<open>usize\<close>.\<close>

type_synonym 'w writer = "'w \<Rightarrow> bytes \<Rightarrow> bool \<times> 'w"

function read_limited_loop ::
  "'w writer \<Rightarrow> nat \<Rightarrow> string \<Rightarrow> nat \<Rightarrow> read_event list \<Rightarrow> 'w \<Rightarrow> (fetch_error + nat) \<times> 'w" where
  "read_limited_loop put max_bytes src copied events w =
     (case read_chunk events of
        (None, _) \<Rightarrow> (Inl ReadFailed, w)
      | (Some chunk, rest) \<Rightarrow>
          if chunk = [] then (Inr copied, w)
          else if saturating_add copied (length chunk) > max_bytes then (Inl (SizeLimit src max_bytes), w)
          else (case put w chunk of
                  (False, w') \<Rightarrow> (Inl WriteFailed, w')
                | (True, w') \<Rightarrow>
                    read_limited_loop put max_bytes src ((copied + length chunk) mod 2 ^ 64) rest w'))"
  by pat_completeness auto
termination
  by (relation "measure (\<lambda>(_, _, _, _, events, _). pending events)") (auto intro: read_chunk_pending [OF sym])

declare read_limited_loop.simps [simp del]

definition read_limited_to_writer ::
  "'w writer \<Rightarrow> read_event list \<Rightarrow> 'w \<Rightarrow> nat \<Rightarrow> string \<Rightarrow> (fetch_error + nat) \<times> 'w" where
  "read_limited_to_writer put events w max_bytes src = read_limited_loop put max_bytes src 0 events w"

text \<open>A vector as a writer never fails.\<close>

definition vec_writer :: "bytes writer" where
  "vec_writer w chunk = (True, w @ chunk)"

definition read_limited :: "read_event list \<Rightarrow> nat \<Rightarrow> string \<Rightarrow> fetch_error + bytes" where
  "read_limited events max_bytes src =
     (case read_limited_to_writer vec_writer events [] max_bytes src of
        (Inl e, _) \<Rightarrow> Inl e
      | (Inr _, result) \<Rightarrow> Inr result)"

section \<open>The loop over redirects\<close>

definition request_for ::
  "fetch_options \<Rightarrow> string option \<Rightarrow> string option \<Rightarrow> url \<Rightarrow> string \<Rightarrow> socket \<Rightarrow> request" where
  "request_for opts if_none_match if_modified_since current host address =
     \<lparr> rq_url = current, rq_host = host, rq_address = address, rq_timeout = fo_timeout opts,
       rq_headers = [(''accept-encoding'', ''identity'')]
         @ (case if_none_match of None \<Rightarrow> [] | Some v \<Rightarrow> [(''if-none-match'', v)])
         @ (case if_modified_since of None \<Rightarrow> [] | Some v \<Rightarrow> [(''if-modified-since'', v)]) \<rparr>"

definition follow_redirect ::
  "network \<Rightarrow> fetch_options \<Rightarrow> string \<Rightarrow> nat \<Rightarrow> url \<Rightarrow> string list \<Rightarrow> response \<Rightarrow> fetch_error + url \<times> string list" where
  "follow_redirect net opts origin redirect_count current redirects response =
     (case ensure_redirect_allowed redirect_count (fo_max_redirects opts) origin of
        Inl e \<Rightarrow> Inl e
      | Inr _ \<Rightarrow>
          (case rs_headers response ''location'' of
             None \<Rightarrow> Inl (NoLocation (rs_status response) (u_text current))
           | Some None \<Rightarrow> Inl InvalidLocation
           | Some (Some location) \<Rightarrow>
               (case net_join net current location of
                  None \<Rightarrow> Inl (InvalidTarget location (u_text current))
                | Some joined \<Rightarrow>
                    (case parse_external_url net (u_text joined) of
                       Inl e \<Rightarrow> Inl e
                     | Inr next \<Rightarrow>
                         (case ensure_https next (fo_require_https opts) of
                            Inl e \<Rightarrow> Inl e
                          | Inr _ \<Rightarrow> Inr (next, redirects @ [u_text next]))))))"

definition final_response ::
  "fetch_options \<Rightarrow> 'w writer \<Rightarrow> string option \<Rightarrow> string option \<Rightarrow> url \<Rightarrow> string list \<Rightarrow> response \<Rightarrow> 'w
   \<Rightarrow> (fetch_error + conditional_fetch_result) \<times> 'w" where
  "final_response opts put if_none_match if_modified_since current redirects response w =
     (let metadata = fetch_response_metadata (u_text current) redirects response
      in if rs_status response = 304 \<and> (if_none_match \<noteq> None \<or> if_modified_since \<noteq> None)
         then (Inr (NotModified metadata), w)
         else case ensure_success_status (rs_status response) (u_text current) of
                Inl e \<Rightarrow> (Inl e, w)
              | Inr _ \<Rightarrow>
                  (case read_limited_to_writer put (rs_body response) w (fo_max_bytes opts) (u_text current) of
                     (Inl e, w') \<Rightarrow> (Inl e, w')
                   | (Inr n, w') \<Rightarrow> (Inr (Modified n metadata), w')))"

text \<open>One round of the loop up to the response: the request sent, if any, and the answer.\<close>

definition contact ::
  "network \<Rightarrow> fetch_options \<Rightarrow> string option \<Rightarrow> string option \<Rightarrow> nat \<Rightarrow> url
   \<Rightarrow> (fetch_error + response) \<times> request list" where
  "contact net opts if_none_match if_modified_since hop current =
     (case resolve_and_validate net hop current of
        Inl e \<Rightarrow> (Inl e, [])
      | Inr address \<Rightarrow>
          (case u_host current of
             None \<Rightarrow> (Inl (NoHost (u_text current)), [])
           | Some host \<Rightarrow>
               let request = request_for opts if_none_match if_modified_since current host address
               in case net_send net hop request of
                    None \<Rightarrow> (Inl RequestFailed, [request])
                  | Some response \<Rightarrow> (Inr response, [request])))"

text \<open>\<open>rounds\<close> are the rounds left of the range \<open>0..=max_redirects\<close>.\<close>

fun fetch_loop ::
  "network \<Rightarrow> fetch_options \<Rightarrow> 'w writer \<Rightarrow> string \<Rightarrow> string option \<Rightarrow> string option \<Rightarrow> nat \<Rightarrow> nat \<Rightarrow> url
   \<Rightarrow> string list \<Rightarrow> 'w \<Rightarrow> ((fetch_error + conditional_fetch_result) \<times> 'w) \<times> request list" where
  "fetch_loop net opts put origin inm ims 0 hop current redirects w = ((Inl Unreachable, w), [])"
| "fetch_loop net opts put origin inm ims (Suc rounds) hop current redirects w =
     (case contact net opts inm ims hop current of
        (Inl e, sent) \<Rightarrow> ((Inl e, w), sent)
      | (Inr response, sent) \<Rightarrow>
          if is_redirect (rs_status response)
          then (case follow_redirect net opts origin hop current redirects response of
                  Inl e \<Rightarrow> ((Inl e, w), sent)
                | Inr (next, redirects') \<Rightarrow>
                    let (result, later) = fetch_loop net opts put origin inm ims rounds (Suc hop) next redirects' w
                    in (result, sent @ later))
          else (final_response opts put inm ims current redirects response w, sent))"

definition safe_fetch_with_scheme_to_writer ::
  "network \<Rightarrow> string \<Rightarrow> 'w writer \<Rightarrow> 'w \<Rightarrow> fetch_options
   \<Rightarrow> ((fetch_error + conditional_fetch_result) \<times> 'w) \<times> request list" where
  "safe_fetch_with_scheme_to_writer net url put w opts =
     (case refresh_header net (fo_if_none_match opts) ''If-None-Match'' of
        Inl e \<Rightarrow> ((Inl e, w), [])
      | Inr inm \<Rightarrow>
          (case refresh_header net (fo_if_modified_since opts) ''If-Modified-Since'' of
             Inl e \<Rightarrow> ((Inl e, w), [])
           | Inr ims \<Rightarrow>
               (case parse_external_url net url of
                  Inl e \<Rightarrow> ((Inl e, w), [])
                | Inr current \<Rightarrow>
                    (case ensure_https current (fo_require_https opts) of
                       Inl e \<Rightarrow> ((Inl e, w), [])
                     | Inr _ \<Rightarrow>
                         fetch_loop net opts put url inm ims (Suc (fo_max_redirects opts)) 0 current [] w))))"

section \<open>The public operations\<close>

definition max_redirects :: nat where "max_redirects = 5"

definition safe_fetch_with_scheme ::
  "network \<Rightarrow> string \<Rightarrow> nat \<Rightarrow> nat \<Rightarrow> bool \<Rightarrow> fetch_error + bytes" where
  "safe_fetch_with_scheme net url max_bytes timeout require_https =
     (case fst (safe_fetch_with_scheme_to_writer net url vec_writer []
             \<lparr> fo_max_bytes = max_bytes, fo_timeout = timeout, fo_require_https = require_https,
               fo_if_none_match = None, fo_if_modified_since = None, fo_max_redirects = max_redirects \<rparr>) of
        (Inl e, _) \<Rightarrow> Inl e
      | (Inr (Modified _ _), result) \<Rightarrow> Inr result
      | (Inr (NotModified _), _) \<Rightarrow> Inl Unreachable)"

definition safe_fetch :: "network \<Rightarrow> string \<Rightarrow> nat \<Rightarrow> nat \<Rightarrow> fetch_error + bytes" where
  "safe_fetch net url max_bytes timeout = safe_fetch_with_scheme net url max_bytes timeout False"

definition safe_fetch_https :: "network \<Rightarrow> string \<Rightarrow> nat \<Rightarrow> nat \<Rightarrow> fetch_error + bytes" where
  "safe_fetch_https net url max_bytes timeout = safe_fetch_with_scheme net url max_bytes timeout True"

definition safe_fetch_https_to_writer_conditional ::
  "network \<Rightarrow> string \<Rightarrow> 'w writer \<Rightarrow> 'w \<Rightarrow> nat \<Rightarrow> nat \<Rightarrow> string option \<Rightarrow> string option
   \<Rightarrow> (fetch_error + conditional_fetch_result) \<times> 'w" where
  "safe_fetch_https_to_writer_conditional net url put w max_bytes timeout if_none_match if_modified_since =
     fst (safe_fetch_with_scheme_to_writer net url put w
       \<lparr> fo_max_bytes = max_bytes, fo_timeout = timeout, fo_require_https = True,
         fo_if_none_match = if_none_match, fo_if_modified_since = if_modified_since,
         fo_max_redirects = max_redirects \<rparr>)"

definition safe_fetch_https_to_writer_with_metadata ::
  "network \<Rightarrow> string \<Rightarrow> 'w writer \<Rightarrow> 'w \<Rightarrow> nat \<Rightarrow> nat \<Rightarrow> (fetch_error + nat \<times> fetch_response_metadata) \<times> 'w" where
  "safe_fetch_https_to_writer_with_metadata net url put w max_bytes timeout =
     (case safe_fetch_https_to_writer_conditional net url put w max_bytes timeout None None of
        (Inl e, w') \<Rightarrow> (Inl e, w')
      | (Inr (Modified n metadata), w') \<Rightarrow> (Inr (n, metadata), w')
      | (Inr (NotModified _), w') \<Rightarrow> (Inl Unreachable, w'))"

definition safe_fetch_https_to_writer ::
  "network \<Rightarrow> string \<Rightarrow> 'w writer \<Rightarrow> 'w \<Rightarrow> nat \<Rightarrow> nat \<Rightarrow> (fetch_error + nat) \<times> 'w" where
  "safe_fetch_https_to_writer net url put w max_bytes timeout =
     (case safe_fetch_https_to_writer_with_metadata net url put w max_bytes timeout of
        (Inl e, w') \<Rightarrow> (Inl e, w')
      | (Inr (n, _), w') \<Rightarrow> (Inr n, w'))"

definition safe_fetch_https_to_writer_no_redirect ::
  "network \<Rightarrow> string \<Rightarrow> 'w writer \<Rightarrow> 'w \<Rightarrow> nat \<Rightarrow> nat \<Rightarrow> (fetch_error + nat) \<times> 'w" where
  "safe_fetch_https_to_writer_no_redirect net url put w max_bytes timeout =
     (case fst (safe_fetch_with_scheme_to_writer net url put w
             \<lparr> fo_max_bytes = max_bytes, fo_timeout = timeout, fo_require_https = True,
               fo_if_none_match = None, fo_if_modified_since = None, fo_max_redirects = 0 \<rparr>) of
        (Inl e, w') \<Rightarrow> (Inl e, w')
      | (Inr (Modified n _), w') \<Rightarrow> (Inr n, w')
      | (Inr (NotModified _), w') \<Rightarrow> (Inl Unreachable, w'))"

section \<open>What a fetch may contact\<close>

definition acceptable_url :: "url \<Rightarrow> bool" where
  "acceptable_url url \<longleftrightarrow>
     ascii_lowercase (u_scheme url) \<in> {''http'', ''https''} \<and> u_username url = [] \<and> u_password url = None
     \<and> (case u_host url of
          None \<Rightarrow> False
        | Some host \<Rightarrow>
            ascii_lowercase host \<notin> {''metadata.google.internal'', ''metadata.google.com''}
            \<and> (case parse_ip host of None \<Rightarrow> True | Some ip \<Rightarrow> \<not> ip_is_blocked ip))"

text \<open>A request of a hop is safe: its URL is acceptable, HTTPS where required, and the address it is pinned
  to is public and the one its host stands for at this hop.\<close>

definition stands_for :: "network \<Rightarrow> nat \<Rightarrow> url \<Rightarrow> socket \<Rightarrow> bool" where
  "stands_for net hop url address \<longleftrightarrow>
     (case u_host url of
        None \<Rightarrow> False
      | Some host \<Rightarrow>
          u_port url \<noteq> None
          \<and> (case parse_ip host of
               Some ip \<Rightarrow> address = (ip, the (u_port url))
             | None \<Rightarrow>
                 (case net_resolve net hop host (the (u_port url)) of
                    None \<Rightarrow> False
                  | Some answers \<Rightarrow> take 1 answers = [address] \<and> list_all (\<lambda>a. \<not> ip_is_blocked (fst a)) answers)))"

definition request_safe :: "network \<Rightarrow> fetch_options \<Rightarrow> nat \<Rightarrow> request \<Rightarrow> bool" where
  "request_safe net opts hop rq \<longleftrightarrow>
     acceptable_url (rq_url rq) \<and> \<not> (fo_require_https opts \<and> u_scheme (rq_url rq) \<noteq> ''https'')
     \<and> \<not> ip_is_blocked (fst (rq_address rq)) \<and> stands_for net hop (rq_url rq) (rq_address rq)
     \<and> u_host (rq_url rq) = Some (rq_host rq)"

lemma parse_external_url_iff:
  "parse_external_url net text = Inr url \<longleftrightarrow> net_parse net text = Some url \<and> acceptable_url url"
proof (cases "net_parse net text")
  case (Some parsed)
  show ?thesis
  proof (cases "u_host parsed")
    case None
    then show ?thesis using Some by (auto simp: parse_external_url_def acceptable_url_def Let_def)
  next
    case host: (Some host)
    show ?thesis
      using Some host unfolding parse_external_url_def acceptable_url_def Let_def
      by (cases "parse_ip host") (auto simp del: insert_iff)
  qed
qed (simp add: parse_external_url_def)

lemma ensure_https_iff: "ensure_https url required = Inr x \<longleftrightarrow> \<not> (required \<and> u_scheme url \<noteq> ''https'')"
  by (simp add: ensure_https_def)

lemma parse_external_url_Inl:
  "parse_external_url net text = Inl e \<Longrightarrow> net_parse net text = Some url \<Longrightarrow> \<not> acceptable_url url"
  using parse_external_url_iff [of net "text" url] by auto

lemma ensure_https_Inl: "ensure_https url required = Inl e \<longleftrightarrow> e = HttpsRequired \<and> required \<and> u_scheme url \<noteq> ''https''"
  by (auto simp: ensure_https_def)

lemma find_Some_mem: "find P xs = Some x \<Longrightarrow> x \<in> set xs \<and> P x"
  by (induction xs) (auto split: if_splits)

lemma resolve_and_validate_iff:
  "resolve_and_validate net hop url = Inr address \<longleftrightarrow>
     stands_for net hop url address \<and> \<not> ip_is_blocked (fst address)"
  unfolding resolve_and_validate_def stands_for_def
  by (fastforce simp: find_None_iff list_all_iff split: option.splits list.splits if_splits dest: find_Some_mem)

lemma contact_request:
  assumes "acceptable_url current" "\<not> (fo_require_https opts \<and> u_scheme current \<noteq> ''https'')"
    and "contact net opts inm ims hop current = (answer, sent)"
  shows "list_all (request_safe net opts hop) sent \<and> length sent \<le> 1 \<and> answer \<noteq> Inl Unreachable"
proof (cases "resolve_and_validate net hop current")
  case (Inl e)
  then have "e \<noteq> Unreachable" unfolding resolve_and_validate_def by (auto split: option.splits list.splits if_splits)
  then show ?thesis using assms(3) Inl by (auto simp: contact_def)
next
  case (Inr address)
  then obtain host where "u_host current = Some host"
    by (auto simp: resolve_and_validate_iff stands_for_def split: option.splits)
  then show ?thesis using assms Inr
    by (auto simp: contact_def Let_def request_safe_def request_for_def resolve_and_validate_iff split: option.splits)
qed

lemma contact_answered:
  "contact net opts inm ims hop current = (Inr response, sent) \<Longrightarrow> length sent = 1"
  by (auto simp: contact_def Let_def split: sum.splits option.splits)

lemma follow_redirect_iff:
  "follow_redirect net opts origin hop current redirects response = Inr (next, redirects')
   \<longleftrightarrow> hop < fo_max_redirects opts \<and> redirects' = redirects @ [u_text next]
     \<and> acceptable_url next \<and> \<not> (fo_require_https opts \<and> u_scheme next \<noteq> ''https'')
     \<and> (\<exists>location joined. rs_headers response ''location'' = Some (Some location)
          \<and> net_join net current location = Some joined \<and> net_parse net (u_text joined) = Some next)"
  unfolding follow_redirect_def ensure_redirect_allowed_def
  by (auto simp: parse_external_url_iff ensure_https_iff ensure_https_Inl dest: parse_external_url_Inl
      split: option.splits sum.splits)

lemma follow_redirect_error:
  "follow_redirect net opts origin hop current redirects response \<noteq> Inl Unreachable"
proof -
  have "parse_external_url net t \<noteq> Inl Unreachable" for t
    unfolding parse_external_url_def by (auto simp: Let_def split: option.splits)
  then show ?thesis
    unfolding follow_redirect_def ensure_redirect_allowed_def ensure_https_def
    by (auto split: option.splits sum.splits if_splits)
qed

lemma read_limited_loop_error:
  "fst (read_limited_loop put max_bytes src copied events w) \<noteq> Inl Unreachable"
proof (induction put max_bytes src copied events w rule: read_limited_loop.induct)
  case (1 put max_bytes src copied events w)
  then show ?case
    by (subst read_limited_loop.simps) (auto split: prod.splits option.splits bool.splits)
qed

lemma final_response_error: "fst (final_response opts put inm ims current redirects response w) \<noteq> Inl Unreachable"
  using read_limited_loop_error [of put "fo_max_bytes opts" "u_text current" 0 "rs_body response" w]
  unfolding final_response_def ensure_success_status_def read_limited_to_writer_def
  by (auto simp: Let_def split: sum.splits prod.splits)

lemma enumerate_append: "enumerate n (xs @ ys) = enumerate n xs @ enumerate (n + length xs) ys"
  by (induction xs arbitrary: n) auto

lemma fetch_loop_safe:
  assumes "acceptable_url current" "\<not> (fo_require_https opts \<and> u_scheme current \<noteq> ''https'')"
    and "fetch_loop net opts put origin inm ims rounds hop current redirects w = ((answer, w'), sent)"
    and "hop + rounds = Suc (fo_max_redirects opts)" "hop \<le> fo_max_redirects opts"
  shows "list_all (\<lambda>(k, rq). request_safe net opts k rq) (enumerate hop sent) \<and> length sent \<le> rounds
    \<and> answer \<noteq> Inl Unreachable"
  using assms
proof (induction rounds arbitrary: hop current redirects answer w' sent)
  case (Suc rounds)
  obtain reply first where c: "contact net opts inm ims hop current = (reply, first)" by fastforce
  note first = contact_request [OF Suc.prems(1,2) c]
  have one: "list_all (\<lambda>(k, rq). request_safe net opts k rq) (enumerate hop first)"
    using first by (cases first) (auto simp: enumerate_eq_zip)
  show ?case
  proof (cases reply)
    case (Inl e)
    then show ?thesis using Suc.prems(3) c first one by auto
  next
    case (Inr response)
    note single = contact_answered [OF c [unfolded Inr]]
    show ?thesis
    proof (cases "is_redirect (rs_status response)")
      case False
      then show ?thesis
        using Suc.prems(3) c Inr one single final_response_error [of opts put inm ims current redirects response w]
        by auto
    next
      case True
      show ?thesis
      proof (cases "follow_redirect net opts origin hop current redirects response")
        case (Inl e)
        then show ?thesis
          using Suc.prems(3) c Inr True one single follow_redirect_error [of net opts origin hop current redirects response]
          by auto
      next
        case follow: (Inr step)
        obtain next_url redirects' where step: "step = (next_url, redirects')" by fastforce
        note ok = follow [unfolded step follow_redirect_iff]
        obtain later where later: "fetch_loop net opts put origin inm ims rounds (Suc hop) next_url redirects' w
            = ((answer, w'), later)" and sent: "sent = first @ later"
          using Suc.prems(3) c Inr True follow step by (auto split: prod.splits)
        have "list_all (\<lambda>(k, rq). request_safe net opts k rq) (enumerate (Suc hop) later)
            \<and> length later \<le> rounds \<and> answer \<noteq> Inl Unreachable"
          by (rule Suc.IH [OF _ _ later]) (use ok Suc.prems(4) in auto)
        then show ?thesis using one single by (simp add: sent enumerate_append)
      qed
    qed
  qed
qed simp

text \<open>
  C27: whatever the parser, the resolver and the peers answer, a fetch contacts only public addresses: each
  request it sends is for an HTTP(S) URL (HTTPS where required) without user info whose host is no cloud
  metadata name, and goes to the first of the addresses the host stands for at that hop, all of them public.
  It sends at most one request more than the redirects allowed, and never falls out of the loop.
\<close>

theorem fetch_contacts_only_public:
  assumes "safe_fetch_with_scheme_to_writer net url put w opts = ((answer, w'), sent)"
  shows "list_all (\<lambda>(k, rq). request_safe net opts k rq) (enumerate 0 sent)
    \<and> length sent \<le> Suc (fo_max_redirects opts) \<and> answer \<noteq> Inl Unreachable"
proof -
  have "refresh_header net v name \<noteq> Inl Unreachable" "parse_external_url net url \<noteq> Inl Unreachable"
    "ensure_https u r \<noteq> Inl Unreachable" for v name u r
    unfolding refresh_header_def parse_external_url_def ensure_https_def by (auto simp: Let_def split: option.splits)
  then show ?thesis
    using assms fetch_loop_safe [of _ opts net put url _ _ "Suc (fo_max_redirects opts)" 0 "[]" w answer w' sent]
    unfolding safe_fetch_with_scheme_to_writer_def
    by (auto simp: parse_external_url_iff ensure_https_iff simp del: fetch_loop.simps split: sum.splits)
qed

section \<open>What a fetch copies\<close>

text \<open>The body a reader delivers: the bytes up to the first empty read, if no read before it fails.\<close>

fun body_of :: "read_event list \<Rightarrow> bytes option" where
  "body_of [] = Some []"
| "body_of (ReadFailure # rest) = None"
| "body_of (Bytes bs # rest) = (if bs = [] then Some [] else map_option ((@) bs) (body_of rest))"

lemma read_chunk_body:
  assumes "read_chunk events = (chunk, rest)"
  shows "body_of events = (case chunk of None \<Rightarrow> None
    | Some bs \<Rightarrow> if bs = [] then Some [] else map_option ((@) bs) (body_of rest))"
  using assms
  by (cases events rule: read_chunk.cases; cases "body_of rest") (auto simp: chunk_size_def split: if_splits)

lemma within_limit:
  assumes "m < usize_max" "\<not> m < saturating_add n k"
  shows "n + k \<le> m" "(n + k) mod 2 ^ 64 = n + k"
proof -
  show "n + k \<le> m" using assms by (auto simp: saturating_add_def min_def split: if_splits)
  then have "n + k < 2 ^ 64" using assms(1) by (auto simp: usize_max_def)
  then show "(n + k) mod 2 ^ 64 = n + k" by simp
qed

definition put_all :: "'w writer \<Rightarrow> bytes list \<Rightarrow> 'w \<Rightarrow> 'w" where
  "put_all put chunks w = fold (\<lambda>chunk w. snd (put w chunk)) chunks w"

lemma read_limited_loop_bound:
  assumes "m < usize_max" "copied \<le> m"
  shows "\<exists>chunks. snd (read_limited_loop put m src copied events w) = put_all put chunks w
    \<and> copied + length (concat chunks) \<le> m"
  using assms
proof (induction put m src copied events w rule: read_limited_loop.induct)
  case (1 put m src copied events w)
  obtain chunk rest where read: "read_chunk events = (chunk, rest)" by fastforce
  have idle: "w = put_all put [] w \<and> copied + length (concat []) \<le> m" using "1.prems" by (simp add: put_all_def)
  show ?case
  proof (cases "\<exists>bs. chunk = Some bs \<and> bs \<noteq> [] \<and> \<not> m < saturating_add copied (length bs)")
    case False
    then have "snd (read_limited_loop put m src copied events w) = w"
      using read by (subst read_limited_loop.simps) (auto split: option.splits)
    with idle show ?thesis by metis
  next
    case True
    then obtain bs where bs: "chunk = Some bs" "bs \<noteq> []" "\<not> m < saturating_add copied (length bs)" by blast
    note fits = within_limit [OF "1.prems"(1) bs(3)]
    obtain ok w' where w': "put w bs = (ok, w')" by fastforce
    have one: "w' = put_all put [bs] w" by (simp add: put_all_def w')
    show ?thesis
    proof (cases ok)
      case False
      then have "snd (read_limited_loop put m src copied events w) = w'"
        using read bs w' by (subst read_limited_loop.simps) simp
      with one fits(1) show ?thesis by (intro exI [of _ "[bs]"]) simp
    next
      case True
      then have loop: "read_limited_loop put m src copied events w
          = read_limited_loop put m src (copied + length bs) rest w'"
        using read bs w' fits(2) by (subst read_limited_loop.simps) simp
      obtain chunks where "snd (read_limited_loop put m src (copied + length bs) rest w') = put_all put chunks w'"
        and "copied + length bs + length (concat chunks) \<le> m"
        using "1.IH" [OF read [symmetric] bs w' [symmetric]] True "1.prems"(1) fits by auto
      then show ?thesis unfolding loop one by (intro exI [of _ "bs # chunks"]) (simp add: put_all_def)
    qed
  qed
qed

lemma read_limited_loop_vec:
  assumes "m < usize_max" "copied \<le> m"
  shows "read_limited_loop vec_writer m src copied events w = (Inr n, w')
    \<longleftrightarrow> (\<exists>bs. body_of events = Some bs \<and> n = copied + length bs \<and> n \<le> m \<and> w' = w @ bs)"
  using assms
proof (induction "vec_writer" m src copied events w rule: read_limited_loop.induct)
  case (1 m src copied events w)
  obtain chunk rest where read: "read_chunk events = (chunk, rest)" by fastforce
  show ?case
  proof (cases chunk)
    case None
    then show ?thesis using read read_chunk_body [OF read] by (subst read_limited_loop.simps) simp
  next
    case (Some bs)
    consider (stop) "bs = []" | (excess) "bs \<noteq> []" "m < saturating_add copied (length bs)"
      | (more) "bs \<noteq> []" "\<not> m < saturating_add copied (length bs)" by blast
    then show ?thesis
    proof cases
      case stop
      then show ?thesis using read Some read_chunk_body [OF read] "1.prems" by (subst read_limited_loop.simps) auto
    next
      case excess
      then have "m < copied + length bs" by (auto simp: saturating_add_def min_def split: if_splits)
      then show ?thesis
        using read Some excess read_chunk_body [OF read] by (subst read_limited_loop.simps) auto
    next
      case more
      note fits = within_limit [OF "1.prems"(1) more(2)]
      have put: "vec_writer w bs = (True, w @ bs)" by (simp add: vec_writer_def)
      have loop: "read_limited_loop vec_writer m src copied events w
          = read_limited_loop vec_writer m src (copied + length bs) rest (w @ bs)"
        using read Some more put fits(2) by (subst read_limited_loop.simps) simp
      show ?thesis
        unfolding loop read_chunk_body [OF read]
        using "1.hyps" [OF read [symmetric] Some more put [symmetric]] "1.prems"(1) fits Some more by auto
    qed
  qed
qed

text \<open>
  The copy of a body into a writer hands over no more than the limit, whatever the reader and the writer
  do; and reading into memory succeeds exactly when the body arrives without a failure and within the limit,
  with the whole body as its result.
\<close>

lemma bounded_copy:
  assumes "m < usize_max"
  shows "(\<exists>chunks. snd (read_limited_to_writer put events w m src) = put_all put chunks w
            \<and> length (concat chunks) \<le> m)
    \<and> (read_limited events m src = Inr bs \<longleftrightarrow> body_of events = Some bs \<and> length bs \<le> m)"
proof
  show "\<exists>chunks. snd (read_limited_to_writer put events w m src) = put_all put chunks w \<and> length (concat chunks) \<le> m"
    using read_limited_loop_bound [OF assms, of 0 put src events w] by (simp add: read_limited_to_writer_def)
  show "read_limited events m src = Inr bs \<longleftrightarrow> body_of events = Some bs \<and> length bs \<le> m"
    using read_limited_loop_vec [OF assms, of 0 src events "[]"]
    unfolding read_limited_def read_limited_to_writer_def by (auto split: prod.splits sum.splits)
qed

lemma bounded_copy_witness:
  "read_limited [Bytes [1, 2], Bytes [3]] 3 ''u'' = Inr [1, 2, 3]
   \<and> read_limited [Bytes [1, 2], Bytes [3]] 2 ''u'' \<noteq> Inr [1, 2, 3]"
proof -
  have small: "(3 :: nat) < usize_max" "(2 :: nat) < usize_max" by (simp_all add: usize_max_def)
  have body: "body_of [Bytes [1, 2], Bytes [3]] = Some [1, 2, 3]" by simp
  show ?thesis
    using bounded_copy [OF small(1), THEN conjunct2, of "[Bytes [1, 2], Bytes [3]]" _ "[1, 2, 3]"]
      bounded_copy [OF small(2), THEN conjunct2, of "[Bytes [1, 2], Bytes [3]]" _ "[1, 2, 3]"] body
    by auto
qed

section \<open>What a fetch delivers\<close>

text \<open>The chains of redirects an unconditional fetch may follow, as a relation between the hops: the address
  the host stands for answers with a redirect whose target may be contacted in turn.\<close>

definition permitted :: "fetch_options \<Rightarrow> url \<Rightarrow> bool" where
  "permitted opts url \<longleftrightarrow> acceptable_url url \<and> \<not> (fo_require_https opts \<and> u_scheme url \<noteq> ''https'')"

definition responds :: "network \<Rightarrow> fetch_options \<Rightarrow> nat \<Rightarrow> url \<Rightarrow> response \<Rightarrow> bool" where
  "responds net opts hop current response \<longleftrightarrow>
     (\<exists>host address. u_host current = Some host \<and> stands_for net hop current address
        \<and> \<not> ip_is_blocked (fst address)
        \<and> net_send net hop (request_for opts None None current host address) = Some response)"

inductive redirected :: "network \<Rightarrow> fetch_options \<Rightarrow> nat \<times> url \<Rightarrow> nat \<times> url \<Rightarrow> bool" for net opts where
  redirected: "responds net opts hop current response \<Longrightarrow> is_redirect (rs_status response)
    \<Longrightarrow> hop < fo_max_redirects opts \<Longrightarrow> rs_headers response ''location'' = Some (Some location)
    \<Longrightarrow> net_join net current location = Some joined \<Longrightarrow> net_parse net (u_text joined) = Some target
    \<Longrightarrow> permitted opts target \<Longrightarrow> redirected net opts (hop, current) (Suc hop, target)"

inductive_cases redirectedE: "redirected net opts (hop, current) next"

definition delivers :: "network \<Rightarrow> fetch_options \<Rightarrow> nat \<times> url \<Rightarrow> response \<Rightarrow> bool" where
  "delivers net opts st response \<longleftrightarrow>
     (\<exists>hop current. (redirected net opts)\<^sup>*\<^sup>* st (hop, current) \<and> responds net opts hop current response
        \<and> 200 \<le> rs_status response \<and> rs_status response < 300)"

lemma stands_for_unique: "stands_for net hop url a \<Longrightarrow> stands_for net hop url b \<Longrightarrow> a = b"
  by (auto simp: stands_for_def split: option.splits)

lemma contact_responds:
  "(\<exists>sent. contact net opts None None hop current = (Inr response, sent)) \<longleftrightarrow> responds net opts hop current response"
proof (cases "resolve_and_validate net hop current")
  case (Inl e)
  then have "\<not> (stands_for net hop current a \<and> \<not> ip_is_blocked (fst a))" for a
    using resolve_and_validate_iff [of net hop current a] by simp
  then show ?thesis using Inl by (auto simp: contact_def responds_def)
next
  case (Inr address)
  then have address: "stands_for net hop current address" "\<not> ip_is_blocked (fst address)"
    by (simp_all add: resolve_and_validate_iff)
  then obtain host where host: "u_host current = Some host" by (auto simp: stands_for_def split: option.splits)
  have "responds net opts hop current response
      \<longleftrightarrow> net_send net hop (request_for opts None None current host address) = Some response"
  proof
    assume "responds net opts hop current response"
    then obtain h a where "u_host current = Some h" "stands_for net hop current a"
        "net_send net hop (request_for opts None None current h a) = Some response"
      by (auto simp: responds_def)
    moreover from this(2) address(1) have "a = address" by (rule stands_for_unique)
    ultimately show "net_send net hop (request_for opts None None current host address) = Some response"
      using host by simp
  next
    assume "net_send net hop (request_for opts None None current host address) = Some response"
    then show "responds net opts hop current response"
      unfolding responds_def using host address by (intro exI conjI)
  qed
  then show ?thesis using Inr host by (auto simp: contact_def Let_def split: option.splits)
qed

lemma responds_unique: "responds net opts hop current r \<Longrightarrow> responds net opts hop current s \<Longrightarrow> r = s"
  by (auto simp flip: contact_responds)

lemma redirected_response:
  "redirected net opts (hop, current) t \<Longrightarrow> responds net opts hop current r \<Longrightarrow> is_redirect (rs_status r)"
  by (erule redirectedE) (drule (1) responds_unique, simp)

lemma delivers_here:
  assumes "responds net opts hop current r" "\<not> is_redirect (rs_status r)"
  shows "delivers net opts (hop, current) response \<longleftrightarrow>
    response = r \<and> 200 \<le> rs_status response \<and> rs_status response < 300"
proof
  assume "delivers net opts (hop, current) response"
  then obtain hop' current' where steps: "(redirected net opts)\<^sup>*\<^sup>* (hop, current) (hop', current')"
    and last: "responds net opts hop' current' response" "200 \<le> rs_status response" "rs_status response < 300"
    by (auto simp: delivers_def)
  have "\<not> redirected net opts (hop, current) t" for t
    using assms redirected_response by blast
  then have "(hop', current') = (hop, current)" using steps by (metis converse_rtranclpE)
  then show "response = r \<and> 200 \<le> rs_status response \<and> rs_status response < 300"
    using last responds_unique [OF assms(1)] by simp
next
  assume "response = r \<and> 200 \<le> rs_status response \<and> rs_status response < 300"
  then show "delivers net opts (hop, current) response"
    unfolding delivers_def using assms(1) by (intro exI [of _ hop] exI [of _ current]) auto
qed

lemma delivers_later:
  assumes "responds net opts hop current r" "is_redirect (rs_status r)"
  shows "delivers net opts (hop, current) response \<longleftrightarrow>
    (\<exists>t. redirected net opts (hop, current) t \<and> delivers net opts t response)"
proof
  assume "delivers net opts (hop, current) response"
  then obtain hop' current' where steps: "(redirected net opts)\<^sup>*\<^sup>* (hop, current) (hop', current')"
    and last: "responds net opts hop' current' response" "200 \<le> rs_status response" "rs_status response < 300"
    by (auto simp: delivers_def)
  have "(hop', current') \<noteq> (hop, current)"
  proof
    assume "(hop', current') = (hop, current)"
    then have "response = r" using last(1) responds_unique [OF assms(1)] by simp
    then show False using last(2,3) assms(2) by (auto simp: is_redirect_def)
  qed
  with steps obtain t where "redirected net opts (hop, current) t" "(redirected net opts)\<^sup>*\<^sup>* t (hop', current')"
    by (metis converse_rtranclpE)
  with last show "\<exists>t. redirected net opts (hop, current) t \<and> delivers net opts t response"
    unfolding delivers_def by blast
next
  assume "\<exists>t. redirected net opts (hop, current) t \<and> delivers net opts t response"
  then show "delivers net opts (hop, current) response"
    unfolding delivers_def by (elim exE conjE) (intro exI conjI, rule converse_rtranclp_into_rtranclp, assumption+)
qed

lemma delivers_nowhere:
  assumes "\<And>r. \<not> responds net opts hop current r"
  shows "\<not> delivers net opts (hop, current) response"
proof
  assume "delivers net opts (hop, current) response"
  then obtain hop' current' where steps: "(redirected net opts)\<^sup>*\<^sup>* (hop, current) (hop', current')"
    and last: "responds net opts hop' current' response" by (auto simp: delivers_def)
  have "\<not> redirected net opts (hop, current) t" for t using assms by (auto elim: redirectedE)
  then have "(hop', current') = (hop, current)" using steps by (metis converse_rtranclpE)
  then show False using last assms by simp
qed

lemma follow_redirect_redirected:
  assumes "responds net opts hop current response" "is_redirect (rs_status response)"
  shows "redirected net opts (hop, current) (hop', target) \<longleftrightarrow>
    hop' = Suc hop \<and> (\<exists>redirects'. follow_redirect net opts origin hop current redirects response = Inr (target, redirects'))"
proof
  assume "redirected net opts (hop, current) (hop', target)"
  then show "hop' = Suc hop \<and> (\<exists>redirects'. follow_redirect net opts origin hop current redirects response
      = Inr (target, redirects'))"
  proof (rule redirectedE)
    fix r location joined next_url
    assume step: "(hop', target) = (Suc hop, next_url)" "responds net opts hop current r" "hop < fo_max_redirects opts"
      "rs_headers r ''location'' = Some (Some location)" "net_join net current location = Some joined"
      "net_parse net (u_text joined) = Some next_url" "permitted opts next_url"
    have "r = response" using step(2) assms(1) by (rule responds_unique)
    with step show ?thesis by (auto simp: follow_redirect_iff permitted_def)
  qed
next
  assume "hop' = Suc hop \<and> (\<exists>redirects'. follow_redirect net opts origin hop current redirects response
      = Inr (target, redirects'))"
  then show "redirected net opts (hop, current) (hop', target)"
    using redirected [OF assms] by (auto simp: follow_redirect_iff permitted_def)
qed

text \<open>The source only names the response in messages.\<close>

lemma read_limited_loop_source:
  "read_limited_loop put m src copied events w = (Inr n, w') \<Longrightarrow> read_limited_loop put m src' copied events w = (Inr n, w')"
proof (induction put m src copied events w rule: read_limited_loop.induct)
  case (1 put m src copied events w)
  show ?case
    using "1.prems"
    unfolding read_limited_loop.simps [of put m src copied events w] read_limited_loop.simps [of put m src' copied events w]
    by (auto split: prod.splits option.splits bool.splits if_splits intro: "1.IH" [OF sym refl _ _ sym refl, simplified])
qed

lemma final_response_delivered:
  "(\<exists>n m. final_response opts put None None current redirects response w = (Inr (Modified n m), w'))
   \<longleftrightarrow> 200 \<le> rs_status response \<and> rs_status response < 300
     \<and> (\<exists>n. read_limited_to_writer put (rs_body response) w (fo_max_bytes opts) (u_text current) = (Inr n, w'))"
  by (auto simp: final_response_def Let_def ensure_success_status_def split: sum.splits prod.splits)

lemma fetch_loop_delivers:
  assumes "hop + rounds = Suc (fo_max_redirects opts)" "hop \<le> fo_max_redirects opts"
  shows "(\<exists>n m sent. fetch_loop net opts put origin None None rounds hop current redirects w
      = ((Inr (Modified n m), w'), sent))
    \<longleftrightarrow> (\<exists>response src n. delivers net opts (hop, current) response
          \<and> read_limited_to_writer put (rs_body response) w (fo_max_bytes opts) src = (Inr n, w'))"
  using assms
proof (induction rounds arbitrary: hop current redirects)
  case (Suc rounds)
  obtain reply sent where c: "contact net opts None None hop current = (reply, sent)" by fastforce
  show ?case
  proof (cases reply)
    case (Inl e)
    then have "\<not> responds net opts hop current r" for r
      using c contact_responds [of net opts hop current r] by auto
    then show ?thesis using c Inl delivers_nowhere by auto
  next
    case (Inr response)
    then have here: "responds net opts hop current response" using c contact_responds by blast
    show ?thesis
    proof (cases "is_redirect (rs_status response)")
      case False
      have "(\<exists>n m sent. fetch_loop net opts put origin None None (Suc rounds) hop current redirects w
          = ((Inr (Modified n m), w'), sent))
        \<longleftrightarrow> (\<exists>n m. final_response opts put None None current redirects response w = (Inr (Modified n m), w'))"
        using c Inr False by auto
      then show ?thesis
        unfolding final_response_delivered delivers_here [OF here False]
        by (auto simp: read_limited_to_writer_def dest: read_limited_loop_source)
    next
      case True
      show ?thesis
      proof (cases "follow_redirect net opts origin hop current redirects response")
        case (Inl e)
        then show ?thesis
          using c Inr True delivers_later [OF here True]
            follow_redirect_redirected [OF here True, where origin = origin and redirects = redirects] by auto
      next
        case follow: (Inr step)
        obtain target redirects' where step: "step = (target, redirects')" by fastforce
        have only: "redirected net opts (hop, current) t \<longleftrightarrow> t = (Suc hop, target)" for t
          using follow_redirect_redirected [OF here True, where origin = origin and redirects = redirects]
            follow step by (cases t) auto
        have later: "delivers net opts (hop, current) r \<longleftrightarrow> delivers net opts (Suc hop, target) r" for r
          by (simp add: delivers_later [OF here True] only)
        have bound: "Suc hop + rounds = Suc (fo_max_redirects opts)" "Suc hop \<le> fo_max_redirects opts"
          using Suc.prems follow step by (auto simp: follow_redirect_iff)
        have "(\<exists>n m sent. fetch_loop net opts put origin None None (Suc rounds) hop current redirects w
            = ((Inr (Modified n m), w'), sent))
          \<longleftrightarrow> (\<exists>n m sent. fetch_loop net opts put origin None None rounds (Suc hop) target redirects' w
            = ((Inr (Modified n m), w'), sent))"
          using c Inr True follow step
          by (cases "fetch_loop net opts put origin None None rounds (Suc hop) target redirects' w") simp
        then show ?thesis unfolding later Suc.IH [OF bound] .
      qed
    qed
  qed
qed simp

definition plain_options :: "nat \<Rightarrow> nat \<Rightarrow> bool \<Rightarrow> fetch_options" where
  "plain_options max_bytes timeout require_https =
     \<lparr> fo_max_bytes = max_bytes, fo_timeout = timeout, fo_require_https = require_https,
       fo_if_none_match = None, fo_if_modified_since = None, fo_max_redirects = max_redirects \<rparr>"

text \<open>
  C28: fetching into memory is live and exact: it returns a body exactly when the URL may be contacted and a
  chain of at most five permitted redirects leads to an answer with a success status whose whole body
  arrives within the limit, and then that body is the result.
\<close>

theorem safe_fetch_delivers:
  assumes "max_bytes < usize_max"
  shows "safe_fetch_with_scheme net url max_bytes timeout require_https = Inr body
    \<longleftrightarrow> (\<exists>start response. net_parse net url = Some start
          \<and> permitted (plain_options max_bytes timeout require_https) start
          \<and> delivers net (plain_options max_bytes timeout require_https) (0, start) response
          \<and> body_of (rs_body response) = Some body \<and> length body \<le> max_bytes)"
proof -
  let ?opts = "plain_options max_bytes timeout require_https"
  have limit: "(\<exists>src n. read_limited_to_writer vec_writer events [] max_bytes src = (Inr n, body))
      \<longleftrightarrow> body_of events = Some body \<and> length body \<le> max_bytes" for events
    using read_limited_loop_vec [OF assms, of 0 _ events "[]"] by (auto simp: read_limited_to_writer_def)
  have "safe_fetch_with_scheme net url max_bytes timeout require_https = Inr body
    \<longleftrightarrow> (\<exists>n m sent. safe_fetch_with_scheme_to_writer net url vec_writer [] ?opts = ((Inr (Modified n m), body), sent))"
    unfolding safe_fetch_with_scheme_def plain_options_def [symmetric]
    by (cases "safe_fetch_with_scheme_to_writer net url vec_writer [] ?opts")
       (auto split: sum.splits conditional_fetch_result.splits)
  also have "\<dots> \<longleftrightarrow> (\<exists>start n m sent. net_parse net url = Some start \<and> permitted ?opts start
      \<and> fetch_loop net ?opts vec_writer url None None (Suc max_redirects) 0 start [] []
          = ((Inr (Modified n m), body), sent))"
    unfolding safe_fetch_with_scheme_to_writer_def refresh_header_def permitted_def
    by (auto simp: plain_options_def parse_external_url_iff ensure_https_iff ensure_https_Inl
        simp del: fetch_loop.simps dest: parse_external_url_Inl split: sum.splits)
  also have "\<dots> \<longleftrightarrow> (\<exists>start response. net_parse net url = Some start \<and> permitted ?opts start
      \<and> delivers net ?opts (0, start) response \<and> body_of (rs_body response) = Some body \<and> length body \<le> max_bytes)"
  proof -
    have "0 + Suc max_redirects = Suc (fo_max_redirects ?opts)" "0 \<le> fo_max_redirects ?opts"
      by (simp_all add: plain_options_def)
    note loop = fetch_loop_delivers [OF this, of net vec_writer url _ "[]" "[]" body]
    have "(\<exists>n m sent. fetch_loop net ?opts vec_writer url None None (Suc max_redirects) 0 start [] []
          = ((Inr (Modified n m), body), sent))
      \<longleftrightarrow> (\<exists>response. delivers net ?opts (0, start) response
            \<and> body_of (rs_body response) = Some body \<and> length body \<le> max_bytes)" for start
      unfolding loop limit [symmetric] by (auto simp: plain_options_def)
    then show ?thesis by meson
  qed
  finally show ?thesis .
qed

text \<open>A network in which a first host redirects to a second one.\<close>

definition sample_url :: "string \<Rightarrow> string \<Rightarrow> url" where
  "sample_url scheme host =
     \<lparr> u_scheme = scheme, u_username = [], u_password = None, u_host = Some host, u_port = Some 443,
       u_text = scheme @ ''://'' @ host \<rparr>"

definition sample_network :: network where
  "sample_network =
     \<lparr> net_parse = (\<lambda>s. if s = ''https://www.a'' then Some (sample_url ''https'' ''www.a'')
                        else if s = ''https://www.b'' then Some (sample_url ''https'' ''www.b'') else None),
       net_join = (\<lambda>_ location. Some (sample_url ''https'' location)),
       net_resolve = (\<lambda>_ _ port. Some [(V4 (Ipv4 93 184 215 14), port)]),
       net_send = (\<lambda>_ rq. Some (if rq_host rq = ''www.a''
          then \<lparr> rs_status = 302, rs_headers = [''location'' \<mapsto> Some ''www.b''], rs_body = [] \<rparr>
          else \<lparr> rs_status = 200, rs_headers = Map.empty, rs_body = [Bytes [104, 105]] \<rparr>)),
       net_header_value = (\<lambda>_. True) \<rparr>"

text \<open>A host that starts with a letter beyond the hexadecimal digits is no address.\<close>

lemma named_host:
  assumes "digit_value c = 255" "c \<noteq> CHR '':''"
  shows "parse_ip (c # cs) = None"
proof -
  have none: "read_number base width zero bound (c # cs) = None" if "base \<le> 255" for base width zero bound
    using assms(1) that by (simp add: read_number_def Let_def)
  have four: "read_ipv4 (c # cs) = None" by (simp add: read_ipv4_def separated_def read_octet_def none)
  have "read_groups 8 True (c # cs) = read_groups (Suc 7) True (c # cs)" by (simp add: eval_nat_numeral)
  also have "\<dots> = ([], False, c # cs)" by (simp only: read_groups.simps separated_def) (simp add: four read_group_def none)
  finally have "read_ipv6 (c # cs) = None" using assms(2) by (simp add: read_ipv6_def read_char_def)
  then show ?thesis by (simp add: parse_ip_def four)
qed

lemma sample_hosts: "parse_ip (CHR ''w'' # cs) = None"
proof (rule named_host)
  show "digit_value CHR ''w'' = 255" by code_simp
qed simp

lemma sample_address: "ip_is_blocked (V4 (Ipv4 93 184 215 14)) = False" by code_simp

lemma sample_acceptable: "acceptable_url (sample_url ''https'' ''www.a'')" "acceptable_url (sample_url ''https'' ''www.b'')"
proof -
  have "ascii_lowercase ''https'' = ''https''" "ascii_lowercase ''www.a'' = ''www.a''"
    "ascii_lowercase ''www.b'' = ''www.b''" by code_simp+
  then show "acceptable_url (sample_url ''https'' ''www.a'')" "acceptable_url (sample_url ''https'' ''www.b'')"
    by (simp_all add: acceptable_url_def sample_url_def sample_hosts)
qed

lemma sample_parse:
  "parse_external_url sample_network ''https://www.a'' = Inr (sample_url ''https'' ''www.a'')"
  "parse_external_url sample_network ''https://www.b'' = Inr (sample_url ''https'' ''www.b'')"
  by (simp_all add: parse_external_url_iff sample_acceptable) (simp_all add: sample_network_def)

lemma sample_resolve:
  "resolve_and_validate sample_network k (sample_url ''https'' ''www.a'') = Inr (V4 (Ipv4 93 184 215 14), 443)"
  "resolve_and_validate sample_network k (sample_url ''https'' ''www.b'') = Inr (V4 (Ipv4 93 184 215 14), 443)"
  by (simp_all add: resolve_and_validate_def sample_url_def sample_hosts sample_network_def sample_address)

lemma sample_fetch:
  "\<exists>m first second. safe_fetch_with_scheme_to_writer sample_network ''https://www.a'' vec_writer [] (plain_options 10 30 True)
    = ((Inr (Modified 2 m), [104, 105]), [first, second])"
proof -
  have a: "contact sample_network opts None None k (sample_url ''https'' ''www.a'')
      = (Inr \<lparr> rs_status = 302, rs_headers = [''location'' \<mapsto> Some ''www.b''], rs_body = [] \<rparr>,
         [request_for opts None None (sample_url ''https'' ''www.a'') ''www.a'' (V4 (Ipv4 93 184 215 14), 443)])"
    and b: "contact sample_network opts None None k (sample_url ''https'' ''www.b'')
      = (Inr \<lparr> rs_status = 200, rs_headers = Map.empty, rs_body = [Bytes [104, 105]] \<rparr>,
         [request_for opts None None (sample_url ''https'' ''www.b'') ''www.b'' (V4 (Ipv4 93 184 215 14), 443)])" for opts k
    by (simp_all add: contact_def sample_resolve) (simp_all add: sample_network_def sample_url_def request_for_def)
  have follow: "follow_redirect sample_network (plain_options 10 30 True) origin 0 (sample_url ''https'' ''www.a'') []
      \<lparr> rs_status = 302, rs_headers = [''location'' \<mapsto> Some ''www.b''], rs_body = [] \<rparr>
      = Inr (sample_url ''https'' ''www.b'', [''https://www.b''])" for origin
    unfolding follow_redirect_iff using sample_acceptable(2)
    by (simp add: plain_options_def max_redirects_def sample_network_def sample_url_def)
  have body: "read_limited_to_writer vec_writer [Bytes [104, 105]] [] 10 src = (Inr 2, [104, 105])" for src
    by (simp add: read_limited_to_writer_def read_limited_loop.simps chunk_size_def vec_writer_def
        saturating_add_def usize_max_def)
  have refresh: "refresh_header sample_network None name = Inr None" for name by (simp add: refresh_header_def)
  have options: "fo_if_none_match (plain_options 10 30 True) = None" "fo_if_modified_since (plain_options 10 30 True) = None"
    "fo_max_redirects (plain_options 10 30 True) = Suc 4" "fo_max_bytes (plain_options 10 30 True) = 10"
    "fo_require_https (plain_options 10 30 True)"
    by (simp_all add: plain_options_def max_redirects_def)
  have rounds: "(6 :: nat) = Suc (Suc 4)" by simp
  have https: "ensure_https (sample_url ''https'' h) r = Inr ()" for h r by (simp add: ensure_https_def sample_url_def)
  show ?thesis
    unfolding safe_fetch_with_scheme_to_writer_def
    by (simp add: refresh options sample_parse(1) https)
       (simp only: rounds fetch_loop.simps,
        simp add: a b follow options is_redirect_def final_response_def ensure_success_status_def body)
qed

lemma fetch_contacts_only_public_witness:
  "(case safe_fetch_with_scheme_to_writer sample_network ''https://www.a'' vec_writer [] (plain_options 10 30 True) of
      (_, sent) \<Rightarrow> length sent = 2
        \<and> list_all (\<lambda>(k, rq). request_safe sample_network (plain_options 10 30 True) k rq) (enumerate 0 sent))"
proof -
  obtain m first second where "safe_fetch_with_scheme_to_writer sample_network ''https://www.a'' vec_writer []
      (plain_options 10 30 True) = ((Inr (Modified 2 m), [104, 105]), [first, second])"
    using sample_fetch by metis
  from fetch_contacts_only_public [OF this] this show ?thesis by simp
qed

lemma safe_fetch_delivers_witness:
  "safe_fetch_with_scheme sample_network ''https://www.a'' 10 30 True = Inr [104, 105]
   \<and> (\<exists>response. delivers sample_network (plain_options 10 30 True) (0, sample_url ''https'' ''www.a'') response
        \<and> body_of (rs_body response) = Some [104, 105])"
proof -
  have fetched: "safe_fetch_with_scheme sample_network ''https://www.a'' 10 30 True = Inr [104, 105]"
    unfolding safe_fetch_with_scheme_def plain_options_def [symmetric] using sample_fetch by auto
  have "(10 :: nat) < usize_max" by (simp add: usize_max_def)
  from safe_fetch_delivers [OF this, of sample_network "''https://www.a''" 30 True "[104, 105]"] fetched
  have "\<exists>start response. net_parse sample_network ''https://www.a'' = Some start
      \<and> delivers sample_network (plain_options 10 30 True) (0, start) response
      \<and> body_of (rs_body response) = Some [104, 105]" by blast
  moreover have "net_parse sample_network ''https://www.a'' = Some (sample_url ''https'' ''www.a'')"
    by (simp add: sample_network_def)
  ultimately show ?thesis using fetched by auto
qed

end
