(* ===== verification/Analyze.thy ===== *)
theory Analyze
  imports Model
begin

text \<open>
  The architectural analysis of a graph (\<open>graphoxide-graph/src/analyze.rs\<close>): degrees, hubs, surprising
  connections between files or communities, the difference of two graphs and the suggested questions.
  Reasons and notes with characters outside the repertoire are structured values. Import cycles are in the
  theory \<open>Cycles\<close>.
\<close>

section \<open>Degrees and kinds of nodes\<close>

definition id_positions :: "graph \<Rightarrow> string \<Rightarrow> nat option" where
  "id_positions g i =
     (case rev (filter (\<lambda>k. n_id (g_nodes g ! k) = i) [0..<length (g_nodes g)]) of [] \<Rightarrow> None | k # _ \<Rightarrow> Some k)"

definition count_degree :: "edge \<Rightarrow> (string, nat) btree \<Rightarrow> (string, nat) btree" where
  "count_degree e degree =
     (let s = true_source e; t = true_target e
      in if bt_has degree s \<and> bt_has degree t
         then let degree = bt_update s 0 Suc degree
              in if s \<noteq> t then bt_update t 0 Suc degree else degree
         else degree)"

definition degrees :: "graph \<Rightarrow> (string, nat) btree" where
  "degrees g = fold count_degree (g_links g) (bt_of_list (map (\<lambda>n. (n_id n, 0)) (g_nodes g)))"

definition degree_of :: "(string, nat) btree \<Rightarrow> string \<Rightarrow> nat" where
  "degree_of degree i = (case bt_get degree i of None \<Rightarrow> 0 | Some d \<Rightarrow> d)"

definition is_file_node :: "node \<Rightarrow> nat \<Rightarrow> bool" where
  "is_file_node n degree =
     (let source = slashes (n_source_file n); label = n_label n
      in if label = [] then False
         else if get_str (n_extra n) ''_origin'' = Some ''document_package''
                 \<and> (bt_has (n_extra n) ''unit_ordinal'' \<or> bt_has (n_extra n) ''internal_part'') then False
         else if n_source_file n \<noteq> []
                 \<and> (label = last (split_on CHR ''/'' source)
                    \<or> CHR ''/'' \<in> set label \<and> (source = label \<or> ends_with source (CHR ''/'' # label))) then True
         else starts_with label ''.'' \<and> ends_with label ''()'' \<or> ends_with label ''()'' \<and> degree \<le> 1)"

definition is_concept_node :: "node \<Rightarrow> bool" where
  "is_concept_node n \<longleftrightarrow>
     n_source_file n = [] \<or> CHR ''.'' \<notin> set (last (split_on CHR ''/'' (slashes (n_source_file n))))"

definition json_noise :: "string list" where
  "json_noise =
     [''start'', ''end'', ''name'', ''id'', ''type'', ''properties'', ''value'', ''key'', ''data'', ''items'', ''title'',
      ''description'', ''version'', ''dependencies'', ''devdependencies'', ''peerdependencies'',
      ''optionaldependencies'', ''bundleddependencies'', ''bundledependencies'']"

definition is_json_key_node :: "node \<Rightarrow> bool" where
  "is_json_key_node n \<longleftrightarrow>
     ends_with (lowercase (n_source_file n)) ''.json'' \<and> lowercase (trim (n_label n)) \<in> set json_noise"

section \<open>Hubs\<close>

definition builtin_noise :: "string list" where
  "builtin_noise =
     [''str'', ''int'', ''float'', ''bool'', ''bytes'', ''bytearray'', ''complex'', ''object'', ''True'', ''False'',
      ''MagicMock'', ''Mock'', ''AsyncMock'', ''NonCallableMock'', ''NonCallableMagicMock'', ''PropertyMock'',
      ''patch'', ''sentinel'', ''Path'', ''Any'', ''Optional'', ''List'', ''Dict'', ''Set'', ''Tuple'', ''Union'',
      ''Callable'', ''Type'', ''ClassVar'', ''Final'', ''Literal'', ''Protocol'', ''Counter'', ''defaultdict'',
      ''OrderedDict'', ''datetime'', ''Enum'', ''os'', ''sys'', ''re'', ''json'', ''io'', ''abc'', ''typing'',
      ''Foundation'', ''SwiftUI'', ''UIKit'', ''AppKit'', ''Combine'', ''String'', ''Int'', ''Double'', ''Float'',
      ''Bool'', ''Data'', ''URL'', ''Date'', ''UUID'', ''Sendable'', ''Codable'', ''Decodable'', ''Encodable'',
      ''Equatable'', ''Hashable'', ''Identifiable'', ''Comparable'', ''AnyObject'', ''Error'', ''LocalizedError'',
      ''NSObject'', ''NSString'', ''NSError'', ''NSLock'', ''View'', ''Color'', ''Font'', ''DispatchQueue'']"

record god_node =
  gn_id :: string
  gn_label :: string
  gn_degree :: nat

definition god_node_of :: "(string, nat) btree \<Rightarrow> node \<Rightarrow> god_node option" where
  "god_node_of degree n =
     (let d = degree_of degree (n_id n)
      in if \<not> is_file_node n d \<and> \<not> is_concept_node n \<and> \<not> is_json_key_node n \<and> n_label n \<notin> set builtin_noise
         then Some \<lparr> gn_id = n_id n, gn_label = (if n_label n = [] then n_id n else n_label n), gn_degree = d \<rparr>
         else None)"

definition god_nodes :: "graph \<Rightarrow> nat \<Rightarrow> god_node list" where
  "god_nodes g top_n =
     take top_n (sort_key (\<lambda>n. - int (gn_degree n)) (List.map_filter (god_node_of (degrees g)) (g_nodes g)))"

section \<open>Files\<close>

definition code_extensions :: "string list" where
  "code_extensions =
     [''py'', ''pyw'', ''ts'', ''tsx'', ''mts'', ''cts'', ''js'', ''jsx'', ''mjs'', ''cjs'', ''ejs'',
      ''ets'', ''go'', ''rs'', ''java'', ''groovy'', ''gradle'', ''cpp'', ''cc'', ''cxx'', ''c'', ''h'',
      ''hpp'', ''cu'', ''cuh'', ''metal'', ''rb'', ''rake'', ''swift'', ''kt'', ''kts'', ''cs'',
      ''scala'', ''php'', ''lua'', ''luau'', ''toc'', ''zig'', ''ps1'', ''psm1'', ''psd1'', ''ex'',
      ''exs'', ''m'', ''mm'', ''jl'', ''vue'', ''svelte'', ''astro'', ''dart'', ''v'', ''sv'', ''svh'',
      ''sql'', ''r'', ''f'', ''f90'', ''f95'', ''f03'', ''f08'', ''pas'', ''pp'', ''dpr'', ''dpk'',
      ''lpr'', ''inc'', ''dfm'', ''lfm'', ''lpk'', ''sh'', ''bash'', ''json'', ''tf'', ''tfvars'',
      ''hcl'', ''dm'', ''dme'', ''dmi'', ''dmm'', ''dmf'', ''sln'', ''slnx'', ''csproj'', ''fsproj'',
      ''vbproj'', ''xaml'', ''razor'', ''cshtml'', ''cls'', ''trigger'']"

definition file_category :: "string \<Rightarrow> string" where
  "file_category path =
     (let ext = ascii_lowercase (case path_extension path of None \<Rightarrow> [] | Some e \<Rightarrow> e)
      in if ext \<in> set code_extensions then ''code''
         else if ext = ''pdf'' then ''paper''
         else if ext \<in> {''png'', ''jpg'', ''jpeg'', ''gif'', ''webp'', ''svg''} then ''image''
         else ''doc'')"

definition language_family :: "string \<Rightarrow> string option" where
  "language_family path =
     (case path_extension path of
        None \<Rightarrow> None
      | Some e \<Rightarrow>
          let ext = ascii_lowercase e
          in if ext \<in> {''py'', ''pyw''} then Some ''python''
             else if ext \<in> {''js'', ''jsx'', ''mjs'', ''cjs'', ''ejs'', ''ts'', ''tsx'', ''mts'', ''cts'', ''vue'', ''svelte''}
             then Some ''js''
             else if ext = ''go'' then Some ''go''
             else if ext = ''rs'' then Some ''rust''
             else if ext \<in> {''java'', ''kt'', ''kts'', ''scala''} then Some ''jvm''
             else if ext \<in> {''c'', ''h'', ''cpp'', ''cc'', ''cxx'', ''hpp''} then Some ''c''
             else if ext \<in> {''rb'', ''rake''} then Some ''ruby''
             else if ext = ''swift'' then Some ''swift''
             else if ext = ''cs'' then Some ''dotnet''
             else if ext = ''php'' then Some ''php''
             else if ext = ''r'' then Some ''r''
             else None)"

definition cross_language :: "string \<Rightarrow> string \<Rightarrow> bool" where
  "cross_language l r \<longleftrightarrow>
     (case (language_family l, language_family r) of (Some a, Some b) \<Rightarrow> a \<noteq> b | _ \<Rightarrow> False)"

definition top_level_dir :: "string \<Rightarrow> string" where
  "top_level_dir path = hd (split_on CHR ''/'' path)"

section \<open>Surprising connections\<close>

datatype reason =
    NotExplicit confidence
  | CrossesFileTypes string string
  | AcrossDirectories
  | SeparateCommunities
  | SemanticallySimilar
  | PeripheralReachesHub string string

datatype surprise_why = CrossFileConnection | Because "reason list"
datatype surprise_note = BridgesStructure | BridgesCommunities int int

record surprise =
  s_source :: string
  s_target :: string
  s_source_files :: "string \<times> string"
  s_confidence :: confidence
  s_confidence_score :: "real option"
  s_relation :: string
  s_why :: "surprise_why option"
  s_note :: "surprise_note option"

definition suppress_structural :: "edge \<Rightarrow> string \<Rightarrow> string \<Rightarrow> bool" where
  "suppress_structural e source_file target_file \<longleftrightarrow>
     e_confidence e = Inferred \<and> e_relation e \<in> {''calls'', ''uses''}
     \<and> (cross_language source_file target_file
        \<or> {file_category source_file, file_category target_file} = {''code'', ''doc''})"

fun base_surprise :: "confidence \<Rightarrow> int" where
  "base_surprise Ambiguous = 3"
| "base_surprise Inferred = 2"
| "base_surprise Extracted = 1"

text \<open>\<open>(score as f64 * 1.5) as i64\<close> on a small non-negative score.\<close>

definition half_again :: "int \<Rightarrow> int" where
  "half_again score = score * 3 div 2"

definition surprise_score ::
  "graph \<Rightarrow> string \<Rightarrow> string \<Rightarrow> edge \<Rightarrow> (string, int) btree \<Rightarrow> string \<Rightarrow> string \<Rightarrow> (string, nat) btree option
   \<Rightarrow> int \<times> reason list" where
  "surprise_score g source_id target_id e node_community source_file target_file precomputed_degrees =
     (let suppressed = suppress_structural e source_file target_file;
          category_source = file_category source_file; category_target = file_category target_file;
          score = (if suppressed then 0 else base_surprise (e_confidence e));
          reasons = (if e_confidence e \<noteq> Extracted then [NotExplicit (e_confidence e)] else []);
          (score, reasons) =
            (if category_source \<noteq> category_target \<and> \<not> suppressed
             then (score + 2, reasons @ [CrossesFileTypes category_source category_target]) else (score, reasons));
          (score, reasons) =
            (if top_level_dir source_file \<noteq> top_level_dir target_file \<and> \<not> suppressed
             then (score + 2, reasons @ [AcrossDirectories]) else (score, reasons));
          source_community = bt_get node_community source_id; target_community = bt_get node_community target_id;
          (score, reasons) =
            (if source_community \<noteq> None \<and> target_community \<noteq> None \<and> source_community \<noteq> target_community
                \<and> \<not> suppressed
             then (score + 1, reasons @ [SeparateCommunities]) else (score, reasons));
          (score, reasons) =
            (if e_relation e = ''semantically_similar_to''
             then (half_again score, reasons @ [SemanticallySimilar]) else (score, reasons));
          degree = (case precomputed_degrees of Some d \<Rightarrow> d | None \<Rightarrow> degrees g);
          source_degree = degree_of degree source_id; target_degree = degree_of degree target_id
      in if min source_degree target_degree \<le> 2 \<and> max source_degree target_degree \<ge> 5
         then let (peripheral, hub) = (if source_degree \<le> 2 then (source_id, target_id) else (target_id, source_id));
                  fallback = (\<lambda>i d. case id_positions g i of None \<Rightarrow> d | Some k \<Rightarrow> n_label (g_nodes g ! k))
              in (score + 1, reasons @ [PeripheralReachesHub (fallback peripheral source_id) (fallback hub target_id)])
         else (score, reasons))"

definition communities_from_nodes :: "graph \<Rightarrow> (int, string list) btree" where
  "communities_from_nodes g =
     fold (\<lambda>n m. case n_community n of None \<Rightarrow> m | Some c \<Rightarrow> bt_update c [] (\<lambda>ids. ids @ [n_id n]) m) (g_nodes g) []"

definition node_community_map :: "(int, string list) btree \<Rightarrow> (string, int) btree" where
  "node_community_map communities = bt_of_list (concat (map (\<lambda>(c, ids). map (\<lambda>i. (i, c)) ids) communities))"

definition structural_relation :: "edge \<Rightarrow> bool" where
  "structural_relation e \<longleftrightarrow> e_relation e \<in> {''imports'', ''imports_from'', ''contains'', ''method''}"

text \<open>The nodes at the ends of an edge, when the graph has both.\<close>

definition edge_nodes :: "graph \<Rightarrow> edge \<Rightarrow> (node \<times> node) option" where
  "edge_nodes g e =
     (case (id_positions g (true_source e), id_positions g (true_target e)) of
        (Some a, Some b) \<Rightarrow> Some (g_nodes g ! a, g_nodes g ! b)
      | _ \<Rightarrow> None)"

definition cross_file_candidate ::
  "graph \<Rightarrow> (string, int) btree \<Rightarrow> (string, nat) btree \<Rightarrow> edge \<Rightarrow> (int \<times> surprise) option" where
  "cross_file_candidate g node_community degree e =
     (if structural_relation e then None
      else case edge_nodes g e of
             None \<Rightarrow> None
           | Some (a, b) \<Rightarrow>
               if is_concept_node a \<or> is_concept_node b \<or> is_file_node a (degree_of degree (n_id a))
                  \<or> is_file_node b (degree_of degree (n_id b)) \<or> n_source_file a = n_source_file b
               then None
               else let (score, reasons) =
                          surprise_score g (n_id a) (n_id b) e node_community (n_source_file a) (n_source_file b) (Some degree)
                    in Some (score,
                         \<lparr> s_source = n_label a, s_target = n_label b, s_source_files = (n_source_file a, n_source_file b),
                           s_confidence = e_confidence e,
                           s_confidence_score = Option.bind (bt_get (e_extra e) ''confidence_score'') as_f64,
                           s_relation = e_relation e,
                           s_why = Some (if reasons = [] then CrossFileConnection else Because reasons),
                           s_note = None \<rparr>))"

definition cross_file_surprises :: "graph \<Rightarrow> (int, string list) btree \<Rightarrow> nat \<Rightarrow> surprise list" where
  "cross_file_surprises g communities top_n =
     (let candidates = List.map_filter (cross_file_candidate g (node_community_map communities) (degrees g)) (g_links g)
      in map snd (take top_n (sort_key (\<lambda>(score, s). (- score, s_source s)) candidates)))"

fun confidence_order :: "confidence \<Rightarrow> nat" where
  "confidence_order Ambiguous = 0"
| "confidence_order Inferred = 1"
| "confidence_order Extracted = 2"

definition bridge_surprise :: "edge \<Rightarrow> node \<times> node \<Rightarrow> surprise_note \<Rightarrow> surprise" where
  "bridge_surprise e ends note =
     (let (a, b) = ends
      in \<lparr> s_source = n_label a, s_target = n_label b, s_source_files = (n_source_file a, n_source_file b),
           s_confidence = e_confidence e, s_confidence_score = None, s_relation = e_relation e,
           s_why = None, s_note = Some note \<rparr>)"

definition cross_community_candidate ::
  "graph \<Rightarrow> (string, int) btree \<Rightarrow> (string, nat) btree \<Rightarrow> edge \<Rightarrow> (nat \<times> (int \<times> int) \<times> surprise) option" where
  "cross_community_candidate g node_community degree e =
     (case edge_nodes g e of
        None \<Rightarrow> None
      | Some (a, b) \<Rightarrow>
          (case (bt_get node_community (n_id a), bt_get node_community (n_id b)) of
             (Some ca, Some cb) \<Rightarrow>
               if ca = cb \<or> is_file_node a (degree_of degree (n_id a)) \<or> is_file_node b (degree_of degree (n_id b))
                  \<or> structural_relation e
               then None
               else Some (confidence_order (e_confidence e), (if ca \<le> cb then (ca, cb) else (cb, ca)),
                          bridge_surprise e (a, b) (BridgesCommunities ca cb))
           | _ \<Rightarrow> None))"

definition cross_community_surprises :: "graph \<Rightarrow> (int, string list) btree \<Rightarrow> nat \<Rightarrow> surprise list" where
  "cross_community_surprises g communities top_n =
     (if communities = []
      then take top_n
             (List.map_filter (\<lambda>e. map_option (\<lambda>ends. bridge_surprise e ends BridgesStructure) (edge_nodes g e)) (g_links g))
      else let candidates = List.map_filter
                 (cross_community_candidate g (node_community_map communities) (degrees g)) (g_links g)
           in map (snd \<circ> snd) (take top_n (retain_first (fst \<circ> snd) {} (sort_key fst candidates))))"

definition surprising_connections :: "graph \<Rightarrow> (int, string list) btree \<Rightarrow> nat \<Rightarrow> surprise list" where
  "surprising_connections g communities top_n =
     (let sources = set (filter (\<lambda>s. s \<noteq> []) (map n_source_file (g_nodes g)));
          cross_file = cross_file_surprises g communities top_n
      in if card sources > 1 \<and> cross_file \<noteq> [] then cross_file else cross_community_surprises g communities top_n)"

section \<open>The difference of two graphs\<close>

record diff_node =
  dn_id :: string
  dn_label :: string

record diff_edge =
  de_source :: string
  de_target :: string
  de_relation :: string
  de_confidence :: confidence

record graph_difference =
  gd_new_nodes :: "diff_node list"
  gd_removed_nodes :: "diff_node list"
  gd_new_edges :: "diff_edge list"
  gd_removed_edges :: "diff_edge list"
  gd_summary :: string

definition diff_key :: "graph \<Rightarrow> edge \<Rightarrow> string \<times> string \<times> string" where
  "diff_key g e =
     (let s = true_source e; t = true_target e
      in if g_directed g \<or> s \<le> t then (s, t, e_relation e) else (t, s, e_relation e))"

definition diff_edge_of :: "edge \<Rightarrow> diff_edge" where
  "diff_edge_of e =
     \<lparr> de_source = true_source e, de_target = true_target e, de_relation = e_relation e,
       de_confidence = e_confidence e \<rparr>"

definition push_summary :: "string list \<Rightarrow> nat \<Rightarrow> string \<Rightarrow> string \<Rightarrow> string list" where
  "push_summary parts count one many =
     (if count > 0 then parts @ [show_nat count @ '' '' @ (if count = 1 then one else many)] else parts)"

text \<open>The nodes of the first map that the second lacks, in the order of their ids.\<close>

definition missing_nodes :: "(string, node) btree \<Rightarrow> (string, node) btree \<Rightarrow> diff_node list" where
  "missing_nodes m m' =
     map (\<lambda>i. \<lparr> dn_id = i, dn_label = n_label (the (bt_get m i)) \<rparr>) (filter (\<lambda>i. \<not> bt_has m' i) (bt_keys m))"

definition missing_edges :: "graph \<Rightarrow> graph \<Rightarrow> diff_edge list" where
  "missing_edges g g' =
     map diff_edge_of
       (filter (\<lambda>e. diff_key g e \<in> set (map (diff_key g) (g_links g)) - set (map (diff_key g') (g_links g'))) (g_links g))"

definition nodes_by_id :: "graph \<Rightarrow> (string, node) btree" where
  "nodes_by_id g = bt_of_list (map (\<lambda>n. (n_id n, n)) (g_nodes g))"

definition graph_diff :: "graph \<Rightarrow> graph \<Rightarrow> graph_difference" where
  "graph_diff old new =
     (let old_nodes = nodes_by_id old; new_nodes = nodes_by_id new;
          added = missing_nodes new_nodes old_nodes; removed = missing_nodes old_nodes new_nodes;
          added_edges = missing_edges new old; removed_edges = missing_edges old new;
          parts = push_summary [] (length added) ''new node'' ''new nodes'';
          parts = push_summary parts (length added_edges) ''new edge'' ''new edges'';
          parts = push_summary parts (length removed) ''node removed'' ''nodes removed'';
          parts = push_summary parts (length removed_edges) ''edge removed'' ''edges removed''
      in \<lparr> gd_new_nodes = added, gd_removed_nodes = removed, gd_new_edges = added_edges,
           gd_removed_edges = removed_edges,
           gd_summary = (if parts = [] then ''no changes'' else join_with '', '' parts) \<rparr>)"

section \<open>Suggested questions\<close>

record suggested_question =
  sq_kind :: string
  sq_question :: "string option"
  sq_why :: string

definition backquoted :: "string \<Rightarrow> string" where
  "backquoted s = CHR 0x60 # s @ [CHR 0x60]"

definition ambiguous_question :: "graph \<Rightarrow> edge \<Rightarrow> suggested_question option" where
  "ambiguous_question g e =
     (if e_confidence e \<noteq> Ambiguous then None
      else map_option (\<lambda>(a, b).
             \<lparr> sq_kind = ''ambiguous_edge'',
               sq_question = Some (''What is the exact relationship between '' @ backquoted (n_label a)
                 @ '' and '' @ backquoted (n_label b) @ ''?''),
               sq_why = ''Edge tagged AMBIGUOUS (relation: '' @ e_relation e @ '') - confidence is low.'' \<rparr>)
             (edge_nodes g e))"

definition isolated_nodes :: "graph \<Rightarrow> node list" where
  "isolated_nodes g =
     filter (\<lambda>n. degree_of (degrees g) (n_id n) \<le> 1 \<and> \<not> is_file_node n (degree_of (degrees g) (n_id n))
        \<and> \<not> is_concept_node n \<and> n_file_type n \<noteq> ''rationale'') (g_nodes g)"

definition isolated_question :: "node list \<Rightarrow> suggested_question" where
  "isolated_question isolated =
     \<lparr> sq_kind = ''isolated_nodes'',
       sq_question = Some (''What connects '' @ join_with '', '' (map (\<lambda>n. backquoted (n_label n)) (take 3 isolated))
         @ '' to the rest of the system?''),
       sq_why = show_nat (length isolated) @ '' weakly-connected node'' @ (if length isolated = 1 then [] else ''s'')
         @ '' found - possible documentation gaps or missing edges.'' \<rparr>"

definition suggest_questions :: "graph \<Rightarrow> nat \<Rightarrow> suggested_question list" where
  "suggest_questions g top_n =
     (let questions = List.map_filter (ambiguous_question g) (g_links g);
          questions = (if isolated_nodes g = [] then questions else questions @ [isolated_question (isolated_nodes g)]);
          questions = (if questions = []
             then [\<lparr> sq_kind = ''no_signal'', sq_question = None, sq_why = ''Not enough signal to generate questions.'' \<rparr>]
             else questions)
      in take top_n questions)"

record analysis =
  an_god_nodes :: "god_node list"
  an_surprising_connections :: "surprise list"
  an_suggested_questions :: "string list"

definition analyze :: "graph \<Rightarrow> analysis" where
  "analyze g =
     \<lparr> an_god_nodes = god_nodes g 10,
       an_surprising_connections = surprising_connections g (communities_from_nodes g) 5,
       an_suggested_questions = List.map_filter sq_question (suggest_questions g 10) \<rparr>"

section \<open>Degrees count edges\<close>

definition node_ids :: "graph \<Rightarrow> string set" where
  "node_ids g = n_id ` set (g_nodes g)"

definition incident :: "string set \<Rightarrow> string \<Rightarrow> edge \<Rightarrow> bool" where
  "incident ids i e \<longleftrightarrow> true_source e \<in> ids \<and> true_target e \<in> ids \<and> (true_source e = i \<or> true_target e = i)"

lemma count_degree_step:
  "bt_has (count_degree e m) i \<longleftrightarrow> bt_has m i"
  "degree_of (count_degree e m) i = degree_of m i + (if incident {j. bt_has m j} i e then 1 else 0)"
  by (auto simp: count_degree_def Let_def degree_of_def incident_def bt_get_update bt_has_def split: option.splits)

lemma count_degrees:
  "degree_of (fold count_degree es m) i = degree_of m i + length (filter (incident {j. bt_has m j} i) es)"
proof (induction es arbitrary: m)
  case (Cons e es)
  have "{j. bt_has (count_degree e m) j} = {j. bt_has m j}" by (simp add: count_degree_step(1))
  then show ?case using Cons.IH [of "count_degree e m"] by (simp add: count_degree_step(2))
qed simp

lemma zero_degrees:
  "bt_has (bt_of_list (map (\<lambda>n. (n_id n, 0 :: nat)) ns)) i \<longleftrightarrow> i \<in> n_id ` set ns"
  "degree_of (bt_of_list (map (\<lambda>n. (n_id n, 0)) ns)) i = 0"
proof -
  show "bt_has (bt_of_list (map (\<lambda>n. (n_id n, 0 :: nat)) ns)) i \<longleftrightarrow> i \<in> n_id ` set ns"
    by (simp add: bt_has_of_list image_comp o_def)
  have "bt_get (bt_of_list (map (\<lambda>n. (n_id n, 0 :: nat)) ns)) i = Some d \<Longrightarrow> d = 0" for d
    by (auto simp: bt_get_of_list dest!: map_of_SomeD)
  then show "degree_of (bt_of_list (map (\<lambda>n. (n_id n, 0)) ns)) i = 0"
    by (auto simp: degree_of_def split: option.splits)
qed

lemma degree_incident: "degree_of (degrees g) i = length (filter (incident (node_ids g) i) (g_links g))"
  unfolding degrees_def count_degrees zero_degrees by (simp add: node_ids_def)

text \<open>What is left out of a list of the best by a key is no better than what is in it.\<close>

lemma take_best:
  fixes key :: "'a \<Rightarrow> 'k :: linorder"
  assumes "x \<in> set xs" "x \<notin> set (take n (sort_key key xs))" "y \<in> set (take n (sort_key key xs))"
  shows "key y \<le> key x"
proof -
  have "x \<in> set (drop n (sort_key key xs))"
    using assms(1,2) append_take_drop_id [of n "sort_key key xs"] by (metis Un_iff set_append set_sort)
  moreover have "sorted (map key (take n (sort_key key xs) @ drop n (sort_key key xs)))"
    by (simp only: append_take_drop_id sorted_sort_key)
  ultimately show ?thesis using assms(3) by (auto simp: sorted_append simp del: append_take_drop_id)
qed

text \<open>
  The hubs of a graph are its eligible nodes of highest degree, in that order and no more than asked for;
  the degree counts the edges at the node whose ends are both nodes, a loop once; an eligible node that is
  left out has no higher degree than one that is not, and is left out only when the list is full.
\<close>

lemma god_nodes_are_top:
  "length (god_nodes g n) \<le> n
   \<and> sorted_wrt (\<lambda>a b. gn_degree a \<ge> gn_degree b) (god_nodes g n)
   \<and> list_all (\<lambda>a. gn_degree a = length (filter (incident (node_ids g) (gn_id a)) (g_links g))
        \<and> gn_id a \<in> node_ids g) (god_nodes g n)
   \<and> (m \<in> set (g_nodes g) \<and> god_node_of (degrees g) m = Some a \<and> a \<notin> set (god_nodes g n)
        \<longrightarrow> length (god_nodes g n) = n \<and> list_all (\<lambda>b. gn_degree a \<le> gn_degree b) (god_nodes g n))"
proof -
  let ?eligible = "List.map_filter (god_node_of (degrees g)) (g_nodes g)"
  let ?key = "\<lambda>a. - int (gn_degree a)"
  have eligible: "gn_degree b = length (filter (incident (node_ids g) (gn_id b)) (g_links g)) \<and> gn_id b \<in> node_ids g"
    if "b \<in> set ?eligible" for b
    using that by (auto simp: map_filter_def god_node_of_def Let_def degree_incident node_ids_def split: if_splits)
  have "sorted (map ?key (god_nodes g n))"
    unfolding god_nodes_def take_map [symmetric] by (rule sorted_wrt_take) (rule sorted_sort_key)
  then have order: "sorted_wrt (\<lambda>a b. gn_degree a \<ge> gn_degree b) (god_nodes g n)" by (simp add: sorted_map)
  have members: "set (god_nodes g n) \<subseteq> set ?eligible"
    unfolding god_nodes_def using set_take_subset by fastforce
  have left_out: "length (god_nodes g n) = n \<and> list_all (\<lambda>b. gn_degree a \<le> gn_degree b) (god_nodes g n)"
    if m: "m \<in> set (g_nodes g)" "god_node_of (degrees g) m = Some a" "a \<notin> set (god_nodes g n)"
  proof -
    have a: "a \<in> set ?eligible" using m(1,2) by (force simp: map_filter_def)
    have "\<not> length (sort_key ?key ?eligible) \<le> n" using a m(3) by (auto simp: god_nodes_def)
    moreover have "gn_degree a \<le> gn_degree b" if "b \<in> set (god_nodes g n)" for b
      using take_best [OF a m(3) [unfolded god_nodes_def] that [unfolded god_nodes_def]] by simp
    ultimately show ?thesis by (simp add: god_nodes_def list_all_iff)
  qed
  show ?thesis using order members eligible left_out by (auto simp: list_all_iff god_nodes_def)
qed

lemma god_nodes_are_top_witness:
  "god_nodes sample_graph 1 = [\<lparr> gn_id = ''a'', gn_label = ''alpha'', gn_degree = 1 \<rparr>]
   \<and> list_all (\<lambda>b. gn_degree (\<lparr> gn_id = ''b'', gn_label = ''beta'', gn_degree = 1 \<rparr> :: god_node) \<le> gn_degree b)
       (god_nodes sample_graph 1)"
proof -
  let ?b = "\<lparr> gn_id = ''b'', gn_label = ''beta'', gn_degree = 1 \<rparr> :: god_node"
  have one: "god_nodes sample_graph 1 = [\<lparr> gn_id = ''a'', gn_label = ''alpha'', gn_degree = 1 \<rparr>]" by code_simp
  have "plain_node ''b'' ''beta'' ''m.rs'' \<in> set (g_nodes sample_graph)" by (simp add: sample_graph_def)
  moreover have "god_node_of (degrees sample_graph) (plain_node ''b'' ''beta'' ''m.rs'') = Some ?b" by code_simp
  moreover have "?b \<notin> set (god_nodes sample_graph 1)" unfolding one by simp
  ultimately have "list_all (\<lambda>b. gn_degree ?b \<le> gn_degree b) (god_nodes sample_graph 1)"
    using god_nodes_are_top [of sample_graph 1 "plain_node ''b'' ''beta'' ''m.rs''" ?b] by blast
  with one show ?thesis by blast
qed

section \<open>A difference is exact\<close>

definition diff_keys :: "graph \<Rightarrow> (string \<times> string \<times> string) set" where
  "diff_keys g = diff_key g ` set (g_links g)"

lemma nodes_by_id_keys: "bt_has (nodes_by_id g) i \<longleftrightarrow> i \<in> node_ids g"
  by (simp add: nodes_by_id_def bt_has_of_list node_ids_def image_comp o_def)

lemma missing_node_ids: "map dn_id (missing_nodes (nodes_by_id g) (nodes_by_id h)) = sorted_list_of_set (node_ids g - node_ids h)"
proof -
  let ?ids = "filter (\<lambda>i. \<not> bt_has (nodes_by_id h) i) (bt_keys (nodes_by_id g))"
  have wf: "bt_wf (nodes_by_id g)" by (simp add: nodes_by_id_def)
  have "sorted ?ids" "distinct ?ids"
    using bt_wf_sorted [OF wf] bt_wf_distinct [OF wf] by (auto intro: sorted_filter [where f = id, simplified])
  moreover have "set ?ids = node_ids g - node_ids h"
  proof -
    have "i \<in> set (bt_keys (nodes_by_id g)) \<longleftrightarrow> i \<in> node_ids g" for i
      using nodes_by_id_keys [of g i] by (simp add: bt_has_iff)
    then show ?thesis by (auto simp: nodes_by_id_keys simp del: set_map)
  qed
  ultimately have "?ids = sorted_list_of_set (node_ids g - node_ids h)"
    by (metis sorted_list_of_set.idem_if_sorted_distinct)
  then show ?thesis by (simp add: missing_nodes_def o_def)
qed

lemma missing_edges_links:
  "missing_edges g h = map diff_edge_of (filter (\<lambda>e. diff_key g e \<notin> diff_keys h) (g_links g))"
  unfolding missing_edges_def diff_keys_def by (rule arg_cong [where f = "map diff_edge_of"], rule filter_cong) auto

definition starts_with_digit :: "string \<Rightarrow> bool" where
  "starts_with_digit s \<longleftrightarrow> (case s of [] \<Rightarrow> False | c # _ \<Rightarrow> ascii_digit c)"

lemma show_nat_digit: "starts_with_digit (show_nat n @ s)"
  using digits_show_nat [of "hd (show_nat n)" n] show_nat_nonempty [of n]
  by (cases "show_nat n") (auto simp: starts_with_digit_def)

lemma push_summary_parts:
  "push_summary parts n one many = [] \<longleftrightarrow> parts = [] \<and> n = 0"
  "list_all starts_with_digit parts \<Longrightarrow> list_all starts_with_digit (push_summary parts n one many)"
  using show_nat_digit by (auto simp: push_summary_def)

lemma join_starts_with_digit: "list_all starts_with_digit parts \<Longrightarrow> parts \<noteq> [] \<Longrightarrow> starts_with_digit (join_with sep parts)"
  by (cases "(sep, parts)" rule: join_with.cases) (auto simp: starts_with_digit_def split: list.splits)

lemma graph_diff_summary:
  "gd_summary (graph_diff old new) = ''no changes''
   \<longleftrightarrow> gd_new_nodes (graph_diff old new) = [] \<and> gd_removed_nodes (graph_diff old new) = []
     \<and> gd_new_edges (graph_diff old new) = [] \<and> gd_removed_edges (graph_diff old new) = []"
proof -
  obtain parts where summary: "gd_summary (graph_diff old new) = (if parts = [] then ''no changes'' else join_with '', '' parts)"
    and digits: "list_all starts_with_digit parts"
    and empty: "parts = [] \<longleftrightarrow> gd_new_nodes (graph_diff old new) = [] \<and> gd_new_edges (graph_diff old new) = []
      \<and> gd_removed_nodes (graph_diff old new) = [] \<and> gd_removed_edges (graph_diff old new) = []"
  proof
    let ?d = "graph_diff old new"
    let ?parts = "push_summary (push_summary (push_summary (push_summary []
      (length (gd_new_nodes ?d)) ''new node'' ''new nodes'') (length (gd_new_edges ?d)) ''new edge'' ''new edges'')
      (length (gd_removed_nodes ?d)) ''node removed'' ''nodes removed'') (length (gd_removed_edges ?d)) ''edge removed'' ''edges removed''"
    show "gd_summary ?d = (if ?parts = [] then ''no changes'' else join_with '', '' ?parts)"
      by (simp add: graph_diff_def Let_def)
    show "list_all starts_with_digit ?parts" by (intro push_summary_parts(2)) simp
    show "?parts = [] \<longleftrightarrow> gd_new_nodes ?d = [] \<and> gd_new_edges ?d = [] \<and> gd_removed_nodes ?d = [] \<and> gd_removed_edges ?d = []"
      by (simp add: push_summary_parts(1))
  qed
  have "\<not> starts_with_digit ''no changes''" by code_simp
  then have "parts \<noteq> [] \<Longrightarrow> join_with '', '' parts \<noteq> ''no changes''" using join_starts_with_digit [OF digits] by metis
  then show ?thesis using empty by (auto simp: summary)
qed

text \<open>
  The difference of two graphs is exact: the nodes added and removed are those of the one graph that the
  other lacks, once each in the order of their ids; the edges are those whose key the other graph lacks, in
  the order of the graph; swapping the graphs swaps the lists; and the summary says that nothing changed
  just when the graphs have the same nodes and the same edge keys.
\<close>

lemma graph_diff_exact:
  "map dn_id (gd_new_nodes (graph_diff old new)) = sorted_list_of_set (node_ids new - node_ids old)
   \<and> map dn_id (gd_removed_nodes (graph_diff old new)) = sorted_list_of_set (node_ids old - node_ids new)
   \<and> gd_new_edges (graph_diff old new)
       = map diff_edge_of (filter (\<lambda>e. diff_key new e \<notin> diff_keys old) (g_links new))
   \<and> gd_removed_nodes (graph_diff old new) = gd_new_nodes (graph_diff new old)
   \<and> gd_removed_edges (graph_diff old new) = gd_new_edges (graph_diff new old)
   \<and> (gd_summary (graph_diff old new) = ''no changes'' \<longleftrightarrow> node_ids old = node_ids new \<and> diff_keys old = diff_keys new)"
proof -
  have lists: "gd_new_nodes (graph_diff g h) = missing_nodes (nodes_by_id h) (nodes_by_id g)"
    "gd_removed_nodes (graph_diff g h) = missing_nodes (nodes_by_id g) (nodes_by_id h)"
    "gd_new_edges (graph_diff g h) = missing_edges h g" "gd_removed_edges (graph_diff g h) = missing_edges g h" for g h
    by (simp_all add: graph_diff_def Let_def)
  have nodes: "missing_nodes (nodes_by_id g) (nodes_by_id h) = [] \<longleftrightarrow> node_ids g \<subseteq> node_ids h" for g h
    using arg_cong [OF missing_node_ids [of g h], of "\<lambda>xs. xs = []"] by (simp add: node_ids_def)
  have edges: "missing_edges g h = [] \<longleftrightarrow> diff_keys g \<subseteq> diff_keys h" for g h
    by (auto simp: missing_edges_links filter_empty_conv diff_keys_def)
  show ?thesis
    unfolding graph_diff_summary unfolding lists nodes edges by (auto simp: missing_node_ids missing_edges_links)
qed

section \<open>The best bridge between two communities\<close>

lemma retain_first_sorted: "sorted (map f xs) \<Longrightarrow> sorted (map f (retain_first key seen xs))"
  by (induction xs arbitrary: seen) (auto dest: subsetD [OF retain_first_subset])

lemma retain_first_best:
  "sorted (map f xs) \<Longrightarrow> x \<in> set xs \<Longrightarrow> key x \<notin> seen
   \<Longrightarrow> \<exists>y \<in> set (retain_first key seen xs). key y = key x \<and> f y \<le> f x"
  by (induction xs arbitrary: seen) (auto, metis insertE)

definition bridged :: "surprise \<Rightarrow> int set" where
  "bridged s = (case s_note s of Some (BridgesCommunities a b) \<Rightarrow> {a, b} | _ \<Rightarrow> {})"

lemma cross_community_candidate_shape:
  assumes "cross_community_candidate g node_community degree e = Some (rank, pair, s)"
  shows "rank = confidence_order (s_confidence s) \<and> bridged s = {fst pair, snd pair} \<and> fst pair < snd pair"
  using assms unfolding cross_community_candidate_def
  by (auto simp: bridge_surprise_def bridged_def Let_def split: option.splits if_splits prod.splits)

definition bridges :: "graph \<Rightarrow> (int, string list) btree \<Rightarrow> surprise list" where
  "bridges g communities =
     map (snd \<circ> snd) (List.map_filter (cross_community_candidate g (node_community_map communities) (degrees g)) (g_links g))"

text \<open>
  The surprises of a graph within its files name each pair of communities once, each bridges two
  different communities, the least certain come first, no more than asked for; and every other bridge is
  between a pair that is named by one no more certain, unless the list is full.
\<close>

lemma cross_community_surprises_best:
  assumes "communities \<noteq> []"
  shows "length (cross_community_surprises g communities n) \<le> n
    \<and> distinct (map bridged (cross_community_surprises g communities n))
    \<and> list_all (\<lambda>s. card (bridged s) = 2) (cross_community_surprises g communities n)
    \<and> sorted (map (confidence_order \<circ> s_confidence) (cross_community_surprises g communities n))
    \<and> (s \<in> set (bridges g communities) \<and> length (cross_community_surprises g communities n) < n
        \<longrightarrow> (\<exists>t \<in> set (cross_community_surprises g communities n).
              bridged t = bridged s \<and> confidence_order (s_confidence t) \<le> confidence_order (s_confidence s)))"
proof -
  let ?candidates = "List.map_filter (cross_community_candidate g (node_community_map communities) (degrees g)) (g_links g)"
  let ?ranked = "sort_key fst ?candidates"
  define best where "best = retain_first (fst \<circ> snd) {} ?ranked"
  have result: "cross_community_surprises g communities n = map (snd \<circ> snd) (take n best)"
    using assms by (simp add: cross_community_surprises_def best_def Let_def)
  have shape: "fst c = confidence_order (s_confidence (snd (snd c))) \<and> bridged (snd (snd c)) = {fst (fst (snd c)), snd (fst (snd c))}
      \<and> fst (fst (snd c)) < snd (fst (snd c))" if "c \<in> set ?candidates" for c
    using that cross_community_candidate_shape [of g _ _ _ "fst c" "fst (snd c)" "snd (snd c)"]
    by (auto simp: map_filter_def)
  have best: "set best \<subseteq> set ?candidates" using retain_first_subset by (fastforce simp: best_def)
  have pairs: "p = q" if "fst p < snd p" "fst q < snd q" "{fst p, snd p} = {fst q, snd q}" for p q :: "int \<times> int"
    using that by (auto simp: doubleton_eq_iff prod_eq_iff)
  have keys: "distinct (map (fst \<circ> snd) best)" unfolding best_def by (rule retain_first_distinct)
  have "inj_on (bridged \<circ> (snd \<circ> snd)) (set best)"
  proof (rule inj_onI)
    fix x y
    assume xy: "x \<in> set best" "y \<in> set best" "(bridged \<circ> (snd \<circ> snd)) x = (bridged \<circ> (snd \<circ> snd)) y"
    note shapes = shape [OF subsetD [OF best xy(1)]] shape [OF subsetD [OF best xy(2)]]
    have "fst (snd x) = fst (snd y)" by (rule pairs) (use shapes xy(3) in simp_all)
    then show "x = y" using keys xy(1,2) by (simp add: distinct_map inj_on_def)
  qed
  then have "distinct (map (bridged \<circ> (snd \<circ> snd)) best)" using keys by (simp add: distinct_map)
  then have d: "distinct (map bridged (map (snd \<circ> snd) (take n best)))"
    by (simp add: take_map [symmetric] distinct_take)
  have "sorted (map fst best)" unfolding best_def by (rule retain_first_sorted) (rule sorted_sort_key)
  moreover have "map fst best = map (confidence_order \<circ> s_confidence \<circ> (snd \<circ> snd)) best" using shape best by auto
  ultimately have o: "sorted (map (confidence_order \<circ> s_confidence) (map (snd \<circ> snd) (take n best)))"
    by (simp add: take_map [symmetric] sorted_wrt_take o_assoc)
  have c: "list_all (\<lambda>s. card (bridged s) = 2) (map (snd \<circ> snd) (take n best))"
    using shape best by (fastforce simp: list_all_iff dest!: in_set_takeD)
  have complete: "\<exists>t \<in> set (map (snd \<circ> snd) (take n best)).
        bridged t = bridged s \<and> confidence_order (s_confidence t) \<le> confidence_order (s_confidence s)"
    if s: "s \<in> set (bridges g communities)" "length (map (snd \<circ> snd) (take n best)) < n"
  proof -
    have all: "take n best = best" using s(2) by simp
    obtain x where x: "x \<in> set ?candidates" "s = snd (snd x)" using s(1) by (auto simp: bridges_def)
    then obtain y where y: "y \<in> set best" "(fst \<circ> snd) y = (fst \<circ> snd) x" "fst y \<le> fst x"
      using retain_first_best [of fst ?ranked x "fst \<circ> snd" "{}"] sorted_sort_key unfolding best_def by auto
    then show ?thesis unfolding all using shape [OF x(1)] shape [of y] best x(2) by (intro bexI [of _ "snd (snd y)"]) auto
  qed
  have "length (map (snd \<circ> snd) (take n best)) \<le> n" by simp
  with d c o complete show ?thesis unfolding result by blast
qed

lemma cross_community_surprises_best_witness:
  "\<exists>t \<in> set (cross_community_surprises sample_graph [(1, [''a'']), (2, [''b''])] 5). bridged t = {1, 2}"
proof -
  let ?s = "bridge_surprise (plain_edge ''a'' ''b'' ''calls'')
    (plain_node ''a'' ''alpha'' ''m.rs'', plain_node ''b'' ''beta'' ''m.rs'') (BridgesCommunities 1 2)"
  have "bridges sample_graph [(1, [''a'']), (2, [''b''])] = [?s]" by code_simp
  moreover have "length (cross_community_surprises sample_graph [(1, [''a'']), (2, [''b''])] 5) < 5" by code_simp
  ultimately have "\<exists>t \<in> set (cross_community_surprises sample_graph [(1, [''a'']), (2, [''b''])] 5). bridged t = bridged ?s"
    using cross_community_surprises_best [of "[(1, [''a'']), (2, [''b''])]" sample_graph 5 ?s] by auto
  then show ?thesis by (simp add: bridged_def bridge_surprise_def)
qed

end
