(* ===== verification/Cycles.thy ===== *)
theory Cycles
  imports Analyze
begin

text \<open>
  Import cycles (\<open>graphoxide-graph/src/analyze.rs\<close>): the graph of files that import each other, the
  depth-first enumeration of its elementary cycles up to a length and a number, and their canonical
  rotation. A \<open>BTreeSet\<close> is an ordered map to \<open>unit\<close>.
\<close>

section \<open>The graph of files\<close>

type_synonym adjacency = "(string, (string, unit) btree) btree"

definition import_target :: "edge \<Rightarrow> string \<Rightarrow> string \<Rightarrow> string" where
  "import_target e left_file right_file =
     (if left_file = e_source_file e then right_file
      else if right_file = e_source_file e then left_file
      else if right_file \<noteq> [] \<and> right_file \<noteq> e_source_file e then right_file
      else left_file)"

definition import_of :: "graph \<Rightarrow> edge \<Rightarrow> (string \<times> string) option" where
  "import_of g e =
     (if e_relation e \<notin> {''imports_from'', ''re_exports''}
         \<or> Option.bind (bt_get (e_extra e) ''deferred'') as_bool = Some True \<or> e_source_file e = []
      then None
      else case edge_nodes g e of
             None \<Rightarrow> None
           | Some (a, b) \<Rightarrow>
               let target = import_target e (n_source_file a) (n_source_file b)
               in if target = [] then None else Some (e_source_file e, target))"

definition import_adjacency :: "graph \<Rightarrow> adjacency" where
  "import_adjacency g =
     fold (\<lambda>e m. case import_of g e of
             None \<Rightarrow> m | Some (s, t) \<Rightarrow> bt_update s [] (bt_put t ()) m) (g_links g) []"

definition cycle_starts :: "adjacency \<Rightarrow> string list" where
  "cycle_starts m = bt_keys (bt_of_list (map (\<lambda>i. (i, ())) (bt_keys m @ concat (map (bt_keys \<circ> snd) m))))"

section \<open>Enumeration\<close>

definition normalize_cycle :: "string list \<Rightarrow> string list" where
  "normalize_cycle cycle =
     (let minimum = (case min_by_key snd (enumerate 0 cycle) of None \<Rightarrow> 0 | Some (i, _) \<Rightarrow> i)
      in drop minimum cycle @ take minimum cycle)"

type_synonym cycle_set = "(string list, unit) btree"

text \<open>The path and the visited files are restored after every call, so they are arguments.\<close>

function enumerate_cycles ::
  "string \<Rightarrow> string \<Rightarrow> adjacency \<Rightarrow> nat \<Rightarrow> string list \<Rightarrow> string set \<Rightarrow> nat \<Rightarrow> cycle_set \<Rightarrow> cycle_set" where
  "enumerate_cycles start current adjacency max_len path visited limit cycles =
     (if length cycles \<ge> limit then cycles
      else case bt_get adjacency current of
             None \<Rightarrow> cycles
           | Some neighbors \<Rightarrow>
               fold (\<lambda>neighbor cycles.
                   if neighbor = start
                   then (if length path \<le> max_len then bt_put (normalize_cycle path) () cycles else cycles)
                   else if length path \<ge> max_len \<or> neighbor \<in> visited then cycles
                   else enumerate_cycles start neighbor adjacency max_len (path @ [neighbor])
                          (insert neighbor visited) limit cycles)
                 (bt_keys neighbors) cycles)"
  by pat_completeness auto
termination
  by (relation "measure (\<lambda>(_, _, _, max_len, path, _). max_len - length path)") auto

declare enumerate_cycles.simps [simp del]

record import_cycle =
  ic_cycle :: "string list"
  ic_length :: nat
  ic_why :: string

definition all_cycles :: "adjacency \<Rightarrow> nat \<Rightarrow> nat \<Rightarrow> cycle_set" where
  "all_cycles adjacency max_len limit =
     fold (\<lambda>start. enumerate_cycles start start adjacency max_len [start] {start} limit) (cycle_starts adjacency) []"

definition find_import_cycles :: "graph \<Rightarrow> nat \<Rightarrow> nat \<Rightarrow> import_cycle list" where
  "find_import_cycles g max_cycle_length top_n =
     (if max_cycle_length = 0 \<or> top_n = 0 then []
      else
        let adjacency = import_adjacency g
        in if adjacency = [] then []
           else
             let cycles = bt_keys (all_cycles adjacency max_cycle_length (min (top_n * 10) (2 ^ 64 - 1)))
             in map (\<lambda>c. \<lparr> ic_cycle = c, ic_length = length c, ic_why = ''circular dependency'' \<rparr>)
                  (take top_n (sort_key (\<lambda>c. (length c, c)) cycles)))"

section \<open>Elementary cycles\<close>

definition file_imports :: "adjacency \<Rightarrow> string \<Rightarrow> string \<Rightarrow> bool" where
  "file_imports m a b \<longleftrightarrow> (case bt_get m a of None \<Rightarrow> False | Some bs \<Rightarrow> b \<in> set (bt_keys bs))"

text \<open>A path without repetition, and a cycle: a path whose last file imports its first.\<close>

fun file_path :: "adjacency \<Rightarrow> string list \<Rightarrow> bool" where
  "file_path m (a # b # ps) \<longleftrightarrow> file_imports m a b \<and> file_path m (b # ps)"
| "file_path m ps \<longleftrightarrow> True"

definition elementary_cycle :: "adjacency \<Rightarrow> string list \<Rightarrow> bool" where
  "elementary_cycle m c \<longleftrightarrow> c \<noteq> [] \<and> distinct c \<and> file_path m c \<and> file_imports m (last c) (hd c)"

lemma file_path_snoc: "ps \<noteq> [] \<Longrightarrow> file_path m (ps @ [q]) \<longleftrightarrow> file_path m ps \<and> file_imports m (last ps) q"
  by (induction m ps rule: file_path.induct) auto

lemma file_path_append:
  "ps \<noteq> [] \<Longrightarrow> qs \<noteq> [] \<Longrightarrow> file_path m (ps @ qs) \<longleftrightarrow> file_path m ps \<and> file_imports m (last ps) (hd qs) \<and> file_path m qs"
  by (induction m ps rule: file_path.induct) (auto simp: neq_Nil_conv)

lemma elementary_cycle_rotate: "elementary_cycle m (ps @ qs) \<Longrightarrow> elementary_cycle m (qs @ ps)"
  by (cases "ps = []"; cases "qs = []") (auto simp: elementary_cycle_def file_path_append)

lemma min_position:
  assumes "c \<noteq> []"
  obtains i x where "min_by_key snd (enumerate 0 c) = Some (i, x)" "i < length c" "c ! i = x" "\<forall>y \<in> set c. x \<le> y"
proof -
  have "enumerate 0 c \<noteq> []" using assms by (cases c) auto
  then obtain i x where some: "min_by_key snd (enumerate 0 c) = Some (i, x)"
    using min_by_key_None [of snd "enumerate 0 c"] by (cases "min_by_key snd (enumerate 0 c)") auto
  have member: "(i, x) \<in> set (enumerate 0 c)" by (rule min_by_key_mem [OF some])
  have "x \<le> y" if y: "y \<in> set c" for y
  proof -
    obtain j where "j < length c" "c ! j = y" using y by (auto simp: in_set_conv_nth)
    then have "(j, y) \<in> set (enumerate 0 c)" by (simp add: in_set_enumerate_eq)
    then show ?thesis using min_by_key_le [OF some] by fastforce
  qed
  with some member show ?thesis by (intro that [of i x]) (auto simp: in_set_enumerate_eq)
qed

lemma normalize_cycle_rotation:
  "\<exists>ps qs. c = ps @ qs \<and> normalize_cycle c = qs @ ps"
  unfolding normalize_cycle_def Let_def
  by (rule exI [of _ "take (case min_by_key snd (enumerate 0 c) of None \<Rightarrow> 0 | Some (i, _) \<Rightarrow> i) c"],
      rule exI [of _ "drop (case min_by_key snd (enumerate 0 c) of None \<Rightarrow> 0 | Some (i, _) \<Rightarrow> i) c"]) simp

lemma normalize_cycle_facts:
  shows "elementary_cycle m (normalize_cycle c) \<longleftrightarrow> elementary_cycle m c" "length (normalize_cycle c) = length c"
    "set (normalize_cycle c) = set c" "c \<noteq> [] \<Longrightarrow> hd (normalize_cycle c) \<in> set c \<and> (\<forall>y \<in> set c. hd (normalize_cycle c) \<le> y)"
proof -
  obtain ps qs where c: "c = ps @ qs" "normalize_cycle c = qs @ ps" using normalize_cycle_rotation by metis
  then show "elementary_cycle m (normalize_cycle c) \<longleftrightarrow> elementary_cycle m c" "length (normalize_cycle c) = length c"
    "set (normalize_cycle c) = set c"
    using elementary_cycle_rotate by auto
  assume "c \<noteq> []"
  then obtain i x where i: "min_by_key snd (enumerate 0 c) = Some (i, x)" "i < length c" "c ! i = x" "\<forall>y \<in> set c. x \<le> y"
    by (rule min_position)
  then have "hd (normalize_cycle c) = x" by (simp add: normalize_cycle_def hd_append hd_drop_conv_nth)
  with i show "hd (normalize_cycle c) \<in> set c \<and> (\<forall>y \<in> set c. hd (normalize_cycle c) \<le> y)" by auto
qed

lemma normalize_cycle_canonical:
  assumes "distinct c" "c \<noteq> []" "\<forall>y \<in> set c. hd c \<le> y"
  shows "normalize_cycle c = c"
proof -
  obtain i x where i: "min_by_key snd (enumerate 0 c) = Some (i, x)" "i < length c" "c ! i = x" "\<forall>y \<in> set c. x \<le> y"
    using assms(2) by (rule min_position)
  have "c ! i = c ! 0" using i assms(2,3) by (metis antisym hd_conv_nth hd_in_set nth_mem)
  then have "i = 0" using assms(1,2) i(2) by (simp add: nth_eq_iff_index_eq)
  then show ?thesis using i(1) by (simp add: normalize_cycle_def)
qed

definition cycle_keys :: "cycle_set \<Rightarrow> string list set" where
  "cycle_keys m = set (bt_keys m)"

lemma cycle_keys_put [simp]: "cycle_keys (bt_put c () m) = insert c (cycle_keys m)"
  by (simp add: cycle_keys_def)

lemma cycle_keys_length: "bt_wf m \<Longrightarrow> length m = card (cycle_keys m)"
  using bt_wf_distinct [of m] distinct_card [of "bt_keys m"] by (simp add: cycle_keys_def)

lemma cycle_keys_mono: "bt_wf m \<Longrightarrow> bt_wf m' \<Longrightarrow> cycle_keys m \<subseteq> cycle_keys m' \<Longrightarrow> length m \<le> length m'"
  by (simp add: cycle_keys_length card_mono cycle_keys_def)

text \<open>A loop that only adds: what one round adds is in the final set, and that round started from a set
  within the final one.\<close>

lemma fold_collects:
  assumes "\<And>n acc. n \<in> set ns \<Longrightarrow> I acc \<Longrightarrow> I (f n acc) \<and> cycle_keys acc \<subseteq> cycle_keys (f n acc)" and "I acc"
  shows "I (fold f ns acc) \<and> cycle_keys acc \<subseteq> cycle_keys (fold f ns acc)
    \<and> (\<forall>n \<in> set ns. \<exists>acc'. I acc' \<and> cycle_keys (f n acc') \<subseteq> cycle_keys (fold f ns acc))"
  using assms
proof (induction ns arbitrary: acc)
  case (Cons n ns)
  have one: "I (f n acc)" "cycle_keys acc \<subseteq> cycle_keys (f n acc)" using Cons.prems by simp_all
  have "I (fold f ns (f n acc)) \<and> cycle_keys (f n acc) \<subseteq> cycle_keys (fold f ns (f n acc))
    \<and> (\<forall>k \<in> set ns. \<exists>acc'. I acc' \<and> cycle_keys (f k acc') \<subseteq> cycle_keys (fold f ns (f n acc)))"
    by (rule Cons.IH) (use Cons.prems one in auto)
  then show ?case using one Cons.prems(2) by auto
qed simp

definition known_cycles :: "adjacency \<Rightarrow> nat \<Rightarrow> string list set" where
  "known_cycles m max_len = {c. elementary_cycle m c \<and> length c \<le> max_len \<and> normalize_cycle c = c}"

lemma normalize_known:
  assumes "elementary_cycle m c" "length c \<le> max_len"
  shows "normalize_cycle c \<in> known_cycles m max_len"
proof -
  let ?n = "normalize_cycle c"
  have e: "elementary_cycle m ?n" using assms(1) by (simp add: normalize_cycle_facts(1))
  then have "normalize_cycle ?n = ?n"
    using assms(1) normalize_cycle_facts(3,4) [of c] by (intro normalize_cycle_canonical) (auto simp: elementary_cycle_def)
  then show ?thesis using assms(2) e by (simp add: known_cycles_def normalize_cycle_facts(2))
qed

definition cycles_ok :: "adjacency \<Rightarrow> nat \<Rightarrow> cycle_set \<Rightarrow> bool" where
  "cycles_ok m max_len cycles \<longleftrightarrow> bt_wf cycles \<and> cycle_keys cycles \<subseteq> known_cycles m max_len"

definition path_of_files :: "adjacency \<Rightarrow> nat \<Rightarrow> string \<Rightarrow> string \<Rightarrow> string list \<Rightarrow> bool" where
  "path_of_files m max_len start current path \<longleftrightarrow>
     path \<noteq> [] \<and> hd path = start \<and> last path = current \<and> distinct path \<and> file_path m path \<and> length path \<le> max_len"

lemma enumerate_cycles_found:
  assumes "path_of_files m max_len start current path" "visited = set path" "cycles_ok m max_len cycles"
  shows "cycles_ok m max_len (enumerate_cycles start current m max_len path visited limit cycles)
    \<and> cycle_keys cycles \<subseteq> cycle_keys (enumerate_cycles start current m max_len path visited limit cycles)
    \<and> (length (enumerate_cycles start current m max_len path visited limit cycles) < limit \<longrightarrow>
         (\<forall>rest. elementary_cycle m (path @ rest) \<and> length (path @ rest) \<le> max_len \<longrightarrow>
            normalize_cycle (path @ rest) \<in> cycle_keys (enumerate_cycles start current m max_len path visited limit cycles)))"
  using assms
proof (induction start current m max_len path visited limit cycles rule: enumerate_cycles.induct)
  case (1 start current m max_len path visited limit cycles)
  show ?case
  proof (cases "length cycles \<ge> limit")
    case True
    then show ?thesis using "1.prems" by (simp add: enumerate_cycles.simps)
  next
    case few: False
    show ?thesis
    proof (cases "bt_get m current")
      case None
      have "\<not> elementary_cycle m (path @ rest)" for rest
      proof (cases rest)
        case Nil
        then show ?thesis using None "1.prems"(1) by (simp add: elementary_cycle_def path_of_files_def file_imports_def)
      next
        case (Cons q qs)
        then show ?thesis
          using None "1.prems"(1) by (simp add: elementary_cycle_def path_of_files_def file_imports_def file_path_append)
      qed
      then show ?thesis using few None "1.prems" by (simp add: enumerate_cycles.simps)
    next
      case (Some neighbors)
      define step where "step = (\<lambda>neighbor cycles.
          if neighbor = start
          then (if length path \<le> max_len then bt_put (normalize_cycle path) () cycles else cycles)
          else if length path \<ge> max_len \<or> neighbor \<in> visited then cycles
          else enumerate_cycles start neighbor m max_len (path @ [neighbor]) (insert neighbor visited) limit cycles)"
      have loop: "enumerate_cycles start current m max_len path visited limit cycles = fold step (bt_keys neighbors) cycles"
        using few Some by (subst enumerate_cycles.simps) (simp add: step_def)
      have edge: "file_imports m current q \<longleftrightarrow> q \<in> set (bt_keys neighbors)" for q
        using Some by (simp add: file_imports_def)
      have here: "path \<noteq> []" "hd path = start" "last path = current" "distinct path" "file_path m path" "length path \<le> max_len"
        using "1.prems"(1) by (auto simp: path_of_files_def)
      have longer: "path_of_files m max_len start q (path @ [q]) \<and> insert q visited = set (path @ [q])"
        if "q \<in> set (bt_keys neighbors)" "\<not> (length path \<ge> max_len \<or> q \<in> visited)" for q
        using that here edge "1.prems"(2) by (auto simp: path_of_files_def file_path_snoc)
      have deeper: "cycles_ok m max_len (step q acc) \<and> cycle_keys acc \<subseteq> cycle_keys (step q acc)
          \<and> (length (step q acc) < limit \<longrightarrow> (\<forall>rest. elementary_cycle m ((path @ [q]) @ rest)
              \<and> length ((path @ [q]) @ rest) \<le> max_len \<longrightarrow> normalize_cycle ((path @ [q]) @ rest) \<in> cycle_keys (step q acc)))"
        if q: "q \<in> set (bt_keys neighbors)" "q \<noteq> start" "\<not> (length path \<ge> max_len \<or> q \<in> visited)"
          and ok: "cycles_ok m max_len acc" for q acc
      proof -
        have eq: "step q acc = enumerate_cycles start q m max_len (path @ [q]) (insert q visited) limit acc"
          using q by (simp add: step_def)
        note next_path = longer [OF q(1,3)]
        show ?thesis unfolding eq
          by (rule "1.IH" [OF few Some q conjunct1 [OF next_path] conjunct2 [OF next_path] ok])
      qed
      have grow: "cycles_ok m max_len (step q acc) \<and> cycle_keys acc \<subseteq> cycle_keys (step q acc)"
        if q: "q \<in> set (bt_keys neighbors)" and ok: "cycles_ok m max_len acc" for q acc
      proof (cases "q = start")
        case True
        have "elementary_cycle m path" using here edge q True by (simp add: elementary_cycle_def)
        then have "normalize_cycle path \<in> known_cycles m max_len" using here(6) by (rule normalize_known)
        then show ?thesis using ok True by (auto simp: step_def cycles_ok_def)
      next
        case False
        then show ?thesis
          using deeper [OF q False _ ok] ok by (cases "length path \<ge> max_len \<or> q \<in> visited") (auto simp: step_def)
      qed
      note all = fold_collects [where I = "cycles_ok m max_len" and f = step and ns = "bt_keys neighbors", OF grow "1.prems"(3)]
      have complete: "normalize_cycle (path @ rest) \<in> cycle_keys (fold step (bt_keys neighbors) cycles)"
        if small: "length (fold step (bt_keys neighbors) cycles) < limit"
          and cyc: "elementary_cycle m (path @ rest)" "length (path @ rest) \<le> max_len" for rest
      proof -
        define q where "q = hd (rest @ [start])"
        have q: "q \<in> set (bt_keys neighbors)"
          using cyc(1) here edge [of q] unfolding q_def
          by (cases "rest = []") (auto simp: elementary_cycle_def file_path_append)
        then obtain acc where acc: "cycles_ok m max_len acc"
            "cycle_keys (step q acc) \<subseteq> cycle_keys (fold step (bt_keys neighbors) cycles)"
          using all by blast
        have "normalize_cycle (path @ rest) \<in> cycle_keys (step q acc)"
        proof (cases rest)
          case Nil
          then show ?thesis using here(6) by (simp add: q_def step_def)
        next
          case (Cons r rs)
          then have r: "q = r" "q \<noteq> start" "\<not> (length path \<ge> max_len \<or> q \<in> visited)"
            using cyc here "1.prems"(2) by (auto simp: q_def elementary_cycle_def dest: hd_in_set)
          have "length (step q acc) \<le> length (fold step (bt_keys neighbors) cycles)"
            using cycle_keys_mono acc(2) grow [OF q acc(1)] all by (auto simp: cycles_ok_def)
          then show ?thesis using deeper [OF q r(2,3) acc(1)] small cyc Cons r(1) by auto
        qed
        with acc(2) show ?thesis by blast
      qed
      show ?thesis unfolding loop using all complete by blast
    qed
  qed
qed

section \<open>All cycles\<close>

lemma path_imports:
  "file_path m ps \<Longrightarrow> set (butlast ps) \<subseteq> set (bt_keys m)"
proof (induction m ps rule: file_path.induct)
  case (1 m a b ps)
  then have "bt_has m a" by (auto simp: bt_has_def file_imports_def split: option.splits)
  then have "a \<in> set (bt_keys m)" by (simp add: bt_has_iff)
  then show ?case using 1 by simp
qed simp_all

lemma cycle_files: "elementary_cycle m c \<Longrightarrow> set c \<subseteq> set (bt_keys m)"
proof -
  assume c: "elementary_cycle m c"
  then have "file_path m (c @ [hd c])" by (simp add: elementary_cycle_def file_path_snoc)
  then show ?thesis using path_imports [of m "c @ [hd c]"] by simp
qed

lemma finite_known: "finite (known_cycles m max_len)"
proof (rule finite_subset)
  show "known_cycles m max_len \<subseteq> {c. set c \<subseteq> set (bt_keys m) \<and> length c \<le> max_len}"
    using cycle_files by (auto simp: known_cycles_def)
  show "finite {c. set c \<subseteq> set (bt_keys m) \<and> length c \<le> max_len}" by (rule finite_lists_length_le) simp
qed

lemma cycle_starts_target: "file_imports m a b \<Longrightarrow> b \<in> set (cycle_starts m)"
proof -
  assume "file_imports m a b"
  then obtain bs where "(a, bs) \<in> set m" "b \<in> set (bt_keys bs)"
    by (auto simp: file_imports_def split: option.splits dest: map_of_SomeD)
  then have "b \<in> fst ` set (map (\<lambda>i. (i, ())) (bt_keys m @ concat (map (bt_keys \<circ> snd) m)))"
    by (force simp: image_iff)
  then have "bt_has (bt_of_list (map (\<lambda>i. (i, ())) (bt_keys m @ concat (map (bt_keys \<circ> snd) m)))) b"
    unfolding bt_has_of_list .
  then show ?thesis by (simp add: cycle_starts_def bt_has_iff)
qed

lemma all_cycles_found:
  assumes "max_len > 0"
  shows "cycles_ok m max_len (all_cycles m max_len limit)
    \<and> (card (known_cycles m max_len) < limit \<longrightarrow> cycle_keys (all_cycles m max_len limit) = known_cycles m max_len)"
proof -
  let ?f = "\<lambda>start. enumerate_cycles start start m max_len [start] {start} limit"
  have path: "path_of_files m max_len start start [start]" for start
    using assms by (simp add: path_of_files_def)
  have grow: "cycles_ok m max_len (?f start acc) \<and> cycle_keys acc \<subseteq> cycle_keys (?f start acc)"
    if "cycles_ok m max_len acc" for start acc
    using enumerate_cycles_found [OF path _ that, of "{start}" start limit] by simp
  have "cycles_ok m max_len []" by (simp add: cycles_ok_def cycle_keys_def)
  note all = fold_collects [where I = "cycles_ok m max_len" and f = ?f and ns = "cycle_starts m", OF grow this]
  let ?all = "all_cycles m max_len limit"
  have ok: "cycles_ok m max_len ?all" using all by (simp add: all_cycles_def)
  have "known_cycles m max_len \<subseteq> cycle_keys ?all" if few: "card (known_cycles m max_len) < limit"
  proof
    fix c
    assume c: "c \<in> known_cycles m max_len"
    then obtain q qs where c_def: "c = [q] @ qs" by (cases c) (auto simp: known_cycles_def elementary_cycle_def)
    from c have cycle: "elementary_cycle m ([q] @ qs)" "length ([q] @ qs) \<le> max_len" "normalize_cycle ([q] @ qs) = c"
      by (simp_all add: known_cycles_def c_def)
    have "q \<in> set (cycle_starts m)" using cycle(1) cycle_starts_target by (auto simp: elementary_cycle_def)
    then obtain acc where acc: "cycles_ok m max_len acc" "cycle_keys (?f q acc) \<subseteq> cycle_keys ?all"
      using all by (auto simp: all_cycles_def)
    have "length (?f q acc) \<le> length ?all"
      using grow [OF acc(1)] ok acc(2) by (auto simp: cycles_ok_def intro: cycle_keys_mono)
    also have "\<dots> = card (cycle_keys ?all)" using ok by (simp add: cycles_ok_def cycle_keys_length)
    also have "\<dots> \<le> card (known_cycles m max_len)" using ok finite_known by (auto simp: cycles_ok_def intro: card_mono)
    finally have "length (?f q acc) < limit" using few by simp
    moreover have "{q} = set [q]" by simp
    ultimately have "normalize_cycle ([q] @ qs) \<in> cycle_keys (?f q acc)"
      using enumerate_cycles_found [OF path _ acc(1), of "{q}" q limit] cycle(1,2) by blast
    then show "c \<in> cycle_keys ?all" using acc(2) unfolding cycle(3) by blast
  qed
  then show ?thesis using ok by (auto simp: cycles_ok_def)
qed

lemma adjacency_step:
  "file_imports (bt_update s [] (bt_put t ()) m) a b \<longleftrightarrow> (a, b) = (s, t) \<or> file_imports m a b"
  by (auto simp: file_imports_def bt_get_update split: option.splits)

lemma import_adjacency_edges:
  "file_imports (import_adjacency g) a b \<longleftrightarrow> (\<exists>e \<in> set (g_links g). import_of g e = Some (a, b))"
proof -
  have "file_imports (fold (\<lambda>e m. case import_of g e of
             None \<Rightarrow> m | Some (s, t) \<Rightarrow> bt_update s [] (bt_put t ()) m) es m) a b
      \<longleftrightarrow> file_imports m a b \<or> (\<exists>e \<in> set es. import_of g e = Some (a, b))" for es m
  proof (induction es arbitrary: m)
    case (Cons e es)
    then show ?case by (cases "import_of g e") (auto simp: adjacency_step)
  qed simp
  from this [of "g_links g" "[]"] show ?thesis by (simp add: import_adjacency_def file_imports_def)
qed

text \<open>
  C30: the import cycles reported are elementary cycles of the graph of imports between files, no longer than
  asked for, each in its canonical rotation once, shorter ones first; and when there are fewer of them than
  ten times the number asked for, they are the shortest of all.
\<close>

theorem find_import_cycles_exact:
  assumes "max_len > 0" "n > 0"
  shows "set (map ic_cycle (find_import_cycles g max_len n)) \<subseteq> known_cycles (import_adjacency g) max_len
    \<and> distinct (map ic_cycle (find_import_cycles g max_len n))
    \<and> (card (known_cycles (import_adjacency g) max_len) < min (n * 10) (2 ^ 64 - 1)
        \<longrightarrow> map ic_cycle (find_import_cycles g max_len n)
            = take n (sort_key (\<lambda>c. (length c, c)) (sorted_list_of_set (known_cycles (import_adjacency g) max_len))))
    \<and> (file_imports (import_adjacency g) a b \<longleftrightarrow> (\<exists>e \<in> set (g_links g). import_of g e = Some (a, b)))"
proof -
  let ?m = "import_adjacency g" and ?limit = "min (n * 10) (2 ^ 64 - 1 :: nat)"
  let ?all = "all_cycles ?m max_len ?limit"
  note found = all_cycles_found [OF assms(1), of ?m ?limit]
  have none: "bt_keys ?all = []" if "?m = []"
    using that by (simp add: all_cycles_def cycle_starts_def bt_of_list_def)
  have result: "map ic_cycle (find_import_cycles g max_len n) = take n (sort_key (\<lambda>c. (length c, c)) (bt_keys ?all))"
    using assms none by (simp add: find_import_cycles_def Let_def take_map o_def)
  have "bt_wf ?all" using found by (simp add: cycles_ok_def)
  then have keys: "sorted (bt_keys ?all)" "distinct (bt_keys ?all)" by (simp_all add: bt_wf_sorted bt_wf_distinct)
  have sub: "set (take n (sort_key (\<lambda>c. (length c, c)) (bt_keys ?all))) \<subseteq> known_cycles ?m max_len"
    using found set_take_subset by (fastforce simp: cycles_ok_def cycle_keys_def)
  have dis: "distinct (take n (sort_key (\<lambda>c. (length c, c)) (bt_keys ?all)))" using keys(2) by simp
  have eq: "bt_keys ?all = sorted_list_of_set (known_cycles ?m max_len)"
    if "card (known_cycles ?m max_len) < ?limit"
    using sorted_list_of_set.idem_if_sorted_distinct [OF keys] found that by (simp add: cycle_keys_def)
  show ?thesis
    unfolding result by (intro conjI impI sub dis import_adjacency_edges) (simp only: eq)
qed

definition cyclic_graph :: graph where
  "cyclic_graph =
     \<lparr> g_directed = True, g_multigraph = False,
       g_nodes = [plain_node ''a'' ''a'' ''a.rs'', plain_node ''b'' ''b'' ''b.rs''],
       g_links = [(plain_edge ''a'' ''b'' ''imports_from'')\<lparr>e_source_file := ''a.rs''\<rparr>,
                  (plain_edge ''b'' ''a'' ''imports_from'')\<lparr>e_source_file := ''b.rs''\<rparr>],
       g_hyperedges = [], g_extra = [] \<rparr>"

lemma find_import_cycles_exact_witness:
  "map ic_cycle (find_import_cycles cyclic_graph 5 3) = [[''a.rs'', ''b.rs'']]
   \<and> [''a.rs'', ''b.rs''] \<in> known_cycles (import_adjacency cyclic_graph) 5
   \<and> map ic_cycle (find_import_cycles cyclic_graph 5 3)
       = take 3 (sort_key (\<lambda>c. (length c, c)) (sorted_list_of_set (known_cycles (import_adjacency cyclic_graph) 5)))"
proof -
  have "bt_keys (all_cycles (import_adjacency cyclic_graph) 5 30) = [[''a.rs'', ''b.rs'']]" by code_simp
  moreover have "import_adjacency cyclic_graph \<noteq> []" by code_simp
  ultimately have cycles: "map ic_cycle (find_import_cycles cyclic_graph 5 3) = [[''a.rs'', ''b.rs'']]"
    by (simp add: find_import_cycles_def Let_def)
  have files: "set (bt_keys (import_adjacency cyclic_graph)) = {''a.rs'', ''b.rs''}" by code_simp
  have two: "finite {''a.rs'', ''b.rs''}" "card {''a.rs'', ''b.rs''} = 2" by simp_all
  have "known_cycles (import_adjacency cyclic_graph) 5 \<subseteq> {c. set c \<subseteq> {''a.rs'', ''b.rs''} \<and> length c \<le> 2}"
  proof
    fix c
    assume "c \<in> known_cycles (import_adjacency cyclic_graph) 5"
    then have c: "set c \<subseteq> {''a.rs'', ''b.rs''}" "distinct c"
      using cycle_files [of "import_adjacency cyclic_graph" c] files by (auto simp: known_cycles_def elementary_cycle_def)
    then have "length c \<le> 2" using card_mono [OF two(1) c(1)] two(2) by (simp add: distinct_card)
    with c show "c \<in> {c. set c \<subseteq> {''a.rs'', ''b.rs''} \<and> length c \<le> 2}" by simp
  qed
  then have "card (known_cycles (import_adjacency cyclic_graph) 5) \<le> card {c. set c \<subseteq> {''a.rs'', ''b.rs''} \<and> length c \<le> 2}"
    by (rule card_mono [OF finite_lists_length_le [OF two(1)]])
  also have "\<dots> = 7" unfolding card_lists_length_le [OF two(1)] two(2) by (simp add: numeral_2_eq_2)
  finally have "card (known_cycles (import_adjacency cyclic_graph) 5) < min (3 * 10) (2 ^ 64 - 1)" by simp
  then show ?thesis
    using find_import_cycles_exact [of 5 3 cyclic_graph] cycles by auto
qed

end
