(* ===== verification/Cluster.thy ===== *)
theory Cluster
  imports Labels Grouping
begin

text \<open>
  Communities (\<open>graphoxide-graph/src/cluster.rs\<close>): the code around the Leiden partition of a weighted
  network, which is a library and a parameter here; the splitting of communities that are too large or too
  loose, their numbering and names, the cohesion of a community, and the mapping of new communities to the
  numbers of a previous graph.
\<close>

section \<open>The partition and its input\<close>

text \<open>The network of labelled weighted edges to the items of its partition: a label and its cluster.\<close>

type_synonym leiden = "(string \<times> string \<times> real) list \<Rightarrow> (string \<times> nat) list option"

definition edge_weight :: "edge \<Rightarrow> real" where
  "edge_weight e = (case Option.bind (bt_get (e_extra e) ''weight'') as_f64 of None \<Rightarrow> 1 | Some w \<Rightarrow> w)"

text \<open>The edges between different members, in order of their ends.\<close>

definition weighted_edges :: "graph \<Rightarrow> string set \<Rightarrow> (string \<times> string \<times> real) list" where
  "weighted_edges g members =
     sort_key (\<lambda>(s, t, _). (s, t))
       (map (\<lambda>e. (true_source e, true_target e, edge_weight e))
         (filter (\<lambda>e. true_source e \<noteq> true_target e \<and> true_source e \<in> members \<and> true_target e \<in> members) (g_links g)))"

section \<open>Splitting\<close>

definition cluster_groups :: "(string \<times> nat) list \<Rightarrow> (nat, string list) btree" where
  "cluster_groups items = fold (\<lambda>(label, c) m. bt_update c [] (\<lambda>ls. ls @ [label]) m) items []"

definition next_cluster :: "(nat, string list) btree \<Rightarrow> nat" where
  "next_cluster groups = (if groups = [] then 0 else last (bt_keys groups)) + 1"

definition add_uncovered :: "string set \<Rightarrow> string \<Rightarrow> (nat, string list) btree \<Rightarrow> (nat, string list) btree" where
  "add_uncovered covered member groups =
     (if member \<in> covered then groups
      else bt_update (next_cluster groups) [] (\<lambda>ls. ls @ [member]) groups)"

definition split_community :: "leiden \<Rightarrow> graph \<Rightarrow> string list \<Rightarrow> string list list" where
  "split_community leiden g members =
     (let es = weighted_edges g (set members)
      in if es = [] then map (\<lambda>m. [m]) members
         else case leiden es of
                None \<Rightarrow> [members]
              | Some items \<Rightarrow>
                  let groups = fold (add_uncovered (fst ` set items)) members (cluster_groups items);
                      values = map (sort \<circ> snd) groups
                  in if length values \<le> 1 then [members] else values)"

definition neighbours_of :: "graph \<Rightarrow> string \<Rightarrow> string list" where
  "neighbours_of g i =
     remdups (List.map_filter (\<lambda>e.
         if true_source e = true_target e then None
         else if true_source e = i then Some (true_target e)
         else if true_target e = i then Some (true_source e) else None) (g_links g))"

text \<open>The members are sorted, so that the binary search finds exactly the members; a member that is no node
  has no neighbours.\<close>

definition internal_edges :: "graph \<Rightarrow> string list \<Rightarrow> nat" where
  "internal_edges g members =
     sum_list (map (\<lambda>i. if i \<in> n_id ` set (g_nodes g)
                        then length (filter (\<lambda>q. q \<in> set members) (neighbours_of g i)) else 0) members) div 2"

definition possible_edges :: "string list \<Rightarrow> nat" where
  "possible_edges members = length members * (length members - 1) div 2"

definition too_loose :: "graph \<Rightarrow> string list \<Rightarrow> bool" where
  "too_loose g members \<longleftrightarrow>
     length members \<ge> 50 \<and> possible_edges members > 0
     \<and> real (internal_edges g members) / real (possible_edges members) < 5 / 100"

definition first_pass :: "leiden \<Rightarrow> graph \<Rightarrow> (string, nat) btree \<Rightarrow> string list list" where
  "first_pass leiden g assignments =
     (let max_size = max 10 (length (g_nodes g) div 4);
          groups = map (sort \<circ> snd) (cluster_groups assignments)
      in concat (map (\<lambda>members. if length members > max_size then split_community leiden g members else [members]) groups))"

definition second_pass :: "leiden \<Rightarrow> graph \<Rightarrow> string list list \<Rightarrow> string list list" where
  "second_pass leiden g groups =
     concat (map (\<lambda>members.
         if too_loose g members
         then let split = split_community leiden g members in if length split > 1 then split else [members]
         else [members]) groups)"

definition numbered :: "'a list list \<Rightarrow> ('a \<times> nat) list" where
  "numbered groups = concat (map (\<lambda>(c, members). map (\<lambda>i. (i, c)) members) (enumerate 0 groups))"

definition postprocess_assignments :: "leiden \<Rightarrow> graph \<Rightarrow> (string, nat) btree \<Rightarrow> (string, nat) btree" where
  "postprocess_assignments leiden g assignments =
     bt_of_list (numbered (second_pass leiden g (first_pass leiden g assignments)))"

section \<open>Names\<close>

definition matches_uri_reference_form :: "string \<Rightarrow> bool" where
  "matches_uri_reference_form label \<longleftrightarrow>
     starts_with label ''./'' \<or> starts_with label ''../'' \<or> starts_with label ''#/''"

lemma rsplit_once_shorter: "rsplit_once c s = Some (stem, ext) \<Longrightarrow> length stem < length s"
  by (cases s) (auto simp: rsplit_once_def Let_def split: if_splits)

function compressed_wrapper :: "string \<Rightarrow> bool \<Rightarrow> string \<Rightarrow> bool" where
  "compressed_wrapper label stripped file_name =
     (case rsplit_once CHR ''.'' file_name of
        None \<Rightarrow> False
      | Some (stem, ext) \<Rightarrow>
          let compression = ext \<in> {''bz2'', ''gz'', ''lz4'', ''lzma'', ''xz'', ''zst''}
          in if \<not> compression \<and> \<not> (stripped \<and> ext = ''tar'') then False
             else if label = stem then True
             else compressed_wrapper label (stripped \<or> compression) stem)"
  by pat_completeness auto
termination
  by (relation "measure (\<lambda>(_, _, file_name). length file_name)") (auto dest: rsplit_once_shorter)

declare compressed_wrapper.simps [simp del]

definition is_compressed_document_wrapper_label :: "node \<Rightarrow> string \<Rightarrow> bool" where
  "is_compressed_document_wrapper_label n label \<longleftrightarrow>
     n_file_type n = ''document'' \<and> compressed_wrapper label False (last (split_on CHR ''/'' (n_source_file n)))"

definition is_navigation_label_artifact :: "node \<Rightarrow> string \<Rightarrow> bool" where
  "is_navigation_label_artifact n label \<longleftrightarrow>
     is_file_node_label label (n_source_file n) \<or> contains label ''://'' \<or> matches_uri_reference_form label
     \<or> (case get_str (n_extra n) ''type'' of
          None \<Rightarrow> False
        | Some kind \<Rightarrow> ends_with kind ''_link'' \<and> (starts_with label ''#'' \<or> starts_with label ''/''))
     \<or> is_compressed_document_wrapper_label n label"

definition display_label :: "node \<Rightarrow> string" where
  "display_label n = (let label = trim (n_label n) in if label = [] then n_id n else label)"

definition count_hub_edge ::
  "string set \<Rightarrow> edge \<Rightarrow> (string \<times> string) set \<times> (string, nat) btree \<Rightarrow> (string \<times> string) set \<times> (string, nat) btree" where
  "count_hub_edge ids e st =
     (let (seen, degree) = st; s = true_source e; t = true_target e; key = (if s \<le> t then (s, t) else (t, s))
      in if s \<notin> ids \<or> t \<notin> ids \<or> key \<in> seen then st
         else (insert key seen,
               if s = t then bt_update s 0 (\<lambda>d. d + 2) degree
               else bt_update t 0 Suc (bt_update s 0 Suc degree)))"

definition hub_degrees :: "graph \<Rightarrow> (string, nat) btree" where
  "hub_degrees g =
     snd (fold (count_hub_edge (n_id ` set (g_nodes g))) (g_links g)
       ({}, bt_of_list (map (\<lambda>n. (n_id n, 0)) (g_nodes g))))"

definition community_hub :: "(string, node) btree \<Rightarrow> (string, nat) btree \<Rightarrow> string list \<Rightarrow> (string \<times> node) option" where
  "community_hub nodes degree members =
     min_by_key (\<lambda>(member, n).
         (is_navigation_label_artifact n (display_label n),
          - int (case bt_get degree member of None \<Rightarrow> 0 | Some d \<Rightarrow> d), member))
       (List.map_filter (\<lambda>member. map_option (\<lambda>n. (member, n)) (bt_get nodes member)) members)"

definition community_label :: "(string, node) btree \<Rightarrow> (string, nat) btree \<Rightarrow> int \<Rightarrow> string list \<Rightarrow> string" where
  "community_label nodes degree community members =
     (let fallback = ''Community '' @ show_int community
      in case community_hub nodes degree members of
           None \<Rightarrow> fallback
         | Some (_, n) \<Rightarrow>
             let label = display_label n
             in if is_navigation_label_artifact n label then fallback
                else let name = (case strip_suffix ''()'' label of None \<Rightarrow> label | Some s \<Rightarrow> s)
                     in if name = [] then fallback else name)"

definition label_communities_by_hub :: "graph \<Rightarrow> (int, string list) btree \<Rightarrow> (int, string) btree" where
  "label_communities_by_hub g groups =
     (let nodes = bt_of_list (map (\<lambda>n. (n_id n, n)) (g_nodes g)); degree = hub_degrees g
      in map (\<lambda>(c, members). (c, community_label nodes degree c members)) groups)"

section \<open>Clustering a graph\<close>

text \<open>Indexing a map without the key is a panic.\<close>

datatype cluster_error = LeidenFailed | MissingKey

definition assign_rest :: "node list \<Rightarrow> (string, nat) btree \<Rightarrow> (string, nat) btree" where
  "assign_rest nodes assignments =
     fst (fold (\<lambda>n (m, next). if bt_has m (n_id n) then (m, next) else (bt_put (n_id n) next m, next + 1)) nodes
       (assignments, if assignments = [] then 0 else Max (snd ` set assignments) + 1))"

definition ordered_groups :: "(string, nat) btree \<Rightarrow> string list list" where
  "ordered_groups assignments =
     sort_key (\<lambda>a. (- int (length a), a)) (map (sort \<circ> snd) (cluster_groups assignments))"

definition set_community :: "(string, nat) btree \<Rightarrow> (int, string) btree \<Rightarrow> node \<Rightarrow> node option" where
  "set_community reindexed labels n =
     Option.bind (bt_get reindexed (n_id n)) (\<lambda>c.
     map_option (\<lambda>label. n\<lparr>n_community := Some (int c), n_extra := bt_put ''community_name'' (JStr label) (n_extra n)\<rparr>)
       (bt_get labels (int c)))"

definition cluster :: "leiden \<Rightarrow> graph \<Rightarrow> cluster_error + graph" where
  "cluster leiden g =
     (if g_nodes g = [] then Inr g
      else
        let es = weighted_edges g (n_id ` set (g_nodes g))
        in case (if es = [] then Some [] else leiden es) of
             None \<Rightarrow> Inl LeidenFailed
           | Some items \<Rightarrow>
               let assignments = postprocess_assignments leiden g (assign_rest (g_nodes g) (bt_of_list items));
                   groups = ordered_groups assignments;
                   labels = label_communities_by_hub g (map (\<lambda>(c, members). (int c, members)) (enumerate 0 groups))
               in case those (map (set_community (bt_of_list (numbered groups)) labels) (g_nodes g)) of
                    None \<Rightarrow> Inl MissingKey
                  | Some nodes \<Rightarrow> Inr (g\<lparr>g_nodes := nodes\<rparr>))"

definition communities :: "graph \<Rightarrow> (int, string list) btree" where
  "communities g =
     map (\<lambda>(c, members). (c, sort members))
       (fold (\<lambda>n m. case n_community n of None \<Rightarrow> m | Some c \<Rightarrow> bt_update c [] (\<lambda>ids. ids @ [n_id n]) m) (g_nodes g) [])"

section \<open>Cohesion\<close>

definition ordered_pair :: "edge \<Rightarrow> string \<times> string" where
  "ordered_pair e =
     (if true_source e \<le> true_target e then (true_source e, true_target e) else (true_target e, true_source e))"

definition cohesion_score :: "graph \<Rightarrow> string list \<Rightarrow> real" where
  "cohesion_score g members =
     (if length members \<le> 1 then 1
      else real (card (set (map ordered_pair
                  (filter (\<lambda>e. true_source e \<noteq> true_target e \<and> true_source e \<in> set members \<and> true_target e \<in> set members)
                    (g_links g)))))
           / real (length members * (length members - 1) div 2))"

definition score_all :: "graph \<Rightarrow> (int, string list) btree \<Rightarrow> (int, real) btree" where
  "score_all g groups = map (\<lambda>(c, members). (c, cohesion_score g members)) groups"

section \<open>The numbers of a previous graph\<close>

definition old_groups :: "(string, int) btree \<Rightarrow> (int, string list) btree" where
  "old_groups previous = fold (\<lambda>(node, c) m. bt_update c [] (\<lambda>ns. ns @ [node]) m) previous []"

definition overlap_of :: "int \<times> string list \<Rightarrow> int \<times> string list \<Rightarrow> nat \<times> int \<times> int" where
  "overlap_of old new = (card (set (snd old) \<inter> set (snd new)), fst old, fst new)"

definition overlaps :: "(int, string list) btree \<Rightarrow> (int, string list) btree \<Rightarrow> (nat \<times> int \<times> int) list" where
  "overlaps old groups =
     sort_key (\<lambda>(n, old_id, new_id). (- int n, old_id, new_id))
       (filter (\<lambda>(n, _). n > 0) (concat (map (\<lambda>o1. map (overlap_of o1) groups) old)))"

type_synonym remap_state = "(int, int) btree \<times> (int, unit) btree"

definition match_overlap :: "nat \<times> int \<times> int \<Rightarrow> remap_state \<Rightarrow> remap_state" where
  "match_overlap o1 st =
     (let (_, old_id, new_id) = o1; (mapping, used) = st
      in if bt_has mapping new_id \<or> bt_has used old_id then st
         else (bt_put new_id old_id mapping, bt_put old_id () used))"

lemma keys_above: "bt_has used n \<Longrightarrow> card {k \<in> set (bt_keys used). n + 1 \<le> k} < card {k \<in> set (bt_keys used). n \<le> (k :: int)}"
proof -
  assume "bt_has used n"
  then have "n \<in> {k \<in> set (bt_keys used). n \<le> k}" by (simp add: bt_has_iff)
  moreover have "n \<notin> {k \<in> set (bt_keys used). n + 1 \<le> k}" by simp
  moreover have "{k \<in> set (bt_keys used). n + 1 \<le> k} \<subseteq> {k \<in> set (bt_keys used). n \<le> k}" by auto
  ultimately show ?thesis by (intro psubset_card_mono) (simp, blast)
qed

function next_free :: "(int, unit) btree \<Rightarrow> int \<Rightarrow> int" where
  "next_free used n = (if bt_has used n then next_free used (n + 1) else n)"
  by pat_completeness auto
termination
  by (relation "measure (\<lambda>(used, n). card {k \<in> set (bt_keys used). n \<le> k})") (auto intro: keys_above simp del: set_map)

declare next_free.simps [simp del]

definition number_unmatched :: "int \<Rightarrow> remap_state \<times> int \<Rightarrow> remap_state \<times> int" where
  "number_unmatched c st =
     (let ((mapping, used), next) = st; n = next_free used next
      in ((bt_put c n mapping, bt_put n () used), n + 1))"

definition remap_mapping :: "(int, string list) btree \<Rightarrow> (string, int) btree \<Rightarrow> (int, int) btree" where
  "remap_mapping groups previous =
     (let matched = fold match_overlap (overlaps (old_groups previous) groups) ([], []);
          unmatched = sort_key (\<lambda>(_, nodes). (- int (length nodes), nodes))
            (filter (\<lambda>(c, _). \<not> bt_has (fst matched) c) groups)
      in fst (fst (fold number_unmatched (map fst unmatched) (matched, 0))))"

definition remap_community_map :: "(int, string list) btree \<Rightarrow> (string, int) btree \<Rightarrow> (int, string list) btree" where
  "remap_community_map groups previous =
     (let mapping = remap_mapping groups previous
      in bt_of_list (map (\<lambda>(c, nodes). (the (bt_get mapping c), sort nodes)) groups))"

definition members_by_community :: "node list \<Rightarrow> (int, (string, unit) btree) btree" where
  "members_by_community nodes =
     fold (\<lambda>n m. case n_community n of None \<Rightarrow> m | Some c \<Rightarrow> bt_update c [] (bt_put (n_id n) ()) m) nodes []"

definition final_ids :: "(int, (string, unit) btree) btree \<Rightarrow> (int, string list) btree \<Rightarrow> (int, int) btree" where
  "final_ids new remapped =
     bt_of_list (concat (map (\<lambda>(final_id, members). List.map_filter (\<lambda>member.
         map_option (\<lambda>(new_id, _). (new_id, final_id)) (find (\<lambda>(_, candidates). bt_has candidates member) new)) members)
       remapped))"

definition inherit_name :: "(int, json) btree \<Rightarrow> (int, int) btree \<Rightarrow> node \<Rightarrow> node option" where
  "inherit_name old_names mapping n =
     (case n_community n of
        None \<Rightarrow> Some n
      | Some c \<Rightarrow>
          (case bt_get mapping c of
             None \<Rightarrow> None
           | Some mapped \<Rightarrow>
               Some (n\<lparr>n_community := Some mapped,
                        n_extra := (case bt_get old_names mapped of
                            None \<Rightarrow> n_extra n | Some name \<Rightarrow> bt_put ''community_name'' name (n_extra n))\<rparr>)))"

text \<open>\<open>None\<close> is the panic of indexing the map without the key.\<close>

definition remap_communities_to_previous :: "graph \<Rightarrow> graph \<Rightarrow> graph option" where
  "remap_communities_to_previous current previous =
     (let old = members_by_community (g_nodes previous); new = members_by_community (g_nodes current);
          pure_groups = map (\<lambda>(c, members). (c, bt_keys members)) new;
          previous_assignments = bt_of_list (concat (map (\<lambda>(c, members). map (\<lambda>i. (i, c)) (bt_keys members)) old));
          mapping = final_ids new (remap_community_map pure_groups previous_assignments);
          old_names = bt_of_list (List.map_filter (\<lambda>n. case (n_community n, bt_get (n_extra n) ''community_name'') of
              (Some c, Some name) \<Rightarrow> Some (c, name) | _ \<Rightarrow> None) (g_nodes previous))
      in map_option (\<lambda>nodes. current\<lparr>g_nodes := nodes\<rparr>)
           (those (map (inherit_name old_names mapping) (g_nodes current))))"

section \<open>Cohesion is a proportion\<close>

lemma pairs_below: "finite A \<Longrightarrow> card {(a, b). a \<in> A \<and> b \<in> A \<and> a < (b :: 'a :: linorder)} = card A * (card A - 1) div 2"
proof -
  assume A: "finite A"
  let ?up = "{(a, b). a \<in> A \<and> b \<in> A \<and> a < b}" and ?down = "{(a, b). a \<in> A \<and> b \<in> A \<and> b < a}"
  have fin: "finite (A \<times> A)" using A by simp
  have finite: "finite ?up" "finite ?down" by (rule finite_subset [OF _ fin]; auto)+
  have "card ?down = card ?up" by (rule bij_betw_same_card [of prod.swap]) (auto simp: bij_betw_def inj_on_def)
  moreover have "A \<times> A - Id_on A = ?up \<union> ?down" by (auto simp: Id_on_def)
  moreover have "?up \<inter> ?down = {}" by auto
  ultimately have "card (A \<times> A - Id_on A) = 2 * card ?up" using card_Un_disjoint [OF finite] by simp
  moreover have "card (A \<times> A - Id_on A) = card A * card A - card A"
  proof -
    have "Id_on A = (\<lambda>x. (x, x)) ` A" by auto
    then have "card (Id_on A) = card A" by (simp add: card_image inj_on_def)
    moreover have "Id_on A \<subseteq> A \<times> A" by auto
    ultimately show ?thesis using A by (simp add: card_Diff_subset card_cartesian_product finite_subset [OF _ fin])
  qed
  ultimately show ?thesis by (simp add: diff_mult_distrib2)
qed

text \<open>
  The cohesion of distinct members lies between 0 and 1, and is 1 exactly when every two of them are
  joined by an edge in one of the directions.
\<close>

theorem cohesion_is_proportion:
  assumes "distinct members"
  shows "0 \<le> cohesion_score g members \<and> cohesion_score g members \<le> 1
    \<and> (cohesion_score g members = 1 \<longleftrightarrow>
        (\<forall>a \<in> set members. \<forall>b \<in> set members. a < b \<longrightarrow> (a, b) \<in> ordered_pair ` set (g_links g)))"
proof (cases "length members \<le> 1")
  case True
  then have "a = b" if "a \<in> set members" "b \<in> set members" for a b
    using that by (cases members) (auto simp: le_Suc_eq)
  then show ?thesis using True by (auto simp: cohesion_score_def)
next
  case False
  let ?A = "set members"
  define joined where "joined = set (map ordered_pair
      (filter (\<lambda>e. true_source e \<noteq> true_target e \<and> true_source e \<in> ?A \<and> true_target e \<in> ?A) (g_links g)))"
  let ?pairs = "{(a, b). a \<in> ?A \<and> b \<in> ?A \<and> a < b}"
  have card: "card ?pairs = length members * (length members - 1) div 2"
    using pairs_below [of ?A] assms by (simp add: distinct_card)
  have fin: "finite ?pairs" by (rule finite_subset [of _ "?A \<times> ?A"]) auto
  have joined: "joined = {(a, b). a \<in> ?A \<and> b \<in> ?A \<and> a < b \<and> (a, b) \<in> ordered_pair ` set (g_links g)}"
    unfolding joined_def by (auto simp: ordered_pair_def image_iff split: if_splits)
  then have sub: "joined \<subseteq> ?pairs" by auto
  have many: "0 < card ?pairs" using False card by (simp add: div_greater_zero_iff) (metis Suc_1 mult_le_mono not_less_eq_eq le_SucI One_nat_def Suc_pred' mult.right_neutral linorder_not_less nat_1_eq_mult_iff zero_less_diff)
  have score: "cohesion_score g members = real (card joined) / real (card ?pairs)"
    using False by (simp add: cohesion_score_def joined_def card)
  have "card joined \<le> card ?pairs" using card_mono [OF fin sub] .
  moreover have "card joined = card ?pairs \<longleftrightarrow> joined = ?pairs" using card_subset_eq [OF fin sub] by auto
  moreover have "joined = ?pairs \<longleftrightarrow> (\<forall>a \<in> ?A. \<forall>b \<in> ?A. a < b \<longrightarrow> (a, b) \<in> ordered_pair ` set (g_links g))"
  proof -
    have "joined = ?pairs \<longleftrightarrow> (\<forall>p. p \<in> ?pairs \<longrightarrow> p \<in> joined)" using sub by blast
    then show ?thesis unfolding joined split_paired_All by (simp only: mem_Collect_eq prod.case Ball_def) blast
  qed
  ultimately show ?thesis unfolding score using many by (auto simp: divide_le_eq_1 eq_divide_eq)
qed

section \<open>Splitting keeps the members\<close>

text \<open>What the partition library promises: its items are the labels of the network, once each.\<close>

definition partitions :: "leiden \<Rightarrow> bool" where
  "partitions leiden \<longleftrightarrow>
     (\<forall>es items. leiden es = Some items \<longrightarrow>
        distinct (map fst items) \<and> fst ` set items = (\<lambda>(s, _, _). s) ` set es \<union> (\<lambda>(_, t, _). t) ` set es)"

lemma cluster_groups_pushed: "cluster_groups items = fold (\<lambda>x. push_to (snd x) (fst x)) items []"
  unfolding cluster_groups_def by (rule arg_cong [where f = "\<lambda>f. fold f items []"]) auto

lemma cluster_groups_facts:
  "bt_wf (cluster_groups items)" "mset (concat (map snd (cluster_groups items))) = mset (map fst items)"
  "[] \<notin> snd ` set (cluster_groups items)"
  using pushed_wf [OF bt_wf_Nil, of snd fst items] pushed_mset [OF bt_wf_Nil, of snd fst items]
    pushed_nonempty [of "[]" snd fst items]
  by (simp_all add: cluster_groups_pushed)

lemma add_uncovered_facts:
  assumes "bt_wf m" "[] \<notin> snd ` set m"
  shows "bt_wf (fold (add_uncovered covered) members m)"
    "mset (concat (map snd (fold (add_uncovered covered) members m)))
      = mset (concat (map snd m)) + mset (filter (\<lambda>i. i \<notin> covered) members)"
    "[] \<notin> snd ` set (fold (add_uncovered covered) members m)"
  using assms
  by (induction members arbitrary: m) (auto simp: add_uncovered_def push_to_mset push_to_nonempty)

lemma weighted_edges_ends:
  "(\<lambda>(s, _, _). s) ` set (weighted_edges g members) \<union> (\<lambda>(_, t, _). t) ` set (weighted_edges g members) \<subseteq> members"
  by (auto simp: weighted_edges_def)

lemma mset_concat_sorted: "mset (concat (map (sort \<circ> snd) m)) = mset (concat (map snd m))"
  by (induction m) auto

lemma sorted_nonempty: "[] \<notin> snd ` set m \<Longrightarrow> [] \<notin> set (map (sort \<circ> snd) m)"
proof
  assume ok: "[] \<notin> snd ` set m" and "[] \<in> set (map (sort \<circ> snd) m)"
  then obtain x where x: "x \<in> set m" "sort (snd x) = []" by auto
  then have "snd x = []" by (metis length_0_conv length_sort)
  then show False using ok x(1) by force
qed

lemma split_community_members:
  assumes law: "partitions leiden" and "distinct members" "members \<noteq> []"
  shows "mset (concat (split_community leiden g members)) = mset members
    \<and> [] \<notin> set (split_community leiden g members)"
proof (cases "weighted_edges g (set members)")
  case Nil
  have "concat (map (\<lambda>m. [m]) members) = members" by simp
  then show ?thesis using Nil by (auto simp: split_community_def)
next
  case (Cons e es)
  show ?thesis
  proof (cases "leiden (weighted_edges g (set members))")
    case None
    then show ?thesis using Cons assms(3) by (simp add: split_community_def)
  next
    case (Some items)
    let ?groups = "fold (add_uncovered (fst ` set items)) members (cluster_groups items)"
    have items: "distinct (map fst items)" "fst ` set items \<subseteq> set members"
      using law Some weighted_edges_ends [of g "set members"] unfolding partitions_def by blast+
    note groups = add_uncovered_facts [OF cluster_groups_facts(1,3), of "fst ` set items" members items]
    have "mset members = mset (filter (\<lambda>i. i \<in> fst ` set items) members) + mset (filter (\<lambda>i. i \<notin> fst ` set items) members)"
      by (simp add: multiset_partition)
    also have "mset (filter (\<lambda>i. i \<in> fst ` set items) members) = mset (map fst items)"
      using items assms(2) by (subst set_eq_iff_mset_eq_distinct [symmetric]) auto
    finally have all: "mset (concat (map (sort \<circ> snd) ?groups)) = mset members"
      unfolding mset_concat_sorted groups(2) cluster_groups_facts(2) by simp
    have "[] \<notin> set (map (sort \<circ> snd) ?groups)" using groups(3) by (rule sorted_nonempty)
    then show ?thesis using Some Cons all assms(3) by (simp add: split_community_def Let_def)
  qed
qed

lemma concat_regroup:
  assumes "\<And>ms. ms \<in> set groups \<Longrightarrow> mset (concat (f ms)) = mset ms \<and> [] \<notin> set (f ms)"
  shows "mset (concat (concat (map f groups))) = mset (concat groups) \<and> [] \<notin> set (concat (map f groups))"
  using assms by (induction groups) auto

lemma distinct_group: "distinct (concat groups) \<Longrightarrow> ms \<in> set groups \<Longrightarrow> distinct ms"
  by (induction groups) auto

lemma first_pass_members:
  assumes "partitions leiden" "bt_wf assignments"
  shows "mset (concat (first_pass leiden g assignments)) = mset (bt_keys assignments)
    \<and> [] \<notin> set (first_pass leiden g assignments)"
proof -
  let ?groups = "map (sort \<circ> snd) (cluster_groups assignments)"
  let ?f = "\<lambda>ms. if length ms > max 10 (length (g_nodes g) div 4) then split_community leiden g ms else [ms]"
  have mass: "mset (concat ?groups) = mset (bt_keys assignments)"
    unfolding mset_concat_sorted cluster_groups_facts(2) ..
  then have "distinct (concat ?groups)"
    using bt_wf_distinct [OF assms(2)] by (metis mset_eq_imp_distinct_iff)
  moreover have nonempty: "[] \<notin> set ?groups" by (rule sorted_nonempty [OF cluster_groups_facts(3)])
  ultimately have parts: "mset (concat (?f ms)) = mset ms \<and> [] \<notin> set (?f ms)" if "ms \<in> set ?groups" for ms
    using split_community_members [OF assms(1) distinct_group, of ?groups ms] that by (cases ms) auto
  have "first_pass leiden g assignments = concat (map ?f ?groups)"
    unfolding first_pass_def Let_def ..
  then show ?thesis using concat_regroup [of ?groups ?f, OF parts] mass by simp
qed

lemma second_pass_members:
  assumes "partitions leiden" "distinct (concat groups)" "[] \<notin> set groups"
  shows "mset (concat (second_pass leiden g groups)) = mset (concat groups) \<and> [] \<notin> set (second_pass leiden g groups)"
  unfolding second_pass_def
proof (rule concat_regroup)
  fix ms
  assume "ms \<in> set groups"
  then show "mset (concat (if too_loose g ms then let split = split_community leiden g ms in if length split > 1 then split else [ms] else [ms]))
      = mset ms \<and> [] \<notin> set (if too_loose g ms then let split = split_community leiden g ms in if length split > 1 then split else [ms] else [ms])"
    using split_community_members [OF assms(1) distinct_group [OF assms(2)], of ms g] assms(3) by (auto simp: Let_def)
qed

section \<open>Every node gets a community\<close>

lemma numbered_keys: "map fst (numbered groups) = concat groups"
proof -
  have "map fst (concat (map (\<lambda>(c, ms). map (\<lambda>i. (i, c)) ms) (enumerate k groups))) = concat groups" for k
    by (induction groups arbitrary: k) (simp_all add: o_def)
  then show ?thesis unfolding numbered_def .
qed

lemma numbered_mem: "(i, c) \<in> set (numbered groups) \<longleftrightarrow> c < length groups \<and> i \<in> set (groups ! c)"
  by (force simp: numbered_def in_set_enumerate_eq)

lemma numbered_get:
  assumes "distinct (concat groups)"
  shows "bt_get (bt_of_list (numbered groups)) i = Some c \<longleftrightarrow> c < length groups \<and> i \<in> set (groups ! c)"
proof -
  have "distinct (map fst (rev (numbered groups)))" by (simp add: rev_map [symmetric] numbered_keys assms)
  then show ?thesis by (simp add: bt_get_of_list map_of_eq_Some_iff numbered_mem)
qed

lemma assign_rest_keys:
  assumes "bt_wf m"
  shows "bt_wf (assign_rest nodes m) \<and> set (bt_keys (assign_rest nodes m)) = set (bt_keys m) \<union> n_id ` set nodes"
proof -
  let ?step = "\<lambda>n (m, next). if bt_has m (n_id n) then (m, next) else (bt_put (n_id n) next m, next + 1)"
  have "bt_wf (fst (fold ?step nodes (m, k))) \<and> set (bt_keys (fst (fold ?step nodes (m, k)))) = set (bt_keys m) \<union> n_id ` set nodes"
    if "bt_wf m" for k and m :: "(string, nat) btree"
    using that
  proof (induction nodes arbitrary: m k)
    case (Cons n ns)
    then show ?case by (auto simp: bt_has_iff)
  qed simp
  with assms show ?thesis unfolding assign_rest_def by blast
qed

lemma postprocess_keys:
  assumes "partitions leiden" "bt_wf assignments"
  shows "bt_wf (postprocess_assignments leiden g assignments)"
    "set (bt_keys (postprocess_assignments leiden g assignments)) = set (bt_keys assignments)"
proof -
  let ?first = "first_pass leiden g assignments"
  have first: "mset (concat ?first) = mset (bt_keys assignments)" "[] \<notin> set ?first"
    using first_pass_members [OF assms] by auto
  then have "distinct (concat ?first)" using bt_wf_distinct [OF assms(2)] by (metis mset_eq_imp_distinct_iff)
  then have "set (concat (second_pass leiden g ?first)) = set (bt_keys assignments)"
    using second_pass_members [OF assms(1) _ first(2)] first(1) by (metis mset_eq_setD)
  moreover have "fst ` set (numbered (second_pass leiden g ?first)) = set (concat (second_pass leiden g ?first))"
    by (simp only: numbered_keys [symmetric] set_map)
  moreover have "fst ` set (postprocess_assignments leiden g assignments) = fst ` set (numbered (second_pass leiden g ?first))"
    using bt_has_of_list [of "numbered (second_pass leiden g ?first)"]
    unfolding postprocess_assignments_def bt_has_iff set_eq_iff by (rule allI)
  ultimately show "set (bt_keys (postprocess_assignments leiden g assignments)) = set (bt_keys assignments)"
    by (simp only: set_map)
qed (simp add: postprocess_assignments_def)

lemma ordered_groups_facts:
  "mset (concat (ordered_groups m)) = mset (bt_keys m)" "[] \<notin> set (ordered_groups m)"
  "sorted (map (\<lambda>a. - int (length a)) (ordered_groups m))"
proof -
  have "mset (concat (ordered_groups m)) = mset (concat (map (sort \<circ> snd) (cluster_groups m)))"
    unfolding ordered_groups_def mset_concat sum_mset_sum_list [symmetric] mset_map by simp
  then show "mset (concat (ordered_groups m)) = mset (bt_keys m)"
    unfolding mset_concat_sorted cluster_groups_facts(2) .
  show "[] \<notin> set (ordered_groups m)"
    using sorted_nonempty [OF cluster_groups_facts(3)] unfolding ordered_groups_def by simp
  have "sorted (map (\<lambda>a. (- int (length a), a)) (ordered_groups m))" unfolding ordered_groups_def by simp
  then show "sorted (map (\<lambda>a. - int (length a)) (ordered_groups m))"
    by (auto simp: sorted_iff_nth_mono less_eq_prod_def) (metis order_le_less)
qed

lemma enumerate_labels:
  "c < length groups \<Longrightarrow>
     bt_get (map (\<lambda>(c, ms). (c, f c ms)) (map (\<lambda>(c, ms). (int c, ms)) (enumerate 0 groups))) (int c) = Some (f (int c) (groups ! c))"
proof -
  have "bt_get (map (\<lambda>(c, ms). (c, f c ms)) (map (\<lambda>(c, ms). (int c, ms)) (enumerate k groups))) (int (k + c))
      = Some (f (int (k + c)) (groups ! c))" if "c < length groups" for k
    using that
  proof (induction groups arbitrary: k c)
    case (Cons ms groups)
    show ?case
    proof (cases c)
      case (Suc d)
      then show ?thesis using Cons.IH [of d "Suc k"] Cons.prems by simp
    qed simp
  qed simp
  from this [of 0] show "c < length groups \<Longrightarrow> ?thesis" by simp
qed

lemma those_Some: "those (map f xs) = Some ys \<longleftrightarrow> list_all2 (\<lambda>x y. f x = Some y) xs ys"
  by (induction xs arbitrary: ys) (auto simp: list_all2_Cons1 split: option.splits)

lemma those_total: "(\<And>x. x \<in> set xs \<Longrightarrow> f x \<noteq> None) \<Longrightarrow> those (map f xs) \<noteq> None"
proof (induction xs)
  case (Cons x xs)
  then obtain y ys where "f x = Some y" "those (map f xs) = Some ys" by fastforce
  then show ?case by simp
qed simp

text \<open>The communities the code settles on, largest first.\<close>

definition settled :: "leiden \<Rightarrow> graph \<Rightarrow> (string \<times> nat) list \<Rightarrow> string list list" where
  "settled leiden g items = ordered_groups (postprocess_assignments leiden g (assign_rest (g_nodes g) (bt_of_list items)))"

lemma settled_facts:
  assumes law: "partitions leiden"
    and items: "items = [] \<or> leiden (weighted_edges g (n_id ` set (g_nodes g))) = Some items"
  shows "distinct (concat (settled leiden g items))" "set (concat (settled leiden g items)) = n_id ` set (g_nodes g)"
proof -
  let ?rest = "assign_rest (g_nodes g) (bt_of_list items)"
  have "fst ` set items \<subseteq> n_id ` set (g_nodes g)"
    using items
  proof
    assume "leiden (weighted_edges g (n_id ` set (g_nodes g))) = Some items"
    then show ?thesis using law weighted_edges_ends [of g "n_id ` set (g_nodes g)"] unfolding partitions_def by blast
  qed simp
  moreover have "fst ` set (bt_of_list items) = fst ` set items"
    using bt_has_of_list [of items] unfolding bt_has_iff set_eq_iff by (rule allI)
  ultimately have "set (bt_keys (bt_of_list items)) \<union> n_id ` set (g_nodes g) = n_id ` set (g_nodes g)"
    unfolding set_map by (simp only: Un_absorb1)
  then have rest: "bt_wf ?rest" "set (bt_keys ?rest) = n_id ` set (g_nodes g)"
    using assign_rest_keys [OF bt_wf_of_list, of "g_nodes g" items] by (simp_all only:)
  note post = postprocess_keys [OF law rest(1), of g]
  have "distinct (bt_keys (postprocess_assignments leiden g ?rest))" using post(1) by (rule bt_wf_distinct)
  then show "distinct (concat (settled leiden g items))"
    unfolding settled_def by (metis ordered_groups_facts(1) mset_eq_imp_distinct_iff)
  show "set (concat (settled leiden g items)) = n_id ` set (g_nodes g)"
    unfolding settled_def using ordered_groups_facts(1) post(2) rest(2) by (metis mset_eq_setD)
qed

lemma set_community_of:
  assumes distinct: "distinct (concat groups)" and c: "c < length groups" "n_id n \<in> set (groups ! c)"
    and labels_def: "labels = label_communities_by_hub g (map (\<lambda>(c, ms). (int c, ms)) (enumerate 0 groups))"
  shows "\<exists>label. set_community (bt_of_list (numbered groups)) labels n
    = Some (n\<lparr>n_community := Some (int c), n_extra := bt_put ''community_name'' (JStr label) (n_extra n)\<rparr>)"
proof -
  have "bt_get (bt_of_list (numbered groups)) (n_id n) = Some c" using numbered_get [OF distinct] c by blast
  moreover obtain label where "bt_get labels (int c) = Some label"
    unfolding labels_def label_communities_by_hub_def Let_def using enumerate_labels [OF c(1)] by blast
  ultimately show ?thesis by (intro exI [of _ label]) (simp add: set_community_def)
qed

text \<open>The node, but for its community and the name of that.\<close>

definition but_community :: "node \<Rightarrow> node" where
  "but_community n = n\<lparr>n_community := None, n_extra := bt_del ''community_name'' (n_extra n)\<rparr>"

text \<open>The number of nodes with a community.\<close>

definition community_size :: "graph \<Rightarrow> nat \<Rightarrow> nat" where
  "community_size g c = length (filter (\<lambda>n. n_community n = Some (int c)) (g_nodes g))"

definition in_community :: "string list list \<Rightarrow> node \<Rightarrow> node \<Rightarrow> bool" where
  "in_community groups n m \<longleftrightarrow>
     (\<exists>c < length groups. n_id n \<in> set (groups ! c)
        \<and> (\<exists>label. m = n\<lparr>n_community := Some (int c), n_extra := bt_put ''community_name'' (JStr label) (n_extra n)\<rparr>))"

lemma cluster_settles:
  assumes law: "partitions leiden" and nodes: "g_nodes g \<noteq> []"
  shows "cluster leiden g = Inl LeidenFailed \<or>
    (\<exists>groups nodes. cluster leiden g = Inr (g\<lparr>g_nodes := nodes\<rparr>) \<and> list_all2 (in_community groups) (g_nodes g) nodes
      \<and> distinct (concat groups) \<and> set (concat groups) = n_id ` set (g_nodes g)
      \<and> [] \<notin> set groups \<and> sorted (map (\<lambda>a. - int (length a)) groups))"
proof -
  let ?es = "weighted_edges g (n_id ` set (g_nodes g))"
  show ?thesis
  proof (cases "if ?es = [] then Some [] else leiden ?es")
    case None
    then show ?thesis using nodes by (simp add: cluster_def)
  next
    case (Some items)
    define groups where "groups = settled leiden g items"
    define labels where "labels = label_communities_by_hub g (map (\<lambda>(c, ms). (int c, ms)) (enumerate 0 groups))"
    let ?set = "set_community (bt_of_list (numbered groups)) labels"
    have "items = [] \<or> leiden ?es = Some items" using Some by (cases "?es = []") simp_all
    note facts = settled_facts [OF law this, folded groups_def]
    have put: "\<exists>m. ?set n = Some m \<and> in_community groups n m" if n: "n \<in> set (g_nodes g)" for n
    proof -
      from n facts(2) have "n_id n \<in> set (concat groups)" by simp
      then obtain c where c: "c < length groups" "n_id n \<in> set (groups ! c)"
        by (metis UN_E in_set_conv_nth set_concat)
      then show ?thesis
        using set_community_of [OF facts(1) c labels_def] c unfolding in_community_def by blast
    qed
    have "those (map ?set (g_nodes g)) \<noteq> None" by (rule those_total) (metis put option.distinct(1))
    then obtain ns where ns: "those (map ?set (g_nodes g)) = Some ns" by blast
    then have "list_all2 (\<lambda>n m. ?set n = Some m) (g_nodes g) ns" unfolding those_Some .
    then have "list_all2 (in_community groups) (g_nodes g) ns"
      unfolding list_all2_conv_all_nth using put by (metis nth_mem option.inject)
    moreover have "cluster leiden g = Inr (g\<lparr>g_nodes := ns\<rparr>)"
      using nodes Some ns unfolding cluster_def Let_def labels_def groups_def settled_def by simp
    ultimately show ?thesis using facts ordered_groups_facts(2,3) unfolding groups_def settled_def by blast
  qed
qed

lemma del_put: "bt_del k (bt_put k v m) = bt_del k m"
  by (induction m) (auto simp: bt_del_def)

lemma one_group:
  "distinct (concat (groups :: 'a :: linorder list list)) \<Longrightarrow> c < length groups \<Longrightarrow> i \<in> set (groups ! c) \<Longrightarrow> d < length groups \<Longrightarrow> i \<in> set (groups ! d)
     \<Longrightarrow> c = d"
  using numbered_get [of groups i c] numbered_get [of groups i d] by simp

lemma length_filter_all2:
  "list_all2 P xs ys \<Longrightarrow> (\<And>x y. P x y \<Longrightarrow> q y \<longleftrightarrow> p x) \<Longrightarrow> length (filter q ys) = length (filter p xs)"
  by (induction rule: list_all2_induct) auto

lemma community_size_group:
  assumes all: "list_all2 (in_community groups) (g_nodes g) ns" and distinct: "distinct (concat groups)"
    and ids: "set (concat groups) = n_id ` set (g_nodes g)" "distinct (map n_id (g_nodes g))" and c: "c < length groups"
  shows "community_size (g\<lparr>g_nodes := ns\<rparr>) c = length (groups ! c)"
proof -
  have "in_community groups n m \<Longrightarrow> n_community m = Some (int c) \<longleftrightarrow> n_id n \<in> set (groups ! c)" for n m
    unfolding in_community_def using one_group [OF distinct c] by auto metis
  from length_filter_all2 [OF all this]
  have "length (filter (\<lambda>m. n_community m = Some (int c)) ns) = length (filter (\<lambda>n. n_id n \<in> set (groups ! c)) (g_nodes g))" .
  also have "\<dots> = card (n_id ` {n \<in> set (g_nodes g). n_id n \<in> set (groups ! c)})"
    using ids(2) by (subst card_image) (auto simp: distinct_map distinct_length_filter Int_def conj_commute intro: inj_on_subset)
  also have "n_id ` {n \<in> set (g_nodes g). n_id n \<in> set (groups ! c)} = set (groups ! c)"
    using ids(1) nth_mem [OF c] by force
  also have "card (set (groups ! c)) = length (groups ! c)"
    using distinct_group [OF distinct nth_mem [OF c]] by (rule distinct_card)
  finally show ?thesis by (simp add: community_size_def)
qed

lemma community_size_beyond:
  assumes "list_all2 (in_community groups) (g_nodes g) ns" and "length groups \<le> c"
  shows "community_size (g\<lparr>g_nodes := ns\<rparr>) c = 0"
proof -
  have "\<forall>m \<in> set ns. n_community m \<noteq> Some (int c)"
    using assms by (fastforce simp: in_community_def list_all2_conv_all_nth in_set_conv_nth)
  then show ?thesis by (simp add: community_size_def filter_empty_conv)
qed

text \<open>
  C31: clustering never runs into a missing key: either the partition fails, or every node gets a community,
  the communities are numbered without a gap from the largest to the smallest, and nothing else of the
  graph changes but the name of the community in each node.
\<close>

theorem cluster_partitions:
  assumes law: "partitions leiden" and ids: "distinct (map n_id (g_nodes g))"
  shows "cluster leiden g = Inl LeidenFailed \<or>
    (\<exists>ns k. cluster leiden g = Inr (g\<lparr>g_nodes := ns\<rparr>) \<and> map but_community ns = map but_community (g_nodes g)
       \<and> n_community ` set ns = (\<lambda>c. Some (int c)) ` {..<k}
       \<and> (\<forall>c d. c \<le> d \<longrightarrow> community_size (g\<lparr>g_nodes := ns\<rparr>) d \<le> community_size (g\<lparr>g_nodes := ns\<rparr>) c))"
proof (cases "g_nodes g = []")
  case True
  then show ?thesis by (auto simp: cluster_def community_size_def intro!: exI [of _ "0 :: nat"] exI [of _ "[]"])
next
  case False
  from cluster_settles [OF law False] consider "cluster leiden g = Inl LeidenFailed"
    | groups ns where "cluster leiden g = Inr (g\<lparr>g_nodes := ns\<rparr>)" "list_all2 (in_community groups) (g_nodes g) ns"
      "distinct (concat groups)" "set (concat groups) = n_id ` set (g_nodes g)" "[] \<notin> set groups"
      "sorted (map (\<lambda>a. - int (length a)) groups)"
    by blast
  then show ?thesis
  proof cases
    case (2 groups ns)
    note size = community_size_group [OF 2(2-4) ids] and beyond = community_size_beyond [OF 2(2)]
    have "map but_community ns = map but_community (g_nodes g)"
      using 2(2) by (induction rule: list_all2_induct) (auto simp: in_community_def but_community_def del_put)
    moreover have "n_community ` set ns = (\<lambda>c. Some (int c)) ` {..<length groups}"
    proof (intro equalityI subsetI)
      fix x
      assume "x \<in> n_community ` set ns"
      then show "x \<in> (\<lambda>c. Some (int c)) ` {..<length groups}"
        using 2(2) by (fastforce simp: in_community_def list_all2_conv_all_nth in_set_conv_nth)
    next
      fix x
      assume "x \<in> (\<lambda>c. Some (int c)) ` {..<length groups}"
      then obtain c where c: "c < length groups" "x = Some (int c)" by auto
      have "groups ! c \<noteq> []" using 2(5) nth_mem [OF c(1)] by auto
      then have "filter (\<lambda>n. n_community n = Some (int c)) ns \<noteq> []"
        using size [OF c(1)] unfolding community_size_def by auto
      then show "x \<in> n_community ` set ns" using c(2) by (auto simp: filter_empty_conv intro: rev_image_eqI)
    qed
    moreover have "community_size (g\<lparr>g_nodes := ns\<rparr>) d \<le> community_size (g\<lparr>g_nodes := ns\<rparr>) c" if "c \<le> d" for c d
    proof (cases "d < length groups")
      case True
      then show ?thesis using size [of c] size [of d] that sorted_nth_mono [OF 2(6), of c d] by simp
    qed (simp add: beyond)
    ultimately show ?thesis using 2(1) by blast
  qed simp
qed

section \<open>The numbers of a previous graph are kept where they fit\<close>

lemma next_free_free: "\<not> bt_has used (next_free used n)"
  by (induction used n rule: next_free.induct) (subst next_free.simps, simp)

text \<open>The state of the matching: the numbers given are those in use, once each.\<close>

definition matching :: "remap_state \<Rightarrow> bool" where
  "matching st \<longleftrightarrow> inj_on (bt_get (fst st)) (dom (bt_get (fst st))) \<and> (\<forall>c n. bt_get (fst st) c = Some n \<longrightarrow> bt_has (snd st) n)"

lemma matching_put:
  "matching (m, u) \<Longrightarrow> \<not> bt_has u n \<Longrightarrow> matching (bt_put c n m, bt_put n () u)"
  by (auto simp: matching_def inj_on_def)

definition answered :: "(nat \<times> int \<times> int) list \<Rightarrow> (int, int) btree \<Rightarrow> nat \<times> int \<times> int \<Rightarrow> bool" where
  "answered xs m x \<longleftrightarrow>
     (case x of (n, old, new) \<Rightarrow>
        (\<exists>n' old'. (n', old', new) \<in> set xs \<and> n \<le> n' \<and> bt_get m new = Some old')
        \<or> (\<exists>n' new'. (n', old, new') \<in> set xs \<and> n \<le> n' \<and> bt_get m new' = Some old))"

definition from_list :: "(nat \<times> int \<times> int) list \<Rightarrow> remap_state \<Rightarrow> bool" where
  "from_list xs st \<longleftrightarrow>
     (\<forall>new old. bt_get (fst st) new = Some old \<longrightarrow> (\<exists>n. (n, old, new) \<in> set xs))
     \<and> (\<forall>old. bt_has (snd st) old \<longrightarrow> (\<exists>new. bt_get (fst st) new = Some old))"

lemma answered_more: "answered xs m x \<Longrightarrow> \<not> bt_has m new \<Longrightarrow> answered (xs @ ys) (bt_put new old m) x"
  by (cases x) (fastforce simp: answered_def bt_has_def)

lemma from_listI:
  "(\<And>new old. bt_get m new = Some old \<Longrightarrow> \<exists>n. (n, old, new) \<in> set xs)
     \<Longrightarrow> (\<And>old. bt_has u old \<Longrightarrow> \<exists>new. bt_get m new = Some old) \<Longrightarrow> from_list xs (m, u)"
  by (simp add: from_list_def)

lemma from_listD:
  assumes "from_list xs (m, u)"
  shows "bt_get m new = Some old \<Longrightarrow> \<exists>n. (n, old, new) \<in> set xs" "bt_has u old \<Longrightarrow> \<exists>new. bt_get m new = Some old"
  using assms by (simp_all add: from_list_def)

lemma from_list_put:
  assumes "from_list xs (m, u)" "\<not> bt_has m new"
  shows "from_list (xs @ [(n, old, new)]) (bt_put new old m, bt_put old () u)"
proof (rule from_listI)
  fix b a
  assume "bt_get (bt_put new old m) b = Some a"
  then show "\<exists>n'. (n', a, b) \<in> set (xs @ [(n, old, new)])"
    using from_listD(1) [OF assms(1), of b a] by (auto split: if_splits)
next
  fix a
  assume "bt_has (bt_put old () u) a"
  then show "\<exists>b. bt_get (bt_put new old m) b = Some a"
    using from_listD(2) [OF assms(1), of a] assms(2) by (auto simp: bt_has_def) (metis option.distinct(1))
qed

lemma match_overlaps:
  assumes "sorted (map (\<lambda>(n, _). - int n) xs)"
  shows "matching (fold match_overlap xs ([], [])) \<and> from_list xs (fold match_overlap xs ([], []))
    \<and> (\<forall>x \<in> set xs. answered xs (fst (fold match_overlap xs ([], []))) x)"
  using assms
proof (induction xs rule: rev_induct)
  case Nil
  then show ?case by (simp add: matching_def from_list_def)
next
  case (snoc x xs)
  obtain n old new where x: "x = (n, old, new)" by (cases x)
  obtain m u where st: "fold match_overlap xs ([], []) = (m, u)" by fastforce
  have IH: "matching (m, u)" "from_list xs (m, u)" "\<forall>x \<in> set xs. answered xs m x"
    using snoc by (simp_all add: st sorted_append)
  have below: "n \<le> n'" if "(n', old', new') \<in> set xs" for n' old' new'
    using snoc.prems that by (auto simp: x sorted_append)
  show ?case
  proof (cases "bt_has m new \<or> bt_has u old")
    case True
    have "answered (xs @ [x]) m x"
      using True
    proof
      assume "bt_has m new"
      then obtain a where "bt_get m new = Some a" unfolding bt_has_def by blast
      then show ?thesis using from_listD(1) [OF IH(2), of new a] below unfolding answered_def x by auto
    next
      assume "bt_has u old"
      then obtain b where "bt_get m b = Some old" using from_listD(2) [OF IH(2)] by blast
      moreover obtain n' where "(n', old, b) \<in> set xs" using from_listD(1) [OF IH(2) \<open>bt_get m b = Some old\<close>] by blast
      moreover from this have "n \<le> n'" by (rule below)
      ultimately show ?thesis unfolding answered_def x by auto
    qed
    moreover have "answered (xs @ [x]) m y" if "y \<in> set xs" for y
      using IH(3) that by (fastforce simp: answered_def)
    moreover have "from_list (xs @ [x]) (m, u)"
      using from_listD [OF IH(2)] by (intro from_listI) (simp_all, blast)
    moreover have "fold match_overlap (xs @ [x]) ([], []) = (m, u)" using True st by (simp add: x match_overlap_def [of "(n, old, new)"])
    ultimately show ?thesis using IH(1) by (simp del: fold_append)
  next
    case False
    let ?m = "bt_put new old m" and ?u = "bt_put old () u"
    have "answered (xs @ [x]) ?m x" by (auto simp: answered_def x)
    moreover have "answered (xs @ [x]) ?m y" if "y \<in> set xs" for y
      using IH(3) that False by (intro answered_more) simp_all
    moreover have "from_list (xs @ [x]) (?m, ?u)" unfolding x using False by (intro from_list_put [OF IH(2)]) simp
    moreover have "matching (?m, ?u)" using IH(1) False by (auto intro: matching_put)
    moreover have "fold match_overlap (xs @ [x]) ([], []) = (?m, ?u)" using False st by (simp add: x match_overlap_def [of "(n, old, new)"])
    ultimately show ?thesis by (simp del: fold_append)
  qed
qed

lemma number_all:
  assumes "matching st" "distinct cs" "\<forall>c \<in> set cs. \<not> bt_has (fst st) c"
  shows "matching (fst (fold number_unmatched cs (st, k)))
    \<and> bt_get (fst st) \<subseteq>\<^sub>m bt_get (fst (fst (fold number_unmatched cs (st, k))))
    \<and> (\<forall>c. bt_has (fst (fst (fold number_unmatched cs (st, k)))) c \<longleftrightarrow> c \<in> set cs \<or> bt_has (fst st) c)"
  using assms
proof (induction cs arbitrary: st k)
  case (Cons c cs)
  obtain m u where st: "st = (m, u)" by fastforce
  let ?n = "next_free u k"
  let ?st = "(bt_put c ?n m, bt_put ?n () u)"
  have step: "fold number_unmatched (c # cs) (st, k) = fold number_unmatched cs (?st, ?n + 1)"
    by (simp add: st number_unmatched_def Let_def)
  have "bt_get m \<subseteq>\<^sub>m bt_get (bt_put c ?n m)"
    using Cons.prems(3) by (simp add: st bt_has_def map_le_def) (metis domIff)
  moreover have "matching ?st" using Cons.prems(1) by (auto simp: st next_free_free intro: matching_put)
  ultimately show ?case
    using Cons.IH [of ?st "?n + 1"] Cons.prems map_le_trans [of "bt_get m" "bt_get (bt_put c ?n m)"]
    unfolding step by (auto simp: st simp del: fun_upd_apply)
qed simp

lemma mset_of_list_distinct: "distinct (map fst kvs) \<Longrightarrow> mset (bt_of_list kvs) = mset kvs"
proof -
  have put: "k \<notin> fst ` set m \<Longrightarrow> mset (bt_put k v m) = add_mset (k, v) (mset m)" for k v and m :: "('a :: linorder, 'b) btree"
    by (induction m) auto
  have "distinct (map fst kvs) \<Longrightarrow> fst ` set kvs \<inter> fst ` set m = {} \<Longrightarrow>
      mset (fold (\<lambda>(k, v). bt_put k v) kvs m) = mset m + mset kvs" for kvs and m :: "('a :: linorder, 'b) btree"
    by (induction kvs arbitrary: m) (auto simp: put)
  from this [of kvs "[]"] show "distinct (map fst kvs) \<Longrightarrow> ?thesis" by (simp add: bt_of_list_def)
qed

lemma overlaps_mem:
  "(n, old, new) \<in> set (overlaps olds groups) \<longleftrightarrow>
     (\<exists>os ns. (old, os) \<in> set olds \<and> (new, ns) \<in> set groups \<and> n = card (set os \<inter> set ns) \<and> set os \<inter> set ns \<noteq> {})"
  by (force simp: overlaps_def overlap_of_def card_gt_0_iff)

lemma bt_wf_same: "bt_wf m \<Longrightarrow> (k, v) \<in> set m \<Longrightarrow> (k, w) \<in> set m \<Longrightarrow> v = w"
  by (metis bt_get_mem option.inject)

lemma old_groups_wf: "bt_wf (old_groups previous)"
proof -
  have "old_groups previous = fold (\<lambda>x. push_to (snd x) (fst x)) previous []"
    unfolding old_groups_def by (rule arg_cong [where f = "\<lambda>f. fold f previous []"]) auto
  then show ?thesis using pushed_wf [OF bt_wf_Nil] by simp
qed

lemma remap_mapping_facts:
  assumes wf: "bt_wf groups" and m_def: "m = remap_mapping groups previous"
  shows "inj_on (bt_get m) (dom (bt_get m))" "\<forall>g \<in> set groups. bt_has m (fst g)"
    "\<forall>x \<in> set (overlaps (old_groups previous) groups). answered (overlaps (old_groups previous) groups) m x"
proof -
  let ?os = "overlaps (old_groups previous) groups"
  let ?st = "fold match_overlap ?os ([], [])"
  let ?un = "map fst (sort_key (\<lambda>(_, nodes). (- int (length nodes), nodes))
            (filter (\<lambda>(c, _). \<not> bt_has (fst ?st) c) groups))"
  have "sorted (map (\<lambda>(n, old_id, new_id). (- int n, old_id, new_id)) ?os)" unfolding overlaps_def by simp
  then have "sorted (map (\<lambda>(n, _). - int n) ?os)"
    by (auto simp: sorted_iff_nth_mono less_eq_prod_def split: prod.splits) (metis order_le_less)
  note matched = match_overlaps [OF this]
  have un: "distinct ?un" "set ?un = {c \<in> fst ` set groups. \<not> bt_has (fst ?st) c}"
  proof -
    have "distinct (map fst (filter (\<lambda>(c, _). \<not> bt_has (fst ?st) c) groups))"
      using bt_wf_distinct [OF wf] by (rule distinct_map_filter)
    then show "distinct ?un" by (simp add: distinct_map)
  qed force
  have m: "m = fst (fst (fold number_unmatched ?un (?st, 0)))"
    unfolding m_def remap_mapping_def Let_def ..
  have "matching ?st" using matched by blast
  note all = number_all [OF this un(1), of 0, folded m]
  then show "inj_on (bt_get m) (dom (bt_get m))" using un(2) by (simp add: matching_def m)
  have le: "bt_get (fst ?st) \<subseteq>\<^sub>m bt_get m" and has: "\<And>c. bt_has m c \<longleftrightarrow> c \<in> set ?un \<or> bt_has (fst ?st) c"
    using all un(2) by auto
  show "\<forall>g \<in> set groups. bt_has m (fst g)" unfolding has un(2) by auto
  have keep: "bt_get (fst ?st) c = Some n \<Longrightarrow> bt_get m c = Some n" for c n
    using le by (metis map_le_def domI)
  show "\<forall>x \<in> set ?os. answered ?os m x"
    using matched keep unfolding answered_def by (fastforce split: prod.splits)
qed

text \<open>
  C32: Renumbering the communities after a previous graph loses none of them, and the old numbers go to the
  communities that share most: where an old and a new community share members, either the new one has the
  number of an old one with which it shares as many, or the old number is with a new one that shares as many.
\<close>

theorem remap_keeps_best_numbers:
  assumes wf: "bt_wf groups"
  shows "mset (map snd (remap_community_map groups previous)) = mset (map (sort \<circ> snd) groups)
    \<and> (\<forall>(old, os) \<in> set (old_groups previous). \<forall>(new, ns) \<in> set groups. set os \<inter> set ns \<noteq> {} \<longrightarrow>
        (\<exists>(old', os') \<in> set (old_groups previous).
           (old', sort ns) \<in> set (remap_community_map groups previous) \<and> card (set os \<inter> set ns) \<le> card (set os' \<inter> set ns))
        \<or> (\<exists>(new', ns') \<in> set groups.
           (old, sort ns') \<in> set (remap_community_map groups previous) \<and> card (set os \<inter> set ns) \<le> card (set os \<inter> set ns')))"
  (is "_ \<and> ?greedy")
proof
  let ?m = "remap_mapping groups previous" and ?old = "old_groups previous"
  let ?kvs = "map (\<lambda>(c, nodes). (the (bt_get ?m c), sort nodes)) groups"
  note facts = remap_mapping_facts [OF wf refl, of previous]
  have "inj_on (the \<circ> bt_get ?m) (fst ` set groups)"
  proof (rule inj_onI)
    fix x y
    assume "x \<in> fst ` set groups" "y \<in> fst ` set groups" and same: "(the \<circ> bt_get ?m) x = (the \<circ> bt_get ?m) y"
    then obtain a b where ab: "bt_get ?m x = Some a" "bt_get ?m y = Some b" using facts(2) unfolding bt_has_def by blast
    then have "bt_get ?m x = bt_get ?m y" using same by simp
    then show "x = y" using inj_onD [OF facts(1)] ab by blast
  qed
  then have "distinct (map fst ?kvs)"
    using bt_wf_distinct [OF wf] by (simp add: distinct_map inj_on_def case_prod_unfold o_def)
  note result = mset_of_list_distinct [OF this, folded remap_community_map_def [unfolded Let_def, of groups previous]]
  have "mset (map snd (remap_community_map groups previous)) = image_mset snd (mset ?kvs)" unfolding mset_map result ..
  also have "\<dots> = mset (map snd ?kvs)" by (simp only: mset_map)
  also have "map snd ?kvs = map (sort \<circ> snd) groups" by auto
  finally show "mset (map snd (remap_community_map groups previous)) = mset (map (sort \<circ> snd) groups)" .
  have numbered: "(n, sort ns) \<in> set (remap_community_map groups previous)" if "(c, ns) \<in> set groups" "bt_get ?m c = Some n" for c ns n
    unfolding mset_eq_setD [OF result] using that by force
  have "(\<exists>(old', os') \<in> set ?old. (old', sort ns) \<in> set (remap_community_map groups previous) \<and> card (set os \<inter> set ns) \<le> card (set os' \<inter> set ns))
      \<or> (\<exists>(new', ns') \<in> set groups. (old, sort ns') \<in> set (remap_community_map groups previous) \<and> card (set os \<inter> set ns) \<le> card (set os \<inter> set ns'))"
    if here: "(old, os) \<in> set ?old" "(new, ns) \<in> set groups" "set os \<inter> set ns \<noteq> {}" for old os new ns
  proof -
    have "(card (set os \<inter> set ns), old, new) \<in> set (overlaps ?old groups)" using here unfolding overlaps_mem by blast
    then have "answered (overlaps ?old groups) ?m (card (set os \<inter> set ns), old, new)" using facts(3) by blast
    then consider n' old' where "(n', old', new) \<in> set (overlaps ?old groups)" "card (set os \<inter> set ns) \<le> n'" "bt_get ?m new = Some old'"
      | n' new' where "(n', old, new') \<in> set (overlaps ?old groups)" "card (set os \<inter> set ns) \<le> n'" "bt_get ?m new' = Some old"
      unfolding answered_def by blast
    then show ?thesis
    proof cases
      case (1 n' old')
      then obtain os' where "(old', os') \<in> set ?old" "n' = card (set os' \<inter> set ns)"
        using bt_wf_same [OF wf here(2)] unfolding overlaps_mem by blast
      then show ?thesis using numbered [OF here(2) 1(3)] 1(2) by blast
    next
      case (2 n' new')
      then obtain ns' where "(new', ns') \<in> set groups" "n' = card (set os \<inter> set ns')"
        using bt_wf_same [OF old_groups_wf here(1)] unfolding overlaps_mem by blast
      then show ?thesis using numbered [OF _ 2(3)] 2(2) by blast
    qed
  qed
  then show ?greedy by blast
qed

section \<open>On concrete graphs\<close>

text \<open>A partition with a single cluster.\<close>

definition one_cluster :: leiden where
  "one_cluster es = Some (map (\<lambda>l. (l, 0)) (remdups (map fst es @ map (fst \<circ> snd) es)))"

lemma one_cluster_partitions: "partitions one_cluster"
  by (auto simp: partitions_def one_cluster_def o_def image_iff) force+

lemma cluster_partitions_witness:
  "\<exists>ns k. cluster one_cluster sample_graph = Inr (sample_graph\<lparr>g_nodes := ns\<rparr>)
     \<and> map n_community ns = [Some 0, Some 0] \<and> n_community ` set ns = (\<lambda>c. Some (int c)) ` {..<k}"
proof -
  have run: "map_sum id (map n_community \<circ> g_nodes) (cluster one_cluster sample_graph) = Inr [Some 0, Some 0]" by code_simp
  have "distinct (map n_id (g_nodes sample_graph))" by (simp add: sample_graph_def plain_node_def)
  note all = cluster_partitions [OF one_cluster_partitions this]
  have "cluster one_cluster sample_graph \<noteq> Inl LeidenFailed" using run by auto
  then obtain ns k where "cluster one_cluster sample_graph = Inr (sample_graph\<lparr>g_nodes := ns\<rparr>)"
      "n_community ` set ns = (\<lambda>c. Some (int c)) ` {..<k}"
    using all by blast
  moreover from this have "map n_community ns = [Some 0, Some 0]" using run by simp
  ultimately show ?thesis by (intro exI conjI)
qed

lemma remap_keeps_best_numbers_witness:
  "mset (map snd (remap_community_map [(0, [''b'', ''a'']), (1, [''c''])] [(''a'', 3), (''c'', 0)]))
     = mset [[''a'', ''b''], [''c'']]
   \<and> remap_community_map [(0, [''b'', ''a'']), (1, [''c''])] [(''a'', 3), (''c'', 0)] = [(0, [''c'']), (3, [''a'', ''b''])]"
proof -
  have "bt_wf [(0 :: int, [''b'', ''a'']), (1, [''c''])]" by (simp add: bt_wf_def)
  from remap_keeps_best_numbers [OF this, of "[(''a'', 3), (''c'', 0)]"]
  have "mset (map snd (remap_community_map [(0, [''b'', ''a'']), (1, [''c''])] [(''a'', 3), (''c'', 0)]))
     = mset (map (sort \<circ> snd) [(0 :: int, [''b'', ''a'']), (1, [''c''])])" by blast
  moreover have "map (sort \<circ> snd) [(0 :: int, [''b'', ''a'']), (1, [''c''])] = [[''a'', ''b''], [''c'']]" by code_simp
  moreover have "remap_community_map [(0, [''b'', ''a'']), (1, [''c''])] [(''a'', 3), (''c'', 0)] = [(0, [''c'']), (3, [''a'', ''b''])]"
    by code_simp
  ultimately show ?thesis by simp
qed

lemma cohesion_is_proportion_witness:
  "cohesion_score sample_graph [''a'', ''b''] \<le> 1 \<and> cohesion_score sample_graph [''a'', ''b''] = 1"
proof -
  have "distinct [''a'', ''b'']" by simp
  from cohesion_is_proportion [OF this, of sample_graph]
  have "cohesion_score sample_graph [''a'', ''b''] \<le> 1" by blast
  moreover have "cohesion_score sample_graph [''a'', ''b''] = 1"
    by (simp add: cohesion_score_def sample_graph_def plain_edge_def true_source_def true_target_def get_str_def)
  ultimately show ?thesis by blast
qed

end
