(* ===== verification/Repos.thy ===== *)
theory Repos
  imports Model
begin

text \<open>
  Graphs of several repositories in one (\<open>graphoxide-graph/src/merge_repos.rs\<close> and
  \<open>global_graph.rs\<close>): the tags that tell repositories apart, the merge of their graphs, and the global
  graph to which a repository is added and from which it is removed. Reading and writing the files of the
  global graph is left out; an operation takes and returns their contents.
\<close>

section \<open>Tags\<close>

definition tag_char :: "char \<Rightarrow> char" where
  "tag_char c = (if is_alphanumeric c \<or> c = CHR ''-'' \<or> c = CHR ''_'' then c else CHR ''_'')"

definition repo_components :: "string \<Rightarrow> string list" where
  "repo_components path =
     (let cs = path_components path;
          repository = (case Option.bind (components_parent cs) components_parent of
              Some r \<Rightarrow> r
            | None \<Rightarrow> (case components_parent cs of Some r \<Rightarrow> r | None \<Rightarrow> cs))
      in map (map tag_char) (filter (\<lambda>s. s \<noteq> [] \<and> s \<noteq> ''/'') (map snd repository)))"

definition tag_candidate :: "nat \<Rightarrow> string list \<Rightarrow> string" where
  "tag_candidate depth parts =
     (let value = join_with ''__'' (drop (length parts - depth) parts) in if value = [] then ''repo'' else value)"

definition numbered_tag :: "nat \<Rightarrow> string list \<Rightarrow> string" where
  "numbered_tag index parts = (if parts = [] then ''repo'' else join_with ''__'' parts) @ ''__'' @ show_nat (index + 1)"

definition distinct_repo_tags :: "string list \<Rightarrow> string list" where
  "distinct_repo_tags paths =
     (let components = map repo_components paths;
          max_depth = max 1 (fold max (map length components) 0)
      in case find (\<lambda>depth. distinct (map (tag_candidate depth) components)) [1..<Suc max_depth] of
           Some depth \<Rightarrow> map (tag_candidate depth) components
         | None \<Rightarrow> map (\<lambda>(index, parts). numbered_tag index parts) (enumerate 0 components))"

section \<open>The merge\<close>

definition with_tag :: "string \<Rightarrow> string \<Rightarrow> string" where
  "with_tag tag i = tag @ ''::'' @ i"

definition tag_remap :: "string \<Rightarrow> node list \<Rightarrow> (string, string) btree" where
  "tag_remap tag nodes = bt_of_list (map (\<lambda>n. (n_id n, with_tag tag (n_id n))) nodes)"

definition remapped :: "string \<Rightarrow> (string, string) btree \<Rightarrow> string \<Rightarrow> string" where
  "remapped tag remap i = (case bt_get remap i of Some j \<Rightarrow> j | None \<Rightarrow> with_tag tag i)"

definition merge_repo_node :: "string \<Rightarrow> node \<Rightarrow> node" where
  "merge_repo_node tag n = n\<lparr>n_id := with_tag tag (n_id n), n_extra := bt_put ''repo'' (JStr tag) (n_extra n)\<rparr>"

definition merge_repo_edge :: "string \<Rightarrow> (string, string) btree \<Rightarrow> edge \<Rightarrow> edge" where
  "merge_repo_edge tag remap e =
     e\<lparr>e_source := remapped tag remap (true_source e), e_target := remapped tag remap (true_target e),
       e_extra := bt_put ''repo'' (JStr tag) (bt_del ''_tgt'' (bt_del ''_src'' (e_extra e)))\<rparr>"

definition tag_id :: "string \<Rightarrow> jobject \<Rightarrow> jobject" where
  "tag_id tag m = (case get_str m ''id'' of None \<Rightarrow> m | Some i \<Rightarrow> bt_put ''id'' (JStr (with_tag tag i)) m)"

definition merge_repo_hyperedge :: "string \<Rightarrow> (string, string) btree \<Rightarrow> json \<Rightarrow> json" where
  "merge_repo_hyperedge tag remap h =
     map_object (\<lambda>m. bt_put ''repo'' (JStr tag) (modify ''nodes''
       (map_array (\<lambda>v. case as_str v of None \<Rightarrow> v | Some i \<Rightarrow> JStr (remapped tag remap i))) (tag_id tag m))) h"

definition merge_repo :: "string \<times> graph \<Rightarrow> graph \<Rightarrow> graph" where
  "merge_repo tg merged =
     (let (tag, g) = tg; remap = tag_remap tag (g_nodes g)
      in merged\<lparr>g_nodes := g_nodes merged @ map (merge_repo_node tag) (g_nodes g),
                g_links := g_links merged @ map (merge_repo_edge tag remap) (g_links g),
                g_hyperedges := g_hyperedges merged @ map (merge_repo_hyperedge tag remap) (g_hyperedges g)\<rparr>)"

definition empty_graph :: graph where
  "empty_graph = \<lparr>g_directed = False, g_multigraph = False, g_nodes = [], g_links = [], g_hyperedges = [], g_extra = []\<rparr>"

definition merge_repository_graphs :: "(string \<times> graph) list \<Rightarrow> graph" where
  "merge_repository_graphs inputs =
     (let tags = distinct_repo_tags (map fst inputs)
      in (fold merge_repo (zip tags (map snd inputs)) empty_graph)\<lparr>g_directed := False, g_multigraph := False\<rparr>)"

section \<open>Tags tell repositories apart\<close>

definition no_colon :: "string \<Rightarrow> bool" where
  "no_colon s \<longleftrightarrow> CHR '':'' \<notin> set s"

lemma tag_char_no_colon: "tag_char c \<noteq> CHR '':''"
proof -
  have "\<not> is_alphanumeric (CHR '':'')" by code_simp
  then show ?thesis by (auto simp: tag_char_def)
qed

lemma set_join_with: "set (join_with sep ps) \<subseteq> set sep \<union> \<Union> (set ` set ps)"
  by (induction sep ps rule: join_with.induct) auto

lemma no_colon_join:
  assumes "\<forall>p \<in> set ps. no_colon p" "no_colon sep"
  shows "no_colon (join_with sep ps)"
  using set_join_with [of sep ps] assms by (auto simp: no_colon_def)

lemma no_colon_component: "p \<in> set (repo_components path) \<Longrightarrow> no_colon p"
  using tag_char_no_colon by (fastforce simp: repo_components_def no_colon_def Let_def)

lemma no_colon_number: "no_colon (show_nat n)"
  using digits_show_nat [of "CHR '':''" n] by (auto simp: no_colon_def ascii_digit_def less_eq_char_def)

lemma no_colon_candidate: "\<forall>p \<in> set parts. no_colon p \<Longrightarrow> no_colon (tag_candidate depth parts)"
proof -
  assume "\<forall>p \<in> set parts. no_colon p"
  then have "no_colon (join_with ''__'' (drop (length parts - depth) parts))"
    by (intro no_colon_join) (auto simp: no_colon_def dest: in_set_dropD)
  then show ?thesis by (simp add: tag_candidate_def Let_def no_colon_def)
qed

lemma no_colon_numbered: "\<forall>p \<in> set parts. no_colon p \<Longrightarrow> no_colon (numbered_tag i parts)"
proof -
  assume "\<forall>p \<in> set parts. no_colon p"
  then have "no_colon (join_with ''__'' parts)" by (intro no_colon_join) (auto simp: no_colon_def)
  then show ?thesis using no_colon_number [of "i + 1"] by (simp add: numbered_tag_def no_colon_def)
qed

lemma numbered_tag_inj: "numbered_tag i p = numbered_tag j q \<Longrightarrow> i = j"
proof -
  have suffix: "takeWhile (\<lambda>c. c \<noteq> CHR ''_'') (rev (numbered_tag k r)) = rev (show_nat (k + 1))" for k r
  proof -
    have "\<forall>c \<in> set (rev (show_nat (k + 1))). c \<noteq> CHR ''_''"
      using digits_show_nat [of "CHR ''_''" "k + 1"] by (auto simp: ascii_digit_def less_eq_char_def)
    then show ?thesis by (simp add: numbered_tag_def takeWhile_stop)
  qed
  assume "numbered_tag i p = numbered_tag j q"
  then have "show_nat (i + 1) = show_nat (j + 1)" using suffix [of i p] suffix [of j q] by simp
  then have "i + 1 = j + 1" by (rule show_nat_inj)
  then show ?thesis by simp
qed

lemma repo_tags:
  shows "distinct (distinct_repo_tags paths)" "length (distinct_repo_tags paths) = length paths"
    "tag \<in> set (distinct_repo_tags paths) \<Longrightarrow> no_colon tag"
proof -
  let ?cs = "map repo_components paths"
  let ?found = "find (\<lambda>depth. distinct (map (tag_candidate depth) ?cs)) [1..<Suc (max 1 (fold max (map length ?cs) 0))]"
  have parts: "\<forall>ps \<in> set ?cs. \<forall>p \<in> set ps. no_colon p" using no_colon_component by auto
  consider (none) "distinct_repo_tags paths = map (\<lambda>(i, ps). numbered_tag i ps) (enumerate 0 ?cs)"
    | (some) depth where "distinct_repo_tags paths = map (tag_candidate depth) ?cs" "distinct (map (tag_candidate depth) ?cs)"
  proof (cases ?found)
    case None
    then show ?thesis using that(1) by (simp add: distinct_repo_tags_def Let_def del: upt_Suc)
  next
    case (Some depth)
    then have "distinct (map (tag_candidate depth) ?cs)" by (auto simp: find_Some_iff)
    moreover have "distinct_repo_tags paths = map (tag_candidate depth) ?cs"
      using Some by (simp add: distinct_repo_tags_def Let_def del: upt_Suc)
    ultimately show ?thesis by (rule that(2) [rotated])
  qed
  note cases = this
  show "distinct (distinct_repo_tags paths)"
  proof (cases rule: cases)
    case none
    have "inj_on (\<lambda>(i, ps). numbered_tag i ps) (set (enumerate 0 ?cs))"
      by (rule inj_onI) (auto simp: in_set_enumerate_eq dest: numbered_tag_inj)
    then show ?thesis by (simp add: none distinct_map)
  qed simp
  show "length (distinct_repo_tags paths) = length paths" by (cases rule: cases) simp_all
  show "tag \<in> set (distinct_repo_tags paths) \<Longrightarrow> no_colon tag"
  proof (cases rule: cases)
    case none
    assume "tag \<in> set (distinct_repo_tags paths)"
    then obtain i where "i < length ?cs" "tag = numbered_tag i (?cs ! i)"
      unfolding none by (auto simp: in_set_enumerate_eq)
    then show ?thesis using parts nth_mem [of i ?cs] by (metis no_colon_numbered)
  next
    case (some depth)
    assume "tag \<in> set (distinct_repo_tags paths)"
    then show ?thesis unfolding some(1) using parts by (auto intro!: no_colon_candidate)
  qed
qed

lemma with_tag_eq: "no_colon s \<Longrightarrow> no_colon t \<Longrightarrow> with_tag s i = with_tag t j \<longleftrightarrow> s = t \<and> i = j"
proof -
  have start: "takeWhile (\<lambda>c. c \<noteq> CHR '':'') (with_tag r k) = r" if "no_colon r" for r k
  proof -
    have "\<forall>c \<in> set r. c \<noteq> CHR '':''" using that by (auto simp: no_colon_def)
    then show ?thesis by (simp add: with_tag_def takeWhile_stop)
  qed
  assume "no_colon s" "no_colon t"
  then show ?thesis using start [of s i] start [of t j] by (auto simp: with_tag_def)
qed

lemma remapped_tag [simp]: "remapped tag (tag_remap tag nodes) i = with_tag tag i"
proof -
  have "map_of (rev (map (\<lambda>n. (n_id n, with_tag tag (n_id n))) nodes)) i = Some j \<Longrightarrow> j = with_tag tag i" for j
    by (auto dest!: map_of_SomeD)
  then show ?thesis by (auto simp: remapped_def tag_remap_def bt_get_of_list split: option.splits)
qed

section \<open>The merge keeps repositories apart and loses nothing\<close>

definition edge_ends_of :: "edge \<Rightarrow> string \<times> string" where
  "edge_ends_of e = (true_source e, true_target e)"

lemma merged_edge_ends:
  "edge_ends_of (merge_repo_edge tag (tag_remap tag nodes) e) = (with_tag tag (true_source e), with_tag tag (true_target e))"
  by (simp add: edge_ends_of_def merge_repo_edge_def true_source_def true_target_def get_str_def)

lemma merge_repos_fold:
  "g_nodes (fold merge_repo tgs m) = g_nodes m @ concat (map (\<lambda>(tag, g). map (merge_repo_node tag) (g_nodes g)) tgs)"
  "g_links (fold merge_repo tgs m)
     = g_links m @ concat (map (\<lambda>(tag, g). map (merge_repo_edge tag (tag_remap tag (g_nodes g))) (g_links g)) tgs)"
  "g_hyperedges (fold merge_repo tgs m)
     = g_hyperedges m @ concat (map (\<lambda>(tag, g). map (merge_repo_hyperedge tag (tag_remap tag (g_nodes g))) (g_hyperedges g)) tgs)"
  by (induction tgs arbitrary: m) (auto simp: merge_repo_def Let_def)

lemma merge_repos_extra: "g_extra (fold merge_repo tgs m) = g_extra m"
  by (induction tgs arbitrary: m) (auto simp: merge_repo_def Let_def)

lemma distinct_tagged:
  assumes "distinct (map fst tgs)" "\<forall>(tag, ids) \<in> set tgs. no_colon tag \<and> distinct ids"
  shows "distinct (concat (map (\<lambda>(tag, ids). map (with_tag tag) ids) tgs))"
  using assms
proof (induction tgs)
  case (Cons x tgs)
  obtain tag ids where x: "x = (tag, ids)" by fastforce
  have here: "no_colon tag" "distinct ids" and rest: "\<forall>(t, js) \<in> set tgs. no_colon t \<and> t \<noteq> tag"
    using Cons.prems by (force simp: x)+
  have "distinct (map (with_tag tag) ids)"
    using here by (simp add: distinct_map inj_on_def with_tag_eq)
  moreover have "set (map (with_tag tag) ids) \<inter> set (concat (map (\<lambda>(tag, ids). map (with_tag tag) ids) tgs)) = {}"
  proof -
    have "with_tag tag i \<noteq> with_tag t j" if "(t, js) \<in> set tgs" for t js i j
      using bspec [OF rest that] here(1) by (auto simp: with_tag_eq)
    then show ?thesis by auto
  qed
  moreover have "distinct (concat (map (\<lambda>(tag, ids). map (with_tag tag) ids) tgs))"
    using Cons by (simp add: x)
  ultimately show ?case by (simp add: x)
qed simp

text \<open>
  What the merge keeps of a node, an edge and a hyperedge of the repository with a given tag: everything but
  the identifiers, which get the tag, the member \<open>repo\<close>, which is the tag, and the markers of the true ends
  of an edge, which become its ends.
\<close>

definition node_kept :: "string \<Rightarrow> node \<Rightarrow> node \<Rightarrow> bool" where
  "node_kept tag n n' \<longleftrightarrow> n_id n' = with_tag tag (n_id n) \<and> n_label n' = n_label n \<and> n_file_type n' = n_file_type n
     \<and> n_source_file n' = n_source_file n \<and> n_source_location n' = n_source_location n \<and> n_community n' = n_community n
     \<and> bt_get (n_extra n') = (bt_get (n_extra n))(''repo'' \<mapsto> JStr tag)"

definition edge_kept :: "string \<Rightarrow> edge \<Rightarrow> edge \<Rightarrow> bool" where
  "edge_kept tag e e' \<longleftrightarrow> true_source e' = with_tag tag (true_source e) \<and> true_target e' = with_tag tag (true_target e)
     \<and> e_source e' = true_source e' \<and> e_target e' = true_target e'
     \<and> e_relation e' = e_relation e \<and> e_confidence e' = e_confidence e \<and> e_source_file e' = e_source_file e
     \<and> bt_get (e_extra e') = (bt_get (e_extra e))(''_src'' := None, ''_tgt'' := None, ''repo'' \<mapsto> JStr tag)"

definition tag_value :: "string \<Rightarrow> json \<Rightarrow> json" where
  "tag_value tag v = (case v of JStr i \<Rightarrow> JStr (with_tag tag i) | _ \<Rightarrow> v)"

definition tag_values :: "string \<Rightarrow> json \<Rightarrow> json" where
  "tag_values tag v = (case v of JArr vs \<Rightarrow> JArr (map (tag_value tag) vs) | _ \<Rightarrow> v)"

definition hyperedge_kept :: "string \<Rightarrow> json \<Rightarrow> json \<Rightarrow> bool" where
  "hyperedge_kept tag h h' \<longleftrightarrow>
     (case h of
        JObj m \<Rightarrow> \<exists>m'. h' = JObj m' \<and> bt_get m' = (bt_get m)(''id'' := map_option (tag_value tag) (bt_get m ''id''),
            ''nodes'' := map_option (tag_values tag) (bt_get m ''nodes''), ''repo'' \<mapsto> JStr tag)
      | _ \<Rightarrow> h' = h)"

lemma merged_node_kept: "node_kept tag n (merge_repo_node tag n)"
  by (auto simp: node_kept_def merge_repo_node_def)

lemma merged_edge_kept: "edge_kept tag e (merge_repo_edge tag (tag_remap tag nodes) e)"
  by (auto simp: edge_kept_def merge_repo_edge_def true_source_def true_target_def get_str_def fun_eq_iff)

lemma merged_hyperedge_kept: "hyperedge_kept tag h (merge_repo_hyperedge tag (tag_remap tag nodes) h)"
proof (cases h)
  case (JObj m)
  have i: "bt_get (tag_id tag m) = (bt_get m)(''id'' := map_option (tag_value tag) (bt_get m ''id''))"
  proof (cases "bt_get m ''id''")
    case (Some v)
    then show ?thesis by (cases v) (auto simp: tag_id_def get_str_def tag_value_def fun_eq_iff)
  qed (auto simp: tag_id_def get_str_def fun_eq_iff)
  have "(case as_str v of None \<Rightarrow> v | Some i \<Rightarrow> JStr (remapped tag (tag_remap tag nodes) i)) = tag_value tag v" for v
    by (cases v) (simp_all add: tag_value_def)
  then have "map_array (\<lambda>v. case as_str v of None \<Rightarrow> v | Some i \<Rightarrow> JStr (remapped tag (tag_remap tag nodes) i)) v
      = tag_values tag v" for v
    by (cases v) (simp_all add: tag_values_def)
  then have "map_array (\<lambda>v. case as_str v of None \<Rightarrow> v | Some i \<Rightarrow> JStr (remapped tag (tag_remap tag nodes) i))
      = tag_values tag" by (rule ext)
  note members = this
  show ?thesis unfolding JObj hyperedge_kept_def merge_repo_hyperedge_def json.case map_object.simps members
    by (rule exI, rule conjI [OF refl], rule ext) (simp add: i)
qed (simp_all add: hyperedge_kept_def merge_repo_hyperedge_def)

text \<open>The parts of the graphs in order, each with the tag of its repository.\<close>

definition tagged_parts :: "(graph \<Rightarrow> 'a list) \<Rightarrow> (string \<times> graph) list \<Rightarrow> (string \<times> 'a) list" where
  "tagged_parts part inputs =
     concat (map2 (\<lambda>tag g. map (Pair tag) (part g)) (distinct_repo_tags (map fst inputs)) (map snd inputs))"

lemma parts_kept:
  assumes "\<And>tag g x. kept tag x (change tag g x)"
  shows "list_all2 (\<lambda>(tag, x) y. kept tag x y) (concat (map2 (\<lambda>tag g. map (Pair tag) (part g)) tags gs))
    (concat (map (\<lambda>(tag, g). map (change tag g) (part g)) (zip tags gs)))"
proof -
  have "list_all2 (\<lambda>(tag, x) y. kept tag x y) (map (Pair tag) (part g)) (map (change tag g) (part g))" for tag g
    using assms by (simp add: list_all2_map1 list_all2_map2 list.rel_refl)
  then have "list_all2 (\<lambda>(tag, x) y. kept tag x y) (concat (map (\<lambda>(tag, g). map (Pair tag) (part g)) tgs))
      (concat (map (\<lambda>(tag, g). map (change tag g) (part g)) tgs))" for tgs
    by (induction tgs) (auto intro: list_all2_appendI)
  then show ?thesis by (simp add: case_prod_unfold)
qed

text \<open>
  C35: the graphs of several repositories are merged side by side. Every repository gets a tag of its own;
  the nodes, edges and hyperedges of the result are those of all graphs in order, each kept whole under the
  tag of its repository: only its identifiers get the tag, \<open>repo\<close> is set to it, and the ends of an edge are
  its true ends. Nodes have distinct identifiers if they had within each graph. The direction and multigraph
  flags and the remaining members of the inputs are dropped.
\<close>

theorem merge_repositories_disjoint:
  assumes ids: "\<forall>(_, g) \<in> set inputs. distinct (map n_id (g_nodes g))" and merged: "merged = merge_repository_graphs inputs"
  shows "distinct (distinct_repo_tags (map fst inputs)) \<and> length (distinct_repo_tags (map fst inputs)) = length inputs
    \<and> distinct (map n_id (g_nodes merged))
    \<and> list_all2 (\<lambda>(tag, n). node_kept tag n) (tagged_parts g_nodes inputs) (g_nodes merged)
    \<and> list_all2 (\<lambda>(tag, e). edge_kept tag e) (tagged_parts g_links inputs) (g_links merged)
    \<and> list_all2 (\<lambda>(tag, h). hyperedge_kept tag h) (tagged_parts g_hyperedges inputs) (g_hyperedges merged)
    \<and> \<not> g_directed merged \<and> \<not> g_multigraph merged \<and> g_extra merged = []"
proof -
  let ?tags = "distinct_repo_tags (map fst inputs)"
  let ?tgs = "zip ?tags (map snd inputs)"
  have len: "length ?tags = length inputs" using repo_tags(2) [of "map fst inputs"] by simp
  have nodes: "g_nodes merged = concat (map (\<lambda>(tag, g). map (merge_repo_node tag) (g_nodes g)) ?tgs)"
    and links: "g_links merged
      = concat (map (\<lambda>(tag, g). map (merge_repo_edge tag (tag_remap tag (g_nodes g))) (g_links g)) ?tgs)"
    and hyperedges: "g_hyperedges merged
      = concat (map (\<lambda>(tag, g). map (merge_repo_hyperedge tag (tag_remap tag (g_nodes g))) (g_hyperedges g)) ?tgs)"
    by (simp_all add: merged merge_repository_graphs_def Let_def merge_repos_fold empty_graph_def)
  have rest: "\<not> g_directed merged \<and> \<not> g_multigraph merged \<and> g_extra merged = []"
    by (simp add: merged merge_repository_graphs_def Let_def merge_repos_extra empty_graph_def)
  let ?tis = "map (\<lambda>(tag, g). (tag, map n_id (g_nodes g))) ?tgs"
  have "distinct (map fst ?tis)" using repo_tags(1) len by (simp add: o_def case_prod_unfold)
  moreover have "\<forall>(tag, is) \<in> set ?tis. no_colon tag \<and> distinct is"
    using ids repo_tags(3) by (fastforce dest: set_zip_leftD set_zip_rightD)
  ultimately have "distinct (concat (map (\<lambda>(tag, ids). map (with_tag tag) ids) ?tis))" by (rule distinct_tagged)
  then have "distinct (map n_id (g_nodes merged))"
    unfolding nodes by (simp add: o_def case_prod_unfold map_concat merge_repo_node_def)
  moreover have "list_all2 (\<lambda>(tag, n). node_kept tag n) (tagged_parts g_nodes inputs) (g_nodes merged)"
    unfolding nodes tagged_parts_def by (rule parts_kept) (rule merged_node_kept)
  moreover have "list_all2 (\<lambda>(tag, e). edge_kept tag e) (tagged_parts g_links inputs) (g_links merged)"
    unfolding links tagged_parts_def by (rule parts_kept) (rule merged_edge_kept)
  moreover have "list_all2 (\<lambda>(tag, h). hyperedge_kept tag h) (tagged_parts g_hyperedges inputs) (g_hyperedges merged)"
    unfolding hyperedges tagged_parts_def by (rule parts_kept) (rule merged_hyperedge_kept)
  ultimately show ?thesis using len repo_tags(1) rest by blast
qed

section \<open>The global graph\<close>

definition prefix_node :: "string \<Rightarrow> (string, string) btree \<Rightarrow> node \<Rightarrow> node" where
  "prefix_node tag remap n =
     n\<lparr>n_id := remapped tag remap (n_id n),
       n_extra := bt_or_insert ''local_id'' (JStr (n_id n)) (bt_put ''repo'' (JStr tag) (n_extra n))\<rparr>"

definition prefix_marker :: "(string, string) btree \<Rightarrow> string \<Rightarrow> jobject \<Rightarrow> jobject" where
  "prefix_marker remap marker m =
     (case Option.bind (get_str m marker) (bt_get remap) of None \<Rightarrow> m | Some i \<Rightarrow> bt_put marker (JStr i) m)"

definition prefix_edge :: "string \<Rightarrow> (string, string) btree \<Rightarrow> edge \<Rightarrow> edge" where
  "prefix_edge tag remap e =
     e\<lparr>e_source := remapped tag remap (e_source e), e_target := remapped tag remap (e_target e),
       e_extra := prefix_marker remap ''_tgt'' (prefix_marker remap ''_src'' (e_extra e))\<rparr>"

definition map_member :: "(string, string) btree \<Rightarrow> json \<Rightarrow> json" where
  "map_member remap v = (case Option.bind (as_str v) (bt_get remap) of None \<Rightarrow> v | Some i \<Rightarrow> JStr i)"

definition prefix_hyperedge :: "string \<Rightarrow> (string, string) btree \<Rightarrow> json \<Rightarrow> json" where
  "prefix_hyperedge tag remap h =
     map_object (\<lambda>m. bt_put ''repo'' (JStr tag) (modify ''nodes'' (map_array (map_member remap)) (tag_id tag m))) h"

definition prefix_graph_for_global :: "graph \<Rightarrow> string \<Rightarrow> graph" where
  "prefix_graph_for_global g tag =
     (let remap = tag_remap tag (g_nodes g)
      in g\<lparr>g_nodes := map (prefix_node tag remap) (g_nodes g), g_links := map (prefix_edge tag remap) (g_links g),
           g_hyperedges := map (prefix_hyperedge tag remap) (g_hyperedges g)\<rparr>)"

definition owned_ids :: "string \<Rightarrow> node list \<Rightarrow> (string, unit) btree" where
  "owned_ids tag nodes =
     bt_of_list (map (\<lambda>n. (n_id n, ())) (filter (\<lambda>n. get_str (n_extra n) ''repo'' = Some tag) nodes))"

definition string_members :: "json \<Rightarrow> string list" where
  "string_members h = (case Option.bind (vget h ''nodes'') as_array of None \<Rightarrow> [] | Some vs \<Rightarrow> List.map_filter as_str vs)"

definition prune_repo_from_graph :: "graph \<Rightarrow> string \<Rightarrow> graph \<times> nat" where
  "prune_repo_from_graph g tag =
     (let gone = owned_ids tag (g_nodes g)
      in (g\<lparr>g_nodes := filter (\<lambda>n. \<not> bt_has gone (n_id n)) (g_nodes g),
            g_links := filter (\<lambda>e. \<not> bt_has gone (true_source e) \<and> \<not> bt_has gone (true_target e)) (g_links g),
            g_hyperedges := filter (\<lambda>h. list_all (\<lambda>i. \<not> bt_has gone i) (string_members h)) (g_hyperedges g)\<rparr>,
          length gone))"

text \<open>\<open>Vec::dedup_by\<close>: an element goes if it equals the last one kept.\<close>

fun dedup_adjacent :: "('a \<Rightarrow> 'k) \<Rightarrow> 'a list \<Rightarrow> 'a list" where
  "dedup_adjacent key (x # y # ys) =
     (if key x = key y then dedup_adjacent key (x # ys) else x # dedup_adjacent key (y # ys))"
| "dedup_adjacent key xs = xs"

definition link_key :: "edge \<Rightarrow> string \<times> string \<times> string" where
  "link_key e = (true_source e, true_target e, e_relation e)"

definition sort_and_deduplicate :: "graph \<Rightarrow> graph" where
  "sort_and_deduplicate g =
     g\<lparr>g_nodes := dedup_adjacent n_id (sort_key n_id (g_nodes g)),
       g_links := dedup_adjacent link_key (sort_key link_key (g_links g))\<rparr>"

text \<open>A node without a source file is an external one, shared by its label.\<close>

definition external_labels :: "node list \<Rightarrow> (string, string) btree" where
  "external_labels nodes =
     bt_of_list (map (\<lambda>n. (n_label n, n_id n)) (filter (\<lambda>n. n_source_file n = [] \<and> n_label n \<noteq> []) nodes))"

definition external_remap :: "(string, string) btree \<Rightarrow> node list \<Rightarrow> (string, string) btree" where
  "external_remap labels nodes =
     bt_of_list (List.map_filter (\<lambda>n.
         if n_source_file n = [] then map_option (\<lambda>i. (n_id n, i)) (bt_get labels (n_label n)) else None) nodes)"

definition shared_id :: "(string, string) btree \<Rightarrow> string \<Rightarrow> string" where
  "shared_id remap i = (case bt_get remap i of None \<Rightarrow> i | Some j \<Rightarrow> j)"

definition global_edge :: "(string, string) btree \<Rightarrow> edge \<Rightarrow> edge option" where
  "global_edge remap e =
     (let s = shared_id remap (true_source e); t = shared_id remap (true_target e)
      in if s = t then None
         else Some (e\<lparr>e_source := s, e_target := t,
                       e_extra := bt_put ''_tgt'' (JStr t) (bt_put ''_src'' (JStr s) (e_extra e))\<rparr>))"

definition global_hyperedge :: "(string, string) btree \<Rightarrow> json \<Rightarrow> json option" where
  "global_hyperedge remap h =
     (case h of JObj m \<Rightarrow> Some (JObj (modify ''nodes'' (map_array (map_member remap)) m)) | _ \<Rightarrow> None)"

definition add_to_global :: "graph \<Rightarrow> graph \<Rightarrow> graph \<times> nat" where
  "add_to_global prefixed global =
     (let remap = external_remap (external_labels (g_nodes global)) (g_nodes prefixed)
      in (sort_and_deduplicate (global\<lparr>
            g_nodes := g_nodes global @ filter (\<lambda>n. \<not> bt_has remap (n_id n)) (g_nodes prefixed),
            g_links := g_links global @ List.map_filter (global_edge remap) (g_links prefixed),
            g_hyperedges := g_hyperedges global @ List.map_filter (global_hyperedge remap) (g_hyperedges prefixed)\<rparr>),
          length (g_nodes prefixed) - length remap))"

record repo_record =
  rr_added_at :: string
  rr_source_path :: string
  rr_node_count :: nat
  rr_edge_count :: nat
  rr_source_hash :: string

record add_result =
  ar_repo_tag :: string
  ar_nodes_added :: nat
  ar_nodes_removed :: nat
  ar_skipped :: bool
  ar_warning :: "(string \<times> string) option"

text \<open>What the two files of the store hold, read back: the manifest and the graph.\<close>

record global_store =
  gs_repos :: "(string, repo_record) btree"
  gs_graph :: graph

datatype global_error = EmptyTag | UnknownRepo string

text \<open>The source is a graph that has been read, with its path and its hash.\<close>

record repo_source =
  rs_path :: string
  rs_hash :: string
  rs_graph :: graph

definition global_add :: "string \<Rightarrow> repo_source \<Rightarrow> string \<Rightarrow> global_store \<Rightarrow> global_error + add_result \<times> global_store" where
  "global_add now src tag st =
     (if tag = [] then Inl EmptyTag
      else
        let known = bt_get (gs_repos st) tag;
            warning = Option.bind known (\<lambda>r. if rr_source_path r \<noteq> rs_path src then Some (rr_source_path r, rs_path src) else None)
        in if map_option rr_source_hash known = Some (rs_hash src)
           then Inr (\<lparr>ar_repo_tag = tag, ar_nodes_added = 0, ar_nodes_removed = 0, ar_skipped = True, ar_warning = warning\<rparr>, st)
           else
             let prefixed = prefix_graph_for_global (rs_graph src) tag;
                 (pruned, removed) = prune_repo_from_graph (gs_graph st) tag;
                 (g, added) = add_to_global prefixed pruned;
                 r = \<lparr>rr_added_at = now, rr_source_path = rs_path src, rr_node_count = added,
                      rr_edge_count = length (g_links prefixed), rr_source_hash = rs_hash src\<rparr>
             in Inr (\<lparr>ar_repo_tag = tag, ar_nodes_added = added, ar_nodes_removed = removed, ar_skipped = False, ar_warning = warning\<rparr>,
                     \<lparr>gs_repos = bt_put tag r (gs_repos st), gs_graph = g\<rparr>))"

definition global_remove :: "string \<Rightarrow> global_store \<Rightarrow> global_error + nat \<times> global_store" where
  "global_remove tag st =
     (if bt_has (gs_repos st) tag
      then let (g, removed) = prune_repo_from_graph (gs_graph st) tag
           in Inr (removed, \<lparr>gs_repos = bt_del tag (gs_repos st), gs_graph = g\<rparr>)
      else Inl (UnknownRepo tag))"

section \<open>The global graph stays closed\<close>

definition graph_ids :: "graph \<Rightarrow> string set" where
  "graph_ids g = n_id ` set (g_nodes g)"

definition graph_closed :: "graph \<Rightarrow> bool" where
  "graph_closed g \<longleftrightarrow>
     distinct (map n_id (g_nodes g)) \<and> (\<forall>e \<in> set (g_links g). true_source e \<in> graph_ids g \<and> true_target e \<in> graph_ids g)"

lemma set_dedup_adjacent: "set (dedup_adjacent key xs) \<subseteq> set xs"
  by (induction key xs rule: dedup_adjacent.induct) auto

lemma keys_dedup_adjacent: "key ` set (dedup_adjacent key xs) = key ` set xs"
  by (induction key xs rule: dedup_adjacent.induct) auto

lemma dedup_adjacent_distinct: "sorted (map key xs) \<Longrightarrow> distinct (map key (dedup_adjacent key (xs :: 'a list))) \<and> sorted (map key (dedup_adjacent key xs))"
  for key :: "'a \<Rightarrow> 'k :: linorder"
proof (induction key xs rule: dedup_adjacent.induct)
  case (1 key x y ys)
  show ?case
  proof (cases "key x = key y")
    case False
    have "key x < k" if "k \<in> key ` set (y # ys)" for k
      using 1(3) False that by force
    then have "\<forall>k \<in> key ` set (dedup_adjacent key (y # ys)). key x < k" unfolding keys_dedup_adjacent by blast
    then show ?thesis using 1(2) [OF False] 1(3) False by force
  qed (use 1 in simp)
qed simp_all

lemma sort_and_deduplicate_facts:
  "distinct (map n_id (g_nodes (sort_and_deduplicate g)))" "graph_ids (sort_and_deduplicate g) = graph_ids g"
  "set (g_links (sort_and_deduplicate g)) \<subseteq> set (g_links g)"
proof -
  have "sorted (map n_id (sort_key n_id (g_nodes g)))" by simp
  then show "distinct (map n_id (g_nodes (sort_and_deduplicate g)))"
    using dedup_adjacent_distinct [of n_id "sort_key n_id (g_nodes g)"] by (simp add: sort_and_deduplicate_def)
  show "graph_ids (sort_and_deduplicate g) = graph_ids g"
    by (simp add: graph_ids_def sort_and_deduplicate_def keys_dedup_adjacent)
  show "set (g_links (sort_and_deduplicate g)) \<subseteq> set (g_links g)"
    using set_dedup_adjacent [of link_key "sort_key link_key (g_links g)"] by (simp add: sort_and_deduplicate_def)
qed

lemma prune_facts:
  assumes "prune_repo_from_graph g tag = (g', k)"
  shows "g_nodes g' = filter (\<lambda>n. \<not> bt_has (owned_ids tag (g_nodes g)) (n_id n)) (g_nodes g)"
    "graph_closed g \<Longrightarrow> graph_closed g'"
proof -
  show nodes: "g_nodes g' = filter (\<lambda>n. \<not> bt_has (owned_ids tag (g_nodes g)) (n_id n)) (g_nodes g)"
    using assms by (auto simp: prune_repo_from_graph_def Let_def)
  assume closed: "graph_closed g"
  then have "distinct (map n_id (g_nodes g'))" unfolding nodes graph_closed_def by (simp add: distinct_map_filter)
  moreover have "graph_ids g' = {i \<in> graph_ids g. \<not> bt_has (owned_ids tag (g_nodes g)) i}"
    unfolding graph_ids_def nodes by auto
  moreover have "g_links g' = filter (\<lambda>e. \<not> bt_has (owned_ids tag (g_nodes g)) (true_source e)
      \<and> \<not> bt_has (owned_ids tag (g_nodes g)) (true_target e)) (g_links g)"
    using assms by (auto simp: prune_repo_from_graph_def Let_def)
  ultimately show "graph_closed g'" using closed by (simp add: graph_closed_def)
qed

lemma tag_remap_get: "i \<in> n_id ` set nodes \<Longrightarrow> bt_get (tag_remap tag nodes) i = Some (with_tag tag i)"
proof -
  assume "i \<in> n_id ` set nodes"
  then have "bt_has (tag_remap tag nodes) i" by (auto simp: tag_remap_def bt_has_of_list image_iff)
  then show ?thesis using remapped_tag [of tag nodes i] by (auto simp: bt_has_def remapped_def)
qed

lemma get_str_prefix_marker:
  "get_str (prefix_marker remap k m) j = (if j = k then (case get_str m k of None \<Rightarrow> None
     | Some i \<Rightarrow> Some (shared_id remap i)) else get_str m j)"
proof -
  have get: "Option.bind (get_str m k) (bt_get remap) = (case get_str m k of None \<Rightarrow> None | Some i \<Rightarrow> bt_get remap i)"
    by (cases "get_str m k") simp_all
  show ?thesis unfolding prefix_marker_def get by (auto simp: shared_id_def split: option.splits)
qed

lemma prefix_edge_ends:
  assumes "true_source e \<in> n_id ` set nodes" "true_target e \<in> n_id ` set nodes"
  shows "true_source (prefix_edge tag (tag_remap tag nodes) e) = with_tag tag (true_source e)"
    "true_target (prefix_edge tag (tag_remap tag nodes) e) = with_tag tag (true_target e)"
  using assms tag_remap_get
  by (auto simp: true_source_def true_target_def prefix_edge_def get_str_prefix_marker shared_id_def split: option.splits)

lemma global_edge_ends:
  "global_edge remap e = Some e' \<Longrightarrow> true_source e' = shared_id remap (true_source e) \<and> true_target e' = shared_id remap (true_target e)"
  by (auto simp: global_edge_def Let_def true_source_def true_target_def get_str_def split: if_splits)

lemma external_remap_get:
  assumes "bt_get (external_remap (external_labels nodes) ns) i = Some j"
  shows "\<exists>n \<in> set nodes. \<exists>m \<in> set ns. n_id n = j \<and> n_id m = i \<and> n_source_file n = [] \<and> n_source_file m = [] \<and> n_label n = n_label m"
proof -
  from map_of_SomeD [OF assms [unfolded external_remap_def bt_get_of_list]]
  obtain m where m: "m \<in> set ns" "n_source_file m = []" "n_id m = i" "bt_get (external_labels nodes) (n_label m) = Some j"
    by (auto simp: map_filter_mem split: if_splits)
  from m(4) obtain n where "n \<in> set nodes" "n_source_file n = []" "n_label n = n_label m" "n_id n = j"
    unfolding external_labels_def bt_get_of_list by (auto dest!: map_of_SomeD)
  with m show ?thesis by metis
qed

lemma add_to_global_closed:
  assumes closed: "graph_closed global" "graph_closed g"
    and add: "add_to_global (prefix_graph_for_global g tag) global = (g', k)"
  shows "graph_closed g'" "sorted (map n_id (g_nodes g'))"
    "\<forall>n \<in> set (g_nodes g). with_tag tag (n_id n) \<in> graph_ids g'
       \<or> (\<exists>m \<in> set (g_nodes global). n_source_file m = [] \<and> n_label m = n_label n \<and> n_source_file n = [] \<and> n_id m \<in> graph_ids g')"
proof -
  define prefixed where "prefixed = prefix_graph_for_global g tag"
  define remap where "remap = external_remap (external_labels (g_nodes global)) (g_nodes prefixed)"
  define kept where "kept = filter (\<lambda>n. \<not> bt_has remap (n_id n)) (g_nodes prefixed)"
  define joined where "joined = global\<lparr>g_nodes := g_nodes global @ kept,
      g_links := g_links global @ List.map_filter (global_edge remap) (g_links prefixed),
      g_hyperedges := g_hyperedges global @ List.map_filter (global_hyperedge remap) (g_hyperedges prefixed)\<rparr>"
  have g': "g' = sort_and_deduplicate joined"
    using add unfolding add_to_global_def Let_def joined_def kept_def remap_def prefixed_def by simp
  note facts = sort_and_deduplicate_facts [of joined, folded g']
  have nodes: "g_nodes prefixed = map (prefix_node tag (tag_remap tag (g_nodes g))) (g_nodes g)"
    by (simp add: prefixed_def prefix_graph_for_global_def Let_def)
  have represented: "shared_id remap (with_tag tag i) \<in> graph_ids joined" if "i \<in> graph_ids g" for i
  proof (cases "bt_get remap (with_tag tag i)")
    case None
    from that obtain n where "n \<in> set (g_nodes g)" "n_id n = i" by (auto simp: graph_ids_def)
    then have "prefix_node tag (tag_remap tag (g_nodes g)) n \<in> set (g_nodes prefixed)" unfolding nodes by simp
    then have "prefix_node tag (tag_remap tag (g_nodes g)) n \<in> set kept"
      using None \<open>n_id n = i\<close> by (simp add: kept_def prefix_node_def bt_has_def)
    then have "with_tag tag i \<in> n_id ` set kept"
      using \<open>n_id n = i\<close> by (force simp: prefix_node_def image_iff)
    then show ?thesis using None by (auto simp: shared_id_def graph_ids_def joined_def)
  next
    case (Some j)
    then show ?thesis
      using external_remap_get [of "g_nodes global" "g_nodes prefixed" _ j, folded remap_def]
      by (auto simp: shared_id_def graph_ids_def joined_def)
  qed
  have ends: "true_source e \<in> graph_ids joined \<and> true_target e \<in> graph_ids joined" if "e \<in> set (g_links joined)" for e
  proof -
    from that consider "e \<in> set (g_links global)"
      | e0 where "e0 \<in> set (g_links g)" "global_edge remap (prefix_edge tag (tag_remap tag (g_nodes g)) e0) = Some e"
      by (auto simp: joined_def map_filter_mem prefixed_def prefix_graph_for_global_def Let_def)
    then show ?thesis
    proof cases
      case 1
      then show ?thesis using closed(1) by (auto simp: graph_closed_def graph_ids_def joined_def)
    next
      case (2 e0)
      then have "true_source e0 \<in> graph_ids g" "true_target e0 \<in> graph_ids g"
        using closed(2) by (auto simp: graph_closed_def)
      then show ?thesis
        using global_edge_ends [OF 2(2)] represented prefix_edge_ends [of e0 "g_nodes g" tag] by (simp add: graph_ids_def)
    qed
  qed
  show "graph_closed g'" using facts ends by (auto simp: graph_closed_def)
  show "sorted (map n_id (g_nodes g'))"
    unfolding g' using dedup_adjacent_distinct [of n_id "sort_key n_id (g_nodes joined)"] by (simp add: sort_and_deduplicate_def)
  show "\<forall>n \<in> set (g_nodes g). with_tag tag (n_id n) \<in> graph_ids g'
       \<or> (\<exists>m \<in> set (g_nodes global). n_source_file m = [] \<and> n_label m = n_label n \<and> n_source_file n = [] \<and> n_id m \<in> graph_ids g')"
  proof
    fix n
    assume n: "n \<in> set (g_nodes g)"
    show "with_tag tag (n_id n) \<in> graph_ids g'
       \<or> (\<exists>m \<in> set (g_nodes global). n_source_file m = [] \<and> n_label m = n_label n \<and> n_source_file n = [] \<and> n_id m \<in> graph_ids g')"
    proof (cases "bt_get remap (with_tag tag (n_id n))")
      case None
      then show ?thesis
        using represented [of "n_id n"] n facts(2) by (simp add: shared_id_def) (simp add: graph_ids_def)
    next
      case (Some j)
      from external_remap_get [OF this [unfolded remap_def]] obtain m p where
        "m \<in> set (g_nodes global)" "p \<in> set (g_nodes prefixed)" "n_id m = j" "n_id p = with_tag tag (n_id n)"
        "n_source_file m = []" "n_source_file p = []" "n_label m = n_label p" by blast
      moreover from this obtain q where "q \<in> set (g_nodes g)" "p = prefix_node tag (tag_remap tag (g_nodes g)) q"
        unfolding nodes by auto
      moreover from calculation have "n_id q = n_id n" by (simp add: prefix_node_def with_tag_def)
      then have "q = n" using closed(2) n \<open>q \<in> set (g_nodes g)\<close> by (auto simp: graph_closed_def distinct_map inj_on_def)
      moreover have "j \<in> graph_ids g'"
        using represented [of "n_id n"] n Some facts(2) by (simp add: shared_id_def) (simp add: graph_ids_def)
      ultimately show ?thesis by (auto simp: prefix_node_def)
    qed
  qed
qed

text \<open>
  C36: adding the graph of a repository to the global graph keeps the identifiers distinct and the edges
  between nodes of the graph; every node of the repository is then there under its tag, or is an external
  one whose label another node already has.
\<close>

theorem global_add_keeps_closed:
  assumes "graph_closed (gs_graph st)" "graph_closed (rs_graph src)"
    and "global_add now src tag st = Inr (res, st')" "\<not> ar_skipped res"
  shows "graph_closed (gs_graph st') \<and> bt_has (gs_repos st') tag
    \<and> (\<forall>n \<in> set (g_nodes (rs_graph src)). with_tag tag (n_id n) \<in> graph_ids (gs_graph st')
         \<or> (\<exists>m \<in> set (g_nodes (gs_graph st)). n_source_file m = [] \<and> n_label m = n_label n \<and> n_source_file n = []
              \<and> n_id m \<in> graph_ids (gs_graph st')))"
proof -
  from assms(3,4) obtain pruned removed g added where
      "prune_repo_from_graph (gs_graph st) tag = (pruned, removed)"
      "add_to_global (prefix_graph_for_global (rs_graph src) tag) pruned = (g, added)"
      "gs_graph st' = g" "bt_has (gs_repos st') tag"
    by (auto simp: global_add_def Let_def split: if_splits prod.splits)
  note here = this
  have "set (g_nodes pruned) \<subseteq> set (g_nodes (gs_graph st))" using prune_facts(1) [OF here(1)] by auto
  with here show ?thesis
    using add_to_global_closed [OF prune_facts(2) [OF here(1) assms(1)] assms(2) here(2)] by blast
qed

text \<open>The nodes that belong to a repository, and the nodes of files of other repositories.\<close>

definition owned :: "string \<Rightarrow> graph \<Rightarrow> string set" where
  "owned tag g = n_id ` {n \<in> set (g_nodes g). get_str (n_extra n) ''repo'' = Some tag}"

definition foreign_file :: "string \<Rightarrow> graph \<Rightarrow> string \<Rightarrow> bool" where
  "foreign_file tag g i \<longleftrightarrow> (\<exists>n \<in> set (g_nodes g). n_id n = i \<and> n_source_file n \<noteq> []) \<and> (\<forall>j. i \<noteq> with_tag tag j)"

lemma owned_ids_owned: "bt_has (owned_ids tag (g_nodes g)) i \<longleftrightarrow> i \<in> owned tag g"
  by (auto simp: owned_ids_def owned_def bt_has_of_list image_iff)

lemma added_links_ends:
  assumes closed: "graph_closed g" and e: "e \<in> set (List.map_filter (global_edge (external_remap (external_labels nodes) ns))
      (g_links (prefix_graph_for_global g tag)))" and i: "i = true_source e \<or> i = true_target e"
  shows "(\<exists>j. i = with_tag tag j) \<or> (\<exists>n \<in> set nodes. n_id n = i \<and> n_source_file n = [])"
proof -
  let ?remap = "external_remap (external_labels nodes) ns"
  obtain e0 where e0: "e0 \<in> set (g_links g)" "global_edge ?remap (prefix_edge tag (tag_remap tag (g_nodes g)) e0) = Some e"
    using e by (auto simp: map_filter_mem prefix_graph_for_global_def Let_def)
  have "true_source e0 \<in> n_id ` set (g_nodes g)" "true_target e0 \<in> n_id ` set (g_nodes g)"
    using closed e0(1) by (auto simp: graph_closed_def graph_ids_def)
  from prefix_edge_ends [OF this] obtain j where "i = shared_id ?remap (with_tag tag j)"
    using global_edge_ends [OF e0(2)] i by auto
  then show ?thesis using external_remap_get [of nodes ns "with_tag tag j"]
    by (cases "bt_get ?remap (with_tag tag j)") (auto simp: shared_id_def)
qed

text \<open>
  C37: what adding a repository again does to the edges of the others. An edge of the global graph that has
  no end at a node of this repository is still there afterwards. An edge between a node of this repository
  and a node of a file whose identifier does not carry its tag, so one of another repository, is gone, whatever
  the new graph of the repository holds: so goes every edge from a file of another repository to a shared
  external node that this one brought.
\<close>

theorem update_loses_foreign_edges:
  assumes closed: "graph_closed (gs_graph st)" "graph_closed (rs_graph src)"
    and add: "global_add now src tag st = Inr (res, st')" "\<not> ar_skipped res"
    and e: "e \<in> set (g_links (gs_graph st))"
  shows "(true_source e \<notin> owned tag (gs_graph st) \<and> true_target e \<notin> owned tag (gs_graph st)
        \<longrightarrow> link_key e \<in> link_key ` set (g_links (gs_graph st')))
    \<and> (true_source e \<in> owned tag (gs_graph st) \<and> foreign_file tag (gs_graph st) (true_target e)
        \<or> true_target e \<in> owned tag (gs_graph st) \<and> foreign_file tag (gs_graph st) (true_source e)
        \<longrightarrow> link_key e \<notin> link_key ` set (g_links (gs_graph st')))"
proof -
  let ?old = "gs_graph st"
  define pruned where "pruned = fst (prune_repo_from_graph ?old tag)"
  define remap where "remap = external_remap (external_labels (g_nodes pruned))
      (g_nodes (prefix_graph_for_global (rs_graph src) tag))"
  define brought where "brought = List.map_filter (global_edge remap) (g_links (prefix_graph_for_global (rs_graph src) tag))"
  have old: "g_links pruned = filter (\<lambda>e. true_source e \<notin> owned tag ?old \<and> true_target e \<notin> owned tag ?old) (g_links ?old)"
    by (simp add: pruned_def prune_repo_from_graph_def Let_def owned_ids_owned)
  have "set (g_nodes pruned) \<subseteq> set (g_nodes ?old)"
    by (auto simp: pruned_def prune_repo_from_graph_def Let_def)
  have "gs_graph st' = fst (add_to_global (prefix_graph_for_global (rs_graph src) tag) pruned)"
    using add by (auto simp: global_add_def Let_def pruned_def split: if_splits prod.splits)
  then have keys: "link_key ` set (g_links (gs_graph st')) = link_key ` set (g_links pruned) \<union> link_key ` set brought"
    by (simp add: add_to_global_def Let_def sort_and_deduplicate_def keys_dedup_adjacent brought_def remap_def image_Un)
  have lost: "link_key e \<notin> link_key ` set (g_links (gs_graph st'))"
    if own: "i \<in> owned tag ?old" "i = true_source e \<or> i = true_target e"
      and foreign: "foreign_file tag ?old k" "k = true_source e \<or> k = true_target e" for i k
  proof
    assume "link_key e \<in> link_key ` set (g_links (gs_graph st'))"
    then obtain e' where e': "e' \<in> set (g_links pruned) \<or> e' \<in> set brought" "link_key e' = link_key e"
      unfolding keys by force
    then have ends: "true_source e' = true_source e" "true_target e' = true_target e" by (simp_all add: link_key_def)
    have "e' \<notin> set (g_links pruned)" using own ends by (auto simp: old)
    then have "(\<exists>j. k = with_tag tag j) \<or> (\<exists>n \<in> set (g_nodes pruned). n_id n = k \<and> n_source_file n = [])"
      using added_links_ends [OF closed(2), of e' "g_nodes pruned" _ tag k] e'(1) ends foreign(2)
      by (auto simp: brought_def remap_def)
    then obtain n where "n \<in> set (g_nodes ?old)" "n_id n = k" "n_source_file n = []"
      using foreign(1) \<open>set (g_nodes pruned) \<subseteq> set (g_nodes ?old)\<close> by (auto simp: foreign_file_def)
    then show False
      using foreign(1) closed(1) by (auto simp: foreign_file_def graph_closed_def distinct_map inj_on_def)
  qed
  have "link_key e \<in> link_key ` set (g_links (gs_graph st'))"
    if "true_source e \<notin> owned tag ?old" "true_target e \<notin> owned tag ?old"
    unfolding keys using that e by (auto simp: old)
  then show ?thesis using lost by blast
qed

text \<open>A graph of one file that uses one external thing.\<close>

definition user_graph :: graph where
  "user_graph = empty_graph\<lparr>g_nodes := [plain_node ''m'' ''main'' ''m.rs'', plain_node ''serde'' ''serde'' []],
     g_links := [plain_edge ''m'' ''serde'' ''imports'']\<rparr>"

definition empty_store :: global_store where
  "empty_store = \<lparr>gs_repos = [], gs_graph = empty_graph\<rparr>"

definition added :: "string \<Rightarrow> string \<Rightarrow> global_store \<Rightarrow> global_store" where
  "added tag hash st =
     (case global_add ''0'' \<lparr>rs_path = tag, rs_hash = hash, rs_graph = user_graph\<rparr> tag st of Inl _ \<Rightarrow> st | Inr (_, st') \<Rightarrow> st')"

definition store_links :: "global_store \<Rightarrow> (string \<times> string) list" where
  "store_links st = map edge_ends_of (g_links (gs_graph st))"

text \<open>On an example: the edge of \<open>b\<close> to the node that \<open>a\<close> brought is lost when \<open>a\<close> is updated or removed.\<close>

lemma update_loses_edge:
  "store_links (added ''b'' ''1'' (added ''a'' ''1'' empty_store)) = [(''a::m'', ''a::serde''), (''b::m'', ''a::serde'')]
   \<and> store_links (added ''a'' ''2'' (added ''b'' ''1'' (added ''a'' ''1'' empty_store))) = [(''a::m'', ''a::serde'')]
   \<and> (case global_remove ''a'' (added ''b'' ''1'' (added ''a'' ''1'' empty_store)) of
        Inl _ \<Rightarrow> False
      | Inr (_, st) \<Rightarrow> map n_id (g_nodes (gs_graph st)) = [''b::m''] \<and> store_links st = []
          \<and> store_links (added ''b'' ''1'' st) = [])"
  by code_simp

section \<open>On concrete graphs\<close>

lemma merge_repositories_disjoint_witness:
  "let merged = merge_repository_graphs [(''x/src/out/graph.json'', sample_graph), (''y/src/out/graph.json'', sample_graph)]
   in distinct (map n_id (g_nodes merged)) \<and> length (g_nodes merged) = 4
     \<and> list_all2 (\<lambda>(tag, n). node_kept tag n)
         (map (Pair ''x__src'') (g_nodes sample_graph) @ map (Pair ''y__src'') (g_nodes sample_graph)) (g_nodes merged)"
proof -
  let ?inputs = "[(''x/src/out/graph.json'', sample_graph), (''y/src/out/graph.json'', sample_graph)]"
  have ids: "\<forall>(_, g) \<in> set ?inputs. distinct (map n_id (g_nodes g))" by (simp add: sample_graph_def plain_node_def)
  have "distinct_repo_tags (map fst ?inputs) = [''x__src'', ''y__src'']" by code_simp
  then have parts: "tagged_parts g_nodes ?inputs
      = map (Pair ''x__src'') (g_nodes sample_graph) @ map (Pair ''y__src'') (g_nodes sample_graph)"
    by (simp add: tagged_parts_def)
  note all = merge_repositories_disjoint [OF ids refl, unfolded parts]
  then have "length (g_nodes (merge_repository_graphs ?inputs)) = 4"
    using list_all2_lengthD by (fastforce simp: sample_graph_def)
  with all show ?thesis unfolding Let_def by blast
qed

lemma global_add_keeps_closed_witness:
  "list_all (\<lambda>e. true_source e = ''a::m'' \<and> true_target e = ''a::serde'') (g_links (gs_graph (added ''a'' ''1'' empty_store)))
   \<and> graph_closed (gs_graph (added ''a'' ''1'' empty_store))"
proof -
  let ?src = "\<lparr>rs_path = ''a'', rs_hash = ''1'', rs_graph = user_graph\<rparr>"
  have run: "map_sum id (ar_skipped \<circ> fst) (global_add ''0'' ?src ''a'' empty_store) = Inr False" by code_simp
  then obtain res st where add: "global_add ''0'' ?src ''a'' empty_store = Inr (res, st)" "\<not> ar_skipped res"
    by (cases "global_add ''0'' ?src ''a'' empty_store") auto
  have "graph_closed (gs_graph empty_store)" by (simp add: graph_closed_def empty_store_def empty_graph_def)
  moreover have "graph_closed (rs_graph ?src)"
    by (simp add: graph_closed_def user_graph_def graph_ids_def empty_graph_def plain_node_def plain_edge_def
        true_source_def true_target_def get_str_def)
  ultimately have "graph_closed (gs_graph st)" using global_add_keeps_closed [OF _ _ add] by blast
  moreover have "added ''a'' ''1'' empty_store = st" using add by (simp add: added_def)
  moreover have "list_all (\<lambda>e. true_source e = ''a::m'' \<and> true_target e = ''a::serde'') (g_links (gs_graph (added ''a'' ''1'' empty_store)))"
    by code_simp
  ultimately show ?thesis by simp
qed

lemma update_loses_foreign_edges_witness:
  "\<exists>res st'. global_add ''0'' \<lparr>rs_path = ''a'', rs_hash = ''2'', rs_graph = user_graph\<rparr> ''a''
        (added ''b'' ''1'' (added ''a'' ''1'' empty_store)) = Inr (res, st')
     \<and> (''b::m'', ''a::serde'', ''imports'') \<notin> link_key ` set (g_links (gs_graph st'))"
proof -
  let ?st = "added ''b'' ''1'' (added ''a'' ''1'' empty_store)"
  let ?src = "\<lparr>rs_path = ''a'', rs_hash = ''2'', rs_graph = user_graph\<rparr>"
  define old where "old = gs_graph ?st"
  have run: "case global_add ''0'' ?src ''a'' ?st of Inl _ \<Rightarrow> False | Inr (res, _) \<Rightarrow> \<not> ar_skipped res" by code_simp
  then obtain res st' where add: "global_add ''0'' ?src ''a'' ?st = Inr (res, st')" "\<not> ar_skipped res"
    by (auto split: sum.splits)
  have "distinct (map n_id (g_nodes old)) \<and> list_all (\<lambda>e. true_source e \<in> set (map n_id (g_nodes old))
      \<and> true_target e \<in> set (map n_id (g_nodes old))) (g_links old)" unfolding old_def by code_simp
  then have closed: "graph_closed old" by (simp add: graph_closed_def graph_ids_def list_all_iff)
  have src: "graph_closed (rs_graph ?src)"
    by (simp add: graph_closed_def graph_ids_def user_graph_def plain_node_def plain_edge_def true_source_def true_target_def get_str_def)
  have "list_ex (\<lambda>e. link_key e = (''b::m'', ''a::serde'', ''imports'')) (g_links old)
      \<and> list_ex (\<lambda>n. n_id n = ''a::serde'' \<and> get_str (n_extra n) ''repo'' = Some ''a'') (g_nodes old)
      \<and> list_ex (\<lambda>n. n_id n = ''b::m'' \<and> n_source_file n \<noteq> []) (g_nodes old)" unfolding old_def by code_simp
  then obtain e n m where e: "e \<in> set (g_links old)" "link_key e = (''b::m'', ''a::serde'', ''imports'')"
    and n: "n \<in> set (g_nodes old)" "n_id n = ''a::serde''" "get_str (n_extra n) ''repo'' = Some ''a''"
    and m: "m \<in> set (g_nodes old)" "n_id m = ''b::m''" "n_source_file m \<noteq> []"
    by (auto simp: list_ex_iff)
  have "true_target e \<in> owned ''a'' old" using e(2) n by (force simp: owned_def link_key_def)
  moreover have "foreign_file ''a'' old (true_source e)"
    using e(2) m by (auto simp: foreign_file_def link_key_def with_tag_def)
  ultimately have "link_key e \<notin> link_key ` set (g_links (gs_graph st'))"
    using update_loses_foreign_edges [OF closed [unfolded old_def] src add e(1) [unfolded old_def]]
    unfolding old_def by blast
  then show ?thesis using add(1) e(2) by auto
qed

end
