(* ===== verification/AtomicWrite.thy ===== *)
theory AtomicWrite
  imports Json
begin

text \<open>
  Atomic replacement of a file (\<open>atomic_write_destination\<close> of \<open>graphoxide-core/src/io.rs\<close>): write a
  temporary file beside the destination, sync it, rename it over the destination, sync the directory. The
  system calls may fail at any point and several writers of one process may interleave, so the writer is a
  step relation; the state of the disk after each step is what a crash at that point leaves behind.
\<close>

section \<open>Paths and files\<close>

text \<open>A path is the list of its components, as written.\<close>

type_synonym path = "(nat \<times> string) list"

record stored_file =
  f_data :: string
  f_mode :: nat

type_synonym disk = "path \<Rightarrow> stored_file option"

definition parent_directory :: "path \<Rightarrow> path" where
  "parent_directory p =
     (case components_parent p of None \<Rightarrow> [(1, ''.'')] | Some q \<Rightarrow> if q = [] then [(1, ''.'')] else q)"

definition destination_name :: "path \<Rightarrow> string" where
  "destination_name p = (if p \<noteq> [] \<and> fst (last p) = 3 then snd (last p) else ''graph.json'')"

definition temporary_name :: "string \<Rightarrow> nat \<Rightarrow> nat \<Rightarrow> string" where
  "temporary_name name pid sequence = ''.'' @ name @ ''.'' @ show_nat pid @ ''.'' @ show_nat sequence @ ''.tmp''"

definition temporary_path :: "nat \<Rightarrow> path \<Rightarrow> nat \<Rightarrow> path" where
  "temporary_path pid destination sequence =
     parent_directory destination @ [(3, temporary_name (destination_name destination) pid sequence)]"

text \<open>What a path names without following links.\<close>

datatype path_kind = Absent | Regular | Link "path option" | OtherKind | Unreadable

text \<open>\<open>resolve_destination\<close> follows a link, the strict variant refuses it.\<close>

definition resolve_destination :: "(path \<Rightarrow> path_kind) \<Rightarrow> path \<Rightarrow> path option" where
  "resolve_destination kind p = (case kind p of Link target \<Rightarrow> target | _ \<Rightarrow> Some p)"

definition validate_strict_destination :: "(path \<Rightarrow> path_kind) \<Rightarrow> path \<Rightarrow> bool" where
  "validate_strict_destination kind p = (case kind p of Regular \<Rightarrow> True | Absent \<Rightarrow> True | _ \<Rightarrow> False)"

section \<open>A writer\<close>

text \<open>Where a writer stands: before anything, with attempts left to open a temporary file, with that file
  open, with the rest to write, with the file synced, renamed, on its way out after an error, at the end.\<close>

datatype phase =
    Waiting
  | Opening nat
  | Opened path
  | Writing path string
  | Synced path
  | Renamed path
  | Cleaning path
  | Failed
  | Done

definition new_file :: "nat \<Rightarrow> stored_file" where
  "new_file mode = \<lparr>f_data = [], f_mode = mode\<rparr>"

text \<open>The parameters are the process number and the mode of a new file, then the destination and the text.
  The state is the disk, the counter for temporary names that all writers share, and the phase.\<close>

inductive acts :: "nat \<Rightarrow> nat \<Rightarrow> path \<Rightarrow> string \<Rightarrow> disk \<times> nat \<times> phase \<Rightarrow> disk \<times> nat \<times> phase \<Rightarrow> bool"
  for pid mode destination content where
  make_directory: "acts pid mode destination content (d, c, Waiting) (d, c, Opening 128)"
| directory_fails: "acts pid mode destination content (d, c, Waiting) (d, c, Failed)"
| open_new: "t = temporary_path pid destination c \<Longrightarrow> d t = None \<Longrightarrow>
    acts pid mode destination content (d, c, Opening (Suc n)) (d(t \<mapsto> new_file mode), c + 1, Opened t)"
| open_exists: "d (temporary_path pid destination c) \<noteq> None \<Longrightarrow>
    acts pid mode destination content (d, c, Opening (Suc n)) (d, c + 1, Opening n)"
| open_fails: "acts pid mode destination content (d, c, Opening (Suc n)) (d, c + 1, Failed)"
| attempts_exhausted: "acts pid mode destination content (d, c, Opening 0) (d, c, Failed)"
| keep_mode: "d destination = Some f \<Longrightarrow> d t = Some g \<Longrightarrow>
    acts pid mode destination content (d, c, Opened t) (d(t \<mapsto> g\<lparr>f_mode := f_mode f\<rparr>), c, Writing t content)"
| no_metadata: "acts pid mode destination content (d, c, Opened t) (d, c, Writing t content)"
| set_mode_fails: "acts pid mode destination content (d, c, Opened t) (d, c, Cleaning t)"
| write_some: "x \<noteq> [] \<Longrightarrow> d t = Some g \<Longrightarrow>
    acts pid mode destination content (d, c, Writing t (x @ rest)) (d(t \<mapsto> g\<lparr>f_data := f_data g @ x\<rparr>), c, Writing t rest)"
| write_fails: "acts pid mode destination content (d, c, Writing t rest) (d, c, Cleaning t)"
| sync_file: "acts pid mode destination content (d, c, Writing t []) (d, c, Synced t)"
| replace: "acts pid mode destination content (d, c, Synced t) (d(destination := d t, t := None), c, Renamed t)"
| replace_fails: "acts pid mode destination content (d, c, Synced t) (d, c, Cleaning t)"
| sync_directory: "acts pid mode destination content (d, c, Renamed t) (d, c, Done)"
| sync_directory_fails: "acts pid mode destination content (d, c, Renamed t) (d, c, Cleaning t)"
| remove_temporary: "acts pid mode destination content (d, c, Cleaning t) (d(t := None), c, Failed)"
| remove_fails: "acts pid mode destination content (d, c, Cleaning t) (d, c, Failed)"

text \<open>A job is a destination and a text; the writers of the jobs take their steps in any order.\<close>

type_synonym job = "path \<times> string"
type_synonym world = "disk \<times> nat \<times> phase list"

inductive moves :: "nat \<Rightarrow> nat \<Rightarrow> job list \<Rightarrow> world \<Rightarrow> world \<Rightarrow> bool" for pid mode jobs where
  job_moves: "i < length jobs \<Longrightarrow> acts pid mode (fst (jobs ! i)) (snd (jobs ! i)) (d, c, ps ! i) (d', c', p') \<Longrightarrow>
    moves pid mode jobs (d, c, ps) (d', c', ps[i := p'])"

inductive_cases acts_elim: "acts pid mode destination content (d, c, p) s"

definition starting :: "job list \<Rightarrow> phase list" where
  "starting jobs = replicate (length jobs) Waiting"

section \<open>Names of temporary files\<close>

lemma temporary_path_seq:
  assumes "temporary_path pid d s = temporary_path pid' d' s'"
  shows "s = s'"
proof -
  have digits: "takeWhile (\<lambda>c. c \<noteq> CHR ''.'') (drop 4 (rev (temporary_name n q k))) = rev (show_nat k)" for n q k
  proof -
    have "\<forall>c \<in> set (rev (show_nat k)). c \<noteq> CHR ''.''"
      using digits_show_nat [of "CHR ''.''" k] by (auto simp: ascii_digit_def less_eq_char_def)
    then show ?thesis by (simp add: temporary_name_def takeWhile_stop)
  qed
  from assms have "temporary_name (destination_name d) pid s = temporary_name (destination_name d') pid' s'"
    by (simp add: temporary_path_def)
  then have "show_nat s = show_nat s'" using digits by (metis rev_rev_ident)
  then show ?thesis by (rule show_nat_inj)
qed

section \<open>The invariant of the interleaved writers\<close>

fun holds :: "phase \<Rightarrow> path option" where
  "holds (Opened t) = Some t"
| "holds (Writing t _) = Some t"
| "holds (Synced t) = Some t"
| "holds (Renamed t) = Some t"
| "holds (Cleaning t) = Some t"
| "holds _ = None"

text \<open>What the temporary file of a writer holds.\<close>

fun temporary_ok :: "string \<Rightarrow> disk \<Rightarrow> phase \<Rightarrow> bool" where
  "temporary_ok content d (Opened t) \<longleftrightarrow> (\<exists>f. d t = Some f \<and> f_data f = [])"
| "temporary_ok content d (Writing t rest) \<longleftrightarrow> (\<exists>f. d t = Some f \<and> f_data f @ rest = content)"
| "temporary_ok content d (Synced t) \<longleftrightarrow> (\<exists>f. d t = Some f \<and> f_data f = content)"
| "temporary_ok content d _ \<longleftrightarrow> True"

definition complete :: "job list \<Rightarrow> disk \<Rightarrow> path \<Rightarrow> bool" where
  "complete jobs d p \<longleftrightarrow> (\<exists>j < length jobs. fst (jobs ! j) = p \<and> (\<exists>f. d p = Some f \<and> f_data f = snd (jobs ! j)))"

definition temporary :: "nat \<Rightarrow> job list \<Rightarrow> path \<Rightarrow> bool" where
  "temporary pid jobs p \<longleftrightarrow> (\<exists>j < length jobs. \<exists>s. p = temporary_path pid (fst (jobs ! j)) s)"

definition writers_ok :: "nat \<Rightarrow> job list \<Rightarrow> disk \<Rightarrow> world \<Rightarrow> bool" where
  "writers_ok pid jobs d0 w \<longleftrightarrow>
     (case w of (d, c, ps) \<Rightarrow>
        length ps = length jobs
        \<and> (\<forall>i < length jobs. \<forall>t. holds (ps ! i) = Some t \<longrightarrow> (\<exists>s < c. t = temporary_path pid (fst (jobs ! i)) s))
        \<and> (\<forall>i < length jobs. \<forall>j < length jobs. i \<noteq> j \<longrightarrow> holds (ps ! i) \<noteq> None \<longrightarrow> holds (ps ! i) \<noteq> holds (ps ! j))
        \<and> (\<forall>i < length jobs. temporary_ok (snd (jobs ! i)) d (ps ! i))
        \<and> (\<forall>i < length jobs. (\<exists>t. ps ! i = Renamed t) \<or> ps ! i = Done \<longrightarrow> complete jobs d (fst (jobs ! i)))
        \<and> (\<forall>p. \<not> temporary pid jobs p \<longrightarrow> d p = d0 p \<or> complete jobs d p))"

text \<open>What a step does to the disk, the counter and the temporary file it holds.\<close>

lemma acts_frame:
  assumes "acts pid mode destination content (d, c, p) (d', c', p')"
  shows "q \<noteq> destination \<Longrightarrow> holds p \<noteq> Some q \<Longrightarrow> holds p' \<noteq> Some q \<Longrightarrow> d' q = d q"
    "c \<le> c'"
    "holds p' = Some t \<Longrightarrow> holds p = Some t \<or> t = temporary_path pid destination c \<and> c' = c + 1"
  using assms by (cases; auto)+

lemma acts_temporary:
  assumes "acts pid mode destination content (d, c, p) (d', c', p')" and "temporary_ok content d p"
  shows "temporary_ok content d' p'"
  using assms by cases (auto simp: new_file_def)

lemma acts_destination:
  assumes "acts pid mode destination content (d, c, p) (d', c', p')" and "temporary_ok content d p"
    and "holds p \<noteq> Some destination" "holds p' \<noteq> Some destination"
  shows "d' destination = d destination \<and> (\<forall>t. p' \<noteq> Renamed t) \<or> (\<exists>f. d' destination = Some f \<and> f_data f = content)"
  using assms by cases auto

lemma acts_done: "acts pid mode destination content (d, c, p) (d', c', Done) \<Longrightarrow> \<exists>t. p = Renamed t"
  by (cases rule: acts.cases) auto

lemma temporary_ok_frame: "temporary_ok content d p \<Longrightarrow> (\<And>t. holds p = Some t \<Longrightarrow> d' t = d t) \<Longrightarrow> temporary_ok content d' p"
  by (cases p) auto

lemma writers_okD:
  assumes "writers_ok pid jobs d0 (d, c, ps)"
  shows "length ps = length jobs"
    "i < length jobs \<Longrightarrow> holds (ps ! i) = Some t \<Longrightarrow> \<exists>s < c. t = temporary_path pid (fst (jobs ! i)) s"
    "i < length jobs \<Longrightarrow> j < length jobs \<Longrightarrow> i \<noteq> j \<Longrightarrow> holds (ps ! i) = Some t \<Longrightarrow> holds (ps ! j) \<noteq> Some t"
    "i < length jobs \<Longrightarrow> temporary_ok (snd (jobs ! i)) d (ps ! i)"
    "i < length jobs \<Longrightarrow> ps ! i = Renamed t \<or> ps ! i = Done \<Longrightarrow> complete jobs d (fst (jobs ! i))"
    "\<not> temporary pid jobs q \<Longrightarrow> d q = d0 q \<or> complete jobs d q"
  using assms unfolding writers_ok_def by (auto simp del: not_None_eq) (metis option.distinct(1))+

lemma moves_writers_ok:
  assumes step: "moves pid mode jobs (d, c, ps) w" and ok: "writers_ok pid jobs d0 (d, c, ps)"
    and plain: "\<forall>j < length jobs. \<not> temporary pid jobs (fst (jobs ! j))"
  shows "writers_ok pid jobs d0 w"
  using step
proof cases
  case (job_moves i d' c' p')
  note i = job_moves(2) and act = job_moves(3) and ok = writers_okD [OF ok]
  let ?dest = "fst (jobs ! i)"
  have is_temporary: "temporary pid jobs t" if "holds p' = Some t \<or> holds (ps ! i) = Some t" for t
    using that ok(2) [OF i] acts_frame(3) [OF act] i unfolding temporary_def by blast
  have frame: "d' q = d q" if "q \<noteq> ?dest" "\<not> temporary pid jobs q" for q
    using acts_frame(1) [OF act that(1)] is_temporary that(2) by blast
  have dest: "d' ?dest = d ?dest \<and> (\<forall>t. p' \<noteq> Renamed t) \<or> (\<exists>f. d' ?dest = Some f \<and> f_data f = snd (jobs ! i))"
    using acts_destination [OF act ok(4) [OF i]] is_temporary plain i by blast
  have complete: "complete jobs d' q" if "complete jobs d q" "\<not> temporary pid jobs q" for q
  proof (cases "q = ?dest")
    case True
    then show ?thesis using dest that(1) i unfolding complete_def by (metis (no_types, lifting))
  next
    case False
    then show ?thesis using frame [OF False that(2)] that(1) unfolding complete_def by simp
  qed
  have other: "t \<noteq> ?dest \<and> holds p' \<noteq> Some t \<and> holds (ps ! i) \<noteq> Some t"
    if j: "j < length jobs" "j \<noteq> i" and t: "holds (ps ! j) = Some t" for j t
  proof -
    obtain k where k: "k < c" "t = temporary_path pid (fst (jobs ! j)) k" using ok(2) [OF j(1) t] by blast
    then have "temporary pid jobs t" using j(1) unfolding temporary_def by blast
    then have "t \<noteq> ?dest" using plain i by blast
    moreover have mine: "holds (ps ! i) \<noteq> Some t" using ok(3) [OF j(1) i j(2) t] .
    moreover have "holds p' \<noteq> Some t"
      using acts_frame(3) [OF act, of t] mine k temporary_path_seq [of pid "fst (jobs ! j)" k pid ?dest c] by auto
    ultimately show ?thesis by blast
  qed
  let ?ps = "ps[i := p']"
  have len: "length ?ps = length jobs" using ok(1) by simp
  have at: "?ps ! j = (if j = i then p' else ps ! j)" if "j < length jobs" for j using that ok(1) i by simp
  have names: "\<exists>k < c'. t = temporary_path pid (fst (jobs ! j)) k" if j: "j < length jobs" "holds (?ps ! j) = Some t" for j t
  proof (cases "j = i")
    case True
    then have "holds p' = Some t" using j at by simp
    then show ?thesis
      using acts_frame(2) [OF act] acts_frame(3) [OF act, of t] ok(2) [OF i, of t] True by (metis less_add_one less_le_trans)
  next
    case False
    then show ?thesis using ok(2) [OF j(1)] j at acts_frame(2) [OF act] by (metis less_le_trans)
  qed
  have apart: "holds (?ps ! j) \<noteq> holds (?ps ! k)"
    if jk: "j < length jobs" "k < length jobs" "j \<noteq> k" "holds (?ps ! j) \<noteq> None" for j k
  proof -
    obtain t where t: "holds (?ps ! j) = Some t" using jk(4) by blast
    have "holds (?ps ! k) \<noteq> Some t"
    proof
      assume k: "holds (?ps ! k) = Some t"
      consider "j = i" "k \<noteq> i" | "k = i" "j \<noteq> i" | "j \<noteq> i" "k \<noteq> i" using jk(3) by blast
      then show False
      proof cases
        case 1
        then show ?thesis using t k at jk other [OF jk(2)] by simp
      next
        case 2
        then show ?thesis using t k at jk other [OF jk(1)] by simp
      next
        case 3
        then show ?thesis using t k at jk ok(3) [OF jk(1,2,3)] by simp
      qed
    qed
    then show ?thesis using t by simp
  qed
  have contents: "temporary_ok (snd (jobs ! j)) d' (?ps ! j)" if j: "j < length jobs" for j
  proof (cases "j = i")
    case True
    then show ?thesis using acts_temporary [OF act ok(4) [OF i]] at j by simp
  next
    case False
    then have "d' t = d t" if "holds (ps ! j) = Some t" for t
      using other [OF j False that] acts_frame(1) [OF act] by blast
    then show ?thesis using temporary_ok_frame [OF ok(4) [OF j]] at j False by simp
  qed
  have replaced: "complete jobs d' (fst (jobs ! j))" if j: "j < length jobs" "(\<exists>t. ?ps ! j = Renamed t) \<or> ?ps ! j = Done" for j
  proof (cases "j = i")
    case True
    then consider t where "p' = Renamed t" | "p' = Done" using j at by auto
    then show ?thesis
    proof cases
      case 1
      then show ?thesis using dest True i unfolding complete_def by blast
    next
      case 2
      then obtain t where "ps ! i = Renamed t" using acts_done act by blast
      then have "complete jobs d ?dest" using ok(5) [OF i] by blast
      then show ?thesis using complete plain i True by blast
    qed
  next
    case False
    then have "complete jobs d (fst (jobs ! j))" using ok(5) [OF j(1)] j at by auto
    then show ?thesis using complete plain j(1) by blast
  qed
  have kept: "d' q = d0 q \<or> complete jobs d' q" if q: "\<not> temporary pid jobs q" for q
  proof (cases "q = ?dest")
    case True
    then show ?thesis using dest ok(6) [OF q] complete [OF _ q] i unfolding complete_def by (metis (no_types, lifting))
  next
    case False
    then show ?thesis using frame [OF False q] ok(6) [OF q] complete [OF _ q] by auto
  qed
  show ?thesis
    unfolding writers_ok_def job_moves(1) prod.case using len names apart contents replaced kept by blast
qed

definition reaches :: "nat \<Rightarrow> nat \<Rightarrow> job list \<Rightarrow> world \<Rightarrow> world \<Rightarrow> bool" where
  "reaches pid mode jobs = (moves pid mode jobs)\<^sup>*\<^sup>*"

text \<open>
  C38: whatever system calls fail, however the writers of one process interleave and wherever they are
  stopped, every path but their temporary files holds what it held before or the whole text of a write to
  it; and a write that reports success left a whole text at its destination.
\<close>

theorem atomic_write_safe:
  assumes "\<forall>j < length jobs. \<not> temporary pid jobs (fst (jobs ! j))"
    and "reaches pid mode jobs (d0, c0, starting jobs) (d, c, ps)"
  shows "(\<forall>p. \<not> temporary pid jobs p \<longrightarrow> d p = d0 p \<or> complete jobs d p)
    \<and> (\<forall>i < length jobs. ps ! i = Done \<longrightarrow> complete jobs d (fst (jobs ! i)))"
proof -
  have start: "writers_ok pid jobs d0 (d0, c0, starting jobs)"
    by (simp add: writers_ok_def starting_def)
  have step: "writers_ok pid jobs d0 w'" if "moves pid mode jobs w w'" "writers_ok pid jobs d0 w" for w w'
    using that assms(1) by (cases w) (auto intro: moves_writers_ok)
  have "writers_ok pid jobs d0 w" if "(moves pid mode jobs)\<^sup>*\<^sup>* (d0, c0, starting jobs) w" for w
    using that by (induction rule: rtranclp_induct) (use start step in blast)+
  then show ?thesis using assms(2) writers_okD(5,6) unfolding reaches_def by blast
qed

section \<open>Writers come to an end\<close>

fun rank :: "string \<Rightarrow> phase \<Rightarrow> nat" where
  "rank content Waiting = 136 + length content"
| "rank content (Opening n) = 7 + n + length content"
| "rank content (Opened _) = 6 + length content"
| "rank content (Writing _ rest) = 5 + length rest"
| "rank content (Synced _) = 4"
| "rank content (Renamed _) = 3"
| "rank content (Cleaning _) = 2"
| "rank content _ = 1"

lemma acts_rank: "acts pid mode destination content (d, c, p) (d', c', p') \<Longrightarrow> rank content p' < rank content p"
  by (cases rule: acts.cases) auto

definition total_rank :: "job list \<Rightarrow> phase list \<Rightarrow> nat" where
  "total_rank jobs ps = sum_list (map2 (\<lambda>j p. rank (snd j) p) jobs ps)"

lemma total_rank_update:
  "length ps = length jobs \<Longrightarrow> i < length jobs \<Longrightarrow> rank (snd (jobs ! i)) p' < rank (snd (jobs ! i)) (ps ! i)
     \<Longrightarrow> total_rank jobs (ps[i := p']) < total_rank jobs ps"
proof (induction jobs arbitrary: ps i)
  case (Cons j jobs)
  then obtain p qs where ps: "ps = p # qs" by (cases ps) auto
  show ?case
  proof (cases i)
    case 0
    then show ?thesis using Cons.prems by (simp add: ps total_rank_def)
  next
    case (Suc k)
    then show ?thesis using Cons.IH [of qs k] Cons.prems by (simp add: ps total_rank_def)
  qed
qed simp

lemma moves_rank:
  "(moves pid mode jobs ^^ k) (d0, c0, starting jobs) (d, c, ps) \<Longrightarrow>
     length ps = length jobs \<and> k + total_rank jobs ps \<le> total_rank jobs (starting jobs)"
proof (induction k arbitrary: d c ps)
  case 0
  then show ?case by (auto simp: starting_def)
next
  case (Suc k)
  then obtain d1 c1 ps1 where run: "(moves pid mode jobs ^^ k) (d0, c0, starting jobs) (d1, c1, ps1)"
      and last: "moves pid mode jobs (d1, c1, ps1) (d, c, ps)"
    by (auto elim: relcomppE)
  note IH = Suc.IH [OF run]
  from last show ?case
  proof cases
    case (job_moves i p')
    then have "total_rank jobs (ps1[i := p']) < total_rank jobs ps1"
      using IH acts_rank by (intro total_rank_update) blast+
    then show ?thesis using IH job_moves(1) by simp
  qed
qed

lemma acts_possible: "p \<noteq> Done \<Longrightarrow> p \<noteq> Failed \<Longrightarrow> \<exists>s. acts pid mode destination content (d, c, p) s"
proof (cases p)
  case (Opening n)
  then show ?thesis by (cases n) (auto intro: acts.intros)
qed (auto intro: acts.intros)

text \<open>
  C39: every run of the writers is finite, with a bound that grows with the number of writes and the length
  of their texts, and it only stops when every write has reported success or an error.
\<close>

theorem writers_finish:
  assumes "(moves pid mode jobs ^^ k) (d0, c0, starting jobs) (d, c, ps)"
  shows "k \<le> sum_list (map (\<lambda>j. 136 + length (snd j)) jobs)
    \<and> ((\<exists>w. moves pid mode jobs (d, c, ps) w) \<or> (\<forall>p \<in> set ps. p = Done \<or> p = Failed))"
proof
  note rank = moves_rank [OF assms]
  have "total_rank jobs (starting jobs) = sum_list (map (\<lambda>j. 136 + length (snd j)) jobs)"
    unfolding total_rank_def starting_def by (induction jobs) simp_all
  then show "k \<le> sum_list (map (\<lambda>j. 136 + length (snd j)) jobs)" using rank by simp
  show "(\<exists>w. moves pid mode jobs (d, c, ps) w) \<or> (\<forall>p \<in> set ps. p = Done \<or> p = Failed)"
  proof (rule disjCI)
    assume "\<not> (\<forall>p \<in> set ps. p = Done \<or> p = Failed)"
    then obtain i where i: "i < length jobs" "ps ! i \<noteq> Done" "ps ! i \<noteq> Failed" using rank by (metis in_set_conv_nth)
    then obtain d' c' p' where "acts pid mode (fst (jobs ! i)) (snd (jobs ! i)) (d, c, ps ! i) (d', c', p')"
      using acts_possible by (metis prod_cases3)
    then show "\<exists>w. moves pid mode jobs (d, c, ps) w" using moves.job_moves i(1) by blast
  qed
qed

text \<open>A writer whose calls all succeed, with no file at its destination before.\<close>

lemma lone_writer:
  assumes fresh: "d (temporary_path pid p c) = None" and new: "content \<noteq> []" and plain: "p \<noteq> temporary_path pid p c"
    and written: "written = \<lparr>f_data = content, f_mode = mode\<rparr>"
  shows "(moves pid mode [(p, content)] ^^ 7) (d, c, starting [(p, content)])
    (d(p \<mapsto> written), c + 1, [Done])"
proof -
  let ?jobs = "[(p, content)]" and ?t = "temporary_path pid p c"
  have move: "moves pid mode ?jobs (d1, c1, [q]) (d2, c2, [q'])" if "acts pid mode p content (d1, c1, q) (d2, c2, q')" for d1 c1 q d2 c2 q'
    using moves.job_moves [of 0 ?jobs pid mode d1 c1 "[q]" d2 c2 q'] that by simp
  let ?d1 = "d(?t \<mapsto> new_file mode)" and ?d2 = "d(?t \<mapsto> written)"
  have "acts pid mode p content (?d1, c + 1, Writing ?t (content @ [])) (?d1(?t \<mapsto> (new_file mode)\<lparr>f_data := f_data (new_file mode) @ content\<rparr>), c + 1, Writing ?t [])"
    by (rule acts.write_some) (simp_all add: new)
  then have wrote: "acts pid mode p content (?d1, c + 1, Writing ?t content) (?d2, c + 1, Writing ?t [])"
    by (simp add: written new_file_def)
  have "acts pid mode p content (?d2, c + 1, Synced ?t) (?d2(p := ?d2 ?t, ?t := None), c + 1, Renamed ?t)"
    by (rule acts.replace)
  moreover have "?d2(p := ?d2 ?t, ?t := None) = d(p \<mapsto> written)" using fresh plain by (auto simp: fun_eq_iff)
  ultimately have replaced: "acts pid mode p content (?d2, c + 1, Synced ?t) (d(p \<mapsto> written), c + 1, Renamed ?t)" by simp
  have "acts pid mode p content (d, c, Opening (Suc 127)) (?d1, c + 1, Opened ?t)"
    by (rule acts.open_new) (simp_all add: fresh)
  then have opened: "acts pid mode p content (d, c, Opening 128) (?d1, c + 1, Opened ?t)" by simp
  have seven: "(7 :: nat) = Suc (Suc (Suc (Suc (Suc (Suc (Suc 0))))))" by simp
  show ?thesis
    unfolding seven starting_def
    by (auto intro!: relcomppI move acts.make_directory opened acts.no_metadata wrote acts.sync_file replaced acts.sync_directory)
qed

lemma atomic_write_safe_witness:
  "complete [([(3, ''g'')], ''{}'')] (Map.empty([(3, ''g'')] \<mapsto> \<lparr>f_data = ''{}'', f_mode = 420\<rparr>)) [(3, ''g'')]"
proof -
  let ?p = "[(3, ''g'')] :: path"
  let ?jobs = "[(?p, ''{}'')]"
  have other: "?p \<noteq> temporary_path 7 ?p k" for k
    by (simp add: temporary_path_def parent_directory_def components_parent_def)
  then have "\<forall>j < length ?jobs. \<not> temporary 7 ?jobs (fst (?jobs ! j))" by (simp add: temporary_def)
  moreover have "(moves 7 420 ?jobs ^^ 7) (Map.empty, 0, starting ?jobs)
      (Map.empty(?p \<mapsto> \<lparr>f_data = ''{}'', f_mode = 420\<rparr>), 0 + 1, [Done])"
    by (rule lone_writer) (simp_all add: other)
  then have "reaches 7 420 ?jobs (Map.empty, 0, starting ?jobs) (Map.empty(?p \<mapsto> \<lparr>f_data = ''{}'', f_mode = 420\<rparr>), 0 + 1, [Done])"
    unfolding reaches_def by (rule relpowp_imp_rtranclp)
  ultimately have "\<forall>i < length ?jobs. [Done] ! i = Done \<longrightarrow>
      complete ?jobs (Map.empty(?p \<mapsto> \<lparr>f_data = ''{}'', f_mode = 420\<rparr>)) (fst (?jobs ! i))"
    using atomic_write_safe by blast
  then show ?thesis by simp
qed

lemma writers_finish_witness:
  "(7 :: nat) \<le> 138 \<and> (moves 7 420 [([(3, ''g'')], ''{}'')] ^^ 7) (Map.empty, 0, starting [([(3, ''g'')], ''{}'')])
     (Map.empty([(3, ''g'')] \<mapsto> \<lparr>f_data = ''{}'', f_mode = 420\<rparr>), 1, [Done])"
proof -
  let ?p = "[(3, ''g'')] :: path"
  have "?p \<noteq> temporary_path 7 ?p 0" by (simp add: temporary_path_def parent_directory_def components_parent_def)
  then have run: "(moves 7 420 [(?p, ''{}'')] ^^ 7) (Map.empty, 0, starting [(?p, ''{}'')])
      (Map.empty(?p \<mapsto> \<lparr>f_data = ''{}'', f_mode = 420\<rparr>), 0 + 1, [Done])"
    by (intro lone_writer) simp_all
  from writers_finish [OF run] have "(7 :: nat) \<le> sum_list (map (\<lambda>j. 136 + length (snd j)) [(?p, ''{}'')])" by blast
  with run show ?thesis by simp
qed

end
