(* ===== verification/GraphIo.thy ===== *)
theory GraphIo
  imports Ids
begin

text \<open>
  Reading and writing graph files (\<open>graphoxide-core/src/io.rs\<close>), but for the file system: the size cap and
  its text form, what a bounded read admits, the guard against overwriting a larger graph, and the last
  transformation of a graph before it is written. The replacement of the file is in \<open>AtomicWrite\<close>.
\<close>

section \<open>The size cap\<close>

definition default_max_graph_bytes :: nat where
  "default_max_graph_bytes = 512 * 1024 * 1024"

text \<open>\<open>str::parse::<u64>()\<close>: an optional plus, digits, within the range.\<close>

definition parse_u64 :: "string \<Rightarrow> nat option" where
  "parse_u64 s =
     (let ds = (case s of [] \<Rightarrow> [] | c # cs \<Rightarrow> if c = CHR ''+'' then cs else s)
      in if ds = [] \<or> \<not> list_all ascii_digit ds \<or> digits_value ds \<ge> 2 ^ 64 then None else Some (digits_value ds))"

definition to_ascii_upper :: "char \<Rightarrow> char" where
  "to_ascii_upper c = (if ascii_lower c then char_of (of_char c - 32 :: nat) else c)"

definition size_unit :: "string \<Rightarrow> string \<times> nat" where
  "size_unit s =
     (case strip_suffix ''GB'' s of
        Some v \<Rightarrow> (trim v, 1024 * 1024 * 1024)
      | None \<Rightarrow> (case strip_suffix ''MB'' s of Some v \<Rightarrow> (trim v, 1024 * 1024) | None \<Rightarrow> (trim s, 1)))"

definition parse_max_graph_bytes :: "string option \<Rightarrow> nat" where
  "parse_max_graph_bytes raw =
     (case Option.bind raw (\<lambda>r. if trim r = [] then None else Some (trim r)) of
        None \<Rightarrow> default_max_graph_bytes
      | Some r \<Rightarrow>
          let (number, multiplier) = size_unit (map to_ascii_upper r)
          in case parse_u64 number of
               None \<Rightarrow> default_max_graph_bytes
             | Some v \<Rightarrow> if v > 0 \<and> v * multiplier < 2 ^ 64 then v * multiplier else default_max_graph_bytes)"

text \<open>The variable of this program comes first, then the one of the program it replaces.\<close>

definition max_graph_bytes :: "(string \<Rightarrow> string option) \<Rightarrow> nat" where
  "max_graph_bytes env =
     parse_max_graph_bytes
       (case env ''GRAPHOXIDE_MAX_GRAPH_BYTES'' of None \<Rightarrow> env ''GRAPHIFY_MAX_GRAPH_BYTES'' | Some v \<Rightarrow> Some v)"

section \<open>Bounded reads\<close>

datatype read_error = TooLarge nat | TooLargeAtLeast nat | Corrupt | NotAnObject

text \<open>What is read of a file that holds \<open>bytes\<close> when it is read, whatever its size was before.\<close>

definition read_bytes_with_cap :: "nat \<Rightarrow> string \<Rightarrow> read_error + string" where
  "read_bytes_with_cap limit bytes =
     (let got = take (min (limit + 1) (2 ^ 64 - 1)) bytes
      in if length got \<le> limit then Inr got else Inl (TooLargeAtLeast (length got)))"

definition read_graph_from_open_file_with_cap ::
  "(string \<Rightarrow> 'g option) \<Rightarrow> nat \<Rightarrow> nat \<Rightarrow> string \<Rightarrow> read_error + 'g \<times> nat" where
  "read_graph_from_open_file_with_cap parse limit len bytes =
     (if len > limit then Inl (TooLarge len)
      else case read_bytes_with_cap limit bytes of
             Inl err \<Rightarrow> Inl err
           | Inr got \<Rightarrow> (case parse got of None \<Rightarrow> Inl Corrupt | Some g \<Rightarrow> Inr (g, length got)))"

definition read_json_object_from_reader_with_cap ::
  "(string \<Rightarrow> json option) \<Rightarrow> nat \<Rightarrow> nat \<Rightarrow> string \<Rightarrow> read_error + jobject" where
  "read_json_object_from_reader_with_cap parse limit len bytes =
     (if len > limit then Inl (TooLarge len)
      else case read_bytes_with_cap limit bytes of
             Inl err \<Rightarrow> Inl err
           | Inr got \<Rightarrow>
               (case parse got of
                  None \<Rightarrow> Inl Corrupt
                | Some v \<Rightarrow> (case as_object v of None \<Rightarrow> Inl NotAnObject | Some m \<Rightarrow> Inr m)))"

text \<open>The length is none when the file cannot be examined.\<close>

definition check_graph_file_size_cap_with :: "nat option \<Rightarrow> nat \<Rightarrow> bool" where
  "check_graph_file_size_cap_with len limit = (case len of None \<Rightarrow> True | Some n \<Rightarrow> n \<le> limit)"

section \<open>Writing\<close>

text \<open>The graph that is at the destination already, if any: its number of nodes, unless it cannot be read.\<close>

datatype existing = NoFile | UnreadableGraph | GraphOf nat

datatype write_decision = Refused | Kept | Written

definition write_guard :: "bool \<Rightarrow> existing \<Rightarrow> nat \<Rightarrow> write_decision" where
  "write_guard force existing node_count =
     (if force then Written
      else case existing of
             NoFile \<Rightarrow> Written
           | UnreadableGraph \<Rightarrow> Refused
           | GraphOf n \<Rightarrow> if node_count < n then Kept else Written)"

definition strip_diacritics :: "(string \<Rightarrow> string) \<Rightarrow> unicode \<Rightarrow> string \<Rightarrow> string" where
  "strip_diacritics nfd u value = filter (\<lambda>c. \<not> u_combining u c) (nfd value)"

definition export_node :: "(string \<Rightarrow> string) \<Rightarrow> unicode \<Rightarrow> jobject \<Rightarrow> jobject" where
  "export_node nfd u n =
     bt_or_insert ''norm_label''
       (JStr (lowercase (strip_diacritics nfd u (case get_str n ''label'' of None \<Rightarrow> [] | Some l \<Rightarrow> l)))) n"

definition confidence_score :: "jobject \<Rightarrow> real" where
  "confidence_score e =
     (case get_str e ''confidence'' of
        None \<Rightarrow> 1
      | Some v \<Rightarrow>
          if v = ''INFERRED'' then default_score Inferred
          else if v = ''AMBIGUOUS'' then default_score Ambiguous
          else default_score Extracted)"

text \<open>The markers of the true ends are taken out, and become the ends if both are there.\<close>

definition take_markers :: "jobject \<Rightarrow> jobject" where
  "take_markers e =
     (let rest = bt_del ''_tgt'' (bt_del ''_src'' e)
      in case (bt_get e ''_src'', bt_get e ''_tgt'') of
           (Some s, Some t) \<Rightarrow> bt_put ''target'' t (bt_put ''source'' s rest)
         | _ \<Rightarrow> rest)"

definition export_edge :: "jobject \<Rightarrow> jobject" where
  "export_edge e =
     bt_del ''local_alias'' (bt_del ''target_file''
       (take_markers (bt_or_insert ''confidence_score'' (JNum (JFloat (confidence_score e))) e)))"

definition prepare_for_export :: "(string \<Rightarrow> string) \<Rightarrow> unicode \<Rightarrow> json \<Rightarrow> json" where
  "prepare_for_export nfd u =
     map_object (\<lambda>root.
       modify ''links'' (map_array (map_object export_edge))
         (modify ''nodes'' (map_array (map_object (export_node nfd u)))
           (bt_or_insert ''graph'' (JObj []) root)))"

text \<open>The raw format has its edges under \<open>edges\<close>, and only the markers are taken out of them.\<close>

definition raw_extractions_value :: "json list \<Rightarrow> json list \<Rightarrow> json list \<Rightarrow> json" where
  "raw_extractions_value nodes edges hyperedges =
     JObj (bt_of_list
       [(''nodes'', JArr nodes), (''edges'', JArr (map (map_object take_markers) edges)), (''hyperedges'', JArr hyperedges),
        (''input_tokens'', JNum (JInt 0)), (''output_tokens'', JNum (JInt 0))])"

section \<open>The cap is read as written\<close>

lemma digits_value_append: "digits_value (xs @ [c]) = 10 * digits_value xs + (of_char c - 48)"
  by (simp add: digits_value_def)

lemma digits_value_show_nat [simp]: "digits_value (show_nat n) = n"
proof (induction n rule: show_nat.induct)
  case (1 n)
  have digit: "of_char (digit_char k) - 48 = k" if "k < 10" for k :: nat
    using that by (simp add: digit_char_def take_bit_eq_mod)
  show ?case
  proof (cases "n < 10")
    case True
    then have "show_nat n = [] @ [digit_char n]" by (subst show_nat.simps) simp
    then show ?thesis using digit [OF True] digits_value_append [of "[]" "digit_char n"] by (simp add: digits_value_def)
  next
    case False
    then have "show_nat n = show_nat (n div 10) @ [digit_char (n mod 10)]" by (subst show_nat.simps) simp
    then show ?thesis using 1 False digit [of "n mod 10"] by (simp add: digits_value_append)
  qed
qed

lemma parse_u64_show_nat: "parse_u64 (show_nat n) = (if n < 2 ^ 64 then Some n else None)"
proof -
  obtain c cs where s: "show_nat n = c # cs" by (cases "show_nat n") auto
  then have "ascii_digit c" using digits_show_nat [of c n] by simp
  then have "c \<noteq> CHR ''+''" by (auto simp: ascii_digit_def less_eq_char_def)
  then have "(case show_nat n of [] \<Rightarrow> [] | c # cs \<Rightarrow> if c = CHR ''+'' then cs else show_nat n) = show_nat n" by (simp add: s)
  moreover have "list_all ascii_digit (show_nat n)" using digits_show_nat by (auto simp: list_all_iff)
  ultimately show ?thesis by (simp add: parse_u64_def Let_def)
qed

lemma digits_untrimmed:
  assumes "list_all ascii_digit s" "unit = [] \<or> (\<exists>c cs. rev unit = c # cs \<and> \<not> is_whitespace c)" "s \<noteq> []"
  shows "trim (s @ unit) = s @ unit"
proof -
  have plain: "\<not> is_whitespace c" if "c \<in> set s" for c
    using that assms(1) by (auto simp: list_all_iff ascii_digit_def is_whitespace_def less_eq_char_def)
  obtain c cs where "s = c # cs" using assms(3) by (cases s) auto
  then have start: "trim_start_by is_whitespace (s @ unit) = s @ unit"
    using plain [of c] by (simp add: trim_start_by_def)
  have "trim_end_by is_whitespace (s @ unit) = s @ unit"
  proof (cases "rev unit")
    case Nil
    obtain d ds where "rev s = d # ds" using assms(3) by (cases "rev s") auto
    moreover from this have "d \<in> set s" by (metis list.set_intros(1) set_rev)
    ultimately have "dropWhile is_whitespace (rev s) = rev s" using plain [of d] by simp
    then show ?thesis using Nil by (simp add: trim_end_by_def)
  next
    case (Cons d ds)
    then show ?thesis using assms(2) by (auto simp: trim_end_by_def)
  qed
  then show ?thesis unfolding trim_by_def start .
qed

lemma digits_upper: "list_all ascii_digit s \<Longrightarrow> map to_ascii_upper s = s"
  by (induction s) (auto simp: to_ascii_upper_def ascii_digit_def ascii_lower_def less_eq_char_def)

lemma digits_no_suffix: "list_all ascii_digit s \<Longrightarrow> strip_suffix (p @ ''B'') s = None"
proof -
  have "\<not> ascii_digit (CHR ''B'')" by code_simp
  then show "list_all ascii_digit s \<Longrightarrow> ?thesis"
    by (auto simp: strip_suffix_def list_all_iff dest!: set_mono_suffix)
qed

lemma strip_suffix_append [simp]: "strip_suffix p (s @ p) = Some s"
  by (simp add: strip_suffix_def suffix_def)

lemma size_unit_digits:
  assumes "list_all ascii_digit s" "s \<noteq> []"
  shows "size_unit s = (s, 1)" "size_unit (s @ ''MB'') = (s, 1024 * 1024)" "size_unit (s @ ''GB'') = (s, 1024 * 1024 * 1024)"
proof -
  have trim: "trim s = s" using digits_untrimmed [of s "[]"] assms by simp
  show "size_unit s = (s, 1)"
    using digits_no_suffix [OF assms(1), of "''G''"] digits_no_suffix [OF assms(1), of "''M''"] by (simp add: size_unit_def trim)
  have "strip_suffix ''GB'' (s @ ''MB'') = None" by (auto simp: strip_suffix_def suffix_def)
  then show "size_unit (s @ ''MB'') = (s, 1024 * 1024)"
    using strip_suffix_append [of "''MB''" s] by (simp add: size_unit_def trim)
  show "size_unit (s @ ''GB'') = (s, 1024 * 1024 * 1024)"
    using strip_suffix_append [of "''GB''" s] by (simp add: size_unit_def trim)
qed

lemma parse_with_unit:
  assumes "unit = [] \<and> scale = 1 \<or> unit = ''MB'' \<and> scale = 1024 * 1024 \<or> unit = ''GB'' \<and> scale = 1024 * 1024 * 1024"
  shows "parse_max_graph_bytes (Some (show_nat n @ unit))
    = (if 0 < n \<and> n * scale < 2 ^ 64 then n * scale else default_max_graph_bytes)"
proof -
  have digits: "list_all ascii_digit (show_nat n)" using digits_show_nat by (auto simp: list_all_iff)
  have "unit = [] \<or> (\<exists>c cs. rev unit = c # cs \<and> \<not> is_whitespace c)"
    using assms by (auto simp: is_whitespace_def less_eq_char_def)
  then have trim: "trim (show_nat n @ unit) = show_nat n @ unit" using digits by (intro digits_untrimmed) simp_all
  have "map to_ascii_upper unit = unit" using assms by (auto simp: to_ascii_upper_def ascii_lower_def less_eq_char_def)
  then have upper: "map to_ascii_upper (show_nat n @ unit) = show_nat n @ unit" using digits_upper [OF digits] by simp
  have scale: "size_unit (show_nat n @ unit) = (show_nat n, scale)"
    using assms size_unit_digits [OF digits] by auto
  have "1 \<le> scale" using assms by auto
  then have big: "2 ^ 64 \<le> n * scale" if "2 ^ 64 \<le> n" using that by (metis le_trans mult.right_neutral mult_le_mono2)
  have "show_nat n @ unit \<noteq> []" by simp
  then have "parse_max_graph_bytes (Some (show_nat n @ unit)) = (case parse_u64 (show_nat n) of
        None \<Rightarrow> default_max_graph_bytes
      | Some v \<Rightarrow> if v > 0 \<and> v * scale < 2 ^ 64 then v * scale else default_max_graph_bytes)"
    unfolding parse_max_graph_bytes_def bind.simps trim
    by (simp only: upper scale if_False option.case Let_def prod.case)
  then show ?thesis using big by (cases "n < 2 ^ 64") (simp_all only: parse_u64_show_nat if_True if_False option.case, simp_all)
qed

text \<open>
  The size cap is always a positive 64-bit number, and a number written in digits, alone or with the
  unit MB or GB, is that many bytes unless it is 0 or too large, when the default holds.
\<close>

lemma size_cap_reads_back:
  "(\<forall>raw. 0 < parse_max_graph_bytes raw \<and> parse_max_graph_bytes raw < 2 ^ 64)
   \<and> parse_max_graph_bytes (Some (show_nat n)) = (if 0 < n \<and> n < 2 ^ 64 then n else default_max_graph_bytes)
   \<and> parse_max_graph_bytes (Some (show_nat n @ ''MB''))
      = (if 0 < n \<and> n * (1024 * 1024) < 2 ^ 64 then n * (1024 * 1024) else default_max_graph_bytes)
   \<and> parse_max_graph_bytes (Some (show_nat n @ ''GB''))
      = (if 0 < n \<and> n * (1024 * 1024 * 1024) < 2 ^ 64 then n * (1024 * 1024 * 1024) else default_max_graph_bytes)"
proof -
  have unit: "0 < snd (size_unit s)" for s by (simp add: size_unit_def split: option.splits)
  have default: "0 < default_max_graph_bytes" "default_max_graph_bytes < 2 ^ 64" by (simp_all add: default_max_graph_bytes_def)
  have "0 < parse_max_graph_bytes raw \<and> parse_max_graph_bytes raw < 2 ^ 64" for raw
    unfolding parse_max_graph_bytes_def using unit default
    by (auto simp: Let_def split: option.splits prod.splits) (metis snd_conv)+
  moreover have "parse_max_graph_bytes (Some (show_nat n)) = (if 0 < n \<and> n < 2 ^ 64 then n else default_max_graph_bytes)"
    using parse_with_unit [of "[]" 1 n] by simp
  ultimately show ?thesis
    using parse_with_unit [of "''MB''" "1024 * 1024" n] parse_with_unit [of "''GB''" "1024 * 1024 * 1024" n] by blast
qed

section \<open>The export keeps what a graph says\<close>

definition object_source :: "jobject \<Rightarrow> json option" where
  "object_source e = (case bt_get e ''_src'' of None \<Rightarrow> bt_get e ''source'' | Some v \<Rightarrow> Some v)"

definition object_target :: "jobject \<Rightarrow> json option" where
  "object_target e = (case bt_get e ''_tgt'' of None \<Rightarrow> bt_get e ''target'' | Some v \<Rightarrow> Some v)"

lemma get_bt_or_insert: "bt_get (bt_or_insert k v m) j = (if j = k \<and> bt_get m k = None then Some v else bt_get m j)"
  by (auto simp: bt_or_insert_def bt_has_def)

lemma get_take_markers:
  "bt_get (take_markers e) k =
     (if k = ''_src'' \<or> k = ''_tgt'' then None
      else if bt_get e ''_src'' \<noteq> None \<and> bt_get e ''_tgt'' \<noteq> None \<and> k = ''source'' then bt_get e ''_src''
      else if bt_get e ''_src'' \<noteq> None \<and> bt_get e ''_tgt'' \<noteq> None \<and> k = ''target'' then bt_get e ''_tgt''
      else bt_get e k)"
  by (auto simp: take_markers_def Let_def split: option.splits)

lemma get_export_edge:
  "bt_get (export_edge e) k =
     (if k = ''local_alias'' \<or> k = ''target_file'' then None
      else bt_get (take_markers (bt_or_insert ''confidence_score'' (JNum (JFloat (confidence_score e))) e)) k)"
  by (simp add: export_edge_def)

text \<open>
  The export of an edge has no markers; its ends are the true ends when both markers were there or
  neither, it carries a confidence score, and every other entry but two local ones is kept.
\<close>

lemma export_edge_keeps_ends:
  assumes "bt_has e ''_src'' \<longleftrightarrow> bt_has e ''_tgt''"
  shows "\<not> bt_has (export_edge e) ''_src'' \<and> \<not> bt_has (export_edge e) ''_tgt''
    \<and> object_source (export_edge e) = object_source e \<and> object_target (export_edge e) = object_target e
    \<and> bt_has (export_edge e) ''confidence_score''
    \<and> (\<forall>k. k \<in> {''_src'', ''_tgt'', ''source'', ''target'', ''confidence_score'', ''target_file'', ''local_alias''}
         \<or> bt_get (export_edge e) k = bt_get e k)"
  using assms
  by (auto simp: object_source_def object_target_def get_export_edge get_take_markers get_bt_or_insert bt_has_def
      split: option.splits)

text \<open>
  An edge that has only one of the two markers loses it: what \<open>true_source\<close> reads as its source
  before the export is not its source afterwards.
\<close>

lemma export_loses_single_marker:
  "object_source [(''_src'', JStr ''a''), (''source'', JStr ''b''), (''target'', JStr ''a'')] = Some (JStr ''a'')
   \<and> object_source (export_edge [(''_src'', JStr ''a''), (''source'', JStr ''b''), (''target'', JStr ''a'')]) = Some (JStr ''b'')"
  by (simp add: object_source_def get_export_edge get_take_markers get_bt_or_insert)

lemma export_edge_keeps_ends_witness:
  "object_source (export_edge [(''_src'', JStr ''a''), (''_tgt'', JStr ''b''), (''source'', JStr ''b''), (''target'', JStr ''a'')])
     = Some (JStr ''a'')"
proof -
  let ?e = "[(''_src'', JStr ''a''), (''_tgt'', JStr ''b''), (''source'', JStr ''b''), (''target'', JStr ''a'')]"
  have "bt_has ?e ''_src'' \<longleftrightarrow> bt_has ?e ''_tgt''" by (simp add: bt_has_def)
  from export_edge_keeps_ends [OF this] have "object_source (export_edge ?e) = object_source ?e" by blast
  then show ?thesis by (simp add: object_source_def)
qed

end
