(* ===== verification/MinHash.thy ===== *)
theory MinHash
  imports Grouping "HOL-Library.Word"
begin

text \<open>
  Sketches of sets and the index that finds similar ones (\<open>graphoxide-graph/src/minhash.rs\<close>). The hash
  functions work on 64-bit words, with the wrap-around of \<open>wrapping_mul\<close> and \<open>wrapping_add\<close>.
\<close>

unbundle bit_operations_syntax

section \<open>Hashing\<close>

definition fnv1a :: "8 word list \<Rightarrow> 64 word" where
  "fnv1a bytes = fold (\<lambda>b h. (h XOR ucast b) * 0x100000001b3) bytes 0xcbf29ce484222325"

definition splitmix64 :: "64 word \<Rightarrow> 64 word" where
  "splitmix64 value =
     (let v = value + 0x9e3779b97f4a7c15;
          v = (v XOR drop_bit 30 v) * 0xbf58476d1ce4e5b9;
          v = (v XOR drop_bit 27 v) * 0x94d049bb133111eb
      in v XOR drop_bit 31 v)"

definition candidate :: "8 word list \<Rightarrow> nat \<Rightarrow> 64 word" where
  "candidate bytes index = splitmix64 (fnv1a bytes XOR of_nat index * 0x9e3779b97f4a7c15)"

section \<open>Sketches\<close>

record min_hash = hashvalues :: "64 word list"

text \<open>Without permutations there is no sketch.\<close>

definition min_hash_new :: "nat \<Rightarrow> min_hash option" where
  "min_hash_new num_perm = (if num_perm > 0 then Some \<lparr>hashvalues = replicate num_perm (- 1)\<rparr> else None)"

definition sketch_update :: "8 word list \<Rightarrow> min_hash \<Rightarrow> min_hash" where
  "sketch_update bytes m = m\<lparr>hashvalues := map (\<lambda>(index, slot). min slot (candidate bytes index)) (enumerate 0 (hashvalues m))\<rparr>"

definition similarity :: "min_hash \<Rightarrow> min_hash \<Rightarrow> real" where
  "similarity a b =
     (if length (hashvalues a) \<noteq> length (hashvalues b) \<or> hashvalues a = [] then 0
      else real (length (filter (\<lambda>(l, r). l = r) (zip (hashvalues a) (hashvalues b)))) / real (length (hashvalues a)))"

section \<open>The index\<close>

record lsh =
  l_threshold :: real
  l_num_perm :: nat
  l_entries :: "(string, min_hash) btree"

datatype lsh_error = BadThreshold | NoPermutations | WrongLength | KeyExists string

definition lsh_new :: "real \<Rightarrow> nat \<Rightarrow> lsh_error + lsh" where
  "lsh_new threshold num_perm =
     (if \<not> (0 \<le> threshold \<and> threshold \<le> 1) then Inl BadThreshold
      else if num_perm = 0 then Inl NoPermutations
      else Inr \<lparr>l_threshold = threshold, l_num_perm = num_perm, l_entries = []\<rparr>)"

definition lsh_insert :: "string \<Rightarrow> min_hash \<Rightarrow> lsh \<Rightarrow> lsh_error + lsh" where
  "lsh_insert key sketch ix =
     (if length (hashvalues sketch) \<noteq> l_num_perm ix then Inl WrongLength
      else if bt_has (l_entries ix) key then Inl (KeyExists key)
      else Inr (ix\<lparr>l_entries := bt_put key sketch (l_entries ix)\<rparr>))"

definition lsh_query :: "min_hash \<Rightarrow> lsh \<Rightarrow> string list" where
  "lsh_query sketch ix =
     (if length (hashvalues sketch) \<noteq> l_num_perm ix then []
      else map fst (filter (\<lambda>(_, m). similarity m sketch \<ge> l_threshold ix) (l_entries ix)))"

definition optimal_lsh_params :: "real \<Rightarrow> nat \<Rightarrow> nat \<times> nat" where
  "optimal_lsh_params threshold num_perm =
     (if num_perm = 0 then (0, 0)
      else
        let target_rows = (if threshold \<le> 0 then 1 else min num_perm (max 1 (nat \<lceil>1 / threshold\<rceil>)));
            bands = max 1 (num_perm div target_rows)
        in (bands, max 1 (min target_rows (num_perm div bands))))"

section \<open>A sketch depends on the set alone\<close>

definition sketch_of :: "nat \<Rightarrow> 8 word list list \<Rightarrow> min_hash" where
  "sketch_of num_perm values = fold sketch_update values \<lparr>hashvalues = replicate num_perm (- 1)\<rparr>"

lemma length_sketch_update [simp]: "length (hashvalues (sketch_update v m)) = length (hashvalues m)"
  by (simp add: sketch_update_def)

lemma nth_sketch_update: "i < length (hashvalues m) \<Longrightarrow> hashvalues (sketch_update v m) ! i = min (hashvalues m ! i) (candidate v i)"
  by (simp add: sketch_update_def nth_enumerate_eq)

lemma length_fold_sketch [simp]: "length (hashvalues (fold sketch_update vs m)) = length (hashvalues m)"
  by (induction vs arbitrary: m) simp_all

lemma fold_sketch_nth:
  "i < length (hashvalues m) \<Longrightarrow>
     hashvalues (fold sketch_update vs m) ! i = Min (insert (hashvalues m ! i) ((\<lambda>v. candidate v i) ` set vs))"
proof (induction vs arbitrary: m)
  case (Cons v vs)
  let ?A = "(\<lambda>v. candidate v i) ` set vs"
  have "hashvalues (fold sketch_update (v # vs) m) ! i = Min (insert (min (hashvalues m ! i) (candidate v i)) ?A)"
    using Cons by (simp add: nth_sketch_update)
  also have "\<dots> = Min (insert (hashvalues m ! i) (insert (candidate v i) ?A))"
    by (cases "?A = {}") (simp_all add: min.assoc)
  finally show ?case by simp
qed simp

text \<open>
  A sketch depends on the set of values alone, not on their order or repetition, and the sketch of a
  union is the least of the sketches slot by slot; a sketch resembles itself fully, and resemblance is a
  proportion that does not depend on the order of its arguments.
\<close>

lemma sketch_is_set_function:
  assumes "set xs = set ys" and "0 < n"
  shows "sketch_of n xs = sketch_of n ys
    \<and> hashvalues (sketch_of n (xs @ zs)) = map2 min (hashvalues (sketch_of n xs)) (hashvalues (sketch_of n zs))
    \<and> similarity (sketch_of n xs) (sketch_of n ys) = 1
    \<and> 0 \<le> similarity a b \<and> similarity a b \<le> 1 \<and> similarity a b = similarity b a"
proof -
  have slot: "hashvalues (sketch_of n vs) ! i = Min (insert (- 1) ((\<lambda>v. candidate v i) ` set vs))" if "i < n" for vs i
    using that by (simp add: sketch_of_def fold_sketch_nth)
  have len: "length (hashvalues (sketch_of n vs)) = n" for vs by (simp add: sketch_of_def)
  have "hashvalues (sketch_of n xs) = hashvalues (sketch_of n ys)"
    by (rule nth_equalityI) (simp_all add: len slot assms(1))
  then have same: "sketch_of n xs = sketch_of n ys" by simp
  have "hashvalues (sketch_of n (xs @ zs)) ! i = min (hashvalues (sketch_of n xs) ! i) (hashvalues (sketch_of n zs) ! i)"
    if "i < n" for i
  proof -
    let ?f = "\<lambda>v. candidate v i"
    have "Min (insert (- 1) (?f ` set (xs @ zs))) = Min (insert (- 1) (?f ` set xs) \<union> insert (- 1) (?f ` set zs))"
      by (simp add: image_Un Un_assoc)
    also have "\<dots> = min (Min (insert (- 1) (?f ` set xs))) (Min (insert (- 1) (?f ` set zs)))"
      by (rule Min_Un) simp_all
    finally show ?thesis using that by (simp only: slot)
  qed
  then have union: "hashvalues (sketch_of n (xs @ zs)) = map2 min (hashvalues (sketch_of n xs)) (hashvalues (sketch_of n zs))"
    by (intro nth_equalityI) (simp_all add: len)
  have "filter (\<lambda>(l, r). l = r) (zip vs vs) = zip vs vs" for vs :: "64 word list"
    by (induction vs) simp_all
  moreover have "hashvalues (sketch_of n xs) \<noteq> []" using len [of xs] assms(2) by auto
  ultimately have self: "similarity (sketch_of n xs) (sketch_of n ys) = 1" by (simp add: similarity_def same)
  have "length (filter (\<lambda>(l, r). l = r) (zip us vs)) \<le> length us" for us vs :: "64 word list"
    by (rule le_trans [OF length_filter_le]) simp
  from this [of "hashvalues a" "hashvalues b"] have bounds: "0 \<le> similarity a b \<and> similarity a b \<le> 1"
    by (auto simp: similarity_def divide_le_eq_1)
  have "length (filter (\<lambda>(l, r). l = r) (zip us vs)) = length (filter (\<lambda>(l, r). l = r) (zip vs us))" for us vs :: "64 word list"
    by (induction us vs rule: list_induct2') auto
  then have "similarity a b = similarity b a" by (auto simp: similarity_def)
  with same union self bounds show ?thesis by blast
qed

section \<open>The index finds what is similar\<close>

definition lsh_ok :: "lsh \<Rightarrow> bool" where
  "lsh_ok ix \<longleftrightarrow>
     bt_wf (l_entries ix) \<and> l_threshold ix \<le> 1 \<and> 0 < l_num_perm ix
     \<and> (\<forall>m \<in> snd ` set (l_entries ix). length (hashvalues m) = l_num_perm ix)"

lemma similarity_self: "hashvalues m \<noteq> [] \<Longrightarrow> similarity m m = 1"
proof -
  have "filter (\<lambda>(l, r). l = r) (zip vs vs) = zip vs vs" for vs :: "64 word list"
    by (induction vs) simp_all
  then show "hashvalues m \<noteq> [] \<Longrightarrow> ?thesis" by (simp add: similarity_def)
qed

lemma lsh_insert_ok: "lsh_ok ix \<Longrightarrow> lsh_insert key m ix = Inr ix' \<Longrightarrow> lsh_ok ix'"
  using set_bt_put_subset by (fastforce simp: lsh_ok_def lsh_insert_def split: if_splits)

text \<open>
  The index answers exactly the keys whose sketch is similar enough, once each in order; a sketch that
  could be inserted is found under its key, and the keys found before are found still.
\<close>

lemma lsh_finds_inserted:
  assumes "lsh_ok ix" "lsh_insert key m ix = Inr ix'"
  shows "lsh_ok ix' \<and> key \<in> set (lsh_query m ix') \<and> set (lsh_query s ix) \<subseteq> set (lsh_query s ix')
    \<and> sorted_wrt (<) (lsh_query s ix')"
proof -
  have new: "\<not> bt_has (l_entries ix) key" "length (hashvalues m) = l_num_perm ix"
    and ix': "ix' = ix\<lparr>l_entries := bt_put key m (l_entries ix)\<rparr>"
    using assms(2) by (auto simp: lsh_insert_def split: if_splits)
  have wf: "bt_wf (l_entries ix)" "bt_wf (l_entries ix')" using assms(1) by (simp_all add: lsh_ok_def ix')
  have entry: "(k, v) \<in> set (l_entries ix') \<longleftrightarrow> (k, v) = (key, m) \<or> (k, v) \<in> set (l_entries ix)" for k v
    using new(1) bt_get_mem [OF wf(1), of k v] bt_get_mem [OF wf(2), of k v] by (auto simp: ix' bt_has_def split: if_splits)
  have "hashvalues m \<noteq> []" using new(2) assms(1) by (auto simp: lsh_ok_def)
  then have "similarity m m \<ge> l_threshold ix'" using assms(1) by (simp add: similarity_self lsh_ok_def ix')
  then have "(key, m) \<in> set (filter (\<lambda>(_, s). similarity s m \<ge> l_threshold ix') (l_entries ix'))" by (simp add: entry)
  then have found: "key \<in> set (lsh_query m ix')" using new(2) by (force simp: lsh_query_def ix')
  have "set (filter (\<lambda>(_, v). similarity v s \<ge> l_threshold ix) (l_entries ix))
      \<subseteq> set (filter (\<lambda>(_, v). similarity v s \<ge> l_threshold ix') (l_entries ix'))"
    using entry by (auto simp: ix')
  then have more: "set (lsh_query s ix) \<subseteq> set (lsh_query s ix')" by (auto simp: lsh_query_def ix')
  have "bt_wf (filter (\<lambda>(_, v). similarity v s \<ge> l_threshold ix') (l_entries ix'))" using wf(2) by simp
  then have "sorted_wrt (<) (lsh_query s ix')" by (simp add: lsh_query_def bt_wf_def)
  with found more show ?thesis using lsh_insert_ok [OF assms] by blast
qed

text \<open>
  The numbers of bands and rows fill at most the permutations there are, and neither is zero.
\<close>

lemma lsh_params_fit:
  "(case optimal_lsh_params threshold (Suc n) of (bands, rows) \<Rightarrow> 0 < bands \<and> 0 < rows \<and> bands * rows \<le> Suc n)
   \<and> optimal_lsh_params threshold 0 = (0, 0)"
proof -
  define target where "target = (if threshold \<le> 0 then 1 else min (Suc n) (max 1 (nat \<lceil>1 / threshold\<rceil>)))"
  have target: "0 < target" "target \<le> Suc n" by (auto simp: target_def)
  then have bands: "0 < Suc n div target" by (simp add: div_greater_zero_iff)
  have "Suc n div target * target \<le> Suc n" by simp
  then have "target \<le> Suc n div (Suc n div target)" using bands by (simp add: less_eq_div_iff_mult_less_eq mult.commute)
  then have "optimal_lsh_params threshold (Suc n) = (Suc n div target, target)"
    using target bands unfolding optimal_lsh_params_def Let_def target_def [symmetric] by simp
  moreover have "optimal_lsh_params threshold 0 = (0, 0)" by (simp add: optimal_lsh_params_def)
  ultimately show ?thesis using target(1) bands by simp
qed

lemma sketch_is_set_function_witness: "similarity (sketch_of 2 [[1], [2]]) (sketch_of 2 [[2], [1], [2]]) = 1"
proof -
  have "set [[1], [2 :: 8 word]] = set [[2], [1], [2]]" "0 < (2 :: nat)" by auto
  from sketch_is_set_function [OF this] show ?thesis by blast
qed

lemma lsh_finds_inserted_witness:
  "(case lsh_insert ''k'' \<lparr>hashvalues = [1, 2]\<rparr> \<lparr>l_threshold = 1 / 2, l_num_perm = 2, l_entries = []\<rparr> of
      Inl _ \<Rightarrow> False | Inr ix \<Rightarrow> ''k'' \<in> set (lsh_query \<lparr>hashvalues = [1, 2]\<rparr> ix))"
proof -
  let ?ix = "\<lparr>l_threshold = 1 / 2, l_num_perm = 2, l_entries = []\<rparr>" and ?m = "\<lparr>hashvalues = [1, 2]\<rparr>"
  have "lsh_ok ?ix" by (simp add: lsh_ok_def)
  moreover obtain ix where insert: "lsh_insert ''k'' ?m ?ix = Inr ix" by (simp add: lsh_insert_def)
  ultimately have "''k'' \<in> set (lsh_query ?m ix)" using lsh_finds_inserted by blast
  with insert show ?thesis by simp
qed

end
