(* ===== verification/Raw.thy ===== *)
theory Raw
  imports Build_Facts
begin

text \<open>
  Tolerant ingestion of arbitrary JSON (\<open>graphoxide-graph/src/raw.rs\<close>): a loose extraction document
  becomes a typed extraction and a report of what was wrong with it, and duplicates of raw records are
  collapsed. As in \<open>Model\<close>, \<open>ft\<close> is the text of a floating point number.
\<close>

section \<open>Reading a record\<close>

record ingest_report =
  i_issues :: "(string, nat) btree"
  i_skipped_nodes :: nat
  i_skipped_edges :: nat

definition no_issues :: ingest_report where
  "no_issues = \<lparr>i_issues = [], i_skipped_nodes = 0, i_skipped_edges = 0\<rparr>"

definition issue :: "string \<Rightarrow> ingest_report \<Rightarrow> ingest_report" where
  "issue cause r = r\<lparr>i_issues := bt_update cause 0 Suc (i_issues r)\<rparr>"

definition missing_field :: "string \<Rightarrow> string" where
  "missing_field name = ''missing required field '' @ [CHR 0x27] @ name @ [CHR 0x27]"

definition issue_count :: "string \<Rightarrow> ingest_report \<Rightarrow> nat" where
  "issue_count cause r = (case bt_get (i_issues r) cause of None \<Rightarrow> 0 | Some n \<Rightarrow> n)"

definition id_text :: "(real \<Rightarrow> string) \<Rightarrow> json \<Rightarrow> string option" where
  "id_text ft v = (case v of JStr s \<Rightarrow> Some s | _ \<Rightarrow> numeric_id ft v)"

definition nonempty_str :: "jobject \<Rightarrow> string \<Rightarrow> string option" where
  "nonempty_str m k = Option.bind (get_str m k) (\<lambda>s. if s = [] then None else Some s)"

text \<open>The operations that take fields out of an object return the rest of it.\<close>

definition fold_id_alias :: "(real \<Rightarrow> string) \<Rightarrow> string \<Rightarrow> string \<Rightarrow> jobject \<Rightarrow> string option \<times> jobject" where
  "fold_id_alias ft canonical alias_key m =
     (case bt_get m canonical of
        Some v \<Rightarrow> (id_text ft v, bt_del canonical m)
      | None \<Rightarrow> (Option.bind (bt_get m alias_key) (id_text ft), bt_del alias_key m))"

definition fold_raw_alias :: "string \<Rightarrow> string \<Rightarrow> jobject \<Rightarrow> string option \<times> jobject" where
  "fold_raw_alias canonical alias_key m =
     (case nonempty_str m canonical of
        Some s \<Rightarrow> (Some s, bt_del canonical m)
      | None \<Rightarrow>
          let m = bt_del canonical m
          in (case nonempty_str m alias_key of Some s \<Rightarrow> (Some s, bt_del alias_key m) | None \<Rightarrow> (None, m)))"

definition fold_node_source :: "jobject \<Rightarrow> string \<times> jobject" where
  "fold_node_source m =
     (case nonempty_str m ''source_file'' of
        Some s \<Rightarrow> (s, bt_del ''source_file'' m)
      | None \<Rightarrow>
          let m = bt_del ''source_file'' m
          in (case nonempty_str m ''source'' of
                Some s \<Rightarrow> (s, bt_del ''source'' m)
              | None \<Rightarrow> (case nonempty_str m ''path'' of Some s \<Rightarrow> (s, bt_del ''path'' m) | None \<Rightarrow> ([], m))))"

definition take_str :: "string \<Rightarrow> jobject \<Rightarrow> string option \<times> jobject" where
  "take_str k m = (get_str m k, bt_del k m)"

abbreviation or_empty :: "string option \<Rightarrow> string" where
  "or_empty s \<equiv> (case s of None \<Rightarrow> [] | Some s \<Rightarrow> s)"

definition parse_node :: "(real \<Rightarrow> string) \<Rightarrow> json \<Rightarrow> ingest_report \<Rightarrow> node option \<times> ingest_report" where
  "parse_node ft raw r =
     (case as_object raw of
        None \<Rightarrow> (None, r)
      | Some m \<Rightarrow>
          (case Option.bind (bt_get m ''id'') (id_text ft) of
             None \<Rightarrow> (None, r)
           | Some i \<Rightarrow>
               let m = bt_del ''id'' m;
                   (label, m) = fold_raw_alias ''label'' ''name'' m;
                   r = (if or_empty label = [] then issue (missing_field ''label'') r else r);
                   (source_file, m) = fold_node_source m;
                   (file_type, m) = take_str ''file_type'' m;
                   (location, m) = take_str ''source_location'' m;
                   community = Option.bind (bt_get m ''community'') as_i64;
                   m = bt_del ''community'' m
               in (Some \<lparr>n_id = i, n_label = or_empty label, n_file_type = canonical_file_type (or_empty file_type),
                         n_source_file = source_file, n_source_location = location, n_community = community, n_extra = m\<rparr>,
                   r)))"

definition raw_confidence :: "jobject \<Rightarrow> jobject \<Rightarrow> confidence" where
  "raw_confidence m rest =
     (case get_str m ''confidence'' of
        Some s \<Rightarrow>
          if s = ''INFERRED'' then Inferred else if s = ''AMBIGUOUS'' then Ambiguous else if s = ''EXTRACTED'' then Extracted
          else if bt_has rest ''confidence_score'' then Inferred else Extracted
      | None \<Rightarrow> if bt_has rest ''confidence_score'' then Inferred else Extracted)"

definition parse_edge :: "(real \<Rightarrow> string) \<Rightarrow> json \<Rightarrow> ingest_report \<Rightarrow> edge option \<times> ingest_report" where
  "parse_edge ft raw r =
     (case as_object raw of
        None \<Rightarrow> (None, r)
      | Some m \<Rightarrow>
          (case fold_id_alias ft ''source'' ''from'' m of
             (None, _) \<Rightarrow> (None, r)
           | (Some s, m) \<Rightarrow>
               (case fold_id_alias ft ''target'' ''to'' m of
                  (None, _) \<Rightarrow> (None, r)
                | (Some t, m) \<Rightarrow>
                    let (relation, m) = fold_raw_alias ''relation'' ''type'' m;
                        r = (if or_empty relation = [] then issue (missing_field ''relation'') r else r);
                        confidence = raw_confidence m (bt_del ''confidence'' m);
                        (source_file, m) = take_str ''source_file'' (bt_del ''confidence'' m)
                    in (Some \<lparr>e_source = s, e_target = t, e_relation = or_empty relation, e_confidence = confidence,
                              e_source_file = or_empty source_file, e_extra = m\<rparr>,
                        r))))"

section \<open>Reading a document\<close>

definition add_raw_node :: "(real \<Rightarrow> string) \<Rightarrow> json \<Rightarrow> node list \<times> ingest_report \<Rightarrow> node list \<times> ingest_report" where
  "add_raw_node ft raw st =
     (case parse_node ft raw (snd st) of
        (None, r) \<Rightarrow> (fst st, r\<lparr>i_skipped_nodes := i_skipped_nodes r + 1\<rparr>)
      | (Some n, r) \<Rightarrow> (fst st @ [n], r))"

definition add_raw_edge :: "(real \<Rightarrow> string) \<Rightarrow> json \<Rightarrow> edge list \<times> ingest_report \<Rightarrow> edge list \<times> ingest_report" where
  "add_raw_edge ft raw st =
     (case parse_edge ft raw (snd st) of
        (None, r) \<Rightarrow> (fst st, r\<lparr>i_skipped_edges := i_skipped_edges r + 1\<rparr>)
      | (Some e, r) \<Rightarrow> (fst st @ [e], r))"

definition raw_array :: "jobject \<Rightarrow> string \<Rightarrow> json list" where
  "raw_array m k = (case Option.bind (bt_get m k) as_array of None \<Rightarrow> [] | Some vs \<Rightarrow> vs)"

definition raw_edges :: "jobject \<Rightarrow> json list" where
  "raw_edges m = raw_array m (if bt_has m ''edges'' then ''edges'' else ''links'')"

definition canonicalize_extraction :: "(real \<Rightarrow> string) \<Rightarrow> json \<Rightarrow> extraction \<times> ingest_report" where
  "canonicalize_extraction ft v =
     (case as_object (coerce_non_string_ids ft v) of
        None \<Rightarrow> (\<lparr>x_nodes = [], x_edges = [], x_hyperedges = []\<rparr>, issue ''extraction must be an object'' no_issues)
      | Some m \<Rightarrow>
          let (nodes, r) = fold (add_raw_node ft) (raw_array m ''nodes'') ([], no_issues);
              (edges, r) = fold (add_raw_edge ft) (raw_edges m) ([], r)
          in (\<lparr>x_nodes = nodes, x_edges = edges, x_hyperedges = raw_array m ''hyperedges''\<rparr>, r))"

definition build_graph_from_value ::
  "(real \<Rightarrow> string) \<Rightarrow> unicode \<Rightarrow> fuzzy \<Rightarrow> json \<Rightarrow> build_options \<Rightarrow> string option \<Rightarrow> build_error + graph \<times> ingest_report" where
  "build_graph_from_value ft u f v opts base =
     (let (x, r) = canonicalize_extraction ft v
      in map_sum id (\<lambda>(g, _). (g, r)) (build_graph_with_report_and_options u f base [x] opts))"

section \<open>Collapsing duplicates\<close>

text \<open>The first appearance of a key decides the place, the last record with it the content.\<close>

definition keep_last :: "('a \<Rightarrow> string option) \<Rightarrow> 'a list \<Rightarrow> 'a list" where
  "keep_last key xs =
     (let (order, by_id) = fold (\<lambda>x (order, by_id).
            case key x of
              None \<Rightarrow> (order, by_id)
            | Some i \<Rightarrow> (if bt_has by_id i then order else order @ [i], bt_put i x by_id)) xs ([], [])
      in List.map_filter (bt_get by_id) order)"

definition dedupe_raw_nodes :: "(real \<Rightarrow> string) \<Rightarrow> json list \<Rightarrow> json list" where
  "dedupe_raw_nodes ft nodes = keep_last (\<lambda>n. Option.bind (vget n ''id'') (id_text ft)) nodes"

definition raw_edge_key :: "(real \<Rightarrow> string) \<Rightarrow> json \<Rightarrow> string option \<times> string option \<times> string option" where
  "raw_edge_key ft e =
     (Option.bind (vget e ''source'') (id_text ft), Option.bind (vget e ''target'') (id_text ft),
      Option.bind (vget e ''relation'') as_str)"

definition dedupe_raw_edges :: "(real \<Rightarrow> string) \<Rightarrow> json list \<Rightarrow> json list" where
  "dedupe_raw_edges ft edges = retain_first (raw_edge_key ft) {} edges"

definition dedupe_raw_extractions :: "extraction list \<Rightarrow> extraction" where
  "dedupe_raw_extractions xs =
     \<lparr>x_nodes = keep_last (\<lambda>n. Some (n_id n)) (concat (map x_nodes xs)),
      x_edges = retain_first (\<lambda>e. (e_source e, e_target e, e_relation e)) {} (concat (map x_edges xs)),
      x_hyperedges = concat (map x_hyperedges xs)\<rparr>"

section \<open>Lookup of edges\<close>

definition edge_datas :: "graph \<Rightarrow> string \<Rightarrow> string \<Rightarrow> edge list" where
  "edge_datas g a b =
     filter (\<lambda>e. true_source e = a \<and> true_target e = b
       \<or> \<not> g_directed g \<and> true_source e = b \<and> true_target e = a) (g_links g)"

definition edge_data :: "graph \<Rightarrow> string \<Rightarrow> string \<Rightarrow> edge option" where
  "edge_data g a b = (case edge_datas g a b of [] \<Rightarrow> None | e # _ \<Rightarrow> Some e)"

section \<open>Duplicates are collapsed, nothing else\<close>

lemma retain_first_append:
  "retain_first key seen (xs @ ys) = retain_first key seen xs @ retain_first key (seen \<union> key ` set xs) ys"
proof (induction xs arbitrary: seen)
  case (Cons x xs)
  show ?case using Cons [of seen] Cons [of "insert (key x) seen"] by (auto simp: insert_absorb insert_commute Un_commute)
qed simp

definition keys_in_order :: "('a \<Rightarrow> string option) \<Rightarrow> 'a list \<Rightarrow> string list" where
  "keys_in_order key xs = retain_first (\<lambda>k. k) {} (List.map_filter key xs)"

definition last_with :: "('a \<Rightarrow> string option) \<Rightarrow> 'a list \<Rightarrow> string \<Rightarrow> 'a option" where
  "last_with key xs i = find (\<lambda>x. key x = Some i) (rev xs)"

lemma last_with_mem: "i \<in> set (List.map_filter key xs) \<longleftrightarrow> last_with key xs i \<noteq> None"
  by (force simp: last_with_def map_filter_mem find_None_iff)

lemma keep_last_fold:
  "fold (\<lambda>x (order, by_id).
      case key x of
        None \<Rightarrow> (order, by_id)
      | Some i \<Rightarrow> (if bt_has by_id i then order else order @ [i], bt_put i x by_id)) xs ([], []) = (order, by_id)
   \<Longrightarrow> order = keys_in_order key xs \<and> bt_get by_id = last_with key xs"
proof (induction xs arbitrary: order by_id rule: rev_induct)
  case Nil
  then show ?case by (simp add: keys_in_order_def last_with_def List.map_filter_simps fun_eq_iff)
next
  case (snoc x xs)
  let ?step = "\<lambda>x (order, by_id). case key x of None \<Rightarrow> (order, by_id)
      | Some i \<Rightarrow> (if bt_has by_id i then order else order @ [i], bt_put i x by_id)"
  obtain ks m where km: "fold ?step xs ([], []) = (ks, m)" by fastforce
  note IH = snoc.IH [OF km]
  have filter: "List.map_filter key (xs @ [x]) = List.map_filter key xs @ (case key x of None \<Rightarrow> [] | Some i \<Rightarrow> [i])"
    by (simp add: List.map_filter_def split: option.splits)
  show ?case
  proof (cases "key x")
    case None
    then show ?thesis using snoc.prems km IH by (auto simp: keys_in_order_def filter last_with_def fun_eq_iff)
  next
    case (Some i)
    have "bt_has m i \<longleftrightarrow> i \<in> set (List.map_filter key xs)" using IH last_with_mem [of i key xs] by (simp add: bt_has_def)
    then show ?thesis using snoc.prems km IH Some
      by (auto simp: keys_in_order_def filter last_with_def fun_eq_iff retain_first_append)
  qed
qed

lemma keep_last_spec:
  "List.map_filter key (keep_last key xs) = keys_in_order key xs"
  "map Some (keep_last key xs) = map (last_with key xs) (keys_in_order key xs)"
proof -
  obtain order by_id where f: "fold (\<lambda>x (order, by_id). case key x of None \<Rightarrow> (order, by_id)
      | Some i \<Rightarrow> (if bt_has by_id i then order else order @ [i], bt_put i x by_id)) xs ([], []) = (order, by_id)"
    by fastforce
  note spec = keep_last_fold [OF f]
  have all: "last_with key xs i \<noteq> None" if "i \<in> set (keys_in_order key xs)" for i
    using that retain_first_subset last_with_mem unfolding keys_in_order_def by fastforce
  have "map Some (List.map_filter f ks) = map f ks" if "\<And>k. k \<in> set ks \<Longrightarrow> f k \<noteq> None" for f :: "string \<Rightarrow> 'b option" and ks
    using that
  proof (induction ks)
    case (Cons k ks)
    then obtain y where "f k = Some y" by fastforce
    then show ?case using Cons by (simp add: List.map_filter_simps)
  qed (simp add: List.map_filter_simps)
  from this [of "keys_in_order key xs" "last_with key xs"] all
  show items: "map Some (keep_last key xs) = map (last_with key xs) (keys_in_order key xs)"
    using spec by (simp add: keep_last_def f)
  have "List.map_filter key ys = ks" if "map Some ys = map (last_with key xs) ks" for ys ks
    using that
  proof (induction ys arbitrary: ks)
    case (Cons y ys)
    then obtain k ks' where ks: "ks = k # ks'" "last_with key xs k = Some y" by (cases ks) auto
    then have "key y = Some k" by (auto simp: last_with_def find_Some_iff)
    then show ?case using Cons ks by (simp add: List.map_filter_simps)
  qed (simp add: List.map_filter_simps)
  then show "List.map_filter key (keep_last key xs) = keys_in_order key xs" using items by blast
qed

lemma retain_first_first:
  "x \<in> set (retain_first key seen xs) \<Longrightarrow> find (\<lambda>y. key y = key x) xs = Some x"
proof (induction xs arbitrary: seen)
  case (Cons y ys)
  show ?case
  proof (cases "key y \<in> seen")
    case True
    then have x: "x \<in> set (retain_first key seen ys)" using Cons.prems by simp
    then have "key x \<notin> seen" using retain_first_keys [of key seen ys] by (metis Diff_iff imageI)
    then show ?thesis using Cons.IH [OF x] True by auto
  next
    case False
    then have "x = y \<or> x \<in> set (retain_first key (insert (key y) seen) ys)" using Cons.prems by simp
    then show ?thesis
    proof
      assume x: "x \<in> set (retain_first key (insert (key y) seen) ys)"
      then have "key x \<notin> insert (key y) seen" using retain_first_keys [of key "insert (key y) seen" ys] by (metis Diff_iff imageI)
      then show ?thesis using Cons.IH [OF x] by auto
    qed simp
  qed
qed simp

abbreviation raw_key :: "edge \<Rightarrow> string \<times> string \<times> string" where
  "raw_key e \<equiv> (e_source e, e_target e, e_relation e)"

text \<open>
  The raw artifact holds every identifier of the chunks once, with the last record of it, and every edge
  once by its ends and relation, with the first record of it; nothing else is dropped.
\<close>

lemma raw_deduplication_exact:
  "distinct (map n_id (x_nodes (dedupe_raw_extractions xs)))
   \<and> n_id ` set (x_nodes (dedupe_raw_extractions xs)) = n_id ` set (concat (map x_nodes xs))
   \<and> list_all (\<lambda>n. find (\<lambda>m. n_id m = n_id n) (rev (concat (map x_nodes xs))) = Some n) (x_nodes (dedupe_raw_extractions xs))
   \<and> distinct (map raw_key (x_edges (dedupe_raw_extractions xs)))
   \<and> raw_key ` set (x_edges (dedupe_raw_extractions xs)) = raw_key ` set (concat (map x_edges xs))
   \<and> list_all (\<lambda>e. find (\<lambda>d. raw_key d = raw_key e) (concat (map x_edges xs)) = Some e) (x_edges (dedupe_raw_extractions xs))
   \<and> x_hyperedges (dedupe_raw_extractions xs) = concat (map x_hyperedges xs)"
proof -
  let ?all = "concat (map x_nodes xs)" and ?key = "\<lambda>n. Some (n_id n)"
  have filter: "List.map_filter ?key ns = map n_id ns" for ns by (induction ns) (simp_all add: List.map_filter_simps)
  note spec = keep_last_spec [of ?key ?all, unfolded filter]
  have keys: "map n_id (keep_last ?key ?all) = retain_first (\<lambda>k. k) {} (map n_id ?all)"
    using spec(1) by (simp add: keys_in_order_def filter)
  have "distinct (map n_id (keep_last ?key ?all))"
    unfolding keys using retain_first_distinct [of "\<lambda>k. k" "{}" "map n_id ?all"] by simp
  moreover have "set (map n_id (keep_last ?key ?all)) = n_id ` set ?all"
    unfolding keys using retain_first_keys [of "\<lambda>k. k" "{}" "map n_id ?all"] by simp
  moreover have "find (\<lambda>m. n_id m = n_id n) (rev ?all) = Some n" if "n \<in> set (keep_last ?key ?all)" for n
  proof -
    have "map Some (keep_last ?key ?all) = map (\<lambda>n. last_with ?key ?all (n_id n)) (keep_last ?key ?all)"
      using spec(2) keys by (simp add: keys_in_order_def filter o_def)
         (metis (no_types, lifting) comp_apply map_eq_conv map_map)
    then show ?thesis using that by (simp add: last_with_def)
  qed
  moreover have "raw_key ` set (retain_first raw_key {} (concat (map x_edges xs))) = raw_key ` set (concat (map x_edges xs))"
    by (simp only: retain_first_keys Diff_empty)
  moreover have "find (\<lambda>d. raw_key d = raw_key e) (concat (map x_edges xs)) = Some e"
    if "e \<in> set (retain_first raw_key {} (concat (map x_edges xs)))" for e
    using that by (rule retain_first_first)
  ultimately show ?thesis
    by (simp add: dedupe_raw_extractions_def list_all_iff retain_first_distinct del: set_concat prod.inject)
qed

section \<open>Ingestion accounts for every record\<close>

lemma add_raw_nodes:
  "fold (add_raw_node ft) raws (ns, r) = (ns', r') \<Longrightarrow>
     length ns' + i_skipped_nodes r' = length ns + i_skipped_nodes r + length raws \<and> i_skipped_edges r' = i_skipped_edges r"
proof (induction raws arbitrary: ns r)
  case (Cons raw raws)
  have kept: "parse_node ft raw r = (x, s) \<Longrightarrow> i_skipped_nodes s = i_skipped_nodes r \<and> i_skipped_edges s = i_skipped_edges r" for x s
    by (auto simp: parse_node_def issue_def Let_def split: option.splits prod.splits if_splits)
  show ?case
  proof (cases "parse_node ft raw r")
    case (Pair x s)
    have "fold (add_raw_node ft) raws (case x of None \<Rightarrow> (ns, s\<lparr>i_skipped_nodes := i_skipped_nodes s + 1\<rparr>) | Some y \<Rightarrow> (ns @ [y], s)) = (ns', r')"
      using Cons.prems by (cases x) (simp_all add: add_raw_node_def [of ft raw] Pair)
    then show ?thesis using Cons.IH kept [OF Pair] by (cases x) force+
  qed
qed simp

lemma add_raw_edges:
  "fold (add_raw_edge ft) raws (es, r) = (es', r') \<Longrightarrow>
     length es' + i_skipped_edges r' = length es + i_skipped_edges r + length raws \<and> i_skipped_nodes r' = i_skipped_nodes r"
proof (induction raws arbitrary: es r)
  case (Cons raw raws)
  have kept: "parse_edge ft raw r = (x, s) \<Longrightarrow> i_skipped_nodes s = i_skipped_nodes r \<and> i_skipped_edges s = i_skipped_edges r" for x s
    by (auto simp: parse_edge_def issue_def Let_def split: option.splits prod.splits if_splits)
  show ?case
  proof (cases "parse_edge ft raw r")
    case (Pair x s)
    have "fold (add_raw_edge ft) raws (case x of None \<Rightarrow> (es, s\<lparr>i_skipped_edges := i_skipped_edges s + 1\<rparr>) | Some y \<Rightarrow> (es @ [y], s)) = (es', r')"
      using Cons.prems by (cases x) (simp_all add: add_raw_edge_def [of ft raw] Pair)
    then show ?thesis using Cons.IH kept [OF Pair] by (cases x) force+
  qed
qed simp

lemma length_raw_array_map:
  assumes "bt_get n k = map_option (map_array f) (bt_get m k)"
  shows "length (raw_array n k) = length (raw_array m k)"
proof (cases "bt_get m k")
  case (Some v)
  then show ?thesis using assms by (cases v) (simp_all add: raw_array_def)
qed (use assms in \<open>simp add: raw_array_def\<close>)

lemma coerce_root_get:
  "bt_get (coerce_root ft m) ''nodes'' = map_option (map_array (map_object (coerce_fields ft [''id'']))) (bt_get m ''nodes'')"
  "bt_get (coerce_root ft m) ''edges'' = map_option (map_array (map_object (coerce_fields ft edge_id_fields))) (bt_get m ''edges'')"
  "bt_get (coerce_root ft m) ''links'' = map_option (map_array (map_object (coerce_fields ft edge_id_fields))) (bt_get m ''links'')"
  by (simp_all add: coerce_root_def)

lemmas raw_array_coerced = coerce_root_get [THEN length_raw_array_map]

lemma raw_edges_coerced: "length (raw_edges (coerce_root ft m)) = length (raw_edges m)"
  by (simp add: raw_edges_def raw_array_coerced bt_has_def coerce_root_get)

lemma canonicalize_accounts:
  assumes "canonicalize_extraction ft (JObj m) = (x, r)"
  shows "length (x_nodes x) + i_skipped_nodes r = length (raw_array m ''nodes'')
    \<and> length (x_edges x) + i_skipped_edges r = length (raw_edges m)"
proof -
  obtain ns s where nodes: "fold (add_raw_node ft) (raw_array (coerce_root ft m) ''nodes'') ([], no_issues) = (ns, s)" by fastforce
  obtain es t where edges: "fold (add_raw_edge ft) (raw_edges (coerce_root ft m)) ([], s) = (es, t)" by fastforce
  have "x_nodes x = ns" "x_edges x = es" "r = t"
    using assms by (auto simp: canonicalize_extraction_def coerce_non_string_ids_def nodes edges)
  then show ?thesis
    using add_raw_nodes [OF nodes] add_raw_edges [OF edges] raw_array_coerced(1) [of ft m] raw_edges_coerced [of ft m]
    by (simp add: no_issues_def)
qed

text \<open>
  C40: whatever a document holds, every entry of its node and edge arrays is read or counted as skipped; in
  the graph that is built of what was read the node ids are distinct and not empty and no edge is there
  twice; and, when no replacement of a stale semantic identifier is itself a stale identifier, both ends of
  every edge name a node of the graph.
\<close>

theorem ingest_accounts:
  assumes built: "build_graph_from_value ft u f (JObj m) opts base = Inr (g, r)" and u: "keeps_letters u"
  shows "length (x_nodes (fst (canonicalize_extraction ft (JObj m)))) + i_skipped_nodes r = length (raw_array m ''nodes'')
    \<and> length (x_edges (fst (canonicalize_extraction ft (JObj m)))) + i_skipped_edges r = length (raw_edges m)
    \<and> distinct (map n_id (g_nodes g)) \<and> [] \<notin> n_id ` set (g_nodes g) \<and> distinct (map edge_key (g_links g))
    \<and> (unchained (semantic_id_remap u (normalize_extractions u base [fst (canonicalize_extraction ft (JObj m))])) \<longrightarrow>
        (\<forall>e \<in> set (g_links g). endpoints_in (g_nodes g) e))"
proof -
  obtain x s where x: "canonicalize_extraction ft (JObj m) = (x, s)" by fastforce
  then obtain report where "build_graph_with_report_and_options u f base [x] opts = Inr (g, report)" "r = s"
    using built by (auto simp: build_graph_from_value_def map_sum_def split: sum.splits)
  then show ?thesis using canonicalize_accounts [OF x] build_facts(2,3) [OF _ u] x by auto
qed

text \<open>A document with a numeric identifier, a node without one and an edge under \<open>links\<close>.\<close>

definition loose_document :: jobject where
  "loose_document =
     [(''links'', JArr [JObj [(''from'', JNum (JInt 1)), (''to'', JStr ''b''), (''type'', JStr ''calls'')]]),
      (''nodes'', JArr [JObj [(''id'', JNum (JInt 1)), (''name'', JStr ''alpha'')], JObj [(''id'', JStr ''b''), (''label'', JStr ''beta'')],
                       JObj [(''label'', JStr ''gamma'')]])]"

lemma loose_extraction:
  "canonicalize_extraction (\<lambda>_. []) (JObj loose_document) =
     (\<lparr>x_nodes = [\<lparr>n_id = ''1'', n_label = ''alpha'', n_file_type = ''concept'', n_source_file = [], n_source_location = None,
                     n_community = None, n_extra = []\<rparr>,
                   \<lparr>n_id = ''b'', n_label = ''beta'', n_file_type = ''concept'', n_source_file = [], n_source_location = None,
                     n_community = None, n_extra = []\<rparr>],
       x_edges = [\<lparr>e_source = ''1'', e_target = ''b'', e_relation = ''calls'', e_confidence = Extracted, e_source_file = [], e_extra = []\<rparr>],
       x_hyperedges = []\<rparr>, \<lparr>i_issues = [], i_skipped_nodes = 1, i_skipped_edges = 0\<rparr>)"
  by code_simp

lemma ingest_accounts_witness:
  "\<exists>g r. build_graph_from_value (\<lambda>_. []) plain_unicode no_fuzzy (JObj loose_document) undeduplicated None = Inr (g, r)
     \<and> i_skipped_nodes r = 1 \<and> distinct (map n_id (g_nodes g)) \<and> list_all (endpoints_in (g_nodes g)) (g_links g)"
proof -
  let ?x = "fst (canonicalize_extraction (\<lambda>_. []) (JObj loose_document))"
  have "\<not> isl (build_graph_with_report_and_options plain_unicode no_fuzzy None [?x] undeduplicated)"
    unfolding build_undeduplicated loose_extraction by code_simp
  then obtain g report where "build_graph_with_report_and_options plain_unicode no_fuzzy None [?x] undeduplicated = Inr (g, report)"
    by (cases "build_graph_with_report_and_options plain_unicode no_fuzzy None [?x] undeduplicated") auto
  then have built: "build_graph_from_value (\<lambda>_. []) plain_unicode no_fuzzy (JObj loose_document) undeduplicated None
      = Inr (g, \<lparr>i_issues = [], i_skipped_nodes = 1, i_skipped_edges = 0\<rparr>)"
    by (simp add: build_graph_from_value_def loose_extraction)
  have "semantic_id_remap plain_unicode (normalize_extractions plain_unicode None [?x]) = []"
    unfolding loose_extraction by code_simp
  then have "unchained (semantic_id_remap plain_unicode (normalize_extractions plain_unicode None [?x]))"
    by (simp add: unchained_def)
  with ingest_accounts [OF built keeps_letters_plain] built show ?thesis by (auto simp: list_all_iff)
qed

end
