(* ===== verification/ProjectPath.thy ===== *)
theory ProjectPath
  imports Lines
begin

text \<open>
  Lexical paths inside a project (\<open>graphoxide-extract/src/project_path.rs\<close>): a path is read with both
  slashes as separators and without the file system, and a relative reference is resolved against the
  file that makes it.
\<close>

section \<open>Components\<close>

text \<open>\<open>char::is_control\<close> on the repertoire.\<close>

definition control_char :: "char \<Rightarrow> bool" where
  "control_char c \<longleftrightarrow> c \<le> CHR 0x1F \<or> CHR 0x7F \<le> c \<and> c \<le> CHR 0x9F"

definition forbidden_char :: "char \<Rightarrow> bool" where
  "forbidden_char c \<longleftrightarrow> control_char c \<or> c \<in> set ''<>:|?*'' \<or> c = CHR 0x22"

text \<open>The device name of a component: the text before its first dot, without trailing dots and blanks.\<close>

definition device_stem :: "string \<Rightarrow> string" where
  "device_stem component =
     ascii_lowercase (trim_end_by (\<lambda>c. c = CHR ''.'' \<or> c = CHR '' '') (takeWhile (\<lambda>c. c \<noteq> CHR ''.'') component))"

definition reserved_stem :: "string \<Rightarrow> bool" where
  "reserved_stem stem \<longleftrightarrow>
     stem \<in> {''con'', ''prn'', ''aux'', ''nul''}
     \<or> utf8_len stem = 4 \<and> (prefix ''com'' stem \<or> prefix ''lpt'' stem) \<and> CHR ''1'' \<le> stem ! 3 \<and> stem ! 3 \<le> CHR ''9''"

definition portable_component :: "string \<Rightarrow> bool" where
  "portable_component component \<longleftrightarrow>
     \<not> (ends_with component ''.'' \<or> ends_with component '' '' \<or> list_ex forbidden_char component)
     \<and> \<not> reserved_stem (device_stem component)"

section \<open>Applying a path\<close>

text \<open>The components below the root so far, and how often the path has left the root.\<close>

fun apply_components :: "bool \<Rightarrow> string list \<Rightarrow> string list \<times> nat \<Rightarrow> (string list \<times> nat) option" where
  "apply_components allow_escape [] st = Some st"
| "apply_components allow_escape (c # cs) (components, escaped) =
     (if c = [] then None
      else if c = ''.'' then apply_components allow_escape cs (components, escaped)
      else if c = ''..'' then
        (if components = [] then
           if allow_escape then apply_components allow_escape cs ([], escaped + 1) else None
         else apply_components allow_escape cs (butlast components, escaped))
      else if portable_component c then apply_components allow_escape cs (components @ [c], escaped)
      else None)"

definition apply_path :: "string \<Rightarrow> string list \<Rightarrow> bool \<Rightarrow> (string list \<times> nat) option" where
  "apply_path path components allow_escape =
     (if path = [] \<or> hd path = CHR ''/'' \<or> hd path = CHR 0x5C then None
      else apply_components allow_escape (split_on (CHR ''/'') (slashes path)) (components, 0))"

definition normalize_project_path :: "string \<Rightarrow> string option" where
  "normalize_project_path path =
     (if path = [] \<or> path = ''.'' then Some []
      else map_option (\<lambda>(components, _). join_with ''/'' components) (apply_path path [] False))"

datatype project_path = Contained string | EscapesRoot string

definition source_relative_project_path :: "string \<Rightarrow> string \<Rightarrow> project_path option" where
  "source_relative_project_path source_file reference =
     (case normalize_project_path source_file of
        None \<Rightarrow> None
      | Some s \<Rightarrow>
          if s = [] then None
          else case apply_path reference (butlast (split_on (CHR ''/'') s)) True of
                 None \<Rightarrow> None
               | Some (components, escaped) \<Rightarrow>
                   let normalized =
                     (if escaped = 0 then join_with ''/'' components
                      else trim_end_matches ''/'' (concat (replicate escaped ''../'') @ join_with ''/'' components))
                   in if normalized = [] then None
                      else Some (if escaped = 0 then Contained normalized else EscapesRoot normalized))"

section \<open>What a path names\<close>

text \<open>A name inside the project, the text of a path of such names, and the directory of a file as text.\<close>

definition project_name :: "string \<Rightarrow> bool" where
  "project_name c \<longleftrightarrow> c \<noteq> [] \<and> portable_component c \<and> CHR ''/'' \<notin> set c \<and> CHR 0x5C \<notin> set c"

definition project_file :: "string \<Rightarrow> bool" where
  "project_file p \<longleftrightarrow> list_all project_name (split_on (CHR ''/'') p)"

definition directory_text :: "string \<Rightarrow> string" where
  "directory_text p = concat (map (\<lambda>c. c @ ''/'') (butlast (split_on (CHR ''/'') p)))"

lemma dots_not_portable [simp]: "\<not> portable_component ''.''" "\<not> portable_component ''..''"
  by (simp_all add: portable_component_def suffix_def)

lemma apply_rooted: "apply_components a (cs @ [] # ds) st = None"
  by (induction a cs st rule: apply_components.induct) auto

lemma apply_append:
  "apply_components a (cs @ ds) st = Option.bind (apply_components a cs st) (apply_components a ds)"
  by (induction a cs st rule: apply_components.induct) auto

lemma apply_names: "list_all project_name cs \<Longrightarrow> apply_components a cs (components, n) = Some (components @ cs, n)"
  by (induction cs arbitrary: components) (auto simp: project_name_def)

lemma apply_keeps_names:
  assumes "apply_components a cs (components, n) = Some (result, m)"
    and "list_all project_name components" "\<forall>c \<in> set cs. CHR ''/'' \<notin> set c \<and> CHR 0x5C \<notin> set c"
  shows "list_all project_name result \<and> n \<le> m"
  using assms
proof (induction a cs "(components, n)" arbitrary: components n rule: apply_components.induct)
  case (2 a c cs components n)
  have bl: "list_all project_name (butlast components)"
    using "2.prems"(2) by (auto simp: list_all_iff dest: in_set_butlastD)
  show ?case
    using "2.hyps" "2.prems" bl by (auto simp: project_name_def split: if_splits)
qed simp

lemma apply_without_escape:
  assumes "\<forall>c \<in> set cs. CHR ''/'' \<notin> set c \<and> CHR 0x5C \<notin> set c" and "list_all project_name components"
  shows "apply_components True cs (components, n) = Some (result, n)
     \<longleftrightarrow> apply_components False cs (components, n) = Some (result, n)"
  using assms
proof (induction cs arbitrary: components)
  case (Cons c cs)
  have bl: "list_all project_name (butlast components)"
    using Cons.prems(2) by (auto simp: list_all_iff dest: in_set_butlastD)
  have esc: "apply_components True cs ([], n + 1) \<noteq> Some (result, n)"
    using apply_keeps_names [of True cs "[]" "n + 1" result n] Cons.prems(1) by auto
  show ?case
    using Cons.IH [OF _ bl] Cons.IH [OF _ Cons.prems(2)] Cons.IH [of "components @ [c]"] Cons.prems esc
    by (auto simp: project_name_def)
qed simp

lemma never_escapes: "apply_components False cs (components, n) = Some (result, m) \<Longrightarrow> m = n"
  by (induction cs arbitrary: components) (auto split: if_splits)

section \<open>Text and components\<close>

lemma slashes_append: "slashes (p @ q) = slashes p @ slashes q"
  by (simp add: slashes_def)

lemma slashes_plain: "CHR 0x5C \<notin> set p \<Longrightarrow> slashes p = p"
  by (simp add: slashes_def) (rule map_idI, auto)

lemma split_on_chars: "q \<in> set (split_on c p) \<Longrightarrow> set q \<subseteq> set p"
proof (induction p arbitrary: q)
  case (Cons x p)
  obtain r rs where r: "split_on c p = r # rs" by (cases "split_on c p") auto
  show ?case using Cons r by (cases "x = c") force+
qed simp

lemma pieces_plain: "\<forall>c \<in> set (split_on (CHR ''/'') (slashes p)). CHR ''/'' \<notin> set c \<and> CHR 0x5C \<notin> set c"
proof
  fix c assume c: "c \<in> set (split_on (CHR ''/'') (slashes p))"
  have "CHR 0x5C \<notin> set (slashes p)" by (auto simp: slashes_def)
  then show "CHR ''/'' \<notin> set c \<and> CHR 0x5C \<notin> set c"
    using split_on_chars [OF c] split_on_pieces [OF c] by blast
qed

lemma split_directory:
  "\<forall>c \<in> set cs. CHR ''/'' \<notin> set c \<Longrightarrow>
   split_on (CHR ''/'') (concat (map (\<lambda>c. c @ ''/'') cs) @ p) = cs @ split_on (CHR ''/'') p"
  by (induction cs) (simp_all add: split_on_first)

lemma slashes_directory:
  "\<forall>c \<in> set cs. CHR 0x5C \<notin> set c \<Longrightarrow> slashes (concat (map (\<lambda>c. c @ ''/'') cs)) = concat (map (\<lambda>c. c @ ''/'') cs)"
proof (induction cs)
  case (Cons c cs)
  have "slashes ''/'' = ''/''" by (simp add: slashes_def)
  then show ?case using Cons by (simp add: slashes_append slashes_plain del: append_Cons append_Nil append_assoc)
qed (simp add: slashes_def)

text \<open>The guard on rooted paths only anticipates the empty first component.\<close>

lemma apply_path_components:
  "apply_path p components a = apply_components a (split_on (CHR ''/'') (slashes p)) (components, 0)"
proof (cases "p = [] \<or> hd p = CHR ''/'' \<or> hd p = CHR 0x5C")
  case True
  then have "\<exists>ds. split_on (CHR ''/'') (slashes p) = [] # ds"
    by (cases p) (auto simp: slashes_def)
  then show ?thesis using True by (auto simp: apply_path_def)
qed (simp add: apply_path_def)

lemma normalize_nonempty:
  "q \<noteq> [] \<Longrightarrow> normalize_project_path p = Some q
     \<longleftrightarrow> (\<exists>cs. apply_components False (split_on (CHR ''/'') (slashes p)) ([], 0) = Some (cs, 0) \<and> q = join_with ''/'' cs)"
proof -
  assume q: "q \<noteq> []"
  show ?thesis
  proof (cases "p = [] \<or> p = ''.''")
    case True
    then show ?thesis using q by (auto simp: normalize_project_path_def slashes_def)
  next
    case False
    then have "normalize_project_path p
        = map_option (\<lambda>(cs, _). join_with ''/'' cs) (apply_components False (split_on (CHR ''/'') (slashes p)) ([], 0))"
      by (simp add: normalize_project_path_def apply_path_components)
    then show ?thesis
      by (cases "apply_components False (split_on (CHR ''/'') (slashes p)) ([], 0)") (auto dest: never_escapes)
  qed
qed

lemma join_names:
  assumes "list_all project_name cs" and "cs \<noteq> []"
  shows "split_on (CHR ''/'') (slashes (join_with ''/'' cs)) = cs" "slashes (join_with ''/'' cs) = join_with ''/'' cs"
    "join_with ''/'' cs \<noteq> []"
proof -
  have "CHR 0x5C \<notin> set (join_with ''/'' cs)"
    using assms by (induction cs) (auto simp: join_with_Cons project_name_def)
  then show s: "slashes (join_with ''/'' cs) = join_with ''/'' cs" by (rule slashes_plain)
  show "split_on (CHR ''/'') (slashes (join_with ''/'' cs)) = cs"
    unfolding s using assms by (intro split_join) (auto simp: list_all_iff project_name_def)
  show "join_with ''/'' cs \<noteq> []"
    using assms by (cases cs) (auto simp: join_with_Cons project_name_def)
qed

lemma normalized_is_file:
  assumes "normalize_project_path p = Some q" and "q \<noteq> []"
  obtains cs where "cs \<noteq> []" "list_all project_name cs" "q = join_with ''/'' cs"
    "split_on (CHR ''/'') q = cs"
proof -
  obtain cs where cs: "apply_components False (split_on (CHR ''/'') (slashes p)) ([], 0) = Some (cs, 0)" "q = join_with ''/'' cs"
    using assms by (auto simp: normalize_nonempty)
  have n: "list_all project_name cs"
    using apply_keeps_names [OF cs(1) _ pieces_plain] by simp
  have ne: "cs \<noteq> []" using cs(2) assms(2) by auto
  show thesis using that [OF ne n cs(2)] join_names [OF n ne] cs(2) by simp
qed

lemma normalize_file: "list_all project_name cs \<Longrightarrow> cs \<noteq> [] \<Longrightarrow> normalize_project_path (join_with ''/'' cs) = Some (join_with ''/'' cs)"
  using join_names [of cs] by (auto simp: normalize_nonempty apply_names)

section \<open>References\<close>

lemma split_slashes_directory:
  assumes "list_all project_name cs"
  shows "split_on (CHR ''/'') (slashes (concat (map (\<lambda>c. c @ ''/'') cs) @ r)) = cs @ split_on (CHR ''/'') (slashes r)"
  using assms by (simp add: slashes_append slashes_directory split_directory project_name_def list_all_iff)

lemma contained_iff:
  assumes s: "list_all project_name cs" "cs \<noteq> []" and f: "normalize_project_path f = Some (join_with ''/'' cs)" and q: "q \<noteq> []"
  shows "source_relative_project_path f r = Some (Contained q)
     \<longleftrightarrow> normalize_project_path (directory_text (join_with ''/'' cs) @ r) = Some q"
proof -
  let ?ps = "split_on (CHR ''/'') (slashes r)"
  have split: "split_on (CHR ''/'') (join_with ''/'' cs) = cs" and ne: "join_with ''/'' cs \<noteq> []"
    using join_names [OF s] by simp_all
  have bl: "list_all project_name (butlast cs)"
    using s(1) by (auto simp: list_all_iff dest: in_set_butlastD)
  have pieces: "split_on (CHR ''/'') (slashes (directory_text (join_with ''/'' cs) @ r)) = butlast cs @ ?ps"
    using split_slashes_directory [OF bl] by (simp add: directory_text_def split)
  have eq: "apply_components True ?ps (butlast cs, 0) = Some (result, 0)
      \<longleftrightarrow> apply_components False ?ps (butlast cs, 0) = Some (result, 0)" for result
    by (rule apply_without_escape [OF pieces_plain bl])
  have "source_relative_project_path f r = Some (Contained q)
      \<longleftrightarrow> (\<exists>ds. apply_components True ?ps (butlast cs, 0) = Some (ds, 0) \<and> q = join_with ''/'' ds)"
    using q by (auto simp: source_relative_project_path_def f ne split apply_path_components Let_def split: option.splits)
  then show ?thesis
    using q by (simp add: normalize_nonempty pieces apply_append apply_names [OF bl] eq)
qed

lemma trim_slashes_keeps:
  "x \<noteq> CHR ''/'' \<Longrightarrow> \<exists>u. trim_end_matches ''/'' (p @ x # t) = p @ x # u \<and> prefix u t"
proof (induction t rule: rev_induct)
  case Nil
  then show ?case by (simp add: trim_end_matches.simps [of "''/''"] suffix_def)
next
  case (snoc y t)
  show ?case
  proof (cases "y = CHR ''/''")
    case True
    have "suffix ''/'' (p @ x # t @ [y])" using True by (auto simp: suffix_def)
    then have "trim_end_matches ''/'' (p @ x # t @ [y]) = trim_end_matches ''/'' (p @ x # t)"
      by (subst trim_end_matches.simps) simp
    then show ?thesis using snoc by (auto intro: prefix_prefix)
  next
    case False
    have "\<not> suffix ''/'' (p @ x # t @ [y])" using False by (auto simp: suffix_def)
    then have "trim_end_matches ''/'' (p @ x # t @ [y]) = p @ x # t @ [y]"
      by (subst trim_end_matches.simps) simp
    then show ?thesis by auto
  qed
qed

lemma escapes_root_refused:
  assumes "source_relative_project_path f r = Some (EscapesRoot q)"
  shows "prefix ''..'' q \<and> normalize_project_path q = None"
proof -
  obtain components n where "q = trim_end_matches ''/'' (concat (replicate (Suc n) ''../'') @ join_with ''/'' components)"
    using assms by (auto simp: source_relative_project_path_def Let_def gr0_conv_Suc split: option.splits if_splits)
  then obtain u where q: "q = ''..'' @ u" and u: "prefix u (''/'' @ concat (replicate n ''../'') @ join_with ''/'' components)"
    using trim_slashes_keeps [of "CHR ''.''" "''.''" "''/'' @ concat (replicate n ''../'') @ join_with ''/'' components"]
    by auto
  have "\<exists>ds. split_on (CHR ''/'') (slashes q) = ''..'' # ds"
  proof (cases u)
    case Nil
    then show ?thesis by (simp add: q slashes_def)
  next
    case (Cons c v)
    then have "c = CHR ''/''" using u by simp
    then show ?thesis by (simp add: q Cons slashes_def)
  qed
  then have "apply_path q [] False = None" by (auto simp: apply_path_components)
  then show ?thesis by (simp add: q normalize_project_path_def)
qed

text \<open>
  C19: a path that is accepted is the root or names of the project joined by slashes, and accepting it again
  changes nothing. A reference is contained exactly when the text of the directory of its file followed by
  the reference is accepted, and then it is that path; a reference reported as leaving the root is never
  accepted as a path.
\<close>

theorem project_paths_contained:
  "(\<forall>p q. normalize_project_path p = Some q \<longrightarrow> (q = [] \<or> project_file q) \<and> normalize_project_path q = Some q)
   \<and> (\<forall>f r q. source_relative_project_path f r = Some (Contained q)
        \<longleftrightarrow> (\<exists>s. normalize_project_path f = Some s \<and> s \<noteq> [] \<and> q \<noteq> []
             \<and> normalize_project_path (directory_text s @ r) = Some q))
   \<and> (\<forall>f r q. source_relative_project_path f r = Some (EscapesRoot q) \<longrightarrow> prefix ''..'' q \<and> normalize_project_path q = None)"
proof (intro conjI allI impI)
  fix p q assume n: "normalize_project_path p = Some q"
  show "q = [] \<or> project_file q"
  proof (cases "q = []")
    case False
    then show ?thesis using normalized_is_file [OF n False] project_file_def by metis
  qed simp
  show "normalize_project_path q = Some q"
  proof (cases "q = []")
    case False
    then show ?thesis using normalized_is_file [OF n False] normalize_file by metis
  qed (simp add: normalize_project_path_def)
next
  fix f r q
  have contained: "s \<noteq> [] \<and> q \<noteq> []"
    if "source_relative_project_path f r = Some (Contained q)" "normalize_project_path f = Some s" for s
    using that by (auto simp: source_relative_project_path_def Let_def split: option.splits if_splits)
  have some: "\<exists>s. normalize_project_path f = Some s" if "source_relative_project_path f r = Some (Contained q)"
    using that by (auto simp: source_relative_project_path_def split: option.splits)
  have iff: "source_relative_project_path f r = Some (Contained q) \<longleftrightarrow> normalize_project_path (directory_text s @ r) = Some q"
    if s: "normalize_project_path f = Some s" "s \<noteq> []" "q \<noteq> []" for s
  proof -
    obtain cs where "cs \<noteq> []" "list_all project_name cs" "s = join_with ''/'' cs"
      using normalized_is_file [OF s(1,2)] by blast
    then show ?thesis using contained_iff [of cs f q r] s by simp
  qed
  show "source_relative_project_path f r = Some (Contained q)
      \<longleftrightarrow> (\<exists>s. normalize_project_path f = Some s \<and> s \<noteq> [] \<and> q \<noteq> [] \<and> normalize_project_path (directory_text s @ r) = Some q)"
    using contained some iff by blast
next
  fix f r q assume "source_relative_project_path f r = Some (EscapesRoot q)"
  then show "prefix ''..'' q" and "normalize_project_path q = None" using escapes_root_refused by simp_all
qed

theorem project_paths_contained_witness:
  "normalize_project_path (directory_text ''src/app/main.ts'' @ ''../lib/./x.ts'') = Some ''src/lib/x.ts''
   \<and> project_file ''src/lib/x.ts'' \<and> normalize_project_path ''../../x.ts'' = None"
proof -
  have c: "source_relative_project_path ''src/app/main.ts'' ''../lib/./x.ts'' = Some (Contained ''src/lib/x.ts'')"
    and e: "source_relative_project_path ''src/main.ts'' ''../../../x.ts'' = Some (EscapesRoot ''../../x.ts'')"
    and n: "normalize_project_path ''src/app/main.ts'' = Some ''src/app/main.ts''"
    by code_simp+
  have "normalize_project_path (directory_text ''src/app/main.ts'' @ ''../lib/./x.ts'') = Some ''src/lib/x.ts''"
    using c n project_paths_contained by fastforce
  then show ?thesis using e project_paths_contained by blast
qed

end
