(* ===== verification/ParserSupport.thy ===== *)
theory ParserSupport
  imports Lines "HOL-Library.Word"
begin

text \<open>
  What every byte parser of the extractors rests on: the budget of facts a parser may retain
  (\<open>graphoxide-extract/src/parser_budget.rs\<close>) and the index from offsets to lines
  (\<open>graphoxide-extract/src/bytes.rs\<close>). \<open>usize\<close> is 64 bits wide.
\<close>

section \<open>Plans\<close>

definition fixed_parser_scratch_bytes :: nat where
  "fixed_parser_scratch_bytes = 16 * 1024"

definition source_scratch_expansion :: nat where
  "source_scratch_expansion = 16"

definition retained_bytes_per_fact :: nat where
  "retained_bytes_per_fact = 2 * 1024"

definition checked :: "nat \<Rightarrow> nat option" where
  "checked n = (if n < 2 ^ 64 then Some n else None)"

record parser_plan = max_facts :: nat

definition for_fact_limit :: "nat \<Rightarrow> parser_plan option" where
  "for_fact_limit limit = (if limit = 0 then None else Some \<lparr>max_facts = limit\<rparr>)"

definition for_source :: "nat \<Rightarrow> nat \<Rightarrow> parser_plan option" where
  "for_source allowance_bytes source_bytes =
     Option.bind (checked (source_bytes * source_scratch_expansion)) (\<lambda>product.
     Option.bind (checked (product + fixed_parser_scratch_bytes)) (\<lambda>scratch.
       if allowance_bytes < scratch then None
       else let facts = (allowance_bytes - scratch) div retained_bytes_per_fact
            in if facts > 0 then Some \<lparr>max_facts = facts\<rparr> else None))"

section \<open>The active budget\<close>

record fact_budget =
  remaining :: nat
  exhausted :: bool

text \<open>The budget of the thread, none outside every plan.\<close>

definition try_reserve_facts :: "nat \<Rightarrow> fact_budget option \<Rightarrow> bool \<times> fact_budget option" where
  "try_reserve_facts facts active =
     (case active of
        None \<Rightarrow> (True, None)
      | Some b \<Rightarrow>
          if remaining b < facts then (False, Some (b\<lparr>exhausted := True\<rparr>))
          else (True, Some (b\<lparr>remaining := remaining b - facts\<rparr>)))"

text \<open>An operation returns a value or unwinds (none); the guard restores the budget in both cases.\<close>

definition with_plan ::
  "parser_plan \<Rightarrow> (fact_budget option \<Rightarrow> 'a option \<times> fact_budget option) \<Rightarrow> fact_budget option
     \<Rightarrow> ('a \<times> bool) option \<times> fact_budget option" where
  "with_plan plan operation previous =
     (let (result, after) = operation (Some \<lparr>remaining = max_facts plan, exhausted = False\<rparr>)
      in (map_option (\<lambda>v. (v, case after of None \<Rightarrow> False | Some b \<Rightarrow> exhausted b)) result, previous))"

text \<open>What a parser does with the budget: reservations, parsers it calls with plans of their own, and a
  panic. It reports which of its own reservations were granted.\<close>

datatype parser_act = Reserve nat | Nested parser_plan "parser_act list" | Unwind

fun parser_run :: "parser_act list \<Rightarrow> (nat \<times> bool) list \<Rightarrow> fact_budget option \<Rightarrow> (nat \<times> bool) list option \<times> fact_budget option" where
  "parser_run [] taken active = (Some taken, active)"
| "parser_run (Reserve n # acts) taken active =
     (let (granted, active') = try_reserve_facts n active in parser_run acts (taken @ [(n, granted)]) active')"
| "parser_run (Nested plan inner # acts) taken active =
     (let (result, active') = with_plan plan (parser_run inner []) active
      in case result of None \<Rightarrow> (None, active') | Some _ \<Rightarrow> parser_run acts taken active')"
| "parser_run (Unwind # acts) taken active = (None, active)"

definition granted_facts :: "(nat \<times> bool) list \<Rightarrow> nat" where
  "granted_facts taken = sum_list (map fst (filter snd taken))"

text \<open>What a run adds to the taken is what the budget loses.\<close>

lemma parser_run_accounts:
  assumes "parser_run acts taken (Some b) = (Some taken', active)"
    and "granted_facts taken + remaining b = limit" "exhausted b \<longleftrightarrow> (\<exists>(n, g) \<in> set taken. \<not> g)"
  shows "\<exists>b'. active = Some b' \<and> granted_facts taken' + remaining b' = limit \<and> (exhausted b' \<longleftrightarrow> (\<exists>(n, g) \<in> set taken'. \<not> g))"
  using assms
proof (induction acts arbitrary: taken b)
  case (Cons act acts)
  show ?case
  proof (cases act)
    case (Reserve n)
    show ?thesis
    proof (cases "remaining b < n")
      case True
      then have run: "parser_run acts (taken @ [(n, False)]) (Some (b\<lparr>exhausted := True\<rparr>)) = (Some taken', active)"
        using Cons.prems(1) by (simp add: Reserve try_reserve_facts_def)
      show ?thesis
        by (rule Cons.IH [OF run]) (use Cons.prems(2) in \<open>simp_all add: granted_facts_def\<close>)
    next
      case False
      then have run: "parser_run acts (taken @ [(n, True)]) (Some (b\<lparr>remaining := remaining b - n\<rparr>)) = (Some taken', active)"
        using Cons.prems(1) by (simp add: Reserve try_reserve_facts_def)
      show ?thesis
        by (rule Cons.IH [OF run]) (use Cons.prems(2,3) False in \<open>auto simp: granted_facts_def\<close>)
    qed
  next
    case (Nested plan inner)
    then have "parser_run acts taken (Some b) = (Some taken', active)"
      using Cons.prems(1) by (auto simp: with_plan_def split: prod.splits option.splits)
    then show ?thesis using Cons.IH Cons.prems(2,3) by blast
  next
    case Unwind
    then show ?thesis using Cons.prems(1) by simp
  qed
qed auto

text \<open>
  C20: a plan leaves room for the scratch of its source and 2 KiB for each fact within the allowance. Whatever
  a parser does under a plan, nested parsers and panics included, the budget of its caller is what it was;
  a parser that returns was granted at most the facts of its plan, and it is reported as exhausted exactly
  when one of its reservations was refused.
\<close>

theorem plans_bound_facts:
  "(case for_source allowance source of
      None \<Rightarrow> True
    | Some plan \<Rightarrow> 16 * source + 16384 + 2048 * max_facts plan \<le> allowance \<and> 0 < max_facts plan
        \<and> allowance < 16 * source + 16384 + 2048 * (max_facts plan + 1))
   \<and> snd (with_plan plan (parser_run acts []) active) = active
   \<and> (case fst (with_plan plan (parser_run acts []) active) of
        None \<Rightarrow> True
      | Some (taken, out) \<Rightarrow> granted_facts taken \<le> max_facts plan \<and> (out \<longleftrightarrow> list_ex (\<lambda>(_, granted). \<not> granted) taken))"
proof (intro conjI)
  show "case for_source allowance source of
      None \<Rightarrow> True
    | Some plan \<Rightarrow> 16 * source + 16384 + 2048 * max_facts plan \<le> allowance \<and> 0 < max_facts plan
        \<and> allowance < 16 * source + 16384 + 2048 * (max_facts plan + 1)"
  proof (cases "for_source allowance source")
    case (Some p)
    let ?left = "allowance - (16 * source + 16384)"
    have p: "max_facts p = ?left div 2048" "0 < max_facts p" "16 * source + 16384 \<le> allowance"
      using Some by (auto simp: for_source_def checked_def Let_def source_scratch_expansion_def
          fixed_parser_scratch_bytes_def retained_bytes_per_fact_def bind_eq_Some_conv mult.commute split: if_splits)
    have "2048 * (?left div 2048) \<le> ?left" and "?left < 2048 * (?left div 2048 + 1)" by simp_all
    then have "16 * source + 16384 + 2048 * max_facts p \<le> allowance"
      "allowance < 16 * source + 16384 + 2048 * (max_facts p + 1)"
      unfolding p(1) using p(3) by linarith+
    then show ?thesis using Some p(2) by simp
  qed simp
  show "snd (with_plan plan (parser_run acts []) active) = active"
    by (simp add: with_plan_def split: prod.splits)
  obtain result after where run: "parser_run acts [] (Some \<lparr>remaining = max_facts plan, exhausted = False\<rparr>) = (result, after)"
    by fastforce
  show "case fst (with_plan plan (parser_run acts []) active) of
        None \<Rightarrow> True
      | Some (taken, out) \<Rightarrow> granted_facts taken \<le> max_facts plan \<and> (out \<longleftrightarrow> list_ex (\<lambda>(_, granted). \<not> granted) taken)"
  proof (cases result)
    case (Some taken)
    obtain b where "after = Some b" "granted_facts taken + remaining b = max_facts plan"
      "exhausted b \<longleftrightarrow> (\<exists>(n, g) \<in> set taken. \<not> g)"
      using parser_run_accounts [OF run [unfolded Some], of "max_facts plan"] by (auto simp: granted_facts_def)
    then show ?thesis by (auto simp: with_plan_def run Some list_ex_iff)
  qed (simp add: with_plan_def run)
qed

section \<open>Lines\<close>

definition line_number :: "string \<Rightarrow> nat \<Rightarrow> nat" where
  "line_number src offset = length (filter (\<lambda>c. c = newline) (take (min offset (length src)) src)) + 1"

definition newline_offsets :: "string \<Rightarrow> nat list" where
  "newline_offsets src = map fst (filter (\<lambda>(_, c). c = newline) (enumerate 0 src))"

datatype line_index = Compact "32 word list" | Wide "nat list"

definition line_index_new :: "string \<Rightarrow> line_index" where
  "line_index_new src =
     (if length src < 2 ^ 32 then Compact (0 # map (\<lambda>offset. of_nat (offset + 1)) (newline_offsets src))
      else Wide (0 # map (\<lambda>offset. offset + 1) (newline_offsets src)))"

text \<open>\<open>slice::partition_point\<close> on a slice whose first elements satisfy the predicate and whose others do not.\<close>

definition partition_point :: "('a \<Rightarrow> bool) \<Rightarrow> 'a list \<Rightarrow> nat" where
  "partition_point P xs = length (takeWhile P xs)"

fun line_of :: "line_index \<Rightarrow> nat \<Rightarrow> nat" where
  "line_of (Compact starts) offset =
     (if offset < 2 ^ 32 then partition_point (\<lambda>start. start \<le> of_nat offset) starts else length starts)"
| "line_of (Wide starts) offset = partition_point (\<lambda>start. start \<le> offset) starts"

lemma newline_offsets_snoc:
  "newline_offsets (src @ [c]) = newline_offsets src @ (if c = newline then [length src] else [])"
  by (simp add: newline_offsets_def enumerate_append_eq)

lemma newline_offsets_bound: "i \<in> set (newline_offsets src) \<Longrightarrow> i < length src"
  by (auto simp: newline_offsets_def in_set_enumerate_eq)

lemma newline_offsets_sorted: "sorted (newline_offsets src)"
  by (induction src rule: rev_induct)
    (auto simp: newline_offsets_snoc sorted_append dest: newline_offsets_bound, simp add: newline_offsets_def)

lemma newlines_before:
  "length (filter (\<lambda>i. i < offset) (newline_offsets src)) = length (filter (\<lambda>c. c = newline) (take offset src))"
proof (induction src rule: rev_induct)
  case Nil
  then show ?case by (simp add: newline_offsets_def)
next
  case (snoc c src)
  then show ?case by (cases "length src < offset") (simp_all add: newline_offsets_snoc)
qed

lemma partition_point_sorted:
  fixes xs :: "nat list"
  assumes "sorted xs"
  shows "partition_point (\<lambda>x. x \<le> k) xs = length (filter (\<lambda>x. x \<le> k) xs)"
  using assms
proof (induction xs)
  case (Cons x xs)
  show ?case
  proof (cases "x \<le> k")
    case False
    then have "filter (\<lambda>x. x \<le> k) xs = []" using Cons.prems by (auto simp: filter_empty_conv)
    then show ?thesis using False by (simp add: partition_point_def)
  qed (use Cons in \<open>simp add: partition_point_def\<close>)
qed (simp add: partition_point_def)

lemma wide_lines: "partition_point (\<lambda>s. s \<le> offset) (0 # map Suc (newline_offsets src)) = line_number src offset"
proof -
  have sorted: "sorted (0 # map Suc (newline_offsets src))"
    using newline_offsets_sorted [of src] by (simp add: sorted_map)
  have "take (min offset (length src)) src = take offset src" by (simp add: min_def)
  then show ?thesis
    using newlines_before [of offset src]
    by (simp add: partition_point_sorted [OF sorted] filter_map o_def Suc_le_eq line_number_def)
qed

text \<open>
  The index answers for every offset, also one behind the end, the line that counting the line breaks
  before it gives; with 32-bit line starts nothing is lost to wrap-around.
\<close>

theorem line_index_counts_newlines: "line_of (line_index_new src) offset = line_number src offset"
proof (cases "length src < 2 ^ 32")
  case False
  then show ?thesis using wide_lines by (simp add: line_index_new_def)
next
  case small: True
  let ?starts = "0 # map Suc (newline_offsets src)"
  have bound: "s < 2 ^ 32" if "s \<in> set ?starts" for s
    using that small newline_offsets_bound [of _ src] by fastforce
  have compact: "line_index_new src = Compact (map of_nat ?starts)"
    using small by (simp add: line_index_new_def)
  show ?thesis
  proof (cases "offset < 2 ^ 32")
    case True
    have le: "(of_nat s :: 32 word) \<le> of_nat offset \<longleftrightarrow> s \<le> offset" if "s \<in> set ?starts" for s
      using bound [OF that] True by (simp add: word_le_nat_alt unat_of_nat)
    have "takeWhile (\<lambda>s. (of_nat s :: 32 word) \<le> of_nat offset) ?starts = takeWhile (\<lambda>s. s \<le> offset) ?starts"
      by (rule takeWhile_cong [OF refl le])
    then have "line_of (line_index_new src) offset = partition_point (\<lambda>s. s \<le> offset) ?starts"
      using True unfolding compact partition_point_def line_of.simps takeWhile_map o_def length_map by simp
    then show ?thesis by (simp only: wide_lines)
  next
    case False
    then have "length src < offset" using small by simp
    then have "filter (\<lambda>i. i < offset) (newline_offsets src) = newline_offsets src"
      using newline_offsets_bound [of _ src] by (intro filter_True) fastforce
    then have "line_number src offset = length ?starts"
      using newlines_before [of offset src] \<open>length src < offset\<close> by (simp add: line_number_def)
    then show ?thesis using False by (simp add: compact)
  qed
qed

end
