(* ===== verification/Enrichment.thy ===== *)
theory Enrichment
  imports Ids Model ProjectPath "HOL-Library.Multiset"
begin

text \<open>
  Summaries written by a language model become facts of the graph (\<open>graphoxide-graph/src/enrichment.rs\<close>):
  a batch of records is checked against the graph, then replaces what an earlier batch wrote for the same
  files. The 12 bytes of SHA-256 in an identifier, in hexadecimal, are the parameter \<open>digest\<close>. Refused
  allocations are not modelled.
\<close>

section \<open>Records\<close>

record summary_record =
  r_source_node_id :: string
  r_source_file :: string
  r_profile :: string
  r_provider :: string
  r_model :: string
  r_redacted_input_sha256 :: string
  r_redaction_count :: nat
  r_summary :: string
  r_topics :: "string list"

datatype enrichment_error =
    InvalidRecord string
  | MissingMediaNode string
  | DuplicateGraphNodeId string
  | NotMediaInventory string
  | SourceMismatch string
  | DuplicateRecord string string
  | ForeignIdCollision string
  | ForeignReference string

record enrichment_report =
  facts_added :: nat
  facts_replaced :: nat

definition summary_profile :: string where
  "summary_profile = ''media-transcript-summary-v1''"

definition safe_relative_source :: "string \<Rightarrow> bool" where
  "safe_relative_source src \<longleftrightarrow>
     \<not> (CHR 0x5C \<in> set src \<or> CHR 0x00 \<in> set src \<or> contains src ''!/'' \<or> CHR '':'' \<in> set src)
     \<and> \<not> path_is_absolute src
     \<and> list_all (\<lambda>(kind, name). kind = 3 \<and> name \<noteq> [] \<and> name \<noteq> ''.'' \<and> name \<noteq> ''..'') (path_components src)"

definition has_forbidden_controls :: "string \<Rightarrow> bool \<Rightarrow> bool" where
  "has_forbidden_controls value allow_layout \<longleftrightarrow>
     list_ex (\<lambda>c. control_char c \<and> \<not> (allow_layout \<and> (c = CHR 0x0A \<or> c = CHR 0x0D \<or> c = CHR 0x09))) value"

definition lower_hex :: "char \<Rightarrow> bool" where
  "lower_hex c \<longleftrightarrow> ascii_digit c \<or> CHR ''a'' \<le> c \<and> c \<le> CHR ''f''"

definition validate_record :: "summary_record \<Rightarrow> string option" where
  "validate_record r =
     (if r_profile r \<noteq> summary_profile then Some ''unsupported profile''
      else if r_provider r \<noteq> ''openai-compatible'' then Some ''unsupported provider''
      else if r_source_node_id r = [] \<or> r_source_file r = [] \<or> utf8_len (r_source_file r) > 4 * 1024
        \<or> \<not> safe_relative_source (r_source_file r) then Some ''invalid source''
      else if r_model r = [] \<or> utf8_len (r_model r) > 256 \<or> has_forbidden_controls (r_model r) False
        then Some ''invalid model''
      else if utf8_len (r_redacted_input_sha256 r) \<noteq> 64 \<or> \<not> list_all lower_hex (r_redacted_input_sha256 r)
        then Some ''invalid input digest''
      else if r_summary r = [] \<or> utf8_len (r_summary r) > 4 * 1024 \<or> has_forbidden_controls (r_summary r) True
        then Some ''invalid summary''
      else if r_topics r = [] \<or> length (r_topics r) > 16 then Some ''invalid topics''
      else if list_ex (\<lambda>t. t = [] \<or> utf8_len t > 256 \<or> has_forbidden_controls t False) (r_topics r)
        then Some ''invalid topic''
      else None)"

section \<open>Facts of the graph\<close>

definition is_media_inventory_node :: "node \<Rightarrow> bool" where
  "is_media_inventory_node n \<longleftrightarrow>
     get_str (n_extra n) ''_origin'' \<noteq> Some ''enrichment''
     \<and> (get_str (n_extra n) ''type'' \<in> {Some ''media'', Some ''format_inventory''}
        \<or> get_str (n_extra n) ''format'' \<in> {Some ''media'', Some ''additional-media''}
        \<or> n_file_type n = ''video'')"

definition media_transcript_summary_id :: "(string \<Rightarrow> string) \<Rightarrow> unicode \<Rightarrow> string \<Rightarrow> string \<Rightarrow> string" where
  "media_transcript_summary_id digest u source_file profile =
     make_id u [''enrichment'', source_file, profile] @ ''_''
     @ digest (''graphoxide-enrichment-node-v1'' @ [CHR 0x00] @ source_file @ [CHR 0x00] @ profile)"

text \<open>The file and profile a fact of an earlier batch belongs to.\<close>

definition enrichment_key :: "node \<Rightarrow> (string \<times> string) option" where
  "enrichment_key n =
     (if get_str (n_extra n) ''_origin'' \<noteq> Some ''enrichment'' then None
      else if get_str (n_extra n) ''type'' \<noteq> Some ''media_transcript_summary'' then None
      else map_option (\<lambda>p. (n_source_file n, p)) (get_str (n_extra n) ''profile''))"

definition hyperedge_mentions_any :: "json \<Rightarrow> string set \<Rightarrow> bool" where
  "hyperedge_mentions_any h ids \<longleftrightarrow>
     list_ex (\<lambda>field. case Option.bind (vget h field) as_array of
          None \<Rightarrow> False
        | Some members \<Rightarrow> list_ex (\<lambda>i. i \<in> ids) (List.map_filter as_str members))
       [''nodes'', ''members'', ''node_ids'']"

section \<open>Staging\<close>

definition record_key :: "summary_record \<Rightarrow> string \<times> string" where
  "record_key r = (r_source_file r, r_profile r)"

definition record_id :: "(string \<Rightarrow> string) \<Rightarrow> unicode \<Rightarrow> summary_record \<Rightarrow> string" where
  "record_id digest u r = media_transcript_summary_id digest u (r_source_file r) (r_profile r)"

definition summary_node :: "string \<Rightarrow> int option \<Rightarrow> summary_record \<Rightarrow> node" where
  "summary_node i community r =
     \<lparr>n_id = i,
      n_label = ''Transcript summary: '' @ (case path_file_name (r_source_file r) of None \<Rightarrow> r_source_file r | Some f \<Rightarrow> f),
      n_file_type = ''concept'', n_source_file = r_source_file r, n_source_location = None, n_community = community,
      n_extra = bt_of_list
        [(''_origin'', JStr ''enrichment''), (''data_boundary'', JStr ''redacted_transcript_text_only''),
         (''model'', JStr (r_model r)), (''profile'', JStr (r_profile r)), (''provider'', JStr (r_provider r)),
         (''redacted_input_sha256'', JStr (r_redacted_input_sha256 r)),
         (''redaction_count'', JNum (JInt (int (r_redaction_count r)))), (''redaction_version'', JStr ''redaction-v1''),
         (''schema_version'', JNum (JInt 1)), (''summary'', JStr (r_summary r)),
         (''topics'', JArr (map JStr (remdups_adj (sort (r_topics r))))),
         (''type'', JStr ''media_transcript_summary''), (''verification'', JStr ''unverified_model_output'')]\<rparr>"

definition summary_edge :: "string \<Rightarrow> summary_record \<Rightarrow> edge" where
  "summary_edge i r =
     \<lparr>e_source = r_source_node_id r, e_target = i, e_relation = ''has_enrichment'', e_confidence = Ambiguous,
      e_source_file = r_source_file r,
      e_extra = bt_of_list
        [(''_origin'', JStr ''enrichment''), (''_src'', JStr (r_source_node_id r)), (''_tgt'', JStr i),
         (''profile'', JStr (r_profile r)), (''schema_version'', JNum (JInt 1))]\<rparr>"

record staging =
  st_requested :: "(string \<times> string) set"
  st_replacement :: "string set"
  st_ids :: "string set"
  st_nodes :: "node list"
  st_edges :: "edge list"

definition node_by_id :: "graph \<Rightarrow> string \<Rightarrow> node option" where
  "node_by_id g i = find (\<lambda>n. n_id n = i) (g_nodes g)"

definition stage_record ::
  "(string \<Rightarrow> string) \<Rightarrow> unicode \<Rightarrow> graph \<Rightarrow> summary_record \<Rightarrow> staging \<Rightarrow> enrichment_error + staging" where
  "stage_record digest u g r st =
     (case validate_record r of
        Some why \<Rightarrow> Inl (InvalidRecord why)
      | None \<Rightarrow>
          if record_key r \<in> st_requested st then Inl (DuplicateRecord (r_source_file r) (r_profile r))
          else case node_by_id g (r_source_node_id r) of
            None \<Rightarrow> Inl (MissingMediaNode (r_source_node_id r))
          | Some media \<Rightarrow>
              if \<not> is_media_inventory_node media then Inl (NotMediaInventory (r_source_node_id r))
              else if n_source_file media \<noteq> r_source_file r then Inl (SourceMismatch (r_source_node_id r))
              else
                let i = record_id digest u r;
                    collides = (case node_by_id g i of None \<Rightarrow> False | Some n \<Rightarrow> enrichment_key n \<noteq> Some (record_key r))
                in if collides \<or> i \<in> st_ids st then Inl (ForeignIdCollision i)
                   else Inr \<lparr>st_requested = insert (record_key r) (st_requested st),
                       st_replacement = st_replacement st
                         \<union> set (map n_id (filter (\<lambda>n. enrichment_key n = Some (record_key r)) (g_nodes g))),
                       st_ids = insert i (st_ids st),
                       st_nodes = st_nodes st @ [summary_node i (n_community media) r],
                       st_edges = st_edges st @ [summary_edge i r]\<rparr>)"

fun stage_records ::
  "(string \<Rightarrow> string) \<Rightarrow> unicode \<Rightarrow> graph \<Rightarrow> summary_record list \<Rightarrow> staging \<Rightarrow> enrichment_error + staging" where
  "stage_records digest u g [] st = Inr st"
| "stage_records digest u g (r # rs) st =
     (case stage_record digest u g r st of Inl e \<Rightarrow> Inl e | Inr st' \<Rightarrow> stage_records digest u g rs st')"

section \<open>Application\<close>

fun first_duplicate :: "string set \<Rightarrow> string list \<Rightarrow> string option" where
  "first_duplicate seen [] = None"
| "first_duplicate seen (i # is) = (if i \<in> seen then Some i else first_duplicate (insert i seen) is)"

definition touches :: "string set \<Rightarrow> edge \<Rightarrow> bool" where
  "touches ids e \<longleftrightarrow> true_source e \<in> ids \<or> true_target e \<in> ids"

definition foreign_edge :: "string set \<Rightarrow> string set \<Rightarrow> edge \<Rightarrow> bool" where
  "foreign_edge first_insert replacement e \<longleftrightarrow>
     touches first_insert e \<or> touches replacement e \<and> get_str (e_extra e) ''_origin'' \<noteq> Some ''enrichment''"

definition foreign_hyperedge :: "string set \<Rightarrow> string set \<Rightarrow> json \<Rightarrow> bool" where
  "foreign_hyperedge first_insert replacement h \<longleftrightarrow>
     hyperedge_mentions_any h first_insert
     \<or> hyperedge_mentions_any h replacement \<and> Option.bind (vget h ''_origin'') as_str \<noteq> Some ''enrichment''"

definition validate_replacement_references :: "graph \<Rightarrow> string set \<Rightarrow> string set \<Rightarrow> enrichment_error option" where
  "validate_replacement_references g replacement staged =
     (let first_insert = staged - replacement
      in case find (foreign_edge first_insert replacement) (g_links g) of
           Some e \<Rightarrow> Some (ForeignReference (e_relation e))
         | None \<Rightarrow> if list_ex (foreign_hyperedge first_insert replacement) (g_hyperedges g)
             then Some (ForeignReference ''hyperedge'') else None)"

definition empty_staging :: staging where
  "empty_staging = \<lparr>st_requested = {}, st_replacement = {}, st_ids = {}, st_nodes = [], st_edges = []\<rparr>"

definition record_order :: "summary_record \<Rightarrow> string \<times> string \<times> string" where
  "record_order r = (r_source_file r, r_profile r, r_source_node_id r)"

definition publish_staging :: "graph \<Rightarrow> staging \<Rightarrow> graph" where
  "publish_staging g st =
     g\<lparr>g_nodes := filter (\<lambda>n. n_id n \<notin> st_replacement st) (g_nodes g) @ st_nodes st,
       g_links := filter (\<lambda>e. \<not> touches (st_replacement st) e) (g_links g) @ st_edges st,
       g_hyperedges := filter (\<lambda>h. \<not> hyperedge_mentions_any h (st_replacement st)) (g_hyperedges g)\<rparr>"

definition apply_media_transcript_summaries ::
  "(string \<Rightarrow> string) \<Rightarrow> unicode \<Rightarrow> graph \<Rightarrow> summary_record list \<Rightarrow> enrichment_error + graph \<times> enrichment_report" where
  "apply_media_transcript_summaries digest u g records =
     (case first_duplicate {} (map n_id (g_nodes g)) of
        Some i \<Rightarrow> Inl (DuplicateGraphNodeId i)
      | None \<Rightarrow>
          (case stage_records digest u g (sort_key record_order records) empty_staging of
             Inl e \<Rightarrow> Inl e
           | Inr st \<Rightarrow>
               (case validate_replacement_references g (st_replacement st) (st_ids st) of
                  Some e \<Rightarrow> Inl e
                | None \<Rightarrow> Inr (publish_staging g st,
                    \<lparr>facts_added = length records, facts_replaced = card (st_replacement st)\<rparr>))))"

section \<open>When a batch is staged\<close>

text \<open>The media node of a record, and whether a record fits the graph by itself.\<close>

definition media_of :: "graph \<Rightarrow> summary_record \<Rightarrow> node" where
  "media_of g r = the (node_by_id g (r_source_node_id r))"

definition fits :: "(string \<Rightarrow> string) \<Rightarrow> unicode \<Rightarrow> graph \<Rightarrow> summary_record \<Rightarrow> bool" where
  "fits digest u g r \<longleftrightarrow>
     validate_record r = None \<and> node_by_id g (r_source_node_id r) \<noteq> None
     \<and> is_media_inventory_node (media_of g r) \<and> n_source_file (media_of g r) = r_source_file r
     \<and> (\<forall>n. node_by_id g (record_id digest u r) = Some n \<longrightarrow> enrichment_key n = Some (record_key r))"

definition staged_node :: "(string \<Rightarrow> string) \<Rightarrow> unicode \<Rightarrow> graph \<Rightarrow> summary_record \<Rightarrow> node" where
  "staged_node digest u g r = summary_node (record_id digest u r) (n_community (media_of g r)) r"

definition staged_edge :: "(string \<Rightarrow> string) \<Rightarrow> unicode \<Rightarrow> summary_record \<Rightarrow> edge" where
  "staged_edge digest u r = summary_edge (record_id digest u r) r"

definition owned_by :: "(string \<times> string) set \<Rightarrow> node \<Rightarrow> bool" where
  "owned_by keys n \<longleftrightarrow> (\<exists>k \<in> keys. enrichment_key n = Some k)"

definition replaced_ids :: "graph \<Rightarrow> summary_record list \<Rightarrow> string set" where
  "replaced_ids g rs = n_id ` {n \<in> set (g_nodes g). owned_by (record_key ` set rs) n}"

lemma stage_record_Inr:
  "stage_record digest u g r st = Inr st' \<longleftrightarrow>
     fits digest u g r \<and> record_key r \<notin> st_requested st \<and> record_id digest u r \<notin> st_ids st
     \<and> st' = \<lparr>st_requested = insert (record_key r) (st_requested st),
         st_replacement = st_replacement st \<union> replaced_ids g [r], st_ids = insert (record_id digest u r) (st_ids st),
         st_nodes = st_nodes st @ [staged_node digest u g r], st_edges = st_edges st @ [staged_edge digest u r]\<rparr>"
proof -
  have ids: "set (map n_id (filter (\<lambda>n. enrichment_key n = Some (record_key r)) (g_nodes g))) = replaced_ids g [r]"
    by (auto simp: replaced_ids_def owned_by_def)
  show ?thesis
    unfolding stage_record_def ids
    by (auto simp: fits_def media_of_def staged_node_def staged_edge_def Let_def split: option.splits)
qed

lemma replaced_ids_Cons: "replaced_ids g (r # rs) = replaced_ids g [r] \<union> replaced_ids g rs"
  by (auto simp: replaced_ids_def owned_by_def)

lemma replaced_ids_Nil [simp]: "replaced_ids g [] = {}"
  by (simp add: replaced_ids_def owned_by_def)

lemma stage_records_Inr:
  "stage_records digest u g rs st = Inr st' \<longleftrightarrow>
     list_all (fits digest u g) rs \<and> distinct (map record_key rs) \<and> distinct (map (record_id digest u) rs)
     \<and> record_key ` set rs \<inter> st_requested st = {} \<and> record_id digest u ` set rs \<inter> st_ids st = {}
     \<and> st' = \<lparr>st_requested = record_key ` set rs \<union> st_requested st,
         st_replacement = st_replacement st \<union> replaced_ids g rs, st_ids = record_id digest u ` set rs \<union> st_ids st,
         st_nodes = st_nodes st @ map (staged_node digest u g) rs, st_edges = st_edges st @ map (staged_edge digest u) rs\<rparr>"
proof (induction rs arbitrary: st)
  case (Cons r rs)
  show ?case
  proof (cases "stage_record digest u g r st")
    case (Inl e)
    then have "\<not> (fits digest u g r \<and> record_key r \<notin> st_requested st \<and> record_id digest u r \<notin> st_ids st)"
      using stage_record_Inr [of digest u g r st] by auto
    then show ?thesis using Inl by auto
  next
    case (Inr st1)
    then have 1: "fits digest u g r" "record_key r \<notin> st_requested st" "record_id digest u r \<notin> st_ids st"
      and st1: "st1 = \<lparr>st_requested = insert (record_key r) (st_requested st),
         st_replacement = st_replacement st \<union> replaced_ids g [r], st_ids = insert (record_id digest u r) (st_ids st),
         st_nodes = st_nodes st @ [staged_node digest u g r], st_edges = st_edges st @ [staged_edge digest u r]\<rparr>"
      by (simp_all add: stage_record_Inr)
    show ?thesis
      using 1 by (auto simp: Inr Cons.IH st1 replaced_ids_Cons [of g r rs])
  qed
qed auto

text \<open>The whole condition under which a batch is applied, and what comes out.\<close>

definition batch_ok :: "(string \<Rightarrow> string) \<Rightarrow> unicode \<Rightarrow> graph \<Rightarrow> summary_record list \<Rightarrow> bool" where
  "batch_ok digest u g rs \<longleftrightarrow>
     distinct (map n_id (g_nodes g)) \<and> list_all (fits digest u g) rs
     \<and> distinct (map record_key rs) \<and> distinct (map (record_id digest u) rs)
     \<and> (let ids = record_id digest u ` set rs; gone = replaced_ids g rs
        in (\<forall>e \<in> set (g_links g). \<not> foreign_edge (ids - gone) gone e)
           \<and> (\<forall>h \<in> set (g_hyperedges g). \<not> foreign_hyperedge (ids - gone) gone h))"

definition enriched :: "(string \<Rightarrow> string) \<Rightarrow> unicode \<Rightarrow> graph \<Rightarrow> summary_record list \<Rightarrow> graph" where
  "enriched digest u g rs =
     g\<lparr>g_nodes := filter (\<lambda>n. n_id n \<notin> replaced_ids g rs) (g_nodes g) @ map (staged_node digest u g) (sort_key record_order rs),
       g_links := filter (\<lambda>e. \<not> touches (replaced_ids g rs) e) (g_links g) @ map (staged_edge digest u) (sort_key record_order rs),
       g_hyperedges := filter (\<lambda>h. \<not> hyperedge_mentions_any h (replaced_ids g rs)) (g_hyperedges g)\<rparr>"

lemma first_duplicate_None: "first_duplicate seen is = None \<longleftrightarrow> distinct is \<and> set is \<inter> seen = {}"
  by (induction "is" arbitrary: seen) auto

lemma distinct_sorted_map: "distinct (map f (sort_key k xs)) \<longleftrightarrow> distinct (map f xs)"
  by (metis mset_sort mset_map mset_eq_imp_distinct_iff)

lemma references_None:
  "validate_replacement_references g gone ids = None
     \<longleftrightarrow> (\<forall>e \<in> set (g_links g). \<not> foreign_edge (ids - gone) gone e)
         \<and> (\<forall>h \<in> set (g_hyperedges g). \<not> foreign_hyperedge (ids - gone) gone h)"
  by (auto simp: validate_replacement_references_def Let_def find_None_iff list_ex_iff split: option.splits)
    (metis find_None_iff option.distinct(1))+

lemma replaced_ids_sort: "replaced_ids g (sort_key record_order rs) = replaced_ids g rs"
  by (simp add: replaced_ids_def)

lemma apply_Inr:
  "apply_media_transcript_summaries digest u g rs = Inr (g', rep) \<longleftrightarrow>
     batch_ok digest u g rs \<and> g' = enriched digest u g rs
     \<and> rep = \<lparr>facts_added = length rs, facts_replaced = card (replaced_ids g rs)\<rparr>"
proof (cases "distinct (map n_id (g_nodes g))")
  case False
  then have "first_duplicate {} (map n_id (g_nodes g)) \<noteq> None" by (simp add: first_duplicate_None)
  then show ?thesis using False by (auto simp: apply_media_transcript_summaries_def batch_ok_def)
next
  case True
  then have d: "first_duplicate {} (map n_id (g_nodes g)) = None" by (simp add: first_duplicate_None)
  let ?st = "\<lparr>st_requested = record_key ` set rs, st_replacement = replaced_ids g rs, st_ids = record_id digest u ` set rs,
      st_nodes = map (staged_node digest u g) (sort_key record_order rs),
      st_edges = map (staged_edge digest u) (sort_key record_order rs)\<rparr>"
  have staged: "stage_records digest u g (sort_key record_order rs) empty_staging = Inr st \<longleftrightarrow>
      list_all (fits digest u g) rs \<and> distinct (map record_key rs) \<and> distinct (map (record_id digest u) rs) \<and> st = ?st" for st
    by (simp add: stage_records_Inr empty_staging_def distinct_sorted_map replaced_ids_sort list_all_iff)
  have pub: "publish_staging g ?st = enriched digest u g rs"
    by (simp add: publish_staging_def enriched_def)
  show ?thesis
  proof (cases "stage_records digest u g (sort_key record_order rs) empty_staging")
    case (Inl e)
    then show ?thesis using staged [of ?st] True by (auto simp: apply_media_transcript_summaries_def d batch_ok_def)
  next
    case (Inr st)
    then have st: "list_all (fits digest u g) rs" "distinct (map record_key rs)" "distinct (map (record_id digest u) rs)" "st = ?st"
      using staged by simp_all
    have ap: "apply_media_transcript_summaries digest u g rs
        = (case validate_replacement_references g (replaced_ids g rs) (record_id digest u ` set rs) of
             Some e \<Rightarrow> Inl e
           | None \<Rightarrow> Inr (enriched digest u g rs, \<lparr>facts_added = length rs, facts_replaced = card (replaced_ids g rs)\<rparr>))"
      using pub by (simp add: apply_media_transcript_summaries_def d Inr st(4) split: option.split)
    have bo: "batch_ok digest u g rs \<longleftrightarrow>
        validate_replacement_references g (replaced_ids g rs) (record_id digest u ` set rs) = None"
      using True st(1-3) by (simp add: batch_ok_def references_None Let_def)
    show ?thesis unfolding ap bo by (auto split: option.splits)
  qed
qed

section \<open>The facts a batch writes\<close>

lemma staged_node_facts [simp]:
  "n_id (staged_node digest u g r) = record_id digest u r"
  "enrichment_key (staged_node digest u g r) = Some (record_key r)"
  "\<not> is_media_inventory_node (staged_node digest u g r)"
  by (simp_all add: staged_node_def summary_node_def enrichment_key_def record_key_def is_media_inventory_node_def
      get_str_def bt_get_of_list)

lemma staged_edge_facts [simp]:
  "true_source (staged_edge digest u r) = r_source_node_id r"
  "true_target (staged_edge digest u r) = record_id digest u r"
  "get_str (e_extra (staged_edge digest u r)) ''_origin'' = Some ''enrichment''"
  by (simp_all add: staged_edge_def summary_edge_def true_source_def true_target_def get_str_def bt_get_of_list)

lemma media_has_no_key: "is_media_inventory_node n \<Longrightarrow> enrichment_key n = None"
  by (simp add: is_media_inventory_node_def enrichment_key_def)

lemma find_keyed: "distinct (map f xs) \<Longrightarrow> find (\<lambda>x. f x = k) xs = Some x \<longleftrightarrow> x \<in> set xs \<and> f x = k"
  by (induction xs) (auto simp: rev_image_eqI)

lemma filter_key_unique: "distinct (map f xs) \<Longrightarrow> x \<in> set xs \<Longrightarrow> filter (\<lambda>y. f y = f x) xs = [x]"
  by (induction xs) (auto simp: filter_empty_conv rev_image_eqI)

lemma node_by_id_Some:
  "distinct (map n_id (g_nodes g)) \<Longrightarrow> node_by_id g i = Some n \<longleftrightarrow> n \<in> set (g_nodes g) \<and> n_id n = i"
  unfolding node_by_id_def by (rule find_keyed)

lemma mentions_subset: "hyperedge_mentions_any h (a \<union> b) \<longleftrightarrow> hyperedge_mentions_any h a \<or> hyperedge_mentions_any h b"
  by (auto simp: hyperedge_mentions_any_def list_ex_iff split: option.splits)

lemma mentions_mono: "hyperedge_mentions_any h a \<Longrightarrow> a \<subseteq> b \<Longrightarrow> hyperedge_mentions_any h b"
  using mentions_subset [of h a b] by (simp add: Un_absorb1)

lemma touches_mono: "touches a e \<Longrightarrow> a \<subseteq> b \<Longrightarrow> touches b e"
  by (auto simp: touches_def)

section \<open>A batch applied\<close>

lemma removed_iff_owned:
  assumes "distinct (map n_id (g_nodes g))" and "n \<in> set (g_nodes g)"
  shows "n_id n \<in> replaced_ids g rs \<longleftrightarrow> owned_by (record_key ` set rs) n"
proof
  assume "n_id n \<in> replaced_ids g rs"
  then obtain m where "m \<in> set (g_nodes g)" "owned_by (record_key ` set rs) m" "n_id m = n_id n"
    by (auto simp: replaced_ids_def)
  then show "owned_by (record_key ` set rs) n"
    using assms by (metis distinct_map inj_onD)
qed (use assms(2) in \<open>auto simp: replaced_ids_def\<close>)

lemma enriched_nodes:
  assumes "distinct (map n_id (g_nodes g))"
  shows "g_nodes (enriched digest u g rs)
    = filter (\<lambda>n. \<not> owned_by (record_key ` set rs) n) (g_nodes g) @ map (staged_node digest u g) (sort_key record_order rs)"
  using removed_iff_owned [OF assms, of _ rs] by (auto simp: enriched_def cong: filter_cong)

lemma batch_fits:
  assumes "batch_ok digest u g rs" and "r \<in> set rs"
  shows "fits digest u g r" "media_of g r \<in> set (g_nodes g)" "n_id (media_of g r) = r_source_node_id r"
    "\<not> owned_by (record_key ` set rs) (media_of g r)"
proof -
  show f: "fits digest u g r" using assms by (simp add: batch_ok_def list_all_iff)
  have d: "distinct (map n_id (g_nodes g))" using assms(1) by (simp add: batch_ok_def)
  obtain m where m: "node_by_id g (r_source_node_id r) = Some m" using f by (auto simp: fits_def)
  then have "media_of g r = m" by (simp add: media_of_def)
  then show "media_of g r \<in> set (g_nodes g)" "n_id (media_of g r) = r_source_node_id r"
    using m node_by_id_Some [OF d] by simp_all
  show "\<not> owned_by (record_key ` set rs) (media_of g r)"
    using f media_has_no_key by (auto simp: fits_def owned_by_def)
qed

lemma enriched_distinct:
  assumes ok: "batch_ok digest u g rs"
  shows "distinct (map n_id (g_nodes (enriched digest u g rs)))"
proof -
  have d: "distinct (map n_id (g_nodes g))" using ok by (simp add: batch_ok_def)
  let ?keep = "filter (\<lambda>n. \<not> owned_by (record_key ` set rs) n) (g_nodes g)"
  have "distinct (map n_id ?keep)" using d by (rule distinct_map_filter)
  moreover have "distinct (map (record_id digest u) (sort_key record_order rs))"
    using ok by (simp add: batch_ok_def distinct_sorted_map)
  moreover have "n_id n \<noteq> record_id digest u r" if "n \<in> set ?keep" "r \<in> set rs" for n r
  proof
    assume "n_id n = record_id digest u r"
    then have "node_by_id g (record_id digest u r) = Some n"
      using that(1) node_by_id_Some [OF d] by simp
    then have "enrichment_key n = Some (record_key r)"
      using batch_fits(1) [OF ok that(2)] by (simp add: fits_def)
    then show False using that by (auto simp: owned_by_def)
  qed
  ultimately show ?thesis
    unfolding enriched_nodes [OF d] by (auto simp: o_def)
qed

text \<open>The records fit the graph they have been applied to, and all they would replace is what they wrote.\<close>

lemma fits_again:
  assumes ok: "batch_ok digest u g rs" and r: "r \<in> set rs"
  shows "fits digest u (enriched digest u g rs) r \<and> media_of (enriched digest u g rs) r = media_of g r"
proof -
  let ?g = "enriched digest u g rs"
  have d: "distinct (map n_id (g_nodes g))" using ok by (simp add: batch_ok_def)
  note d' = enriched_distinct [OF ok]
  have media: "node_by_id ?g (r_source_node_id r) = Some (media_of g r)"
    using batch_fits(2-4) [OF ok r] by (simp add: node_by_id_Some [OF d'] enriched_nodes [OF d])
  have own: "node_by_id ?g (record_id digest u r) = Some (staged_node digest u g r)"
    using r by (simp add: node_by_id_Some [OF d'] enriched_nodes [OF d])
  show ?thesis
    using batch_fits(1) [OF ok r] media own by (simp add: fits_def media_of_def)
qed

lemma replaced_again:
  assumes ok: "batch_ok digest u g rs"
  shows "replaced_ids (enriched digest u g rs) rs = record_id digest u ` set rs"
proof -
  have d: "distinct (map n_id (g_nodes g))" using ok by (simp add: batch_ok_def)
  have "{n \<in> set (g_nodes (enriched digest u g rs)). owned_by (record_key ` set rs) n} = staged_node digest u g ` set rs"
    unfolding enriched_nodes [OF d] by (auto simp: owned_by_def)
  then show ?thesis by (simp add: replaced_ids_def image_image)
qed

lemma untouched:
  assumes ok: "batch_ok digest u g rs"
  shows "e \<in> set (g_links g) \<Longrightarrow> \<not> touches (replaced_ids g rs) e \<Longrightarrow> \<not> touches (record_id digest u ` set rs) e"
    "h \<in> set (g_hyperedges g) \<Longrightarrow> \<not> hyperedge_mentions_any h (replaced_ids g rs) \<Longrightarrow>
       \<not> hyperedge_mentions_any h (record_id digest u ` set rs)"
proof -
  let ?ids = "record_id digest u ` set rs" and ?gone = "replaced_ids g rs"
  have sub: "?ids \<subseteq> (?ids - ?gone) \<union> ?gone" by blast
  show "\<not> touches ?ids e" if "e \<in> set (g_links g)" "\<not> touches ?gone e"
    using ok that unfolding batch_ok_def foreign_edge_def Let_def touches_def by blast
  show "\<not> hyperedge_mentions_any h ?ids" if "h \<in> set (g_hyperedges g)" "\<not> hyperedge_mentions_any h ?gone"
  proof
    assume "hyperedge_mentions_any h ?ids"
    then have "hyperedge_mentions_any h (?ids - ?gone)"
      using mentions_mono [OF _ sub] mentions_subset that(2) by blast
    then show False using ok that(1) unfolding batch_ok_def foreign_hyperedge_def Let_def by blast
  qed
qed

lemma batch_ok_again:
  assumes ok: "batch_ok digest u g rs"
  shows "batch_ok digest u (enriched digest u g rs) rs"
proof -
  let ?ids = "record_id digest u ` set rs"
  have "\<not> foreign_edge {} ?ids e" if "e \<in> set (g_links (enriched digest u g rs))" for e
  proof -
    have "e \<in> set (g_links g) \<and> \<not> touches (replaced_ids g rs) e \<or> e \<in> staged_edge digest u ` set rs"
      using that by (auto simp: enriched_def)
    then show ?thesis
      using untouched(1) [OF ok, of e] by (auto simp: foreign_edge_def touches_def)
  qed
  moreover have "\<not> foreign_hyperedge {} ?ids h" if "h \<in> set (g_hyperedges (enriched digest u g rs))" for h
  proof -
    have "\<not> hyperedge_mentions_any h ?ids"
      using that untouched(2) [OF ok, of h] by (simp add: enriched_def)
    moreover have "\<not> hyperedge_mentions_any h {}"
      using mentions_mono [of h "{}" ?ids] calculation by blast
    ultimately show ?thesis by (simp add: foreign_hyperedge_def)
  qed
  ultimately show ?thesis
    using ok enriched_distinct [OF ok] fits_again [OF ok]
    by (simp add: batch_ok_def [of _ _ "enriched digest u g rs"] replaced_again Let_def list_all_iff batch_ok_def [of _ _ g])
qed

lemma enriched_again:
  assumes ok: "batch_ok digest u g rs"
  shows "enriched digest u (enriched digest u g rs) rs = enriched digest u g rs"
proof -
  let ?g = "enriched digest u g rs" and ?ids = "record_id digest u ` set rs" and ?sorted = "sort_key record_order rs"
  have d: "distinct (map n_id (g_nodes g))" using ok by (simp add: batch_ok_def)
  have staged: "map (staged_node digest u ?g) ?sorted = map (staged_node digest u g) ?sorted"
    using fits_again [OF ok] by (simp add: staged_node_def)
  have nodes: "g_nodes (enriched digest u ?g rs) = g_nodes ?g"
    unfolding enriched_nodes [OF enriched_distinct [OF ok]] enriched_nodes [OF d] staged
    by (auto simp: filter_map o_def owned_by_def filter_empty_conv)
  have "filter (\<lambda>e. \<not> touches ?ids e) (map (staged_edge digest u) ?sorted) = []"
    by (auto simp: filter_empty_conv touches_def)
  moreover have "filter (\<lambda>e. \<not> touches ?ids e) (filter (\<lambda>e. \<not> touches (replaced_ids g rs) e) (g_links g))
      = filter (\<lambda>e. \<not> touches (replaced_ids g rs) e) (g_links g)"
    using untouched(1) [OF ok] by (intro filter_True) auto
  ultimately have links: "g_links (enriched digest u ?g rs) = g_links ?g"
    unfolding enriched_def [of _ _ ?g] replaced_again [OF ok] by (simp add: enriched_def)
  have hyper: "g_hyperedges (enriched digest u ?g rs) = g_hyperedges ?g"
    unfolding enriched_def [of _ _ ?g] replaced_again [OF ok]
    using untouched(2) [OF ok] by (auto simp: enriched_def intro!: filter_cong)
  show ?thesis
    using nodes links hyper by (intro graph.equality) (simp_all, simp_all add: enriched_def)
qed

lemma enriched_order:
  assumes ok: "batch_ok digest u g rs" and perm: "mset rs' = mset rs"
  shows "batch_ok digest u g rs' \<and> enriched digest u g rs' = enriched digest u g rs \<and> length rs' = length rs
    \<and> replaced_ids g rs' = replaced_ids g rs"
proof -
  have set: "set rs' = set rs" using perm mset_eq_setD by blast
  have gone: "replaced_ids g rs' = replaced_ids g rs" by (simp add: replaced_ids_def set)
  have dist: "distinct (map f rs') \<longleftrightarrow> distinct (map f rs)" for f :: "summary_record \<Rightarrow> 'b"
    using mset_eq_imp_distinct_iff [of "map f rs'" "map f rs"] perm by simp
  have dk: "distinct (map record_key rs)" using ok by (simp add: batch_ok_def)
  have "inj_on record_order (set rs)"
    using dk by (auto simp: distinct_map inj_on_def record_order_def record_key_def)
  then have "sort_key record_order rs' = sort_key record_order rs"
    using perm set by (intro sort_key_inj_key_eq) simp_all
  then have "enriched digest u g rs' = enriched digest u g rs"
    by (simp add: enriched_def gone)
  moreover have "batch_ok digest u g rs'"
    using ok unfolding batch_ok_def set gone dist list_all_iff .
  ultimately show ?thesis using mset_eq_length [OF perm] gone by blast
qed

text \<open>
  C16: a batch that has been applied can be applied again: the graph stays what it is, and as many facts are
  replaced as there are records. The order of the records in a batch does not matter.
\<close>

theorem enrichment_idempotent:
  assumes "apply_media_transcript_summaries digest u g rs = Inr (g', rep)"
  shows "apply_media_transcript_summaries digest u g' rs
      = Inr (g', \<lparr>facts_added = length rs, facts_replaced = length rs\<rparr>)
    \<and> (\<forall>rs'. mset rs' = mset rs \<longrightarrow> apply_media_transcript_summaries digest u g rs' = Inr (g', rep))"
proof -
  have ok: "batch_ok digest u g rs" and g': "g' = enriched digest u g rs"
    and rep: "rep = \<lparr>facts_added = length rs, facts_replaced = card (replaced_ids g rs)\<rparr>"
    using assms by (simp_all add: apply_Inr)
  have "distinct (map (record_id digest u) rs)" using ok by (simp add: batch_ok_def)
  then have "card (record_id digest u ` set rs) = length rs"
    using distinct_card by fastforce
  then have "apply_media_transcript_summaries digest u g' rs
      = Inr (g', \<lparr>facts_added = length rs, facts_replaced = length rs\<rparr>)"
    using batch_ok_again [OF ok] enriched_again [OF ok] by (simp add: apply_Inr g' replaced_again [OF ok])
  moreover have "apply_media_transcript_summaries digest u g rs' = Inr (g', rep)" if "mset rs' = mset rs" for rs'
    using enriched_order [OF ok that] by (simp add: apply_Inr g' rep)
  ultimately show ?thesis by blast
qed

text \<open>
  C15: applying a batch removes the facts that earlier batches wrote for the same files and profiles, and
  nothing else; every record then has exactly one fact, beside the media node it names. Identifiers stay
  distinct, no edge of a graph without dangling edges is left dangling, and no hyperedge loses a member.
\<close>

theorem enrichment_replaces_own_facts:
  assumes "apply_media_transcript_summaries digest u g rs = Inr (g', rep)"
  shows "filter (\<lambda>n. \<not> owned_by (record_key ` set rs) n) (g_nodes g') = filter (\<lambda>n. \<not> owned_by (record_key ` set rs) n) (g_nodes g)
    \<and> (\<forall>r \<in> set rs. filter (\<lambda>n. enrichment_key n = Some (record_key r)) (g_nodes g') = [staged_node digest u g r]
         \<and> staged_edge digest u r \<in> set (g_links g'))
    \<and> distinct (map n_id (g_nodes g'))
    \<and> ((\<forall>e \<in> set (g_links g). {true_source e, true_target e} \<subseteq> n_id ` set (g_nodes g)) \<longrightarrow>
         (\<forall>e \<in> set (g_links g'). {true_source e, true_target e} \<subseteq> n_id ` set (g_nodes g')))
    \<and> set (g_hyperedges g') \<subseteq> set (g_hyperedges g)"
proof -
  let ?own = "owned_by (record_key ` set rs)" and ?sorted = "sort_key record_order rs"
  have ok: "batch_ok digest u g rs" and g': "g' = enriched digest u g rs"
    using assms by (simp_all add: apply_Inr)
  have d: "distinct (map n_id (g_nodes g))" and dk: "distinct (map record_key ?sorted)"
    using ok by (simp_all add: batch_ok_def distinct_sorted_map)
  note nodes = enriched_nodes [OF d, of digest u rs]
  have kept: "filter (\<lambda>n. \<not> ?own n) (g_nodes g') = filter (\<lambda>n. \<not> ?own n) (g_nodes g)"
    unfolding g' nodes by (auto simp: filter_empty_conv owned_by_def)
  have one: "filter (\<lambda>n. enrichment_key n = Some (record_key r)) (g_nodes g') = [staged_node digest u g r]"
    if r: "r \<in> set rs" for r
  proof -
    have "filter (\<lambda>n. enrichment_key n = Some (record_key r)) (filter (\<lambda>n. \<not> ?own n) (g_nodes g)) = []"
      using r by (auto simp: filter_empty_conv owned_by_def)
    moreover have "filter (\<lambda>s. record_key s = record_key r) ?sorted = [r]"
      using dk r by (intro filter_key_unique) simp_all
    ultimately show ?thesis unfolding g' nodes by (simp add: filter_map o_def)
  qed
  have closed: "{true_source e, true_target e} \<subseteq> n_id ` set (g_nodes g')"
    if ids: "\<forall>e \<in> set (g_links g). {true_source e, true_target e} \<subseteq> n_id ` set (g_nodes g)" and e: "e \<in> set (g_links g')" for e
  proof -
    have keeps: "i \<in> n_id ` set (g_nodes g')" if "i \<in> n_id ` set (g_nodes g)" "i \<notin> replaced_ids g rs" for i
      using that by (auto simp: g' enriched_def)
    from e consider "e \<in> set (g_links g)" "\<not> touches (replaced_ids g rs) e"
      | r where "r \<in> set rs" "e = staged_edge digest u r"
      by (auto simp: g' enriched_def)
    then show ?thesis
    proof cases
      case 1
      then show ?thesis using ids keeps by (auto simp: touches_def)
    next
      case (2 r)
      have "media_of g r \<in> set (g_nodes g')" using batch_fits(2,4) [OF ok 2(1)] unfolding g' nodes by simp
      then have "r_source_node_id r \<in> n_id ` set (g_nodes g')" using batch_fits(3) [OF ok 2(1)] by force
      moreover have "record_id digest u r \<in> n_id ` set (g_nodes g')"
        using 2(1) unfolding g' nodes by (force simp: image_Un image_image)
      ultimately show ?thesis by (simp add: 2(2))
    qed
  qed
  show ?thesis
    using kept one closed enriched_distinct [OF ok] by (auto simp: g' enriched_def)
qed

section \<open>An example\<close>

text \<open>A recording with the summary an earlier run wrote, and a new record for it.\<close>

definition sample_record :: "string \<Rightarrow> summary_record" where
  "sample_record summary =
     \<lparr>r_source_node_id = ''talk'', r_source_file = ''a/talk.mp4'', r_profile = summary_profile,
      r_provider = ''openai-compatible'', r_model = ''m'', r_redacted_input_sha256 = replicate 64 (CHR ''a''),
      r_redaction_count = 2, r_summary = summary, r_topics = [''z'', ''b'', ''b'']\<rparr>"

definition media_graph :: graph where
  "media_graph =
     \<lparr>g_directed = True, g_multigraph = False,
      g_nodes = [\<lparr>n_id = ''talk'', n_label = ''talk'', n_file_type = ''video'', n_source_file = ''a/talk.mp4'',
                  n_source_location = None, n_community = Some 7, n_extra = []\<rparr>,
                 summary_node ''old'' None (sample_record ''first'')],
      g_links = [summary_edge ''old'' (sample_record ''first'')], g_hyperedges = [], g_extra = []\<rparr>"

definition sample_run :: "enrichment_error + graph \<times> enrichment_report" where
  "sample_run = apply_media_transcript_summaries (\<lambda>_. ''d'') plain_unicode media_graph [sample_record ''second'']"

lemma Inr_case: "(case y of Inl _ \<Rightarrow> False | Inr (a, b) \<Rightarrow> P a b) \<Longrightarrow> \<exists>a b. y = Inr (a, b) \<and> P a b"
  by (cases y) auto

lemma sample_run_works: "\<exists>g' rep. sample_run = Inr (g', rep) \<and> facts_replaced rep = 1"
proof (rule Inr_case)
  show "case sample_run of Inl _ \<Rightarrow> False | Inr (g', rep) \<Rightarrow> facts_replaced rep = 1"
    by code_simp
qed

theorem enrichment_idempotent_witness:
  "\<exists>g' rep. sample_run = Inr (g', rep) \<and> facts_replaced rep = 1
     \<and> apply_media_transcript_summaries (\<lambda>_. ''d'') plain_unicode g' [sample_record ''second'']
       = Inr (g', \<lparr>facts_added = 1, facts_replaced = 1\<rparr>)"
proof -
  obtain g' rep where run: "sample_run = Inr (g', rep)" "facts_replaced rep = 1"
    using sample_run_works by blast
  have "apply_media_transcript_summaries (\<lambda>_. ''d'') plain_unicode g' [sample_record ''second'']
      = Inr (g', \<lparr>facts_added = length [sample_record ''second''], facts_replaced = length [sample_record ''second'']\<rparr>)"
    using enrichment_idempotent [OF run(1) [unfolded sample_run_def]] by (rule conjunct1)
  then show ?thesis using run by (intro exI [of _ g'] exI [of _ rep]) simp
qed

theorem enrichment_replaces_own_facts_witness:
  "\<exists>g' rep. sample_run = Inr (g', rep)
     \<and> filter (\<lambda>n. enrichment_key n = Some (record_key (sample_record ''second''))) (g_nodes g')
       = [staged_node (\<lambda>_. ''d'') plain_unicode media_graph (sample_record ''second'')]
     \<and> distinct (map n_id (g_nodes g'))"
proof -
  obtain g' rep where run: "sample_run = Inr (g', rep)"
    using sample_run_works by blast
  note effect = enrichment_replaces_own_facts [OF run [unfolded sample_run_def]]
  have "distinct (map n_id (g_nodes g'))" using effect by (elim conjE)
  moreover have "filter (\<lambda>n. enrichment_key n = Some (record_key (sample_record ''second''))) (g_nodes g')
       = [staged_node (\<lambda>_. ''d'') plain_unicode media_graph (sample_record ''second'')]"
    using effect by (elim conjE) (drule bspec [where x = "sample_record ''second''"], simp_all)
  ultimately show ?thesis using run by (intro exI [of _ g'] exI [of _ rep]) blast
qed

end
