(* ===== verification/SemanticPipeline.thy ===== *)
theory SemanticPipeline
  imports Lines Model
begin

text \<open>
  Semantic extraction in chunks (\<open>graphoxide-extract/src/semantic_pipeline.rs\<close>): the units of a corpus are
  packed into chunks, each chunk is given to an extractor (a language model), truncated answers are retried
  on halves of the chunk, and the answers are merged and reconciled with what was dispatched. The extractor,
  the resolution of paths, the decoded text of a unit and the checkpoint of the cache are parameters. The
  texts of warnings are structured values.
\<close>

section \<open>Answers of the extractor\<close>

type_synonym file_path = "(nat \<times> string) list"

datatype warning =
    Provider string
  | ContextOverflow string
  | NoUsableFragment
  | StillTruncatedFile
  | StillTruncated nat nat
  | Unverified nat
  | ChunkFailed nat nat string
  | ChunksFailed nat nat
  | OutOfScope nat "string list" nat
  | NoNodes nat "file_path list"

record chunk_result =
  c_nodes :: "json list"
  c_edges :: "json list"
  c_hyperedges :: "json list"
  c_input_tokens :: nat
  c_output_tokens :: nat
  c_model :: "string option"
  c_finish_reason :: string
  c_partial_files :: "file_path set"
  c_warnings :: "warning list"

definition empty_chunk_result :: chunk_result where
  "empty_chunk_result =
     \<lparr>c_nodes = [], c_edges = [], c_hyperedges = [], c_input_tokens = 0, c_output_tokens = 0, c_model = None,
      c_finish_reason = [], c_partial_files = {}, c_warnings = []\<rparr>"

definition truncated :: "chunk_result \<Rightarrow> bool" where
  "truncated r \<longleftrightarrow> c_finish_reason r = ''length''"

definition merge_results :: "chunk_result \<Rightarrow> chunk_result \<Rightarrow> string option \<Rightarrow> chunk_result" where
  "merge_results l r model =
     \<lparr>c_nodes = c_nodes l @ c_nodes r, c_edges = c_edges l @ c_edges r, c_hyperedges = c_hyperedges l @ c_hyperedges r,
      c_input_tokens = saturating_add (c_input_tokens l) (c_input_tokens r),
      c_output_tokens = saturating_add (c_output_tokens l) (c_output_tokens r),
      c_model = model, c_finish_reason = ''stop'',
      c_partial_files = c_partial_files l \<union> c_partial_files r, c_warnings = c_warnings l @ c_warnings r\<rparr>"

definition map_items :: "(jobject \<Rightarrow> jobject) \<Rightarrow> chunk_result \<Rightarrow> chunk_result" where
  "map_items f r =
     r\<lparr>c_nodes := map (map_object f) (c_nodes r), c_edges := map (map_object f) (c_edges r),
       c_hyperedges := map (map_object f) (c_hyperedges r)\<rparr>"

definition mark_partial_items :: "chunk_result \<Rightarrow> chunk_result" where
  "mark_partial_items = map_items (bt_put ''_partial'' (JBool True))"

definition strip_partial_markers :: "chunk_result \<Rightarrow> chunk_result" where
  "strip_partial_markers = map_items (bt_del ''_partial'')"

definition unit_file :: "file_unit \<Rightarrow> file_path" where
  "unit_file u = path_components (unit_path u)"

definition mark_partial :: "file_unit list \<Rightarrow> warning \<Rightarrow> chunk_result \<Rightarrow> chunk_result" where
  "mark_partial units reason r =
     (let r = mark_partial_items r
      in r\<lparr>c_partial_files := c_partial_files r \<union> set (map unit_file units), c_warnings := c_warnings r @ [reason]\<rparr>)"

text \<open>The files with a fragment, marked on the items or listed because the answer had no item.\<close>

definition items :: "chunk_result \<Rightarrow> json list" where
  "items r = c_nodes r @ c_edges r @ c_hyperedges r"

definition item_source :: "json \<Rightarrow> string option" where
  "item_source v = Option.bind (vget v ''source_file'') as_str"

definition partial_source_files :: "chunk_result \<Rightarrow> file_path set" where
  "partial_source_files r =
     c_partial_files r
     \<union> set (map path_components (List.map_filter item_source (filter (\<lambda>v. vget v ''_partial'' = Some (JBool True)) (items r))))"

section \<open>Adaptive retry\<close>

definition context_exceeded_markers :: "string list" where
  "context_exceeded_markers =
     [''context size'', ''context length'', ''context_length'', ''context window'', ''n_keep'', ''exceeds the available'',
      ''n_ctx'', ''maximum context'', ''too many tokens'', ''prompt is too long'', ''context_length_exceeded'']"

definition looks_like_context_exceeded :: "string \<Rightarrow> bool" where
  "looks_like_context_exceeded message \<longleftrightarrow> list_ex (\<lambda>m. contains (lowercase message) m) context_exceeded_markers"

type_synonym extractor = "file_unit list \<Rightarrow> string + chunk_result"

text \<open>The answer, and whether it stands for a refusal by the transport.\<close>

definition attempt :: "extractor \<Rightarrow> file_unit list \<Rightarrow> string + chunk_result \<times> bool" where
  "attempt ask units =
     (case ask units of
        Inr result \<Rightarrow> Inr (result, False)
      | Inl message \<Rightarrow>
          if looks_like_context_exceeded message
          then Inr (empty_chunk_result\<lparr>c_finish_reason := ''length'', c_warnings := [ContextOverflow message]\<rparr>, True)
          else Inl message)"

definition split_units :: "file_system \<Rightarrow> nat \<Rightarrow> nat \<Rightarrow> file_unit list \<Rightarrow> panic + (file_unit list \<times> file_unit list) option" where
  "split_units fs max_depth depth units =
     (if depth < max_depth \<and> length units > 1
      then Inr (Some (take (length units div 2) units, drop (length units div 2) units))
      else if depth < max_depth \<and> length units = 1 then
        (case hd units of
           SliceUnit s \<Rightarrow>
             (case bisect_slice fs s of
                Inl p \<Rightarrow> Inl p
              | Inr None \<Rightarrow> Inr None
              | Inr (Some (l, r)) \<Rightarrow> Inr (Some ([SliceUnit l], [SliceUnit r])))
         | PathUnit _ \<Rightarrow> Inr None)
      else Inr None)"

definition single_path :: "file_unit list \<Rightarrow> bool" where
  "single_path units \<longleftrightarrow> (case units of [PathUnit _] \<Rightarrow> True | _ \<Rightarrow> False)"

definition give_up :: "nat \<Rightarrow> nat \<Rightarrow> file_unit list \<Rightarrow> chunk_result \<Rightarrow> bool \<Rightarrow> chunk_result" where
  "give_up max_depth depth units attempted context_error =
     (if context_error \<and> single_path units
      then attempted\<lparr>c_finish_reason := ''stop'', c_warnings := c_warnings attempted @ [NoUsableFragment]\<rparr>
      else mark_partial units
        (if length units = 1 then StillTruncatedFile else StillTruncated depth max_depth) attempted)"

datatype retry_error = Panicked panic | Refusal string

lemma split_units_depth: "split_units fs max_depth depth units = Inr (Some x) \<Longrightarrow> depth < max_depth"
  by (auto simp: split_units_def split: if_splits)

function adaptive_retry_at_depth ::
  "file_system \<Rightarrow> extractor \<Rightarrow> nat \<Rightarrow> nat \<Rightarrow> file_unit list \<Rightarrow> retry_error + chunk_result" where
  "adaptive_retry_at_depth fs ask max_depth depth units =
     (case attempt ask units of
        Inl message \<Rightarrow> Inl (Refusal message)
      | Inr (attempted, context_error) \<Rightarrow>
          if \<not> truncated attempted then Inr attempted
          else
            (case split_units fs max_depth depth units of
               Inl p \<Rightarrow> Inl (Panicked p)
             | Inr None \<Rightarrow> Inr (give_up max_depth depth units attempted context_error)
             | Inr (Some (l, r)) \<Rightarrow>
                 (case adaptive_retry_at_depth fs ask max_depth (depth + 1) l of
                    Inl e \<Rightarrow> Inl e
                  | Inr left \<Rightarrow>
                      (case adaptive_retry_at_depth fs ask max_depth (depth + 1) r of
                         Inl e \<Rightarrow> Inl e
                       | Inr right \<Rightarrow> Inr (merge_results left right (c_model attempted))))))"
  by pat_completeness auto
termination
  by (relation "measure (\<lambda>(_, _, max_depth, depth, _). max_depth - depth)") (auto dest: split_units_depth)

declare adaptive_retry_at_depth.simps [simp del]

definition extract_with_adaptive_retry :: "file_system \<Rightarrow> extractor \<Rightarrow> nat \<Rightarrow> file_unit list \<Rightarrow> retry_error + chunk_result" where
  "extract_with_adaptive_retry fs ask max_depth units = adaptive_retry_at_depth fs ask max_depth 0 units"

section \<open>What a retry covers\<close>

definition unit_text :: "file_system \<Rightarrow> file_unit \<Rightarrow> string" where
  "unit_text fs u =
     (case (case u of PathUnit p \<Rightarrow> fs_text fs p | SliceUnit s \<Rightarrow> read_slice_text fs s) of None \<Rightarrow> [] | Some t \<Rightarrow> t)"

text \<open>The text of one file within some units.\<close>

definition dispatched_text :: "file_system \<Rightarrow> file_unit list \<Rightarrow> string \<Rightarrow> string" where
  "dispatched_text fs units p = concat (map (unit_text fs) (filter (\<lambda>u. unit_path u = p) units))"

definition utf8_files :: "file_system \<Rightarrow> bool" where
  "utf8_files fs \<longleftrightarrow> (\<forall>p src. fs_text fs p = Some src \<longrightarrow> utf8_text src)"

definition complete_answer :: "extractor \<Rightarrow> file_unit list \<Rightarrow> chunk_result \<Rightarrow> bool" where
  "complete_answer ask units r \<longleftrightarrow> ask units = Inr r \<and> \<not> truncated r"

definition marked_answer :: "file_unit list \<Rightarrow> chunk_result \<Rightarrow> bool" where
  "marked_answer units r \<longleftrightarrow>
     list_all (\<lambda>v. case v of JObj m \<Rightarrow> bt_get m ''_partial'' = Some (JBool True) | _ \<Rightarrow> True) (items r)
     \<and> set (map unit_file units) \<subseteq> c_partial_files r"

definition refused_file :: "file_unit list \<Rightarrow> chunk_result \<Rightarrow> bool" where
  "refused_file units r \<longleftrightarrow> single_path units \<and> items r = [] \<and> NoUsableFragment \<in> set (c_warnings r)"

definition merged_of :: "(file_unit list \<times> chunk_result) list \<Rightarrow> chunk_result \<Rightarrow> bool" where
  "merged_of leaves r \<longleftrightarrow>
     c_nodes r = concat (map (c_nodes \<circ> snd) leaves) \<and> c_edges r = concat (map (c_edges \<circ> snd) leaves)
     \<and> c_hyperedges r = concat (map (c_hyperedges \<circ> snd) leaves)
     \<and> c_partial_files r = \<Union> (set (map (c_partial_files \<circ> snd) leaves))"

definition leaf_ok :: "extractor \<Rightarrow> file_unit list \<times> chunk_result \<Rightarrow> bool" where
  "leaf_ok ask leaf \<longleftrightarrow>
     complete_answer ask (fst leaf) (snd leaf) \<or> marked_answer (fst leaf) (snd leaf) \<or> refused_file (fst leaf) (snd leaf)"

lemma dispatched_append: "dispatched_text fs (us @ vs) p = dispatched_text fs us p @ dispatched_text fs vs p"
  by (simp add: dispatched_text_def)

lemma bisect_path: "bisect_slice fs s = Inr (Some (l, r)) \<Longrightarrow> s_path l = s_path s \<and> s_path r = s_path s \<and> (\<exists>src. fs_text fs (s_path s) = Some src)"
  by (auto simp: bisect_slice_def Let_def split: if_splits option.splits)

lemma split_units_text:
  assumes "split_units fs max_depth depth units = Inr (Some (l, r))" and "utf8_files fs"
  shows "dispatched_text fs (l @ r) p = dispatched_text fs units p"
proof (cases "length units > 1")
  case True
  then have "l @ r = units" using assms(1) by (auto simp: split_units_def split: if_splits)
  then show ?thesis by simp
next
  case False
  then obtain s l' r' where u: "units = [SliceUnit s]" "l = [SliceUnit l']" "r = [SliceUnit r']"
    and b: "bisect_slice fs s = Inr (Some (l', r'))"
    using assms(1) by (cases units) (auto simp: split_units_def split: if_splits file_unit.splits sum.splits option.splits)
  obtain src where src: "fs_text fs (s_path s) = Some src" and paths: "s_path l' = s_path s" "s_path r' = s_path s"
    using bisect_path [OF b] by blast
  have "utf8_text src" using assms(2) src by (auto simp: utf8_files_def)
  then obtain a c where "read_slice_text fs l' = Some a" "read_slice_text fs r' = Some c" "read_slice_text fs s = Some (a @ c)"
    using bisect_slice_reads_back [OF b src] by blast
  then show ?thesis by (simp add: u dispatched_text_def paths unit_text_def)
qed

lemma give_up_leaf:
  assumes "attempt ask units = Inr (attempted, context_error)"
  shows "marked_answer units (give_up max_depth depth units attempted context_error)
    \<or> refused_file units (give_up max_depth depth units attempted context_error)"
proof (cases "context_error \<and> single_path units")
  case True
  then have "items attempted = []"
    using assms by (auto simp: attempt_def items_def empty_chunk_result_def split: sum.splits if_splits)
  then show ?thesis using True by (simp add: give_up_def refused_file_def items_def)
next
  case False
  have "case map_object (bt_put ''_partial'' (JBool True)) v of
      JObj m \<Rightarrow> bt_get m ''_partial'' = Some (JBool True) | _ \<Rightarrow> True" for v
    by (cases v) simp_all
  then have "marked_answer units (mark_partial units why attempted)" for why
    by (auto simp: marked_answer_def mark_partial_def mark_partial_items_def map_items_def items_def list_all_iff Let_def)
  then show ?thesis using False by (auto simp: give_up_def)
qed

lemma merged_append:
  assumes "merged_of ls l" and "merged_of rs r"
  shows "merged_of (ls @ rs) (merge_results l r m)"
  using assms by (simp add: merged_of_def merge_results_def)

lemma merged_single: "merged_of [(units, r)] r"
  by (simp add: merged_of_def)

lemma retry_leaves:
  assumes "utf8_files fs"
  shows "adaptive_retry_at_depth fs ask max_depth depth units = Inr result \<Longrightarrow>
    \<exists>leaves. merged_of leaves result \<and> list_all (leaf_ok ask) leaves \<and> length leaves \<le> 2 ^ (max_depth - depth)
      \<and> (\<forall>p. dispatched_text fs (concat (map fst leaves)) p = dispatched_text fs units p)"
proof (induction "max_depth - depth" arbitrary: depth units result rule: less_induct)
  case less
  note step = adaptive_retry_at_depth.simps [of fs ask max_depth depth units]
  have single: "\<exists>leaves. merged_of leaves result \<and> list_all (leaf_ok ask) leaves \<and> length leaves \<le> 2 ^ (max_depth - depth)
      \<and> (\<forall>p. dispatched_text fs (concat (map fst leaves)) p = dispatched_text fs units p)"
    if "leaf_ok ask (units, result)"
    using that by (intro exI [of _ "[(units, result)]"]) (simp add: merged_single)
  obtain attempted context_error where att: "attempt ask units = Inr (attempted, context_error)"
    using less.prems by (auto simp: step split: sum.splits)
  show ?case
  proof (cases "truncated attempted")
    case False
    then have "result = attempted" using less.prems by (simp add: step att)
    moreover have "ask units = Inr attempted"
      using att False by (auto simp: attempt_def truncated_def split: sum.splits if_splits)
    ultimately show ?thesis using False by (intro single) (simp add: leaf_ok_def complete_answer_def)
  next
    case True
    consider "split_units fs max_depth depth units = Inr None"
      | l r where "split_units fs max_depth depth units = Inr (Some (l, r))"
      using less.prems True by (auto simp: step att split: sum.splits option.splits)
    then show ?thesis
    proof cases
      case 1
      then have "result = give_up max_depth depth units attempted context_error"
        using less.prems True by (simp add: step att)
      then show ?thesis using give_up_leaf [OF att] by (intro single) (auto simp: leaf_ok_def)
    next
      case (2 l r)
      have d: "max_depth - (depth + 1) < max_depth - depth" "max_depth - depth = Suc (max_depth - (depth + 1))"
        using split_units_depth [OF 2] by auto
      obtain left right where
        left: "adaptive_retry_at_depth fs ask max_depth (depth + 1) l = Inr left" and
        right: "adaptive_retry_at_depth fs ask max_depth (depth + 1) r = Inr right" and
        result: "result = merge_results left right (c_model attempted)"
        using less.prems True by (auto simp: step att 2 split: sum.splits)
      obtain ls where ls: "merged_of ls left" "list_all (leaf_ok ask) ls" "length ls \<le> 2 ^ (max_depth - (depth + 1))"
        "\<forall>p. dispatched_text fs (concat (map fst ls)) p = dispatched_text fs l p"
        using less.hyps [OF d(1) left] by blast
      obtain rs where rs: "merged_of rs right" "list_all (leaf_ok ask) rs" "length rs \<le> 2 ^ (max_depth - (depth + 1))"
        "\<forall>p. dispatched_text fs (concat (map fst rs)) p = dispatched_text fs r p"
        using less.hyps [OF d(1) right] by blast
      have "dispatched_text fs (concat (map fst (ls @ rs))) p = dispatched_text fs units p" for p
        using ls(4) rs(4) split_units_text [OF 2 assms, of p] by (simp add: dispatched_append)
      moreover have "length (ls @ rs) \<le> 2 ^ (max_depth - depth)"
        using ls(3) rs(3) by (simp add: d(2))
      ultimately show ?thesis
        using merged_append [OF ls(1) rs(1)] ls(2) rs(2) by (intro exI [of _ "ls @ rs"]) (simp add: result)
    qed
  qed
qed

text \<open>
  C17: a retry that returns is made of at most \<open>2 ^ max_depth\<close> answers, merged in order. The units they
  answer hold, file by file, the text of the units of the chunk, each once and in order; and every one of
  them is complete, or is marked as a fragment on each of its items and on each of its files, or is the
  empty answer for a single file that the transport refused, which is announced.
\<close>

theorem retry_covers_chunk:
  assumes "extract_with_adaptive_retry fs ask max_depth units = Inr result" and "utf8_files fs"
  shows "\<exists>leaves. merged_of leaves result \<and> length leaves \<le> 2 ^ max_depth
    \<and> (\<forall>p. dispatched_text fs (concat (map fst leaves)) p = dispatched_text fs units p)
    \<and> (\<forall>(us, r) \<in> set leaves. complete_answer ask us r \<or> marked_answer us r \<or> refused_file us r)"
  using retry_leaves [OF assms(2) assms(1) [unfolded extract_with_adaptive_retry_def]]
  by (force simp: list_all_iff leaf_ok_def)

lemma retry_answered:
  "ask units = Inr r \<Longrightarrow> \<not> truncated r \<Longrightarrow> adaptive_retry_at_depth fs ask max_depth depth units = Inr r"
  by (simp add: adaptive_retry_at_depth.simps [of fs ask max_depth depth units] attempt_def)

lemma retry_halves:
  assumes "attempt ask units = Inr (a, c)" "truncated a" "split_units fs max_depth depth units = Inr (Some (l, r))"
    and "adaptive_retry_at_depth fs ask max_depth (depth + 1) l = Inr left"
    and "adaptive_retry_at_depth fs ask max_depth (depth + 1) r = Inr right"
  shows "adaptive_retry_at_depth fs ask max_depth depth units = Inr (merge_results left right (c_model a))"
  using assms by (simp add: adaptive_retry_at_depth.simps [of fs ask max_depth depth units])

text \<open>An extractor that answers for one unit at a time.\<close>

definition narrow_extractor :: extractor where
  "narrow_extractor us =
     (if length us > 1 then Inl ''n_ctx'' else Inr (empty_chunk_result\<lparr>c_nodes := [JStr (unit_path (hd us))]\<rparr>))"

definition no_files :: file_system where
  "no_files = \<lparr>fs_text = \<lambda>_. None, fs_len = \<lambda>_. None\<rparr>"

lemma narrow_run:
  "\<exists>r. extract_with_adaptive_retry no_files narrow_extractor 3 [PathUnit ''a'', PathUnit ''b''] = Inr r
     \<and> c_nodes r = [JStr ''a'', JStr ''b'']"
proof -
  let ?one = "\<lambda>p. empty_chunk_result\<lparr>c_nodes := [JStr p]\<rparr>"
  have one: "adaptive_retry_at_depth no_files narrow_extractor 3 (0 + 1) [PathUnit p] = Inr (?one p)" for p
    by (rule retry_answered) (simp_all add: narrow_extractor_def truncated_def empty_chunk_result_def)
  have att: "attempt narrow_extractor [PathUnit ''a'', PathUnit ''b'']
      = Inr (empty_chunk_result\<lparr>c_finish_reason := ''length'', c_warnings := [ContextOverflow ''n_ctx'']\<rparr>, True)"
    by code_simp
  have split: "split_units no_files 3 0 [PathUnit ''a'', PathUnit ''b''] = Inr (Some ([PathUnit ''a''], [PathUnit ''b'']))"
    by (simp add: split_units_def)
  have "adaptive_retry_at_depth no_files narrow_extractor 3 0 [PathUnit ''a'', PathUnit ''b'']
      = Inr (merge_results (?one ''a'') (?one ''b'') None)"
    using retry_halves [OF att _ split one one] by (simp add: truncated_def empty_chunk_result_def)
  then show ?thesis by (simp add: extract_with_adaptive_retry_def merge_results_def)
qed

theorem retry_covers_chunk_witness:
  "\<exists>r leaves. extract_with_adaptive_retry no_files narrow_extractor 3 [PathUnit ''a'', PathUnit ''b''] = Inr r
    \<and> merged_of leaves r \<and> c_nodes r = [JStr ''a'', JStr ''b''] \<and> length leaves \<le> 8"
proof -
  obtain r where r: "extract_with_adaptive_retry no_files narrow_extractor 3 [PathUnit ''a'', PathUnit ''b''] = Inr r"
    "c_nodes r = [JStr ''a'', JStr ''b'']"
    using narrow_run by blast
  have "utf8_files no_files" by (simp add: utf8_files_def no_files_def)
  then obtain leaves where "merged_of leaves r" "length leaves \<le> 2 ^ 3"
    using retry_covers_chunk [OF r(1)] by blast
  then show ?thesis using r by (intro exI [of _ r] exI [of _ leaves]) simp
qed

section \<open>Evidence for code symbols\<close>

definition ident_start :: "char \<Rightarrow> bool" where
  "ident_start c \<longleftrightarrow> ascii_upper c \<or> ascii_lower c \<or> c = CHR ''_''"

definition ident_step :: "char \<Rightarrow> string \<times> string list \<Rightarrow> string \<times> string list" where
  "ident_step c = (\<lambda>(current, found).
     if current = [] then ((if ident_start c then [c] else []), found)
     else if ascii_alnum c \<or> c = CHR ''_'' then (current @ [c], found)
     else ([], if length current \<ge> 3 then found @ [current] else found))"

definition label_identifiers :: "string \<Rightarrow> string list" where
  "label_identifiers label =
     (let (current, found) = fold ident_step (takeWhile (\<lambda>c. c \<noteq> CHR ''('') label) ([], [])
      in if length current \<ge> 3 then found @ [current] else found)"

text \<open>The text dispatched for each file: the units of a file one after the other, each cut and in lower case.\<close>

definition dispatched_sources ::
  "(file_unit \<Rightarrow> string option) \<Rightarrow> (string \<Rightarrow> file_path) \<Rightarrow> file_unit list \<Rightarrow> file_path \<Rightarrow> string option" where
  "dispatched_sources content resolved units =
     fold (\<lambda>u m. case content u of
         None \<Rightarrow> m
       | Some t \<Rightarrow>
           let p = resolved (unit_path u)
           in m(p \<mapsto> (case m p of None \<Rightarrow> [] | Some before \<Rightarrow> before) @ lowercase (take file_char_cap t)))
       units (\<lambda>_. None)"

definition str_or_empty :: "jobject \<Rightarrow> string \<Rightarrow> string" where
  "str_or_empty m k = (case get_str m k of None \<Rightarrow> [] | Some s \<Rightarrow> s)"

definition lacks_evidence :: "(file_path \<Rightarrow> string option) \<Rightarrow> (string \<Rightarrow> file_path) \<Rightarrow> jobject \<Rightarrow> bool" where
  "lacks_evidence sources resolved m \<longleftrightarrow>
     get_str m ''file_type'' = Some ''code''
     \<and> (case Option.bind (get_str m ''source_file'') (sources \<circ> resolved) of
          None \<Rightarrow> False
        | Some text \<Rightarrow>
            let identifiers = label_identifiers (str_or_empty m ''label'') @ label_identifiers (str_or_empty m ''id'')
            in identifiers \<noteq> [] \<and> \<not> list_ex (\<lambda>i. contains text (lowercase i)) identifiers)"

definition bind_node :: "(file_path \<Rightarrow> string option) \<Rightarrow> (string \<Rightarrow> file_path) \<Rightarrow> json \<Rightarrow> json \<times> nat" where
  "bind_node sources resolved v =
     (case v of
        JObj m \<Rightarrow>
          if lacks_evidence sources resolved m \<and> str_or_empty m ''confidence'' \<in> {[], ''EXTRACTED''}
             \<and> \<not> bt_has m ''verification''
          then (JObj (bt_put ''verification'' (JStr ''unverified'') m), 1) else (v, 0)
      | _ \<Rightarrow> (v, 0))"

definition bind_node_evidence ::
  "(file_unit \<Rightarrow> string option) \<Rightarrow> (string \<Rightarrow> file_path) \<Rightarrow> file_unit list \<Rightarrow> json list \<Rightarrow> json list \<times> nat" where
  "bind_node_evidence content resolved units nodes =
     (if \<not> list_ex (\<lambda>n. Option.bind (vget n ''file_type'') as_str = Some ''code'' \<and> item_source n \<noteq> None) nodes
      then (nodes, 0)
      else let bound = map (bind_node (dispatched_sources content resolved units) resolved) nodes
           in (map fst bound, sum_list (map snd bound)))"

definition stamped_manifest_files ::
  "(string \<Rightarrow> file_path) \<Rightarrow> (string, string list) btree \<Rightarrow> chunk_result \<Rightarrow> string set \<Rightarrow> (string, string list) btree" where
  "stamped_manifest_files resolved files_by_type result partial_files =
     (let extracted = set (map resolved (List.map_filter item_source (items result)));
          partial = resolved ` partial_files
      in map (\<lambda>(kind, files). (kind, filter (\<lambda>p.
            kind \<notin> {''document'', ''paper'', ''image''} \<or> resolved p \<in> extracted \<and> resolved p \<notin> partial) files)) files_by_type)"

section \<open>The corpus\<close>

record corpus_options =
  o_token_budget :: "nat option"
  o_chunk_size :: nat
  o_max_retry_depth :: nat
  o_checkpoint :: bool

definition default_corpus_options :: corpus_options where
  "default_corpus_options = \<lparr>o_token_budget = Some 60000, o_chunk_size = 20, o_max_retry_depth = 3, o_checkpoint = True\<rparr>"

record corpus_result =
  m_nodes :: "json list"
  m_edges :: "json list"
  m_hyperedges :: "json list"
  m_input_tokens :: nat
  m_output_tokens :: nat
  m_failed_chunks :: nat
  m_uncovered_files :: "file_path list"
  m_out_of_scope_dropped :: nat
  m_warnings :: "warning list"

datatype corpus_error = ZeroChunkSize | ZeroTokenBudget | CorpusPanic panic

function chunks_of :: "nat \<Rightarrow> 'a list \<Rightarrow> 'a list list" where
  "chunks_of n xs = (if xs = [] \<or> n = 0 then [] else take n xs # chunks_of n (drop n xs))"
  by pat_completeness auto
termination
  by (relation "measure (\<lambda>(n, xs). length xs)") auto

declare chunks_of.simps [simp del]

definition corpus_chunks :: "file_system \<Rightarrow> corpus_options \<Rightarrow> string list \<Rightarrow> corpus_error + file_unit list list" where
  "corpus_chunks fs opts files =
     (if o_chunk_size opts = 0 then Inl ZeroChunkSize
      else let units = expand_oversized_files fs files file_char_cap
           in case o_token_budget opts of
                None \<Rightarrow> Inr (chunks_of (o_chunk_size opts) units)
              | Some budget \<Rightarrow>
                  (case try_pack_chunks_by_tokens fs units budget of None \<Rightarrow> Inl ZeroTokenBudget | Some cs \<Rightarrow> Inr cs))"

text \<open>What the corpus takes from its surroundings: the decoded text of a unit, resolved paths, which of them
  are files, and the warnings of a checkpoint.\<close>

record surroundings =
  e_content :: "file_unit \<Rightarrow> string option"
  e_resolved :: "string \<Rightarrow> file_path"
  e_is_file :: "file_path \<Rightarrow> bool"
  e_checkpoint :: "file_unit list \<Rightarrow> chunk_result \<Rightarrow> warning list"

definition empty_corpus_result :: corpus_result where
  "empty_corpus_result =
     \<lparr>m_nodes = [], m_edges = [], m_hyperedges = [], m_input_tokens = 0, m_output_tokens = 0, m_failed_chunks = 0,
      m_uncovered_files = [], m_out_of_scope_dropped = 0, m_warnings = []\<rparr>"

text \<open>The answer to a chunk as it goes into the result.\<close>

definition settled_chunk :: "surroundings \<Rightarrow> corpus_options \<Rightarrow> file_unit list \<Rightarrow> chunk_result \<Rightarrow> chunk_result" where
  "settled_chunk env opts chunk r =
     (let (nodes, unverified) = bind_node_evidence (e_content env) (e_resolved env) chunk (c_nodes r);
          r = r\<lparr>c_nodes := nodes, c_warnings := c_warnings r @ (if unverified > 0 then [Unverified unverified] else [])\<rparr>;
          r = (if o_checkpoint opts then r\<lparr>c_warnings := c_warnings r @ e_checkpoint env chunk r\<rparr> else r)
      in strip_partial_markers r)"

definition merge_chunk ::
  "surroundings \<Rightarrow> corpus_options \<Rightarrow> nat \<Rightarrow> nat \<times> file_unit list \<times> (string + chunk_result) \<Rightarrow> corpus_result \<Rightarrow> corpus_result" where
  "merge_chunk env opts chunk_count = (\<lambda>(index, chunk, outcome) m.
     case outcome of
       Inl message \<Rightarrow>
         m\<lparr>m_failed_chunks := m_failed_chunks m + 1, m_warnings := m_warnings m @ [ChunkFailed (index + 1) chunk_count message]\<rparr>
     | Inr result \<Rightarrow>
         let r = settled_chunk env opts chunk result
         in m\<lparr>m_nodes := m_nodes m @ c_nodes r, m_edges := m_edges m @ c_edges r,
              m_hyperedges := m_hyperedges m @ c_hyperedges r,
              m_input_tokens := saturating_add (m_input_tokens m) (c_input_tokens r),
              m_output_tokens := saturating_add (m_output_tokens m) (c_output_tokens r),
              m_warnings := m_warnings m @ c_warnings r\<rparr>)"

section \<open>Reconciliation with what was dispatched\<close>

definition dispatched_files :: "surroundings \<Rightarrow> file_unit list list \<Rightarrow> (file_path, unit) btree" where
  "dispatched_files env chunks = bt_of_list (map (\<lambda>u. (e_resolved env (unit_path u), ())) (concat chunks))"

definition out_of_scope :: "surroundings \<Rightarrow> (file_path, unit) btree \<Rightarrow> json \<Rightarrow> bool" where
  "out_of_scope env dispatched item \<longleftrightarrow>
     (case item_source item of
        None \<Rightarrow> False
      | Some src \<Rightarrow> e_is_file env (e_resolved env src) \<and> \<not> bt_has dispatched (e_resolved env src))"

definition names_dropped :: "string set \<Rightarrow> string \<Rightarrow> json \<Rightarrow> bool" where
  "names_dropped ids field v \<longleftrightarrow> (case Option.bind (vget v field) as_str of None \<Rightarrow> False | Some i \<Rightarrow> i \<in> ids)"

definition has_dropped_member :: "string set \<Rightarrow> json \<Rightarrow> bool" where
  "has_dropped_member ids v \<longleftrightarrow>
     (case Option.bind (vget v ''nodes'') as_array of
        None \<Rightarrow> False
      | Some members \<Rightarrow> list_ex (\<lambda>i. i \<in> ids) (List.map_filter as_str members))"

definition dropped_ids :: "json list \<Rightarrow> string set" where
  "dropped_ids gone = set (List.map_filter (\<lambda>n. Option.bind (vget n ''id'') as_str) gone)"

definition shown_names :: "file_path list \<Rightarrow> string list" where
  "shown_names ps = List.map_filter (\<lambda>p. if p \<noteq> [] \<and> fst (last p) = 3 then Some (snd (last p)) else None) ps"

definition reconcile_scope :: "surroundings \<Rightarrow> file_unit list list \<Rightarrow> corpus_result \<Rightarrow> corpus_result" where
  "reconcile_scope env chunks m =
     (let dispatched = dispatched_files env chunks;
          outside = out_of_scope env dispatched;
          kept = filter (\<lambda>n. \<not> outside n) (m_nodes m);
          gone = filter outside (m_nodes m);
          ids = dropped_ids gone;
          files = bt_keys (bt_of_list (map (\<lambda>src. (path_components src, ())) (List.map_filter item_source gone)));
          returned = set (map (e_resolved env) (List.map_filter item_source kept));
          uncovered = filter (\<lambda>p. p \<notin> returned) (bt_keys dispatched);
          m = m\<lparr>m_nodes := kept, m_out_of_scope_dropped := length gone\<rparr>;
          m = (if gone = [] then m
               else m\<lparr>m_edges := filter (\<lambda>e. \<not> (outside e \<or> names_dropped ids ''source'' e \<or> names_dropped ids ''target'' e)) (m_edges m),
                      m_hyperedges := filter (\<lambda>h. \<not> (outside h \<or> has_dropped_member ids h)) (m_hyperedges m),
                      m_warnings := m_warnings m @ [OutOfScope (length gone) (shown_names (take 5 files)) (length files - 5)]\<rparr>);
          m = m\<lparr>m_uncovered_files := uncovered\<rparr>
      in if uncovered = [] then m else m\<lparr>m_warnings := m_warnings m @ [NoNodes (length uncovered) (take 5 uncovered)]\<rparr>)"

definition panic_of :: "retry_error + chunk_result \<Rightarrow> panic option" where
  "panic_of outcome = (case outcome of Inl (Panicked p) \<Rightarrow> Some p | _ \<Rightarrow> None)"

definition chunk_outcome :: "retry_error + chunk_result \<Rightarrow> string + chunk_result" where
  "chunk_outcome outcome =
     (case outcome of Inl (Refusal message) \<Rightarrow> Inl message | Inl (Panicked _) \<Rightarrow> Inl [] | Inr r \<Rightarrow> Inr r)"

definition merge_outcomes :: "surroundings \<Rightarrow> corpus_options \<Rightarrow> file_unit list list \<Rightarrow> (string + chunk_result) list \<Rightarrow> corpus_result" where
  "merge_outcomes env opts chunks outcomes =
     (let m = fold (merge_chunk env opts (length chunks)) (enumerate 0 (zip chunks outcomes)) empty_corpus_result
      in if m_failed_chunks m > 0
         then m\<lparr>m_warnings := m_warnings m @ [ChunksFailed (m_failed_chunks m) (length chunks)]\<rparr> else m)"

text \<open>The chunks may run on several threads; their outcomes are put in the order of the chunks first. A panic
  in one of them is a panic of the whole.\<close>

definition extract_corpus ::
  "file_system \<Rightarrow> surroundings \<Rightarrow> corpus_options \<Rightarrow> extractor \<Rightarrow> string list \<Rightarrow> corpus_error + corpus_result" where
  "extract_corpus fs env opts ask files =
     (case corpus_chunks fs opts files of
        Inl e \<Rightarrow> Inl e
      | Inr chunks \<Rightarrow>
          let outcomes = map (extract_with_adaptive_retry fs ask (o_max_retry_depth opts)) chunks
          in case List.map_filter panic_of outcomes of
               p # _ \<Rightarrow> Inl (CorpusPanic p)
             | [] \<Rightarrow> Inr (reconcile_scope env chunks (merge_outcomes env opts chunks (map chunk_outcome outcomes))))"

section \<open>The corpus is accounted for\<close>

lemma length_bound [simp]: "length (fst (bind_node_evidence content resolved chunk nodes)) = length nodes"
  by (simp add: bind_node_evidence_def Let_def)

lemma settled_nodes [simp]: "length (c_nodes (settled_chunk env opts chunk r)) = length (c_nodes r)"
proof -
  obtain nodes n where "bind_node_evidence (e_content env) (e_resolved env) chunk (c_nodes r) = (nodes, n)" by fastforce
  moreover from this have "length nodes = length (c_nodes r)"
    using length_bound [of "e_content env" "e_resolved env" chunk "c_nodes r"] by simp
  ultimately show ?thesis by (simp add: settled_chunk_def strip_partial_markers_def map_items_def Let_def)
qed

definition answered_nodes :: "string + chunk_result \<Rightarrow> nat" where
  "answered_nodes outcome = (case outcome of Inl _ \<Rightarrow> 0 | Inr r \<Rightarrow> length (c_nodes r))"

definition failed_outcome :: "string + chunk_result \<Rightarrow> bool" where
  "failed_outcome outcome = (case outcome of Inl _ \<Rightarrow> True | Inr _ \<Rightarrow> False)"

lemma merge_chunk_counts:
  "length (m_nodes (merge_chunk env opts k (i, c, out) m)) = length (m_nodes m) + answered_nodes out"
  "m_failed_chunks (merge_chunk env opts k (i, c, out) m) = m_failed_chunks m + (if failed_outcome out then 1 else 0)"
  by (simp_all add: merge_chunk_def answered_nodes_def failed_outcome_def Let_def split: sum.split)

lemma merge_fold_counts:
  "length cs = length outs \<Longrightarrow>
   length (m_nodes (fold (merge_chunk env opts k) (enumerate i (zip cs outs)) m)) = length (m_nodes m) + sum_list (map answered_nodes outs)
   \<and> m_failed_chunks (fold (merge_chunk env opts k) (enumerate i (zip cs outs)) m) = m_failed_chunks m + length (filter failed_outcome outs)"
  by (induction cs outs arbitrary: i m rule: list_induct2) (simp_all add: merge_chunk_counts)

lemma merge_outcomes_counts:
  assumes "length cs = length outs"
  shows "length (m_nodes (merge_outcomes env opts cs outs)) = sum_list (map answered_nodes outs)"
    "m_failed_chunks (merge_outcomes env opts cs outs) = length (filter failed_outcome outs)"
  using merge_fold_counts [OF assms, of env opts "length cs" 0 empty_corpus_result]
  by (simp_all add: merge_outcomes_def Let_def empty_corpus_result_def)

lemma reconcile_nodes:
  "m_nodes (reconcile_scope env chunks m) = filter (\<lambda>n. \<not> out_of_scope env (dispatched_files env chunks) n) (m_nodes m)"
  "m_out_of_scope_dropped (reconcile_scope env chunks m) = length (filter (out_of_scope env (dispatched_files env chunks)) (m_nodes m))"
  "m_failed_chunks (reconcile_scope env chunks m) = m_failed_chunks m"
  by (simp_all add: reconcile_scope_def Let_def)

lemma dispatched_iff: "bt_has (dispatched_files env chunks) p \<longleftrightarrow> p \<in> e_resolved env ` unit_path ` set (concat chunks)"
  by (simp add: dispatched_files_def bt_has_of_list image_image)

lemma reconcile_uncovered:
  "set (m_uncovered_files (reconcile_scope env chunks m))
     = e_resolved env ` unit_path ` set (concat chunks)
       - e_resolved env ` set (List.map_filter item_source (m_nodes (reconcile_scope env chunks m)))"
proof -
  have "fst ` set (dispatched_files env chunks) = e_resolved env ` unit_path ` set (concat chunks)"
    by (rule set_eqI) (simp only: bt_has_iff [symmetric] dispatched_iff)
  moreover have "m_uncovered_files (reconcile_scope env chunks m)
      = filter (\<lambda>p. p \<notin> e_resolved env ` set (List.map_filter item_source (m_nodes (reconcile_scope env chunks m))))
          (bt_keys (dispatched_files env chunks))"
    by (simp add: reconcile_nodes) (simp add: reconcile_scope_def Let_def)
  ultimately show ?thesis by auto
qed

lemma reconcile_edges:
  assumes "m_out_of_scope_dropped (reconcile_scope env chunks m) > 0"
  shows "e \<in> set (m_edges (reconcile_scope env chunks m)) \<Longrightarrow>
      \<not> out_of_scope env (dispatched_files env chunks) e
      \<and> \<not> names_dropped (dropped_ids (filter (out_of_scope env (dispatched_files env chunks)) (m_nodes m))) ''source'' e
      \<and> \<not> names_dropped (dropped_ids (filter (out_of_scope env (dispatched_files env chunks)) (m_nodes m))) ''target'' e"
  using assms by (auto simp: reconcile_scope_def Let_def split: if_splits)

lemma chunks_of_all: "0 < n \<Longrightarrow> concat (chunks_of n xs) = xs"
proof (induction n xs rule: chunks_of.induct)
  case (1 n xs)
  then show ?case by (cases "xs = []") (simp_all add: chunks_of.simps [of n xs] chunks_of.simps [of n "[]"])
qed

lemma corpus_chunks_cover:
  assumes "corpus_chunks fs opts files = Inr chunks"
  shows "mset (concat chunks) = mset (expand_oversized_files fs files file_char_cap)"
proof (cases "o_token_budget opts")
  case None
  then show ?thesis using assms by (auto simp: corpus_chunks_def Let_def chunks_of_all split: if_splits)
next
  case (Some budget)
  then show ?thesis
    using assms mset_group_by_directory [of "expand_oversized_files fs files file_char_cap"]
    by (auto simp: corpus_chunks_def try_pack_chunks_by_tokens_def concat_pack_loop Let_def split: if_splits)
qed

text \<open>
  C18: the units of a corpus are dispatched once each. What the answered chunks say is in the result or
  counted as out of scope, chunks that failed are counted, no node is left that belongs to a file outside,
  and the files reported as uncovered are those dispatched that no node is left for. If a node was dropped,
  no edge is left that belongs to a file outside either.
\<close>

theorem corpus_accounts:
  assumes "corpus_chunks fs opts files = Inr chunks" and "extract_corpus fs env opts ask files = Inr m"
  shows "mset (concat chunks) = mset (expand_oversized_files fs files file_char_cap)
    \<and> (let outcomes = map (chunk_outcome \<circ> extract_with_adaptive_retry fs ask (o_max_retry_depth opts)) chunks;
           scope = dispatched_files env chunks
       in length (m_nodes m) + m_out_of_scope_dropped m = sum_list (map answered_nodes outcomes)
          \<and> m_failed_chunks m = length (filter failed_outcome outcomes)
          \<and> (\<forall>n \<in> set (m_nodes m). \<not> out_of_scope env scope n)
          \<and> set (m_uncovered_files m) = e_resolved env ` unit_path ` set (expand_oversized_files fs files file_char_cap)
              - e_resolved env ` set (List.map_filter item_source (m_nodes m))
          \<and> (m_out_of_scope_dropped m > 0 \<longrightarrow> (\<forall>e \<in> set (m_edges m). \<not> out_of_scope env scope e)))"
proof -
  let ?outs = "map (chunk_outcome \<circ> extract_with_adaptive_retry fs ask (o_max_retry_depth opts)) chunks"
  let ?m = "merge_outcomes env opts chunks ?outs"
  have m: "m = reconcile_scope env chunks ?m"
    using assms by (auto simp: extract_corpus_def Let_def o_def split: list.splits)
  have cover: "mset (concat chunks) = mset (expand_oversized_files fs files file_char_cap)"
    by (rule corpus_chunks_cover [OF assms(1)])
  then have units: "set (concat chunks) = set (expand_oversized_files fs files file_char_cap)"
    by (rule mset_eq_setD)
  have nodes: "length (m_nodes m) + m_out_of_scope_dropped m = sum_list (map answered_nodes ?outs)"
    using sum_length_filter_compl [of "out_of_scope env (dispatched_files env chunks)" "m_nodes ?m"]
      merge_outcomes_counts(1) [of chunks ?outs env opts]
    by (simp add: m reconcile_nodes add.commute)
  have failed: "m_failed_chunks m = length (filter failed_outcome ?outs)"
    using merge_outcomes_counts(2) [of chunks ?outs env opts] by (simp only: m reconcile_nodes length_map)
  have scope: "\<forall>n \<in> set (m_nodes m). \<not> out_of_scope env (dispatched_files env chunks) n"
    by (simp add: m reconcile_nodes)
  have edges: "\<forall>e \<in> set (m_edges m). \<not> out_of_scope env (dispatched_files env chunks) e" if "m_out_of_scope_dropped m > 0"
    using reconcile_edges [of env chunks ?m] that by (simp add: m)
  have uncovered: "set (m_uncovered_files m) = e_resolved env ` unit_path ` set (expand_oversized_files fs files file_char_cap)
      - e_resolved env ` set (List.map_filter item_source (m_nodes m))"
    using reconcile_uncovered [of env chunks ?m] by (simp only: units m [symmetric])
  show ?thesis
    unfolding Let_def using cover nodes failed scope edges uncovered by blast
qed

definition open_surroundings :: surroundings where
  "open_surroundings =
     \<lparr>e_content = \<lambda>_. None, e_resolved = path_components, e_is_file = \<lambda>_. True, e_checkpoint = \<lambda>_ _. []\<rparr>"

text \<open>An extractor whose answer for any chunk is a node of \<open>a.c\<close> and one of \<open>b.c\<close>.\<close>

definition wide_extractor :: extractor where
  "wide_extractor us =
     Inr (empty_chunk_result\<lparr>c_nodes := [JObj [(''source_file'', JStr ''a.c'')], JObj [(''source_file'', JStr ''b.c'')]]\<rparr>)"

theorem corpus_accounts_witness:
  "\<exists>m. extract_corpus no_files open_surroundings default_corpus_options wide_extractor [''a.c''] = Inr m
     \<and> length (m_nodes m) + m_out_of_scope_dropped m = 2 \<and> m_failed_chunks m = 0"
proof -
  let ?opts = default_corpus_options and ?chunk = "[PathUnit ''a.c'']"
  have "expand_oversized_files no_files [''a.c''] file_char_cap = ?chunk"
    by (simp add: expand_oversized_files_def expand_file_def no_files_def)
  moreover have "try_pack_chunks_by_tokens no_files ?chunk 60000 = Some [?chunk]"
    by (simp add: try_pack_chunks_by_tokens_def group_by_directory_def bt_update_def)
  ultimately have chunks: "corpus_chunks no_files ?opts [''a.c''] = Inr [?chunk]"
    by (simp add: corpus_chunks_def default_corpus_options_def Let_def)
  let ?answer = "empty_chunk_result\<lparr>c_nodes := [JObj [(''source_file'', JStr ''a.c'')], JObj [(''source_file'', JStr ''b.c'')]]\<rparr>"
  have run: "extract_with_adaptive_retry no_files wide_extractor (o_max_retry_depth ?opts) ?chunk = Inr ?answer"
    unfolding extract_with_adaptive_retry_def
    by (rule retry_answered) (simp_all add: wide_extractor_def truncated_def empty_chunk_result_def)
  obtain m where m: "extract_corpus no_files open_surroundings ?opts wide_extractor [''a.c''] = Inr m"
    by (simp add: extract_corpus_def chunks run panic_of_def List.map_filter_def)
  have "length (m_nodes m) + m_out_of_scope_dropped m = 2" "m_failed_chunks m = 0"
    using corpus_accounts [OF chunks m]
    by (simp_all add: run Let_def chunk_outcome_def answered_nodes_def failed_outcome_def)
  then show ?thesis using m by (intro exI [of _ m]) simp
qed

end
