(* ===== verification/Ring.thy ===== *)
theory Ring
  imports Prelude "HOL-Library.Word"
begin

text \<open>
  The lock-free ring between one I/O worker and one compute worker (\<open>SpscQueue\<close> of
  \<open>graphoxide-index-runtime/src/lib.rs\<close>). The two endpoints run on different threads, so sending and
  receiving are sequences of atomic steps that interleave. A load with \<open>Acquire\<close> of the cursor of the other
  side may return a value that is out of date, but none older than one seen before; the slot written before
  a \<open>Release\<close> store is visible to who reads that store. Cursors are 64-bit words that wrap around.
\<close>

section \<open>The ring\<close>

text \<open>A slot is none while it is uninitialised or its value has been moved out. Beside the fields of the code
  the state has what the steps are judged by: the values published and received so far, the oldest cursor
  positions a load can still return, and whether a slot was misused, that is written while it held a value
  or read while it held none.\<close>

record 'a ring =
  slots :: "'a option list"
  head_cursor :: "64 word"
  tail_cursor :: "64 word"
  published :: "'a list"
  received :: "'a list"
  head_seen :: nat
  tail_seen :: nat
  misused :: bool

text \<open>Where the endpoints stand within \<open>try_send\<close> and \<open>try_recv\<close>.\<close>

datatype 'a producer =
    SendIdle
  | SendTail 'a "64 word"
  | SendChecked 'a "64 word" "64 word"
  | SendWritten "64 word"

datatype 'a consumer =
    RecvIdle
  | RecvHead "64 word"
  | RecvChecked "64 word" "64 word"
  | RecvTaken 'a "64 word"

definition ring_capacity :: "'a ring \<Rightarrow> nat" where
  "ring_capacity r = length (slots r)"

definition slot_index :: "'a ring \<Rightarrow> 64 word \<Rightarrow> nat" where
  "slot_index r cursor = unat cursor mod ring_capacity r"

datatype ring_error = ZeroCapacity

definition ring_new :: "nat \<Rightarrow> ring_error + 'a ring" where
  "ring_new capacity =
     (if capacity = 0 then Inl ZeroCapacity
      else Inr \<lparr>slots = replicate capacity None, head_cursor = 0, tail_cursor = 0,
            published = [], received = [], head_seen = 0, tail_seen = 0, misused = False\<rparr>)"

definition write_slot :: "nat \<Rightarrow> 'a \<Rightarrow> 'a ring \<Rightarrow> 'a ring" where
  "write_slot i v r = r\<lparr>slots := (slots r)[i := Some v], misused := misused r \<or> slots r ! i \<noteq> None\<rparr>"

definition take_slot :: "nat \<Rightarrow> 'a ring \<Rightarrow> 'a ring" where
  "take_slot i r = r\<lparr>slots := (slots r)[i := None], misused := misused r \<or> slots r ! i = None\<rparr>"

definition ring_full :: "'a ring \<Rightarrow> 64 word \<Rightarrow> 64 word \<Rightarrow> bool" where
  "ring_full r tail head \<longleftrightarrow> unat (tail - head) \<ge> ring_capacity r"

inductive ring_step :: "'a ring \<times> 'a producer \<times> 'a consumer \<Rightarrow> 'a ring \<times> 'a producer \<times> 'a consumer \<Rightarrow> bool" where
  load_own_tail: "ring_step (r, SendIdle, c) (r, SendTail v (tail_cursor r), c)"
| load_head: "head_seen r \<le> h \<Longrightarrow> h \<le> length (received r) - (case c of RecvTaken _ _ \<Rightarrow> 1 | _ \<Rightarrow> 0) \<Longrightarrow>
    ring_step (r, SendTail v t, c) (r\<lparr>head_seen := h\<rparr>, SendChecked v t (of_nat h), c)"
| send_refused: "ring_full r t h \<Longrightarrow> ring_step (r, SendChecked v t h, c) (r, SendIdle, c)"
| send_write: "\<not> ring_full r t h \<Longrightarrow>
    ring_step (r, SendChecked v t h, c) (write_slot (slot_index r t) v r\<lparr>published := published r @ [v]\<rparr>, SendWritten t, c)"
| store_tail: "ring_step (r, SendWritten t, c) (r\<lparr>tail_cursor := t + 1\<rparr>, SendIdle, c)"
| load_own_head: "ring_step (r, p, RecvIdle) (r, p, RecvHead (head_cursor r))"
| load_tail: "tail_seen r \<le> t \<Longrightarrow> t \<le> length (published r) - (case p of SendWritten _ \<Rightarrow> 1 | _ \<Rightarrow> 0) \<Longrightarrow>
    ring_step (r, p, RecvHead h) (r\<lparr>tail_seen := t\<rparr>, p, RecvChecked h (of_nat t))"
| recv_empty: "ring_step (r, p, RecvChecked h h) (r, p, RecvIdle)"
| recv_take: "h \<noteq> t \<Longrightarrow> slots r ! slot_index r h = Some v \<Longrightarrow>
    ring_step (r, p, RecvChecked h t) (take_slot (slot_index r h) r\<lparr>received := received r @ [v]\<rparr>, p, RecvTaken v h)"
| recv_garbage: "h \<noteq> t \<Longrightarrow> slots r ! slot_index r h = None \<Longrightarrow>
    ring_step (r, p, RecvChecked h t) (take_slot (slot_index r h) r, p, RecvIdle)"
| store_head: "ring_step (r, p, RecvTaken v h) (r\<lparr>head_cursor := h + 1\<rparr>, p, RecvIdle)"

text \<open>What is left when both endpoints are gone: the slots whose values are dropped, in order.\<close>

definition dropped_slots :: "'a ring \<Rightarrow> nat list" where
  "dropped_slots r =
     map (\<lambda>offset. slot_index r (head_cursor r + of_nat offset))
       [0..<min (unat (tail_cursor r - head_cursor r)) (ring_capacity r)]"

text \<open>The estimates of either endpoint, from the cursors it loads.\<close>

definition queued_values :: "'a ring \<Rightarrow> 64 word \<Rightarrow> 64 word \<Rightarrow> nat" where
  "queued_values r head tail = min (unat (tail - head)) (ring_capacity r)"

definition available_slots :: "'a ring \<Rightarrow> 64 word \<Rightarrow> 64 word \<Rightarrow> nat" where
  "available_slots r tail head = ring_capacity r - min (unat (tail - head)) (ring_capacity r)"

section \<open>Positions and indexes\<close>

text \<open>Indexes follow positions across the wrap of the cursors when the capacity divides their range.\<close>

definition index_fits :: "nat \<Rightarrow> nat \<Rightarrow> bool" where
  "index_fits capacity n \<longleftrightarrow> capacity dvd 2 ^ 64 \<or> n < 2 ^ 64"

lemma index_fits_mono: "index_fits capacity n \<Longrightarrow> m \<le> n \<Longrightarrow> index_fits capacity m"
  by (auto simp: index_fits_def)

lemma index_of_position:
  assumes "index_fits capacity n"
  shows "unat (of_nat n :: 64 word) mod capacity = n mod capacity"
  using assms unfolding index_fits_def
proof
  assume "capacity dvd 2 ^ 64"
  then show ?thesis by (simp add: unat_of_nat mod_mod_cancel)
next
  assume "n < 2 ^ 64"
  then show ?thesis by (simp add: unat_of_nat)
qed

lemma cursor_distance:
  assumes "m \<le> n" and "n - m < 2 ^ 64"
  shows "unat (of_nat n - of_nat m :: 64 word) = n - m"
proof -
  have "(of_nat n - of_nat m :: 64 word) = of_nat (n - m)" using assms(1) by (simp add: of_nat_diff)
  then show ?thesis using assms(2) by (simp add: unat_of_nat)
qed

lemma near_positions_differ:
  assumes "m < n" and "n - m < capacity"
  shows "m mod capacity \<noteq> (n :: nat) mod capacity"
proof
  assume "m mod capacity = n mod capacity"
  then have "capacity dvd n - m" using assms(1) by (metis less_imp_le mod_eq_dvd_iff_nat)
  then show False using assms by (auto dest: dvd_imp_le)
qed

section \<open>The invariant\<close>

definition visible_tail :: "'a ring \<Rightarrow> 'a producer \<Rightarrow> nat" where
  "visible_tail r p = length (published r) - (case p of SendWritten _ \<Rightarrow> 1 | _ \<Rightarrow> 0)"

definition visible_head :: "'a ring \<Rightarrow> 'a consumer \<Rightarrow> nat" where
  "visible_head r c = length (received r) - (case c of RecvTaken _ _ \<Rightarrow> 1 | _ \<Rightarrow> 0)"

text \<open>The slots hold the values published and not received, and nothing else.\<close>

definition slots_hold :: "'a ring \<Rightarrow> bool" where
  "slots_hold r \<longleftrightarrow>
     (\<forall>k. length (received r) \<le> k \<and> k < length (published r) \<longrightarrow> slots r ! (k mod ring_capacity r) = Some (published r ! k))
     \<and> (\<forall>i < ring_capacity r. (\<forall>k. length (received r) \<le> k \<and> k < length (published r) \<longrightarrow> k mod ring_capacity r \<noteq> i)
          \<longrightarrow> slots r ! i = None)"

definition counts_ok :: "nat \<Rightarrow> 'a ring \<times> 'a producer \<times> 'a consumer \<Rightarrow> bool" where
  "counts_ok capacity = (\<lambda>(r, p, c).
     ring_capacity r = capacity \<and> \<not> misused r
     \<and> tail_cursor r = of_nat (visible_tail r p) \<and> head_cursor r = of_nat (visible_head r c)
     \<and> head_seen r \<le> visible_head r c \<and> length (published r) \<le> head_seen r + capacity
     \<and> length (received r) \<le> tail_seen r \<and> tail_seen r \<le> visible_tail r p
     \<and> received r = take (length (received r)) (published r))"

definition phases_ok :: "'a ring \<times> 'a producer \<times> 'a consumer \<Rightarrow> bool" where
  "phases_ok = (\<lambda>(r, p, c).
     (case p of
        SendIdle \<Rightarrow> True
      | SendTail v t \<Rightarrow> t = of_nat (length (published r))
      | SendChecked v t h \<Rightarrow> t = of_nat (length (published r)) \<and> h = of_nat (head_seen r)
      | SendWritten t \<Rightarrow> published r \<noteq> [] \<and> t = of_nat (length (published r) - 1))
     \<and> (case c of
        RecvIdle \<Rightarrow> True
      | RecvHead h \<Rightarrow> h = of_nat (length (received r))
      | RecvChecked h t \<Rightarrow> h = of_nat (length (received r)) \<and> t = of_nat (tail_seen r)
      | RecvTaken v h \<Rightarrow> received r \<noteq> [] \<and> v = last (received r) \<and> h = of_nat (length (received r) - 1)))"

definition ring_ok :: "nat \<Rightarrow> 'a ring \<times> 'a producer \<times> 'a consumer \<Rightarrow> bool" where
  "ring_ok capacity s \<longleftrightarrow> counts_ok capacity s \<and> phases_ok s \<and> slots_hold (fst s)"

lemmas ring_ok_defs = ring_ok_def counts_ok_def phases_ok_def visible_tail_def visible_head_def

lemma hold_write:
  assumes hold: "slots_hold r" and room: "length (published r) < length (received r) + ring_capacity r"
    and order: "length (received r) \<le> length (published r)"
  defines "i \<equiv> length (published r) mod ring_capacity r"
  shows "slots r ! i = None" and "slots_hold (write_slot i v r\<lparr>published := published r @ [v]\<rparr>)"
proof -
  let ?n = "length (published r)" and ?cap = "ring_capacity r"
  have cap: "0 < ?cap" using room order by simp
  have i: "i < ?cap" using cap by (simp add: i_def)
  have other: "k mod ?cap \<noteq> i" if "length (received r) \<le> k" "k < ?n" for k
    unfolding i_def by (rule near_positions_differ) (use that room in auto)
  show "slots r ! i = None" using hold i other by (auto simp: slots_hold_def)
  let ?r = "write_slot i v r\<lparr>published := published r @ [v]\<rparr>"
  have r: "slots ?r = (slots r)[i := Some v]" "received ?r = received r" "published ?r = published r @ [v]"
    "ring_capacity ?r = ?cap"
    by (simp_all add: write_slot_def ring_capacity_def)
  have "slots ?r ! (k mod ?cap) = Some (published ?r ! k)" if "length (received r) \<le> k" "k < Suc ?n" for k
  proof (cases "k = ?n")
    case True
    have "i < length (slots r)" using i by (simp add: ring_capacity_def)
    then show ?thesis by (simp add: r True i_def [symmetric])
  next
    case False
    then have "k < ?n" using that(2) by simp
    then show ?thesis using hold other [OF that(1)] that(1) by (simp add: r slots_hold_def nth_append)
  qed
  moreover have "slots ?r ! j = None"
    if "j < ?cap" "\<forall>k. length (received r) \<le> k \<and> k < Suc ?n \<longrightarrow> k mod ?cap \<noteq> j" for j
  proof -
    have "j \<noteq> i" using that(2) order by (auto simp: i_def)
    then show ?thesis using hold that by (simp add: r slots_hold_def)
  qed
  ultimately show "slots_hold ?r" unfolding slots_hold_def by (simp add: r)
qed

lemma hold_take:
  assumes hold: "slots_hold r" and some: "length (received r) < length (published r)"
    and room: "length (published r) \<le> length (received r) + ring_capacity r"
  defines "i \<equiv> length (received r) mod ring_capacity r"
  shows "slots r ! i = Some (published r ! length (received r))"
    and "slots_hold (take_slot i r\<lparr>received := received r @ [v]\<rparr>)"
proof -
  let ?m = "length (received r)" and ?cap = "ring_capacity r"
  have i: "i < ?cap" using some room by (simp add: i_def)
  show "slots r ! i = Some (published r ! ?m)" using hold some by (simp add: slots_hold_def i_def)
  let ?r = "take_slot i r\<lparr>received := received r @ [v]\<rparr>"
  have r: "slots ?r = (slots r)[i := None]" "received ?r = received r @ [v]" "published ?r = published r" "ring_capacity ?r = ?cap"
    by (simp_all add: take_slot_def ring_capacity_def)
  have other: "i \<noteq> k mod ?cap" if "Suc ?m \<le> k" "k < length (published r)" for k
    unfolding i_def by (rule near_positions_differ) (use that room in auto)
  have "slots ?r ! (k mod ?cap) = Some (published r ! k)" if "Suc ?m \<le> k" "k < length (published r)" for k
    using hold other [OF that] that by (simp add: r slots_hold_def)
  moreover have "slots ?r ! j = None"
    if "j < ?cap" "\<forall>k. Suc ?m \<le> k \<and> k < length (published r) \<longrightarrow> k mod ?cap \<noteq> j" for j
  proof (cases "j = i")
    case True
    then show ?thesis using i by (simp add: r ring_capacity_def)
  next
    case False
    have "k mod ?cap \<noteq> j" if "?m \<le> k" "k < length (published r)" for k
      using that False \<open>\<forall>k. Suc ?m \<le> k \<and> k < length (published r) \<longrightarrow> k mod ?cap \<noteq> j\<close>
      by (cases "k = ?m") (auto simp: i_def)
    then show ?thesis using hold that(1) False by (simp add: r slots_hold_def)
  qed
  ultimately show "slots_hold ?r" unfolding slots_hold_def by (simp add: r)
qed

section \<open>Every step keeps the invariant\<close>

lemma ring_new_ok:
  assumes "ring_new capacity = Inr r"
  shows "ring_ok capacity (r, SendIdle, RecvIdle)"
  using assms by (auto simp: ring_new_def ring_ok_defs slots_hold_def ring_capacity_def split: if_splits)

lemma published_grows: "ring_step s s' \<Longrightarrow> length (published (fst s)) \<le> length (published (fst s'))"
  by (induction rule: ring_step.induct) (simp_all add: write_slot_def take_slot_def)

lemma send_write_ok:
  assumes ok: "ring_ok capacity (r, SendChecked v t h, c)" and room: "\<not> ring_full r t h"
    and small: "capacity < 2 ^ 64" and fit: "index_fits capacity (length (published r))"
  shows "ring_ok capacity (write_slot (slot_index r t) v r\<lparr>published := published r @ [v]\<rparr>, SendWritten t, c)"
proof -
  let ?n = "length (published r)"
  have cap: "ring_capacity r = capacity" and t: "t = of_nat ?n" and h: "h = of_nat (head_seen r)"
    and seen: "head_seen r \<le> length (received r)" and bound: "?n \<le> head_seen r + capacity"
    and order: "length (received r) \<le> ?n" and order': "head_seen r \<le> ?n"
    using ok by (auto simp: ring_ok_defs)
  have "unat (t - h) = ?n - head_seen r"
    unfolding t h by (rule cursor_distance) (use order' bound small in auto)
  then have free: "?n < head_seen r + capacity" using room cap by (simp add: ring_full_def)
  have i: "slot_index r t = ?n mod ring_capacity r"
    using index_of_position [OF fit] by (simp add: slot_index_def cap t)
  have hold: "slots_hold r" using ok by (simp add: ring_ok_def)
  have free': "?n < length (received r) + ring_capacity r" using free seen cap by simp
  note written = hold_write [OF hold free' order, folded i]
  show ?thesis
    using ok written free by (cases c) (auto simp: ring_ok_defs write_slot_def ring_capacity_def)
qed

lemma recv_take_ok:
  assumes ok: "ring_ok capacity (r, p, RecvChecked h t)" and some: "h \<noteq> t"
    and fit: "index_fits capacity (length (published r))"
  shows "slots r ! slot_index r h = Some (published r ! length (received r))"
    and "ring_ok capacity (take_slot (slot_index r h) r\<lparr>received := received r @ [published r ! length (received r)]\<rparr>,
           p, RecvTaken (published r ! length (received r)) h)"
proof -
  let ?m = "length (received r)"
  have cap: "ring_capacity r = capacity" and h: "h = of_nat ?m" and t: "t = of_nat (tail_seen r)"
    and seen: "?m \<le> tail_seen r" and visible: "tail_seen r \<le> length (published r)"
    and bound: "length (published r) \<le> ?m + capacity"
    using ok by (auto simp: ring_ok_defs)
  have less: "?m < tail_seen r" using some seen by (auto simp: h t nat_less_le)
  then have less': "?m < length (published r)" using visible by simp
  have i: "slot_index r h = ?m mod ring_capacity r"
    using index_of_position [OF index_fits_mono [OF fit, of ?m]] less' by (simp add: slot_index_def cap h)
  have hold: "slots_hold r" using ok by (simp add: ring_ok_def)
  have bound': "length (published r) \<le> ?m + ring_capacity r" using bound cap by simp
  note taken = hold_take [OF hold less' bound', folded i]
  show "slots r ! slot_index r h = Some (published r ! ?m)" by (rule taken(1))
  show "ring_ok capacity (take_slot (slot_index r h) r\<lparr>received := received r @ [published r ! ?m]\<rparr>,
      p, RecvTaken (published r ! ?m) h)"
    using ok taken less by (cases p) (auto simp: ring_ok_defs take_slot_def ring_capacity_def take_Suc_conv_app_nth less')
qed

lemma hold_cursors [simp]:
  "slots_hold (r\<lparr>head_cursor := x\<rparr>) = slots_hold r" "slots_hold (r\<lparr>tail_cursor := x\<rparr>) = slots_hold r"
  "slots_hold (r\<lparr>head_seen := k\<rparr>) = slots_hold r" "slots_hold (r\<lparr>tail_seen := k\<rparr>) = slots_hold r"
  by (simp_all add: slots_hold_def ring_capacity_def)

lemma capacity_cursors [simp]:
  "ring_capacity (r\<lparr>head_cursor := x\<rparr>) = ring_capacity r" "ring_capacity (r\<lparr>tail_cursor := x\<rparr>) = ring_capacity r"
  "ring_capacity (r\<lparr>head_seen := k\<rparr>) = ring_capacity r" "ring_capacity (r\<lparr>tail_seen := k\<rparr>) = ring_capacity r"
  by (simp_all add: ring_capacity_def)

lemma store_position: "xs \<noteq> [] \<Longrightarrow> of_nat (length xs - Suc 0) + 1 = (of_nat (length xs) :: 64 word)"
  by (cases xs) simp_all

lemma ring_step_ok:
  assumes "ring_step s s'" and "ring_ok capacity s" and "capacity < 2 ^ 64" and "index_fits capacity (length (published (fst s')))"
  shows "ring_ok capacity s'"
  using assms
proof (induction rule: ring_step.induct)
  case (send_write r t h v c)
  then show ?case
    using send_write_ok [OF send_write.prems(1) send_write.hyps send_write.prems(2)] index_fits_mono [OF send_write.prems(3), of "length (published r)"]
    by simp
next
  case (recv_take h t r v p)
  have "index_fits capacity (length (published r))" using recv_take.prems(3) by (simp add: take_slot_def)
  note taken = recv_take_ok [OF recv_take.prems(1) recv_take.hyps(1) this]
  then show ?case using recv_take.hyps(2) by simp
next
  case (recv_garbage h t r p)
  have "index_fits capacity (length (published r))" using recv_garbage.prems(3) by (simp add: take_slot_def)
  note taken = recv_take_ok [OF recv_garbage.prems(1) recv_garbage.hyps(1) this]
  then show ?case using recv_garbage.hyps(2) by simp
next
  case (load_tail r t p h)
  then show ?case by (cases p) (auto simp: ring_ok_defs)
next
  case (load_head r h c v t)
  then show ?case by (cases c) (auto simp: ring_ok_defs)
next
  case (store_tail r t c)
  then show ?case by (cases c) (auto simp: ring_ok_defs store_position)
next
  case (store_head r p v h)
  then show ?case by (cases p) (auto simp: ring_ok_defs store_position)
qed (auto simp: ring_ok_defs)

lemma ring_reachable_ok:
  assumes "ring_step\<^sup>*\<^sup>* s0 s" and "ring_ok capacity s0" and "capacity < 2 ^ 64"
  shows "index_fits capacity (length (published (fst s))) \<Longrightarrow> ring_ok capacity s"
  using assms(1)
proof (induction rule: rtranclp_induct)
  case base
  then show ?case using assms(2) by simp
next
  case (step s s')
  then show ?case using ring_step_ok [OF step.hyps(2) _ assms(3) step.prems] index_fits_mono published_grows by blast
qed

section \<open>What the ring promises\<close>

lemma dropped_positions:
  assumes ok: "ring_ok capacity (r, SendIdle, RecvIdle)" and small: "capacity < 2 ^ 64"
    and fit: "index_fits capacity (length (published r))"
  shows "dropped_slots r = map (\<lambda>k. k mod capacity) [length (received r)..<length (published r)]"
proof -
  let ?m = "length (received r)" and ?n = "length (published r)"
  have facts: "ring_capacity r = capacity" "head_cursor r = of_nat ?m" "tail_cursor r = of_nat ?n" "?m \<le> ?n" "?n \<le> ?m + capacity"
    using ok by (auto simp: ring_ok_defs)
  have distance: "unat (tail_cursor r - head_cursor r) = ?n - ?m"
    unfolding facts(2,3) by (rule cursor_distance) (use facts(4,5) small in auto)
  have count: "min (?n - ?m) capacity = ?n - ?m" using facts(5) by simp
  have index: "slot_index r (head_cursor r + of_nat offset) = (?m + offset) mod capacity" if "offset < ?n - ?m" for offset
  proof -
    have "slot_index r (of_nat (?m + offset)) = (?m + offset) mod capacity"
      unfolding slot_index_def facts(1) by (rule index_of_position) (use index_fits_mono [OF fit] that in auto)
    then show ?thesis by (simp add: facts(2))
  qed
  have "map (\<lambda>offset. slot_index r (head_cursor r + of_nat offset)) [0..<?n - ?m]
      = map (\<lambda>offset. (?m + offset) mod capacity) [0..<?n - ?m]"
    by (rule map_cong [OF refl index]) simp
  also have "\<dots> = map (\<lambda>k. k mod capacity) [?m..<?n]"
    by (rule nth_equalityI) (simp_all add: add.commute)
  finally show ?thesis by (simp only: dropped_slots_def distance facts(1) count)
qed

lemma dropped_hold:
  assumes ok: "ring_ok capacity (r, SendIdle, RecvIdle)" and small: "capacity < 2 ^ 64"
    and fit: "index_fits capacity (length (published r))"
  shows "distinct (dropped_slots r)"
    and "map ((!) (slots r)) (dropped_slots r) = map Some (drop (length (received r)) (published r))"
    and "\<forall>i < capacity. i \<notin> set (dropped_slots r) \<longrightarrow> slots r ! i = None"
proof -
  let ?m = "length (received r)" and ?n = "length (published r)"
  note dropped = dropped_positions [OF assms]
  have cap: "ring_capacity r = capacity" and bound: "?n \<le> ?m + capacity" and hold: "slots_hold r"
    using ok by (auto simp: ring_ok_defs)
  have "inj_on (\<lambda>k. k mod capacity) {?m..<?n}"
  proof (rule linorder_inj_onI')
    fix i j assume "i \<in> {?m..<?n}" "j \<in> {?m..<?n}" "i < j"
    then show "i mod capacity \<noteq> j mod capacity" by (intro near_positions_differ) (use bound in auto)
  qed
  then show "distinct (dropped_slots r)" by (simp add: dropped distinct_map)
  have "slots r ! (k mod capacity) = Some (published r ! k)" if "?m \<le> k" "k < ?n" for k
    using hold that by (simp add: slots_hold_def cap)
  then show "map ((!) (slots r)) (dropped_slots r) = map Some (drop ?m (published r))"
    unfolding dropped by (intro nth_equalityI) simp_all
  show "\<forall>i < capacity. i \<notin> set (dropped_slots r) \<longrightarrow> slots r ! i = None"
    using hold by (auto simp: slots_hold_def cap dropped)
qed

text \<open>
  C21: whatever the interleaving of the two endpoints, and whichever allowed cursors they load, no slot is
  overwritten while it holds a value or read while it holds none, what is received is what was sent in its
  order, and at most the capacity is queued. A send is refused only if the ring was full by the head loaded,
  and a receive finds nothing only if all that the tail loaded shows was received. When both endpoints are
  gone, exactly the values not received are dropped, each once. This holds for any number of values if the
  capacity divides the range of the cursors, else as long as fewer values than that range were sent.
\<close>

theorem ring_is_fifo:
  assumes "ring_new capacity = Inr r0" and "ring_step\<^sup>*\<^sup>* (r0, SendIdle, RecvIdle) (r, p, c)"
    and "capacity < 2 ^ 64" and "index_fits capacity (length (published r))"
  shows "\<not> misused r \<and> prefix (received r) (published r) \<and> length (published r) \<le> length (received r) + capacity
    \<and> (\<forall>v t h. p = SendChecked v t h \<and> ring_full r t h \<longrightarrow> length (published r) = head_seen r + capacity)
    \<and> (\<forall>h. c = RecvChecked h h \<longrightarrow> length (received r) = tail_seen r)
    \<and> (p = SendIdle \<and> c = RecvIdle \<longrightarrow>
         distinct (dropped_slots r) \<and> map ((!) (slots r)) (dropped_slots r) = map Some (drop (length (received r)) (published r))
         \<and> (\<forall>i < capacity. i \<notin> set (dropped_slots r) \<longrightarrow> slots r ! i = None))"
proof -
  have ok: "ring_ok capacity (r, p, c)"
    using ring_reachable_ok [OF assms(2) ring_new_ok [OF assms(1)] assms(3)] assms(4) by simp
  then have counts: "ring_capacity r = capacity" "\<not> misused r" "received r = take (length (received r)) (published r)"
    "head_seen r \<le> length (received r)" "length (published r) \<le> head_seen r + capacity"
    "length (received r) \<le> tail_seen r" "tail_seen r \<le> length (published r)"
    by (auto simp: ring_ok_defs)
  have pre: "prefix (received r) (published r)" by (metis counts(3) take_is_prefix)
  have full: "length (published r) = head_seen r + capacity" if "p = SendChecked v t h" "ring_full r t h" for v t h
  proof -
    have "t = of_nat (length (published r))" "h = of_nat (head_seen r)" using ok that(1) by (auto simp: ring_ok_defs)
    then have "unat (t - h) = length (published r) - head_seen r"
      using cursor_distance [of "head_seen r" "length (published r)"] counts assms(3) by simp
    then show ?thesis using that(2) counts by (simp add: ring_full_def)
  qed
  have empty: "length (received r) = tail_seen r" if "c = RecvChecked h h" for h
  proof -
    have "(of_nat (tail_seen r) :: 64 word) = of_nat (length (received r))" using ok that by (auto simp: ring_ok_defs)
    moreover have "tail_seen r - length (received r) < 2 ^ 64" using counts(4,5,7) assms(3) by linarith
    ultimately show ?thesis using cursor_distance [OF counts(6)] counts(6) by simp
  qed
  show ?thesis
    using counts pre full empty dropped_hold [of capacity r] ok assms(3,4) by auto
qed

text \<open>A value sent through a ring of two slots.\<close>

definition ring_of_two :: "nat ring" where
  "ring_of_two = \<lparr>slots = [None, None], head_cursor = 0, tail_cursor = 0,
     published = [], received = [], head_seen = 0, tail_seen = 0, misused = False\<rparr>"

definition ring_after_send :: "nat ring" where
  "ring_after_send = ring_of_two\<lparr>slots := [Some 7, None], tail_cursor := 1, published := [7]\<rparr>"

lemma ring_sends: "ring_step\<^sup>*\<^sup>* (ring_of_two, SendIdle, RecvIdle) (ring_after_send, SendIdle, RecvIdle)"
proof -
  let ?r = ring_of_two
  have "ring_step (?r, SendIdle, RecvIdle) (?r, SendTail 7 0, RecvIdle)"
    using ring_step.load_own_tail [of ?r RecvIdle 7] by (simp add: ring_of_two_def)
  moreover have "ring_step (?r, SendTail 7 0, RecvIdle) (?r, SendChecked 7 0 0, RecvIdle)"
    using ring_step.load_head [of ?r 0 RecvIdle 7 0] by (simp add: ring_of_two_def)
  moreover have "ring_step (?r, SendChecked 7 0 0, RecvIdle)
      (write_slot (slot_index ?r 0) 7 ?r\<lparr>published := published ?r @ [7]\<rparr>, SendWritten 0, RecvIdle)"
    by (rule ring_step.send_write) (simp add: ring_full_def ring_capacity_def ring_of_two_def)
  moreover have "ring_step (write_slot (slot_index ?r 0) 7 ?r\<lparr>published := published ?r @ [7]\<rparr>, SendWritten 0, RecvIdle)
      (ring_after_send, SendIdle, RecvIdle)"
    using ring_step.store_tail [of "write_slot (slot_index ?r 0) 7 ?r\<lparr>published := published ?r @ [7]\<rparr>" 0 RecvIdle]
    by (simp add: ring_after_send_def ring_of_two_def write_slot_def slot_index_def)
  ultimately show ?thesis by (meson converse_rtranclp_into_rtranclp rtranclp.rtrancl_refl)
qed

theorem ring_is_fifo_witness:
  "ring_step\<^sup>*\<^sup>* (ring_of_two, SendIdle, RecvIdle) (ring_after_send, SendIdle, RecvIdle)
   \<and> \<not> misused ring_after_send \<and> map ((!) (slots ring_after_send)) (dropped_slots ring_after_send) = [Some 7]"
proof -
  have new: "ring_new 2 = Inr ring_of_two" by (simp add: ring_new_def ring_of_two_def numeral_2_eq_2)
  have fit: "index_fits 2 (length (published ring_after_send))" by (simp add: index_fits_def)
  show ?thesis
    using ring_is_fifo [OF new ring_sends _ fit] ring_sends
    by (simp add: ring_after_send_def ring_of_two_def)
qed

end
