(* ===== verification/Credits.thy ===== *)
theory Credits
  imports Prelude "HOL-Library.Word"
begin

text \<open>
  The ledger of byte credits (\<open>ByteCreditLedger\<close> of \<open>graphoxide-index-runtime/src/lib.rs\<close>). Reservations and
  releases of any number of threads interleave, each a sequence of atomic steps on two counters and their
  peaks. A reservation and the lease it gives are one process here, so a thread that holds several leases is
  several processes. A plain load may return any value the counter has had; a weak exchange may fail although
  the counter is what was expected.
\<close>

section \<open>Ledger and reservations\<close>

text \<open>Beside the counters: the values they have had, and whether a subtraction went below zero.\<close>

record ledger =
  l_capacity :: "64 word"
  l_reserved :: "64 word"
  l_items :: "64 word"
  l_peak_reserved :: "64 word"
  l_peak_items :: "64 word"
  l_reserved_values :: "64 word set"
  l_items_values :: "64 word set"
  l_underflow :: bool

datatype credit_error =
    TooLarge "64 word" "64 word"
  | Insufficient "64 word" "64 word" "64 word"
  | ReservationCountOverflow

text \<open>Where a reservation stands: asking, with the value observed; credited, with the counter it wrote; in
  the loop that counts items; raising the two peaks; holding the lease; within the release; over.\<close>

datatype reservation =
    Idle
  | Observed "64 word" "64 word"
  | Credited "64 word" "64 word"
  | Counting "64 word" "64 word" "64 word"
  | Counted "64 word" "64 word" "64 word"
  | Peaked "64 word" "64 word"
  | Holding "64 word"
  | Releasing "64 word"
  | Released
  | Refused credit_error

definition ledger_new :: "64 word \<Rightarrow> ledger" where
  "ledger_new capacity =
     \<lparr>l_capacity = capacity, l_reserved = 0, l_items = 0, l_peak_reserved = 0, l_peak_items = 0,
      l_reserved_values = {0}, l_items_values = {0}, l_underflow = False\<rparr>"

definition saturating_minus :: "64 word \<Rightarrow> 64 word \<Rightarrow> 64 word" where
  "saturating_minus a b = (if b \<le> a then a - b else 0)"

text \<open>The estimate of what is available, from a load of the counter.\<close>

definition available :: "ledger \<Rightarrow> 64 word \<Rightarrow> 64 word" where
  "available l loaded = saturating_minus (l_capacity l) loaded"

definition set_reserved :: "64 word \<Rightarrow> ledger \<Rightarrow> ledger" where
  "set_reserved n l = l\<lparr>l_reserved := n, l_reserved_values := insert n (l_reserved_values l)\<rparr>"

definition set_items :: "64 word \<Rightarrow> ledger \<Rightarrow> ledger" where
  "set_items n l = l\<lparr>l_items := n, l_items_values := insert n (l_items_values l)\<rparr>"

definition take_reserved :: "64 word \<Rightarrow> ledger \<Rightarrow> ledger" where
  "take_reserved bytes l =
     (set_reserved (l_reserved l - bytes) l)\<lparr>l_underflow := l_underflow l \<or> l_reserved l < bytes\<rparr>"

definition take_item :: "ledger \<Rightarrow> ledger" where
  "take_item l = (set_items (l_items l - 1) l)\<lparr>l_underflow := l_underflow l \<or> l_items l = 0\<rparr>"

inductive reserve_step :: "ledger \<times> reservation \<Rightarrow> ledger \<times> reservation \<Rightarrow> bool" where
  ask_too_much: "bytes > l_capacity l \<Longrightarrow> reserve_step (l, Idle) (l, Refused (TooLarge bytes (l_capacity l)))"
| load_reserved: "bytes \<le> l_capacity l \<Longrightarrow> seen \<in> l_reserved_values l \<Longrightarrow> reserve_step (l, Idle) (l, Observed bytes seen)"
| insufficient: "bytes > available l seen \<Longrightarrow>
    reserve_step (l, Observed bytes seen) (l, Refused (Insufficient bytes (available l seen) (l_capacity l)))"
| reserve: "bytes \<le> available l seen \<Longrightarrow> l_reserved l = seen \<Longrightarrow>
    reserve_step (l, Observed bytes seen) (set_reserved (seen + bytes) l, Credited bytes (seen + bytes))"
| reserve_again: "bytes \<le> available l seen \<Longrightarrow> reserve_step (l, Observed bytes seen) (l, Observed bytes (l_reserved l))"
| load_items: "n \<in> l_items_values l \<Longrightarrow> reserve_step (l, Credited bytes s) (l, Counting bytes s n)"
| count_overflow: "n = - 1 \<Longrightarrow>
    reserve_step (l, Counting bytes s n) (take_reserved bytes l, Refused ReservationCountOverflow)"
| count: "n \<noteq> - 1 \<Longrightarrow> l_items l = n \<Longrightarrow>
    reserve_step (l, Counting bytes s n) (set_items (n + 1) l, Counted bytes s (n + 1))"
| count_again: "n \<noteq> - 1 \<Longrightarrow> reserve_step (l, Counting bytes s n) (l, Counting bytes s (l_items l))"
| raise_peak: "reserve_step (l, Counted bytes s n)
    (l\<lparr>l_peak_reserved := max (l_peak_reserved l) s\<rparr>, Peaked bytes n)"
| raise_peak_items: "reserve_step (l, Peaked bytes n) (l\<lparr>l_peak_items := max (l_peak_items l) n\<rparr>, Holding bytes)"
| release_item: "reserve_step (l, Holding bytes) (take_item l, Releasing bytes)"
| release_bytes: "reserve_step (l, Releasing bytes) (take_reserved bytes l, Released)"

text \<open>Any of the reservations takes a step.\<close>

inductive ledger_step :: "ledger \<times> reservation list \<Rightarrow> ledger \<times> reservation list \<Rightarrow> bool" where
  "i < length rs \<Longrightarrow> reserve_step (l, rs ! i) (l', p) \<Longrightarrow> ledger_step (l, rs) (l', rs[i := p])"

text \<open>The error that the caller sees; the overflow of the item counter is reported as a lack of bytes.\<close>

definition try_reserve_error :: "ledger \<Rightarrow> 64 word \<Rightarrow> 64 word \<Rightarrow> credit_error \<Rightarrow> credit_error" where
  "try_reserve_error l loaded bytes e =
     (case e of
        ReservationCountOverflow \<Rightarrow> Insufficient bytes (available l loaded) (l_capacity l)
      | _ \<Rightarrow> e)"

section \<open>The invariant\<close>

definition charged :: "reservation \<Rightarrow> nat" where
  "charged p =
     (case p of
        Credited bytes _ \<Rightarrow> unat bytes | Counting bytes _ _ \<Rightarrow> unat bytes | Counted bytes _ _ \<Rightarrow> unat bytes
      | Peaked bytes _ \<Rightarrow> unat bytes | Holding bytes \<Rightarrow> unat bytes | Releasing bytes \<Rightarrow> unat bytes | _ \<Rightarrow> 0)"

definition counted_item :: "reservation \<Rightarrow> nat" where
  "counted_item p = (case p of Counted _ _ _ \<Rightarrow> 1 | Peaked _ _ \<Rightarrow> 1 | Holding _ \<Rightarrow> 1 | _ \<Rightarrow> 0)"

definition reservation_ok :: "64 word \<Rightarrow> reservation \<Rightarrow> bool" where
  "reservation_ok capacity p \<longleftrightarrow>
     (case p of
        Observed bytes seen \<Rightarrow> seen \<le> capacity
      | Credited bytes s \<Rightarrow> bytes \<le> s \<and> s \<le> capacity
      | Counting bytes s _ \<Rightarrow> bytes \<le> s \<and> s \<le> capacity
      | Counted bytes s _ \<Rightarrow> bytes \<le> s \<and> s \<le> capacity
      | Refused (TooLarge bytes c) \<Rightarrow> c = capacity \<and> bytes > capacity
      | Refused (Insufficient bytes free c) \<Rightarrow> c = capacity \<and> bytes > free \<and> free \<le> capacity
      | _ \<Rightarrow> True)"

definition charged_bytes :: "reservation list \<Rightarrow> nat" where
  "charged_bytes rs = sum_list (map charged rs)"

definition counted_items :: "reservation list \<Rightarrow> nat" where
  "counted_items rs = sum_list (map counted_item rs)"

definition ledger_ok :: "64 word \<Rightarrow> ledger \<times> reservation list \<Rightarrow> bool" where
  "ledger_ok capacity = (\<lambda>(l, rs).
     l_capacity l = capacity \<and> \<not> l_underflow l
     \<and> unat (l_reserved l) = charged_bytes rs \<and> unat (l_items l) = counted_items rs
     \<and> (\<forall>n \<in> l_reserved_values l. n \<le> capacity) \<and> l_reserved l \<in> l_reserved_values l
     \<and> l_peak_reserved l \<le> capacity \<and> list_all (reservation_ok capacity) rs)"

lemma sum_list_change:
  "i < length xs \<Longrightarrow> sum_list (map f (xs[i := y])) + f (xs ! i) = sum_list (map f xs) + (f y :: nat)"
  by (induction xs arbitrary: i) (auto split: nat.split)

lemma charged_change: "i < length rs \<Longrightarrow> charged_bytes (rs[i := p]) + charged (rs ! i) = charged_bytes rs + charged p"
  by (simp add: charged_bytes_def sum_list_change)

lemma counted_change: "i < length rs \<Longrightarrow> counted_items (rs[i := p]) + counted_item (rs ! i) = counted_items rs + counted_item p"
  by (simp add: counted_items_def sum_list_change)

section \<open>Every step keeps the invariant\<close>

lemma ledger_new_ok: "list_all (\<lambda>p. p = Idle) rs \<Longrightarrow> ledger_ok capacity (ledger_new capacity, rs)"
proof -
  assume "list_all (\<lambda>p. p = Idle) rs"
  then have "charged_bytes rs = 0 \<and> counted_items rs = 0 \<and> list_all (reservation_ok capacity) rs"
    by (induction rs) (simp_all add: charged_bytes_def counted_items_def charged_def counted_item_def reservation_ok_def)
  then show ?thesis by (simp add: ledger_ok_def ledger_new_def)
qed

lemma ledger_ok_change:
  assumes ok: "ledger_ok capacity (l, rs)" and i: "i < length rs"
    and l': "l_capacity l' = capacity" "\<not> l_underflow l'" "\<forall>n \<in> l_reserved_values l'. n \<le> capacity"
      "l_reserved l' \<in> l_reserved_values l'" "l_peak_reserved l' \<le> capacity"
    and bytes: "unat (l_reserved l') + charged (rs ! i) = unat (l_reserved l) + charged p"
    and items: "unat (l_items l') + counted_item (rs ! i) = unat (l_items l) + counted_item p"
    and p: "reservation_ok capacity p"
  shows "ledger_ok capacity (l', rs[i := p])"
proof -
  have "list_all (reservation_ok capacity) (rs[i := p])"
    using ok p by (auto simp: ledger_ok_def list_all_iff dest: set_update_subset_insert [THEN subsetD])
  moreover have "unat (l_reserved l') = charged_bytes (rs[i := p])"
    using charged_change [OF i, of p] bytes ok by (simp add: ledger_ok_def)
  moreover have "unat (l_items l') = counted_items (rs[i := p])"
    using counted_change [OF i, of p] items ok by (simp add: ledger_ok_def)
  ultimately show ?thesis using l' by (simp add: ledger_ok_def)
qed

lemma charged_le: "i < length rs \<Longrightarrow> charged (rs ! i) \<le> charged_bytes rs"
  unfolding charged_bytes_def by (rule member_le_sum_list) auto

lemma counted_le: "i < length rs \<Longrightarrow> counted_item (rs ! i) \<le> counted_items rs"
  unfolding counted_items_def by (rule member_le_sum_list) auto

lemma take_reserved_facts:
  assumes "unat bytes \<le> unat (l_reserved l)"
  shows "l_underflow (take_reserved bytes l) = l_underflow l"
    and "unat (l_reserved (take_reserved bytes l)) = unat (l_reserved l) - unat bytes"
    and "l_reserved (take_reserved bytes l) \<le> l_reserved l"
proof -
  have le: "bytes \<le> l_reserved l" using assms by (simp add: word_le_nat_alt)
  then show "l_underflow (take_reserved bytes l) = l_underflow l" by (auto simp: take_reserved_def dest: leD)
  show eq: "unat (l_reserved (take_reserved bytes l)) = unat (l_reserved l) - unat bytes"
    using le by (simp add: take_reserved_def set_reserved_def unat_sub)
  show "l_reserved (take_reserved bytes l) \<le> l_reserved l" by (simp add: word_le_nat_alt eq)
qed

lemma take_item_facts:
  assumes "1 \<le> unat (l_items l)"
  shows "l_underflow (take_item l) = l_underflow l" and "unat (l_items (take_item l)) = unat (l_items l) - 1"
proof -
  have "1 \<le> l_items l" using assms by (simp add: word_le_nat_alt)
  then show "unat (l_items (take_item l)) = unat (l_items l) - 1" by (simp add: take_item_def set_items_def unat_sub)
  show "l_underflow (take_item l) = l_underflow l" using assms by (auto simp: take_item_def)
qed

lemma take_other [simp]:
  "l_capacity (take_reserved b l) = l_capacity l" "l_items (take_reserved b l) = l_items l"
  "l_peak_reserved (take_reserved b l) = l_peak_reserved l"
  "l_reserved_values (take_reserved b l) = insert (l_reserved (take_reserved b l)) (l_reserved_values l)"
  "l_capacity (take_item l) = l_capacity l" "l_reserved (take_item l) = l_reserved l"
  "l_peak_reserved (take_item l) = l_peak_reserved l" "l_reserved_values (take_item l) = l_reserved_values l"
  by (simp_all add: take_reserved_def take_item_def set_reserved_def set_items_def)

lemma reserve_fits:
  assumes "bytes \<le> saturating_minus capacity seen" and "seen \<le> capacity"
  shows "unat (seen + bytes) = unat seen + unat bytes" and "seen + bytes \<le> capacity" and "bytes \<le> seen + bytes"
proof -
  have "unat bytes \<le> unat capacity - unat seen" "unat seen \<le> unat capacity"
    using assms by (simp_all add: saturating_minus_def word_le_nat_alt unat_sub)
  then have fit: "unat seen + unat bytes \<le> unat capacity" by simp
  then have "unat seen + unat bytes < 2 ^ LENGTH(64)" using unsigned_less [of capacity] by (rule le_less_trans)
  then show eq: "unat (seen + bytes) = unat seen + unat bytes" by (simp only: unat_add_lem)
  show "seen + bytes \<le> capacity" "bytes \<le> seen + bytes" using fit by (simp_all add: word_le_nat_alt eq)
qed

lemma saturating_minus_le: "saturating_minus a b \<le> a"
  by (auto simp: saturating_minus_def word_le_nat_alt unat_sub)

lemma next_item: "n \<noteq> - 1 \<Longrightarrow> unat (n + 1) = unat (n :: 64 word) + 1"
  by (metis add.commute add_eq_0_iff unatSuc Suc_eq_plus1)

lemma ledger_step_ok:
  assumes "ledger_step s s'" and "ledger_ok capacity s"
  shows "ledger_ok capacity s'"
  using assms
proof (induction rule: ledger_step.induct)
  case (1 i rs l l' p)
  let ?q = "rs ! i"
  have facts: "l_capacity l = capacity" "\<not> l_underflow l" "\<forall>n \<in> l_reserved_values l. n \<le> capacity"
    "l_reserved l \<in> l_reserved_values l" "l_peak_reserved l \<le> capacity" "l_reserved l \<le> capacity"
    using 1(3) by (auto simp: ledger_ok_def)
  have q: "reservation_ok capacity ?q" using 1(1,3) by (auto simp: ledger_ok_def list_all_length)
  have enough: "charged ?q \<le> unat (l_reserved l)" "counted_item ?q \<le> unat (l_items l)"
    using charged_le [OF 1(1)] counted_le [OF 1(1)] 1(3) by (simp_all add: ledger_ok_def)
  note change = ledger_ok_change [OF 1(3) 1(1)]
  from 1(2) show ?case
  proof (cases rule: reserve_step.cases)
    case (reserve bytes seen)
    then have fit: "bytes \<le> saturating_minus capacity seen" "seen \<le> capacity" "l_reserved l = seen"
      using facts by (auto simp: available_def)
    show ?thesis
      using reserve facts reserve_fits [OF fit(1,2)] fit(3)
      by (intro change) (auto simp: set_reserved_def charged_def counted_item_def reservation_ok_def)
  next
    case (count_overflow n bytes s)
    then have "unat bytes \<le> unat (l_reserved l)" using enough(1) by (simp add: charged_def)
    note taken = take_reserved_facts [OF this]
    show ?thesis
      using count_overflow facts taken order_trans [OF taken(3)] enough(1)
      by (intro change) (auto simp: charged_def counted_item_def reservation_ok_def)
  next
    case (release_bytes bytes)
    then have "unat bytes \<le> unat (l_reserved l)" using enough(1) by (simp add: charged_def)
    note taken = take_reserved_facts [OF this]
    show ?thesis
      using release_bytes facts taken order_trans [OF taken(3)] enough(1)
      by (intro change) (auto simp: charged_def counted_item_def reservation_ok_def)
  next
    case (release_item bytes)
    then have "1 \<le> unat (l_items l)" using enough(2) by (simp add: counted_item_def)
    note taken = take_item_facts [OF this]
    show ?thesis
      using release_item facts taken enough(2)
      by (intro change) (auto simp: charged_def counted_item_def reservation_ok_def)
  next
    case (count n bytes s)
    then show ?thesis
      using facts q next_item [OF count(4)]
      by (intro change) (auto simp: charged_def counted_item_def reservation_ok_def set_items_def)
  next
    case (insufficient bytes seen)
    then show ?thesis
      using facts saturating_minus_le [of capacity seen]
      by (intro change) (auto simp: charged_def counted_item_def reservation_ok_def available_def)
  qed (use facts q in \<open>intro change; auto simp: charged_def counted_item_def reservation_ok_def max_def\<close>)+
qed

lemma ledger_reachable_ok:
  assumes "ledger_step\<^sup>*\<^sup>* s0 s" and "ledger_ok capacity s0"
  shows "ledger_ok capacity s"
  using assms by (induction rule: rtranclp_induct) (auto intro: ledger_step_ok)

section \<open>What the ledger promises\<close>

definition reservation_over :: "reservation \<Rightarrow> bool" where
  "reservation_over p = (case p of Idle \<Rightarrow> True | Released \<Rightarrow> True | Refused _ \<Rightarrow> True | _ \<Rightarrow> False)"

lemma over_charges_nothing: "list_all reservation_over rs \<Longrightarrow> charged_bytes rs = 0 \<and> counted_items rs = 0"
  by (induction rs)
    (auto simp: charged_bytes_def counted_items_def charged_def counted_item_def reservation_over_def split: reservation.splits)

text \<open>
  C22: however reservations and releases of any number of leases interleave, the counter is the sum of the
  bytes of the leases charged and never exceeds the capacity, nor does its peak; the counter of items is the
  number of leases; no subtraction goes below zero. A refusal tells the truth about a count that the ledger
  has had. When every reservation is over, all credit has been returned.
\<close>

theorem credits_never_overcommit:
  assumes "ledger_step\<^sup>*\<^sup>* (ledger_new capacity, rs0) (l, rs)" and "list_all (\<lambda>p. p = Idle) rs0"
  shows "unat (l_reserved l) = charged_bytes rs \<and> charged_bytes rs \<le> unat capacity \<and> unat (l_items l) = counted_items rs
    \<and> l_peak_reserved l \<le> capacity \<and> \<not> l_underflow l
    \<and> (\<forall>bytes c. Refused (TooLarge bytes c) \<in> set rs \<longrightarrow> c = capacity \<and> capacity < bytes)
    \<and> (\<forall>bytes free c. Refused (Insufficient bytes free c) \<in> set rs \<longrightarrow> c = capacity \<and> free < bytes \<and> free \<le> capacity)
    \<and> (list_all reservation_over rs \<longrightarrow> l_reserved l = 0 \<and> l_items l = 0)"
proof -
  have ok: "ledger_ok capacity (l, rs)" by (rule ledger_reachable_ok [OF assms(1) ledger_new_ok [OF assms(2)]])
  then have facts: "unat (l_reserved l) = charged_bytes rs" "unat (l_items l) = counted_items rs" "\<not> l_underflow l"
    "l_peak_reserved l \<le> capacity" "l_reserved l \<le> capacity" "\<forall>p \<in> set rs. reservation_ok capacity p"
    by (auto simp: ledger_ok_def list_all_iff)
  moreover have "charged_bytes rs \<le> unat capacity" using facts(1,5) by (simp add: word_le_nat_alt)
  moreover have "l_reserved l = 0 \<and> l_items l = 0" if "list_all reservation_over rs"
    using over_charges_nothing [OF that] facts(1,2) by (simp add: unat_eq_0)
  ultimately show ?thesis by (auto simp: reservation_ok_def dest: bspec [OF facts(6)])
qed

text \<open>Two reservations compete for a ledger of four bytes.\<close>

definition contended_ledger :: ledger where
  "contended_ledger = (ledger_new 4)\<lparr>l_reserved := 3, l_reserved_values := {3, 0}\<rparr>"

lemma contended_run:
  "ledger_step\<^sup>*\<^sup>* (ledger_new 4, [Idle, Idle]) (contended_ledger, [Credited 3 3, Refused (Insufficient 2 1 4)])"
proof -
  let ?new = "ledger_new 4"
  have "reserve_step (?new, Idle) (?new, Observed 3 0)"
    by (rule reserve_step.load_reserved) (simp_all add: ledger_new_def)
  then have "ledger_step (?new, [Idle, Idle]) (?new, [Observed 3 0, Idle])"
    using ledger_step.intros [of 0 "[Idle, Idle]"] by simp
  moreover have "reserve_step (?new, Observed 3 0) (contended_ledger, Credited 3 3)"
    using reserve_step.reserve [of 3 ?new 0]
    by (simp add: ledger_new_def available_def saturating_minus_def contended_ledger_def set_reserved_def)
  then have "ledger_step (?new, [Observed 3 0, Idle]) (contended_ledger, [Credited 3 3, Idle])"
    using ledger_step.intros [of 0 "[Observed 3 0, Idle]"] by simp
  moreover have "reserve_step (contended_ledger, Idle) (contended_ledger, Observed 2 3)"
    by (rule reserve_step.load_reserved) (simp_all add: ledger_new_def contended_ledger_def)
  then have "ledger_step (contended_ledger, [Credited 3 3, Idle]) (contended_ledger, [Credited 3 3, Observed 2 3])"
    using ledger_step.intros [of 1 "[Credited 3 3, Idle]"] by simp
  moreover have "reserve_step (contended_ledger, Observed 2 3) (contended_ledger, Refused (Insufficient 2 1 4))"
    using reserve_step.insufficient [of contended_ledger 3 2]
    by (simp add: contended_ledger_def ledger_new_def available_def saturating_minus_def)
  then have "ledger_step (contended_ledger, [Credited 3 3, Observed 2 3]) (contended_ledger, [Credited 3 3, Refused (Insufficient 2 1 4)])"
    using ledger_step.intros [of 1 "[Credited 3 3, Observed 2 3]"] by simp
  ultimately show ?thesis by (meson converse_rtranclp_into_rtranclp rtranclp.rtrancl_refl)
qed

theorem credits_never_overcommit_witness:
  "ledger_step\<^sup>*\<^sup>* (ledger_new 4, [Idle, Idle]) (contended_ledger, [Credited 3 3, Refused (Insufficient 2 1 4)])
   \<and> charged_bytes [Credited 3 3, Refused (Insufficient 2 1 4)] \<le> 4 \<and> \<not> l_underflow contended_ledger"
  using credits_never_overcommit [OF contended_run] contended_run by simp

end
