(* ===== verification/RuntimeBudget.thy ===== *)
theory RuntimeBudget
  imports Lines GraphIo "HOL-Library.Word"
begin

text \<open>
  What the index runtime decides before it starts workers, and the buffers its readers reuse
  (\<open>graphoxide-index-runtime/src/lib.rs\<close>): the memory limits it finds, the partition of the budget, the
  layout of workers, and the pool of one I/O worker. The contents of files under \<open>/proc\<close> and \<open>/sys\<close>
  are a parameter. \<open>usize\<close> has 64 bits.
\<close>

section \<open>Limits of memory\<close>

datatype io_backend_selection = AutoBackend | Threaded | IoUring

datatype effective_io_backend = EffectiveThreaded

record io_backend_resolution =
  requested_backend :: io_backend_selection
  effective_backend :: effective_io_backend
  fallback_reason :: "string option"

definition resolve_backend :: "io_backend_selection \<Rightarrow> io_backend_resolution" where
  "resolve_backend b =
     \<lparr>requested_backend = b, effective_backend = EffectiveThreaded,
      fallback_reason = (case b of IoUring \<Rightarrow> Some ''io_uring support is not linked into graphoxide-index-runtime'' | _ \<Rightarrow> None)\<rparr>"

record memory_limits =
  host_memory :: "nat option"
  cgroup_memory :: "nat option"

definition min_memory_budget :: nat where "min_memory_budget = 512 * 1024 * 1024"
definition max_memory_budget :: nat where "max_memory_budget = 8 * 1024 * 1024 * 1024"

fun least :: "nat list \<Rightarrow> nat option" where
  "least [] = None"
| "least (x # xs) = (case least xs of None \<Rightarrow> Some x | Some y \<Rightarrow> Some (min x y))"

fun present :: "'a option \<Rightarrow> 'a list" where
  "present None = []"
| "present (Some x) = [x]"

definition effective_memory_bytes :: "memory_limits \<Rightarrow> nat option" where
  "effective_memory_bytes l = least (filter (\<lambda>n. n > 0) (present (host_memory l) @ present (cgroup_memory l)))"

definition automatic_budget_bytes :: "memory_limits \<Rightarrow> nat" where
  "automatic_budget_bytes l =
     (case effective_memory_bytes l of
        None \<Rightarrow> min_memory_budget
      | Some limit \<Rightarrow> min (min (limit div 8) max_memory_budget) limit)"

definition addressable_memory_bytes :: "nat \<Rightarrow> nat option" where
  "addressable_memory_bytes n = (if 0 < n \<and> n < 2 ^ 64 then Some n else None)"

definition macos_memory_limit :: "int \<Rightarrow> nat \<Rightarrow> nat \<Rightarrow> nat option" where
  "macos_memory_limit status bytes_len n =
     (if status \<noteq> 0 \<or> bytes_len \<noteq> 8 then None else addressable_memory_bytes n)"

definition windows_memory_limit :: "bool \<Rightarrow> nat \<Rightarrow> nat \<Rightarrow> nat option" where
  "windows_memory_limit succeeded physical page_file =
     (if \<not> succeeded then None
      else Option.bind (least (filter (\<lambda>n. n > 0) [physical, page_file])) addressable_memory_bytes)"

definition ascii_words :: "string \<Rightarrow> string list" where
  "ascii_words s =
     filter (\<lambda>w. w \<noteq> []) (split_on (CHR '' '') (map (\<lambda>c. if ascii_whitespace c then CHR '' '' else c) s))"

definition meminfo_line :: "string \<Rightarrow> nat option" where
  "meminfo_line line =
     (case ascii_words line of
        name # amount # _ \<Rightarrow>
          if name = ''MemTotal:''
          then Option.bind (parse_u64 amount) (\<lambda>k. if k * 1024 < 2 ^ 64 then Some (k * 1024) else None)
          else None
      | _ \<Rightarrow> None)"

definition parse_meminfo_total_bytes :: "string \<Rightarrow> nat option" where
  "parse_meminfo_total_bytes contents =
     (case List.map_filter meminfo_line (text_lines contents) of [] \<Rightarrow> None | n # _ \<Rightarrow> Some n)"

text \<open>\<open>str::parse::<u128>()\<close>.\<close>

definition parse_u128 :: "string \<Rightarrow> nat option" where
  "parse_u128 s =
     (let ds = (case s of [] \<Rightarrow> [] | c # cs \<Rightarrow> if c = CHR ''+'' then cs else s)
      in if ds = [] \<or> \<not> list_all ascii_digit ds \<or> digits_value ds \<ge> 2 ^ 128 then None else Some (digits_value ds))"

definition parse_cgroup_memory_limit :: "string \<Rightarrow> nat option" where
  "parse_cgroup_memory_limit contents =
     (let value = trim contents
      in if value = [] \<or> value = ''max'' then None
         else case parse_u128 value of
           None \<Rightarrow> None
         | Some limit \<Rightarrow> if limit \<ge> 2 ^ 60 then None else if limit > 0 then Some limit else None)"

definition joined_path :: "string \<Rightarrow> string \<Rightarrow> string" where
  "joined_path base p =
     (if path_is_absolute p then p else if base = [] \<or> ends_with base ''/'' then base @ p else base @ ''/'' @ p)"

definition cgroup_line_path :: "string \<Rightarrow> string option" where
  "cgroup_line_path line =
     (case split_on (CHR '':'') line of
        _ # controllers # rest \<Rightarrow>
          if rest = [] then None
          else
            let relative = trim_start_by (\<lambda>c. c = CHR ''/'') (join_with '':'' rest)
            in if controllers = [] then Some (joined_path (joined_path ''/sys/fs/cgroup'' relative) ''memory.max'')
               else if ''memory'' \<in> set (split_on (CHR '','') controllers)
               then Some (joined_path (joined_path ''/sys/fs/cgroup/memory'' relative) ''memory.limit_in_bytes'')
               else None
      | _ \<Rightarrow> None)"

definition cgroup_memory_limit_paths :: "string \<Rightarrow> string list" where
  "cgroup_memory_limit_paths proc_self_cgroup = List.map_filter cgroup_line_path (text_lines proc_self_cgroup)"

text \<open>Paths are compared by their components.\<close>

definition discover_cgroup_memory_limit :: "((nat \<times> string) list \<Rightarrow> string option) \<Rightarrow> nat option" where
  "discover_cgroup_memory_limit read_path =
     (let paths = [''/sys/fs/cgroup/memory.max'', ''/sys/fs/cgroup/memory/memory.limit_in_bytes'']
            @ (case read_path (path_components ''/proc/self/cgroup'') of
                 None \<Rightarrow> [] | Some contents \<Rightarrow> cgroup_memory_limit_paths contents)
      in least (List.map_filter (\<lambda>p. Option.bind (read_path p) parse_cgroup_memory_limit)
           (remdups_adj (sort (map path_components paths)))))"

definition discover_limits :: "nat option \<Rightarrow> ((nat \<times> string) list \<Rightarrow> string option) \<Rightarrow> memory_limits" where
  "discover_limits native read_path =
     \<lparr>host_memory = (case native of
         None \<Rightarrow> Option.bind (read_path (path_components ''/proc/meminfo'')) parse_meminfo_total_bytes
       | Some n \<Rightarrow> Some n),
      cgroup_memory = discover_cgroup_memory_limit read_path\<rparr>"

section \<open>The budget and the layout of workers\<close>

record memory_budget =
  total_bytes :: nat
  io_buffers_bytes :: nat
  ready_inputs_bytes :: nat
  cpu_arenas_bytes :: nat
  cache_and_runs_bytes :: nat
  query_reserve_bytes :: nat
  emergency_reserve_bytes :: nat

definition from_total :: "nat \<Rightarrow> memory_budget" where
  "from_total n =
     (let allocated = saturating_add (saturating_add (saturating_add (saturating_add (n div 5) (n div 5)) (n div 5)) (n div 4)) (n div 20)
      in \<lparr>total_bytes = n, io_buffers_bytes = n div 5, ready_inputs_bytes = n div 5, cpu_arenas_bytes = n div 5,
          cache_and_runs_bytes = n div 4, query_reserve_bytes = n div 20, emergency_reserve_bytes = n - allocated\<rparr>)"

record runtime_config =
  memory_budget_bytes :: nat
  config_io_workers :: nat
  config_compute_workers :: nat
  config_io_backend :: io_backend_selection
  config_read_batch_bytes :: nat
  max_input_bytes :: nat

definition from_limits :: "nat \<Rightarrow> memory_limits \<Rightarrow> runtime_config" where
  "from_limits available_cpus limits =
     (let cpus = max available_cpus 1;
          io_workers = (if cpus \<le> 4 then 1 else min 8 ((cpus + 3) div 4))
      in \<lparr>memory_budget_bytes = automatic_budget_bytes limits, config_io_workers = io_workers,
          config_compute_workers = max (cpus - (1 + io_workers)) 1, config_io_backend = AutoBackend,
          config_read_batch_bytes = 256 * 1024, max_input_bytes = 64 * 1024 * 1024\<rparr>)"

definition config_budget :: "runtime_config \<Rightarrow> memory_budget" where
  "config_budget c = from_total (memory_budget_bytes c)"

datatype config_error =
    ZeroMemoryBudget | ZeroIoWorkers | ZeroComputeWorkers | ZeroReadBatch | ReadyInputBudgetTooSmall

definition validate_config :: "runtime_config \<Rightarrow> config_error option" where
  "validate_config c =
     (if memory_budget_bytes c = 0 then Some ZeroMemoryBudget
      else if config_io_workers c = 0 then Some ZeroIoWorkers
      else if config_compute_workers c = 0 then Some ZeroComputeWorkers
      else if config_read_batch_bytes c = 0 then Some ZeroReadBatch
      else if ready_inputs_bytes (config_budget c) < 4096 then Some ReadyInputBudgetTooSmall
      else None)"

record worker_layout =
  io_workers :: nat
  compute_workers :: nat
  io_pool_bytes :: nat
  read_batch_bytes :: nat

definition clamp_workers :: "nat \<Rightarrow> nat" where
  "clamp_workers n = min (max n 1) 256"

definition bounded_layout :: "runtime_config \<Rightarrow> nat \<Rightarrow> worker_layout" where
  "bounded_layout c request_count =
     (let budget = config_budget c;
          requests = max request_count 1;
          max_io_by_pool = max (io_buffers_bytes budget div 4096) 1;
          max_compute_by_arena = max (cpu_arenas_bytes budget div (64 * 1024)) 1;
          max_ready_edges = max (ready_inputs_bytes budget div 4096) 1;
          io = clamp_workers (min (min (min (config_io_workers c) requests) max_io_by_pool) max_ready_edges);
          compute = clamp_workers (min (min (min (config_compute_workers c) requests) max_compute_by_arena)
            (max (max_ready_edges div io) 1));
          pool = max (io_buffers_bytes budget div io) 4096
      in \<lparr>io_workers = io, compute_workers = compute, io_pool_bytes = pool,
          read_batch_bytes = max (min (config_read_batch_bytes c) pool) 1\<rparr>)"

record execution_evidence =
  admitted_requests :: nat
  evidence_layout :: worker_layout
  evidence_budget :: memory_budget

definition execution_evidence_of :: "runtime_config \<Rightarrow> nat \<Rightarrow> execution_evidence" where
  "execution_evidence_of c request_count =
     \<lparr>admitted_requests = request_count, evidence_layout = bounded_layout c request_count, evidence_budget = config_budget c\<rparr>"

record io_telemetry =
  sources_selected :: nat
  source_bytes_selected :: nat
  sources_read :: nat
  source_bytes_read :: nat
  sources_delivered :: nat
  source_bytes_delivered :: nat
  source_bytes_avoided :: nat
  read_failures :: nat
  peak_ready_bytes :: nat
  peak_ready_items :: nat

definition merge_telemetry :: "io_telemetry \<Rightarrow> io_telemetry \<Rightarrow> io_telemetry" where
  "merge_telemetry a b =
     \<lparr>sources_selected = saturating_add (sources_selected a) (sources_selected b),
      source_bytes_selected = saturating_add (source_bytes_selected a) (source_bytes_selected b),
      sources_read = saturating_add (sources_read a) (sources_read b),
      source_bytes_read = saturating_add (source_bytes_read a) (source_bytes_read b),
      sources_delivered = saturating_add (sources_delivered a) (sources_delivered b),
      source_bytes_delivered = saturating_add (source_bytes_delivered a) (source_bytes_delivered b),
      source_bytes_avoided = saturating_add (source_bytes_avoided a) (source_bytes_avoided b),
      read_failures = saturating_add (read_failures a) (read_failures b),
      peak_ready_bytes = max (peak_ready_bytes a) (peak_ready_bytes b),
      peak_ready_items = max (peak_ready_items a) (peak_ready_items b)\<rparr>"

text \<open>Workers may be joined in any order.\<close>

lemma saturating_add_assoc: "saturating_add (saturating_add a b) c = saturating_add a (saturating_add b c)"
  by (simp add: saturating_add_def min_def)

lemma merge_telemetry_order:
  "merge_telemetry (merge_telemetry a b) c = merge_telemetry a (merge_telemetry b c)"
  "merge_telemetry a b = merge_telemetry b a"
  by (simp_all add: merge_telemetry_def saturating_add_assoc max.assoc)
    (simp add: saturating_add_def add.commute max.commute)

section \<open>Buffers\<close>

datatype buffer_class = FourKiB | SixteenKiB | SixtyFourKiB | TwoFiftySixKiB | OneMiB | Exact nat

definition for_capacity :: "nat \<Rightarrow> buffer_class" where
  "for_capacity n =
     (if n \<le> 4096 then FourKiB else if n \<le> 16384 then SixteenKiB else if n \<le> 65536 then SixtyFourKiB
      else if n \<le> 262144 then TwoFiftySixKiB else if n \<le> 1048576 then OneMiB else Exact n)"

fun class_capacity :: "buffer_class \<Rightarrow> nat" where
  "class_capacity FourKiB = 4096"
| "class_capacity SixteenKiB = 16384"
| "class_capacity SixtyFourKiB = 65536"
| "class_capacity TwoFiftySixKiB = 262144"
| "class_capacity OneMiB = 1048576"
| "class_capacity (Exact n) = n"

text \<open>A vector is its bytes and the capacity of its allocation. Allocating for a capacity may give more; how
  much is a parameter.\<close>

record byte_vec =
  vec_bytes :: "8 word list"
  vec_capacity :: nat

record buffer_lease =
  lease_class :: buffer_class
  lease_vec :: byte_vec

text \<open>The buckets of the pool are one map from the classes that are pooled; the last element of a bucket is
  popped first.\<close>

record buffer_pool =
  retained_bytes :: nat
  max_retained_bytes :: nat
  buckets :: "buffer_class \<Rightarrow> byte_vec list"

definition pool_new :: "nat \<Rightarrow> buffer_pool" where
  "pool_new n = \<lparr>retained_bytes = 0, max_retained_bytes = n, buckets = \<lambda>_. []\<rparr>"

definition pooled :: "buffer_class \<Rightarrow> bool" where
  "pooled c = (case c of Exact _ \<Rightarrow> False | _ \<Rightarrow> True)"

definition zero_filled :: "(nat \<Rightarrow> nat) \<Rightarrow> nat \<Rightarrow> byte_vec \<Rightarrow> byte_vec" where
  "zero_filled allocated n v =
     \<lparr>vec_bytes = take n (vec_bytes v) @ replicate (n - length (vec_bytes v)) 0,
      vec_capacity = (if n \<le> vec_capacity v then vec_capacity v else allocated n)\<rparr>"

definition pool_take :: "(nat \<Rightarrow> nat) \<Rightarrow> nat \<Rightarrow> buffer_pool \<Rightarrow> buffer_lease \<times> buffer_pool" where
  "pool_take allocated requested p =
     (let c = for_capacity requested; n = class_capacity c;
          bucket = (if pooled c then buckets p c else [])
      in if bucket = []
         then (\<lparr>lease_class = c, lease_vec = zero_filled allocated n \<lparr>vec_bytes = [], vec_capacity = allocated n\<rparr>\<rparr>, p)
         else (\<lparr>lease_class = c, lease_vec = zero_filled allocated n (last bucket)\<rparr>,
               p\<lparr>buckets := (buckets p)(c := butlast bucket), retained_bytes := retained_bytes p - n\<rparr>))"

definition pool_recycle :: "buffer_lease \<Rightarrow> buffer_pool \<Rightarrow> buffer_pool" where
  "pool_recycle b p =
     (let c = lease_class b; n = class_capacity c
      in if n > max_retained_bytes p - retained_bytes p \<or> vec_capacity (lease_vec b) \<noteq> n \<or> \<not> pooled c then p
         else p\<lparr>buckets := (buckets p)(c := buckets p c @ [\<lparr>vec_bytes = [], vec_capacity = n\<rparr>]),
                retained_bytes := saturating_add (retained_bytes p) n\<rparr>)"

section \<open>The pool stays within its budget and never leaks a source\<close>

definition pool_classes :: "buffer_class list" where
  "pool_classes = [FourKiB, SixteenKiB, SixtyFourKiB, TwoFiftySixKiB, OneMiB]"

definition bucket_bytes :: "buffer_pool \<Rightarrow> nat" where
  "bucket_bytes p = (\<Sum>c\<leftarrow>pool_classes. length (buckets p c) * class_capacity c)"

definition pool_ok :: "nat \<Rightarrow> buffer_pool \<Rightarrow> bool" where
  "pool_ok limit p \<longleftrightarrow>
     max_retained_bytes p = limit \<and> retained_bytes p = bucket_bytes p \<and> retained_bytes p \<le> limit
     \<and> (\<forall>c v. v \<in> set (buckets p c) \<longrightarrow> vec_bytes v = [] \<and> vec_capacity v = class_capacity c)"

lemma bucket_bytes_change:
  assumes "pooled c"
  shows "bucket_bytes (p\<lparr>buckets := (buckets p)(c := vs)\<rparr>) + length (buckets p c) * class_capacity c
    = bucket_bytes p + length vs * class_capacity c"
  using assms by (cases c) (simp_all add: pooled_def bucket_bytes_def pool_classes_def)

lemma bucket_bytes_retained [simp]: "bucket_bytes (p\<lparr>retained_bytes := n\<rparr>) = bucket_bytes p"
  by (simp add: bucket_bytes_def)

lemma for_capacity_holds: "n \<le> class_capacity (for_capacity n)"
  by (simp add: for_capacity_def)

lemma pool_new_ok: "pool_ok limit (pool_new limit)"
  by (simp add: pool_ok_def pool_new_def bucket_bytes_def pool_classes_def)

lemma pool_take_ok:
  assumes ok: "pool_ok limit p" and taken: "pool_take allocated requested p = (b, p')"
  shows "pool_ok limit p'" and "vec_bytes (lease_vec b) = replicate (class_capacity (for_capacity requested)) 0"
    and "lease_class b = for_capacity requested"
proof -
  let ?c = "for_capacity requested" and ?n = "class_capacity (for_capacity requested)"
  define bucket where "bucket = (if pooled ?c then buckets p ?c else [])"
  have run: "pool_take allocated requested p =
      (if bucket = []
       then (\<lparr>lease_class = ?c, lease_vec = zero_filled allocated ?n \<lparr>vec_bytes = [], vec_capacity = allocated ?n\<rparr>\<rparr>, p)
       else (\<lparr>lease_class = ?c, lease_vec = zero_filled allocated ?n (last bucket)\<rparr>,
             p\<lparr>buckets := (buckets p)(?c := butlast bucket), retained_bytes := retained_bytes p - ?n\<rparr>))"
    by (simp add: pool_take_def Let_def bucket_def)
  show "lease_class b = ?c" using taken by (auto simp: run split: if_splits)
  show "vec_bytes (lease_vec b) = replicate ?n 0"
  proof (cases "bucket = []")
    case True
    then show ?thesis using taken by (auto simp: run zero_filled_def)
  next
    case False
    then have "last bucket \<in> set (buckets p ?c)" using last_in_set [OF False] by (auto simp: bucket_def split: if_splits)
    then have "vec_bytes (last bucket) = []" using ok by (simp add: pool_ok_def)
    then show ?thesis using taken False by (auto simp: run zero_filled_def)
  qed
  show "pool_ok limit p'"
  proof (cases "bucket = []")
    case True
    then show ?thesis using taken ok by (simp add: run)
  next
    case False
    then have pooled: "pooled ?c" and bucket: "buckets p ?c = bucket" by (auto simp: bucket_def split: if_splits)
    have "bucket_bytes (p\<lparr>buckets := (buckets p)(?c := butlast bucket)\<rparr>) + length bucket * ?n = bucket_bytes p + (length bucket - 1) * ?n"
      using bucket_bytes_change [OF pooled, of p "butlast bucket"] by (simp add: bucket)
    moreover have "length bucket * ?n = ?n + (length bucket - 1) * ?n" using False by (cases bucket) simp_all
    ultimately have "bucket_bytes (p\<lparr>buckets := (buckets p)(?c := butlast bucket)\<rparr>) = bucket_bytes p - ?n" by linarith
    moreover have "vec_bytes v = []" "vec_capacity v = ?n" if "v \<in> set (butlast bucket)" for v
      using ok in_set_butlastD [OF that] by (simp_all add: pool_ok_def bucket [symmetric])
    ultimately show ?thesis
      using taken ok False by (auto simp: run pool_ok_def split: if_splits)
  qed
qed

lemma pool_recycle_ok:
  assumes ok: "pool_ok limit p" and small: "limit < 2 ^ 64"
  shows "pool_ok limit (pool_recycle b p)"
proof -
  let ?c = "lease_class b" and ?n = "class_capacity (lease_class b)"
  show ?thesis
  proof (cases "?n > max_retained_bytes p - retained_bytes p \<or> vec_capacity (lease_vec b) \<noteq> ?n \<or> \<not> pooled ?c")
    case True
    then have "pool_recycle b p = p" unfolding pool_recycle_def Let_def by (rule if_P)
    then show ?thesis using ok by simp
  next
    case False
    let ?v = "\<lparr>vec_bytes = [], vec_capacity = ?n\<rparr>"
    have run: "pool_recycle b p = p\<lparr>buckets := (buckets p)(?c := buckets p ?c @ [?v]), retained_bytes := saturating_add (retained_bytes p) ?n\<rparr>"
      unfolding pool_recycle_def Let_def using False by (rule if_not_P)
    have facts: "max_retained_bytes p = limit" "retained_bytes p = bucket_bytes p" "retained_bytes p \<le> limit"
      using ok by (simp_all add: pool_ok_def)
    have room: "retained_bytes p + ?n \<le> limit" using False facts by auto
    then have exact: "saturating_add (retained_bytes p) ?n = retained_bytes p + ?n"
      using small by (simp add: saturating_add_def usize_max_def)
    have "bucket_bytes (p\<lparr>buckets := (buckets p)(?c := buckets p ?c @ [?v])\<rparr>) = bucket_bytes p + ?n"
      using bucket_bytes_change [of ?c p "buckets p ?c @ [?v]"] False by simp
    then show ?thesis using ok room facts(1) by (auto simp: run exact [unfolded facts(2)] pool_ok_def facts(2))
  qed
qed

text \<open>What one I/O worker does with its pool: it takes buffers and gives back buffers with any content.\<close>

datatype pool_act = TakeBuffer nat | RecycleBuffer buffer_lease

fun pool_run :: "(nat \<Rightarrow> nat) \<Rightarrow> pool_act list \<Rightarrow> buffer_pool \<Rightarrow> (nat \<times> buffer_lease) list \<times> buffer_pool" where
  "pool_run allocated [] p = ([], p)"
| "pool_run allocated (TakeBuffer n # acts) p =
     (let (b, p') = pool_take allocated n p; (taken, p'') = pool_run allocated acts p' in ((n, b) # taken, p''))"
| "pool_run allocated (RecycleBuffer b # acts) p = pool_run allocated acts (pool_recycle b p)"

lemma pool_run_ok:
  assumes "limit < 2 ^ 64"
  shows "pool_ok limit p \<Longrightarrow> pool_run allocated acts p = (taken, p') \<Longrightarrow>
    pool_ok limit p' \<and> list_all (\<lambda>(n, b). vec_bytes (lease_vec b) = replicate (class_capacity (for_capacity n)) 0) taken"
proof (induction acts arbitrary: p taken p')
  case (Cons act acts)
  show ?case
  proof (cases act)
    case (TakeBuffer n)
    obtain b q where q: "pool_take allocated n p = (b, q)" by fastforce
    obtain rest q' where rest: "pool_run allocated acts q = (rest, q')" by fastforce
    have "taken = (n, b) # rest" "p' = q'" using Cons.prems(2) by (simp_all add: TakeBuffer q rest)
    then show ?thesis using Cons.IH [OF pool_take_ok(1) [OF Cons.prems(1) q] rest] pool_take_ok(2) [OF Cons.prems(1) q] by simp
  next
    case (RecycleBuffer b)
    then show ?thesis using Cons.IH [OF pool_recycle_ok [OF Cons.prems(1) assms]] Cons.prems(2) by simp
  qed
qed simp

text \<open>A pool keeps at most its limit, and every buffer it hands out is zero up to its class, whatever the
  buffers held that were given back.\<close>

lemma pool_reuses_cleanly:
  assumes "limit < 2 ^ 64" and "pool_run allocated acts (pool_new limit) = (taken, p)"
  shows "retained_bytes p = bucket_bytes p \<and> retained_bytes p \<le> limit
    \<and> (\<forall>(n, b) \<in> set taken. n \<le> length (vec_bytes (lease_vec b)) \<and> set (vec_bytes (lease_vec b)) \<subseteq> {0})"
proof -
  have ok: "pool_ok limit p" and taken: "list_all (\<lambda>(n, b). vec_bytes (lease_vec b) = replicate (class_capacity (for_capacity n)) 0) taken"
    using pool_run_ok [OF assms(1) pool_new_ok assms(2)] by (rule conjunct1, rule conjunct2)
  have "n \<le> length (vec_bytes (lease_vec b)) \<and> set (vec_bytes (lease_vec b)) \<subseteq> {0}" if "(n, b) \<in> set taken" for n b
  proof -
    have "vec_bytes (lease_vec b) = replicate (class_capacity (for_capacity n)) 0"
      using bspec [OF taken [unfolded list_all_iff] that] by (simp only: prod.case)
    then show ?thesis using for_capacity_holds [of n] by auto
  qed
  then show ?thesis using ok by (auto simp: pool_ok_def)
qed

section \<open>The layout stays within the budget\<close>

lemma least_None [simp]: "least xs = None \<longleftrightarrow> xs = []"
  by (cases xs) (auto split: option.splits)

lemma least_le: "least xs = Some m \<Longrightarrow> x \<in> set xs \<Longrightarrow> m \<le> x"
proof (induction xs arbitrary: m)
  case (Cons y ys)
  then show ?case by (cases "least ys") (auto simp: min_le_iff_disj)
qed simp

text \<open>The automatic budget is within every limit that is known and not zero, and is the default only when
  there is none.\<close>

lemma automatic_budget_within_limits:
  "host_memory l = Some n \<Longrightarrow> 0 < n \<Longrightarrow> automatic_budget_bytes l \<le> n"
  "cgroup_memory l = Some n \<Longrightarrow> 0 < n \<Longrightarrow> automatic_budget_bytes l \<le> n"
proof -
  have "automatic_budget_bytes l \<le> n" if "n \<in> set (filter (\<lambda>n. n > 0) (present (host_memory l) @ present (cgroup_memory l)))" for n
  proof -
    have "effective_memory_bytes l \<noteq> None" using that unfolding effective_memory_bytes_def least_None by (metis empty_iff list.set(1))
    then obtain m where m: "effective_memory_bytes l = Some m" by blast
    then have "m \<le> n" using that unfolding effective_memory_bytes_def by (rule least_le)
    then show ?thesis by (simp add: automatic_budget_bytes_def m)
  qed
  then show "host_memory l = Some n \<Longrightarrow> 0 < n \<Longrightarrow> automatic_budget_bytes l \<le> n"
    "cgroup_memory l = Some n \<Longrightarrow> 0 < n \<Longrightarrow> automatic_budget_bytes l \<le> n"
    by simp_all
qed

lemma from_total_parts:
  assumes "n < 2 ^ 64"
  shows "io_buffers_bytes (from_total n) + ready_inputs_bytes (from_total n) + cpu_arenas_bytes (from_total n)
      + cache_and_runs_bytes (from_total n) + query_reserve_bytes (from_total n) + emergency_reserve_bytes (from_total n) = n"
    and "n div 10 \<le> emergency_reserve_bytes (from_total n)"
proof -
  have parts: "n div 5 + n div 5 + n div 5 + n div 4 + n div 20 + n div 10 \<le> n"
  proof -
    have "5 * (n div 5) \<le> n" "4 * (n div 4) \<le> n" "20 * (n div 20) \<le> n" "10 * (n div 10) \<le> n" by simp_all
    then show ?thesis by linarith
  qed
  then have "n div 5 + n div 5 + n div 5 + n div 4 + n div 20 \<le> usize_max" using assms by (simp add: usize_max_def)
  then have exact: "saturating_add (saturating_add (saturating_add (saturating_add (n div 5) (n div 5)) (n div 5)) (n div 4)) (n div 20)
      = n div 5 + n div 5 + n div 5 + n div 4 + n div 20"
    by (simp add: saturating_add_def)
  then show "io_buffers_bytes (from_total n) + ready_inputs_bytes (from_total n) + cpu_arenas_bytes (from_total n)
      + cache_and_runs_bytes (from_total n) + query_reserve_bytes (from_total n) + emergency_reserve_bytes (from_total n) = n"
    using parts by (simp_all add: from_total_def Let_def)
  have "n div 10 + (n div 5 + n div 5 + n div 5 + n div 4 + n div 20) \<le> n" using parts by linarith
  then have "n div 10 \<le> n - (n div 5 + n div 5 + n div 5 + n div 4 + n div 20)" by (rule add_le_imp_le_diff)
  then show "n div 10 \<le> emergency_reserve_bytes (from_total n)" by (simp only: exact from_total_def Let_def memory_budget.simps)
qed

lemma clamp_workers_bounds:
  "1 \<le> clamp_workers n" "clamp_workers n \<le> 256" "1 \<le> n \<Longrightarrow> n \<le> k \<Longrightarrow> clamp_workers n \<le> k"
  by (simp_all add: clamp_workers_def)

text \<open>
  C23: the partitions of a budget add up to it and leave a tenth for emergencies. A configuration that is
  accepted gets between one worker and the workers it asks for, never more than requests; the pools of the
  I/O workers fit into their partition, every queue between an I/O and a compute worker has its 4 KiB in the
  partition of ready inputs, each compute worker has its 64 KiB unless it is alone, and a read never exceeds
  the pool it fills.
\<close>

theorem layout_within_budget:
  assumes "validate_config c = None" and "memory_budget_bytes c < 2 ^ 64"
  shows "let b = config_budget c; l = bounded_layout c requests in
    io_buffers_bytes b + ready_inputs_bytes b + cpu_arenas_bytes b + cache_and_runs_bytes b + query_reserve_bytes b
      + emergency_reserve_bytes b = memory_budget_bytes c
    \<and> memory_budget_bytes c div 10 \<le> emergency_reserve_bytes b
    \<and> 1 \<le> io_workers l \<and> io_workers l \<le> min (config_io_workers c) (min (max requests 1) 256)
    \<and> 1 \<le> compute_workers l \<and> compute_workers l \<le> min (config_compute_workers c) (min (max requests 1) 256)
    \<and> io_workers l * io_pool_bytes l \<le> io_buffers_bytes b
    \<and> io_workers l * compute_workers l * 4096 \<le> ready_inputs_bytes b
    \<and> (compute_workers l = 1 \<or> compute_workers l * 65536 \<le> cpu_arenas_bytes b)
    \<and> 1 \<le> read_batch_bytes l \<and> read_batch_bytes l \<le> io_pool_bytes l"
proof -
  define m where "m = memory_budget_bytes c div 5"
  define edges where "edges = m div 4096"
  define io where "io = io_workers (bounded_layout c requests)"
  define compute where "compute = compute_workers (bounded_layout c requests)"
  have budget: "io_buffers_bytes (config_budget c) = m" "ready_inputs_bytes (config_budget c) = m" "cpu_arenas_bytes (config_budget c) = m"
    by (simp_all add: config_budget_def from_total_def Let_def m_def)
  have accepted: "0 < config_io_workers c" "0 < config_compute_workers c" "0 < config_read_batch_bytes c" "4096 \<le> m"
    using assms(1) by (auto simp: validate_config_def budget split: if_splits)
  have edges: "1 \<le> edges" "edges * 4096 \<le> m" using accepted(4) by (simp_all add: edges_def)
  have edges_max: "max (m div 4096) 1 = edges" using edges(1) by (simp add: edges_def)
  have io: "io = clamp_workers (min (min (min (config_io_workers c) (max requests 1)) edges) edges)"
    by (simp only: io_def bounded_layout_def Let_def budget worker_layout.simps edges_max)
  then have io_bounds: "1 \<le> io" "io \<le> config_io_workers c" "io \<le> max requests 1" "io \<le> 256" "io \<le> edges"
    unfolding io using clamp_workers_bounds accepted(1) edges(1) by simp_all
  have per_io: "1 \<le> edges div io" using io_bounds(1,5) by (simp add: Suc_le_eq div_greater_zero_iff)
  have compute: "compute = clamp_workers (min (min (min (config_compute_workers c) (max requests 1)) (max (m div 65536) 1)) (edges div io))"
    using max_absorb1 [OF per_io]
    by (simp only: compute_def bounded_layout_def Let_def budget worker_layout.simps edges_max io [symmetric]) simp
  define wanted where "wanted = min (min (min (config_compute_workers c) (max requests 1)) (max (m div 65536) 1)) (edges div io)"
  have wanted: "1 \<le> wanted" "wanted \<le> config_compute_workers c" "wanted \<le> max requests 1" "wanted \<le> edges div io"
    "wanted \<le> max (m div 65536) 1"
    using accepted(2) per_io by (auto simp: wanted_def min_le_iff_disj)
  have compute_bounds: "1 \<le> compute" "compute \<le> config_compute_workers c" "compute \<le> max requests 1" "compute \<le> 256"
    "compute \<le> edges div io" "compute \<le> max (m div 65536) 1"
    unfolding compute wanted_def [symmetric] by (rule clamp_workers_bounds wanted)+
  have "io * 4096 \<le> edges * 4096" using io_bounds(5) by simp
  then have "io * 4096 \<le> m" using edges(2) by linarith
  then have share: "4096 \<le> m div io" using io_bounds(1) by (simp add: less_eq_div_iff_mult_less_eq mult.commute)
  have pool: "io_pool_bytes (bounded_layout c requests) = m div io"
    using max_absorb1 [OF share]
    by (simp only: bounded_layout_def Let_def budget worker_layout.simps edges_max io [symmetric])
  have "io * compute \<le> io * (edges div io)" using compute_bounds(5) by simp
  then have "io * compute \<le> edges" by (rule le_trans) simp
  then have queues: "io * compute * 4096 \<le> m" using edges(2) by (meson le_trans mult_le_mono1)
  have arenas: "compute = 1 \<or> compute * 65536 \<le> m"
  proof (cases "m div 65536 \<le> 1")
    case True
    then show ?thesis using compute_bounds(1,6) by simp
  next
    case False
    then have "compute \<le> m div 65536" using compute_bounds(6) by simp
    then show ?thesis by (metis div_le_dividend dual_order.trans less_eq_div_iff_mult_less_eq zero_less_numeral)
  qed
  have read: "read_batch_bytes (bounded_layout c requests)
      = max (min (config_read_batch_bytes c) (io_pool_bytes (bounded_layout c requests))) 1"
    by (simp only: bounded_layout_def Let_def worker_layout.simps)
  have batch: "1 \<le> read_batch_bytes (bounded_layout c requests)"
    "read_batch_bytes (bounded_layout c requests) \<le> io_pool_bytes (bounded_layout c requests)"
    unfolding read pool using share by simp_all
  have total: "io_buffers_bytes (config_budget c) + ready_inputs_bytes (config_budget c) + cpu_arenas_bytes (config_budget c)
      + cache_and_runs_bytes (config_budget c) + query_reserve_bytes (config_budget c) + emergency_reserve_bytes (config_budget c)
      = memory_budget_bytes c"
    "memory_budget_bytes c div 10 \<le> emergency_reserve_bytes (config_budget c)"
    using from_total_parts [OF assms(2)] by (simp_all only: config_budget_def)
  have capped: "io \<le> min (config_io_workers c) (min (max requests 1) 256)"
    "compute \<le> min (config_compute_workers c) (min (max requests 1) 256)"
    by (rule min.boundedI [OF io_bounds(2) min.boundedI [OF io_bounds(3,4)]])
      (rule min.boundedI [OF compute_bounds(2) min.boundedI [OF compute_bounds(3,4)]])
  have fill: "io * (m div io) \<le> m" by simp
  show ?thesis
    unfolding Let_def io_def [symmetric] compute_def [symmetric]
    by (intro conjI io_bounds(1) compute_bounds(1) capped batch
        total fill [folded pool budget(1)] queues [folded budget(2)] arenas [folded budget(3)])
qed

definition small_config :: runtime_config where
  "small_config =
     \<lparr>memory_budget_bytes = 1048576, config_io_workers = 8, config_compute_workers = 16, config_io_backend = AutoBackend,
      config_read_batch_bytes = 262144, max_input_bytes = 67108864\<rparr>"

theorem layout_within_budget_witness:
  "io_workers (bounded_layout small_config 100) * compute_workers (bounded_layout small_config 100) * 4096 \<le> 209715"
proof -
  have valid: "validate_config small_config = None" and small: "memory_budget_bytes small_config < 2 ^ 64"
    by (simp_all add: validate_config_def small_config_def config_budget_def from_total_def Let_def)
  have "ready_inputs_bytes (config_budget small_config) = 209715"
    by (simp add: small_config_def config_budget_def from_total_def Let_def)
  then show ?thesis using layout_within_budget [OF valid small, of 100] by (simp add: Let_def)
qed

end
