(* ===== verification/CacheFrames.thy ===== *)
theory CacheFrames
  imports Prelude "HOL-Library.Word"
begin

text \<open>
  The records of the runtime cache on disk (\<open>graphoxide-index-runtime/src/cache.rs\<close>): frames with a magic,
  a version, a length, a CRC and a digest, and the catalog records inside them. CRC-32 and BLAKE3 are
  parameters. Integers are little endian.
\<close>

type_synonym bytes = "8 word list"

section \<open>Integers as bytes\<close>

fun le_bytes :: "nat \<Rightarrow> nat \<Rightarrow> bytes" where
  "le_bytes 0 n = []"
| "le_bytes (Suc k) n = of_nat n # le_bytes k (n div 256)"

fun le_value :: "bytes \<Rightarrow> nat" where
  "le_value [] = 0"
| "le_value (b # bs) = unat b + 256 * le_value bs"

lemma length_le_bytes [simp]: "length (le_bytes k n) = k"
  by (induction k arbitrary: n) simp_all

lemma le_value_bytes: "n < 256 ^ k \<Longrightarrow> le_value (le_bytes k n) = n"
proof (induction k arbitrary: n)
  case (Suc k)
  then have "n div 256 < 256 ^ k" by (simp add: less_mult_imp_div_less mult.commute)
  then have "le_value (le_bytes k (n div 256)) = n div 256" by (rule Suc.IH)
  then show ?case by (simp add: unat_of_nat)
qed simp

lemma le_value_8 [simp]: "n < 2 ^ 64 \<Longrightarrow> le_value (le_bytes 8 n) = n"
  by (rule le_value_bytes) simp

lemma le_value_4 [simp]: "n < 2 ^ 32 \<Longrightarrow> le_value (le_bytes 4 n) = n"
  by (rule le_value_bytes) simp

section \<open>Keys\<close>

text \<open>The text whose digest is the key of an artifact.\<close>

definition key_domain :: bytes where
  "key_domain = map of_char ''graphoxide-runtime-cache-v1'' @ [0]"

definition key_text :: "bytes \<Rightarrow> bytes \<Rightarrow> bytes \<Rightarrow> bytes" where
  "key_text name path content = key_domain @ name @ [0] @ path @ [0] @ content"

definition versioned_key_text :: "bytes \<Rightarrow> 32 word \<Rightarrow> bytes \<Rightarrow> bytes \<Rightarrow> bytes" where
  "versioned_key_text name schema path content =
     key_domain @ name @ [0] @ le_bytes 4 (unat schema) @ [0] @ path @ [0] @ content"

lemma append_nul_inject: "0 \<notin> set xs \<Longrightarrow> 0 \<notin> set ys \<Longrightarrow> xs @ 0 # us = ys @ (0 :: 8 word) # vs \<longleftrightarrow> xs = ys \<and> us = vs"
  by (induction xs arbitrary: ys) (case_tac [!] ys, auto)

text \<open>Names and paths without a zero byte are told apart, whatever the content.\<close>

lemma versioned_key_text_inject:
  assumes "0 \<notin> set name" "0 \<notin> set name'" "0 \<notin> set path" "0 \<notin> set path'"
    and "versioned_key_text name schema path content = versioned_key_text name' schema' path' content'"
  shows "name = name' \<and> schema = schema' \<and> path = path' \<and> content = content'"
proof -
  have "name @ 0 # le_bytes 4 (unat schema) @ 0 # path @ 0 # content
      = name' @ 0 # le_bytes 4 (unat schema') @ 0 # path' @ 0 # content'"
    using assms(5) by (simp add: versioned_key_text_def)
  then have "name = name'" and rest: "le_bytes 4 (unat schema) @ 0 # path @ 0 # content = le_bytes 4 (unat schema') @ 0 # path' @ 0 # content'"
    using assms(1,2) by (simp_all add: append_nul_inject)
  from rest have "le_bytes 4 (unat schema) = le_bytes 4 (unat schema')" and "path @ 0 # content = path' @ 0 # content'"
    by simp_all
  moreover have "unat x < 2 ^ 32" for x :: "32 word" using unsigned_less [of x] by simp
  then have "unat schema = unat schema'"
    using calculation(1) le_value_4 by metis
  then have "schema = schema'" by (simp add: word_unat_eq_iff)
  ultimately show ?thesis using \<open>name = name'\<close> assms(3,4) by (simp add: append_nul_inject)
qed

section \<open>Frames\<close>

record hashes =
  crc :: "bytes \<Rightarrow> 32 word"
  digest :: "bytes \<Rightarrow> bytes"

definition hashes_ok :: "hashes \<Rightarrow> bool" where
  "hashes_ok h \<longleftrightarrow> (\<forall>b. length (digest h b) = 32)"

definition frame_magic :: bytes where
  "frame_magic = map of_char ''GOXCACHE''"

definition frame_header_len :: nat where "frame_header_len = 56"

definition frame :: "hashes \<Rightarrow> bytes \<Rightarrow> bytes" where
  "frame h payload =
     frame_magic @ [1, 1] @ [0, 0] @ le_bytes 8 (length payload) @ le_bytes 4 (unat (crc h payload))
     @ digest h payload @ payload"

definition unframe_at :: "hashes \<Rightarrow> bytes \<Rightarrow> nat \<Rightarrow> (bytes \<times> nat) option" where
  "unframe_at h bs max_payload_bytes =
     (if length bs < frame_header_len \<or> take 8 bs \<noteq> frame_magic then None
      else if bs ! 8 \<noteq> 1 \<or> bs ! 9 \<noteq> 1 \<or> take 2 (drop 10 bs) \<noteq> [0, 0] then None
      else
        let payload_len = le_value (take 8 (drop 12 bs))
        in if payload_len > max_payload_bytes then None
           else if frame_header_len + payload_len \<ge> 2 ^ 64 \<or> length bs < frame_header_len + payload_len then None
           else
             let payload = take payload_len (drop frame_header_len bs)
             in if unat (crc h payload) \<noteq> le_value (take 4 (drop 20 bs)) \<or> digest h payload \<noteq> take 32 (drop 24 bs)
                then None else Some (payload, frame_header_len + payload_len))"

definition runtime_cache_artifact_bytes :: "nat \<Rightarrow> nat" where
  "runtime_cache_artifact_bytes payload_bytes = min (frame_header_len + payload_bytes) (2 ^ 64 - 1)"

lemma length_magic [simp]: "length frame_magic = 8"
  by (simp add: frame_magic_def)

lemma length_frame [simp]: "hashes_ok h \<Longrightarrow> length (frame h p) = frame_header_len + length p"
  by (simp add: frame_def hashes_ok_def frame_header_len_def)

text \<open>The header of a frame, in pieces.\<close>

lemma frame_pieces:
  assumes "hashes_ok h"
  shows "take 8 (frame h p @ rest) = frame_magic" "(frame h p @ rest) ! 8 = 1" "(frame h p @ rest) ! 9 = 1"
    "take 2 (drop 10 (frame h p @ rest)) = [0, 0]" "take 8 (drop 12 (frame h p @ rest)) = le_bytes 8 (length p)"
    "take 4 (drop 20 (frame h p @ rest)) = le_bytes 4 (unat (crc h p))" "take 32 (drop 24 (frame h p @ rest)) = digest h p"
    "drop 56 (frame h p @ rest) = p @ rest"
  using assms by (simp_all add: frame_def hashes_ok_def nth_append)

lemma crc_small: "unat (c :: 32 word) < 2 ^ 32"
  using unsigned_less [of c] by simp

text \<open>A frame is read back whatever follows it.\<close>

lemma unframe_frame:
  assumes "hashes_ok h" and "length p \<le> max_payload_bytes" and "frame_header_len + length p < 2 ^ 64"
  shows "unframe_at h (frame h p @ rest) max_payload_bytes = Some (p, frame_header_len + length p)"
proof -
  have "length p < 2 ^ 64" using assms(3) by (simp add: frame_header_len_def)
  then show ?thesis
    using assms frame_pieces [OF assms(1), of p rest] le_value_4 [OF crc_small]
    by (simp add: unframe_at_def Let_def frame_header_len_def)
qed

text \<open>A frame that was cut off is not.\<close>

lemma unframe_cut:
  assumes "hashes_ok h" and "length p < 2 ^ 64" and "n < length (frame h p)"
  shows "unframe_at h (take n (frame h p)) max_payload_bytes = None"
proof (cases "n < frame_header_len")
  case True
  then have "length (take n (frame h p)) < frame_header_len" by simp
  then show ?thesis unfolding unframe_at_def by simp
next
  case False
  then have n: "56 \<le> n" by (simp add: frame_header_len_def)
  have "take 8 (drop 12 (take n (frame h p))) = take 8 (drop 12 (frame h p))"
    using n by (simp add: take_drop min_def)
  then have "le_value (take 8 (drop 12 (take n (frame h p)))) = length p"
    using frame_pieces(5) [OF assms(1), of p "[]"] assms(2) by simp
  then show ?thesis using assms(1,3) unfolding unframe_at_def by (simp add: Let_def)
qed

section \<open>Catalog records\<close>

record artifact_location =
  loc_generation :: nat
  loc_offset :: nat
  loc_frame_len :: nat
  loc_payload_digest :: bytes

definition catalog_record_len :: nat where "catalog_record_len = 89"
definition catalog_frame_len :: nat where "catalog_frame_len = 145"

definition encode_catalog_record :: "bytes \<Rightarrow> artifact_location \<Rightarrow> bytes" where
  "encode_catalog_record key l =
     [1] @ key @ le_bytes 8 (loc_generation l) @ le_bytes 8 (loc_offset l) @ le_bytes 8 (loc_frame_len l) @ loc_payload_digest l"

definition decode_catalog_record :: "bytes \<Rightarrow> (bytes \<times> artifact_location) option" where
  "decode_catalog_record p =
     (if length p \<noteq> catalog_record_len \<or> p ! 0 \<noteq> 1 then None
      else Some (take 32 (drop 1 p),
        \<lparr>loc_generation = le_value (take 8 (drop 33 p)), loc_offset = le_value (take 8 (drop 41 p)),
         loc_frame_len = le_value (take 8 (drop 49 p)), loc_payload_digest = take 32 (drop 57 p)\<rparr>))"

definition record_ok :: "bytes \<times> artifact_location \<Rightarrow> bool" where
  "record_ok r \<longleftrightarrow>
     length (fst r) = 32 \<and> loc_generation (snd r) < 2 ^ 64 \<and> loc_offset (snd r) < 2 ^ 64
     \<and> loc_frame_len (snd r) < 2 ^ 64 \<and> length (loc_payload_digest (snd r)) = 32"

lemma length_encode: "record_ok (k, l) \<Longrightarrow> length (encode_catalog_record k l) = catalog_record_len"
  by (simp add: record_ok_def encode_catalog_record_def catalog_record_len_def)

lemma decode_encode: "record_ok (k, l) \<Longrightarrow> decode_catalog_record (encode_catalog_record k l) = Some (k, l)"
  by (simp add: record_ok_def encode_catalog_record_def decode_catalog_record_def catalog_record_len_def)

definition catalog_frame :: "hashes \<Rightarrow> bytes \<times> artifact_location \<Rightarrow> bytes" where
  "catalog_frame h r = frame h (encode_catalog_record (fst r) (snd r))"

lemma length_catalog_frame: "hashes_ok h \<Longrightarrow> record_ok r \<Longrightarrow> length (catalog_frame h r) = catalog_frame_len"
  by (cases r) (simp add: catalog_frame_def length_encode frame_header_len_def catalog_record_len_def catalog_frame_len_def)

section \<open>Catalogs\<close>

lemma unframe_consumes: "unframe_at h bs n = Some (p, k) \<Longrightarrow> 0 < k"
  by (auto simp: unframe_at_def Let_def frame_header_len_def split: if_splits)

text \<open>The records up to the first that cannot be read, and the bytes they take.\<close>

function catalog_rows :: "hashes \<Rightarrow> bytes \<Rightarrow> (bytes \<times> artifact_location) list \<times> nat" where
  "catalog_rows h bs =
     (if bs = [] then ([], 0)
      else
        case unframe_at h bs catalog_record_len of
          None \<Rightarrow> ([], 0)
        | Some (payload, consumed) \<Rightarrow>
            (case decode_catalog_record payload of
               None \<Rightarrow> ([], 0)
             | Some r \<Rightarrow> (let (rows, n) = catalog_rows h (drop consumed bs) in (r # rows, consumed + n))))"
  by pat_completeness auto
termination
  by (relation "measure (\<lambda>(h, bs). length bs)") (auto dest: unframe_consumes)

declare catalog_rows.simps [simp del]

definition torn :: "hashes \<Rightarrow> bytes \<Rightarrow> bool" where
  "torn h bs \<longleftrightarrow> bs = [] \<or> unframe_at h bs catalog_record_len = None"

lemma catalog_rows_torn: "torn h bs \<Longrightarrow> catalog_rows h bs = ([], 0)"
  by (subst catalog_rows.simps) (auto simp: torn_def)

definition catalog_text :: "hashes \<Rightarrow> (bytes \<times> artifact_location) list \<Rightarrow> bytes" where
  "catalog_text h rows = concat (map (catalog_frame h) rows)"

lemma catalog_text_simps [simp]:
  "catalog_text h [] = []" "catalog_text h (r # rows) = catalog_frame h r @ catalog_text h rows"
  "catalog_text h (rows @ rows') = catalog_text h rows @ catalog_text h rows'"
  by (simp_all add: catalog_text_def)

text \<open>A catalog is read back up to a tail that was cut off.\<close>

lemma catalog_rows_text:
  assumes "hashes_ok h"
  shows "list_all record_ok rows \<Longrightarrow> torn h tail \<Longrightarrow>
    catalog_rows h (catalog_text h rows @ tail) = (rows, length (catalog_text h rows))"
proof (induction rows)
  case Nil
  then show ?case by (simp add: catalog_rows_torn)
next
  case (Cons r rows)
  obtain k l where r: "r = (k, l)" by fastforce
  then have ok: "record_ok (k, l)" and rest: "list_all record_ok rows" using Cons.prems(1) by simp_all
  let ?p = "encode_catalog_record k l"
  have len: "length ?p = catalog_record_len" by (rule length_encode [OF ok])
  have frame: "catalog_frame h r = frame h ?p" by (simp add: r catalog_frame_def)
  have whole: "length (catalog_frame h r) = frame_header_len + length ?p" using assms by (simp add: frame)
  have read: "unframe_at h (catalog_frame h r @ xs) catalog_record_len = Some (?p, frame_header_len + length ?p)" for xs
    unfolding frame by (rule unframe_frame [OF assms]) (simp_all add: len catalog_record_len_def frame_header_len_def)
  have "catalog_frame h r \<noteq> []" using whole by (auto simp: frame_header_len_def)
  then have "catalog_rows h (catalog_frame h r @ catalog_text h rows @ tail)
      = (let (rows', n) = catalog_rows h (catalog_text h rows @ tail) in (r # rows', frame_header_len + length ?p + n))"
    by (subst catalog_rows.simps) (simp add: read decode_encode [OF ok] r [symmetric] whole)
  then show ?case by (simp add: Cons.IH [OF rest Cons.prems(2)] whole)
qed

text \<open>Appending a record that may be cut off leaves the records before it, or those and the record.\<close>

lemma torn_append:
  assumes "hashes_ok h" and "record_ok r"
  shows "take n (catalog_frame h r) = catalog_frame h r \<or> torn h (take n (catalog_frame h r))"
proof (cases "n < length (catalog_frame h r)")
  case True
  have "length (encode_catalog_record (fst r) (snd r)) < 2 ^ 64"
    using length_encode [of "fst r" "snd r"] assms(2) by (simp add: catalog_record_len_def)
  then have "torn h (take n (catalog_frame h r))"
    unfolding torn_def catalog_frame_def using unframe_cut [OF assms(1)] True by (simp add: catalog_frame_def)
  then show ?thesis ..
qed simp

end
