(* ===== verification/RuntimeCache.thy ===== *)
theory RuntimeCache
  imports CacheFrames Btree FileSlice
begin

text \<open>
  The artifact cache of the index runtime (\<open>RuntimeCache\<close> of \<open>graphoxide-index-runtime/src/cache.rs\<close>): 64
  shards, each a catalog and artifact segments to which frames are only appended. Writes can fail or be cut
  off, and then the cache is opened again. Links, foreign files and the owner lock are not modelled, nor
  reads that fail; a write that is cut off leaves a prefix. \<open>usize\<close> has 64 bits.
\<close>

section \<open>Limits\<close>

record cache_limits =
  max_artifact_bytes :: nat
  max_segment_bytes :: nat
  max_catalog_bytes :: nat
  max_total_catalog_bytes :: nat
  max_total_artifact_bytes :: nat
  max_shard_entries :: nat
  max_total_shard_entries :: nat

datatype cache_error =
    InvalidLimits
  | CacheIo
  | PayloadTooLarge nat nat
  | CatalogTooLarge nat
  | AggregateCatalogTooLarge nat nat
  | AggregateArtifactsTooLarge nat nat
  | TooManyShardEntries nat
  | TooManyTotalShardEntries nat
  | StoreDisabled
  | UnsafePath

definition validate_limits :: "cache_limits \<Rightarrow> cache_error option" where
  "validate_limits l =
     (if max_artifact_bytes l = 0 \<or> max_segment_bytes l < frame_header_len \<or> max_catalog_bytes l < catalog_frame_len
         \<or> max_total_catalog_bytes l < catalog_frame_len \<or> max_catalog_bytes l > max_total_catalog_bytes l
         \<or> max_total_artifact_bytes l < max_segment_bytes l \<or> max_shard_entries l < 2
         \<or> max_total_shard_entries l < max_shard_entries l
      then Some InvalidLimits else None)"

definition default_cache_limits :: cache_limits where
  "default_cache_limits =
     \<lparr>max_artifact_bytes = 67108864, max_segment_bytes = 67108864, max_catalog_bytes = 67108864,
      max_total_catalog_bytes = 67108864, max_total_artifact_bytes = 4294967296, max_shard_entries = 4096,
      max_total_shard_entries = 65536\<rparr>"

section \<open>Disk and state\<close>

text \<open>The files of one shard; the directory of artifacts by kind and generation.\<close>

record disk_shard =
  catalog_file :: "bytes option"
  active_files :: "(nat, bytes) btree"
  sealed_files :: "(nat, bytes) btree"

record shard_state =
  entries :: "bytes \<Rightarrow> artifact_location option"
  active_generation :: nat
  active_len :: nat
  active_exists :: bool
  catalog_len :: nat

record runtime_cache =
  cache_limits_of :: cache_limits
  shards :: "shard_state list"
  total_catalog_len :: nat
  total_artifact_len :: nat
  artifact_store_available :: bool
  store_disabled :: bool

definition shard_for_key :: "bytes \<Rightarrow> nat" where
  "shard_for_key key = unat (key ! 0) mod 64"

text \<open>The outcome of a write: done, refused before it began, or cut off after some bytes.\<close>

datatype write_fault = WriteDone | NotOpened | CutOff nat

fun append_durable :: "write_fault \<Rightarrow> bytes \<Rightarrow> bytes option \<Rightarrow> bool \<times> bytes option" where
  "append_durable WriteDone bs old = (True, Some (case_option [] id old @ bs))"
| "append_durable NotOpened bs old = (False, old)"
| "append_durable (CutOff n) bs old = (False, Some (case_option [] id old @ take n bs))"

definition put_file :: "nat \<Rightarrow> bytes option \<Rightarrow> (nat, bytes) btree \<Rightarrow> (nat, bytes) btree" where
  "put_file g content files = (case content of None \<Rightarrow> files | Some bs \<Rightarrow> bt_put g bs files)"

section \<open>Opening\<close>

definition entries_of :: "(bytes \<times> artifact_location) list \<Rightarrow> bytes \<Rightarrow> artifact_location option" where
  "entries_of rows = fold (\<lambda>(k, l) m. m(k \<mapsto> l)) rows (\<lambda>_. None)"

record catalog_load =
  load_entries :: "bytes \<Rightarrow> artifact_location option"
  load_len :: nat
  load_repair :: bool

definition read_catalog :: "hashes \<Rightarrow> cache_limits \<Rightarrow> disk_shard \<Rightarrow> catalog_load" where
  "read_catalog h lms d =
     (case catalog_file d of
        None \<Rightarrow> \<lparr>load_entries = \<lambda>_. None, load_len = 0, load_repair = False\<rparr>
      | Some bs \<Rightarrow>
          if length bs > max_catalog_bytes lms
          then \<lparr>load_entries = \<lambda>_. None, load_len = max_catalog_bytes lms + 1, load_repair = False\<rparr>
          else let (rows, n) = catalog_rows h bs
               in \<lparr>load_entries = entries_of rows, load_len = n, load_repair = (n \<noteq> length bs)\<rparr>)"

definition truncate_catalog_tail :: "nat \<Rightarrow> disk_shard \<Rightarrow> disk_shard" where
  "truncate_catalog_tail n d = d\<lparr>catalog_file := map_option (take n) (catalog_file d)\<rparr>"

record shard_discovery =
  found_generation :: nat
  found_len :: nat
  found_exists :: bool
  found_total :: nat
  found_entries :: nat
  found_exhausted :: bool

definition newest_sealed :: "disk_shard \<Rightarrow> nat option" where
  "newest_sealed d = (if sealed_files d = [] then None else Some (Max (set (bt_keys (sealed_files d)))))"

definition discover_shard_artifacts :: "nat \<Rightarrow> nat \<Rightarrow> disk_shard \<Rightarrow> cache_error + shard_discovery" where
  "discover_shard_artifacts max_entries max_total d =
     (let count = (case catalog_file d of None \<Rightarrow> 0 | Some _ \<Rightarrow> 1) + length (active_files d) + length (sealed_files d);
          total_len = sum_list (map (length \<circ> snd) (active_files d)) + sum_list (map (length \<circ> snd) (sealed_files d));
          found = (\<lambda>(g, n, e, x). Inr \<lparr>found_generation = g, found_len = n, found_exists = e, found_total = total_len,
            found_entries = count, found_exhausted = x\<rparr>)
      in if count > max_entries then Inl (TooManyShardEntries max_entries)
         else if total_len \<ge> 2 ^ 64 then Inl (AggregateArtifactsTooLarge (2 ^ 64 - 1) max_total)
         else case active_files d of
           [] \<Rightarrow> (case newest_sealed d of
                None \<Rightarrow> found (0, 0, False, False)
              | Some g \<Rightarrow> if g + 1 < 2 ^ 64 then found (g + 1, 0, False, False) else found (g, 0, False, True))
         | [(g, bs)] \<Rightarrow>
             if (case newest_sealed d of None \<Rightarrow> False | Some s \<Rightarrow> s \<ge> g) then Inl UnsafePath
             else found (g, length bs, True, g = 2 ^ 64 - 1)
         | _ \<Rightarrow> Inl UnsafePath)"

record open_totals =
  open_catalog_len :: nat
  open_artifact_len :: nat
  open_entries :: nat
  open_exhausted :: bool

definition open_shard ::
  "hashes \<Rightarrow> cache_limits \<Rightarrow> open_totals \<Rightarrow> disk_shard \<Rightarrow> cache_error + disk_shard \<times> shard_state \<times> open_totals" where
  "open_shard h lms t d =
     (let existing = (case catalog_file d of None \<Rightarrow> 0 | Some bs \<Rightarrow> length bs);
          prospective = open_catalog_len t + existing
      in if prospective \<ge> 2 ^ 64 then Inl (AggregateCatalogTooLarge (2 ^ 64 - 1) (max_total_catalog_bytes lms))
         else if prospective > max_total_catalog_bytes lms
         then Inl (AggregateCatalogTooLarge prospective (max_total_catalog_bytes lms))
         else
           let catalog = read_catalog h lms d;
               d' = (if load_repair catalog then truncate_catalog_tail (load_len catalog) d else d)
           in case discover_shard_artifacts (max_shard_entries lms) (max_total_artifact_bytes lms) d' of
                Inl e \<Rightarrow> Inl e
              | Inr f \<Rightarrow>
                  let seen = open_entries t + found_entries f; artifacts = open_artifact_len t + found_total f
                  in if seen > max_total_shard_entries lms then Inl (TooManyTotalShardEntries (max_total_shard_entries lms))
                     else if artifacts \<ge> 2 ^ 64
                     then Inl (AggregateArtifactsTooLarge (2 ^ 64 - 1) (max_total_artifact_bytes lms))
                     else Inr (d',
                       \<lparr>entries = load_entries catalog, active_generation = found_generation f, active_len = found_len f,
                        active_exists = found_exists f, catalog_len = load_len catalog\<rparr>,
                       \<lparr>open_catalog_len = saturating_add (open_catalog_len t) (if load_repair catalog then load_len catalog else existing),
                        open_artifact_len = artifacts, open_entries = seen,
                        open_exhausted = (open_exhausted t \<or> found_exhausted f)\<rparr>))"

fun open_shards ::
  "hashes \<Rightarrow> cache_limits \<Rightarrow> open_totals \<Rightarrow> disk_shard list \<Rightarrow> cache_error + disk_shard list \<times> shard_state list \<times> open_totals" where
  "open_shards h lms t [] = Inr ([], [], t)"
| "open_shards h lms t (d # ds) =
     (case open_shard h lms t d of
        Inl e \<Rightarrow> Inl e
      | Inr (d', st, t') \<Rightarrow>
          (case open_shards h lms t' ds of Inl e \<Rightarrow> Inl e | Inr (ds', sts, t'') \<Rightarrow> Inr (d' # ds', st # sts, t'')))"

definition no_totals :: open_totals where
  "no_totals = \<lparr>open_catalog_len = 0, open_artifact_len = 0, open_entries = 0, open_exhausted = False\<rparr>"

definition open_with_limits :: "hashes \<Rightarrow> cache_limits \<Rightarrow> disk_shard list \<Rightarrow> cache_error + runtime_cache \<times> disk_shard list" where
  "open_with_limits h lms disk =
     (case validate_limits lms of
        Some e \<Rightarrow> Inl e
      | None \<Rightarrow>
          (case open_shards h lms no_totals disk of
             Inl e \<Rightarrow> Inl e
           | Inr (disk', sts, t) \<Rightarrow>
               Inr (\<lparr>cache_limits_of = lms, shards = sts, total_catalog_len = open_catalog_len t,
                 total_artifact_len = open_artifact_len t,
                 artifact_store_available = (open_artifact_len t \<le> max_total_artifact_bytes lms),
                 store_disabled = open_exhausted t\<rparr>, disk')))"

section \<open>Probing\<close>

text \<open>The file that holds a generation.\<close>

definition selected_file :: "shard_state \<Rightarrow> disk_shard \<Rightarrow> nat \<Rightarrow> bytes option" where
  "selected_file st d g =
     (if active_exists st \<and> g = active_generation st then bt_get (active_files d) g else bt_get (sealed_files d) g)"

definition read_artifact_frame :: "hashes \<Rightarrow> bytes option \<Rightarrow> artifact_location \<Rightarrow> nat \<Rightarrow> bytes option" where
  "read_artifact_frame h content l max_payload_bytes =
     (if loc_frame_len l < frame_header_len \<or> loc_frame_len l > frame_header_len + max_payload_bytes then None
      else case content of
        None \<Rightarrow> None
      | Some bs \<Rightarrow>
          if loc_offset l + loc_frame_len l \<ge> 2 ^ 64 \<or> loc_offset l + loc_frame_len l > length bs then None
          else
            let read_bytes = take (loc_frame_len l) (drop (loc_offset l) bs)
            in case unframe_at h read_bytes max_payload_bytes of
                 None \<Rightarrow> None
               | Some (payload, consumed) \<Rightarrow>
                   if consumed \<noteq> length read_bytes \<or> digest h payload \<noteq> loc_payload_digest l then None else Some payload)"

datatype probe_outcome = ProbeHit bytes | ProbeMissing | RejectedCorruptOrStale

definition probe :: "hashes \<Rightarrow> runtime_cache \<Rightarrow> disk_shard list \<Rightarrow> bytes \<Rightarrow> probe_outcome" where
  "probe h c disk key =
     (let i = shard_for_key key
      in case entries (shards c ! i) key of
           None \<Rightarrow> ProbeMissing
         | Some l \<Rightarrow>
             (case read_artifact_frame h (selected_file (shards c ! i) (disk ! i) (loc_generation l)) l
                 (max_artifact_bytes (cache_limits_of c)) of
                None \<Rightarrow> RejectedCorruptOrStale
              | Some payload \<Rightarrow> ProbeHit payload))"

section \<open>Storing\<close>

text \<open>What is checked before anything is written.\<close>

definition refuse_put :: "hashes \<Rightarrow> runtime_cache \<Rightarrow> bytes \<Rightarrow> bytes \<Rightarrow> cache_error option" where
  "refuse_put h c key payload =
     (let lms = cache_limits_of c; frame_len = length (frame h payload); st = shards c ! shard_for_key key;
          next_artifacts = total_artifact_len c + frame_len; next_catalog = total_catalog_len c + catalog_frame_len
      in if store_disabled c then Some StoreDisabled
         else if length payload > max_artifact_bytes lms then Some (PayloadTooLarge (length payload) (max_artifact_bytes lms))
         else if frame_len > max_segment_bytes lms
         then Some (PayloadTooLarge (length payload) (max_segment_bytes lms - frame_header_len))
         else if \<not> artifact_store_available c
         then Some (AggregateArtifactsTooLarge (total_artifact_len c) (max_total_artifact_bytes lms))
         else if next_artifacts \<ge> 2 ^ 64 then Some (AggregateArtifactsTooLarge (2 ^ 64 - 1) (max_total_artifact_bytes lms))
         else if next_artifacts > max_total_artifact_bytes lms
         then Some (AggregateArtifactsTooLarge next_artifacts (max_total_artifact_bytes lms))
         else if saturating_add (catalog_len st) catalog_frame_len > max_catalog_bytes lms
         then Some (CatalogTooLarge (max_catalog_bytes lms))
         else if next_catalog \<ge> 2 ^ 64 then Some (AggregateCatalogTooLarge (2 ^ 64 - 1) (max_total_catalog_bytes lms))
         else if next_catalog > max_total_catalog_bytes lms
         then Some (AggregateCatalogTooLarge next_catalog (max_total_catalog_bytes lms))
         else None)"

text \<open>What the surroundings do to one store: whether the renaming works, and the two writes.\<close>

record put_faults =
  rename_works :: bool
  artifact_write :: write_fault
  catalog_write :: write_fault

definition seal_active_segment :: "bool \<Rightarrow> nat \<Rightarrow> disk_shard \<Rightarrow> cache_error + disk_shard" where
  "seal_active_segment works g d =
     (case bt_get (active_files d) g of
        None \<Rightarrow> Inr d
      | Some bs \<Rightarrow>
          if bt_has (sealed_files d) g then Inl UnsafePath
          else if \<not> works then Inl CacheIo
          else Inr (d\<lparr>active_files := bt_del g (active_files d), sealed_files := bt_put g bs (sealed_files d)\<rparr>))"

datatype rotation = Rotated shard_state disk_shard | NotRotated cache_error bool

definition rotate_segment :: "cache_limits \<Rightarrow> bool \<Rightarrow> nat \<Rightarrow> shard_state \<Rightarrow> disk_shard \<Rightarrow> rotation" where
  "rotate_segment lms works frame_len st d =
     (if active_len st > 0 \<and> saturating_add (active_len st) frame_len > max_segment_bytes lms
      then if active_generation st + 1 \<ge> 2 ^ 64 then NotRotated StoreDisabled True
           else case seal_active_segment works (active_generation st) d of
             Inl e \<Rightarrow> NotRotated e False
           | Inr d' \<Rightarrow> Rotated (st\<lparr>active_generation := active_generation st + 1, active_len := 0, active_exists := False\<rparr>) d'
      else Rotated st d)"

definition update_shard :: "nat \<Rightarrow> shard_state \<Rightarrow> runtime_cache \<Rightarrow> runtime_cache" where
  "update_shard i st c = c\<lparr>shards := (shards c)[i := st]\<rparr>"

text \<open>The artifact could not be written: the state follows the file, and the store is disabled.\<close>

definition after_failed_artifact :: "nat \<Rightarrow> bytes option \<Rightarrow> shard_state \<Rightarrow> runtime_cache \<Rightarrow> runtime_cache" where
  "after_failed_artifact i content st c =
     (case content of
        None \<Rightarrow> (update_shard i st c)\<lparr>store_disabled := True\<rparr>
      | Some bs \<Rightarrow>
          let artifacts = saturating_add (total_artifact_len c) (length bs - active_len st)
          in (update_shard i (st\<lparr>active_len := length bs\<rparr>) c)\<lparr>total_artifact_len := artifacts,
               artifact_store_available :=
                 (artifact_store_available c \<and> artifacts \<le> max_total_artifact_bytes (cache_limits_of c)),
               store_disabled := True\<rparr>)"

definition store_frame ::
  "hashes \<Rightarrow> put_faults \<Rightarrow> bytes \<Rightarrow> bytes \<Rightarrow> nat \<Rightarrow> shard_state \<Rightarrow> disk_shard \<Rightarrow> runtime_cache
    \<Rightarrow> cache_error option \<times> runtime_cache \<times> disk_shard" where
  "store_frame h f key payload i st d c =
     (let artifact_frame = frame h payload; g = active_generation st;
          (written, content) = append_durable (artifact_write f) artifact_frame (bt_get (active_files d) g);
          d = d\<lparr>active_files := put_file g content (active_files d)\<rparr>
      in if \<not> written then (Some CacheIo, after_failed_artifact i content st c, d)
         else
           let st' = st\<lparr>active_len := saturating_add (active_len st) (length artifact_frame), active_exists := True\<rparr>;
               c' = (update_shard i st' c)\<lparr>total_artifact_len := total_artifact_len c + length artifact_frame\<rparr>;
               l = \<lparr>loc_generation = g, loc_offset = active_len st, loc_frame_len = length artifact_frame,
                    loc_payload_digest = digest h payload\<rparr>;
               (written, content) = append_durable (catalog_write f) (catalog_frame h (key, l)) (catalog_file d);
               d = d\<lparr>catalog_file := content\<rparr>
           in if \<not> written then (Some CacheIo, c'\<lparr>store_disabled := True\<rparr>, d)
              else (None,
                (update_shard i (st'\<lparr>entries := (entries st')(key \<mapsto> l), catalog_len := saturating_add (catalog_len st') catalog_frame_len\<rparr>) c')
                  \<lparr>total_catalog_len := total_catalog_len c + catalog_frame_len\<rparr>, d))"

definition put ::
  "hashes \<Rightarrow> put_faults \<Rightarrow> bytes \<Rightarrow> bytes \<Rightarrow> runtime_cache \<Rightarrow> disk_shard list
    \<Rightarrow> cache_error option \<times> runtime_cache \<times> disk_shard list" where
  "put h f key payload c disk =
     (case refuse_put h c key payload of
        Some e \<Rightarrow> (Some e, c, disk)
      | None \<Rightarrow>
          let i = shard_for_key key
          in case rotate_segment (cache_limits_of c) (rename_works f) (length (frame h payload)) (shards c ! i) (disk ! i) of
               NotRotated e disable \<Rightarrow> (Some e, (if disable then c\<lparr>store_disabled := True\<rparr> else c), disk)
             | Rotated st d \<Rightarrow>
                 (let (e, c', d') = store_frame h f key payload i st d c in (e, c', disk[i := d'])))"

section \<open>What a shard knows\<close>

text \<open>A frame of the payload lies where the location says, in the file for its generation.\<close>

definition frame_in :: "hashes \<Rightarrow> cache_limits \<Rightarrow> (nat \<Rightarrow> bytes option) \<Rightarrow> artifact_location \<Rightarrow> bytes \<Rightarrow> bool" where
  "frame_in h lms f l p \<longleftrightarrow>
     (\<exists>bs. f (loc_generation l) = Some bs \<and> loc_offset l + loc_frame_len l \<le> length bs
        \<and> take (loc_frame_len l) (drop (loc_offset l) bs) = frame h p)
     \<and> loc_frame_len l = frame_header_len + length p \<and> length p \<le> max_artifact_bytes lms
     \<and> loc_offset l + loc_frame_len l < 2 ^ 64 \<and> loc_payload_digest l = digest h p"

text \<open>Every key of the shard has no entry, or one whose payload it may have.\<close>

definition knows_entry :: "hashes \<Rightarrow> cache_limits \<Rightarrow> (nat \<Rightarrow> bytes option) \<Rightarrow> bytes option set \<Rightarrow> artifact_location option \<Rightarrow> bool" where
  "knows_entry h lms f possible e \<longleftrightarrow>
     (case e of None \<Rightarrow> None \<in> possible | Some l \<Rightarrow> \<exists>p. frame_in h lms f l p \<and> Some p \<in> possible)"

definition knows ::
  "hashes \<Rightarrow> cache_limits \<Rightarrow> nat \<Rightarrow> (bytes \<Rightarrow> bytes option set) \<Rightarrow> (nat \<Rightarrow> bytes option) \<Rightarrow> (bytes \<Rightarrow> artifact_location option) \<Rightarrow> bool" where
  "knows h lms i maybe f es \<longleftrightarrow>
     (\<forall>k. length k = 32 \<and> shard_for_key k = i \<longrightarrow> knows_entry h lms f (maybe k) (es k))"

definition grows :: "(nat \<Rightarrow> bytes option) \<Rightarrow> (nat \<Rightarrow> bytes option) \<Rightarrow> bool" where
  "grows f f' \<longleftrightarrow> (\<forall>g bs. f g = Some bs \<longrightarrow> (\<exists>ys. f' g = Some (bs @ ys)))"

lemma grows_refl [simp]: "grows f f"
  by (auto simp: grows_def)

lemma frame_in_grows:
  assumes "frame_in h lms f l p" and "grows f f'"
  shows "frame_in h lms f' l p"
proof -
  obtain bs where bs: "f (loc_generation l) = Some bs" "loc_offset l + loc_frame_len l \<le> length bs"
    "take (loc_frame_len l) (drop (loc_offset l) bs) = frame h p"
    using assms(1) by (auto simp: frame_in_def)
  obtain ys where ys: "f' (loc_generation l) = Some (bs @ ys)" using assms(2) bs(1) by (auto simp: grows_def)
  have "take (loc_frame_len l) (drop (loc_offset l) (bs @ ys)) = frame h p" using bs(2,3) by simp
  then show ?thesis using assms(1) ys bs(2) unfolding frame_in_def by auto
qed

lemma knows_entry_grows:
  "knows_entry h lms f S e \<Longrightarrow> grows f f' \<Longrightarrow> S \<subseteq> S' \<Longrightarrow> knows_entry h lms f' S' e"
  unfolding knows_entry_def by (cases e) (auto dest: frame_in_grows)

lemma knows_grows:
  assumes "knows h lms i maybe f es" and "grows f f'" and "\<And>k. maybe k \<subseteq> maybe' k"
  shows "knows h lms i maybe' f' es"
  using assms(1) knows_entry_grows [OF _ assms(2,3)] by (auto simp: knows_def)

lemma knows_insert:
  assumes "knows h lms i maybe f es" and "frame_in h lms f l p" and "Some p \<in> S"
  shows "knows h lms i (maybe(key := S)) f (es(key \<mapsto> l))"
proof -
  have "knows_entry h lms f S (Some l)" using assms(2,3) by (auto simp: knows_entry_def)
  then show ?thesis using assms(1) by (simp add: knows_def)
qed

lemma knows_cong:
  assumes "knows h lms i maybe f es" and "\<And>k. shard_for_key k = i \<Longrightarrow> maybe' k = maybe k"
  shows "knows h lms i maybe' f es"
  using assms(1) assms(2) [symmetric] by (simp add: knows_def)

definition located :: "disk_shard \<Rightarrow> nat \<Rightarrow> bytes option" where
  "located d g = (case bt_get (active_files d) g of Some bs \<Rightarrow> Some bs | None \<Rightarrow> bt_get (sealed_files d) g)"

definition catalog_bytes :: "disk_shard \<Rightarrow> bytes" where
  "catalog_bytes d = (case catalog_file d of None \<Rightarrow> [] | Some bs \<Rightarrow> bs)"

definition rows_ok :: "hashes \<Rightarrow> cache_limits \<Rightarrow> disk_shard \<Rightarrow> (bytes \<times> artifact_location) list \<Rightarrow> bytes \<Rightarrow> bool" where
  "rows_ok h lms d rows tail \<longleftrightarrow>
     catalog_bytes d = catalog_text h rows @ tail \<and> torn h tail \<and> list_all record_ok rows
     \<and> length (catalog_bytes d) \<le> max_catalog_bytes lms"

definition files_ok :: "disk_shard \<Rightarrow> bool" where
  "files_ok d \<longleftrightarrow> bt_wf (sealed_files d)
     \<and> (active_files d = [] \<or> (\<exists>g bs. active_files d = [(g, bs)] \<and> g < 2 ^ 64 \<and> (\<forall>s \<in> fst ` set (sealed_files d). s < g)))"

definition disk_ok :: "hashes \<Rightarrow> cache_limits \<Rightarrow> nat \<Rightarrow> (bytes \<Rightarrow> bytes option set) \<Rightarrow> disk_shard \<Rightarrow> bool" where
  "disk_ok h lms i maybe d \<longleftrightarrow>
     files_ok d \<and> (\<exists>rows tail. rows_ok h lms d rows tail \<and> knows h lms i maybe (located d) (entries_of rows))"

text \<open>A state that may write agrees with the disk.\<close>

definition segments_ok :: "shard_state \<Rightarrow> disk_shard \<Rightarrow> bool" where
  "segments_ok st d \<longleftrightarrow>
     bt_wf (sealed_files d) \<and> active_generation st < 2 ^ 64 \<and> (\<forall>s \<in> fst ` set (sealed_files d). s < active_generation st)
     \<and> (if active_exists st then \<exists>bs. active_files d = [(active_generation st, bs)] \<and> active_len st = length bs
        else active_files d = [] \<and> active_len st = 0)"

definition live :: "hashes \<Rightarrow> cache_limits \<Rightarrow> nat \<Rightarrow> (bytes \<Rightarrow> bytes option set) \<Rightarrow> shard_state \<Rightarrow> disk_shard \<Rightarrow> bool" where
  "live h lms i maybe st d \<longleftrightarrow>
     segments_ok st d \<and> knows h lms i maybe (located d) (entries st)
     \<and> (\<exists>rows. rows_ok h lms d rows [] \<and> entries st = entries_of rows \<and> catalog_len st = length (catalog_bytes d))"

definition state_ok :: "hashes \<Rightarrow> cache_limits \<Rightarrow> nat \<Rightarrow> (bytes \<Rightarrow> bytes option set) \<Rightarrow> bool \<Rightarrow> shard_state \<Rightarrow> disk_shard \<Rightarrow> bool" where
  "state_ok h lms i maybe disabled st d \<longleftrightarrow>
     disk_ok h lms i maybe d \<and> knows h lms i maybe (selected_file st d) (entries st) \<and> (\<not> disabled \<longrightarrow> live h lms i maybe st d)"

lemma selected_located: "segments_ok st d \<Longrightarrow> selected_file st d = located d"
  by (auto simp: fun_eq_iff selected_file_def located_def segments_ok_def split: if_splits)

lemma segments_files: "segments_ok st d \<Longrightarrow> files_ok d"
  by (auto simp: segments_ok_def files_ok_def split: if_splits)

lemma live_state_ok: "live h lms i maybe st d \<Longrightarrow> state_ok h lms i maybe disabled st d"
  unfolding state_ok_def disk_ok_def by (auto simp: live_def selected_located dest: segments_files)

lemma state_ok_mono:
  assumes "state_ok h lms i maybe disabled st d" and "\<And>k. maybe k \<subseteq> maybe' k" and "disabled \<longrightarrow> disabled'"
  shows "state_ok h lms i maybe' disabled' st d"
proof -
  have "knows h lms i maybe' f es" if "knows h lms i maybe f es" for f es
    by (rule knows_grows [OF that grows_refl assms(2)])
  then show ?thesis using assms(1,3) unfolding state_ok_def disk_ok_def live_def by blast
qed

lemma state_ok_cong:
  assumes "state_ok h lms i maybe disabled st d" and "\<And>k. shard_for_key k = i \<Longrightarrow> maybe' k = maybe k"
  shows "state_ok h lms i maybe' disabled st d"
proof -
  have "knows h lms i maybe' f es" if "knows h lms i maybe f es" for f es
    by (rule knows_cong [OF that assms(2)])
  then show ?thesis using assms(1) unfolding state_ok_def disk_ok_def live_def by blast
qed

section \<open>Probing tells the truth\<close>

lemma read_artifact_knows:
  assumes "hashes_ok h" and "frame_in h lms f l p"
  shows "read_artifact_frame h (f (loc_generation l)) l (max_artifact_bytes lms) = Some p"
proof -
  obtain bs where bs: "f (loc_generation l) = Some bs" "loc_offset l + loc_frame_len l \<le> length bs"
    "take (loc_frame_len l) (drop (loc_offset l) bs) = frame h p"
    and l: "loc_frame_len l = frame_header_len + length p" "length p \<le> max_artifact_bytes lms"
      "loc_offset l + loc_frame_len l < 2 ^ 64" "loc_payload_digest l = digest h p"
    using assms(2) by (auto simp: frame_in_def)
  have "unframe_at h (frame h p) (max_artifact_bytes lms) = Some (p, frame_header_len + length p)"
    using unframe_frame [OF assms(1) l(2), of "[]"] l(1,3) by simp
  then show ?thesis
    using assms(1) bs l unfolding read_artifact_frame_def by (simp add: Let_def)
qed

lemma probe_knows:
  assumes "hashes_ok h" and "knows h (cache_limits_of c) (shard_for_key key) maybe
      (selected_file (shards c ! shard_for_key key) (disk ! shard_for_key key)) (entries (shards c ! shard_for_key key))"
    and "length key = 32"
  shows "case probe h c disk key of
      ProbeHit p \<Rightarrow> Some p \<in> maybe key | ProbeMissing \<Rightarrow> None \<in> maybe key | RejectedCorruptOrStale \<Rightarrow> False"
proof -
  have known: "knows_entry h (cache_limits_of c) (selected_file (shards c ! shard_for_key key) (disk ! shard_for_key key))
      (maybe key) (entries (shards c ! shard_for_key key) key)"
    using assms(2,3) by (simp add: knows_def)
  show ?thesis
  proof (cases "entries (shards c ! shard_for_key key) key")
    case None
    then show ?thesis using known by (simp add: probe_def Let_def knows_entry_def)
  next
    case (Some l)
    then obtain p where "frame_in h (cache_limits_of c) (selected_file (shards c ! shard_for_key key) (disk ! shard_for_key key)) l p"
      "Some p \<in> maybe key"
      using known by (auto simp: knows_entry_def)
    then show ?thesis using read_artifact_knows [OF assms(1)] by (simp add: probe_def Some Let_def)
  qed
qed

section \<open>Storing keeps what is known\<close>

definition limits_ok :: "cache_limits \<Rightarrow> bool" where
  "limits_ok lms \<longleftrightarrow> max_segment_bytes lms < usize_max \<and> max_catalog_bytes lms < usize_max"

lemma not_saturated: "\<not> saturating_add a b > m \<Longrightarrow> m < usize_max \<Longrightarrow> a + b \<le> m \<and> saturating_add a b = a + b"
  by (auto simp: saturating_add_def min_def split: if_splits)

lemma usize_small: "a \<le> m \<Longrightarrow> m < usize_max \<Longrightarrow> a < 2 ^ 64"
  by (simp add: usize_max_def)

lemma rotate_live:
  assumes live: "live h lms i maybe st d" and run: "rotate_segment lms works n st d = Rotated st' d'"
    and limits: "limits_ok lms" and fits: "n \<le> max_segment_bytes lms"
  shows "live h lms i maybe st' d' \<and> active_len st' + n \<le> max_segment_bytes lms \<and> catalog_len st' = catalog_len st"
proof (cases "active_len st > 0 \<and> saturating_add (active_len st) n > max_segment_bytes lms")
  case False
  then have same: "st' = st" "d' = d" using run by (auto simp: rotate_segment_def split: if_splits)
  have "active_len st + n \<le> max_segment_bytes lms"
    using False fits not_saturated [of "max_segment_bytes lms" "active_len st" n] limits by (auto simp: limits_ok_def)
  then show ?thesis using live by (simp add: same)
next
  case True
  let ?g = "active_generation st"
  have segments: "segments_ok st d" using live by (simp add: live_def)
  then have "active_exists st" using True by (auto simp: segments_ok_def split: if_splits)
  then obtain bs where active: "active_files d = [(?g, bs)]" using segments by (auto simp: segments_ok_def)
  have fresh: "\<not> bt_has (sealed_files d) ?g" using segments by (auto simp: segments_ok_def bt_has_iff)
  have next_gen: "?g + 1 < 2 ^ 64" and st': "st' = st\<lparr>active_generation := ?g + 1, active_len := 0, active_exists := False\<rparr>"
    and d': "d' = d\<lparr>active_files := [], sealed_files := bt_put ?g bs (sealed_files d)\<rparr>"
    using run True active fresh
    by (auto simp: rotate_segment_def seal_active_segment_def bt_del_def split: if_splits sum.splits)
  have segments': "segments_ok st' d'"
    using segments next_gen by (auto simp: segments_ok_def st' d')
  have "bt_get (sealed_files d) ?g = None" using fresh by (simp add: bt_has_def)
  then have same: "located d' = located d" by (auto simp: fun_eq_iff located_def d' active)
  have "rows_ok h lms d' = rows_ok h lms d" "catalog_bytes d' = catalog_bytes d"
    by (simp_all add: fun_eq_iff rows_ok_def catalog_bytes_def d')
  then show ?thesis
    using live segments' fits by (simp add: live_def same) (simp add: st')
qed

text \<open>The active file with a frame, or a part of one, behind what it held.\<close>

definition with_active :: "nat \<Rightarrow> bytes \<Rightarrow> disk_shard \<Rightarrow> disk_shard" where
  "with_active g bs d = d\<lparr>active_files := put_file g (Some bs) (active_files d)\<rparr>"

definition old_active :: "shard_state \<Rightarrow> disk_shard \<Rightarrow> bytes" where
  "old_active st d = (case bt_get (active_files d) (active_generation st) of None \<Rightarrow> [] | Some bs \<Rightarrow> bs)"

lemma with_active_facts:
  assumes "segments_ok st d"
  shows "active_files (with_active (active_generation st) bs d) = [(active_generation st, bs)]"
    and "length (old_active st d) = active_len st"
    and "grows (located d) (located (with_active (active_generation st) (old_active st d @ xs) d))"
    and "files_ok (with_active (active_generation st) bs d)"
    and "catalog_bytes (with_active (active_generation st) bs d) = catalog_bytes d"
    and "sealed_files (with_active (active_generation st) bs d) = sealed_files d"
proof -
  have cases: "active_files d = [] \<or> (\<exists>bs. active_files d = [(active_generation st, bs)])"
    using assms by (auto simp: segments_ok_def split: if_splits)
  show active: "active_files (with_active (active_generation st) bs d) = [(active_generation st, bs)]" for bs
    using cases by (auto simp: with_active_def put_file_def)
  show "length (old_active st d) = active_len st"
    using assms by (auto simp: segments_ok_def old_active_def split: if_splits)
  show sealed: "sealed_files (with_active (active_generation st) bs d) = sealed_files d" for bs
    by (simp add: with_active_def)
  show "files_ok (with_active (active_generation st) bs d)"
    using assms by (auto simp: files_ok_def active sealed segments_ok_def)
  have "bt_get (sealed_files d) (active_generation st) = None"
    using assms bt_has_iff [of "sealed_files d" "active_generation st"] by (auto simp: segments_ok_def bt_has_def)
  then show "grows (located d) (located (with_active (active_generation st) (old_active st d @ xs) d))"
    using cases by (auto simp: grows_def located_def active sealed old_active_def)
  show "catalog_bytes (with_active (active_generation st) bs d) = catalog_bytes d"
    by (simp add: catalog_bytes_def with_active_def)
qed

lemma rows_ok_cong: "catalog_bytes d' = catalog_bytes d \<Longrightarrow> rows_ok h lms d' = rows_ok h lms d"
  by (simp add: rows_ok_def fun_eq_iff)

text \<open>A write of the artifact that failed hurts nothing that is known.\<close>

lemma failed_artifact_ok:
  assumes live: "live h lms i maybe st d" and more: "\<And>k. maybe k \<subseteq> maybe' k"
    and d': "d' = d \<or> (\<exists>xs. d' = with_active (active_generation st) (old_active st d @ xs) d)"
    and st': "st' = st \<or> (\<exists>n. st' = st\<lparr>active_len := n\<rparr>)"
  shows "state_ok h lms i maybe' True st' d'"
proof (cases "d' = d")
  case True
  have "state_ok h lms i maybe' True st d"
    by (rule state_ok_mono [OF live_state_ok [OF live] more, of True]) simp
  moreover have "selected_file st' d = selected_file st d" "entries st' = entries st"
    using st' by (auto simp: selected_file_def fun_eq_iff)
  ultimately show ?thesis by (simp add: True state_ok_def)
next
  case False
  then obtain xs where d': "d' = with_active (active_generation st) (old_active st d @ xs) d" using assms(3) by blast
  have segments: "segments_ok st d" using live by (simp add: live_def)
  note facts = with_active_facts [OF segments]
  have grow: "grows (located d) (located d')" unfolding d' by (rule facts(3))
  obtain rows where rows: "rows_ok h lms d rows []" "entries st = entries_of rows"
    and known: "knows h lms i maybe (located d) (entries st)"
    using live by (auto simp: live_def)
  have rows': "rows_ok h lms d' rows []" using rows(1) rows_ok_cong [OF facts(5)] by (simp add: d')
  have known': "knows h lms i maybe' (located d') (entries_of rows)"
    using knows_grows [OF known grow more] by (simp add: rows(2))
  have "grows (selected_file st d) (selected_file st' d')"
  proof -
    have "grows (selected_file st d) (selected_file st d')"
      using grow segments facts(1,6) selected_located [OF segments]
      by (auto simp: grows_def selected_file_def located_def d' segments_ok_def split: if_splits)
    moreover have "selected_file st' d' = selected_file st d'" using st' by (auto simp: selected_file_def fun_eq_iff)
    ultimately show ?thesis by simp
  qed
  then have "knows h lms i maybe' (selected_file st' d') (entries st)"
    using knows_grows [of h lms i maybe "selected_file st d" "entries st"] known more selected_located [OF segments] by auto
  moreover have "entries st' = entries st" using st' by auto
  ultimately show ?thesis
    unfolding state_ok_def disk_ok_def using facts(4) rows' known' by (auto simp: d')
qed

lemma entries_of_snoc: "entries_of (rows @ [(k, l)]) = (entries_of rows)(k \<mapsto> l)"
  by (simp add: entries_of_def)

text \<open>The artifact is written, and the record of it follows, whole or in part.\<close>

definition stored_location :: "hashes \<Rightarrow> bytes \<Rightarrow> shard_state \<Rightarrow> artifact_location" where
  "stored_location h payload st =
     \<lparr>loc_generation = active_generation st, loc_offset = active_len st, loc_frame_len = length (frame h payload),
      loc_payload_digest = digest h payload\<rparr>"

definition with_frame :: "hashes \<Rightarrow> bytes \<Rightarrow> shard_state \<Rightarrow> disk_shard \<Rightarrow> disk_shard" where
  "with_frame h payload st d = with_active (active_generation st) (old_active st d @ frame h payload) d"

lemma stored_frame_in:
  assumes hashes: "hashes_ok h" and segments: "segments_ok st d" and size: "length payload \<le> max_artifact_bytes lms"
    and room: "active_len st + length (frame h payload) < 2 ^ 64"
  shows "frame_in h lms (located (with_frame h payload st d)) (stored_location h payload st) payload"
proof -
  note facts = with_active_facts [OF segments]
  have "located (with_frame h payload st d) (active_generation st) = Some (old_active st d @ frame h payload)"
    by (simp add: located_def with_frame_def facts(1))
  then show ?thesis
    using facts(2) hashes size room by (simp add: frame_in_def stored_location_def)
qed

lemma stored_record_ok:
  assumes "hashes_ok h" and "segments_ok st d" and "active_len st + length (frame h payload) < 2 ^ 64" and "length key = 32"
  shows "record_ok (key, stored_location h payload st)"
  using assms by (simp add: record_ok_def stored_location_def segments_ok_def hashes_ok_def)

lemma stored_catalog_ok:
  assumes hashes: "hashes_ok h" and live: "live h lms i maybe st d" and size: "length payload \<le> max_artifact_bytes lms"
    and room: "active_len st + length (frame h payload) < 2 ^ 64" and key: "length key = 32"
    and quota: "catalog_len st + catalog_frame_len \<le> max_catalog_bytes lms"
    and tail: "catalog_bytes d' = catalog_bytes d @ take n (catalog_frame h (key, stored_location h payload st))"
    and files: "active_files d' = active_files (with_frame h payload st d)" "sealed_files d' = sealed_files d"
  defines "whole \<equiv> take n (catalog_frame h (key, stored_location h payload st)) = catalog_frame h (key, stored_location h payload st)"
  shows "disk_ok h lms i (maybe(key := insert (Some payload) (maybe key))) d'"
    and "whole \<Longrightarrow> \<exists>rows. rows_ok h lms d' rows [] \<and> entries_of rows = (entries st)(key \<mapsto> stored_location h payload st)"
    and "knows h lms i (maybe(key := insert (Some payload) (maybe key))) (located d') (entries st)"
    and "Some payload \<in> S \<Longrightarrow>
      knows h lms i (maybe(key := S)) (located d') ((entries st)(key \<mapsto> stored_location h payload st))"
proof -
  let ?l = "stored_location h payload st" and ?maybe' = "maybe(key := insert (Some payload) (maybe key))"
  let ?cut = "take n (catalog_frame h (key, ?l))"
  have segments: "segments_ok st d" using live by (simp add: live_def)
  note facts = with_active_facts [OF segments]
  obtain rows where rows: "rows_ok h lms d rows []" "entries st = entries_of rows" "catalog_len st = length (catalog_bytes d)"
    and known: "knows h lms i maybe (located d) (entries st)"
    using live by (auto simp: live_def)
  have rec: "record_ok (key, ?l)" by (rule stored_record_ok [OF hashes segments room key])
  have located: "located d' = located (with_frame h payload st d)"
    by (rule ext) (simp add: located_def files with_frame_def facts(6) split: option.split)
  have grow: "grows (located d) (located d')" unfolding located with_frame_def by (rule facts(3))
  have stored: "frame_in h lms (located d') ?l payload"
    unfolding located by (rule stored_frame_in [OF hashes segments size room])
  have "length ?cut \<le> catalog_frame_len" using length_catalog_frame [OF hashes rec] by simp
  then have len: "length (catalog_bytes d') \<le> max_catalog_bytes lms" using quota rows(3) by (simp add: tail)
  have known': "knows h lms i maybe (located d') (entries st)" by (rule knows_grows [OF known grow]) simp
  show kept: "knows h lms i ?maybe' (located d') (entries st)"
    by (rule knows_grows [OF known' grows_refl]) auto
  show added: "knows h lms i (maybe(key := S)) (located d') ((entries st)(key \<mapsto> ?l))" if "Some payload \<in> S" for S
    by (rule knows_insert [OF known' stored that])
  show complete: "\<exists>rows. rows_ok h lms d' rows [] \<and> entries_of rows = (entries st)(key \<mapsto> ?l)" if whole
  proof (intro exI conjI)
    show "rows_ok h lms d' (rows @ [(key, ?l)]) []"
      using rows(1) that rec len by (simp add: rows_ok_def tail whole_def torn_def)
    show "entries_of (rows @ [(key, ?l)]) = (entries st)(key \<mapsto> ?l)" by (simp add: entries_of_snoc rows(2))
  qed
  have "files_ok d'"
    using facts(4) by (simp add: files_ok_def files with_frame_def facts(6))
  moreover have "\<exists>rows tail. rows_ok h lms d' rows tail \<and> knows h lms i ?maybe' (located d') (entries_of rows)"
  proof (cases whole)
    case True
    then show ?thesis using complete added [of "insert (Some payload) (maybe key)"] by auto
  next
    case False
    then have "torn h ?cut" using torn_append [OF hashes rec] by (auto simp: whole_def)
    then have "rows_ok h lms d' rows ?cut" using rows(1) len by (simp add: rows_ok_def tail)
    then show ?thesis using kept rows(2) by auto
  qed
  ultimately show "disk_ok h lms i ?maybe' d'" by (simp add: disk_ok_def)
qed

lemma artifact_append:
  assumes "segments_ok st d" and "append_durable w bs (bt_get (active_files d) (active_generation st)) = (written, content)"
  shows "written \<Longrightarrow> d\<lparr>active_files := put_file (active_generation st) content (active_files d)\<rparr>
      = with_active (active_generation st) (old_active st d @ bs) d"
    and "\<not> written \<Longrightarrow> d\<lparr>active_files := put_file (active_generation st) content (active_files d)\<rparr> = d
      \<or> (\<exists>xs. d\<lparr>active_files := put_file (active_generation st) content (active_files d)\<rparr>
            = with_active (active_generation st) (old_active st d @ xs) d)"
proof -
  have old: "case_option [] id (bt_get (active_files d) (active_generation st)) = old_active st d"
    by (simp add: old_active_def split: option.split)
  show "written \<Longrightarrow> d\<lparr>active_files := put_file (active_generation st) content (active_files d)\<rparr>
      = with_active (active_generation st) (old_active st d @ bs) d"
    using assms(2) by (cases w) (auto simp: with_active_def old)
  show "\<not> written \<Longrightarrow> d\<lparr>active_files := put_file (active_generation st) content (active_files d)\<rparr> = d
      \<or> (\<exists>xs. d\<lparr>active_files := put_file (active_generation st) content (active_files d)\<rparr>
            = with_active (active_generation st) (old_active st d @ xs) d)"
  proof (cases w)
    case NotOpened
    then have "put_file (active_generation st) content (active_files d) = active_files d"
      using assms by (auto simp: put_file_def segments_ok_def split: if_splits option.splits)
    then show ?thesis by simp
  next
    case (CutOff n)
    then show ?thesis using assms(2) by (auto simp: with_active_def old)
  qed (use assms(2) in simp)
qed

definition after_put :: "cache_error option \<Rightarrow> bytes \<Rightarrow> bytes \<Rightarrow> (bytes \<Rightarrow> bytes option set) \<Rightarrow> bytes \<Rightarrow> bytes option set" where
  "after_put e key payload maybe =
     (case e of None \<Rightarrow> maybe(key := {Some payload}) | Some _ \<Rightarrow> maybe(key := insert (Some payload) (maybe key)))"

lemma after_failed_more: "e \<noteq> None \<Longrightarrow> maybe k \<subseteq> after_put e key payload maybe k"
  by (auto simp: after_put_def)

lemma store_frame_ok:
  assumes hashes: "hashes_ok h" and limits: "limits_ok lms" and live: "live h lms i maybe st d"
    and size: "length payload \<le> max_artifact_bytes lms" and key: "length key = 32"
    and room: "active_len st + length (frame h payload) \<le> max_segment_bytes lms"
    and quota: "catalog_len st + catalog_frame_len \<le> max_catalog_bytes lms"
    and run: "store_frame h f key payload i st d c = (e, c', d')"
  shows "\<exists>st'. shards c' = (shards c)[i := st'] \<and> cache_limits_of c' = cache_limits_of c
    \<and> (store_disabled c' \<longleftrightarrow> store_disabled c \<or> e \<noteq> None)
    \<and> state_ok h lms i (after_put e key payload maybe) (e \<noteq> None) st' d'"
proof -
  have segments: "segments_ok st d" using live by (simp add: live_def)
  let ?g = "active_generation st" and ?l = "stored_location h payload st"
  obtain written content where artifact: "append_durable (artifact_write f) (frame h payload) (bt_get (active_files d) ?g) = (written, content)"
    by fastforce
  let ?d = "d\<lparr>active_files := put_file ?g content (active_files d)\<rparr>"
  show ?thesis
  proof (cases written)
    case False
    then have out: "e = Some CacheIo" "c' = after_failed_artifact i content st c" "d' = ?d"
      using run by (auto simp: store_frame_def Let_def artifact)
    define st' where "st' = (case content of None \<Rightarrow> st | Some bs \<Rightarrow> st\<lparr>active_len := length bs\<rparr>)"
    have "st' = st \<or> (\<exists>n. st' = st\<lparr>active_len := n\<rparr>)" by (auto simp: st'_def split: option.split)
    moreover have "?d = d \<or> (\<exists>xs. ?d = with_active ?g (old_active st d @ xs) d)"
      by (rule artifact_append(2) [OF segments artifact False])
    ultimately have "state_ok h lms i (after_put e key payload maybe) True st' ?d"
      by (intro failed_artifact_ok [OF live]) (simp_all add: out(1) after_failed_more)
    moreover have "shards c' = (shards c)[i := st']" "cache_limits_of c' = cache_limits_of c" "store_disabled c'"
      by (simp_all add: out(2) after_failed_artifact_def update_shard_def st'_def Let_def split: option.split)
    ultimately show ?thesis using out by auto
  next
    case True
    have d1: "?d = with_frame h payload st d"
      unfolding with_frame_def by (rule artifact_append(1) [OF segments artifact True])
    have small: "active_len st + length (frame h payload) < 2 ^ 64"
      by (rule usize_small [OF room]) (use limits in \<open>simp add: limits_ok_def\<close>)
    have new_len: "saturating_add (active_len st) (length (frame h payload)) = active_len st + length (frame h payload)"
      using room limits by (simp add: saturating_add_def limits_ok_def)
    obtain written' content' where catalog: "append_durable (catalog_write f) (catalog_frame h (key, ?l)) (catalog_file d) = (written', content')"
      by fastforce
    let ?st = "st\<lparr>active_len := active_len st + length (frame h payload), active_exists := True\<rparr>"
    have d': "d' = ?d\<lparr>catalog_file := content'\<rparr>"
      using run True catalog by (auto simp: store_frame_def Let_def artifact stored_location_def [symmetric] split: prod.splits if_splits)
    have files: "active_files d' = active_files (with_frame h payload st d)" "sealed_files d' = sealed_files d"
      by (simp_all add: d' d1 [symmetric])
    obtain n where tail: "catalog_bytes d' = catalog_bytes d @ take n (catalog_frame h (key, ?l))"
      and whole: "written' \<Longrightarrow> take n (catalog_frame h (key, ?l)) = catalog_frame h (key, ?l)"
    proof (cases "catalog_write f")
      case WriteDone
      have "catalog_bytes d' = catalog_bytes d @ take (length (catalog_frame h (key, ?l))) (catalog_frame h (key, ?l))"
        using catalog WriteDone by (auto simp: d' catalog_bytes_def split: option.split)
      then show ?thesis by (rule that) simp
    next
      case NotOpened
      have "catalog_bytes d' = catalog_bytes d @ take 0 (catalog_frame h (key, ?l))"
        using catalog NotOpened by (simp add: d' catalog_bytes_def)
      then show ?thesis by (rule that) (use catalog NotOpened in simp)
    next
      case (CutOff m)
      have "catalog_bytes d' = catalog_bytes d @ take m (catalog_frame h (key, ?l))"
        using catalog CutOff by (auto simp: d' catalog_bytes_def split: option.split)
      then show ?thesis by (rule that) (use catalog CutOff in simp)
    qed
    note stored = stored_catalog_ok [OF hashes live size small key quota tail files]
    have active: "active_files d' = [(?g, old_active st d @ frame h payload)]"
      using with_active_facts(1) [OF segments] by (simp add: files(1) with_frame_def)
    have old_len: "length (old_active st d) = active_len st" by (rule with_active_facts(2) [OF segments])
    have segments': "segments_ok (?st\<lparr>entries := es, catalog_len := m\<rparr>) d'" for es m
      using segments hashes old_len by (simp add: segments_ok_def active files(2))
    show ?thesis
    proof (cases written')
      case False
      have out: "e = Some CacheIo" "shards c' = (shards c)[i := ?st]" "cache_limits_of c' = cache_limits_of c" "store_disabled c'"
        using run True False catalog
        by (auto simp: store_frame_def Let_def artifact stored_location_def [symmetric] new_len update_shard_def split: prod.splits if_splits)
      have "selected_file ?st d' = located d'"
        using selected_located [OF segments' [where es = "entries st" and m = "catalog_len st"]] by (simp add: selected_file_def fun_eq_iff)
      then have "state_ok h lms i (after_put e key payload maybe) True ?st d'"
        using stored(1,3) by (simp add: state_ok_def out(1) after_put_def)
      then show ?thesis using out by auto
    next
      case True': True
      let ?st' = "?st\<lparr>entries := (entries st)(key \<mapsto> ?l), catalog_len := catalog_len st + catalog_frame_len\<rparr>"
      have new_catalog: "saturating_add (catalog_len st) catalog_frame_len = catalog_len st + catalog_frame_len"
        using quota limits by (simp add: saturating_add_def limits_ok_def)
      have out: "e = None" "shards c' = (shards c)[i := ?st']" "cache_limits_of c' = cache_limits_of c" "store_disabled c' = store_disabled c"
        using run True True' catalog
        by (auto simp: store_frame_def Let_def artifact stored_location_def [symmetric] new_len new_catalog update_shard_def split: prod.splits if_splits)
      have rec: "record_ok (key, ?l)" by (rule stored_record_ok [OF hashes segments small key])
      have "length (catalog_bytes d') = catalog_len st + catalog_frame_len"
        using live whole [OF True'] length_catalog_frame [OF hashes rec] by (auto simp: tail live_def)
      then have "live h lms i (maybe(key := {Some payload})) ?st' d'"
        using segments' stored(2) [OF whole [OF True']] stored(4) [of "{Some payload}"] by (auto simp: live_def)
      then have "state_ok h lms i (after_put e key payload maybe) False ?st' d'"
        by (simp add: out(1) after_put_def live_state_ok)
      then show ?thesis using out by auto
    qed
  qed
qed

definition cache_ok :: "hashes \<Rightarrow> cache_limits \<Rightarrow> (bytes \<Rightarrow> bytes option set) \<Rightarrow> runtime_cache \<Rightarrow> disk_shard list \<Rightarrow> bool" where
  "cache_ok h lms maybe c disk \<longleftrightarrow>
     cache_limits_of c = lms \<and> length (shards c) = 64 \<and> length disk = 64
     \<and> (\<forall>i < 64. state_ok h lms i maybe (store_disabled c) (shards c ! i) (disk ! i))"

lemma shard_small: "shard_for_key key < 64"
  by (simp add: shard_for_key_def)

lemma cache_ok_failed:
  assumes "cache_ok h lms maybe c disk" and "e \<noteq> None" and "c' = c \<or> c' = c\<lparr>store_disabled := True\<rparr>"
  shows "cache_ok h lms (after_put e key payload maybe) c' disk"
proof -
  have "state_ok h lms i (after_put e key payload maybe) (store_disabled c') (shards c ! i) (disk ! i)" if "i < 64" for i
    by (rule state_ok_mono [of h lms i maybe "store_disabled c"])
      (use assms that after_failed_more [OF assms(2)] in \<open>auto simp: cache_ok_def\<close>)
  then show ?thesis using assms(1,3) by (auto simp: cache_ok_def)
qed

lemma refuse_put_None:
  assumes "refuse_put h c key payload = None" and "limits_ok (cache_limits_of c)"
  shows "\<not> store_disabled c" and "length payload \<le> max_artifact_bytes (cache_limits_of c)"
    and "length (frame h payload) \<le> max_segment_bytes (cache_limits_of c)"
    and "catalog_len (shards c ! shard_for_key key) + catalog_frame_len \<le> max_catalog_bytes (cache_limits_of c)"
proof -
  have *: "\<not> store_disabled c" "\<not> length payload > max_artifact_bytes (cache_limits_of c)"
    "\<not> length (frame h payload) > max_segment_bytes (cache_limits_of c)"
    "\<not> saturating_add (catalog_len (shards c ! shard_for_key key)) catalog_frame_len > max_catalog_bytes (cache_limits_of c)"
    using assms(1) unfolding refuse_put_def Let_def by (metis option.distinct(1))+
  show "\<not> store_disabled c" "length payload \<le> max_artifact_bytes (cache_limits_of c)"
    "length (frame h payload) \<le> max_segment_bytes (cache_limits_of c)"
    using *(1-3) by simp_all
  show "catalog_len (shards c ! shard_for_key key) + catalog_frame_len \<le> max_catalog_bytes (cache_limits_of c)"
    using not_saturated [OF *(4)] assms(2) by (simp add: limits_ok_def)
qed

lemma put_ok:
  assumes hashes: "hashes_ok h" and limits: "limits_ok lms" and ok: "cache_ok h lms maybe c disk" and key: "length key = 32"
    and run: "put h f key payload c disk = (e, c', disk')"
  shows "cache_ok h lms (after_put e key payload maybe) c' disk'"
proof (cases "refuse_put h c key payload")
  case (Some e')
  then have "e = Some e'" "c' = c" "disk' = disk" using run by (simp_all add: put_def)
  then show ?thesis using cache_ok_failed [OF ok] by simp
next
  case None
  let ?i = "shard_for_key key" and ?n = "length (frame h payload)"
  have lms: "cache_limits_of c = lms" and len: "length (shards c) = 64" "length disk = 64"
    and states: "\<And>i. i < 64 \<Longrightarrow> state_ok h lms i maybe (store_disabled c) (shards c ! i) (disk ! i)"
    using ok by (simp_all add: cache_ok_def)
  note allowed = refuse_put_None [OF None, unfolded lms, OF limits]
  have live: "live h lms ?i maybe (shards c ! ?i) (disk ! ?i)"
    using states [OF shard_small] allowed(1) by (simp add: state_ok_def)
  show ?thesis
  proof (cases "rotate_segment lms (rename_works f) ?n (shards c ! ?i) (disk ! ?i)")
    case (NotRotated e' disable)
    then have "e = Some e'" "disk' = disk" "c' = c \<or> c' = c\<lparr>store_disabled := True\<rparr>"
      using run None by (auto simp: put_def lms Let_def split: if_splits)
    then show ?thesis using cache_ok_failed [OF ok] by simp
  next
    case (Rotated st d)
    have live': "live h lms ?i maybe st d" and room: "active_len st + ?n \<le> max_segment_bytes lms"
      and quota: "catalog_len st + catalog_frame_len \<le> max_catalog_bytes lms"
      using rotate_live [OF live Rotated limits allowed(3)] allowed(4) by simp_all
    obtain d' where store: "store_frame h f key payload ?i st d c = (e, c', d')" and disk': "disk' = disk[?i := d']"
      using run None Rotated by (auto simp: put_def lms Let_def split: prod.splits)
    obtain st' where st': "shards c' = (shards c)[?i := st']" "cache_limits_of c' = cache_limits_of c"
      "store_disabled c' \<longleftrightarrow> store_disabled c \<or> e \<noteq> None"
      "state_ok h lms ?i (after_put e key payload maybe) (e \<noteq> None) st' d'"
      using store_frame_ok [OF hashes limits live' allowed(2) key room quota store] by blast
    have "state_ok h lms i (after_put e key payload maybe) (store_disabled c') (shards c' ! i) (disk' ! i)" if "i < 64" for i
    proof (cases "i = ?i")
      case True
      then show ?thesis using st' allowed(1) len that by (simp add: disk')
    next
      case False
      then have "state_ok h lms i maybe (store_disabled c') (shards c ! i) (disk ! i)"
        using state_ok_mono [OF states [OF that] order_refl] st'(3) by blast
      moreover have "after_put e key payload maybe k = maybe k" if "shard_for_key k = i" for k
        using that False by (auto simp: after_put_def split: option.split)
      ultimately show ?thesis using state_ok_cong False by (simp add: st'(1) disk')
    qed
    then show ?thesis using lms len by (simp add: cache_ok_def st'(1,2) disk')
  qed
qed

section \<open>Opening keeps what is known\<close>

lemma newest_sealed_bound: "newest_sealed d = Some g \<Longrightarrow> s \<in> fst ` set (sealed_files d) \<Longrightarrow> s \<le> g"
proof -
  assume "newest_sealed d = Some g" and s: "s \<in> fst ` set (sealed_files d)"
  then have "g = Max (fst ` set (sealed_files d))" by (auto simp: newest_sealed_def split: if_splits)
  then show ?thesis using Max_ge [OF _ s] by simp
qed

lemma newest_sealed_None: "newest_sealed d = None \<longleftrightarrow> sealed_files d = []"
  by (simp add: newest_sealed_def)

text \<open>What the scan of a directory finds is the segment to write to, unless generations are exhausted.\<close>

lemma discovered_segments:
  assumes files: "files_ok d" and found: "discover_shard_artifacts me mt d = Inr f"
    and st: "active_generation st = found_generation f" "active_len st = found_len f" "active_exists st = found_exists f"
  shows "selected_file st d = located d" and "\<not> found_exhausted f \<Longrightarrow> segments_ok st d"
proof -
  consider (none) "active_files d = []" "newest_sealed d = None"
    | (sealed) g where "active_files d = []" "newest_sealed d = Some g"
    | (active) g bs where "active_files d = [(g, bs)]" "g < 2 ^ 64" "\<forall>s \<in> fst ` set (sealed_files d). s < g"
    using files by (cases "newest_sealed d") (auto simp: files_ok_def)
  then have "selected_file st d = located d \<and> (\<not> found_exhausted f \<longrightarrow> segments_ok st d)"
  proof cases
    case none
    then have "sealed_files d = []" by (simp add: newest_sealed_None)
    then show ?thesis
      using none found st
      by (auto simp: discover_shard_artifacts_def Let_def segments_ok_def fun_eq_iff selected_file_def located_def split: if_splits)
  next
    case sealed
    have bound: "s \<le> g" if "s \<in> fst ` set (sealed_files d)" for s by (rule newest_sealed_bound [OF sealed(2) that])
    have "active_exists st = False" "active_len st = 0"
      "active_generation st = (if g + 1 < 2 ^ 64 then g + 1 else g)" "found_exhausted f \<longleftrightarrow> \<not> g + 1 < 2 ^ 64"
      using found st by (auto simp: discover_shard_artifacts_def Let_def sealed split: if_splits)
    then show ?thesis
      using files sealed(1) le_less_trans [OF bound]
      by (auto simp: segments_ok_def files_ok_def fun_eq_iff selected_file_def located_def less_Suc_eq_le bound)
  next
    case (active g bs)
    have "active_exists st" "active_len st = length bs" "active_generation st = g"
      using found st by (auto simp: discover_shard_artifacts_def Let_def active(1) split: if_splits)
    then show ?thesis
      using files active by (auto simp: segments_ok_def files_ok_def fun_eq_iff selected_file_def located_def)
  qed
  then show "selected_file st d = located d" "\<not> found_exhausted f \<Longrightarrow> segments_ok st d" by simp_all
qed

lemma read_catalog_rows:
  assumes "hashes_ok h" and "rows_ok h lms d rows tail"
  shows "load_entries (read_catalog h lms d) = entries_of rows" and "load_len (read_catalog h lms d) = length (catalog_text h rows)"
    and "load_repair (read_catalog h lms d) \<longleftrightarrow> tail \<noteq> []"
proof -
  have whole: "catalog_bytes d = catalog_text h rows @ tail" and rows: "list_all record_ok rows" and tail: "torn h tail"
    and small: "length (catalog_bytes d) \<le> max_catalog_bytes lms"
    using assms(2) unfolding rows_ok_def by blast+
  have "load_entries (read_catalog h lms d) = entries_of rows \<and> load_len (read_catalog h lms d) = length (catalog_text h rows)
      \<and> (load_repair (read_catalog h lms d) \<longleftrightarrow> tail \<noteq> [])"
  proof (cases "catalog_file d")
    case None
    then have none: "catalog_text h rows = []" "tail = []" using whole by (auto simp: catalog_bytes_def)
    have "rows = []"
    proof (cases rows)
      case (Cons r rs)
      then have "length (catalog_frame h r) = catalog_frame_len" using length_catalog_frame [OF assms(1), of r] rows by simp
      then show ?thesis using none(1) by (simp add: Cons catalog_frame_len_def)
    qed
    then show ?thesis using none by (simp add: read_catalog_def None entries_of_def)
  next
    case (Some bs)
    then have bs: "bs = catalog_text h rows @ tail" using whole by (simp add: catalog_bytes_def)
    have "catalog_rows h bs = (rows, length (catalog_text h rows))"
      unfolding bs by (rule catalog_rows_text [OF assms(1) rows tail])
    moreover have "\<not> max_catalog_bytes lms < length bs" using small Some by (simp add: catalog_bytes_def)
    ultimately show ?thesis by (simp add: read_catalog_def Some Let_def bs)
  qed
  then show "load_entries (read_catalog h lms d) = entries_of rows" "load_len (read_catalog h lms d) = length (catalog_text h rows)"
    "load_repair (read_catalog h lms d) \<longleftrightarrow> tail \<noteq> []"
    by simp_all
qed

lemma open_shard_ok:
  assumes hashes: "hashes_ok h" and disk: "disk_ok h lms i maybe d" and run: "open_shard h lms t d = Inr (d', st, t')"
    and final: "open_exhausted t' \<longrightarrow> disabled"
  shows "state_ok h lms i maybe disabled st d'"
proof -
  obtain rows tail where rows: "rows_ok h lms d rows tail" and known: "knows h lms i maybe (located d) (entries_of rows)"
    and files: "files_ok d"
    using disk by (auto simp: disk_ok_def)
  note catalog = read_catalog_rows [OF hashes rows]
  have d': "d' = (if tail \<noteq> [] then truncate_catalog_tail (length (catalog_text h rows)) d else d)"
    using run by (auto simp: open_shard_def Let_def catalog split: if_splits sum.splits)
  obtain f where found: "discover_shard_artifacts (max_shard_entries lms) (max_total_artifact_bytes lms) d' = Inr f"
    and st: "entries st = entries_of rows" "active_generation st = found_generation f" "active_len st = found_len f"
      "active_exists st = found_exists f" "catalog_len st = length (catalog_text h rows)"
    and t': "open_exhausted t' \<longleftrightarrow> open_exhausted t \<or> found_exhausted f"
    using run by (auto simp: open_shard_def Let_def catalog d' [symmetric] split: if_splits sum.splits)
  have same: "active_files d' = active_files d" "sealed_files d' = sealed_files d"
    by (simp_all add: d' truncate_catalog_tail_def)
  have bytes: "catalog_bytes d' = catalog_text h rows"
    using rows by (auto simp: d' truncate_catalog_tail_def catalog_bytes_def rows_ok_def split: option.splits)
  then have rows': "rows_ok h lms d' rows []" using rows by (auto simp: rows_ok_def torn_def)
  have located: "located d' = located d" by (rule ext) (simp add: located_def same split: option.split)
  have files': "files_ok d'" using files by (simp add: files_ok_def same)
  note segments = discovered_segments [OF files' found st(2-4)]
  have "disk_ok h lms i maybe d'" using files' rows' known by (auto simp: disk_ok_def located)
  moreover have "knows h lms i maybe (selected_file st d') (entries st)" using known by (simp add: segments(1) located st(1))
  moreover have "live h lms i maybe st d'" if "\<not> disabled"
    using segments(2) that final t' known rows' bytes st by (auto simp: live_def located)
  ultimately show ?thesis by (simp add: state_ok_def)
qed

lemma open_shard_exhausted: "open_shard h lms t d = Inr (d', st, t') \<Longrightarrow> open_exhausted t \<Longrightarrow> open_exhausted t'"
  by (auto simp: open_shard_def Let_def split: if_splits sum.splits)

lemma open_shards_exhausted: "open_shards h lms t ds = Inr (ds', sts, t') \<Longrightarrow> open_exhausted t \<Longrightarrow> open_exhausted t'"
  by (induction ds arbitrary: t ds' sts) (auto split: sum.splits prod.splits dest: open_shard_exhausted)

lemma open_shards_ok:
  assumes "hashes_ok h"
  shows "open_shards h lms t ds = Inr (ds', sts, t') \<Longrightarrow> \<forall>j < length ds. disk_ok h lms (i + j) maybe (ds ! j) \<Longrightarrow>
    length ds' = length ds \<and> length sts = length ds
    \<and> (\<forall>j < length ds. state_ok h lms (i + j) maybe (open_exhausted t') (sts ! j) (ds' ! j))"
proof (induction ds arbitrary: t ds' sts i)
  case (Cons d ds)
  obtain e st u where first: "open_shard h lms t d = Inr (e, st, u)"
    using Cons.prems(1) by (auto split: sum.splits)
  obtain es sts' where rest: "open_shards h lms u ds = Inr (es, sts', t')" and out: "ds' = e # es" "sts = st # sts'"
    using Cons.prems(1) first by (auto split: sum.splits)
  have "disk_ok h lms i maybe d" using Cons.prems(2) by auto
  then have "state_ok h lms i maybe (open_exhausted t') st e"
    by (rule open_shard_ok [OF assms _ first]) (use open_shards_exhausted [OF rest] in blast)
  moreover have "\<forall>j < length ds. disk_ok h lms (Suc i + j) maybe (ds ! j)" using Cons.prems(2) by force
  note tail = Cons.IH [OF rest this]
  ultimately show ?case using tail by (auto simp: out nth_Cons split: nat.split)
qed simp

lemma open_ok:
  assumes "hashes_ok h" and "open_with_limits h lms disk = Inr (c, disk')" and "length disk = 64"
    and "\<forall>i < 64. disk_ok h lms i maybe (disk ! i)"
  shows "cache_ok h lms maybe c disk'"
proof -
  obtain sts t where run: "open_shards h lms no_totals disk = Inr (disk', sts, t)" and c: "shards c = sts" "cache_limits_of c = lms"
    "store_disabled c = open_exhausted t"
    using assms(2) by (auto simp: open_with_limits_def split: option.splits sum.splits)
  show ?thesis
    using open_shards_ok [OF assms(1) run, of 0 maybe] assms(3,4) by (simp add: cache_ok_def c)
qed

section \<open>The cache never lies\<close>

text \<open>A life of the cache: stores, and openings after the process has ended. Beside the cache and its disk it
  keeps what may be under each key: exactly the payload after a store that succeeded; also what was there
  before after one that failed.\<close>

datatype cache_op = Put bytes bytes put_faults | Reopen

fun cache_run ::
  "hashes \<Rightarrow> cache_limits \<Rightarrow> cache_op list \<Rightarrow> runtime_cache \<times> disk_shard list \<times> (bytes \<Rightarrow> bytes option set)
    \<Rightarrow> cache_error + runtime_cache \<times> disk_shard list \<times> (bytes \<Rightarrow> bytes option set)" where
  "cache_run h lms [] s = Inr s"
| "cache_run h lms (Put key payload f # ops) (c, disk, maybe) =
     (let (e, c', disk') = put h f key payload c disk
      in cache_run h lms ops (c', disk', after_put e key payload maybe))"
| "cache_run h lms (Reopen # ops) (c, disk, maybe) =
     (case open_with_limits h lms disk of
        Inl e \<Rightarrow> Inl e
      | Inr (c', disk') \<Rightarrow> cache_run h lms ops (c', disk', maybe))"

definition empty_disk :: "disk_shard list" where
  "empty_disk = replicate 64 \<lparr>catalog_file = None, active_files = [], sealed_files = []\<rparr>"

definition cache_life :: "hashes \<Rightarrow> cache_limits \<Rightarrow> cache_op list \<Rightarrow> cache_error + runtime_cache \<times> disk_shard list \<times> (bytes \<Rightarrow> bytes option set)" where
  "cache_life h lms ops =
     (case open_with_limits h lms empty_disk of
        Inl e \<Rightarrow> Inl e
      | Inr (c, disk) \<Rightarrow> cache_run h lms ops (c, disk, \<lambda>_. {None}))"

definition op_key_ok :: "cache_op \<Rightarrow> bool" where
  "op_key_ok op = (case op of Put key _ _ \<Rightarrow> length key = 32 | Reopen \<Rightarrow> True)"

lemma cache_run_ok:
  assumes "hashes_ok h" and "limits_ok lms"
  shows "cache_run h lms ops (c, disk, maybe) = Inr (c', disk', maybe') \<Longrightarrow> list_all op_key_ok ops \<Longrightarrow>
    cache_ok h lms maybe c disk \<Longrightarrow> cache_ok h lms maybe' c' disk'"
proof (induction ops arbitrary: c disk maybe)
  case (Cons op ops)
  show ?case
  proof (cases op)
    case (Put key payload f)
    obtain e c1 d1 where run: "put h f key payload c disk = (e, c1, d1)" by (metis prod_cases3)
    have "length key = 32" using Cons.prems(2) by (simp add: Put op_key_ok_def)
    then have "cache_ok h lms (after_put e key payload maybe) c1 d1"
      by (rule put_ok [OF assms Cons.prems(3) _ run])
    then show ?thesis using Cons.IH Cons.prems(1,2) by (simp add: Put run)
  next
    case Reopen
    then obtain c1 d1 where run: "open_with_limits h lms disk = Inr (c1, d1)"
      and rest: "cache_run h lms ops (c1, d1, maybe) = Inr (c', disk', maybe')"
      using Cons.prems(1) by (auto split: sum.splits)
    have "cache_ok h lms maybe c1 d1"
      by (rule open_ok [OF assms(1) run]) (use Cons.prems(3) in \<open>simp_all add: cache_ok_def state_ok_def\<close>)
    then show ?thesis using Cons.IH [OF rest] Cons.prems(2) by simp
  qed
qed simp

lemma empty_disk_ok: "i < 64 \<Longrightarrow> disk_ok h lms i (\<lambda>_. {None}) (empty_disk ! i)"
  by (auto simp: disk_ok_def empty_disk_def files_ok_def rows_ok_def catalog_bytes_def torn_def knows_def knows_entry_def
      entries_of_def intro!: exI [of _ "[]"])

text \<open>
  C24: through any sequence of stores, with writes that fail or are cut off, and of openings that repair what
  was cut off, a probe answers with a payload that may be under its key or, if there may be none, that there
  is none; it never rejects an entry. So a store that succeeded is read back, also after the cache was opened
  again, until the next store under its key, and no key ever answers with bytes that were not stored under it.
\<close>

theorem cache_never_lies:
  assumes "cache_life h lms ops = Inr (c, disk, maybe)" and "hashes_ok h" and "limits_ok lms"
    and "list_all op_key_ok ops" and "length key = 32"
  shows "case probe h c disk key of
      ProbeHit payload \<Rightarrow> Some payload \<in> maybe key | ProbeMissing \<Rightarrow> None \<in> maybe key | RejectedCorruptOrStale \<Rightarrow> False"
proof -
  obtain c0 d0 where first: "open_with_limits h lms empty_disk = Inr (c0, d0)"
    and run: "cache_run h lms ops (c0, d0, \<lambda>_. {None}) = Inr (c, disk, maybe)"
    using assms(1) by (auto simp: cache_life_def split: sum.splits)
  have "cache_ok h lms (\<lambda>_. {None}) c0 d0"
    by (rule open_ok [OF assms(2) first]) (simp_all add: empty_disk_ok, simp add: empty_disk_def)
  then have ok: "cache_ok h lms maybe c disk" by (rule cache_run_ok [OF assms(2,3) run assms(4)])
  then have "state_ok h lms (shard_for_key key) maybe (store_disabled c) (shards c ! shard_for_key key) (disk ! shard_for_key key)"
    using shard_small by (simp add: cache_ok_def)
  then show ?thesis
    using probe_knows [OF assms(2)] assms(5) ok by (simp add: state_ok_def cache_ok_def)
qed

text \<open>A store on an empty cache.\<close>

definition plain_hashes :: hashes where
  "plain_hashes = \<lparr>crc = \<lambda>_. 0, digest = \<lambda>_. replicate 32 0\<rparr>"

definition all_works :: put_faults where
  "all_works = \<lparr>rename_works = True, artifact_write = WriteDone, catalog_write = WriteDone\<rparr>"

definition sample_key :: bytes where "sample_key = replicate 32 0"

lemma open_empty:
  "open_shards h lms no_totals (replicate n \<lparr>catalog_file = None, active_files = [], sealed_files = []\<rparr>)
    = Inr (replicate n \<lparr>catalog_file = None, active_files = [], sealed_files = []\<rparr>,
        replicate n \<lparr>entries = \<lambda>_. None, active_generation = 0, active_len = 0, active_exists = False, catalog_len = 0\<rparr>, no_totals)"
proof (induction n)
  case (Suc n)
  have "open_shard h lms no_totals \<lparr>catalog_file = None, active_files = [], sealed_files = []\<rparr>
      = Inr (\<lparr>catalog_file = None, active_files = [], sealed_files = []\<rparr>,
          \<lparr>entries = \<lambda>_. None, active_generation = 0, active_len = 0, active_exists = False, catalog_len = 0\<rparr>, no_totals)"
    by (simp add: open_shard_def no_totals_def read_catalog_def discover_shard_artifacts_def newest_sealed_def Let_def saturating_add_def)
  then show ?case using Suc.IH by simp
qed simp

lemma first_store:
  "\<exists>c disk maybe. cache_life plain_hashes default_cache_limits [Put sample_key [7] all_works] = Inr (c, disk, maybe)
     \<and> maybe sample_key = {Some [7]}"
proof -
  let ?h = plain_hashes and ?lms = default_cache_limits
  have valid: "validate_limits ?lms = None"
    by (simp add: validate_limits_def default_cache_limits_def frame_header_len_def catalog_frame_len_def)
  define c where "c = \<lparr>cache_limits_of = ?lms, shards = replicate 64
        \<lparr>entries = \<lambda>_. None, active_generation = 0, active_len = 0, active_exists = False, catalog_len = 0\<rparr>,
      total_catalog_len = 0, total_artifact_len = 0, artifact_store_available = True, store_disabled = False\<rparr>"
  have opened: "open_with_limits ?h ?lms empty_disk = Inr (c, empty_disk)"
    using open_empty [of ?h ?lms 64] valid by (simp add: open_with_limits_def empty_disk_def c_def no_totals_def)
  have c: "cache_limits_of c = ?lms" "total_catalog_len c = 0" "total_artifact_len c = 0" "artifact_store_available c" "\<not> store_disabled c"
    "shards c = replicate 64 \<lparr>entries = \<lambda>_. None, active_generation = 0, active_len = 0, active_exists = False, catalog_len = 0\<rparr>"
    by (simp_all add: c_def)
  have len: "length (frame ?h [7]) = 57"
    by (simp add: plain_hashes_def frame_def)
  have shard: "shard_for_key sample_key = 0" by (simp add: shard_for_key_def sample_key_def)
  have "refuse_put ?h c sample_key [7] = None"
    by (simp add: refuse_put_def Let_def c shard len default_cache_limits_def catalog_frame_len_def saturating_add_def usize_max_def)
  moreover have "rotate_segment ?lms True n (shards c ! 0) d = Rotated (shards c ! 0) d" for n d
    by (simp add: rotate_segment_def c)
  moreover obtain c' d' where "store_frame ?h all_works sample_key [7] 0 (shards c ! 0) (empty_disk ! 0) c = (None, c', d')"
    by (simp add: store_frame_def Let_def all_works_def)
  ultimately have "put ?h all_works sample_key [7] c empty_disk = (None, c', empty_disk[0 := d'])"
    by (simp add: put_def Let_def shard c(1)) (simp add: all_works_def)
  then show ?thesis by (simp add: cache_life_def opened after_put_def)
qed

theorem cache_never_lies_witness:
  "\<exists>c disk maybe. cache_life plain_hashes default_cache_limits [Put sample_key [7] all_works] = Inr (c, disk, maybe)
     \<and> probe plain_hashes c disk sample_key = ProbeHit [7]"
proof -
  obtain c disk maybe where run: "cache_life plain_hashes default_cache_limits [Put sample_key [7] all_works] = Inr (c, disk, maybe)"
    and maybe: "maybe sample_key = {Some [7]}"
    using first_store by blast
  have "hashes_ok plain_hashes" "limits_ok default_cache_limits" "list_all op_key_ok [Put sample_key [7] all_works]" "length sample_key = 32"
    by (simp_all add: hashes_ok_def plain_hashes_def limits_ok_def default_cache_limits_def usize_max_def op_key_ok_def sample_key_def)
  then have "case probe plain_hashes c disk sample_key of
      ProbeHit payload \<Rightarrow> Some payload \<in> maybe sample_key | ProbeMissing \<Rightarrow> None \<in> maybe sample_key | RejectedCorruptOrStale \<Rightarrow> False"
    by (rule cache_never_lies [OF run])
  then show ?thesis using run maybe by (cases "probe plain_hashes c disk sample_key") auto
qed

end
