(* ===== verification/CacheService.thy ===== *)
theory CacheService
  imports RuntimeCache GraphIo
begin

text \<open>
  Around the runtime cache (\<open>graphoxide-index-runtime/src/cache.rs\<close>): the division of a memory budget, the
  commands its owner carries out with their counters, the read-only fallback to the older cache, and the names
  of files. Threads, channels and credits of the service are not modelled here; \<open>Credits\<close> has the ledger. The
  size of a command in memory is a parameter.
\<close>

section \<open>Memory\<close>

definition service_overhead :: nat where
  "service_overhead = 512 * 1024 + 64 * 1024"

definition catalog_entry_resident_bytes :: nat where
  "catalog_entry_resident_bytes = 256"

definition for_memory_budget :: "nat \<Rightarrow> nat \<Rightarrow> cache_limits" where
  "for_memory_budget command_size budget =
     (let managed = budget - min (2 * command_size) usize_max - service_overhead;
          transfer = managed div 4;
          catalog_entries = (managed - transfer * 2) div (catalog_entry_resident_bytes + catalog_frame_len);
          catalog_disk = min (catalog_entries * catalog_frame_len) usize_max
      in \<lparr>max_artifact_bytes = min (transfer - frame_header_len) 67108864, max_segment_bytes = 67108864,
          max_catalog_bytes = min catalog_disk 67108864, max_total_catalog_bytes = min catalog_disk 67108864,
          max_total_artifact_bytes = min (max (min (budget * 8) (2 ^ 64 - 1)) 67108864) 4294967296,
          max_shard_entries = 4096, max_total_shard_entries = 65536\<rparr>)"

record memory_accounting =
  service_overhead_bytes :: nat
  max_catalog_resident_bytes :: nat
  max_in_flight_transfer_bytes :: nat
  max_worker_scratch_bytes :: nat
  max_control_queue_bytes :: nat
  max_resident_bytes :: nat

definition memory_accounting_of :: "nat \<Rightarrow> cache_limits \<Rightarrow> nat \<Rightarrow> memory_accounting" where
  "memory_accounting_of command_size l queue_capacity =
     (let resident = min (max_total_catalog_bytes l div catalog_frame_len * catalog_entry_resident_bytes) usize_max;
          transfer = saturating_add (max_artifact_bytes l) frame_header_len;
          scratch = max (saturating_add (max_artifact_bytes l) frame_header_len) (max_catalog_bytes l);
          control = min (saturating_add queue_capacity 1 * command_size) usize_max
      in \<lparr>service_overhead_bytes = service_overhead, max_catalog_resident_bytes = resident,
          max_in_flight_transfer_bytes = transfer, max_worker_scratch_bytes = scratch, max_control_queue_bytes = control,
          max_resident_bytes =
            saturating_add (saturating_add (saturating_add (saturating_add service_overhead resident) transfer) scratch) control\<rparr>)"

record memory_usage =
  fixed_resident_bytes :: nat
  in_flight_transfer_bytes :: nat
  committed_bytes :: nat
  usage_max_resident_bytes :: nat

text \<open>What is in flight is the capacity of the transfer credits less what is available.\<close>

definition memory_usage_of :: "memory_accounting \<Rightarrow> nat \<Rightarrow> memory_usage" where
  "memory_usage_of a available_credit =
     (let in_flight = max_in_flight_transfer_bytes a - available_credit;
          fixed = max_resident_bytes a - max_in_flight_transfer_bytes a
      in \<lparr>fixed_resident_bytes = fixed, in_flight_transfer_bytes = in_flight,
          committed_bytes = saturating_add fixed in_flight, usage_max_resident_bytes = max_resident_bytes a\<rparr>)"

section \<open>The encoder\<close>

text \<open>Bytes written so far and the limit of the buffer.\<close>

definition encode_write :: "bytes \<Rightarrow> bytes \<times> nat \<Rightarrow> (bytes \<times> nat) option" where
  "encode_write bs = (\<lambda>(written, limit). if length bs > limit - length written then None else Some (written @ bs, limit))"

section \<open>Legacy files and retired names\<close>

definition legacy_digest_char :: "char \<Rightarrow> bool" where
  "legacy_digest_char c \<longleftrightarrow> ascii_digit c \<or> CHR ''a'' \<le> c \<and> c \<le> CHR ''f''"

definition is_legacy_ast_relative_path :: "string \<Rightarrow> bool" where
  "is_legacy_ast_relative_path p \<longleftrightarrow>
     \<not> path_is_absolute p
     \<and> (case path_components p of
          [(k1, cache), (k2, ast), (k3, version), (k4, name)] \<Rightarrow>
            [k1, k2, k3, k4] = [3, 3, 3, 3]
            \<and> (case (strip_prefix ''v'' version, strip_suffix ''.json'' name) of
                 (Some digits, Some hex) \<Rightarrow>
                   cache = ''cache'' \<and> ast = ''ast'' \<and> digits \<noteq> [] \<and> list_all ascii_digit digits
                   \<and> utf8_len hex = 64 \<and> list_all legacy_digest_char hex
               | _ \<Rightarrow> False)
        | _ \<Rightarrow> False)"

definition legacy_request_ok :: "string \<Rightarrow> nat \<Rightarrow> bool" where
  "legacy_request_ok p max_bytes \<longleftrightarrow> max_bytes \<noteq> 0 \<and> is_legacy_ast_relative_path p"

definition hex_value :: "char \<Rightarrow> nat" where
  "hex_value c = (if ascii_digit c then of_char c - 48 else of_char c - 87)"

definition retired_shard_index :: "string \<Rightarrow> nat option" where
  "retired_shard_index name =
     (case name of
        [a, b] \<Rightarrow>
          if legacy_digest_char a \<and> legacy_digest_char b \<and> 16 * hex_value a + hex_value b < 64
          then Some (16 * hex_value a + hex_value b) else None
      | _ \<Rightarrow> None)"

definition retired_artifact_name_is_valid :: "string \<Rightarrow> bool" where
  "retired_artifact_name_is_valid name \<longleftrightarrow>
     (case Option.bind (case strip_prefix ''active-'' name of None \<Rightarrow> strip_prefix ''sealed-'' name | Some v \<Rightarrow> Some v)
         (strip_suffix ''.gxa'') of
        None \<Rightarrow> False
      | Some generation \<Rightarrow>
          generation \<noteq> [] \<and> list_all ascii_digit generation
          \<and> (generation = ''0'' \<or> hd generation \<noteq> CHR ''0'') \<and> parse_u64 generation \<noteq> None)"

section \<open>The commands of the owner\<close>

record cache_counters =
  payload_bytes_read :: nat
  payload_bytes_written :: nat
  artifact_bytes_read :: nat
  artifact_bytes_written :: nat

definition record_read :: "nat \<Rightarrow> nat \<Rightarrow> cache_counters \<Rightarrow> cache_counters" where
  "record_read payload_bytes artifact_bytes t =
     t\<lparr>payload_bytes_read := saturating_add (payload_bytes_read t) payload_bytes,
       artifact_bytes_read := saturating_add (artifact_bytes_read t) artifact_bytes\<rparr>"

definition record_write :: "nat \<Rightarrow> cache_counters \<Rightarrow> cache_counters" where
  "record_write payload_bytes t =
     t\<lparr>payload_bytes_written := saturating_add (payload_bytes_written t) payload_bytes,
       artifact_bytes_written := saturating_add (artifact_bytes_written t) (runtime_cache_artifact_bytes payload_bytes)\<rparr>"

definition record_completed_read :: "probe_outcome \<Rightarrow> cache_counters \<Rightarrow> cache_counters" where
  "record_completed_read out t =
     (case out of ProbeHit p \<Rightarrow> record_read (length p) (frame_header_len + length p) t | _ \<Rightarrow> t)"

text \<open>The payload of a legacy file: framed, or the bytes themselves.\<close>

definition legacy_payload :: "hashes \<Rightarrow> nat \<Rightarrow> bytes \<Rightarrow> bytes option" where
  "legacy_payload h max_bytes bs =
     (if length bs > max_bytes then None
      else if take 8 bs = frame_magic
      then (case unframe_at h bs max_bytes of
              None \<Rightarrow> None
            | Some (payload, consumed) \<Rightarrow> if consumed \<noteq> length bs then None else Some payload)
      else Some bs)"

text \<open>The outcome, and whether an entry was rejected before the legacy file answered.\<close>

definition probe_or_legacy_file ::
  "hashes \<Rightarrow> runtime_cache \<Rightarrow> disk_shard list \<Rightarrow> bytes \<Rightarrow> nat \<Rightarrow> bytes option \<Rightarrow> probe_outcome \<times> bool" where
  "probe_or_legacy_file h c disk key max_bytes legacy =
     (case probe h c disk key of
        ProbeHit p \<Rightarrow> (ProbeHit p, False)
      | out \<Rightarrow>
          (case legacy of
             None \<Rightarrow> (out, False)
           | Some bs \<Rightarrow>
               (case legacy_payload h max_bytes bs of
                  None \<Rightarrow> (RejectedCorruptOrStale, False)
                | Some p \<Rightarrow> (ProbeHit p, out = RejectedCorruptOrStale))))"

definition get_or_legacy :: "hashes \<Rightarrow> runtime_cache \<Rightarrow> disk_shard list \<Rightarrow> bytes \<Rightarrow> bytes option \<Rightarrow> bytes option" where
  "get_or_legacy h c disk key legacy = (case probe h c disk key of ProbeHit p \<Rightarrow> Some p | _ \<Rightarrow> legacy)"

datatype persist_outcome = AlreadyPresent | Stored | RepairedRejected | ReplacedExisting | PersistFailed cache_error

definition persist ::
  "hashes \<Rightarrow> put_faults \<Rightarrow> bool \<Rightarrow> bytes \<Rightarrow> bytes \<Rightarrow> runtime_cache \<times> disk_shard list \<times> cache_counters
    \<Rightarrow> persist_outcome \<times> runtime_cache \<times> disk_shard list \<times> cache_counters" where
  "persist h f replace_existing key payload = (\<lambda>(c, disk, t).
     let store = (\<lambda>out. let (e, c', disk') = put h f key payload c disk
           in (case e of
                 None \<Rightarrow> (out, c', disk', record_write (length payload) t)
               | Some e \<Rightarrow> (PersistFailed e, c', disk', t)))
     in if replace_existing then store ReplacedExisting
        else case probe h c disk key of
          ProbeHit p \<Rightarrow> (AlreadyPresent, c, disk, record_completed_read (ProbeHit p) t)
        | ProbeMissing \<Rightarrow> store Stored
        | RejectedCorruptOrStale \<Rightarrow> store RepairedRejected)"

section \<open>What the owner promises\<close>

text \<open>On the disks that the cache writes itself no entry is ever found broken. What was stored is probed
  again; what was there already is left alone.\<close>

lemma persisted_is_probed:
  assumes ok: "cache_ok h lms maybe c disk" and hashes: "hashes_ok h" and limits: "limits_ok lms" and key: "length key = 32"
    and run: "persist h f replace_existing key payload (c, disk, t) = (out, c', disk', t')"
  shows "out \<noteq> RepairedRejected"
    and "out = Stored \<or> out = ReplacedExisting \<Longrightarrow> probe h c' disk' key = ProbeHit payload"
    and "out = AlreadyPresent \<Longrightarrow> c' = c \<and> disk' = disk"
proof -
  have probed: "case probe h c disk key of
      ProbeHit p \<Rightarrow> Some p \<in> maybe key | ProbeMissing \<Rightarrow> None \<in> maybe key | RejectedCorruptOrStale \<Rightarrow> False"
    if "cache_ok h lms maybe c disk" for maybe c disk
    using probe_knows [OF hashes _ key] that shard_small [of key] by (simp add: cache_ok_def state_ok_def)
  obtain e c1 d1 where put: "put h f key payload c disk = (e, c1, d1)" by (metis prod_cases3)
  show "out \<noteq> RepairedRejected"
    using run probed [OF ok] by (auto simp: persist_def put Let_def split: if_splits probe_outcome.splits option.splits)
  show "out = AlreadyPresent \<Longrightarrow> c' = c \<and> disk' = disk"
    using run by (auto simp: persist_def put Let_def split: if_splits probe_outcome.splits option.splits)
  show "probe h c' disk' key = ProbeHit payload" if "out = Stored \<or> out = ReplacedExisting"
  proof -
    have "e = None" "c' = c1" "disk' = d1"
      using run that by (auto simp: persist_def put Let_def split: if_splits probe_outcome.splits option.splits)
    then have "cache_ok h lms (maybe(key := {Some payload})) c' disk'"
      using put_ok [OF hashes limits ok key put] by (simp add: after_put_def)
    from probed [OF this] show ?thesis by (cases "probe h c' disk' key") simp_all
  qed
qed

text \<open>An encoder never writes more than was reserved for it.\<close>

lemma encode_write_bounded:
  "length written \<le> limit \<Longrightarrow> encode_write bs (written, limit) = Some (written', limit') \<Longrightarrow>
    limit' = limit \<and> written' = written @ bs \<and> length written' \<le> limit"
  by (auto simp: encode_write_def split: if_splits)

lemma catalog_share: "min (n * catalog_frame_len) m div catalog_frame_len \<le> n"
proof -
  have "min (n * catalog_frame_len) m div catalog_frame_len \<le> n * catalog_frame_len div catalog_frame_len"
    by (rule div_le_mono) simp
  then show ?thesis by (simp add: catalog_frame_len_def)
qed

text \<open>The share of the budget that is left for the cache, and what the limits make of it.\<close>

definition managed_share :: "nat \<Rightarrow> nat \<Rightarrow> nat" where
  "managed_share command_size budget = budget - 2 * command_size - service_overhead"

definition catalog_share_entries :: "nat \<Rightarrow> nat" where
  "catalog_share_entries managed = (managed - managed div 4 * 2) div (catalog_entry_resident_bytes + catalog_frame_len)"

lemma catalog_entries_fit: "catalog_share_entries managed * 256 + catalog_share_entries managed * catalog_frame_len \<le> managed - managed div 4 * 2"
proof -
  have "(catalog_entry_resident_bytes + catalog_frame_len) * catalog_share_entries managed \<le> managed - managed div 4 * 2"
    unfolding catalog_share_entries_def by (rule times_div_less_eq_dividend)
  then show ?thesis by (simp add: catalog_entry_resident_bytes_def catalog_frame_len_def algebra_simps)
qed

lemma limits_of_budget:
  assumes "budget < usize_max" "2 * command_size \<le> usize_max"
  shows "for_memory_budget command_size budget =
     (let disk = catalog_share_entries (managed_share command_size budget) * catalog_frame_len
      in \<lparr>max_artifact_bytes = min (managed_share command_size budget div 4 - frame_header_len) 67108864,
          max_segment_bytes = 67108864, max_catalog_bytes = min disk 67108864, max_total_catalog_bytes = min disk 67108864,
          max_total_artifact_bytes = min (max (min (budget * 8) (2 ^ 64 - 1)) 67108864) 4294967296,
          max_shard_entries = 4096, max_total_shard_entries = 65536\<rparr>)"
proof -
  have "catalog_share_entries (managed_share command_size budget) * catalog_frame_len \<le> usize_max"
    using catalog_entries_fit [of "managed_share command_size budget"] assms(1)
    by (simp add: managed_share_def)
  then show ?thesis
    using assms(2)
    by (simp only: for_memory_budget_def Let_def managed_share_def [symmetric] catalog_share_entries_def [symmetric]
        min_absorb1)
qed

text \<open>The limits are valid when an artifact and a catalog entry find room in the share.\<close>

lemma limits_of_budget_valid:
  assumes "budget < usize_max" "2 * command_size \<le> usize_max"
  shows "validate_limits (for_memory_budget command_size budget) = None \<longleftrightarrow>
    frame_header_len < managed_share command_size budget div 4
    \<and> 0 < catalog_share_entries (managed_share command_size budget)"
proof -
  have shape: "validate_limits
      \<lparr>max_artifact_bytes = a, max_segment_bytes = 67108864, max_catalog_bytes = k, max_total_catalog_bytes = k,
       max_total_artifact_bytes = m, max_shard_entries = 4096, max_total_shard_entries = 65536\<rparr> = None
      \<longleftrightarrow> 0 < a \<and> catalog_frame_len \<le> k" if "67108864 \<le> m" for a k m
    using that by (simp add: validate_limits_def frame_header_len_def not_less)
  have total: "67108864 \<le> min (max (min (budget * 8) (2 ^ 64 - 1)) 67108864) (4294967296 :: nat)"
    by (rule min.boundedI [OF max.cobounded2]) simp
  have "catalog_frame_len \<le> min (n * catalog_frame_len) 67108864 \<longleftrightarrow> 0 < n" for n
    by (cases n) (simp_all add: catalog_frame_len_def)
  then show ?thesis unfolding limits_of_budget [OF assms] Let_def shape [OF total] by simp
qed

text \<open>
  C25: of any memory budget, when the cache limits derived from it are valid, what they may keep in memory,
  with the stack of the owner, one queued command, a payload in transfer and one that is framed, stays within
  the budget. They are valid whenever the budget covers the overhead of the service, two commands and 1 KiB;
  a budget that does not cover the overhead and two commands is never accepted.
\<close>

theorem cache_budget_is_kept:
  assumes "budget < usize_max" and "2 * command_size \<le> usize_max"
  shows "(validate_limits (for_memory_budget command_size budget) = None \<longrightarrow>
        max_resident_bytes (memory_accounting_of command_size (for_memory_budget command_size budget) 1) \<le> budget)
    \<and> (service_overhead + 2 * command_size + 1024 \<le> budget \<longrightarrow>
        validate_limits (for_memory_budget command_size budget) = None)
    \<and> (budget \<le> service_overhead + 2 * command_size \<longrightarrow>
        validate_limits (for_memory_budget command_size budget) = Some InvalidLimits)"
proof -
  define managed where "managed = managed_share command_size budget"
  define transfer where "transfer = managed div 4"
  define n where "n = catalog_share_entries managed"
  define disk where "disk = n * catalog_frame_len"
  note limits = limits_of_budget [OF assms, folded managed_def n_def, unfolded Let_def, folded transfer_def disk_def]
  note valid = limits_of_budget_valid [OF assms, folded managed_def n_def, folded transfer_def]
  have share: "n * 256 + disk \<le> managed - transfer * 2"
    using catalog_entries_fit [of managed] by (simp add: n_def disk_def transfer_def)
  have quarter: "transfer * 4 \<le> managed" by (simp add: transfer_def)
  have "max_resident_bytes (memory_accounting_of command_size (for_memory_budget command_size budget) 1) \<le> budget"
    if "validate_limits (for_memory_budget command_size budget) = None"
  proof -
    have room: "frame_header_len < transfer" using valid that by blast
    then have managed: "managed + 2 * command_size + service_overhead \<le> budget"
      using quarter by (simp add: managed_def managed_share_def)
    define T where "T = min (transfer - frame_header_len) 67108864 + frame_header_len"
    define C where "C = min disk 67108864"
    define R where "R = C div catalog_frame_len * catalog_entry_resident_bytes"
    have T: "T \<le> transfer" using room by (simp add: T_def frame_header_len_def)
    have C: "C \<le> disk" by (simp add: C_def)
    have R: "R \<le> n * 256"
      unfolding R_def C_def disk_def catalog_entry_resident_bytes_def by (rule mult_right_mono [OF catalog_share]) simp
    have kept: "R + T + max T C \<le> managed"
      using R T C share quarter by (cases "T \<le> C") linarith+
    then have all: "service_overhead + R + T + max T C + 2 * command_size \<le> budget" using managed by linarith
    have plain: "saturating_add a b = a + b" if "a + b \<le> budget" for a b
      using that assms(1) by (simp add: saturating_add_def)
    have "max_resident_bytes (memory_accounting_of command_size (for_memory_budget command_size budget) 1)
        = saturating_add (saturating_add (saturating_add (saturating_add service_overhead (min R usize_max))
            (saturating_add (min (transfer - frame_header_len) 67108864) frame_header_len))
            (max (saturating_add (min (transfer - frame_header_len) 67108864) frame_header_len) C))
            (min (saturating_add 1 1 * command_size) usize_max)"
      unfolding limits memory_accounting_of_def Let_def by (simp add: R_def C_def)
    also have "\<dots> = service_overhead + R + T + max T C + 2 * command_size"
    proof -
      have "T \<le> budget" "R \<le> usize_max" using all assms(1) by linarith+
      then have "min R usize_max = R" "saturating_add (min (transfer - frame_header_len) 67108864) frame_header_len = T"
        using plain [of "min (transfer - frame_header_len) 67108864" frame_header_len] by (simp_all add: T_def)
      moreover have "saturating_add 1 1 = 2" by (simp add: saturating_add_def usize_max_def)
      moreover have "min (2 * command_size) usize_max = 2 * command_size" using assms(2) by simp
      ultimately show ?thesis using all by (simp only:) (simp add: plain)
    qed
    finally show ?thesis using all by simp
  qed
  moreover have "validate_limits (for_memory_budget command_size budget) = None"
    if "service_overhead + 2 * command_size + 1024 \<le> budget"
  proof -
    have managed: "1024 \<le> managed" using that by (simp add: managed_def managed_share_def)
    then have "401 \<le> managed - transfer * 2" using quarter by linarith
    then have "0 < n"
      by (simp add: n_def catalog_share_entries_def transfer_def catalog_entry_resident_bytes_def catalog_frame_len_def
          div_greater_zero_iff)
    moreover have "frame_header_len < transfer" using managed by (simp add: transfer_def frame_header_len_def)
    ultimately show ?thesis unfolding valid by simp
  qed
  moreover have "validate_limits (for_memory_budget command_size budget) = Some InvalidLimits"
    if "budget \<le> service_overhead + 2 * command_size"
  proof -
    have "transfer = 0" using that by (simp add: transfer_def managed_def managed_share_def)
    then have "validate_limits (for_memory_budget command_size budget) \<noteq> None" unfolding valid by simp
    then show ?thesis by (auto simp: validate_limits_def split: if_splits)
  qed
  ultimately show ?thesis by blast
qed

theorem cache_budget_is_kept_witness:
  "max_resident_bytes (memory_accounting_of 200 (for_memory_budget 200 1048576) 1) \<le> 1048576
   \<and> validate_limits (for_memory_budget 200 524288) = Some InvalidLimits"
proof -
  have sizes: "(1048576 :: nat) < usize_max" "(524288 :: nat) < usize_max" "2 * 200 \<le> usize_max"
    by (simp_all add: usize_max_def)
  have "service_overhead + 2 * 200 + 1024 \<le> 1048576" "524288 \<le> service_overhead + 2 * 200"
    by (simp_all add: service_overhead_def)
  note room = this
  have "validate_limits (for_memory_budget 200 1048576) = None"
    using cache_budget_is_kept [OF sizes(1,3)] room(1) by (elim conjE) (erule (1) mp)
  then have "max_resident_bytes (memory_accounting_of 200 (for_memory_budget 200 1048576) 1) \<le> 1048576"
    using cache_budget_is_kept [OF sizes(1,3)] by (elim conjE) (erule (1) mp)
  moreover have "validate_limits (for_memory_budget 200 524288) = Some InvalidLimits"
    using cache_budget_is_kept [OF sizes(2,3)] room(2) by (elim conjE) (erule (1) mp)
  ultimately show ?thesis ..
qed

end
