(* ===== verification/Spec2Isabelle.thy ===== *)
theory Spec2Isabelle
  imports Ids Validate Jsonc FileSlice UnionFind Dedup Build_Report Labels Build_Facts PathClass QueryAnswer
    Affected Paths Explain Fetch Cycles Cluster Repos
    AtomicWrite GraphIo MinHash Raw
    ProjectPath ParserSupport Enrichment SemanticPipeline
    Ring Credits RuntimeBudget CacheService
begin

text \<open>
  Graphoxide turns a code base into a knowledge graph and answers questions about it. This development
  models the core of the Rust sources under \<open>src/crates\<close>: what happens between the extractions that the
  language extractors deliver and the answers that the command line and the MCP server print.

  \<^bold>\<open>The program.\<close> Extractors deliver nodes, edges and hyperedges (\<open>graphoxide-core/src/model.rs\<close>);
  validators accept or refuse them; the build (\<open>graphoxide-graph/src/build.rs\<close>) normalises and merges
  them, repairs end points, drops and counts what it cannot keep, and may call the deduplication
  (\<open>dedup.rs\<close>); the analysis (\<open>analyze.rs\<close>) reads the graph; the query crate indexes it, ranks its nodes,
  walks it and prints bounded text (\<open>query.rs\<close>, \<open>affected.rs\<close>, \<open>paths.rs\<close>). Beside this line stand the
  slicing of long files for a language model (\<open>file_slice.rs\<close>) and the guard on text, metadata and URLs
  (\<open>security.rs\<close>).

  \<^bold>\<open>Theories and sources.\<close>
  \<^item> \<open>Prelude\<close>, \<open>Btree\<close>, \<open>Json\<close>, \<open>Lines\<close>, \<open>Search\<close>: strings and paths, ordered maps with their contract
    as a locale, JSON values, whole lines of a text, and search with a queue as a locale that the
    distances, the impact analysis and the path search interpret.
  \<^item> \<open>Model\<close>, \<open>Ids\<close>, \<open>Validate\<close>, \<open>Jsonc\<close>: \<open>model.rs\<close>, \<open>ids.rs\<close>, \<open>validate.rs\<close>, \<open>jsonc.rs\<close> of
    \<open>graphoxide-core\<close>. Records follow the structs; a document is a \<open>json\<close> value. Canonicalising is
    idempotent, the raw validator agrees with the schema, blanking comments keeps every offset.
  \<^item> \<open>FileSlice\<close>: \<open>file_slice.rs\<close> on bytes. Slices tile the file and read back; packing keeps every unit,
    and a chunk of several units within its limits.
  \<^item> \<open>Security\<close>, \<open>IpGuard\<close>, \<open>Fetch\<close>: \<open>security.rs\<close>. Sanitised text is safe at every depth; the IPv4
    blocklist is a list of networks; a fetch contacts only public addresses whatever the network answers,
    copies no more than its limit, and delivers exactly what a chain of permitted redirects leads to.
  \<^item> \<open>UnionFind\<close>, \<open>Dedup\<close>: \<open>dedup.rs\<close>. The recursive find, the exact and the fuzzy phase, the rewiring of
    edges; nodes and edges are conserved up to what the report counts.
  \<^item> \<open>Build_Report\<close>, \<open>Labels\<close>, \<open>Build\<close>, \<open>Build_Facts\<close>: \<open>build.rs\<close> and \<open>provenance.rs\<close>. The phases of
    \<open>build_graph_with_report_normalized\<close> are one definition each, composed in its order; the report
    accounts for everything that came in, and the graph that goes out is well formed, but for edges that may
    dangle when the replacement of a stale identifier is itself stale.
  \<^item> \<open>Analyze\<close>, \<open>Cycles\<close>: \<open>analyze.rs\<close>. Degrees count edges, hubs are the nodes of highest degree, a
    difference of graphs is exact, a pair of communities is named once, import cycles are elementary,
    canonical and the shortest.
  \<^item> \<open>Grouping\<close>, \<open>Cluster\<close>: \<open>cluster.rs\<close> around the Leiden partition. Whatever the partition answers, every
    node gets a community, communities are numbered by size without a gap, and renumbering after a previous
    graph loses none.
  \<^item> \<open>Repos\<close>: \<open>merge_repos.rs\<close> and \<open>global_graph.rs\<close>. Tags differ, merged repositories share no node and
    keep their nodes, edges and hyperedges; the global graph with its manifest stays closed under adding and
    removing, and adding again keeps and loses exactly the edges that are said.
  \<^item> \<open>AtomicWrite\<close>, \<open>GraphIo\<close>: \<open>io.rs\<close> of \<open>graphoxide-core\<close>. The replacement of a file is a step relation
    over a disk, with every failure and every interleaving of writers; beside it the size cap, bounded reads
    and the last transformation of a graph.
  \<^item> \<open>MinHash\<close>, \<open>Raw\<close>: \<open>minhash.rs\<close> on 64-bit words, and the tolerant ingestion of \<open>raw.rs\<close>.
  \<^item> \<open>Enrichment\<close>: \<open>enrichment.rs\<close>. A batch of summaries is staged, checked and published at once; it
    replaces exactly the facts that an earlier batch wrote for the same files.
  \<^item> \<open>ProjectPath\<close>, \<open>ParserSupport\<close>, \<open>SemanticPipeline\<close>: what the extractors share in
    \<open>graphoxide-extract\<close>. References stay in the project or are reported as leaving it; parsers get no more
    facts than their plan; chunks are retried on halves until they are answered, and a corpus is accounted for.
  \<^item> \<open>Ring\<close>, \<open>Credits\<close>, \<open>RuntimeBudget\<close>: \<open>graphoxide-index-runtime/src/lib.rs\<close>. The lock-free ring and the
    credit ledger are step relations over atomic operations that interleave; the layout of workers and the
    buffer pool stay within the budget.
  \<^item> \<open>CacheFrames\<close>, \<open>RuntimeCache\<close>, \<open>CacheService\<close>: \<open>graphoxide-index-runtime/src/cache.rs\<close>. Records on
    disk are read back and never mistaken when cut off; through stores with failing writes and reopenings the
    cache answers only with what was stored under a key; the limits of a memory budget keep to it or are refused.
  \<^item> \<open>PathClass\<close>: \<open>path_classification.rs\<close>, the choice among symbols of one name.
  \<^item> \<open>QueryIndex\<close>, \<open>QueryScore\<close>, \<open>QueryFind\<close>, \<open>QueryWalk\<close>, \<open>QueryText\<close>, \<open>QueryAnswer\<close>: \<open>query.rs\<close>. The
    index with its caches, the trigram prefilter and the ranking, seeds, both traversals, and the text of
    an answer with its cut to a budget.
  \<^item> \<open>Affected\<close>, \<open>Paths\<close>, \<open>Explain\<close>: \<open>affected.rs\<close> and \<open>paths.rs\<close>. Hits are nodes at their least
    distance, paths are shortest, and an explanation lists or counts every connection of its node.

  \<^bold>\<open>State.\<close> Mutable structures are values that an operation takes and returns: the index with its two
  caches, the array of the union-find, the maps and the report of the build, the set and the queue of a
  search, the writer of a fetch. A \<open>BTreeMap\<close> is the list of its entries in key order; a \<open>HashMap\<close> whose
  order is never observed is a map. Errors and early returns are branches of sums and options; a panic
  that the code can reach is a value (\<open>panic\<close>, \<open>Unreachable\<close>).

  \<^bold>\<open>What the lemmas show.\<close> For each component: the invariant of its state and that every operation keeps
  it (\<open>keyed\<close>, \<open>own_ids\<close>, \<open>index_ok\<close>, \<open>uf_ok\<close>, \<open>bt_wf\<close>, the cache invariants); equivalence of an optimised routine
  with a plain one (the prefilter with a full scan, blocking by shingles with all pairs, rounds of a search
  with a ball of hops); refinement of an abstract specification (hops and balls in \<open>Search\<close>, networks in
  \<open>IpGuard\<close>, chains of redirects in \<open>Fetch\<close>, elementary cycles in \<open>Cycles\<close>); conservation (what goes in is
  put out or counted); and where the code does not do what it means to, a concrete run that shows it.

  \<^bold>\<open>Bounds and fuel.\<close> The find of the union-find recurses as deep as the array is long, which is enough on a
  forest; the search for an unused hyperedge identifier tries one candidate more than there are identifiers,
  and candidates differ; traversals end because the unvisited nodes or the levels left decrease; the way
  back along a map of predecessors is a partial function, proved to return on the maps the search builds;
  a writer of a file takes a bounded number of steps, and the attempts to open its temporary file are the
  128 of the code; the loop over redirects makes one round more than the redirects allowed and is proved
  never to run out; a retry of a chunk descends at most as deep as its options allow; the cursors of the ring wrap around,
  which its theorem allows when the capacity divides their range; the enumeration of cycles decreases the length a path may still grow. \<open>usize\<close> arithmetic that saturates
  or wraps is written out; \<open>f64\<close> is \<open>real\<close>, so rounding is not modelled.

  \<^bold>\<open>Parameters.\<close> Unicode tables, string similarity metrics, the Chinese segmenter, the URL parser, the
  resolver, the HTTP client, the file system and the printer of numbers are arguments of the definitions
  that use them. Laws about them are assumed only where a statement names them.

  \<^bold>\<open>Not modelled.\<close> The language extractors and format readers rest on grammars and parsers that are not in
  the repository; the semantic client, the threads of the index runtime, the exporters, the MCP server, the command line,
  the generators and the editor integration are transport, processes and page text around the components above. The Leiden
  partition is a library. Of the modelled files, what only reads and writes files around the definitions (the
  check that a graph path exists, the replacement by copy on Windows, loading the global manifest) is left out. A cut
  answer is the record of its numbers and its text, without the wording of the notice around them. Opening
  the cache checks the entries of a directory before the shards, so where several things are broken at once
  another of the errors may be the one reported.
\<close>

end
